(* ===== verification/Prelude.thy ===== *)
theory Prelude
  imports "HOL-Library.Word" "HOL-Library.While_Combinator"
begin

text \<open>
  What every component of the model shares: the machine types of the code, the outcome of an
  operation that may abort or may not return, and generic facts on lists, words and finite sets.

  An operation of the code ends in one of three ways. It returns a value; one of its
  \<^verbatim>\<open>assert\<close>s fails and the process aborts (the macro at the top of
  \<^verbatim>\<open>SimdHash.h\<close> prints the condition and calls \<^verbatim>\<open>abort\<close>);
  or a \<^verbatim>\<open>while (true)\<close> loop never stops. The three outcomes are
  \<open>Some (Inr x)\<close>, \<open>Some (Inl e)\<close> and \<open>None\<close>. An exception of the
  \<^verbatim>\<open>tsl\<close> tables is an outcome of the second kind, since nothing in the program catches it.
\<close>

unbundle bit_operations_syntax

type_synonym u8 = "8 word"
type_synonym u32 = "32 word"
type_synonym u64 = "64 word"

section \<open>Outcomes of an operation\<close>

datatype failure =
    Init_size_multiple       \<comment> \<open>TagArray::Init: 0 == (_size % TagVector::SIZE)\<close>
  | Tag_size_grows           \<comment> \<open>TagArray::AdjustSize: size > _size\<close>
  | Entry_size_grows         \<comment> \<open>EntryArray::AdjustSize: size > _size\<close>
  | Rehash_count             \<comment> \<open>RehashInternal: prevCount == _Count\<close>
  | Resize_only_empty        \<comment> \<open>Resize, Mode::ResizeOnlyEmpty: _Count == 0\<close>
  | Bench_assert             \<comment> \<open>an assert of the benchmark or of the self test\<close>
  | Overflow_error           \<comment> \<open>throw std::overflow_error\<close>
  | Length_error             \<comment> \<open>throw std::length_error\<close>
  | Out_of_range             \<comment> \<open>throw std::out_of_range\<close>
  | Runtime_error            \<comment> \<open>throw std::runtime_error\<close>
  | Bad_stream               \<comment> \<open>a deserializer asked for a value that was not written\<close>
  | Out_of_bounds            \<comment> \<open>an array is read or written past its end\<close>
  | Division_by_zero         \<comment> \<open>an integer is divided by zero\<close>
  | Exit_failure             \<comment> \<open>exit(-1)\<close>

type_synonym 'a run = "(failure + 'a) option"

definition ret :: "'a \<Rightarrow> 'a run" where
  "ret x = Some (Inr x)"

definition abort :: "failure \<Rightarrow> 'a run" where
  "abort e = Some (Inl e)"

definition diverge :: "'a run" where
  "diverge = None"

definition run_bind :: "'a run \<Rightarrow> ('a \<Rightarrow> 'b run) \<Rightarrow> 'b run" where
  "run_bind m f = Option.bind m (\<lambda>r. case r of Inl e \<Rightarrow> Some (Inl e) | Inr x \<Rightarrow> f x)"

definition check :: "bool \<Rightarrow> failure \<Rightarrow> unit run" where
  "check b e = (if b then ret () else abort e)"

definition of_loop :: "'a option \<Rightarrow> 'a run" where
  "of_loop m = map_option Inr m"

named_theorems run_simps \<open>evaluation of outcomes\<close>
named_theorems unat_simps \<open>reading words as natural numbers\<close>
named_theorems inv_intros \<open>preservation of the components' invariants\<close>

lemma run_bind_simps [simp, run_simps]:
  "run_bind (ret x) f = f x"
  "run_bind (abort e) f = abort e"
  "run_bind diverge f = diverge"
  by (simp_all add: run_bind_def ret_def abort_def diverge_def)

lemma ret_abort_diverge [simp]:
  "ret x = ret y \<longleftrightarrow> x = y"
  "abort d = abort e \<longleftrightarrow> d = e"
  "ret x \<noteq> abort e" "abort e \<noteq> ret x"
  "ret x \<noteq> diverge" "diverge \<noteq> ret x"
  "abort e \<noteq> diverge" "diverge \<noteq> abort e"
  by (auto simp: ret_def abort_def diverge_def)

lemma check_simps [simp, run_simps]:
  "check True e = ret ()" "check False e = abort e"
  by (simp_all add: check_def)

lemma of_loop_simps [simp, run_simps]:
  "of_loop None = diverge" "of_loop (Some x) = ret x"
  by (simp_all add: of_loop_def diverge_def ret_def)

lemma run_cases [case_names ret abort diverge]:
  obtains x where "m = ret x" | e where "m = abort e" | "m = diverge"
  unfolding ret_def abort_def diverge_def
  by (metis not_Some_eq old.sum.exhaust)

lemma run_bind_ret_iff:
  "run_bind m f = ret y \<longleftrightarrow> (\<exists>x. m = ret x \<and> f x = ret y)"
  by (cases m rule: run_cases) auto

lemma run_bind_assoc: "run_bind (run_bind m f) g = run_bind m (\<lambda>x. run_bind (f x) g)"
  by (cases m rule: run_cases) auto

lemma run_bind_mono [partial_function_mono]:
  assumes "mono_option B" and "\<And>y. mono_option (\<lambda>f. C y f)"
  shows "mono_option (\<lambda>f. run_bind (B f) (\<lambda>y. C y f))"
  unfolding run_bind_def
  by (intro bind_mono assms) (auto split: sum.split intro!: assms monotoneI option.leq_refl dest: monotoneD[OF assms(2)])

text \<open>A \<open>for\<close> loop over the elements of a list.\<close>

fun run_fold :: "('a \<Rightarrow> 's \<Rightarrow> 's run) \<Rightarrow> 'a list \<Rightarrow> 's \<Rightarrow> 's run" where
  "run_fold f [] s = ret s"
| "run_fold f (x # xs) s = run_bind (f x s) (run_fold f xs)"

lemma run_fold_append: "run_fold f (xs @ ys) s = run_bind (run_fold f xs s) (run_fold f ys)"
proof (induction xs arbitrary: s)
  case (Cons x xs)
  then have "run_fold f (xs @ ys) = (\<lambda>s. run_bind (run_fold f xs s) (run_fold f ys))" by (rule ext)
  then show ?case by (simp add: run_bind_assoc)
qed simp

text \<open>The rule for a counted loop: every step returns and keeps the invariant.\<close>

lemma run_fold_upt:
  assumes "I 0 s" "\<And>i s. i < n \<Longrightarrow> I i s \<Longrightarrow> \<exists>s'. f i s = ret s' \<and> I (Suc i) s'"
  shows "\<exists>s'. run_fold f [0..<n] s = ret s' \<and> I n s'"
  using assms(2)
proof (induction n)
  case 0
  with assms(1) show ?case by simp
next
  case (Suc n)
  then obtain s' where "run_fold f [0..<n] s = ret s'" "I n s'" by auto
  moreover from this(2) obtain s'' where "f n s' = ret s''" "I (Suc n) s''" using Suc.prems by blast
  ultimately show ?case by (simp add: run_fold_append)
qed

section \<open>Partial and total correctness\<close>

text \<open>A run never aborts and what it returns has the property; under the condition it does return.\<close>

definition returns_if :: "bool \<Rightarrow> 'a run \<Rightarrow> ('a \<Rightarrow> bool) \<Rightarrow> bool" where
  "returns_if b r Q \<longleftrightarrow> (\<exists>x. r = ret x \<and> Q x) \<or> r = diverge \<and> \<not> b"

lemma returns_if_simps [simp]:
  "returns_if b (ret x) Q \<longleftrightarrow> Q x" "returns_if b (abort e) Q \<longleftrightarrow> False" "returns_if b diverge Q \<longleftrightarrow> \<not> b"
  by (auto simp: returns_if_def)

lemma returns_ifD:
  "returns_if b r Q \<Longrightarrow> r = ret x \<Longrightarrow> Q x"
  "returns_if b r Q \<Longrightarrow> b \<Longrightarrow> \<exists>x. r = ret x \<and> Q x"
  by (auto simp: returns_if_def)

lemma returns_if_iff:
  "returns_if b r Q \<longleftrightarrow> (\<forall>e. r \<noteq> abort e) \<and> (\<forall>x. r = ret x \<longrightarrow> Q x) \<and> (b \<longrightarrow> (\<exists>x. r = ret x))"
  by (cases r rule: run_cases) simp_all

lemma returns_if_mono:
  "returns_if b r Q \<Longrightarrow> (\<And>x. r = ret x \<Longrightarrow> Q x \<Longrightarrow> Q' x) \<Longrightarrow> (b' \<Longrightarrow> b) \<Longrightarrow> returns_if b' r Q'"
  by (auto simp: returns_if_def)

lemma returns_if_bind:
  "returns_if b r Q \<Longrightarrow> (\<And>x. r = ret x \<Longrightarrow> Q x \<Longrightarrow> returns_if b (f x) Q') \<Longrightarrow> returns_if b (run_bind r f) Q'"
  by (auto simp: returns_if_def)

lemma returns_if_fold:
  assumes "I 0 s" "\<And>i s. i < n \<Longrightarrow> I i s \<Longrightarrow> returns_if b (f i s) (I (Suc i))"
  shows "returns_if b (run_fold f [0..<n] s) (I n)"
  using assms(2)
proof (induction n)
  case 0
  with assms(1) show ?case by simp
next
  case (Suc n)
  then have "returns_if b (run_fold f [0..<n] s) (I n)" by simp
  moreover have "returns_if b (run_bind (f n x) (run_fold f [])) (I (Suc n))" if "I n x" for x
    using Suc.prems[OF _ that] by (rule returns_if_bind) simp_all
  ultimately show ?case by (auto simp: run_fold_append intro: returns_if_bind)
qed

section \<open>Lists\<close>

lemma map_nth_upt_eq_take_drop:
  "i + n \<le> length xs \<Longrightarrow> map (\<lambda>j. xs ! (i + j)) [0..<n] = take n (drop i xs)"
  by (auto simp: list_eq_iff_nth_eq)

text \<open>Overwriting a block of an array: a vector store.\<close>

definition overwrite :: "nat \<Rightarrow> 'a list \<Rightarrow> 'a list \<Rightarrow> 'a list" where
  "overwrite i ys xs = take i xs @ ys @ drop (i + length ys) xs"

lemma length_overwrite [simp]:
  "i + length ys \<le> length xs \<Longrightarrow> length (overwrite i ys xs) = length xs"
  by (simp add: overwrite_def)

lemma nth_overwrite:
  "i + length ys \<le> length xs \<Longrightarrow> j < length xs \<Longrightarrow>
   overwrite i ys xs ! j = (if i \<le> j \<and> j < i + length ys then ys ! (j - i) else xs ! j)"
  by (auto simp: overwrite_def nth_append min_def)

section \<open>Words read as numbers\<close>

lemma unat_lt_2p [simp]: "unat (x :: u32) < 2 ^ 32" "unat (y :: u64) < 2 ^ 64" "unat (z :: u8) < 2 ^ 8"
  using unsigned_less[of x] unsigned_less[of y] unsigned_less[of z] by simp_all

lemma unat_ucast_u32_u64 [simp, unat_simps]: "unat (ucast (x :: u32) :: u64) = unat x"
  using unsigned_less[of x, where 'a = nat] by (simp add: unsigned_ucast_eq take_bit_nat_eq_self)

lemma unat_ucast_u8_u64 [simp, unat_simps]: "unat (ucast (x :: u8) :: u64) = unat x"
  using unsigned_less[of x, where 'a = nat] by (simp add: unsigned_ucast_eq take_bit_nat_eq_self)

lemma unat_ucast_u8_u32 [simp, unat_simps]: "unat (ucast (x :: u8) :: u32) = unat x"
  using unsigned_less[of x, where 'a = nat] by (simp add: unsigned_ucast_eq take_bit_nat_eq_self)

lemma unat_add_u32 [unat_simps]:
  "unat (x :: u32) + unat y < 2 ^ 32 \<Longrightarrow> unat (x + y) = unat x + unat y"
  by (simp add: unat_word_ariths)

lemma unat_add_u64 [unat_simps]:
  "unat (x :: u64) + unat y < 2 ^ 64 \<Longrightarrow> unat (x + y) = unat x + unat y"
  by (simp add: unat_word_ariths)

lemma unat_p2: "k < LENGTH('a) \<Longrightarrow> unat (2 ^ k :: 'a::len word) = 2 ^ k"
proof -
  assume k: "k < LENGTH('a)"
  have "(2 ^ k :: 'a word) = of_nat (2 ^ k)" by simp
  then have "unat (2 ^ k :: 'a word) = 2 ^ k mod 2 ^ LENGTH('a)" by (simp only: unat_of_nat)
  then show ?thesis using k by simp
qed

end
