(* ===== verification/Bits.thy ===== *)
theory Bits
  imports Prelude
begin

text \<open>
  The bit-level helpers of \<^verbatim>\<open>SimdHash.h\<close>: \<open>ResetLowestSetBit\<close>,
  \<open>TrailingZeroCount\<close> (with its \<open>bFix\<close> chain for old CPUs), \<open>RoundUpToPowerOf2\<close>,
  the hash functor and the multiply-high intrinsic that replaces a division.
\<close>

section \<open>Masks\<close>

definition ResetLowestSetBit :: "'m::len word \<Rightarrow> 'm word" where
  "ResetLowestSetBit msk = msk AND (msk - 1)"

text \<open>\<open>_tzcnt_u32\<close> and \<open>_tzcnt_u64\<close>: the number of zero bits below the lowest set bit,
  the width of the operand for 0.\<close>

definition tzcnt :: "'m::len word \<Rightarrow> u32" where
  "tzcnt msk = of_nat (length (takeWhile (\<lambda>i. \<not> bit msk i) [0..<LENGTH('m)]))"

definition TrailingZeroCount :: "bool \<Rightarrow> 'm::len word \<Rightarrow> u32" where
  "TrailingZeroCount bFix msk =
     (if bFix \<and> LENGTH('m) = 32 then
        if msk AND 0x0001 \<noteq> 0 then 0
        else if msk AND 0x0002 \<noteq> 0 then 1
        else if msk AND 0x0004 \<noteq> 0 then 2
        else if msk AND 0x0008 \<noteq> 0 then 3
        else if msk AND 0x0010 \<noteq> 0 then 4
        else if msk AND 0x0020 \<noteq> 0 then 5
        else if msk AND 0x0040 \<noteq> 0 then 6
        else if msk AND 0x0080 \<noteq> 0 then 7
        else if msk AND 0x0100 \<noteq> 0 then 8
        else if msk AND 0x0200 \<noteq> 0 then 9
        else if msk AND 0x0400 \<noteq> 0 then 10
        else if msk AND 0x0800 \<noteq> 0 then 11
        else if msk AND 0x0800 \<noteq> 0 then 12
        else if msk AND 0x2000 \<noteq> 0 then 13
        else if msk AND 0x4000 \<noteq> 0 then 14
        else if msk AND 0x8000 \<noteq> 0 then 15
        else tzcnt msk
      else tzcnt msk)"

definition lowest_bit :: "'m::len word \<Rightarrow> nat" where
  "lowest_bit msk = length (takeWhile (\<lambda>i. \<not> bit msk i) [0..<LENGTH('m)])"

lemma takeWhile_upt_first:
  assumes "k < n" "P k" "\<And>i. i < k \<Longrightarrow> \<not> P i"
  shows "takeWhile (\<lambda>i. \<not> P i) [0..<n] = [0..<k]"
proof -
  have "[0..<n] = [0..<k] @ k # [Suc k..<n]"
    using assms(1) by (metis add_0 le_eq_less_or_eq upt_add_eq_append upt_conv_Cons zero_le le_add_diff_inverse)
  then show ?thesis using assms(2,3) by (simp add: takeWhile_tail)
qed

lemma lowest_bit_eqI:
  "bit (msk :: 'm::len word) k \<Longrightarrow> (\<And>i. i < k \<Longrightarrow> \<not> bit msk i) \<Longrightarrow> lowest_bit msk = k"
  using bit_imp_le_length[of msk k]
  by (simp add: lowest_bit_def takeWhile_upt_first[where P = "bit msk"])

lemma word_nonzero_bit: "(msk :: 'm::len word) \<noteq> 0 \<longleftrightarrow> (\<exists>i. bit msk i)"
  by (metis bit_0_eq bot_apply bot_bool_def bit_eqI)

lemma lowest_bit:
  fixes msk :: "'m::len word"
  assumes "msk \<noteq> 0"
  shows bit_lowest_bit: "bit msk (lowest_bit msk)"
    and below_lowest_bit: "i < lowest_bit msk \<Longrightarrow> \<not> bit msk i"
proof -
  from assms obtain j where "bit msk j" by (auto simp: word_nonzero_bit)
  define k where "k = (LEAST i. bit msk i)"
  have k: "bit msk k" "\<And>i. i < k \<Longrightarrow> \<not> bit msk i"
    using \<open>bit msk j\<close> not_less_Least unfolding k_def by (auto intro: LeastI)
  then have "lowest_bit msk = k" by (rule lowest_bit_eqI)
  with k show "bit msk (lowest_bit msk)" "i < lowest_bit msk \<Longrightarrow> \<not> bit msk i" by auto
qed

lemma lowest_bit_less: "(msk :: 'm::len word) \<noteq> 0 \<Longrightarrow> lowest_bit msk < LENGTH('m)"
  by (rule bit_imp_le_length) (rule bit_lowest_bit)

lemma tzcnt_lowest_bit: "tzcnt msk = of_nat (lowest_bit msk)"
  by (simp add: tzcnt_def lowest_bit_def)

lemma TrailingZeroCount_nofix: "TrailingZeroCount False msk = of_nat (lowest_bit msk)"
  by (simp add: TrailingZeroCount_def tzcnt_lowest_bit)

text \<open>Clearing the lowest set bit: \<open>msk AND (msk - 1)\<close>.\<close>

lemma bit_decrement_int:
  fixes m :: int
  assumes "bit m k" "\<And>i. i < k \<Longrightarrow> \<not> bit m i"
  shows "bit (m - 1) j \<longleftrightarrow> (if j < k then True else if j = k then False else bit m j)"
proof -
  define q where "q = drop_bit (Suc k) m"
  have low: "take_bit k m = 0"
    by (rule bit_eqI) (auto simp: bit_take_bit_iff assms(2))
  have m: "m = 2 ^ k + 2 ^ (Suc k) * q"
  proof -
    have "m = push_bit (Suc k) (drop_bit (Suc k) m) + take_bit (Suc k) m"
      by (simp only: bits_ident)
    also have "take_bit (Suc k) m = 2 ^ k"
      using low assms(1) by (simp add: take_bit_Suc_from_most)
    finally show ?thesis by (simp add: q_def push_bit_eq_mult mult.commute)
  qed
  have "push_bit (Suc k) q AND mask k = 0"
    by (rule bit_eqI) (auto simp: bit_and_iff bit_push_bit_iff bit_mask_iff)
  then have "push_bit (Suc k) q + mask k = push_bit (Suc k) q OR mask k"
    by (rule disjunctive_add_eq_or)
  with m have d: "m - 1 = push_bit (Suc k) q OR mask k"
    by (simp add: push_bit_eq_mult mask_eq_exp_minus_1 mult.commute)
  have "bit m j \<longleftrightarrow> bit (push_bit (Suc k) q) j" if "k < j"
    using that by (simp only: bit_push_bit_iff q_def bit_drop_bit_eq comp_def) simp
  moreover have "\<not> bit (push_bit (Suc k) q) j" if "j \<le> k"
    using that by (simp only: bit_push_bit_iff) simp
  ultimately show ?thesis
    by (cases "k < j") (auto simp: d bit_or_iff bit_mask_iff not_less)
qed

lemma bit_ResetLowestSetBit:
  fixes msk :: "'m::len word"
  assumes "msk \<noteq> 0"
  shows "bit (ResetLowestSetBit msk) j \<longleftrightarrow> bit msk j \<and> j \<noteq> lowest_bit msk"
proof (cases "j < LENGTH('m)")
  case True
  have b: "bit (uint msk) i \<longleftrightarrow> bit msk i" for i
    by (simp add: bit_uint_iff) (auto dest: bit_imp_le_length)
  have "1 \<le> msk"
    using assms by (metis word_gt_0 word_le_nat_alt unat_1 unat_gt_0 Suc_leI One_nat_def)
  then have "uint (msk - 1) = uint msk - 1"
    by (simp add: uint_minus_simple_alt)
  then have "bit (msk - 1) j \<longleftrightarrow> bit (uint msk - 1) j"
    by (metis True bit_uint_iff len_gt_0)
  also have "\<dots> \<longleftrightarrow> (if j < lowest_bit msk then True
      else if j = lowest_bit msk then False else bit msk j)"
    using bit_decrement_int[of "uint msk" "lowest_bit msk" j] lowest_bit[OF assms] b by simp
  finally show ?thesis
    using below_lowest_bit[OF assms, of j] by (auto simp: ResetLowestSetBit_def bit_and_iff)
qed (auto dest: bit_imp_le_length)

lemma ResetLowestSetBit_less:
  fixes msk :: "'m::len word"
  assumes "msk \<noteq> 0"
  shows "unat (ResetLowestSetBit msk) < unat msk"
proof -
  have "ResetLowestSetBit msk \<le> msk"
    by (simp add: ResetLowestSetBit_def word_and_le2)
  moreover have "ResetLowestSetBit msk \<noteq> msk"
    using bit_ResetLowestSetBit[OF assms] bit_lowest_bit[OF assms] by metis
  ultimately show ?thesis by (metis order_less_le unsigned_word_eqI word_le_nat_alt)
qed

text \<open>The chain of the \<open>bFix\<close> branch tests bit 11 twice and bit 12 never: its value is the
  lowest set bit unless that is bit 12 and one of bits 13 to 15 is set too.\<close>

lemma word_and_pow2: "(msk :: 'm::len word) AND 2 ^ k \<noteq> 0 \<longleftrightarrow> bit msk k"
proof (cases "k < LENGTH('m)")
  case True
  then have "msk AND 2 ^ k \<noteq> 0 \<longleftrightarrow> (\<exists>i. bit msk i \<and> i = k)"
    by (auto simp: word_nonzero_bit bit_and_iff bit_exp_iff)
  then show ?thesis by simp
next
  case False
  then have "msk AND 2 ^ k = 0"
    by (intro bit_word_eqI) (auto simp: bit_and_iff bit_exp_iff)
  with False show ?thesis by (auto dest: bit_imp_le_length)
qed

lemma TrailingZeroCount_fix_bits:
  "TrailingZeroCount True (msk :: u32) =
     (if bit msk 0 then 0 else if bit msk 1 then 1 else if bit msk 2 then 2 else if bit msk 3 then 3
      else if bit msk 4 then 4 else if bit msk 5 then 5 else if bit msk 6 then 6
      else if bit msk 7 then 7 else if bit msk 8 then 8 else if bit msk 9 then 9
      else if bit msk 10 then 10 else if bit msk 11 then 11 else if bit msk 13 then 13
      else if bit msk 14 then 14 else if bit msk 15 then 15 else tzcnt msk)"
  using word_and_pow2[of msk 0] word_and_pow2[of msk 1] word_and_pow2[of msk 2]
    word_and_pow2[of msk 3] word_and_pow2[of msk 4] word_and_pow2[of msk 5]
    word_and_pow2[of msk 6] word_and_pow2[of msk 7] word_and_pow2[of msk 8]
    word_and_pow2[of msk 9] word_and_pow2[of msk 10] word_and_pow2[of msk 11]
    word_and_pow2[of msk 13] word_and_pow2[of msk 14] word_and_pow2[of msk 15]
  by (simp add: TrailingZeroCount_def)

lemma lowest_bit_cases:
  fixes msk :: "'m::len word"
  assumes "msk \<noteq> 0"
  obtains k where "lowest_bit msk = k" "bit msk k" "\<forall>i<k. \<not> bit msk i"
  using lowest_bit[OF assms] by blast

lemma TrailingZeroCount_fix:
  fixes msk :: u32
  assumes "msk \<noteq> 0"
  shows "TrailingZeroCount True msk =
    (if lowest_bit msk = 12 \<and> (bit msk 13 \<or> bit msk 14 \<or> bit msk 15)
     then if bit msk 13 then 13 else if bit msk 14 then 14 else 15
     else of_nat (lowest_bit msk))"
proof -
  obtain k where k: "lowest_bit msk = k" "bit msk k" "\<forall>i<k. \<not> bit msk i"
    using assms by (rule lowest_bit_cases)
  have "k < 16 \<or> 16 \<le> k" by auto
  moreover have ?thesis if "k < 16"
  proof -
    from that have "k \<in> {0,1,2,3,4,5,6,7,8,9,10,11,12,13,14,15}"
      by (simp only: insert_iff empty_iff) presburger
    then show ?thesis using k by (elim insertE) (auto simp: TrailingZeroCount_fix_bits tzcnt_lowest_bit)
  qed
  moreover have ?thesis if "16 \<le> k"
    using k that by (simp add: TrailingZeroCount_fix_bits tzcnt_lowest_bit)
  ultimately show ?thesis by blast
qed

text \<open>Either way the answer is the position of a set bit.\<close>

lemma TrailingZeroCount_set_bit:
  fixes msk :: u32
  assumes "msk \<noteq> 0"
  shows "bit msk (unat (TrailingZeroCount bFix msk))"
proof -
  have l: "bit msk (lowest_bit msk)" "lowest_bit msk < 32"
    using bit_lowest_bit[OF assms] lowest_bit_less[OF assms] by auto
  then have "unat (of_nat (lowest_bit msk) :: u32) = lowest_bit msk"
    by (simp add: unat_of_nat take_bit_nat_eq_self)
  with l show ?thesis
    by (cases bFix) (auto simp: TrailingZeroCount_nofix TrailingZeroCount_fix[OF assms])
qed

section \<open>Rounding up to a power of two\<close>

definition RoundUpToPowerOf2 :: "u32 \<Rightarrow> u32" where
  "RoundUpToPowerOf2 v0 =
     (if v0 = 0 \<or> ResetLowestSetBit v0 = 0 then v0
      else let v1 = v0 - 1;
               v2 = v1 OR drop_bit 1 v1;
               v3 = v2 OR drop_bit 2 v2;
               v4 = v3 OR drop_bit 4 v3;
               v5 = v4 OR drop_bit 8 v4;
               v6 = v5 OR drop_bit 16 v5
           in v6 + 1)"

text \<open>Each step doubles how far the bits of the value are smeared downwards.\<close>

definition smeared :: "nat \<Rightarrow> 'm::len word \<Rightarrow> 'm word \<Rightarrow> bool" where
  "smeared n v x \<longleftrightarrow> (\<forall>i. bit x i \<longleftrightarrow> (\<exists>j<n. bit v (i + j)))"

lemma smeared_1: "smeared 1 v v"
  by (simp add: smeared_def)

lemma smeared_double:
  assumes "smeared n v x"
  shows "smeared (2 * n) v (x OR drop_bit n x)"
  unfolding smeared_def
proof (intro allI)
  fix i
  have "bit (x OR drop_bit n x) i \<longleftrightarrow> (\<exists>j<n. bit v (i + j)) \<or> (\<exists>j<n. bit v (i + n + j))"
    using assms by (simp add: smeared_def bit_or_iff bit_drop_bit_eq ac_simps)
  also have "\<dots> \<longleftrightarrow> (\<exists>j<2 * n. bit v (i + j))"
  proof (intro iffI; (elim disjE exE conjE)?)
    fix j assume "j < n" "bit v (i + n + j)"
    then show "\<exists>j<2 * n. bit v (i + j)" by (intro exI[of _ "n + j"]) (simp add: ac_simps)
  next
    fix j assume "j < 2 * n" "bit v (i + j)"
    then show "(\<exists>j<n. bit v (i + j)) \<or> (\<exists>j<n. bit v (i + n + j))"
    proof (cases "j < n")
      case False
      with \<open>j < 2 * n\<close> \<open>bit v (i + j)\<close> have "j - n < n \<and> bit v (i + n + (j - n))" by simp
      then show ?thesis by blast
    qed blast
  next
    fix j assume "j < n" "bit v (i + j)"
    then show "\<exists>j<2 * n. bit v (i + j)" by (intro exI[of _ j]) simp
  qed
  finally show "bit (x OR drop_bit n x) i \<longleftrightarrow> (\<exists>j<2 * n. bit v (i + j))" .
qed

lemma smeared_full_mask:
  fixes v :: "'m::len word"
  assumes "smeared (LENGTH('m)) v x" "unat v < 2 ^ Suc k" "2 ^ k \<le> unat v"
  shows "x = mask (Suc k)"
proof (rule bit_word_eqI)
  fix i assume i: "i < LENGTH('m)"
  have vb: "bit v j \<longleftrightarrow> bit (unat v) j" for j
    by (simp add: bit_unsigned_iff)
  have top: "bit v k"
  proof -
    have "unat v div 2 ^ k = 1" using assms(2,3) by (intro div_nat_eqI) auto
    then show ?thesis unfolding vb by (simp add: bit_iff_odd)
  qed
  have k: "k < LENGTH('m)" using top by (rule bit_imp_le_length)
  have high: "\<not> bit v j" if "k < j" for j
  proof -
    have "(2::nat) ^ Suc k \<le> 2 ^ j" using that by (intro power_increasing) auto
    then show ?thesis using assms(2) unfolding vb by (simp add: bit_iff_odd)
  qed
  have "bit x i \<longleftrightarrow> (\<exists>j<LENGTH('m). bit v (i + j))"
    using assms(1) by (simp add: smeared_def)
  also have "\<dots> \<longleftrightarrow> i \<le> k"
  proof
    assume "\<exists>j<LENGTH('m). bit v (i + j)"
    then show "i \<le> k" using high by (metis add_leE linorder_not_le)
  next
    assume "i \<le> k"
    then show "\<exists>j<LENGTH('m). bit v (i + j)" using top k by (intro exI[of _ "k - i"]) auto
  qed
  finally show "bit x i \<longleftrightarrow> bit (mask (Suc k) :: 'm word) i"
    using i by (auto simp: bit_mask_iff)
qed

lemma RoundUpToPowerOf2_mask:
  assumes "v0 \<noteq> 0" "ResetLowestSetBit v0 \<noteq> 0"
    and "unat (v0 - 1) < 2 ^ Suc k" "2 ^ k \<le> unat (v0 - 1)"
  shows "RoundUpToPowerOf2 v0 = mask (Suc k) + 1"
proof -
  note s2 = smeared_double[OF smeared_1[of "v0 - 1"]]
  note s4 = smeared_double[OF s2]
  note s8 = smeared_double[OF s4]
  note s16 = smeared_double[OF s8]
  note s32 = smeared_double[OF s16]
  have s: "smeared (LENGTH(32)) (v0 - 1) (RoundUpToPowerOf2 v0 - 1)"
    using assms(1,2) s32 by (simp add: RoundUpToPowerOf2_def Let_def)
  show ?thesis
    using smeared_full_mask[OF s assms(3,4)] by (simp add: algebra_simps)
qed

lemma floor_log2_exists: "0 < (n::nat) \<Longrightarrow> \<exists>k. 2 ^ k \<le> n \<and> n < 2 ^ Suc k"
  by (metis ex_power_ivl1 order_le_less_trans one_le_numeral le_refl less_eq_Suc_le One_nat_def lessI numeral_2_eq_2 Suc_eq_plus1)

lemma single_bit_word:
  fixes v :: "'m::len word"
  assumes "v \<noteq> 0" "ResetLowestSetBit v = 0"
  shows "v = 2 ^ lowest_bit v"
proof (rule bit_word_eqI)
  fix i assume "i < LENGTH('m)"
  then show "bit v i \<longleftrightarrow> bit (2 ^ lowest_bit v :: 'm word) i"
    using bit_ResetLowestSetBit[OF assms(1), of i] bit_lowest_bit[OF assms(1)] assms(2)
    by (auto simp: bit_exp_iff)
qed

lemma RoundUpToPowerOf2_spec:
  assumes "0 < unat v" "unat v \<le> 2 ^ 31"
  shows "\<exists>k\<le>31. unat (RoundUpToPowerOf2 v) = 2 ^ k \<and> unat v \<le> 2 ^ k \<and> 2 ^ k < 2 * unat v"
proof (cases "ResetLowestSetBit v = 0")
  case True
  have nz: "v \<noteq> 0" using assms(1) by auto
  let ?k = "lowest_bit v"
  have k: "?k < 32" using lowest_bit_less[OF nz] by simp
  have "unat v = unat (2 ^ ?k :: u32)" using single_bit_word[OF nz True] by simp
  also have "\<dots> = 2 ^ ?k" using k by (simp add: unat_p2)
  finally show ?thesis using True k by (intro exI[of _ ?k]) (simp add: RoundUpToPowerOf2_def)
next
  case False
  have nz: "v \<noteq> 0" using assms(1) by auto
  have "v \<noteq> 1" using False by (auto simp: ResetLowestSetBit_def)
  have d: "unat (v - 1) = unat v - 1"
    using nz by (simp add: unat_minus_one)
  have "unat v \<noteq> 1" using \<open>v \<noteq> 1\<close> by (metis unat_1 unsigned_word_eqI)
  then have "0 < unat (v - 1)" using assms(1) d by simp
  then obtain k where k: "2 ^ k \<le> unat (v - 1)" "unat (v - 1) < 2 ^ Suc k"
    using floor_log2_exists by blast
  have "(2::nat) ^ k < 2 ^ 31" using k(1) d assms by simp
  then have "k < 31" by (rule power_less_imp_less_exp[rotated]) simp
  have "RoundUpToPowerOf2 v = mask (Suc k) + 1"
    by (rule RoundUpToPowerOf2_mask[OF nz False k(2,1)])
  also have "\<dots> = 2 ^ Suc k" by (simp add: mask_eq_exp_minus_1)
  finally have "unat (RoundUpToPowerOf2 v) = 2 ^ Suc k"
    using \<open>k < 31\<close> unat_p2[of "Suc k", where 'a = 32] by simp
  with k d \<open>k < 31\<close> assms(1) show ?thesis by (intro exI[of _ "Suc k"]) auto
qed

lemma RoundUpToPowerOf2_overflow:
  assumes "2 ^ 31 < unat v"
  shows "RoundUpToPowerOf2 v = 0"
proof -
  have nz: "v \<noteq> 0" using assms by auto
  have d: "unat (v - 1) = unat v - 1" using nz by (simp add: unat_minus_one)
  have "ResetLowestSetBit v \<noteq> 0"
  proof
    assume z: "ResetLowestSetBit v = 0"
    have "lowest_bit v < 32" using lowest_bit_less[OF nz] by simp
    then have "(2::nat) ^ lowest_bit v \<le> 2 ^ 31" by (intro power_increasing) auto
    moreover have "unat v = 2 ^ lowest_bit v"
      using single_bit_word[OF nz z] \<open>lowest_bit v < 32\<close> unat_p2[of "lowest_bit v", where 'a = 32]
      by simp
    ultimately show False using assms by simp
  qed
  moreover have "unat (v - 1) < 2 ^ Suc 31" using unat_lt_2p(1)[of "v - 1"] by simp
  moreover have "2 ^ 31 \<le> unat (v - 1)" using assms d by simp
  ultimately have "RoundUpToPowerOf2 v = mask (Suc 31) + 1"
    using RoundUpToPowerOf2_mask[OF nz] by blast
  then show ?thesis by (simp add: mask_eq_exp_minus_1)
qed

section \<open>The hash functor\<close>

datatype hash_type = Default | Fib | Absl

definition fib :: u64 where "fib = 11400714819323198485"
definition kMul :: u64 where "kMul = 0xdcb22ca68cb134ed"

definition Hash_hash :: "hash_type \<Rightarrow> u64 \<Rightarrow> u64" where
  "Hash_hash type key = (if type = Absl then (key XOR kMul) * kMul else (key XOR fib) * fib)"

text \<open>\<open>operator()\<close> dispatches on the type of the key. A key is given here as the bits the dispatch
  reads: an integer already converted to 64 bits, the bit pattern of a float or a double, an address,
  or any other type, whose hash is the one of \<open>std::hash\<close>, a parameter.\<close>

datatype 'k hash_key = Integral u64 | Float_bits u32 | Double_bits u64 | Pointer u64 | Other 'k

fun Hash_operator :: "hash_type \<Rightarrow> ('k \<Rightarrow> u64) \<Rightarrow> 'k hash_key \<Rightarrow> u64" where
  "Hash_operator type std_hash (Integral key) = Hash_hash type key"
| "Hash_operator type std_hash (Float_bits bits) = Hash_hash type (ucast bits)"
| "Hash_operator type std_hash (Double_bits bits) = Hash_hash type bits"
| "Hash_operator type std_hash (Pointer addr) = Hash_hash type addr"
| "Hash_operator type std_hash (Other key) = std_hash key"

text \<open>Both multipliers are odd, so the multiplication can be undone modulo \<open>2^64\<close>.\<close>

definition Hash_unhash :: "hash_type \<Rightarrow> u64 \<Rightarrow> u64" where
  "Hash_unhash type h =
     (if type = Absl then (h * 13491095016723794149) XOR kMul else (h * 17428512612931826493) XOR fib)"

lemma odd_multiplier_inverse: "kMul * 13491095016723794149 = 1" "fib * 17428512612931826493 = 1"
  by (simp_all add: kMul_def fib_def)

lemma Hash_unhash_hash: "Hash_unhash type (Hash_hash type key) = key"
proof -
  have "(key XOR c) * c * d XOR c = key" if "c * d = 1" for c d :: u64
    by (simp add: mult.assoc that xor.assoc)
  with odd_multiplier_inverse show ?thesis by (simp add: Hash_unhash_def Hash_hash_def)
qed

section \<open>Multiply-high in place of a division\<close>

text \<open>\<open>__umulh\<close>: the high 64 bits of the 128-bit product.\<close>

definition umulh :: "u64 \<Rightarrow> u64 \<Rightarrow> u64" where
  "umulh a b = of_nat (unat a * unat b div 2 ^ 64)"

lemma unat_umulh: "unat (umulh a b) = unat a * unat b div 2 ^ 64"
proof -
  have "unat a * unat b \<le> 2 ^ 64 * unat b"
    using unat_lt_2p(2)[of a] by (intro mult_le_mono1) simp
  also have "\<dots> \<le> 2 ^ 64 * (2 ^ 64 - 1)"
    using unat_lt_2p(2)[of b] by (intro mult_le_mono2) simp
  finally have "unat a * unat b div 2 ^ 64 \<le> 2 ^ 64 - 1"
    by (metis div_le_mono nonzero_mult_div_cancel_left power_not_zero zero_neq_numeral)
  then show ?thesis by (simp add: umulh_def unat_of_nat take_bit_nat_eq_self)
qed

definition fastmod_multiplier :: "nat \<Rightarrow> nat" where
  "fastmod_multiplier d = (2 ^ 64 - 1) div d + 1"

text \<open>The multiplier is \<open>2^64 / d\<close> rounded up; for operands below \<open>2^32\<close> the excess \<open>e\<close> is too small
  to change the quotient.\<close>

lemma fastmod_exact:
  assumes d: "1 < d" "d \<le> 2 ^ 31" and n: "n < 2 ^ 32"
  shows "(fastmod_multiplier d * n mod 2 ^ 64) * d div 2 ^ 64 = n mod d"
proof -
  define M where "M = fastmod_multiplier d"
  define e where "e = M * d - 2 ^ 64"
  define q r where "q = n div d" and "r = n mod d"
  define a where "a = (2 ^ 64 - 1 :: nat) div d"
  have a: "a * d + (2 ^ 64 - 1) mod d = 2 ^ 64 - 1" unfolding a_def by (rule div_mult_mod_eq)
  have m: "(2 ^ 64 - 1) mod d < d" using d by simp
  have Md: "M * d = a * d + d" by (simp add: M_def fastmod_multiplier_def a_def algebra_simps)
  then have Md': "M * d + (2 ^ 64 - 1) mod d + 1 = 2 ^ 64 + d" using a by simp
  then have "2 ^ 64 \<le> M * d" using m by linarith
  then have e: "M * d = 2 ^ 64 + e" by (simp add: e_def)
  have "e + (2 ^ 64 - 1) mod d + 1 = d" using Md' e by linarith
  then have ed: "e < d" by linarith
  have r: "r < d" "n = q * d + r" using d by (auto simp: q_def r_def)
  have "2 ^ 33 * d \<le> 2 ^ 33 * 2 ^ 31" using d by (intro mult_le_mono2)
  also have "\<dots> \<le> M * d" using e by simp
  finally have M: "2 ^ 33 \<le> M" using d by simp
  have "q * e \<le> q * d" using ed by simp
  also have "\<dots> \<le> n" using r by simp
  finally have qe: "q * e < 2 ^ 32" using n by simp
  have "M * (r + 1) \<le> M * d" using r by (intro mult_le_mono2) simp
  then have low: "q * e + M * r < 2 ^ 64"
    using qe e ed M d by (simp add: algebra_simps)
  have "M * n = 2 ^ 64 * q + (q * e + M * r)"
  proof -
    have "M * n = q * (M * d) + M * r" using r(2) by (simp add: algebra_simps)
    then show ?thesis by (simp add: e algebra_simps)
  qed
  then have lowbits: "M * n mod 2 ^ 64 = q * e + M * r" using low by simp
  have "(q * e + M * r) * d = n * e + 2 ^ 64 * r"
  proof -
    have "(q * e + M * r) * d = q * e * d + r * (M * d)" by (simp add: algebra_simps)
    then show ?thesis using r(2) by (simp add: e algebra_simps)
  qed
  moreover have "n * e < 2 ^ 64"
  proof -
    have "n * e \<le> n * 2 ^ 31" using ed d by (intro mult_le_mono2) linarith
    also have "\<dots> < 2 ^ 32 * 2 ^ 31" using n by simp
    finally show ?thesis by simp
  qed
  ultimately have "(q * e + M * r) * d div 2 ^ 64 = r" by simp
  then show ?thesis using lowbits by (simp add: M_def r_def)
qed

end
