(* ===== verification/EntryArray.thy ===== *)
theory EntryArray
  imports Bits
begin

text \<open>
  \<open>EntryArray<TEntry, 12>\<close>: the entries, in pages of 4096. The contents of a fresh page are unknown
  (\<open>new TEntry[PageSize]\<close> leaves integers indeterminate): they are the argument \<open>raw\<close> of the
  operation that allocates. The locale \<open>entry_store\<close> is what the hash table relies on: an array whose
  cells are independent and survive growth.
\<close>

definition Shift :: nat where "Shift = 12"
definition PageSize :: u32 where "PageSize = push_bit Shift 1"
definition Mask :: u64 where "Mask = push_bit Shift 1 - 1"

lemma page_consts: "Shift = 12" "PageSize = 4096" "Mask = 4095"
  by (simp_all add: Shift_def PageSize_def Mask_def)

record 'e entry_array =
  ea_pages :: "'e list list option"
  ea_size :: u32

definition EntryArray_new :: "'e entry_array" where
  "EntryArray_new = \<lparr>ea_pages = None, ea_size = 0\<rparr>"

definition ea_page_list :: "'e entry_array \<Rightarrow> 'e list list" where
  "ea_page_list a = (case ea_pages a of None \<Rightarrow> [] | Some ps \<Rightarrow> ps)"

definition EntryArray_get :: "'e entry_array \<Rightarrow> u64 \<Rightarrow> 'e" where
  "EntryArray_get a index =
     ea_page_list a ! unat (drop_bit Shift index) ! unat (index AND Mask)"

definition EntryArray_set :: "'e entry_array \<Rightarrow> u64 \<Rightarrow> 'e \<Rightarrow> 'e entry_array" where
  "EntryArray_set a index e =
     (let ps = ea_page_list a; p = unat (drop_bit Shift index) in
      case ea_pages a of None \<Rightarrow> a
      | Some _ \<Rightarrow> a\<lparr>ea_pages := Some (ps[p := (ps ! p)[unat (index AND Mask) := e]])\<rparr>)"

definition EntryArray_AdjustSize ::
    "bool \<Rightarrow> (nat \<Rightarrow> 'e) \<Rightarrow> u32 \<Rightarrow> 'e entry_array \<Rightarrow> 'e entry_array run" where
  "EntryArray_AdjustSize bUse raw sz0 a =
     (if bUse then
        let sz = (if sz0 mod PageSize \<noteq> 0 then sz0 + (PageSize - sz0 mod PageSize) else sz0) in
        run_bind (check (sz > ea_size a) Entry_size_grows) (\<lambda>_.
        let old_pages = ea_page_list a;
            old_capacity = unat (ea_size a div PageSize);
            pages = map (\<lambda>i. if i < old_capacity then old_pages ! i
                             else map raw [0..<unat PageSize]) [0..<unat (sz div PageSize)]
        in ret (a\<lparr>ea_pages := Some pages, ea_size := sz\<rparr>))
      else ret a)"

section \<open>The interface\<close>

locale entry_store =
  fixes get :: "'a \<Rightarrow> u64 \<Rightarrow> 'e"
    and set :: "'a \<Rightarrow> u64 \<Rightarrow> 'e \<Rightarrow> 'a"
    and len :: "'a \<Rightarrow> nat"
    and ok :: "'a \<Rightarrow> bool"
    and grow :: "(nat \<Rightarrow> 'e) \<Rightarrow> u32 \<Rightarrow> 'a \<Rightarrow> 'a run"
  assumes get_set: "ok a \<Longrightarrow> unat i < len a \<Longrightarrow> unat j < len a \<Longrightarrow>
      get (set a i e) j = (if i = j then e else get a j)"
    and ok_set: "ok a \<Longrightarrow> unat i < len a \<Longrightarrow> ok (set a i e)"
    and len_set: "len (set a i e) = len a"
    and grow_ok: "ok a \<Longrightarrow> len a < unat n \<Longrightarrow> unat n \<le> 2 ^ 31 \<Longrightarrow> \<exists>b. grow raw n a = ret b \<and> ok b
      \<and> unat n \<le> len b \<and> (\<forall>j. unat j < len a \<longrightarrow> get b j = get a j)"
begin

text \<open>Cells of an array under a numeric index; the indices the table uses are below \<open>2^32\<close>.\<close>

definition cell :: "'a \<Rightarrow> nat \<Rightarrow> 'e" where
  "cell a i = get a (of_nat i)"

lemma unat_index: "i < 2 ^ 32 \<Longrightarrow> unat (of_nat i :: u64) = i"
  by (simp add: unat_of_nat)

lemma cell_get: "get a i = cell a (unat i)"
  by (simp add: cell_def)

lemma cell_set:
  assumes "ok a" "len a \<le> 2 ^ 32" "unat i < len a" "j < len a"
  shows "cell (set a i e) j = (if unat i = j then e else cell a j)"
proof -
  have j: "unat (of_nat j :: u64) = j" using assms by (simp add: unat_index)
  have "i = of_nat j \<longleftrightarrow> unat i = j" using j by (metis of_nat_unat ucast_id)
  with assms j show ?thesis by (simp add: cell_def get_set)
qed

lemma cell_grow:
  assumes "ok a" "len a < unat n" "unat n \<le> 2 ^ 31" "grow raw n a = ret b"
  shows "ok b" "unat n \<le> len b" "j < len a \<Longrightarrow> cell b j = cell a j"
proof -
  have "\<exists>b. grow raw n a = ret b \<and> ok b
      \<and> unat n \<le> len b \<and> (\<forall>j. unat j < len a \<longrightarrow> get b j = get a j)"
    using assms(1-3) by (rule grow_ok)
  then have g: "ok b" "unat n \<le> len b" "\<forall>j. unat j < len a \<longrightarrow> get b j = get a j"
    using assms(4) by auto
  then show "ok b" "unat n \<le> len b" by auto
  assume "j < len a"
  then have "unat (of_nat j :: u64) = j" using assms(2,3) by (intro unat_index) simp
  with g \<open>j < len a\<close> show "cell b j = cell a j" by (simp add: cell_def)
qed

end

section \<open>The paged array implements the interface\<close>

definition entries_ok :: "'e entry_array \<Rightarrow> bool" where
  "entries_ok a \<longleftrightarrow> unat (ea_size a) = 4096 * length (ea_page_list a)
     \<and> (\<forall>p \<in> set (ea_page_list a). length p = 4096)
     \<and> (ea_pages a = None \<longrightarrow> ea_size a = 0)"

definition ea_len :: "'e entry_array \<Rightarrow> nat" where
  "ea_len a = unat (ea_size a)"

lemma page_index:
  "unat (drop_bit Shift (i :: u64)) = unat i div 4096" "unat (i AND Mask) = unat i mod 4096"
proof -
  show "unat (drop_bit Shift i) = unat i div 4096"
    by (simp only: unat_drop_bit_eq) (simp add: drop_bit_eq_div page_consts)
  have "i AND Mask = take_bit 12 i" by (simp add: take_bit_eq_mask page_consts mask_eq_exp_minus_1)
  moreover have "unat (take_bit 12 i) = take_bit 12 (unat i)" by (rule unsigned_take_bit_eq)
  ultimately show "unat (i AND Mask) = unat i mod 4096" by (simp add: take_bit_eq_mod)
qed

lemma entries_ok_new [simp]: "entries_ok EntryArray_new" "ea_len EntryArray_new = 0"
  by (simp_all add: entries_ok_def EntryArray_new_def ea_page_list_def ea_len_def)

lemma div_mod_eqI: "i div (n::nat) = j div n \<Longrightarrow> i mod n = j mod n \<Longrightarrow> i = j"
  by (metis div_mult_mod_eq)

lemma entry_get_set:
  assumes "entries_ok a" "unat i < ea_len a" "unat j < ea_len a"
  shows "EntryArray_get (EntryArray_set a i e) j = (if i = j then e else EntryArray_get a j)"
proof -
  obtain ps where ps: "ea_pages a = Some ps"
    using assms by (cases "ea_pages a") (auto simp: entries_ok_def ea_len_def)
  have n: "length ps * 4096 = unat (ea_size a)" "\<forall>p \<in> set ps. length p = 4096"
    using assms(1) ps by (auto simp: entries_ok_def ea_page_list_def)
  have lt: "unat i div 4096 < length ps" "unat j div 4096 < length ps"
    using assms(2,3) n(1) by (auto simp: ea_len_def less_mult_imp_div_less)
  then have len: "length (ps ! (unat i div 4096)) = 4096" using n(2) by simp
  have "i = j \<longleftrightarrow> unat i div 4096 = unat j div 4096 \<and> unat i mod 4096 = unat j mod 4096"
    using div_mod_eqI[of "unat i" 4096 "unat j"] by (metis unsigned_word_eqI)
  then show ?thesis
    using lt len ps
    by (auto simp: EntryArray_get_def EntryArray_set_def ea_page_list_def page_index nth_list_update
        Let_def)
qed

lemma entry_set_ok:
  assumes "entries_ok a" "unat i < ea_len a"
  shows "entries_ok (EntryArray_set a i e)"
proof -
  obtain ps where ps: "ea_pages a = Some ps"
    using assms by (cases "ea_pages a") (auto simp: entries_ok_def ea_len_def)
  have "unat i div 4096 < length ps"
    using assms ps by (auto simp: entries_ok_def ea_page_list_def ea_len_def less_mult_imp_div_less)
  with assms(1) ps show ?thesis
    by (auto simp: entries_ok_def EntryArray_set_def ea_page_list_def page_index Let_def
        dest!: set_update_subset_insert[THEN subsetD])
qed

lemma entry_set_len: "ea_len (EntryArray_set a i e) = ea_len a"
  by (simp add: ea_len_def EntryArray_set_def Let_def split: option.split)

definition page_round :: "nat \<Rightarrow> nat" where
  "page_round n = (n + 4095) div 4096 * 4096"

lemma page_round_up:
  assumes "n mod 4096 \<noteq> 0"
  shows "page_round n = n + (4096 - n mod 4096)"
proof -
  define q r where "q = n div 4096" and "r = n mod 4096"
  have n: "n = 4096 * q + r" "0 < r" "r < 4096"
    using assms by (auto simp: q_def r_def)
  then have "(n + 4095) div 4096 = q + 1" by auto
  with n show ?thesis by (simp add: page_round_def)
qed

lemma page_round_ge: "n \<le> page_round n"
proof (cases "n mod 4096 = 0")
  case True
  then show ?thesis by (auto simp: page_round_def)
next
  case False
  then show ?thesis by (simp add: page_round_up)
qed

lemma page_round_word:
  assumes "unat (n :: u32) \<le> 2 ^ 31"
  shows "unat (if n mod PageSize \<noteq> 0 then n + (PageSize - n mod PageSize) else n) = page_round (unat n)"
proof -
  have m: "unat (n mod PageSize) = unat n mod 4096"
    by (simp add: page_consts unat_mod)
  show ?thesis
  proof (cases "unat n mod 4096 = 0")
    case True
    then have "n mod PageSize = 0" using m by (metis unat_eq_zero)
    with True show ?thesis by (auto simp: page_round_def)
  next
    case False
    have nz: "n mod PageSize \<noteq> 0"
    proof
      assume "n mod PageSize = 0"
      then have "unat (n mod PageSize) = 0" by (simp only: unat_0)
      with m False show False by (simp only:)
    qed
    have "unat (PageSize - n mod PageSize) = 4096 - unat n mod 4096"
      using m by (subst unat_sub) (auto simp: word_le_nat_alt page_consts)
    then have "unat (n + (PageSize - n mod PageSize)) = unat n + (4096 - unat n mod 4096)"
      using assms by (subst unat_add_u32) auto
    moreover have "page_round (unat n) = unat n + (4096 - unat n mod 4096)"
      using False by (rule page_round_up)
    ultimately show ?thesis using nz by simp
  qed
qed

lemma AdjustSize_entries:
  assumes "entries_ok a" "ea_len a < unat n" "unat n \<le> 2 ^ 31"
  obtains b where "EntryArray_AdjustSize True raw n a = ret b" "entries_ok b"
    "ea_len b = page_round (unat n)"
    "\<And>j. unat j < ea_len a \<Longrightarrow> EntryArray_get b j = EntryArray_get a j"
    "\<And>j. ea_len a \<le> unat j \<Longrightarrow> unat j < ea_len b \<Longrightarrow> EntryArray_get b j = raw (unat j mod 4096)"
proof -
  define sz where "sz = (if n mod PageSize \<noteq> 0 then n + (PageSize - n mod PageSize) else n)"
  have sz: "unat sz = page_round (unat n)"
    unfolding sz_def using assms(3) by (rule page_round_word)
  have le: "unat n \<le> unat sz" by (simp add: sz page_round_ge)
  define old where "old = ea_page_list a"
  define pages where "pages = map (\<lambda>i. if i < length old then old ! i else map raw [0..<4096])
      [0..<unat sz div 4096]"
  have cap: "unat (ea_size a div PageSize) = length old"
    using assms(1) by (simp add: entries_ok_def old_def unat_div page_consts)
  define b where "b = a\<lparr>ea_pages := Some pages, ea_size := sz\<rparr>"
  have dv: "4096 dvd unat sz" unfolding sz page_round_def by simp
  have old4: "\<forall>p \<in> set old. length p = 4096" "length old * 4096 = ea_len a"
    using assms(1) by (auto simp: entries_ok_def old_def ea_len_def)
  have get_b: "EntryArray_get b j = pages ! (unat j div 4096) ! (unat j mod 4096)" for j
    by (simp add: EntryArray_get_def b_def ea_page_list_def page_index)
  have pages: "pages ! k = (if k < length old then old ! k else map raw [0..<4096])"
    if "k < unat sz div 4096" for k
    using that by (simp add: pages_def)
  have "ea_size a < sz"
    using assms(2) le by (simp add: word_less_nat_alt ea_len_def)
  then have "EntryArray_AdjustSize True raw n a = ret b"
    unfolding EntryArray_AdjustSize_def sz_def[symmetric] Let_def cap b_def pages_def old_def
    by (simp add: unat_div page_consts)
  moreover have "entries_ok b"
    using dv old4(1) by (auto simp: entries_ok_def b_def ea_page_list_def pages_def)
  moreover have "ea_len b = page_round (unat n)" by (simp add: ea_len_def b_def sz)
  moreover have "EntryArray_get b j = EntryArray_get a j" if "unat j < ea_len a" for j
  proof -
    have "unat j div 4096 < length old" using that old4 by (simp add: less_mult_imp_div_less)
    moreover have "unat j div 4096 < unat sz div 4096"
      using that assms(2) le dv by (auto elim!: dvdE simp: less_mult_imp_div_less)
    ultimately show ?thesis by (simp add: get_b pages) (simp add: EntryArray_get_def old_def page_index)
  qed
  moreover have "EntryArray_get b j = raw (unat j mod 4096)" if "ea_len a \<le> unat j" "unat j < ea_len b" for j
  proof -
    have "\<not> unat j div 4096 < length old"
      using that(1) old4(2) by (metis div_le_mono linorder_not_le nonzero_mult_div_cancel_right
          zero_neq_numeral)
    moreover have "unat j div 4096 < unat sz div 4096"
      using that(2) dv by (auto elim!: dvdE simp: b_def ea_len_def less_mult_imp_div_less)
    ultimately show ?thesis by (simp add: get_b pages)
  qed
  ultimately show ?thesis by (rule that)
qed

interpretation ea: entry_store EntryArray_get EntryArray_set ea_len entries_ok "EntryArray_AdjustSize True"
proof unfold_locales
  fix a :: "'b entry_array" and n :: u32 and raw :: "nat \<Rightarrow> 'b"
  assume "entries_ok a" "ea_len a < unat n" "unat n \<le> 2 ^ 31"
  then obtain b where "EntryArray_AdjustSize True raw n a = ret b" "entries_ok b"
    "ea_len b = page_round (unat n)" "\<And>j. unat j < ea_len a \<Longrightarrow> EntryArray_get b j = EntryArray_get a j"
    by (rule AdjustSize_entries[where raw = raw]) blast
  moreover have "unat n \<le> page_round (unat n)" by (rule page_round_ge)
  ultimately show "\<exists>b. EntryArray_AdjustSize True raw n a = ret b \<and> entries_ok b
      \<and> unat n \<le> ea_len b \<and> (\<forall>j. unat j < ea_len a \<longrightarrow> EntryArray_get b j = EntryArray_get a j)"
    by auto
qed (simp_all add: entry_get_set entry_set_ok entry_set_len)

lemma AdjustSize_shrink_entries:
  assumes "unat n \<le> 2 ^ 31" "page_round (unat n) \<le> ea_len a"
  shows "EntryArray_AdjustSize True raw n a = abort Entry_size_grows"
  using assms page_round_word[OF assms(1)]
  by (simp add: EntryArray_AdjustSize_def Let_def ea_len_def word_less_nat_alt)

end
