(* ===== verification/Floats.thy ===== *)
theory Floats
  imports Complex_Main "HOL-Library.Log_Nat" Prelude
begin

text \<open>
  The floating-point arithmetic of the load factors. A finite positive \<open>float\<close> or \<open>double\<close> is a
  rational; each operation is the exact operation followed by a rounding to \<open>p\<close> significant bits
  (24 for \<open>float\<close>, 53 for \<open>double\<close>), to nearest with ties to even, the default rounding mode. All values
  that occur lie between \<open>2^-32\<close> and \<open>2^33\<close>, so neither overflow nor subnormal numbers arise.
\<close>

definition round_half_even :: "rat \<Rightarrow> int" where
  "round_half_even x =
     (let n = \<lfloor>x\<rfloor>; d = x - of_int n in
      if d < 1 / 2 then n else if d > 1 / 2 then n + 1 else if even n then n else n + 1)"

text \<open>The exponent \<open>k\<close> with \<open>2^k \<le> x < 2^(k+1)\<close>, from the bit lengths of the fraction.\<close>

definition ilog2 :: "rat \<Rightarrow> int" where
  "ilog2 x = (case quotient_of x of (n, d) \<Rightarrow>
     let k = bitlen n - bitlen d in if 2 powi k \<le> x then k else k - 1)"

definition fl_round :: "nat \<Rightarrow> rat \<Rightarrow> rat" where
  "fl_round p x =
     (if x = 0 then 0
      else let u = 2 powi (ilog2 x - (int p - 1)) in of_int (round_half_even (x / u)) * u)"

abbreviation to_float :: "rat \<Rightarrow> rat" where "to_float \<equiv> fl_round 24"
abbreviation to_double :: "rat \<Rightarrow> rat" where "to_double \<equiv> fl_round 53"

lemma round_half_even_error: "\<bar>of_int (round_half_even x) - x\<bar> \<le> 1 / 2"
proof -
  have "of_int \<lfloor>x\<rfloor> \<le> x" "x < of_int \<lfloor>x\<rfloor> + 1" using floor_correct[of x] by auto
  then show ?thesis unfolding round_half_even_def Let_def abs_le_iff
    by (simp split: if_splits; linarith)
qed

lemma ilog2_bounds:
  assumes "0 < x"
  shows "2 powi ilog2 x \<le> x" "x < 2 powi (ilog2 x + 1)"
proof -
  obtain n d where q: "quotient_of x = (n, d)" by force
  then have d: "0 < d" and x: "x = of_int n / of_int d"
    by (auto simp: quotient_of_denom_pos quotient_of_div)
  with assms have n: "0 < n" by (simp add: zero_less_divide_iff)
  define a b where "a = bitlen n" and "b = bitlen d"
  have bn: "2 ^ nat (a - 1) \<le> n" "n < 2 ^ nat a" and bd: "2 ^ nat (b - 1) \<le> d" "d < 2 ^ nat b"
    using bitlen_bounds[OF n] bitlen_bounds[OF d] by (auto simp: a_def b_def)
  have pos: "0 < a" "0 < b"
    using n d by (auto simp: a_def b_def bitlen_nonneg less_le bitlen_eq_zero_iff)
  have p: "(of_int (2 ^ nat k) :: rat) = 2 powi k" if "0 \<le> k" for k
    using that by (simp add: power_int_def)
  have hi: "x < 2 powi (a - b + 1)"
  proof -
    have "of_int n < (2 powi a :: rat)"
      using bn(2) p[of a] pos by (metis of_int_less_iff less_imp_le)
    also have "\<dots> = 2 powi (a - b + 1) * 2 powi (b - 1)"
      by (simp flip: power_int_add)
    also have "\<dots> \<le> 2 powi (a - b + 1) * of_int d"
      using bd(1) p[of "b - 1"] pos by (metis mult_left_mono of_int_le_iff zero_le_power_int
          zero_le_numeral int_one_le_iff_zero_less diff_ge_0_iff_ge)
    finally show ?thesis using d by (simp add: x divide_less_eq)
  qed
  have lo: "2 powi (a - b - 1) < x"
  proof -
    have "2 powi (a - b - 1) * of_int d < (2 powi (a - b - 1) * 2 powi b :: rat)"
      using bd(2) p[of b] pos by (metis mult_strict_left_mono of_int_less_iff zero_less_power_int
          zero_less_numeral less_imp_le)
    also have "\<dots> = 2 powi (a - 1)"
      by (simp flip: power_int_add)
    also have "\<dots> \<le> of_int n"
      using bn(1) p[of "a - 1"] pos by (metis of_int_le_iff int_one_le_iff_zero_less diff_ge_0_iff_ge)
    finally show ?thesis using d by (simp add: x less_divide_eq)
  qed
  show "2 powi ilog2 x \<le> x" "x < 2 powi (ilog2 x + 1)"
    using hi lo by (auto simp: ilog2_def q a_def b_def Let_def not_le)
qed

text \<open>The relative error of one rounding is at most \<open>2^-p\<close>.\<close>

lemma fl_round_error:
  assumes "0 \<le> x" "0 < p"
  shows "\<bar>fl_round p x - x\<bar> \<le> x / 2 ^ p"
proof (cases "x = 0")
  case False
  define u :: rat where "u = 2 powi (ilog2 x - (int p - 1))"
  have u: "0 < u" by (simp add: u_def)
  have "2 powi ilog2 x = u * 2 ^ (p - 1)"
  proof -
    have "u * 2 ^ (p - 1) = u * 2 powi (int p - 1)"
      using assms(2) by (simp add: power_int_def nat_diff_distrib)
    then show ?thesis by (simp add: u_def flip: power_int_add)
  qed
  then have "u * 2 ^ (p - 1) \<le> x"
    using ilog2_bounds(1)[of x] False assms(1) by simp
  then have half: "u / 2 \<le> x / 2 ^ p"
    using assms(2) by (cases p) (simp_all add: field_simps)
  have "fl_round p x - x = (of_int (round_half_even (x / u)) - x / u) * u"
    using False u unfolding fl_round_def Let_def u_def[symmetric] by (simp add: field_simps)
  then have "\<bar>fl_round p x - x\<bar> = \<bar>of_int (round_half_even (x / u)) - x / u\<bar> * u"
    using u by (simp add: abs_mult)
  also have "\<dots> \<le> 1 / 2 * u"
    using round_half_even_error u by (intro mult_right_mono) auto
  finally show ?thesis using half by linarith
qed (simp add: fl_round_def)

lemma fl_round_bounds:
  assumes "0 \<le> x" "0 < p"
  shows "x * (1 - 1 / 2 ^ p) \<le> fl_round p x" "fl_round p x \<le> x * (1 + 1 / 2 ^ p)"
  using fl_round_error[OF assms] by (auto simp: abs_le_iff algebra_simps)

lemma fl_round_nonneg: "0 \<le> x \<Longrightarrow> 0 < p \<Longrightarrow> 0 \<le> fl_round p x"
proof -
  assume a: "0 \<le> x" "0 < p"
  have "0 \<le> x * (1 - 1 / 2 ^ p)" using a by (intro mult_nonneg_nonneg) (auto simp: field_simps)
  then show ?thesis using fl_round_bounds(1)[OF a] by linarith
qed


text \<open>The conversions to an unsigned integer truncate.\<close>

definition trunc_u32 :: "rat \<Rightarrow> u32" where "trunc_u32 x = of_int \<lfloor>x\<rfloor>"
definition trunc_u64 :: "rat \<Rightarrow> u64" where "trunc_u64 x = of_int \<lfloor>x\<rfloor>"

lemma unat_trunc_u32:
  assumes "0 \<le> x" "x < 2 ^ 32"
  shows "unat (trunc_u32 x) = nat \<lfloor>x\<rfloor>"
proof -
  have "0 \<le> \<lfloor>x\<rfloor>" "\<lfloor>x\<rfloor> < 2 ^ 32" using assms by (simp_all add: floor_less_iff)
  then have "(of_int \<lfloor>x\<rfloor> :: u32) = of_nat (nat \<lfloor>x\<rfloor>)" "nat \<lfloor>x\<rfloor> < 2 ^ 32"
    by (auto simp: nat_less_iff)
  then show ?thesis by (simp add: trunc_u32_def unat_of_nat)
qed

lemma unat_trunc_u64:
  assumes "0 \<le> x" "x < 2 ^ 64"
  shows "unat (trunc_u64 x) = nat \<lfloor>x\<rfloor>"
proof -
  have "0 \<le> \<lfloor>x\<rfloor>" "\<lfloor>x\<rfloor> < 2 ^ 64" using assms by (simp_all add: floor_less_iff)
  then have "(of_int \<lfloor>x\<rfloor> :: u64) = of_nat (nat \<lfloor>x\<rfloor>)" "nat \<lfloor>x\<rfloor> < 2 ^ 64"
    by (auto simp: nat_less_iff)
  then show ?thesis by (simp add: trunc_u64_def unat_of_nat)
qed

lemma one_le_of_nat: "0 < m \<Longrightarrow> 1 \<le> (of_nat m :: rat)"
  by (simp add: Suc_le_eq)

lemma of_nat_less_2p: "m < 2 ^ k \<Longrightarrow> (of_nat m :: rat) < 2 ^ k"
  by (metis of_nat_less_iff of_nat_numeral of_nat_power)

text \<open>Two roundings do not bring a part of a number, at most 125/128 of it, up to the number.\<close>

lemma scaled_less:
  assumes x: "1 \<le> x" and m: "0 \<le> ml" "ml \<le> 125 / 128"
  shows "0 \<le> to_float (to_float x * ml)" "to_float (to_float x * ml) < x"
proof -
  define e :: rat where "e = 1 / 2 ^ 24"
  have e: "0 < e" "e < 1 / 1000" by (simp_all add: e_def)
  have x0: "0 \<le> x" using x by simp
  have a: "0 \<le> to_float x" "to_float x \<le> x * (1 + e)"
    unfolding e_def by (rule fl_round_nonneg[OF x0] fl_round_bounds[OF x0]; simp)+
  have p: "0 \<le> to_float x * ml" using a m by simp
  have b: "0 \<le> to_float (to_float x * ml)" "to_float (to_float x * ml) \<le> to_float x * ml * (1 + e)"
    unfolding e_def by (rule fl_round_nonneg[OF p] fl_round_bounds[OF p]; simp)+
  show "0 \<le> to_float (to_float x * ml)" by (rule b(1))
  have "ml * (1 + e) * (1 + e) \<le> 125 / 128 * (1001 / 1000) * (1001 / 1000)"
    using m e by (intro mult_mono) auto
  then have k: "ml * (1 + e) * (1 + e) < 1" by simp
  have "to_float x * ml * (1 + e) = to_float x * (ml * (1 + e))" by (simp only: mult.assoc)
  also have "\<dots> \<le> x * (1 + e) * (ml * (1 + e))" by (rule mult_right_mono[OF a(2)]) (use m e in simp)
  also have "\<dots> = x * (ml * (1 + e) * (1 + e))" by (simp add: mult.commute mult.left_commute)
  also have "\<dots> < x * 1" using k x by (intro mult_strict_left_mono) auto
  finally show "to_float (to_float x * ml) < x" using b by simp
qed

section \<open>The load factors\<close>

definition MAX_LOAD_FACTOR :: rat where "MAX_LOAD_FACTOR = to_float (to_double (99 / 100))"
definition DEF_LOAD_FACTOR :: rat where "DEF_LOAD_FACTOR = to_float (to_double (9766 / 10000))"
definition MIN_LOAD_FACTOR :: rat where "MIN_LOAD_FACTOR = to_float (to_double (75 / 100))"

lemma ilog2_unique:
  assumes "2 powi k \<le> x" "x < 2 powi (k + 1)"
  shows "ilog2 x = k"
proof -
  have "0 < (2 powi k :: rat)" by simp
  with assms(1) have x: "0 < x" by linarith
  have "(2 powi k :: rat) < 2 powi (ilog2 x + 1)" "(2 powi ilog2 x :: rat) < 2 powi (k + 1)"
    using ilog2_bounds[OF x] assms by linarith+
  then have "k < ilog2 x + 1" "ilog2 x < k + 1"
    by (metis power_int_increasing linorder_not_less one_le_numeral)+
  then show ?thesis by simp
qed

lemma fl_round_scaled:
  assumes "2 powi k \<le> x" "x < 2 powi (k + 1)" "u = 2 powi (k - (int p - 1))"
  shows "fl_round p x = of_int (round_half_even (x / u)) * u"
proof -
  have "0 < (2 powi k :: rat)" by simp
  with assms(1) have "x \<noteq> 0" by linarith
  then show ?thesis using ilog2_unique[OF assms(1,2)] assms(3) by (simp add: fl_round_def Let_def)
qed

lemma round_half_even_near:
  assumes "of_int n - 1 / 2 < x" "x < of_int n + 1 / 2"
  shows "round_half_even x = n"
proof -
  have "\<bar>of_int (round_half_even x) - x\<bar> \<le> 1 / 2" by (rule round_half_even_error)
  with assms have "of_int (round_half_even x) < (of_int (n + 1) :: rat)"
    "(of_int (n - 1) :: rat) < of_int (round_half_even x)"
    unfolding abs_le_iff of_int_add of_int_diff of_int_1 by linarith+
  then show ?thesis unfolding of_int_less_iff by simp
qed

text \<open>Evaluation of one rounding: the exponent and the nearest integer are checked, not computed.\<close>

lemma fl_round_eval:
  assumes "2 powi k \<le> x" "x < 2 powi (k + 1)" "u = 2 powi (k - (int p - 1))"
    "of_int n - 1 / 2 < x / u" "x / u < of_int n + 1 / 2"
  shows "fl_round p x = of_int n * u"
  using fl_round_scaled[OF assms(1-3)] round_half_even_near[OF assms(4,5)] by simp

lemma load_factor_values:
  "MAX_LOAD_FACTOR = 16609444 / 2 ^ 24"
  "DEF_LOAD_FACTOR = 16384629 / 2 ^ 24"
  "MIN_LOAD_FACTOR = 3 / 4"
proof -
  have a1: "to_double (99 / 100) = of_int 8917127262193582 * (1 / 2 ^ 53)"
    by (rule fl_round_eval[where k = "-1"]) (simp_all add: power_int_def power_one_over)
  have a2: "to_float (of_int 8917127262193582 * (1 / 2 ^ 53)) = of_int 16609444 * (1 / 2 ^ 24)"
    by (rule fl_round_eval[where k = "-1"]) (simp_all add: power_int_def power_one_over)
  show "MAX_LOAD_FACTOR = 16609444 / 2 ^ 24" unfolding MAX_LOAD_FACTOR_def a1 a2 by simp
  have b1: "to_double (9766 / 10000) = of_int 8796430792180053 * (1 / 2 ^ 53)"
    by (rule fl_round_eval[where k = "-1"]) (simp_all add: power_int_def power_one_over)
  have b2: "to_float (of_int 8796430792180053 * (1 / 2 ^ 53)) = of_int 16384629 * (1 / 2 ^ 24)"
    by (rule fl_round_eval[where k = "-1"]) (simp_all add: power_int_def power_one_over)
  show "DEF_LOAD_FACTOR = 16384629 / 2 ^ 24" unfolding DEF_LOAD_FACTOR_def b1 b2 by simp
  have c1: "to_double (75 / 100) = of_int (3 * 2 ^ 51) * (1 / 2 ^ 53)"
    by (rule fl_round_eval[where k = "-1"]) (simp_all add: power_int_def power_one_over)
  have c2: "to_float (of_int (3 * 2 ^ 51) * (1 / 2 ^ 53)) = of_int (3 * 2 ^ 22) * (1 / 2 ^ 24)"
    by (rule fl_round_eval[where k = "-1"]) (simp_all add: power_int_def power_one_over)
  show "MIN_LOAD_FACTOR = 3 / 4" unfolding MIN_LOAD_FACTOR_def c1 c2 by simp
qed

end
