(* ===== verification/Capacity.thy ===== *)
theory Capacity
  imports EntryArray Floats
begin

text \<open>
  The sizes of a table: \<open>AdjustCapacity\<close> in the six modes, the growth limit of \<open>max_load_factor\<close>, the
  constants \<open>InitCapacity\<close> stores and the index computation \<open>AdjustTupleIndex\<close> that uses them.
\<close>

datatype mode = Fast | FastDivMod | SaveMemoryFast | SaveMemoryOpt | SaveMemoryMax | ResizeOnlyEmpty

fun mode_value :: "mode \<Rightarrow> u32" where
  "mode_value Fast = 0"
| "mode_value FastDivMod = 1"
| "mode_value SaveMemoryFast = 2"
| "mode_value SaveMemoryOpt = 4"
| "mode_value SaveMemoryMax = 8"
| "mode_value ResizeOnlyEmpty = 16"

definition MIN_SIZE :: u32 where "MIN_SIZE = 4096"
definition MAX_SIZE :: u32 where "MAX_SIZE = 0x80000000"

lemmas size_consts = MIN_SIZE_def MAX_SIZE_def

text \<open>The loop over the intermediate sizes of the \<open>SaveMemory\<close> modes: \<open>Some\<close> of the size returned
  from inside the loop, \<open>None\<close> when it runs out.\<close>

definition save_size :: "u32 \<Rightarrow> u32 \<Rightarrow> u32 \<Rightarrow> u64" where
  "save_size ph pn i =
     (let new_size = ucast (ph div 2) * ucast i div ucast pn + ucast (ph div 2)
      in new_size div ucast PageSize * ucast PageSize)"

function save_loop :: "u32 \<Rightarrow> u32 \<Rightarrow> u32 \<Rightarrow> u32 \<Rightarrow> u32 option" where
  "save_loop sz ph pn i =
     (if i < pn then
        (let new_size = save_size ph pn i in
         if ucast sz \<le> new_size then Some (ucast new_size) else save_loop sz ph pn (i + 1))
      else None)"
  by pat_completeness auto
termination
proof (relation "measure (\<lambda>(sz, ph, pn, i). unat pn - unat i)")
  fix sz ph pn i :: u32 and x
  assume "i < pn"
  then have "unat (i + 1) = unat i + 1" "unat i < unat pn"
    using unat_lt_2p(1)[of pn] by (auto simp: word_less_nat_alt unat_word_ariths)
  then show "((sz, ph, pn, i + 1), sz, ph, pn, i) \<in> measure (\<lambda>(sz, ph, pn, i). unat pn - unat i)"
    by simp
qed simp

declare save_loop.simps [simp del]

definition save_pi :: "mode \<Rightarrow> u32 \<Rightarrow> u32" where
  "save_pi mode ph =
     (let pn = mode_value mode in
      if mode = SaveMemoryMax then
        if ph \<le> 64 * 1024 * 1024 then mode_value SaveMemoryOpt
        else pn * (ph div 1024 div 1024) div 128
      else pn)"

definition AdjustCapacity :: "mode \<Rightarrow> u32 \<Rightarrow> u32" where
  "AdjustCapacity mode sz =
     (if sz \<le> MIN_SIZE then MIN_SIZE
      else if sz \<ge> MAX_SIZE then MAX_SIZE
      else if mode = ResizeOnlyEmpty then
        let new_size = trunc_u64 (to_float (to_float (of_nat (unat sz)) / MAX_LOAD_FACTOR)) in
        if new_size \<ge> ucast MAX_SIZE then MAX_SIZE
        else
          let new_size = (if new_size mod ucast PageSize \<noteq> 0
                          then (new_size div ucast PageSize + 1) * ucast PageSize else new_size) in
          if new_size \<ge> ucast MAX_SIZE then MAX_SIZE
          else ucast new_size
      else if mode_value mode > mode_value FastDivMod then
        let ph = RoundUpToPowerOf2 sz in
        if ph \<le> 16 * 1024 * 1024 then ph
        else (case save_loop sz ph (save_pi mode ph) 1 of
                Some new_size \<Rightarrow> new_size
              | None \<Rightarrow> RoundUpToPowerOf2 sz)
      else RoundUpToPowerOf2 sz)"

section \<open>Bounds of the sizes\<close>

text \<open>A capacity of the table: between the two limits, a whole number of pages, a power of two in the
  modes that compute with a mask or whose intermediate sizes are off.\<close>

definition pow2_mode :: "mode \<Rightarrow> bool" where
  "pow2_mode mode \<longleftrightarrow> mode = Fast \<or> mode = FastDivMod"

definition cap_ok :: "mode \<Rightarrow> nat \<Rightarrow> bool" where
  "cap_ok mode C \<longleftrightarrow> 4096 \<le> C \<and> C \<le> 2 ^ 31 \<and> 4096 dvd C \<and> (pow2_mode mode \<longrightarrow> (\<exists>k. C = 2 ^ k))"

lemma pow2_cap_ok:
  assumes "12 \<le> k" "k \<le> 31"
  shows "cap_ok mode (2 ^ k)"
proof -
  have "(2::nat) ^ 12 \<le> 2 ^ k" by (rule power_increasing[OF assms(1)]) simp
  moreover have "(2::nat) ^ k \<le> 2 ^ 31" by (rule power_increasing[OF assms(2)]) simp
  moreover have "(2::nat) ^ 12 dvd 2 ^ k" using assms(1) by (rule le_imp_power_dvd)
  ultimately show ?thesis unfolding cap_ok_def by auto
qed

lemma RoundUp_cap_ok:
  assumes "MIN_SIZE < sz" "sz < MAX_SIZE"
  shows "cap_ok mode (unat (RoundUpToPowerOf2 sz))" "unat sz \<le> unat (RoundUpToPowerOf2 sz)"
proof -
  have s: "4096 < unat sz" "unat sz \<le> 2 ^ 31"
    using assms by (auto simp: size_consts word_less_nat_alt)
  then obtain k where k: "k \<le> 31" "unat (RoundUpToPowerOf2 sz) = 2 ^ k" "unat sz \<le> 2 ^ k"
    using RoundUpToPowerOf2_spec[of sz] by auto
  have "(2::nat) ^ 12 < 2 ^ k" using s(1) k(3) by simp
  then have "12 \<le> k" using power_less_imp_less_exp[of "2::nat" 12 k] by simp
  then show "cap_ok mode (unat (RoundUpToPowerOf2 sz))" using k by (simp add: pow2_cap_ok)
  show "unat sz \<le> unat (RoundUpToPowerOf2 sz)" using k by simp
qed

lemma save_size_bounds:
  assumes "unat ph \<le> 2 ^ 31" "0 < i" "i < pn" "pn \<le> 128"
  shows "unat (save_size ph pn i) = (unat ph div 2 * unat i div unat pn + unat ph div 2) div 4096 * 4096"
    "unat (save_size ph pn i) \<le> unat ph"
proof -
  have n: "unat i < unat pn" "unat pn \<le> 128" "0 < unat i"
    using assms by (auto simp: word_less_nat_alt word_le_nat_alt)
  have h: "unat ph div 2 \<le> 2 ^ 30" using assms(1) by simp
  then have m: "unat ph div 2 * unat i \<le> 2 ^ 30 * 128" using n by (intro mult_le_mono) auto
  have d: "unat (ph div 2) = unat ph div 2" by (simp add: unat_div)
  have le: "unat ph div 2 * unat i div unat pn \<le> unat ph div 2"
    using n by (metis div_le_mono less_imp_le_nat mult_le_mono2 nonzero_mult_div_cancel_right
        bot_nat_0.not_eq_extremum less_nat_zero_code)
  have p: "unat (ucast (ph div 2) * ucast i :: u64) = unat ph div 2 * unat i"
    using m d by (simp add: unat_word_ariths)
  have q: "unat (ucast (ph div 2) * ucast i div ucast pn + ucast (ph div 2) :: u64)
      = unat ph div 2 * unat i div unat pn + unat ph div 2" (is "unat ?s = ?n")
    using le h by (subst unat_add_u64) (simp_all add: unat_div p d)
  have sd: "unat (?s div ucast PageSize) = ?n div 4096"
    by (subst unat_div) (simp only: q, simp add: page_consts)
  moreover have "?n div 4096 * 4096 \<le> ?n" by (rule div_times_less_eq_dividend)
  moreover have "?n \<le> unat ph" using le by linarith
  ultimately have r: "unat (?s div ucast PageSize * ucast PageSize) = ?n div 4096 * 4096"
    using assms(1) by (subst unat_word_ariths) (simp only: sd, simp add: page_consts)
  then show "unat (save_size ph pn i) = ?n div 4096 * 4096"
    by (simp add: save_size_def Let_def)
  with \<open>?n div 4096 * 4096 \<le> ?n\<close> \<open>?n \<le> unat ph\<close> show "unat (save_size ph pn i) \<le> unat ph" by simp
qed

lemma save_loop_Some:
  assumes "unat ph \<le> 2 ^ 31" "pn \<le> 128" "0 < i" "save_loop sz ph pn i = Some c"
  shows "unat sz \<le> unat c \<and> unat c \<le> unat ph \<and> 4096 dvd unat c"
  using assms
proof (induction sz ph pn i rule: save_loop.induct)
  case (1 sz ph pn i)
  from "1.prems"(4) have lt: "i < pn" by (subst (asm) save_loop.simps) (simp split: if_splits)
  show ?case
  proof (cases "ucast sz \<le> save_size ph pn i")
    case True
    then have c: "c = ucast (save_size ph pn i)"
      using "1.prems"(4) lt by (subst (asm) save_loop.simps) (simp add: Let_def)
    have b: "unat (save_size ph pn i) \<le> unat ph" "4096 dvd unat (save_size ph pn i)"
      using save_size_bounds[OF "1.prems"(1,3) lt "1.prems"(2)] by auto
    then have "unat c = unat (save_size ph pn i)"
      using unat_lt_2p(1)[of ph] by (simp add: c unsigned_ucast_eq take_bit_nat_eq_self)
    with True b show ?thesis by (simp add: word_le_nat_alt)
  next
    case False
    have "unat (i + 1) = unat i + 1"
      using lt unat_lt_2p(1)[of pn] by (auto simp: word_less_nat_alt unat_word_ariths)
    then have "0 < i + 1" by (simp add: word_less_nat_alt)
    moreover have "save_loop sz ph pn (i + 1) = Some c"
      using "1.prems"(4) lt False by (subst (asm) save_loop.simps) (simp add: Let_def)
    ultimately show ?thesis using "1.IH"[OF lt refl False] "1.prems" by blast
  qed
qed

lemma save_pi_le:
  assumes "mode \<in> {SaveMemoryFast, SaveMemoryOpt, SaveMemoryMax}" "unat ph \<le> 2 ^ 31"
  shows "save_pi mode ph \<le> 128"
proof -
  have "unat ph div 1024 div 1024 \<le> 2048" using assms(2) by simp
  then have "unat (8 * (ph div 1024 div 1024) div 128) \<le> 128"
    by (simp add: unat_div unat_word_ariths)
  then show ?thesis
    using assms(1) by (auto simp: save_pi_def Let_def word_le_nat_alt)
qed


lemma save_loop_cap_ok:
  assumes "MIN_SIZE < sz" "sz < MAX_SIZE" "mode \<in> {SaveMemoryFast, SaveMemoryOpt, SaveMemoryMax}"
    "save_loop sz (RoundUpToPowerOf2 sz) (save_pi mode (RoundUpToPowerOf2 sz)) 1 = Some c"
  shows "cap_ok mode (unat c)" "unat sz \<le> unat c" "unat c \<le> unat (RoundUpToPowerOf2 sz)"
proof -
  have ph: "unat (RoundUpToPowerOf2 sz) \<le> 2 ^ 31"
    using RoundUp_cap_ok[OF assms(1,2)] by (auto simp: cap_ok_def)
  have c: "unat sz \<le> unat c \<and> unat c \<le> unat (RoundUpToPowerOf2 sz) \<and> 4096 dvd unat c"
    using save_loop_Some[OF ph save_pi_le[OF assms(3) ph] _ assms(4)] by simp
  moreover have "4096 < unat sz" using assms(1) by (simp add: size_consts word_less_nat_alt)
  ultimately show "cap_ok mode (unat c)"
    using ph assms(3) by (auto simp: cap_ok_def pow2_mode_def)
  show "unat sz \<le> unat c" "unat c \<le> unat (RoundUpToPowerOf2 sz)" using c by auto
qed

text \<open>\<open>Mode::ResizeOnlyEmpty\<close> divides by the largest load factor. Two roundings to 24 bits cannot
  undo the one per cent the division adds.\<close>

lemma only_empty_quotient:
  fixes n :: rat
  assumes "4096 < n" "n \<le> 2 ^ 31"
  shows "n \<le> to_float (to_float n / MAX_LOAD_FACTOR)"
    "to_float (to_float n / MAX_LOAD_FACTOR) < 2 ^ 32"
proof -
  define y where "y = to_float n / MAX_LOAD_FACTOR"
  have f: "n * (1 - 1 / 2 ^ 24) \<le> to_float n" "to_float n \<le> n * (1 + 1 / 2 ^ 24)"
    using fl_round_bounds[of n 24] assms by auto
  have y: "n * (1 - 1 / 2 ^ 24) * (2 ^ 24 / 16609444) \<le> y"
      "y \<le> n * (1 + 1 / 2 ^ 24) * (2 ^ 24 / 16609444)"
    using f by (simp_all add: y_def load_factor_values field_simps)
  have "0 \<le> y" using y(1) assms by simp
  then have g: "y * (1 - 1 / 2 ^ 24) \<le> to_float y" "to_float y \<le> y * (1 + 1 / 2 ^ 24)"
    using fl_round_bounds[of y 24] by auto
  have "n * 1 \<le> n * ((1 - 1 / 2 ^ 24) * (2 ^ 24 / 16609444) * (1 - 1 / 2 ^ 24))"
    using assms by (intro mult_left_mono) auto
  also have "\<dots> = n * (1 - 1 / 2 ^ 24) * (2 ^ 24 / 16609444) * (1 - 1 / 2 ^ 24)"
    by (simp only: mult.assoc)
  also have "\<dots> \<le> y * (1 - 1 / 2 ^ 24)"
    using y(1) by (intro mult_right_mono) auto
  finally show "n \<le> to_float (to_float n / MAX_LOAD_FACTOR)"
    using g(1) by (simp add: y_def)
  have "y * (1 + 1 / 2 ^ 24) \<le> n * (1 + 1 / 2 ^ 24) * (2 ^ 24 / 16609444) * (1 + 1 / 2 ^ 24)"
    using y(2) by (intro mult_right_mono) auto
  also have "\<dots> < 2 ^ 32" using assms by simp
  finally show "to_float (to_float n / MAX_LOAD_FACTOR) < 2 ^ 32"
    using g(2) by (simp add: y_def)
qed

lemma only_empty_cap_ok:
  assumes "MIN_SIZE < sz" "sz < MAX_SIZE"
  shows "cap_ok ResizeOnlyEmpty (unat (AdjustCapacity ResizeOnlyEmpty sz))"
    "unat sz \<le> unat (AdjustCapacity ResizeOnlyEmpty sz)"
proof -
  define x where "x = to_float (to_float (of_nat (unat sz)) / MAX_LOAD_FACTOR)"
  define n where "n = nat \<lfloor>x\<rfloor>"
  have s: "4096 < unat sz" "unat sz < 2 ^ 31"
    using assms by (auto simp: size_consts word_less_nat_alt)
  have "(of_nat 4096 :: rat) < of_nat (unat sz)" "of_nat (unat sz) \<le> (of_nat (2 ^ 31) :: rat)"
    using s by (simp_all only: of_nat_less_iff of_nat_le_iff less_imp_le)
  note x = only_empty_quotient[OF this[unfolded of_nat_numeral of_nat_power], folded x_def]
  have "0 \<le> x" using x(1) by (meson of_nat_0_le_iff order_trans)
  with x(2) have u: "unat (trunc_u64 x) = n" by (simp add: unat_trunc_u64 n_def)
  have "of_int (int (unat sz)) \<le> x" using x(1) by (simp only: of_int_of_nat_eq)
  then have "int (unat sz) \<le> \<lfloor>x\<rfloor>" by (simp only: le_floor_iff)
  then have ns: "unat sz \<le> n" unfolding n_def by linarith
  have n32: "n < 2 ^ 32" using x(2) \<open>0 \<le> x\<close> unfolding n_def by (simp add: nat_less_iff floor_less_iff)
  have P: "unat (ucast PageSize :: u64) = 4096" and M: "unat (ucast MAX_SIZE :: u64) = 2 ^ 31"
    by (simp_all add: page_consts size_consts)
  define w where "w = (if trunc_u64 x mod ucast PageSize \<noteq> 0
      then (trunc_u64 x div ucast PageSize + 1) * ucast PageSize else trunc_u64 x)"
  have w: "unat w = page_round n"
  proof (cases "n mod 4096 = 0")
    case True
    then have "unat (trunc_u64 x mod ucast PageSize) = 0" by (simp only: unat_mod u P)
    then have "trunc_u64 x mod ucast PageSize = 0" by (simp only: unat_eq_zero)
    with True u show ?thesis by (auto simp: w_def page_round_def)
  next
    case False
    then have "unat (trunc_u64 x mod ucast PageSize) \<noteq> 0" by (simp only: unat_mod u P) simp
    then have "trunc_u64 x mod ucast PageSize \<noteq> 0" by (metis unat_0)
    moreover have "unat ((trunc_u64 x div ucast PageSize + 1) * ucast PageSize) = (n div 4096 + 1) * 4096"
      using n32 by (simp only: unat_word_ariths unat_div u P) simp
    moreover have "(n div 4096 + 1) * 4096 = page_round n"
      using page_round_up[OF False] by (simp add: algebra_simps minus_mod_eq_mult_div [symmetric])
    ultimately show ?thesis by (simp add: w_def)
  qed
  have c: "\<not> sz \<le> MIN_SIZE" "\<not> sz \<ge> MAX_SIZE" using assms by auto
  have "AdjustCapacity ResizeOnlyEmpty sz = (if trunc_u64 x \<ge> ucast MAX_SIZE then MAX_SIZE
      else if w \<ge> ucast MAX_SIZE then MAX_SIZE else ucast w)"
    unfolding AdjustCapacity_def Let_def x_def w_def by (simp only: c if_False if_True refl)
  then have A: "AdjustCapacity ResizeOnlyEmpty sz =
      (if 2 ^ 31 \<le> n then MAX_SIZE else if 2 ^ 31 \<le> page_round n then MAX_SIZE else ucast w)"
    by (simp only: word_le_nat_alt M u w)
  have "unat (ucast w :: u32) = page_round n" if "page_round n < 2 ^ 31"
    using that w by (simp add: unsigned_ucast_eq take_bit_nat_eq_self)
  then have "unat (AdjustCapacity ResizeOnlyEmpty sz)
      = (if 2 ^ 31 \<le> n \<or> 2 ^ 31 \<le> page_round n then 2 ^ 31 else page_round n)"
    unfolding A by (simp add: size_consts)
  moreover have "4096 dvd page_round n" "n \<le> page_round n" by (simp_all add: page_round_def page_round_ge[unfolded page_round_def])
  ultimately show "cap_ok ResizeOnlyEmpty (unat (AdjustCapacity ResizeOnlyEmpty sz))"
    "unat sz \<le> unat (AdjustCapacity ResizeOnlyEmpty sz)"
    using s ns by (auto simp: cap_ok_def pow2_mode_def)
qed

lemma AdjustCapacity_cap_ok: "cap_ok mode (unat (AdjustCapacity mode sz))"
proof (cases "MIN_SIZE < sz \<and> sz < MAX_SIZE")
  case True
  show ?thesis
  proof (cases "mode = ResizeOnlyEmpty")
    case False
    with True show ?thesis
      using RoundUp_cap_ok save_loop_cap_ok(1)[of sz mode]
      by (cases mode) (auto simp: AdjustCapacity_def Let_def split: option.split)
  qed (use True only_empty_cap_ok in auto)
next
  case False
  have "cap_ok mode (2 ^ 12)" "cap_ok mode (2 ^ 31)" by (rule pow2_cap_ok; simp)+
  with False show ?thesis by (auto simp: AdjustCapacity_def size_consts not_less)
qed

lemma AdjustCapacity_ge:
  assumes "sz \<le> MAX_SIZE"
  shows "unat sz \<le> unat (AdjustCapacity mode sz)"
proof (cases "MIN_SIZE < sz \<and> sz < MAX_SIZE")
  case True
  show ?thesis
  proof (cases "mode = ResizeOnlyEmpty")
    case False
    with True show ?thesis
      using RoundUp_cap_ok save_loop_cap_ok(2)[of sz mode]
      by (cases mode) (auto simp: AdjustCapacity_def Let_def split: option.split)
  qed (use True only_empty_cap_ok in auto)
next
  case False
  with assms show ?thesis by (auto simp: AdjustCapacity_def not_less word_le_nat_alt)
qed

lemma AdjustCapacity_pow2:
  assumes "pow2_mode mode" "MIN_SIZE < sz" "sz < MAX_SIZE"
  shows "AdjustCapacity mode sz = RoundUpToPowerOf2 sz"
  using assms by (cases mode) (auto simp: AdjustCapacity_def pow2_mode_def Let_def)

text \<open>The \<open>SaveMemory\<close> modes never take more than the next power of two.\<close>

lemma AdjustCapacity_save:
  assumes "mode \<in> {SaveMemoryFast, SaveMemoryOpt, SaveMemoryMax}" "MIN_SIZE < sz" "sz < MAX_SIZE"
  shows "unat (AdjustCapacity mode sz) \<le> unat (RoundUpToPowerOf2 sz)"
  using assms save_loop_cap_ok(3)[OF assms(2,3,1)]
  by (cases mode) (auto simp: AdjustCapacity_def Let_def split: option.split)

section \<open>The constants of a capacity\<close>

record sizes =
  Capacity :: u32
  CapacityMask :: u32
  CapacityMultiplier :: u64
  CountGrowthLimit :: u32
  load_limit :: rat

definition growth_limit :: "u32 \<Rightarrow> rat \<Rightarrow> u32" where
  "growth_limit cap mlf =
     (if cap < MAX_SIZE then trunc_u32 (to_double (of_nat (unat cap) * mlf)) else MAX_SIZE)"

text \<open>\<open>max_load_factor(mlf)\<close>. An argument that is not a finite number fails both comparisons and is
  like any other argument out of range.\<close>

definition max_load_factor :: "rat \<Rightarrow> 'a sizes_scheme \<Rightarrow> 'a sizes_scheme" where
  "max_load_factor mlf s =
     (let s = (if mlf \<ge> MIN_LOAD_FACTOR \<and> mlf \<le> MAX_LOAD_FACTOR then s\<lparr>load_limit := mlf\<rparr> else s)
      in s\<lparr>CountGrowthLimit := growth_limit (Capacity s) (load_limit s)\<rparr>)"

definition InitCapacity :: "mode \<Rightarrow> u32 \<Rightarrow> 'a sizes_scheme \<Rightarrow> 'a sizes_scheme" where
  "InitCapacity mode sz s =
     (let cap = AdjustCapacity mode sz;
          s = s\<lparr>Capacity := cap\<rparr>;
          s = (if mode = Fast then s\<lparr>CapacityMask := cap - 1\<rparr>
               else s\<lparr>CapacityMultiplier := 0xFFFFFFFFFFFFFFFF div ucast cap + 1\<rparr>)
      in max_load_factor (load_limit s) s)"

definition AdjustTupleIndex :: "mode \<Rightarrow> 'a sizes_scheme \<Rightarrow> u64 \<Rightarrow> u64" where
  "AdjustTupleIndex mode s tupleIndex =
     (if mode = Fast then tupleIndex AND ucast (CapacityMask s)
      else let lowbits = CapacityMultiplier s * tupleIndex in umulh lowbits (ucast (Capacity s)))"

definition limit_ok :: "'a sizes_scheme \<Rightarrow> bool" where
  "limit_ok s \<longleftrightarrow> MIN_LOAD_FACTOR \<le> load_limit s \<and> load_limit s \<le> MAX_LOAD_FACTOR
     \<and> CountGrowthLimit s = growth_limit (Capacity s) (load_limit s)"

definition sizes_ok :: "mode \<Rightarrow> 'a sizes_scheme \<Rightarrow> bool" where
  "sizes_ok mode s \<longleftrightarrow> cap_ok mode (unat (Capacity s)) \<and> limit_ok s
     \<and> (if mode = Fast then CapacityMask s = Capacity s - 1
        else CapacityMultiplier s = 0xFFFFFFFFFFFFFFFF div ucast (Capacity s) + 1)"

lemma max_load_factor_fields [simp]:
  "Capacity (max_load_factor mlf s) = Capacity s"
  "CapacityMask (max_load_factor mlf s) = CapacityMask s"
  "CapacityMultiplier (max_load_factor mlf s) = CapacityMultiplier s"
  "sizes.more (max_load_factor mlf s) = sizes.more s"
  by (simp_all add: max_load_factor_def Let_def)

lemma max_load_factor_limit_ok:
  "MIN_LOAD_FACTOR \<le> load_limit s \<Longrightarrow> load_limit s \<le> MAX_LOAD_FACTOR \<Longrightarrow>
   limit_ok (max_load_factor mlf s)"
  by (simp add: limit_ok_def max_load_factor_def Let_def)

lemma sizes_ok_max_load_factor [inv_intros]:
  "sizes_ok mode s \<Longrightarrow> sizes_ok mode (max_load_factor mlf s)"
  by (auto simp: sizes_ok_def limit_ok_def max_load_factor_def Let_def)

lemma InitCapacity_fields [simp]:
  "Capacity (InitCapacity mode sz s) = AdjustCapacity mode sz"
  "sizes.more (InitCapacity mode sz s) = sizes.more s"
  by (simp_all add: InitCapacity_def Let_def)

lemma InitCapacity_sizes_ok:
  assumes "MIN_LOAD_FACTOR \<le> load_limit s" "load_limit s \<le> MAX_LOAD_FACTOR"
  shows "sizes_ok mode (InitCapacity mode sz s)"
proof -
  let ?s = "InitCapacity mode sz s"
  have "limit_ok ?s"
    using assms by (auto simp: InitCapacity_def Let_def intro!: max_load_factor_limit_ok)
  moreover have "mode = Fast \<Longrightarrow> CapacityMask ?s = AdjustCapacity mode sz - 1"
    "mode \<noteq> Fast \<Longrightarrow> CapacityMultiplier ?s = 0xFFFFFFFFFFFFFFFF div ucast (AdjustCapacity mode sz) + 1"
    by (simp_all add: InitCapacity_def Let_def)
  ultimately show ?thesis by (simp add: sizes_ok_def AdjustCapacity_cap_ok)
qed

text \<open>Below the largest capacity the growth limit leaves at least 40 slots unused.\<close>

lemma growth_limit_bounds:
  assumes "cap_ok mode (unat cap)" "cap < MAX_SIZE" "MIN_LOAD_FACTOR \<le> mlf" "mlf \<le> MAX_LOAD_FACTOR"
  shows "unat (growth_limit cap mlf) + 40 \<le> unat cap" "3000 \<le> unat (growth_limit cap mlf)"
proof -
  define c :: rat where "c = of_nat (unat cap)"
  have cu: "4096 \<le> unat cap" "unat cap < 2 ^ 31"
    using assms(1,2) by (auto simp: cap_ok_def word_less_nat_alt size_consts)
  then have "(of_nat 4096 :: rat) \<le> of_nat (unat cap)" "of_nat (unat cap) < (of_nat (2 ^ 31) :: rat)"
    by (simp_all only: of_nat_less_iff of_nat_le_iff)
  then have c: "4096 \<le> c" "c < 2 ^ 31" unfolding c_def of_nat_numeral of_nat_power by auto
  have m: "c * mlf \<le> c * (16609444 / 2 ^ 24)" "c * (3 / 4) \<le> c * mlf"
    using assms(3,4) c by (auto simp: load_factor_values intro!: mult_left_mono)
  define y where "y = to_double (c * mlf)"
  have "0 \<le> c * mlf" using m(2) c by linarith
  then have y: "c * mlf * (1 - 1 / 2 ^ 53) \<le> y" "y \<le> c * mlf * (1 + 1 / 2 ^ 53)"
    using fl_round_bounds[of "c * mlf" 53] unfolding y_def by auto
  have "c * mlf * (1 + 1 / 2 ^ 53) \<le> c * (16609444 / 2 ^ 24) * (1 + 1 / 2 ^ 53)"
    using m(1) by (rule mult_right_mono) simp
  with y(2) have "y \<le> c * (16609444 / 2 ^ 24) * (1 + 1 / 2 ^ 53)" by (rule order_trans)
  also have "\<dots> \<le> c - 40" using c by simp
  finally have hi: "y \<le> c - 40" .
  have "3000 \<le> c * (3 / 4) * (1 - 1 / 2 ^ 53)" using c by simp
  also have "\<dots> \<le> c * mlf * (1 - 1 / 2 ^ 53)" using m(2) by (rule mult_right_mono) simp
  finally have lo: "3000 \<le> y" using y(1) by linarith
  have g: "growth_limit cap mlf = trunc_u32 y" using assms(2) by (simp add: growth_limit_def y_def c_def)
  have n: "unat (trunc_u32 y) = nat \<lfloor>y\<rfloor>"
  proof (rule unat_trunc_u32)
    show "0 \<le> y" using lo by linarith
    have "(2 ^ 31 :: rat) \<le> 2 ^ 32" by simp
    then show "y < 2 ^ 32" using hi c by linarith
  qed
  have "of_int (int (unat cap) - 40) = c - 40"
    by (simp only: of_int_diff of_int_of_nat_eq of_int_numeral c_def)
  with hi have "(of_int \<lfloor>y\<rfloor> :: rat) \<le> of_int (int (unat cap) - 40)"
    using of_int_floor_le[of y] by linarith
  then have "\<lfloor>y\<rfloor> \<le> int (unat cap) - 40" by (simp only: of_int_le_iff)
  with cu(1) show "unat (growth_limit cap mlf) + 40 \<le> unat cap" unfolding g n by linarith
  have "3000 \<le> \<lfloor>y\<rfloor>" using lo by (simp add: le_floor_iff)
  then show "3000 \<le> unat (growth_limit cap mlf)" unfolding g n by linarith
qed

lemma growth_limit_real:
  assumes "cap_ok mode (unat cap)" "cap < MAX_SIZE" "MIN_LOAD_FACTOR \<le> mlf" "mlf \<le> MAX_LOAD_FACTOR"
  obtains y where "unat (growth_limit cap mlf) = nat \<lfloor>y\<rfloor>" "\<bar>y - of_nat (unat cap) * mlf\<bar> \<le> 1" "0 \<le> y"
proof -
  define c :: rat where "c = of_nat (unat cap)"
  have "unat cap < 2 ^ 31" using assms(2) by (simp add: word_less_nat_alt size_consts)
  then have "of_nat (unat cap) < (of_nat (2 ^ 31) :: rat)" by (simp only: of_nat_less_iff)
  then have "c < 2 ^ 31" unfolding c_def of_nat_numeral of_nat_power .
  moreover have "0 \<le> c" unfolding c_def by (rule of_nat_0_le_iff)
  ultimately have c: "0 \<le> c" "c < 2 ^ 31" by auto
  have m: "0 \<le> mlf" "mlf \<le> 1" using assms(3,4) by (auto simp: load_factor_values)
  define x where "x = c * mlf"
  have "c * mlf \<le> c * 1" using m(2) c(1) by (rule mult_left_mono)
  then have x: "0 \<le> x" "x < 2 ^ 31" using m c by (auto simp: x_def)
  define y where "y = to_double x"
  have "\<bar>y - x\<bar> \<le> x / 2 ^ 53" unfolding y_def using x(1) by (rule fl_round_error) simp
  also have "\<dots> \<le> 1" using x by simp
  finally have e: "\<bar>y - x\<bar> \<le> 1" .
  have y0: "0 \<le> y" unfolding y_def using x(1) by (rule fl_round_nonneg) simp
  have "y < 2 ^ 32" using e x by (simp add: abs_le_iff)
  with y0 have "unat (trunc_u32 y) = nat \<lfloor>y\<rfloor>" by (rule unat_trunc_u32)
  then have "unat (growth_limit cap mlf) = nat \<lfloor>y\<rfloor>"
    using assms(2) by (simp add: growth_limit_def y_def x_def c_def)
  then show thesis using that e y0 by (simp add: x_def c_def)
qed

text \<open>A larger table has a larger limit.\<close>

lemma growth_limit_less:
  assumes "cap_ok mode (unat cap)" "cap_ok mode (unat cap')" "cap < cap'"
    "MIN_LOAD_FACTOR \<le> mlf" "mlf \<le> MAX_LOAD_FACTOR"
  shows "growth_limit cap mlf < growth_limit cap' mlf"
proof (cases "cap' < MAX_SIZE")
  case True
  with assms(3) have lt: "cap < MAX_SIZE" by (rule less_trans)
  obtain y where y: "unat (growth_limit cap mlf) = nat \<lfloor>y\<rfloor>" "\<bar>y - of_nat (unat cap) * mlf\<bar> \<le> 1" "0 \<le> y"
    by (rule growth_limit_real[OF assms(1) lt assms(4,5)])
  obtain z where z: "unat (growth_limit cap' mlf) = nat \<lfloor>z\<rfloor>" "\<bar>z - of_nat (unat cap') * mlf\<bar> \<le> 1" "0 \<le> z"
    by (rule growth_limit_real[OF assms(2) True assms(4,5)])
  have "unat cap + 4096 \<le> unat cap'"
    using assms(1-3) by (auto simp: cap_ok_def word_less_nat_alt elim!: dvdE)
  then have "of_nat (unat cap + 4096) \<le> (of_nat (unat cap') :: rat)" by (simp only: of_nat_le_iff)
  then have "(of_nat (unat cap) + 4096) * mlf \<le> of_nat (unat cap') * mlf"
    using assms(4) by (intro mult_right_mono) (auto simp: load_factor_values)
  moreover have "3 \<le> 4096 * mlf" using assms(4) by (simp add: load_factor_values)
  ultimately have "y + 1 \<le> z" using y(2) z(2) by (simp add: abs_le_iff algebra_simps) 
  then have "\<lfloor>y\<rfloor> + 1 \<le> \<lfloor>z\<rfloor>" by linarith
  moreover have "0 \<le> \<lfloor>y\<rfloor>" using y(3) by simp
  ultimately show ?thesis unfolding word_less_nat_alt y(1) z(1) by (subst nat_less_eq_zless) linarith+
next
  case False
  then have l: "growth_limit cap' mlf = MAX_SIZE" by (simp add: growth_limit_def)
  have "cap' \<le> MAX_SIZE" using assms(2) by (simp add: cap_ok_def word_le_nat_alt size_consts)
  with assms(3) have lt: "cap < MAX_SIZE" by (rule less_le_trans)
  have "growth_limit cap mlf \<le> cap"
    using growth_limit_bounds(1)[OF assms(1) lt assms(4,5)] by (simp add: word_le_nat_alt)
  with lt show ?thesis unfolding l by (rule le_less_trans[rotated])
qed

section \<open>Index computation\<close>

lemma cap_ok_word: "cap_ok mode (unat c) \<Longrightarrow> 4096 \<le> unat c \<and> unat c \<le> 2 ^ 31"
  by (simp add: cap_ok_def)

lemma AdjustTupleIndex_mask:
  assumes "sizes_ok Fast s"
  shows "unat (AdjustTupleIndex Fast s x) = unat x mod unat (Capacity s)"
proof -
  from assms obtain k where k: "unat (Capacity s) = 2 ^ k" "4096 \<le> unat (Capacity s)"
      "unat (Capacity s) \<le> 2 ^ 31" and m: "CapacityMask s = Capacity s - 1"
    by (auto simp: sizes_ok_def cap_ok_def pow2_mode_def)
  have "(2::nat) ^ k \<le> 2 ^ 31" using k by simp
  then have k31: "k \<le> 31" by (rule power_le_imp_le_exp[rotated]) simp
  have "Capacity s \<noteq> 0" using k(2) by auto
  then have "unat (CapacityMask s) = 2 ^ k - 1" by (simp add: m unat_minus_one k)
  moreover have "unat (mask k :: u64) = 2 ^ k - 1"
  proof -
    have "(mask k :: u64) = 2 ^ k - 1" by (simp add: mask_eq_exp_minus_1)
    moreover have "(2 ^ k :: u64) \<noteq> 0" using k31 by simp
    ultimately show ?thesis using unat_p2[of k, where 'a = 64] k31 by (simp add: unat_minus_one)
  qed
  ultimately have "ucast (CapacityMask s) = (mask k :: u64)"
    by (metis unsigned_word_eqI unat_ucast_u32_u64)
  then have "AdjustTupleIndex Fast s x = take_bit k x"
    by (simp add: AdjustTupleIndex_def take_bit_eq_mask)
  moreover have "unat (take_bit k x) = take_bit k (unat x)" by (rule unsigned_take_bit_eq)
  ultimately show ?thesis by (simp add: k take_bit_eq_mod)
qed

lemma AdjustTupleIndex_mulhi:
  assumes "sizes_ok mode s" "mode \<noteq> Fast"
  shows "unat (AdjustTupleIndex mode s x)
     = fastmod_multiplier (unat (Capacity s)) * unat x mod 2 ^ 64 * unat (Capacity s) div 2 ^ 64"
proof -
  let ?C = "unat (Capacity s)"
  have C: "4096 \<le> ?C" "?C \<le> 2 ^ 31" using assms(1) by (auto simp: sizes_ok_def cap_ok_def)
  have "(2 ^ 64 - 1) div ?C \<le> (2 ^ 64 - 1) div 4096" using C by (intro div_le_mono2) auto
  then have "unat (0xFFFFFFFFFFFFFFFF div ucast (Capacity s) + 1 :: u64) = fastmod_multiplier ?C"
    by (subst unat_add_u64) (simp_all add: unat_div fastmod_multiplier_def)
  then have "unat (CapacityMultiplier s) = fastmod_multiplier ?C"
    using assms by (simp add: sizes_ok_def)
  then have "unat (CapacityMultiplier s * x) = fastmod_multiplier ?C * unat x mod 2 ^ 64"
    by (simp add: unat_word_ariths)
  with assms(2) show ?thesis by (simp add: AdjustTupleIndex_def Let_def unat_umulh)
qed

end
