(* ===== verification/TagVector.thy ===== *)
theory TagVector
  imports Bits
begin

text \<open>
  \<open>TagVector<Size>\<close>: a SIMD register of 16, 32 or 64 tag bytes and the masks computed from it.
  A register is the list of its bytes; a mask is a word whose bit \<open>j\<close> speaks of byte \<open>j\<close>
  (32 bits for 16 and 32 byte registers, 64 bits for 64 byte registers). The intrinsics are written
  out byte by byte, as their documentation defines them. The lemmas say what each mask computes.
\<close>

section \<open>Intrinsics\<close>

definition set1_epi8 :: "nat \<Rightarrow> u8 \<Rightarrow> u8 list" where
  "set1_epi8 sz v = replicate sz v"

definition cmpeq_epi8 :: "u8 list \<Rightarrow> u8 list \<Rightarrow> u8 list" where
  "cmpeq_epi8 a b = map2 (\<lambda>x y. if x = y then 0xFF else 0) a b"

definition and_si :: "u8 list \<Rightarrow> u8 list \<Rightarrow> u8 list" where
  "and_si a b = map2 (\<lambda>x y. x AND y) a b"

definition movemask_epi8 :: "u8 list \<Rightarrow> 'm::len word" where
  "movemask_epi8 v = horner_sum of_bool 2 (map (\<lambda>b. bit b 7) v)"

definition cmp_epi8_mask :: "u8 list \<Rightarrow> u8 list \<Rightarrow> 'm::len word" where
  "cmp_epi8_mask a b = horner_sum of_bool 2 (map2 (=) a b)"

section \<open>The class\<close>

definition EMPTY :: u8 where "EMPTY = 0x80"
definition TOMBSTONE :: u8 where "TOMBSTONE = 0x81"
definition FORBIDDEN :: u8 where "FORBIDDEN = 0x82"
definition ZERO :: u8 where "ZERO = 0x00"

lemmas tag_consts = EMPTY_def TOMBSTONE_def FORBIDDEN_def ZERO_def

definition EMPTY_VECTOR :: "nat \<Rightarrow> u8 list" where "EMPTY_VECTOR sz = set1_epi8 sz EMPTY"
definition ZERO_VECTOR :: "nat \<Rightarrow> u8 list" where "ZERO_VECTOR sz = set1_epi8 sz ZERO"
definition FORBIDDEN_VECTOR :: "nat \<Rightarrow> u8 list" where "FORBIDDEN_VECTOR sz = set1_epi8 sz FORBIDDEN"

text \<open>\<open>TagVectorCore\<close> is \<open>TagVector<16>\<close>; the iterator uses 16, 32 or 64.\<close>

definition SIZE :: nat where "SIZE = 16"

text \<open>The modes \<open>Align\<close> and \<open>Stream\<close> need an address that is a multiple of the vector's size; tag
  arrays are allocated on 64 byte boundaries, so offsets decide.\<close>

datatype load_mode = Mode_Default | Mode_Align | Mode_Stream

definition access_ok :: "load_mode \<Rightarrow> nat \<Rightarrow> nat \<Rightarrow> u8 list \<Rightarrow> bool" where
  "access_ok mode sz off mem \<longleftrightarrow> off + sz \<le> length mem \<and> (mode = Mode_Default \<or> sz dvd off)"

definition LoadVector :: "nat \<Rightarrow> u8 list \<Rightarrow> nat \<Rightarrow> u8 list" where
  "LoadVector sz mem off = map (\<lambda>j. mem ! (off + j)) [0..<sz]"

definition Store :: "u8 list \<Rightarrow> nat \<Rightarrow> u8 list \<Rightarrow> u8 list" where
  "Store xmm off mem = overwrite off xmm mem"

definition GetEmptyMask :: "nat \<Rightarrow> u8 list \<Rightarrow> 'm::len word" where
  "GetEmptyMask sz xmm =
     (if sz = 16 \<or> sz = 32 then movemask_epi8 (cmpeq_epi8 (EMPTY_VECTOR sz) xmm)
      else cmp_epi8_mask (EMPTY_VECTOR sz) xmm)"

definition GetEmptyOrTomeStoneMask :: "nat \<Rightarrow> u8 list \<Rightarrow> 'm::len word" where
  "GetEmptyOrTomeStoneMask sz xmm =
     (if sz = 16 \<or> sz = 32
      then movemask_epi8 (cmpeq_epi8 (EMPTY_VECTOR sz) (and_si (FORBIDDEN_VECTOR sz) xmm))
      else cmp_epi8_mask (EMPTY_VECTOR sz) (and_si (FORBIDDEN_VECTOR sz) xmm))"

definition GetNonEmptyMask :: "nat \<Rightarrow> u8 list \<Rightarrow> 'm::len word" where
  "GetNonEmptyMask sz xmm =
     (if sz = 16 \<or> sz = 32
      then movemask_epi8 (cmpeq_epi8 (ZERO_VECTOR sz) (and_si (EMPTY_VECTOR sz) xmm))
      else cmp_epi8_mask (ZERO_VECTOR sz) (and_si (EMPTY_VECTOR sz) xmm))"

definition GetCmpMask :: "nat \<Rightarrow> u8 list \<Rightarrow> u8 list \<Rightarrow> 'm::len word" where
  "GetCmpMask sz vector xmm =
     (if sz = 16 \<or> sz = 32 then movemask_epi8 (cmpeq_epi8 vector xmm)
      else cmp_epi8_mask vector xmm)"

section \<open>What the masks compute\<close>

named_theorems mask_bits \<open>the bits of the masks\<close>

lemma length_LoadVector [simp]: "length (LoadVector sz mem off) = sz"
  by (simp add: LoadVector_def)

lemma nth_LoadVector [simp]: "j < sz \<Longrightarrow> LoadVector sz mem off ! j = mem ! (off + j)"
  by (simp add: LoadVector_def)

lemma length_vectors [simp]:
  "length (EMPTY_VECTOR sz) = sz" "length (ZERO_VECTOR sz) = sz" "length (FORBIDDEN_VECTOR sz) = sz"
  "length (set1_epi8 sz v) = sz"
  by (simp_all add: EMPTY_VECTOR_def ZERO_VECTOR_def FORBIDDEN_VECTOR_def set1_epi8_def)

lemma nth_vectors [simp]:
  "j < sz \<Longrightarrow> EMPTY_VECTOR sz ! j = EMPTY" "j < sz \<Longrightarrow> ZERO_VECTOR sz ! j = ZERO"
  "j < sz \<Longrightarrow> FORBIDDEN_VECTOR sz ! j = FORBIDDEN" "j < sz \<Longrightarrow> set1_epi8 sz v ! j = v"
  by (simp_all add: EMPTY_VECTOR_def ZERO_VECTOR_def FORBIDDEN_VECTOR_def set1_epi8_def)

lemma bit_movemask_cmpeq:
  "length a = sz \<Longrightarrow> length b = sz \<Longrightarrow> sz \<le> LENGTH('m) \<Longrightarrow>
   bit (movemask_epi8 (cmpeq_epi8 a b) :: 'm::len word) j \<longleftrightarrow> j < sz \<and> a ! j = b ! j"
  by (auto simp: movemask_epi8_def cmpeq_epi8_def bit_horner_sum_bit_word_iff split: if_splits)

lemma bit_cmp_epi8_mask:
  "length a = sz \<Longrightarrow> length b = sz \<Longrightarrow> sz \<le> LENGTH('m) \<Longrightarrow>
   bit (cmp_epi8_mask a b :: 'm::len word) j \<longleftrightarrow> j < sz \<and> a ! j = b ! j"
  by (auto simp: cmp_epi8_mask_def bit_horner_sum_bit_word_iff)

lemma and_si_simps [simp]:
  "length (and_si a b) = min (length a) (length b)"
  "j < length a \<Longrightarrow> j < length b \<Longrightarrow> and_si a b ! j = a ! j AND b ! j"
  by (simp_all add: and_si_def)

lemma bit_GetEmptyMask [mask_bits]:
  "length xmm = sz \<Longrightarrow> sz \<le> LENGTH('m) \<Longrightarrow>
   bit (GetEmptyMask sz xmm :: 'm::len word) j \<longleftrightarrow> j < sz \<and> xmm ! j = EMPTY"
  by (auto simp: GetEmptyMask_def bit_movemask_cmpeq[where sz = sz] bit_cmp_epi8_mask[where sz = sz])

lemma bit_GetCmpMask [mask_bits]:
  "length xmm = sz \<Longrightarrow> length vector = sz \<Longrightarrow> sz \<le> LENGTH('m) \<Longrightarrow>
   bit (GetCmpMask sz vector xmm :: 'm::len word) j \<longleftrightarrow> j < sz \<and> xmm ! j = vector ! j"
  by (auto simp: GetCmpMask_def bit_movemask_cmpeq[where sz = sz] bit_cmp_epi8_mask[where sz = sz])

lemma and_FORBIDDEN: "FORBIDDEN AND t = EMPTY \<longleftrightarrow> bit t 7 \<and> \<not> bit t 1"
proof -
  have "FORBIDDEN AND t = EMPTY \<longleftrightarrow>
      (\<forall>n<8. bit FORBIDDEN n \<and> bit t n \<longleftrightarrow> bit EMPTY n)"
    by (simp add: bit_eq_iff bit_and_iff)
  also have "\<dots> \<longleftrightarrow> bit t 7 \<and> \<not> bit t 1"
    by (simp add: tag_consts All_less_Suc eval_nat_numeral)
  finally show ?thesis .
qed

lemma and_EMPTY: "EMPTY AND t = ZERO \<longleftrightarrow> \<not> bit t 7"
proof -
  have "EMPTY AND t = ZERO \<longleftrightarrow> (\<forall>n<8. \<not> (bit EMPTY n \<and> bit t n))"
    by (simp add: bit_eq_iff bit_and_iff ZERO_def)
  also have "\<dots> \<longleftrightarrow> \<not> bit t 7"
    by (simp add: tag_consts All_less_Suc eval_nat_numeral)
  finally show ?thesis .
qed

lemma bit_GetEmptyOrTomeStoneMask [mask_bits]:
  "length xmm = sz \<Longrightarrow> sz \<le> LENGTH('m) \<Longrightarrow>
   bit (GetEmptyOrTomeStoneMask sz xmm :: 'm::len word) j
     \<longleftrightarrow> j < sz \<and> bit (xmm ! j) 7 \<and> \<not> bit (xmm ! j) 1"
  using and_FORBIDDEN[of "xmm ! j"]
  by (auto simp: GetEmptyOrTomeStoneMask_def bit_movemask_cmpeq[where sz = sz]
      bit_cmp_epi8_mask[where sz = sz])

lemma bit_GetNonEmptyMask [mask_bits]:
  "length xmm = sz \<Longrightarrow> sz \<le> LENGTH('m) \<Longrightarrow>
   bit (GetNonEmptyMask sz xmm :: 'm::len word) j \<longleftrightarrow> j < sz \<and> \<not> bit (xmm ! j) 7"
  using and_EMPTY[of "xmm ! j"]
  by (auto simp: GetNonEmptyMask_def bit_movemask_cmpeq[where sz = sz]
      bit_cmp_epi8_mask[where sz = sz])

section \<open>Classes of tag bytes\<close>

definition is_full :: "u8 \<Rightarrow> bool" where
  "is_full t \<longleftrightarrow> \<not> bit t 7"

definition is_free :: "u8 \<Rightarrow> bool" where
  "is_free t \<longleftrightarrow> t = EMPTY \<or> t = TOMBSTONE"

definition valid_tag :: "u8 \<Rightarrow> bool" where
  "valid_tag t \<longleftrightarrow> is_full t \<or> is_free t"

lemma special_not_full [simp]: "\<not> is_full EMPTY" "\<not> is_full TOMBSTONE" "\<not> is_full FORBIDDEN"
  by (simp_all add: is_full_def tag_consts)

lemma special_distinct [simp]:
  "EMPTY \<noteq> TOMBSTONE" "TOMBSTONE \<noteq> EMPTY" "EMPTY \<noteq> FORBIDDEN" "FORBIDDEN \<noteq> EMPTY"
  "TOMBSTONE \<noteq> FORBIDDEN" "FORBIDDEN \<noteq> TOMBSTONE"
  by (simp_all add: tag_consts)

lemma is_free_simps [simp]: "is_free EMPTY" "is_free TOMBSTONE" "\<not> is_free FORBIDDEN"
  by (simp_all add: is_free_def)

lemma valid_tag_simps [simp]: "valid_tag EMPTY" "valid_tag TOMBSTONE" "\<not> valid_tag FORBIDDEN"
  by (simp_all add: valid_tag_def)

lemma full_not_free: "is_full t \<Longrightarrow> \<not> is_free t"
  by (auto simp: is_free_def)

lemma free_mask_bit: "valid_tag t \<or> t = FORBIDDEN \<Longrightarrow> bit t 7 \<and> \<not> bit t 1 \<longleftrightarrow> is_free t"
  by (auto simp: valid_tag_def is_free_def is_full_def tag_consts)

text \<open>\<open>prevTag & TagVector::EMPTY\<close>, the test of the rehash loop.\<close>

lemma and_EMPTY_full: "t AND EMPTY \<noteq> 0 \<longleftrightarrow> \<not> is_full t"
  using and_EMPTY[of t] by (simp add: is_full_def ZERO_def and.commute)

definition HashToTag :: "u64 \<Rightarrow> u8" where
  "HashToTag hash = ucast (drop_bit 57 hash)"

lemma HashToTag_full [simp]: "is_full (HashToTag h)"
  by (auto simp: is_full_def HashToTag_def bit_ucast_iff bit_drop_bit_eq dest: bit_imp_le_length)

lemma HashToTag_range: "unat (HashToTag h) = unat h div 2 ^ 57"
proof -
  have "unat (drop_bit 57 h) = unat h div 2 ^ 57"
    by (simp only: unat_drop_bit_eq) (simp only: drop_bit_eq_div)
  moreover have "unat h div 2 ^ 57 < 2 ^ 8"
    using unat_lt_2p(2)[of h] by (simp add: less_mult_imp_div_less)
  ultimately show ?thesis
    by (simp add: HashToTag_def unsigned_ucast_eq take_bit_nat_eq_self)
qed

end
