(* ===== verification/TagArray.thy ===== *)
theory TagArray
  imports TagVector
begin

text \<open>
  \<open>TagArray\<close>: the array of tag bytes. \<open>_size\<close> counts the slots; the allocation has
  \<open>TagVector::SIZE\<close> bytes more, the tail that stops a 16 byte load near the end from reading a tag
  of another slot. The contents of fresh memory are unknown: they are an argument
  \<open>fill\<close> of the operation that allocates, and \<open>Init\<close> erases them.
\<close>

record tag_array =
  ta_ptr :: "u8 list option"
  ta_size :: u32

definition TagArray_new :: tag_array where
  "TagArray_new = \<lparr>ta_ptr = None, ta_size = 0\<rparr>"

definition ta_bytes :: "tag_array \<Rightarrow> u8 list" where
  "ta_bytes a = (case ta_ptr a of None \<Rightarrow> [] | Some bs \<Rightarrow> bs)"

definition ta_store :: "u8 list \<Rightarrow> tag_array \<Rightarrow> tag_array" where
  "ta_store bs a = (case ta_ptr a of None \<Rightarrow> a | Some _ \<Rightarrow> a\<lparr>ta_ptr := Some bs\<rparr>)"

text \<open>The move constructor takes the fields and leaves the other array empty.\<close>

definition TagArray_move :: "tag_array \<Rightarrow> tag_array \<times> tag_array" where
  "TagArray_move other =
     (\<lparr>ta_ptr = ta_ptr other, ta_size = ta_size other\<rparr>, other\<lparr>ta_ptr := None, ta_size := 0\<rparr>)"

definition TagArray_Clear :: "tag_array \<Rightarrow> tag_array" where
  "TagArray_Clear a = (if ta_ptr a \<noteq> None then a\<lparr>ta_ptr := None\<rparr> else a)\<lparr>ta_size := 0\<rparr>"

definition TagArray_get :: "tag_array \<Rightarrow> u64 \<Rightarrow> u8" where
  "TagArray_get a index = ta_bytes a ! unat index"

definition TagArray_set :: "tag_array \<Rightarrow> u64 \<Rightarrow> u8 \<Rightarrow> tag_array" where
  "TagArray_set a index t = ta_store ((ta_bytes a)[unat index := t]) a"

definition TagArray_end :: "tag_array \<Rightarrow> nat" where
  "TagArray_end a = unat (ta_size a)"

definition fill_n :: "nat \<Rightarrow> nat \<Rightarrow> u8 \<Rightarrow> u8 list \<Rightarrow> u8 list" where
  "fill_n off n v bs = overwrite off (replicate n v) bs"

text \<open>The store loop of \<open>Init\<close>: \<open>p\<close> is the offset of \<open>ptr\<close>.\<close>

function Init_loop :: "nat \<Rightarrow> nat \<Rightarrow> u8 list \<Rightarrow> u8 list" where
  "Init_loop p e bs = (if p < e then Init_loop (p + SIZE) e (Store (EMPTY_VECTOR SIZE) p bs) else bs)"
  by pat_completeness auto
termination
  by (relation "measure (\<lambda>(p, e, bs). e - p)") (auto simp: SIZE_def)

declare Init_loop.simps [simp del]

definition TagArray_Init :: "bool \<Rightarrow> tag_array \<Rightarrow> tag_array run" where
  "TagArray_Init bUseStd a =
     (if bUseStd then
        ret (ta_store (fill_n (TagArray_end a) SIZE FORBIDDEN
               (fill_n 0 (unat (ta_size a)) EMPTY (ta_bytes a))) a)
      else
        run_bind (check (unat (ta_size a) mod SIZE = 0) Init_size_multiple) (\<lambda>_.
        ret (ta_store (Store (FORBIDDEN_VECTOR SIZE) (TagArray_end a)
               (Init_loop 0 (TagArray_end a) (ta_bytes a))) a)))"

definition TagArray_AdjustSize :: "(nat \<Rightarrow> u8) \<Rightarrow> u32 \<Rightarrow> tag_array \<Rightarrow> tag_array run" where
  "TagArray_AdjustSize fill sz a =
     run_bind (check (sz > ta_size a) Tag_size_grows) (\<lambda>_.
     let a' = (if ta_ptr a \<noteq> None then TagArray_Clear a else a)
     in ret (a'\<lparr>ta_ptr := Some (map fill [0..<unat (sz + of_nat SIZE)]), ta_size := sz\<rparr>))"

section \<open>Laws\<close>

text \<open>A tag array in use: allocated, with a tail of \<open>FORBIDDEN\<close> and valid tags before it.\<close>

definition tags_ok :: "tag_array \<Rightarrow> bool" where
  "tags_ok a \<longleftrightarrow> ta_ptr a \<noteq> None \<and> unat (ta_size a) + SIZE < 2 ^ 32
     \<and> length (ta_bytes a) = unat (ta_size a) + SIZE
     \<and> (\<forall>i < unat (ta_size a). valid_tag (ta_bytes a ! i))
     \<and> (\<forall>i. unat (ta_size a) \<le> i \<and> i < unat (ta_size a) + SIZE \<longrightarrow> ta_bytes a ! i = FORBIDDEN)"

definition fresh_bytes :: "nat \<Rightarrow> u8 list" where
  "fresh_bytes n = replicate n EMPTY @ replicate SIZE FORBIDDEN"

lemma Init_loop_prefix:
  "p mod SIZE = 0 \<Longrightarrow> e mod SIZE = 0 \<Longrightarrow> p \<le> e \<Longrightarrow> length bs = e + SIZE \<Longrightarrow>
   take p bs = replicate p EMPTY \<Longrightarrow>
   take e (Init_loop p e bs) = replicate e EMPTY \<and> length (Init_loop p e bs) = e + SIZE"
proof (induction p e bs rule: Init_loop.induct)
  case (1 p e bs)
  show ?case
  proof (cases "p < e")
    case True
    have "SIZE dvd e - p" using "1.prems"(1,2) by (simp add: dvd_diff_nat mod_eq_0_iff_dvd)
    with True have "SIZE \<le> e - p" by (simp add: dvd_imp_le)
    with True have le: "p + SIZE \<le> e" by simp
    let ?bs = "Store (EMPTY_VECTOR SIZE) p bs"
    have "take (p + SIZE) ?bs = replicate (p + SIZE) EMPTY"
      using "1.prems"(4,5) le
      by (simp add: Store_def overwrite_def EMPTY_VECTOR_def set1_epi8_def replicate_add)
    then show ?thesis
      using "1.IH"[OF True] "1.prems" le True
      by (subst (1 2) Init_loop.simps) (simp add: Store_def mod_add_eq)
  next
    case False
    with "1.prems" show ?thesis by (subst (1 2) Init_loop.simps) simp
  qed
qed

lemma Init_bytes:
  assumes "ta_ptr a \<noteq> None" "unat (ta_size a) mod SIZE = 0"
    "length (ta_bytes a) = unat (ta_size a) + SIZE"
  shows "TagArray_Init False a = ret (a\<lparr>ta_ptr := Some (fresh_bytes (unat (ta_size a)))\<rparr>)"
proof -
  let ?n = "unat (ta_size a)" and ?l = "Init_loop 0 (unat (ta_size a)) (ta_bytes a)"
  have l: "take ?n ?l = replicate ?n EMPTY" "length ?l = ?n + SIZE"
    using Init_loop_prefix[of 0 ?n "ta_bytes a"] assms by auto
  then have "Store (FORBIDDEN_VECTOR SIZE) ?n ?l = fresh_bytes ?n"
    by (simp add: Store_def overwrite_def fresh_bytes_def FORBIDDEN_VECTOR_def set1_epi8_def)
  with assms show ?thesis
    by (auto simp: TagArray_Init_def TagArray_end_def ta_store_def)
qed

lemma nth_fresh_bytes:
  "i < n \<Longrightarrow> fresh_bytes n ! i = EMPTY"
  "n \<le> i \<Longrightarrow> i < n + SIZE \<Longrightarrow> fresh_bytes n ! i = FORBIDDEN"
  by (simp_all add: fresh_bytes_def nth_append)

lemma length_fresh_bytes [simp]: "length (fresh_bytes n) = n + SIZE"
  by (simp add: fresh_bytes_def)

lemma ta_bytes_Some [simp]: "ta_bytes \<lparr>ta_ptr = Some bs, ta_size = n\<rparr> = bs"
  "ta_bytes (a\<lparr>ta_ptr := Some bs\<rparr>) = bs"
  by (simp_all add: ta_bytes_def)

definition fresh_tags :: "u32 \<Rightarrow> tag_array" where
  "fresh_tags n = \<lparr>ta_ptr = Some (fresh_bytes (unat n)), ta_size = n\<rparr>"

lemma fresh_tags_ok: "unat n + SIZE < 2 ^ 32 \<Longrightarrow> tags_ok (fresh_tags n)"
  by (simp add: tags_ok_def fresh_tags_def nth_fresh_bytes)

text \<open>Whatever the allocator returns, an allocation followed by \<open>Init\<close> gives empty slots.\<close>

lemma AdjustSize_Init:
  assumes "ta_size a < sz" "unat sz mod SIZE = 0" "unat sz + SIZE < 2 ^ 32"
  shows "run_bind (TagArray_AdjustSize fill sz a) (TagArray_Init False) = ret (fresh_tags sz)"
proof -
  let ?bs = "map fill [0..<unat (sz + of_nat SIZE)]"
  let ?b = "\<lparr>ta_ptr = Some ?bs, ta_size = sz\<rparr>"
  have "unat (sz + of_nat SIZE) = unat sz + SIZE"
    using assms(3) by (subst unat_add_u32) (simp_all add: SIZE_def)
  then have "TagArray_Init False ?b = ret (fresh_tags sz)"
    using assms(2) by (subst Init_bytes) (simp_all add: fresh_tags_def)
  moreover have "TagArray_AdjustSize fill sz a = ret ?b"
    using assms(1) by (cases a) (auto simp: TagArray_AdjustSize_def TagArray_Clear_def)
  ultimately show ?thesis by simp
qed

lemma AdjustSize_shrink_aborts:
  "\<not> ta_size a < sz \<Longrightarrow> TagArray_AdjustSize fill sz a = abort Tag_size_grows"
  by (simp add: TagArray_AdjustSize_def)

text \<open>Re-initialising an array in use empties it.\<close>

lemma Init_fresh:
  assumes "tags_ok a" "unat (ta_size a) mod SIZE = 0"
  shows "TagArray_Init False a = ret (fresh_tags (ta_size a))"
  using assms by (subst Init_bytes) (cases a; simp add: tags_ok_def fresh_tags_def)+

text \<open>The portable branch of \<open>Init\<close> and the SIMD branch write the same bytes.\<close>

lemma Init_std_eq_simd:
  assumes "ta_ptr a \<noteq> None" "unat (ta_size a) mod SIZE = 0"
    "length (ta_bytes a) = unat (ta_size a) + SIZE"
  shows "TagArray_Init True a = TagArray_Init False a"
proof -
  have "fill_n (unat (ta_size a)) SIZE FORBIDDEN (fill_n 0 (unat (ta_size a)) EMPTY (ta_bytes a))
      = fresh_bytes (unat (ta_size a))"
    using assms(3) by (simp add: fill_n_def overwrite_def fresh_bytes_def)
  then have "TagArray_Init True a = ret (a\<lparr>ta_ptr := Some (fresh_bytes (unat (ta_size a)))\<rparr>)"
    using assms(1) by (auto simp: TagArray_Init_def TagArray_end_def ta_store_def)
  with Init_bytes[OF assms] show ?thesis by simp
qed

lemma TagArray_set_fields:
  assumes "tags_ok a"
  shows "ta_size (TagArray_set a i t) = ta_size a"
    "ta_bytes (TagArray_set a i t) = (ta_bytes a)[unat i := t]"
  using assms by (auto simp: TagArray_set_def ta_store_def tags_ok_def ta_bytes_def)

lemma tags_ok_set [inv_intros]:
  assumes "tags_ok a" "unat i < unat (ta_size a)" "valid_tag t"
  shows "tags_ok (TagArray_set a i t)"
proof -
  have "ta_ptr (TagArray_set a i t) \<noteq> None"
    using assms(1) by (auto simp: TagArray_set_def ta_store_def tags_ok_def)
  then show ?thesis
    using assms by (auto simp: tags_ok_def TagArray_set_fields[OF assms(1)] nth_list_update)
qed

text \<open>A 16 byte load at any slot stays inside the allocation.\<close>

lemma tags_ok_load: "tags_ok a \<Longrightarrow> i < unat (ta_size a) \<Longrightarrow> access_ok Mode_Default SIZE i (ta_bytes a)"
  by (simp add: tags_ok_def access_ok_def)

lemma tags_ok_tag:
  assumes "tags_ok a" "i < unat (ta_size a) + SIZE"
  shows "valid_tag (ta_bytes a ! i) \<or> ta_bytes a ! i = FORBIDDEN"
  using assms unfolding tags_ok_def by (cases "i < unat (ta_size a)") auto

lemma tags_ok_slot:
  assumes "tags_ok a" "i < unat (ta_size a) + SIZE" "ta_bytes a ! i \<noteq> FORBIDDEN"
  shows "i < unat (ta_size a)"
  using assms unfolding tags_ok_def by (metis linorder_not_less)

end
