(* ===== verification/Probe.thy ===== *)
theory Probe
  imports Capacity TagArray
begin

text \<open>
  The probe loop that \<open>FindEntry\<close>, the two loops of \<open>Add\<close> and \<open>FindEmpty\<close> share:
  look at the group of 16 slots at \<open>tupleIndex\<close>, stop there or go on to
  \<open>AdjustTupleIndex(tupleIndex + (jump += 16))\<close>, where \<open>jump\<close> is a \<open>uint8_t\<close> and wraps at 256.
  The loop is \<open>while (true)\<close>: it may not end, and the model is a partial function whose value
  \<open>None\<close> means just that.

  The locale \<open>prober\<close> is what the loop needs of the index computation. Inside it: the positions in
  closed form, when the loop returns and when it does not, and which slots a probe can reach.
\<close>

partial_function (option) probe ::
    "(u64 \<Rightarrow> 'r option) \<Rightarrow> (u64 \<Rightarrow> u64) \<Rightarrow> u64 \<Rightarrow> u8 \<Rightarrow> 'r option" where
  "probe stop adj tupleIndex jump =
     (case stop tupleIndex of
        Some r \<Rightarrow> Some r
      | None \<Rightarrow> probe stop adj (adj (tupleIndex + ucast (jump + of_nat SIZE))) (jump + of_nat SIZE))"

declare probe.simps [code]

text \<open>The state of the loop after \<open>n\<close> unsuccessful groups.\<close>

fun probe_at :: "(u64 \<Rightarrow> u64) \<Rightarrow> u64 \<Rightarrow> u8 \<Rightarrow> nat \<Rightarrow> u64 \<times> u8" where
  "probe_at adj i j 0 = (i, j)"
| "probe_at adj i j (Suc n) = probe_at adj (adj (i + ucast (j + of_nat SIZE))) (j + of_nat SIZE) n"

lemma probe_returns:
  assumes "stop (fst (probe_at adj i j n)) = Some r" "\<forall>m<n. stop (fst (probe_at adj i j m)) = None"
  shows "probe stop adj i j = Some r"
  using assms
proof (induction n arbitrary: i j)
  case 0
  then show ?case by (subst probe.simps) simp
next
  case (Suc n)
  have "stop i = None" using Suc.prems(2) by (metis fst_conv probe_at.simps(1) zero_less_Suc)
  moreover have "\<forall>m<n. stop (fst (probe_at adj (adj (i + ucast (j + of_nat SIZE))) (j + of_nat SIZE) m)) = None"
    using Suc.prems(2) by (metis Suc_less_eq probe_at.simps(2))
  ultimately show ?case using Suc.IH Suc.prems(1) by (subst probe.simps) simp
qed

lemma probe_result:
  assumes ret: "probe stop adj i j = Some r"
  shows "\<exists>n. stop (fst (probe_at adj i j n)) = Some r \<and> (\<forall>m<n. stop (fst (probe_at adj i j m)) = None)"
proof (rule probe.raw_induct[where P = "\<lambda>stop adj i j r.
      \<exists>n. stop (fst (probe_at adj i j n)) = Some r \<and> (\<forall>m<n. stop (fst (probe_at adj i j m)) = None)",
      OF _ ret])
  fix f :: "(u64 \<Rightarrow> 'a option) \<Rightarrow> (u64 \<Rightarrow> u64) \<Rightarrow> u64 \<Rightarrow> u8 \<Rightarrow> 'a option"
    and stop :: "u64 \<Rightarrow> 'a option" and adj :: "u64 \<Rightarrow> u64" and i :: u64 and j :: u8 and r :: 'a
  let ?i = "adj (i + ucast (j + of_nat SIZE))" and ?j = "j + of_nat SIZE"
  assume IH: "\<And>stop adj i j r. f stop adj i j = Some r \<Longrightarrow>
      \<exists>n. stop (fst (probe_at adj i j n)) = Some r \<and> (\<forall>m<n. stop (fst (probe_at adj i j m)) = None)"
    and eq: "(case stop i of None \<Rightarrow> f stop adj ?i ?j | Some r \<Rightarrow> Some r) = Some r"
  show "\<exists>n. stop (fst (probe_at adj i j n)) = Some r \<and> (\<forall>m<n. stop (fst (probe_at adj i j m)) = None)"
  proof (cases "stop i")
    case None
    with eq have "f stop adj ?i ?j = Some r" by simp
    then obtain n where "stop (fst (probe_at adj ?i ?j n)) = Some r"
      "\<forall>m<n. stop (fst (probe_at adj ?i ?j m)) = None" using IH by blast
    with None show ?thesis by (intro exI[of _ "Suc n"]) (auto simp: less_Suc_eq_0_disj)
  next
    case (Some x)
    with eq show ?thesis by (intro exI[of _ 0]) simp
  qed
qed

text \<open>The loop returns exactly if some group on the path stops it.\<close>

lemma probe_diverges_iff:
  "probe stop adj i j = None \<longleftrightarrow> (\<forall>n. stop (fst (probe_at adj i j n)) = None)"
proof
  assume d: "probe stop adj i j = None"
  show "\<forall>n. stop (fst (probe_at adj i j n)) = None"
  proof (rule ccontr)
    assume "\<not> (\<forall>n. stop (fst (probe_at adj i j n)) = None)"
    then have ex: "\<exists>n. stop (fst (probe_at adj i j n)) \<noteq> None" by blast
    define n where "n = (LEAST n. stop (fst (probe_at adj i j n)) \<noteq> None)"
    have "stop (fst (probe_at adj i j n)) \<noteq> None" using ex unfolding n_def by (rule LeastI_ex)
    then obtain r where "stop (fst (probe_at adj i j n)) = Some r" by auto
    moreover have "\<forall>m<n. stop (fst (probe_at adj i j m)) = None"
      using not_less_Least unfolding n_def by blast
    ultimately show False using probe_returns d by (metis option.distinct(1))
  qed
next
  assume "\<forall>n. stop (fst (probe_at adj i j n)) = None"
  then show "probe stop adj i j = None" using probe_result by (metis not_None_eq)
qed

lemma probe_at_Suc:
  "probe_at a i j (Suc n) = (a (fst (probe_at a i j n) + ucast (snd (probe_at a i j n) + of_nat SIZE)),
     snd (probe_at a i j n) + of_nat SIZE)"
proof (induction n arbitrary: i j)
  case (Suc n)
  let ?i = "a (i + ucast (j + of_nat SIZE))" and ?j = "j + of_nat SIZE"
  have "probe_at a i j (Suc (Suc n)) = probe_at a ?i ?j (Suc n)" by (rule probe_at.simps(2))
  also note Suc.IH
  also have "probe_at a ?i ?j n = probe_at a i j (Suc n)" by (rule probe_at.simps(2)[symmetric])
  finally show ?case .
qed simp

lemma probe_at_jump: "snd (probe_at a i j n) = j + of_nat (SIZE * n)"
proof (induction n)
  case (Suc n)
  then show ?case by (simp add: probe_at_Suc algebra_simps del: probe_at.simps(2))
qed simp

declare probe_at.simps(2) [simp del]

lemma jump_value: "unat (of_nat (SIZE * n) :: u8) = 16 * (n mod 16)"
proof -
  have "16 * n mod 256 = 16 * (n mod 16)" using mult_mod_right[of 16 n 16] by simp
  moreover have "unat (of_nat (SIZE * n) :: u8) = SIZE * n mod 2 ^ 8" by (simp only: unat_of_nat) simp
  ultimately show ?thesis by (simp add: SIZE_def)
qed

section \<open>Positions\<close>

text \<open>How far the \<open>n\<close>-th group lies from the first, in groups: the increments are
  \<open>1, 2, \<dots>, 15, 0, 1, \<dots>\<close>.\<close>

fun group_offset :: "nat \<Rightarrow> nat" where
  "group_offset 0 = 0"
| "group_offset (Suc n) = group_offset n + Suc n mod 16"

lemma group_offset_within:
  "r < 16 \<Longrightarrow> group_offset (16 * q + r) = group_offset (16 * q) + r * (r + 1) div 2"
proof (induction r)
  case (Suc r)
  have "Suc (16 * q + r) mod 16 = Suc r" using Suc.prems by simp
  with Suc show ?case by simp
qed simp

lemma group_offset_period: "group_offset (16 * q) = 120 * q"
proof (induction q)
  case (Suc q)
  have "16 * Suc q = Suc (16 * q + 15)" "Suc (16 * q + 15) mod 16 = 0" by simp_all
  then have "group_offset (16 * Suc q) = group_offset (16 * q + 15)" by (simp only: group_offset.simps)
  also have "\<dots> = group_offset (16 * q) + 120" by (subst group_offset_within) simp_all
  finally show ?case using Suc.IH by simp
qed simp

lemma group_offset_rest: "r < 16 \<Longrightarrow> group_offset (16 * q + r) = 120 * q + r * (r + 1) div 2"
  using group_offset_within[of r q] by (simp add: group_offset_period)

lemma group_offset_eq: "group_offset n = 120 * (n div 16) + (n mod 16) * (n mod 16 + 1) div 2"
  using group_offset_rest[of "n mod 16" "n div 16"] by simp


locale prober =
  fixes adj :: "'s \<Rightarrow> u64 \<Rightarrow> u64" and cap :: "'s \<Rightarrow> nat" and ok :: "'s \<Rightarrow> bool"
  assumes adj_less: "ok s \<Longrightarrow> unat (adj s x) < cap s"
    and adj_mod: "ok s \<Longrightarrow> unat x < 2 ^ 32 \<Longrightarrow> unat (adj s x) = unat x mod cap s"
    and cap_bounds: "ok s \<Longrightarrow> 4096 \<le> cap s \<and> cap s \<le> 2 ^ 31 \<and> 4096 dvd cap s"
begin

text \<open>The first slot of the \<open>n\<close>-th group probed for a hash.\<close>

definition path :: "'s \<Rightarrow> u64 \<Rightarrow> nat \<Rightarrow> nat" where
  "path s h n = unat (fst (probe_at (adj s) (adj s h) 0 n))"

lemma path_less: "ok s \<Longrightarrow> path s h n < cap s"
  unfolding path_def by (cases n) (auto simp: probe_at_Suc adj_less)

lemma path_eq:
  assumes "ok s"
  shows "path s h n = (unat (adj s h) + 16 * group_offset n) mod cap s"
proof (induction n)
  case 0
  show ?case using adj_less[OF assms, of h] by (simp add: path_def)
next
  case (Suc n)
  obtain i j where ij: "probe_at (adj s) (adj s h) 0 n = (i, j)" by force
  have j: "j + of_nat SIZE = of_nat (SIZE * Suc n)"
    using probe_at_jump[of "adj s" "adj s h" 0 n] ij by (simp add: algebra_simps)
  then have uj: "unat (j + of_nat SIZE) = 16 * (Suc n mod 16)" by (simp only: jump_value)
  have i: "unat i = path s h n" by (simp add: path_def ij)
  then have lt: "unat i < 2 ^ 31" using path_less[OF assms, of h n] cap_bounds[OF assms] by simp
  have ub: "unat (j + of_nat SIZE) < 256" using unat_lt_2p(3)[of "j + of_nat SIZE"] by simp
  then have sum: "unat (i + ucast (j + of_nat SIZE)) = unat i + 16 * (Suc n mod 16)"
    using lt uj by (subst unat_add_u64) simp_all
  then have "unat (i + ucast (j + of_nat SIZE)) < 2 ^ 32" using lt ub uj by simp
  then have "unat (adj s (i + ucast (j + of_nat SIZE))) = (unat i + 16 * (Suc n mod 16)) mod cap s"
    using sum by (simp add: adj_mod[OF assms])
  then show ?case
    by (simp add: path_def probe_at_Suc ij) (simp add: i Suc.IH mod_simps algebra_simps)
qed

lemma path_0: "path s h 0 = unat (adj s h)"
  by (simp add: path_def)

lemma probe_Some:
  assumes "probe stop (adj s) (adj s h) 0 = Some r"
  obtains n where "stop (of_nat (path s h n)) = Some r" "\<forall>m<n. stop (of_nat (path s h m)) = None"
  using probe_result[OF assms] by (auto simp: path_def)

lemma probe_eqI:
  assumes "stop (of_nat (path s h n)) = Some r" "\<forall>m<n. stop (of_nat (path s h m)) = None"
  shows "probe stop (adj s) (adj s h) 0 = Some r"
  using probe_returns[of stop "adj s" "adj s h" 0 n r] assms by (simp add: path_def)

lemma probe_None: "probe stop (adj s) (adj s h) 0 = None \<longleftrightarrow> (\<forall>n. stop (of_nat (path s h n)) = None)"
  by (simp add: probe_diverges_iff path_def)

text \<open>Every group whose distance is a multiple of 16 is reached, if 15 and the number of groups have
  no common factor; a power of two has none.\<close>

lemma triangular_residues:
  assumes "d < (8::nat)"
  shows "\<exists>r<16. (r * (r + 1) div 2) mod 8 = d"
proof -
  from assms have "d = 0 \<or> d = 1 \<or> d = 2 \<or> d = 3 \<or> d = 4 \<or> d = 5 \<or> d = 6 \<or> d = 7" by linarith
  then show ?thesis
  proof (elim disjE)
  assume "d = 0" then show ?thesis by (intro exI[of _ 0]) simp
  next
    assume "d = 1" then show ?thesis by (intro exI[of _ 1]) simp
  next
    assume "d = 2" then show ?thesis by (intro exI[of _ 4]) simp
  next
    assume "d = 3" then show ?thesis by (intro exI[of _ 2]) simp
  next
    assume "d = 4" then show ?thesis by (intro exI[of _ 7]) simp
  next
    assume "d = 5" then show ?thesis by (intro exI[of _ 6]) simp
  next
    assume "d = 6" then show ?thesis by (intro exI[of _ 3]) simp
  next
    assume "d = 7" then show ?thesis by (intro exI[of _ 5]) simp
  qed
qed

lemma offset_onto:
  assumes m: "8 dvd m" "0 < m" "coprime 15 m" and d: "d < m"
  shows "\<exists>n < 2 * m. group_offset n mod m = d"
proof -
  obtain k where k: "m = 8 * k" "0 < k" using m(1,2) by (auto elim!: dvdE)
  have "coprime 15 k" using m(3) unfolding k(1) by (simp add: coprime_mult_right_iff)
  then have g: "gcd 15 k = 1" by (simp add: coprime_iff_gcd_eq_1)
  obtain x y where "15 * x = k * y + gcd 15 k" using bezout_nat[of 15 k] by auto
  then have xy: "15 * x = k * y + 1" by (simp only: g)
  obtain r where r: "r < 16" "(r * (r + 1) div 2) mod 8 = d mod 8"
    using triangular_residues[of "d mod 8"] by auto
  define T where "T = r * (r + 1) div 2"
  have "r * (r + 1) \<le> 15 * 16" using r(1) by (intro mult_le_mono) auto
  then have T: "T \<le> 120" by (simp add: T_def)
  have "120 \<le> 120 * m" using m(2) by simp
  with T have le: "T \<le> d + 120 * m" by linarith
  have "d + 120 * m = d + 8 * (120 * k)" by (simp add: k(1))
  then have "(d + 120 * m) mod 8 = d mod 8" by (simp only: mod_mult_self2)
  then have "(d + 120 * m) mod 8 = T mod 8" using r(2) by (simp only: T_def)
  then have "8 dvd d + 120 * m - T" by (subst mod_eq_dvd_iff_nat[OF le, symmetric])
  then obtain e where "d + 120 * m - T = 8 * e" by (rule dvdE)
  with le have e: "8 * e + T = d + m * 120" by linarith
  define q where "q = x * e mod k"
  have "15 * q mod k = 15 * x * e mod k" by (simp add: q_def mod_mult_right_eq mult.assoc)
  also have "15 * x * e = e + k * (y * e)" unfolding xy by (simp add: algebra_simps)
  also have "(e + k * (y * e)) mod k = e mod k" by simp
  finally have "8 * (15 * q) mod m = 8 * e mod m" by (simp only: k mult_mod_right [symmetric])
  then have "(8 * (15 * q) + T) mod m = (8 * e + T) mod m" by (rule mod_add_cong) simp
  also have "\<dots> = d" unfolding e using d by simp
  finally have "group_offset (16 * q + r) mod m = d"
    unfolding group_offset_rest[OF r(1)] T_def by (simp only: mult.assoc [symmetric]) simp
  moreover have "16 * q + r < 2 * m"
  proof -
    have "q < k" using k(2) by (simp add: q_def)
    then show ?thesis using r(1) k(1) by simp
  qed
  ultimately show ?thesis by blast
qed

lemma path_covers:
  assumes "ok s" "coprime 15 (cap s)" "t < cap s" "t mod 16 = unat (adj s h) mod 16"
  shows "\<exists>n < cap s. path s h n = t"
proof -
  define C b where "C = cap s" and "b = unat (adj s h)"
  have C: "4096 dvd C" "0 < C" using cap_bounds[OF assms(1)] by (auto simp: C_def)
  then obtain c where c: "C = 16 * (256 * c)" "0 < c" by (auto elim!: dvdE)
  define m where "m = 256 * c"
  have Cm: "C = 16 * m" "0 < m" "8 dvd m" using c by (auto simp: m_def)
  have "coprime 15 m" using assms(2) unfolding C_def[symmetric] Cm(1) by simp
  have b: "b < C" using adj_less[OF assms(1)] by (simp add: b_def C_def)
  have tb: "t mod 16 = b mod 16" using assms(4) by (simp add: b_def)
  have "(t + C) mod 16 = b mod 16" using tb Cm(1) by simp
  then obtain d where d: "t + C = b + 16 * d"
    using b by (metis add.commute le_add2 less_imp_le_nat mod_eq_nat2E order_trans)
  obtain n where n: "n < 2 * m" "group_offset n mod m = d mod m"
    using offset_onto[OF Cm(3,2) \<open>coprime 15 m\<close>, of "d mod m"] Cm(2) by auto
  have "16 * group_offset n mod C = 16 * d mod C"
    using n(2) by (simp add: Cm(1) mult_mod_right [symmetric])
  then have "(b + 16 * group_offset n) mod C = (b + 16 * d) mod C" by (intro mod_add_cong) auto
  also have "\<dots> = t" using d assms(3) by (simp add: C_def flip: d)
  finally have "path s h n = t" using path_eq[OF assms(1)] by (simp add: C_def b_def)
  moreover have "n < C" using n(1) Cm by simp
  ultimately show ?thesis by (auto simp: C_def)
qed

lemma path_reaches:
  assumes "ok s" "coprime 15 (cap s)" "15 \<le> i" "i < cap s"
  shows "\<exists>n < cap s. path s h n \<le> i \<and> i < path s h n + 16"
proof -
  define b u where "b = unat (adj s h) mod 16" and "u = i - b"
  define t where "t = b + 16 * (u div 16)"
  have "b \<le> 15" by (simp add: b_def)
  then have "i = b + u" using assms(3) by (simp add: u_def)
  moreover have "u = 16 * (u div 16) + u mod 16" "u mod 16 < 16" by simp_all
  ultimately have t: "t \<le> i" "i < t + 16" unfolding t_def by linarith+
  have "t mod 16 = b" by (simp add: t_def b_def)
  then have "t mod 16 = unat (adj s h) mod 16" by (simp add: b_def)
  moreover have "t < cap s" using t assms(4) by simp
  ultimately obtain n where "n < cap s" "path s h n = t"
    using path_covers[OF assms(1,2)] by blast
  with t show ?thesis by auto
qed

text \<open>Sixteen slots of a kind cannot all escape the probe.\<close>

lemma path_hits:
  assumes "ok s" "coprime 15 (cap s)" "15 < card {i. i < cap s \<and> P i}"
  shows "\<exists>n < cap s. \<exists>i. path s h n \<le> i \<and> i < path s h n + 16 \<and> i < cap s \<and> P i"
proof -
  have "\<exists>i. 15 \<le> i \<and> i < cap s \<and> P i"
  proof (rule ccontr)
    assume "\<not> ?thesis"
    then have "{i. i < cap s \<and> P i} \<subseteq> {..<15}" by (auto simp: not_le)
    then have "card {i. i < cap s \<and> P i} \<le> card {..<15::nat}" by (intro card_mono) auto
    with assms(3) show False by simp
  qed
  then obtain i where "15 \<le> i" "i < cap s" "P i" by blast
  then show ?thesis using path_reaches[OF assms(1,2)] by blast
qed

end

section \<open>The index computation of the code\<close>

lemma AdjustTupleIndex_less:
  assumes "sizes_ok mode s"
  shows "unat (AdjustTupleIndex mode s x) < unat (Capacity s)"
proof (cases "mode = Fast")
  case True
  have "0 < unat (Capacity s)" using assms by (auto simp: sizes_ok_def cap_ok_def)
  with True show ?thesis using AdjustTupleIndex_mask[of s x] assms by simp
next
  case False
  let ?C = "unat (Capacity s)" and ?l = "fastmod_multiplier (unat (Capacity s)) * unat x mod 2 ^ 64"
  have "0 < ?C" using assms by (auto simp: sizes_ok_def cap_ok_def)
  then have "?l * ?C < 2 ^ 64 * ?C" by simp
  then have "?l * ?C div 2 ^ 64 < ?C" by (simp add: less_mult_imp_div_less mult.commute)
  then show ?thesis using AdjustTupleIndex_mulhi[OF assms False] by simp
qed

lemma AdjustTupleIndex_mod:
  assumes "sizes_ok mode s" "unat x < 2 ^ 32"
  shows "unat (AdjustTupleIndex mode s x) = unat x mod unat (Capacity s)"
proof (cases "mode = Fast")
  case False
  have "1 < unat (Capacity s)" "unat (Capacity s) \<le> 2 ^ 31"
    using assms(1) by (auto simp: sizes_ok_def cap_ok_def)
  then show ?thesis
    using fastmod_exact[OF _ _ assms(2)] AdjustTupleIndex_mulhi[OF assms(1) False] by simp
qed (use assms AdjustTupleIndex_mask in auto)

interpretation pr: prober "AdjustTupleIndex mode" "\<lambda>s. unat (Capacity s)" "sizes_ok mode" for mode
proof unfold_locales
  fix s :: "'a sizes_scheme" and x
  assume ok: "sizes_ok mode s"
  show "unat (AdjustTupleIndex mode s x) < unat (Capacity s)" using ok by (rule AdjustTupleIndex_less)
  show "unat x < 2 ^ 32 \<Longrightarrow> unat (AdjustTupleIndex mode s x) = unat x mod unat (Capacity s)"
    using ok by (rule AdjustTupleIndex_mod)
  show "4096 \<le> unat (Capacity s) \<and> unat (Capacity s) \<le> 2 ^ 31 \<and> 4096 dvd unat (Capacity s)"
    using ok by (simp add: sizes_ok_def cap_ok_def)
qed

lemma pow2_mode_coprime: "pow2_mode mode \<Longrightarrow> sizes_ok mode s \<Longrightarrow> coprime 15 (unat (Capacity s))"
  by (auto simp: sizes_ok_def cap_ok_def coprime_power_right_iff)

end
