(* ===== verification/Core.thy ===== *)
theory Core
  imports Probe
begin

text \<open>
  \<open>Core<TKey, TValue, type, Hash, mode, bFix>\<close>, the hash table behind \<open>Map\<close>, \<open>Set\<close> and \<open>Index\<close>.
  The template parameters and the contents of uninitialised memory are a \<open>config\<close>; the members of
  the object are the record \<open>core\<close>, which extends the sizes of theory \<open>Capacity\<close>. Each method is a
  function of the state, in the order the calls need. Loops that may not end are options
  (\<open>None\<close>: no return), operations that may abort are \<open>run\<close>s.
\<close>

datatype core_type = Type_Map | Type_Set | Type_Index

text \<open>An entry of a set or an index has a key only; its value is never read.\<close>

datatype ('k, 'v) entry = Entry (ekey: 'k) (evalue: 'v)

record ('k, 'v) config =
  cfg_type :: core_type
  cfg_mode :: mode
  cfg_fix :: bool
  cfg_hash :: "'k \<Rightarrow> u64"
  cfg_fill :: "nat \<Rightarrow> u8"
  cfg_raw :: "nat \<Rightarrow> ('k, 'v) entry"
  cfg_raw_index :: "nat \<Rightarrow> u32"

text \<open>\<open>realIndex\<close> is a member of the \<open>IndexArray\<close> only.\<close>

record ('k, 'v) core = sizes +
  tags :: tag_array
  entries :: "('k, 'v) entry entry_array"
  realIndex :: "u32 entry_array"
  Count :: u32

definition load_factor :: "('k, 'v) core \<Rightarrow> rat" where
  "load_factor c =
     (if Count c \<noteq> 0
      then to_float (to_double (of_nat (unat (Count c)) / of_nat (unat (Capacity c)))) else 0)"

section \<open>Searching\<close>

definition home :: "('k, 'v) config \<Rightarrow> ('k, 'v) core \<Rightarrow> u64 \<Rightarrow> u64" where
  "home cfg c h = AdjustTupleIndex (cfg_mode cfg) c h"

text \<open>The index into \<open>_entries\<close> that belongs to a slot.\<close>

definition real_index :: "('k, 'v) config \<Rightarrow> ('k, 'v) core \<Rightarrow> u64 \<Rightarrow> u64" where
  "real_index cfg c slot =
     (if cfg_type cfg = Type_Index then ucast (EntryArray_get (realIndex c) slot) else slot)"

definition key_at :: "('k, 'v) config \<Rightarrow> ('k, 'v) core \<Rightarrow> u64 \<Rightarrow> 'k" where
  "key_at cfg c slot = ekey (EntryArray_get (entries c) (real_index cfg c slot))"

text \<open>\<open>while (resultMask) { \<dots> resultMask = ResetLowestSetBit(resultMask); }\<close>: the first slot of the
  mask, in the order \<open>TrailingZeroCount\<close> gives, whose key is the one looked for.\<close>

function match_loop :: "bool \<Rightarrow> (u64 \<Rightarrow> bool) \<Rightarrow> u64 \<Rightarrow> u32 \<Rightarrow> u64 option" where
  "match_loop bFix same tupleIndex resultMask =
     (if resultMask \<noteq> 0 then
        let slot = tupleIndex + ucast (TrailingZeroCount bFix resultMask) in
        if same slot then Some slot
        else match_loop bFix same tupleIndex (ResetLowestSetBit resultMask)
      else None)"
  by pat_completeness auto
termination
  by (relation "measure (\<lambda>(b, s, t, m). unat m)") (auto simp: ResetLowestSetBit_less)

declare match_loop.simps [simp del]

definition load_group :: "('k, 'v) core \<Rightarrow> u64 \<Rightarrow> u8 list" where
  "load_group c tupleIndex = LoadVector SIZE (ta_bytes (tags c)) (unat tupleIndex)"

definition find_stop ::
    "('k, 'v) config \<Rightarrow> ('k, 'v) core \<Rightarrow> 'k \<Rightarrow> u8 \<Rightarrow> u64 \<Rightarrow> u64 option option" where
  "find_stop cfg c key tag tupleIndex =
     (let source = load_group c tupleIndex;
          resultMask = GetCmpMask SIZE (set1_epi8 SIZE tag) source in
      case match_loop (cfg_fix cfg) (\<lambda>slot. key = key_at cfg c slot) tupleIndex resultMask of
        Some slot \<Rightarrow> Some (Some slot)
      | None \<Rightarrow> if GetEmptyMask SIZE source \<noteq> (0 :: u32) then Some None else None)"

definition FindSlot :: "('k, 'v) config \<Rightarrow> ('k, 'v) core \<Rightarrow> 'k \<Rightarrow> u64 option option" where
  "FindSlot cfg c key =
     (let h = cfg_hash cfg key in
      probe (find_stop cfg c key (HashToTag h)) (AdjustTupleIndex (cfg_mode cfg) c) (home cfg c h) 0)"

text \<open>What \<open>FUNCTION\<close> is called with: the value, or the index.\<close>

datatype 'v found = Found_value 'v | Found_index u64

definition FindEntry ::
    "('k, 'v) config \<Rightarrow> bool \<Rightarrow> ('k, 'v) core \<Rightarrow> 'k \<Rightarrow> 'v found option option" where
  "FindEntry cfg bValue c key =
     map_option (map_option (\<lambda>slot.
       if cfg_type cfg = Type_Map \<and> bValue then Found_value (evalue (EntryArray_get (entries c) slot))
       else Found_index (real_index cfg c slot)))
     (FindSlot cfg c key)"

definition Contains :: "('k, 'v) config \<Rightarrow> ('k, 'v) core \<Rightarrow> 'k \<Rightarrow> bool option" where
  "Contains cfg c key = map_option (\<lambda>r. r \<noteq> None) (FindEntry cfg False c key)"

text \<open>The lambda of \<open>Remove\<close> marks the slot and counts down.\<close>

definition Remove :: "('k, 'v) config \<Rightarrow> ('k, 'v) core \<Rightarrow> 'k \<Rightarrow> (bool \<times> ('k, 'v) core) option" where
  "Remove cfg c key =
     map_option (\<lambda>r. case r of
         Some (Found_index entryIndex) \<Rightarrow>
           (True, c\<lparr>tags := TagArray_set (tags c) entryIndex TOMBSTONE, Count := Count c - 1\<rparr>)
       | _ \<Rightarrow> (False, c))
     (FindEntry cfg False c key)"

definition empty_stop :: "('k, 'v) core \<Rightarrow> bool \<Rightarrow> u64 \<Rightarrow> u32 option" where
  "empty_stop c bFix tupleIndex =
     (let emptyMask = (GetEmptyMask SIZE (load_group c tupleIndex) :: u32) in
      if emptyMask \<noteq> 0 then Some (ucast (tupleIndex + ucast (TrailingZeroCount bFix emptyMask)))
      else None)"

definition FindEmpty :: "('k, 'v) config \<Rightarrow> ('k, 'v) core \<Rightarrow> u64 \<Rightarrow> u32 option" where
  "FindEmpty cfg c h =
     probe (empty_stop c (cfg_fix cfg)) (AdjustTupleIndex (cfg_mode cfg) c) (home cfg c h) 0"

section \<open>Rehashing\<close>

definition set_tag :: "u64 \<Rightarrow> u8 \<Rightarrow> ('k, 'v) core \<Rightarrow> ('k, 'v) core" where
  "set_tag i t c = c\<lparr>tags := TagArray_set (tags c) i t\<rparr>"

definition set_entry :: "u64 \<Rightarrow> ('k, 'v) entry \<Rightarrow> ('k, 'v) core \<Rightarrow> ('k, 'v) core" where
  "set_entry i e c = c\<lparr>entries := EntryArray_set (entries c) i e\<rparr>"

text \<open>\<open>_tags[i] = tag; _entries[i] = entry; _Count++\<close>\<close>

definition place :: "u32 \<Rightarrow> u8 \<Rightarrow> ('k, 'v) entry \<Rightarrow> ('k, 'v) core \<Rightarrow> ('k, 'v) core" where
  "place i t e c = (let c = set_entry (ucast i) e (set_tag (ucast i) t c) in c\<lparr>Count := Count c + 1\<rparr>)"

text \<open>The test \<open>emptyIndex >= prevTags.size() || prevTags[emptyIndex] & TagVector::EMPTY\<close>.\<close>

definition vacant :: "tag_array \<Rightarrow> u32 \<Rightarrow> bool" where
  "vacant prevTags i \<longleftrightarrow> i \<ge> ta_size prevTags \<or> TagArray_get prevTags (ucast i) AND EMPTY \<noteq> 0"

text \<open>The inner \<open>while (true)\<close>: the entry in hand goes to \<open>emptyIndex\<close>, the entry it displaces is in
  hand next, until one goes to a vacant slot.\<close>

partial_function (option) rehash_chain ::
    "('k, 'v) config \<Rightarrow> u32 \<Rightarrow> u8 \<Rightarrow> ('k, 'v) entry \<Rightarrow> tag_array \<Rightarrow> ('k, 'v) core
      \<Rightarrow> (tag_array \<times> ('k, 'v) core) option" where
  "rehash_chain cfg emptyIndex prevTag prevEntry prevTags c =
     (let saveTag = TagArray_get prevTags (ucast emptyIndex);
          prevTags = TagArray_set prevTags (ucast emptyIndex) EMPTY;
          saveEntry = EntryArray_get (entries c) (ucast emptyIndex);
          c = place emptyIndex prevTag prevEntry c in
      Option.bind (FindEmpty cfg c (cfg_hash cfg (ekey saveEntry))) (\<lambda>emptyIndex.
        if vacant prevTags emptyIndex then Some (prevTags, place emptyIndex saveTag saveEntry c)
        else rehash_chain cfg emptyIndex saveTag saveEntry prevTags c))"

declare rehash_chain.simps [code]

definition rehash_slot ::
    "('k, 'v) config \<Rightarrow> nat \<Rightarrow> tag_array \<times> ('k, 'v) core \<Rightarrow> (tag_array \<times> ('k, 'v) core) run" where
  "rehash_slot cfg n st = (case st of (prevTags, c) \<Rightarrow>
     let i = of_nat n; prevTag = TagArray_get prevTags i in
     if prevTag AND EMPTY \<noteq> 0 then ret (prevTags, c)
     else
       let iEntryRef = EntryArray_get (entries c) i in
       run_bind (of_loop (FindEmpty cfg c (cfg_hash cfg (ekey iEntryRef)))) (\<lambda>emptyIndex.
       let prevTags = TagArray_set prevTags i EMPTY in
       if ucast emptyIndex = i then
         ret (prevTags, let c = set_tag i prevTag c in c\<lparr>Count := Count c + 1\<rparr>)
       else if vacant prevTags emptyIndex then
         ret (prevTags, place emptyIndex prevTag iEntryRef c)
       else of_loop (rehash_chain cfg emptyIndex prevTag iEntryRef prevTags c)))"

definition fresh_tag_array ::
    "('k, 'v) config \<Rightarrow> u32 \<Rightarrow> ('k, 'v) core \<Rightarrow> ('k, 'v) core run" where
  "fresh_tag_array cfg sz c =
     run_bind (run_bind (TagArray_AdjustSize (cfg_fill cfg) sz (tags c)) (TagArray_Init False))
       (\<lambda>t. ret (c\<lparr>tags := t\<rparr>))"

definition rehash_index :: "('k, 'v) config \<Rightarrow> nat \<Rightarrow> ('k, 'v) core \<Rightarrow> ('k, 'v) core run" where
  "rehash_index cfg r c =
     (let tupleIndex = cfg_hash cfg (ekey (EntryArray_get (entries c) (of_nat r)));
          tag = HashToTag tupleIndex in
      run_bind (of_loop (FindEmpty cfg c tupleIndex)) (\<lambda>i.
      ret ((set_tag (ucast i) tag c)
           \<lparr>realIndex := EntryArray_set (realIndex c) (ucast i) (of_nat r)\<rparr>)))"

definition RehashInternal :: "('k, 'v) config \<Rightarrow> u32 \<Rightarrow> ('k, 'v) core \<Rightarrow> ('k, 'v) core run" where
  "RehashInternal cfg sz c =
     (if cfg_type cfg = Type_Index then
        run_bind (fresh_tag_array cfg sz c) (\<lambda>c.
        run_fold (rehash_index cfg) [0..<unat (Count c)] c)
      else
        (case TagArray_move (tags c) of (prevTags, moved) \<Rightarrow>
         run_bind (fresh_tag_array cfg sz (c\<lparr>tags := moved\<rparr>)) (\<lambda>c.
         let prevCount = Count c; c = c\<lparr>Count := 0\<rparr> in
         run_bind (run_fold (rehash_slot cfg) [0..<unat (ta_size prevTags)] (prevTags, c)) (\<lambda>(_, c).
         run_bind (check (prevCount = Count c) Rehash_count) (\<lambda>_.
         ret c)))))"

definition Rehash :: "('k, 'v) config \<Rightarrow> ('k, 'v) core \<Rightarrow> ('k, 'v) core run" where
  "Rehash cfg c = (if Count c \<noteq> 0 then RehashInternal cfg (ta_size (tags c)) c else ret c)"

section \<open>Sizes\<close>

definition adjust_entries :: "('k, 'v) config \<Rightarrow> ('k, 'v) core \<Rightarrow> ('k, 'v) core run" where
  "adjust_entries cfg c =
     (if cfg_type cfg = Type_Index then
        run_bind (EntryArray_AdjustSize True (cfg_raw_index cfg) (Capacity c) (realIndex c))
          (\<lambda>a. ret (c\<lparr>realIndex := a\<rparr>))
      else
        run_bind (EntryArray_AdjustSize True (cfg_raw cfg) (Capacity c) (entries c))
          (\<lambda>a. ret (c\<lparr>entries := a\<rparr>)))"

definition Resize :: "('k, 'v) config \<Rightarrow> u32 \<Rightarrow> ('k, 'v) core \<Rightarrow> ('k, 'v) core run" where
  "Resize cfg sz c =
     (if Capacity c > AdjustCapacity (cfg_mode cfg) sz then ret c
      else
        run_bind (check (cfg_mode cfg = ResizeOnlyEmpty \<longrightarrow> Count c = 0) Resize_only_empty) (\<lambda>_.
        let c = InitCapacity (cfg_mode cfg) sz c in
        if Capacity c = ta_size (tags c) then ret c
        else
          run_bind (adjust_entries cfg c) (\<lambda>c.
          if Count c = 0 then fresh_tag_array cfg (Capacity c) c
          else RehashInternal cfg (Capacity c) c)))"

definition Clear :: "('k, 'v) config \<Rightarrow> u32 \<Rightarrow> ('k, 'v) core \<Rightarrow> ('k, 'v) core run" where
  "Clear cfg sz c =
     (let c = c\<lparr>Count := 0\<rparr> in
      if sz > 0 \<and> AdjustCapacity (cfg_mode cfg) sz \<noteq> Capacity c then
        Resize cfg sz (c\<lparr>tags := TagArray_Clear (tags c), Capacity := 0\<rparr>)
      else
        run_bind (TagArray_Init False (tags c)) (\<lambda>t. ret (c\<lparr>tags := t\<rparr>)))"

text \<open>The constructor. Members without an initialiser hold unknown values: those of \<open>c0\<close>.\<close>

definition Core_new :: "('k, 'v) config \<Rightarrow> ('k, 'v) core \<Rightarrow> ('k, 'v) core run" where
  "Core_new cfg c0 =
     Resize cfg MIN_SIZE (c0\<lparr>Capacity := 0, load_limit := DEF_LOAD_FACTOR, tags := TagArray_new,
       entries := EntryArray_new, realIndex := EntryArray_new, Count := 0\<rparr>)"

section \<open>Adding\<close>

text \<open>Where the loops of \<open>Add\<close> stop: at a slot with the key (\<open>Inl\<close>) or at a free slot (\<open>Inr\<close>).\<close>

definition add_stop ::
    "('k, 'v) config \<Rightarrow> bool \<Rightarrow> ('k, 'v) core \<Rightarrow> 'k \<Rightarrow> u8 \<Rightarrow> u64 \<Rightarrow> (u64 + u64) option" where
  "add_stop cfg bUnique c key tag tupleIndex =
     (let source = load_group c tupleIndex;
          emptyMask = (GetEmptyOrTomeStoneMask SIZE source :: u32);
          free = (if emptyMask \<noteq> 0
                  then Some (Inr (tupleIndex + ucast (TrailingZeroCount (cfg_fix cfg) emptyMask)))
                  else None) in
      if \<not> bUnique then
        let resultMask = GetCmpMask SIZE (set1_epi8 SIZE tag) source in
        case match_loop (cfg_fix cfg) (\<lambda>slot. key = key_at cfg c slot) tupleIndex resultMask of
          Some slot \<Rightarrow> Some (Inl slot)
        | None \<Rightarrow> free
      else free)"

definition AddSlot :: "('k, 'v) config \<Rightarrow> bool \<Rightarrow> ('k, 'v) core \<Rightarrow> 'k \<Rightarrow> (u64 + u64) option" where
  "AddSlot cfg bUnique c key =
     (let h = cfg_hash cfg key in
      probe (add_stop cfg bUnique c key (HashToTag h)) (AdjustTupleIndex (cfg_mode cfg) c)
        (home cfg c h) 0)"

text \<open>The key is there. \<open>FUNCTION\<close> is an assignment to the value (maps) or receives the index
  (indices); the second component of the result is the index it receives, if any.\<close>

definition add_existing ::
    "('k, 'v) config \<Rightarrow> bool \<Rightarrow> ('v \<Rightarrow> 'v) \<Rightarrow> ('k, 'v) core \<Rightarrow> u64 \<Rightarrow> u32 option \<times> ('k, 'v) core" where
  "add_existing cfg bUpdate f c slot =
     (case cfg_type cfg of
        Type_Index \<Rightarrow> (if bUpdate then Some (EntryArray_get (realIndex c) slot) else None, c)
      | Type_Set \<Rightarrow> (None, c)
      | Type_Map \<Rightarrow>
          (None, if bUpdate
                 then let e = EntryArray_get (entries c) slot
                      in set_entry slot (Entry (ekey e) (f (evalue e))) c
                 else c))"

text \<open>The key goes to a free slot.\<close>

definition add_entry ::
    "('k, 'v) config \<Rightarrow> bool \<Rightarrow> ('v \<Rightarrow> 'v) \<Rightarrow> 'k \<Rightarrow> ('k, 'v) core \<Rightarrow> u64
      \<Rightarrow> (u32 option \<times> ('k, 'v) core) run" where
  "add_entry cfg bUpdate f key c entryIndex =
     (case cfg_type cfg of
        Type_Index \<Rightarrow>
          (let real = Count c;
               c = c\<lparr>realIndex := EntryArray_set (realIndex c) entryIndex real\<rparr> in
           run_bind (if real = ea_size (entries c)
                     then EntryArray_AdjustSize True (cfg_raw cfg) (real + 1) (entries c)
                     else ret (entries c)) (\<lambda>es.
           let e = EntryArray_get es (ucast real);
               c = c\<lparr>entries := EntryArray_set es (ucast real) (Entry key (evalue e))\<rparr>
           in ret (if bUpdate then Some real else None, c)))
      | Type_Set \<Rightarrow>
          (let e = EntryArray_get (entries c) entryIndex
           in ret (None, set_entry entryIndex (Entry key (evalue e)) c))
      | Type_Map \<Rightarrow>
          (let e = EntryArray_get (entries c) entryIndex
           in ret (None, set_entry entryIndex (Entry key (f (evalue e))) c)))"

definition Add ::
    "('k, 'v) config \<Rightarrow> bool \<Rightarrow> bool \<Rightarrow> ('v \<Rightarrow> 'v) \<Rightarrow> 'k \<Rightarrow> ('k, 'v) core
      \<Rightarrow> (bool \<times> u32 option \<times> ('k, 'v) core) run" where
  "Add cfg bUnique bUpdate f key c =
     run_bind (of_loop (AddSlot cfg bUnique c key)) (\<lambda>r. case r of
       Inl slot \<Rightarrow> (case add_existing cfg bUpdate f c slot of (out, c) \<Rightarrow> ret (False, out, c))
     | Inr entryIndex \<Rightarrow>
         run_bind (add_entry cfg bUpdate f key
                     (set_tag entryIndex (HashToTag (cfg_hash cfg key)) c) entryIndex) (\<lambda>(out, c).
         let c = c\<lparr>Count := Count c + 1\<rparr> in
         if Count c = CountGrowthLimit c
         then run_bind (Resize cfg (Capacity c + 1) c) (\<lambda>c. ret (True, out, c))
         else ret (True, out, c)))"

end
