(* ===== verification/Slots.thy ===== *)
theory Slots
  imports Core
begin

text \<open>
  The table seen slot by slot: the tag and the key of a slot, the slots in use, the group of slots one
  load covers. What one step of each probe loop decides is stated here in these terms, for the mask
  computations of \<open>FindEntry\<close>, \<open>Add\<close> and \<open>FindEmpty\<close>.
\<close>

definition cap :: "('k, 'v) core \<Rightarrow> nat" where
  "cap c = unat (Capacity c)"

definition tag_at :: "('k, 'v) core \<Rightarrow> nat \<Rightarrow> u8" where
  "tag_at c i = ta_bytes (tags c) ! i"

definition live :: "('k, 'v) core \<Rightarrow> nat set" where
  "live c = {i. i < cap c \<and> is_full (tag_at c i)}"

definition slot_key :: "('k, 'v) config \<Rightarrow> ('k, 'v) core \<Rightarrow> nat \<Rightarrow> 'k" where
  "slot_key cfg c i = key_at cfg c (of_nat i)"

definition group :: "('k, 'v) core \<Rightarrow> nat \<Rightarrow> nat set" where
  "group c p = {i. p \<le> i \<and> i < p + SIZE \<and> i < cap c}"

definition hash_path :: "('k, 'v) config \<Rightarrow> ('k, 'v) core \<Rightarrow> u64 \<Rightarrow> nat \<Rightarrow> nat" where
  "hash_path cfg c h n = pr.path (cfg_mode cfg) c h n"

text \<open>A slot a search for its key examines: no group before it on the path has an empty slot.\<close>

definition reachable_slot :: "('k, 'v) config \<Rightarrow> ('k, 'v) core \<Rightarrow> u64 \<Rightarrow> nat \<Rightarrow> bool" where
  "reachable_slot cfg c h i \<longleftrightarrow>
     (\<exists>n. i \<in> group c (hash_path cfg c h n)
        \<and> (\<forall>m<n. \<forall>j \<in> group c (hash_path cfg c h m). tag_at c j \<noteq> EMPTY))"

definition holds_key :: "('k, 'v) config \<Rightarrow> ('k, 'v) core \<Rightarrow> 'k \<Rightarrow> nat \<Rightarrow> bool" where
  "holds_key cfg c k i \<longleftrightarrow> i < cap c \<and> tag_at c i = HashToTag (cfg_hash cfg k) \<and> slot_key cfg c i = k"

definition table_ok :: "('k, 'v) config \<Rightarrow> ('k, 'v) core \<Rightarrow> bool" where
  "table_ok cfg c \<longleftrightarrow> sizes_ok (cfg_mode cfg) c \<and> tags_ok (tags c) \<and> ta_size (tags c) = Capacity c"

lemma finite_live [simp]: "finite (live c)"
  by (simp add: live_def)

lemma table_ok_cap: "table_ok cfg c \<Longrightarrow> 4096 \<le> cap c \<and> cap c \<le> 2 ^ 31"
  by (auto simp: table_ok_def sizes_ok_def cap_ok_def cap_def)

lemma table_ok_tag:
  assumes "table_ok cfg c" "i < cap c + SIZE"
  shows "valid_tag (tag_at c i) \<or> tag_at c i = FORBIDDEN" "tag_at c i \<noteq> FORBIDDEN \<Longrightarrow> i < cap c"
    "i < cap c \<Longrightarrow> valid_tag (tag_at c i)"
  using assms tags_ok_tag[of "tags c" i] tags_ok_slot[of "tags c" i]
  by (auto simp: table_ok_def tag_at_def cap_def tags_ok_def)

section \<open>The inner loop over a mask\<close>

lemma match_loop_0: "match_loop bFix same t 0 = None"
  by (subst match_loop.simps) simp

lemma match_loop_hit:
  "m \<noteq> 0 \<Longrightarrow> same (t + of_nat (unat (TrailingZeroCount bFix m))) \<Longrightarrow>
   match_loop bFix same t m = Some (t + of_nat (unat (TrailingZeroCount bFix m)))"
  by (subst match_loop.simps) (simp only: Let_def if_True of_nat_unat not_False_eq_True)

lemma match_loop_miss:
  "m \<noteq> 0 \<Longrightarrow> \<not> same (t + of_nat (unat (TrailingZeroCount bFix m))) \<Longrightarrow>
   match_loop bFix same t m = match_loop bFix same t (ResetLowestSetBit m)"
  by (subst match_loop.simps) (simp only: Let_def if_True if_False of_nat_unat not_False_eq_True)

text \<open>With the CPU's count every set bit is tried; the chain of the \<open>bFix\<close> branch can pass over bit 12.\<close>

definition skipped :: "bool \<Rightarrow> u32 \<Rightarrow> nat \<Rightarrow> bool" where
  "skipped bFix m j \<longleftrightarrow> bFix \<and> j = 12 \<and> (bit m 13 \<or> bit m 14 \<or> bit m 15)"

text \<open>Induction along the loop: a mask without bits, a hit, a miss.\<close>

lemma mask_induct [case_names zero step]:
  assumes "P 0" "\<And>m :: u32. m \<noteq> 0 \<Longrightarrow> P (ResetLowestSetBit m) \<Longrightarrow> P m"
  shows "P m"
proof (induction "unat m" arbitrary: m rule: less_induct)
  case less
  show ?case
  proof (cases "m = 0")
    case False
    then show ?thesis using assms(2)[OF False] less ResetLowestSetBit_less[OF False] by blast
  qed (use assms(1) in simp)
qed

lemma match_loop_Some:
  "match_loop bFix same t m = Some s \<Longrightarrow> \<exists>j. bit m j \<and> s = t + of_nat j \<and> same s"
proof (induction m rule: mask_induct)
  case (step m)
  let ?j = "unat (TrailingZeroCount bFix m)"
  show ?case
  proof (cases "same (t + of_nat ?j)")
    case True
    then have "s = t + of_nat ?j" using match_loop_hit[where same = same, OF step.hyps True] step.prems by (simp only: option.inject)
    with TrailingZeroCount_set_bit[OF step.hyps] True show ?thesis by blast
  next
    case False
    then have "match_loop bFix same t (ResetLowestSetBit m) = Some s"
      using match_loop_miss[where same = same, OF step.hyps False] step.prems by (simp only:)
    with step.IH obtain j where "bit (ResetLowestSetBit m) j" "s = t + of_nat j" "same s" by blast
    with bit_ResetLowestSetBit[OF step.hyps] show ?thesis by blast
  qed
qed (simp add: match_loop_0)

text \<open>The bit the chain reports, against the lowest one.\<close>

lemma unat_lowest_bit: "(m :: u32) \<noteq> 0 \<Longrightarrow> unat (of_nat (lowest_bit m) :: u32) = lowest_bit m"
  using lowest_bit_less[of m] by (simp add: unat_of_nat)

lemma TrailingZeroCount_lowest:
  assumes "m \<noteq> 0" "\<not> skipped bFix m (lowest_bit m)"
  shows "unat (TrailingZeroCount bFix m) = lowest_bit m"
  using assms TrailingZeroCount_fix[OF assms(1)] TrailingZeroCount_nofix[of m] unat_lowest_bit[OF assms(1)]
  by (cases bFix) (auto simp: skipped_def split: if_splits)

lemma match_loop_None:
  "match_loop bFix same t m = None \<Longrightarrow> bit m j \<Longrightarrow> \<not> skipped bFix m j \<Longrightarrow> \<not> same (t + of_nat j)"
proof (induction m rule: mask_induct)
  case (step m)
  have ns: "\<not> same (t + of_nat (unat (TrailingZeroCount bFix m)))"
  proof
    assume "same (t + of_nat (unat (TrailingZeroCount bFix m)))"
    from match_loop_hit[where same = same, OF step.hyps this] step.prems(1) show False
      by (simp only: option.distinct)
  qed
  show ?case
  proof (cases "j = unat (TrailingZeroCount bFix m)")
    case True
    show ?thesis unfolding True by (rule ns)
  next
    case False
    have "j \<noteq> lowest_bit m"
    proof
      assume j: "j = lowest_bit m"
      then have "\<not> skipped bFix m (lowest_bit m)" using step.prems(3) by (simp only: not_False_eq_True)
      from TrailingZeroCount_lowest[OF step.hyps this] j False show False by (simp only: simp_thms)
    qed
    then have "bit (ResetLowestSetBit m) j" using step.prems(2) bit_ResetLowestSetBit[OF step.hyps] by simp
    moreover have "\<not> skipped bFix (ResetLowestSetBit m) j"
      using step.prems(3) bit_ResetLowestSetBit[OF step.hyps] by (auto simp: skipped_def)
    moreover have "match_loop bFix same t (ResetLowestSetBit m) = None"
      using match_loop_miss[where same = same, OF step.hyps ns] step.prems(1) by (simp only:)
    ultimately show ?thesis by (intro step.IH)
  qed
qed (simp only: bit_0_eq bot_apply bot_bool_def)

text \<open>What the chain passes over really is passed over.\<close>

lemma match_loop_skips:
  "bFix \<Longrightarrow> skipped bFix m 12 \<Longrightarrow> (\<And>j. j \<noteq> 12 \<Longrightarrow> bit m j \<Longrightarrow> \<not> same (t + of_nat j)) \<Longrightarrow>
   match_loop bFix same t m = None"
proof (induction m rule: mask_induct)
  case (step m)
  let ?z = "unat (TrailingZeroCount bFix m)"
  have zb: "bit m ?z" by (rule TrailingZeroCount_set_bit[OF step.hyps])
  have z: "?z \<noteq> 12"
    using TrailingZeroCount_fix[OF step.hyps] step.prems(1,2) unat_lowest_bit[OF step.hyps]
    by (auto simp: skipped_def split: if_splits)
  then have miss: "match_loop bFix same t m = match_loop bFix same t (ResetLowestSetBit m)"
    using match_loop_miss[OF step.hyps] step.prems(3) zb by blast
  show ?case
  proof (cases "skipped bFix (ResetLowestSetBit m) 12")
    case True
    then show ?thesis
      using step.IH[OF step.prems(1) True] step.prems(3) bit_ResetLowestSetBit[OF step.hyps]
      unfolding miss by blast
  next
    case False
    show ?thesis
    proof (rule ccontr)
      assume "\<not> ?thesis"
      then obtain s where "match_loop bFix same t (ResetLowestSetBit m) = Some s" using miss by auto
      then obtain j where j: "bit (ResetLowestSetBit m) j" "s = t + of_nat j" "same s"
        using match_loop_Some by blast
      then have "bit m j" "j \<noteq> lowest_bit m" using bit_ResetLowestSetBit[OF step.hyps] by auto
      with step.prems(3) j have j12: "j = 12" by blast
      have "lowest_bit m \<le> 12"
        using below_lowest_bit[OF step.hyps, of 12] \<open>bit m j\<close> j12 by (meson not_le)
      then have "skipped bFix (ResetLowestSetBit m) 12"
        using step.prems(1,2) bit_ResetLowestSetBit[OF step.hyps] by (auto simp: skipped_def)
      with False show False ..
    qed
  qed
qed (simp add: match_loop_0)

section \<open>One group\<close>

text \<open>The slot of a group that the \<open>bFix\<close> chain does not look at.\<close>

definition overlooked :: "('k, 'v) config \<Rightarrow> ('k, 'v) core \<Rightarrow> u8 \<Rightarrow> nat \<Rightarrow> nat \<Rightarrow> bool" where
  "overlooked cfg c t p i \<longleftrightarrow> cfg_fix cfg \<and> i = p + 12
     \<and> (tag_at c (p + 13) = t \<or> tag_at c (p + 14) = t \<or> tag_at c (p + 15) = t)"

definition matches :: "('k, 'v) config \<Rightarrow> ('k, 'v) core \<Rightarrow> 'k \<Rightarrow> u8 \<Rightarrow> nat \<Rightarrow> bool" where
  "matches cfg c k t i \<longleftrightarrow> tag_at c i = t \<and> slot_key cfg c i = k"

lemma nth_load_group: "j < SIZE \<Longrightarrow> load_group c p ! j = tag_at c (unat p + j)"
  by (simp add: load_group_def tag_at_def)

lemma length_load_group [simp]: "length (load_group c p) = SIZE"
  by (simp add: load_group_def)

lemma SIZE_32: "SIZE \<le> LENGTH(32)"
  by (simp add: SIZE_def)

lemma bit_cmp_group:
  "bit (GetCmpMask SIZE (set1_epi8 SIZE t) (load_group c p) :: u32) j
     \<longleftrightarrow> j < SIZE \<and> tag_at c (unat p + j) = t"
  by (subst bit_GetCmpMask[OF _ _ SIZE_32]) (auto simp: nth_load_group)

lemma bit_empty_group:
  "bit (GetEmptyMask SIZE (load_group c p) :: u32) j \<longleftrightarrow> j < SIZE \<and> tag_at c (unat p + j) = EMPTY"
  by (subst bit_GetEmptyMask[OF _ SIZE_32]) (auto simp: nth_load_group)

lemma in_group_iff: "i \<in> group c p \<longleftrightarrow> (\<exists>j<SIZE. i = p + j \<and> p + j < cap c)"
  by (auto simp: group_def intro!: exI[of _ "i - p"])

lemma group_lane:
  assumes ok: "table_ok cfg c" and p: "unat p < cap c"
  shows "j < SIZE \<Longrightarrow> tag_at c (unat p + j) \<noteq> FORBIDDEN \<Longrightarrow> unat p + j \<in> group c (unat p)"
  using table_ok_tag(2)[OF ok, of "unat p + j"] p by (auto simp: in_group_iff)

lemma lane_slot:
  fixes p :: u64
  assumes ok: "table_ok cfg c" and p: "unat p < cap c" and j: "j < SIZE"
  shows "unat (p + of_nat j) = unat p + j"
proof -
  have u: "unat (of_nat j :: u64) = j" using j by (simp add: SIZE_def unat_of_nat)
  have "unat p + unat (of_nat j :: u64) < 2 ^ 64"
    unfolding u using p j table_ok_cap[OF ok] by (simp add: SIZE_def)
  then have "unat (p + of_nat j) = unat p + unat (of_nat j :: u64)" by (rule unat_add_u64)
  then show ?thesis unfolding u .
qed

lemma lane_key: "slot_key cfg c (unat p + j) = key_at cfg c (p + of_nat j)"
  by (simp add: slot_key_def)

lemma bit_free_group:
  assumes ok: "table_ok cfg c" and p: "unat p < cap c"
  shows "bit (GetEmptyOrTomeStoneMask SIZE (load_group c p) :: u32) j
     \<longleftrightarrow> j < SIZE \<and> is_free (tag_at c (unat p + j))"
proof -
  have "j < SIZE \<Longrightarrow> valid_tag (tag_at c (unat p + j)) \<or> tag_at c (unat p + j) = FORBIDDEN"
    using table_ok_tag(1)[OF ok] p by simp
  then have "j < SIZE \<Longrightarrow> bit (tag_at c (unat p + j)) 7 \<and> \<not> bit (tag_at c (unat p + j)) 1
      \<longleftrightarrow> is_free (tag_at c (unat p + j))" by (intro free_mask_bit)
  then show ?thesis
    by (subst bit_GetEmptyOrTomeStoneMask[OF _ SIZE_32]) (auto simp: nth_load_group simp del: One_nat_def)
qed

lemma match_hit:
  assumes ok: "table_ok cfg c" and p: "unat p < cap c"
    and "match_loop (cfg_fix cfg) (\<lambda>slot. k = key_at cfg c slot) p
      (GetCmpMask SIZE (set1_epi8 SIZE t) (load_group c p)) = Some s" "t \<noteq> FORBIDDEN"
  shows "unat s \<in> group c (unat p)" "matches cfg c k t (unat s)"
proof -
  obtain j where j: "j < SIZE" "tag_at c (unat p + j) = t" "s = p + of_nat j" "k = key_at cfg c s"
    using match_loop_Some[OF assms(3)] by (auto simp: bit_cmp_group)
  then have s: "unat s = unat p + j" by (simp only: lane_slot[OF ok p])
  show "unat s \<in> group c (unat p)" unfolding s using j assms(4) by (intro group_lane[OF ok p]) auto
  show "matches cfg c k t (unat s)"
    unfolding s matches_def lane_key using j by simp
qed

lemma match_miss:
  assumes ok: "table_ok cfg c" and p: "unat p < cap c"
    and "match_loop (cfg_fix cfg) (\<lambda>slot. k = key_at cfg c slot) p
      (GetCmpMask SIZE (set1_epi8 SIZE t) (load_group c p)) = None"
    "i \<in> group c (unat p)" "matches cfg c k t i"
  shows "overlooked cfg c t (unat p) i"
proof (rule ccontr)
  assume n: "\<not> ?thesis"
  obtain j where j: "j < SIZE" "i = unat p + j" using assms(4) by (auto simp: in_group_iff)
  have "tag_at c (unat p + j) = t" "key_at cfg c (p + of_nat j) = k"
    using assms(5) unfolding j(2) matches_def lane_key by auto
  moreover have "\<not> skipped (cfg_fix cfg) (GetCmpMask SIZE (set1_epi8 SIZE t) (load_group c p)) j"
    using n unfolding skipped_def overlooked_def j(2) bit_cmp_group by auto
  ultimately show False
    using match_loop_None[OF assms(3), of j] j(1) by (auto simp: bit_cmp_group)
qed

text \<open>What the three probe loops do at one group.\<close>

lemma find_stop_Some:
  assumes ok: "table_ok cfg c" and p: "unat p < cap c"
  shows "find_stop cfg c k t p = Some (Some s) \<Longrightarrow> t \<noteq> FORBIDDEN \<Longrightarrow>
   unat s \<in> group c (unat p) \<and> matches cfg c k t (unat s)"
  using match_hit[OF ok p, of k t s] by (auto simp: find_stop_def Let_def split: option.splits if_splits)

lemma no_empty_mask:
  assumes ok: "table_ok cfg c" and p: "unat p < cap c"
  shows "(GetEmptyMask SIZE (load_group c p) :: u32) \<noteq> 0 \<longleftrightarrow> (\<exists>i \<in> group c (unat p). tag_at c i = EMPTY)"
proof
  assume "(GetEmptyMask SIZE (load_group c p) :: u32) \<noteq> 0"
  then obtain j where "j < SIZE" "tag_at c (unat p + j) = EMPTY"
    by (auto simp: word_nonzero_bit bit_empty_group)
  with group_lane[OF ok p, of j] show "\<exists>i \<in> group c (unat p). tag_at c i = EMPTY" by auto
next
  assume "\<exists>i \<in> group c (unat p). tag_at c i = EMPTY"
  then show "(GetEmptyMask SIZE (load_group c p) :: u32) \<noteq> 0"
    by (auto simp: word_nonzero_bit bit_empty_group in_group_iff)
qed

lemma no_free_mask:
  assumes ok: "table_ok cfg c" and p: "unat p < cap c"
  shows "(GetEmptyOrTomeStoneMask SIZE (load_group c p) :: u32) \<noteq> 0
     \<longleftrightarrow> (\<exists>i \<in> group c (unat p). is_free (tag_at c i))"
proof
  assume "(GetEmptyOrTomeStoneMask SIZE (load_group c p) :: u32) \<noteq> 0"
  then obtain j where "j < SIZE" "is_free (tag_at c (unat p + j))"
    by (auto simp: word_nonzero_bit bit_free_group[OF ok p])
  with group_lane[OF ok p, of j] show "\<exists>i \<in> group c (unat p). is_free (tag_at c i)" by (auto simp: is_free_def)
next
  assume "\<exists>i \<in> group c (unat p). is_free (tag_at c i)"
  then show "(GetEmptyOrTomeStoneMask SIZE (load_group c p) :: u32) \<noteq> 0"
    by (auto simp: word_nonzero_bit bit_free_group[OF ok p] in_group_iff)
qed

lemma find_stop_other:
  assumes ok: "table_ok cfg c" and p: "unat p < cap c"
    and "find_stop cfg c k t p = r" "r = None \<or> r = Some None"
  shows "r = None \<longleftrightarrow> (\<forall>i \<in> group c (unat p). tag_at c i \<noteq> EMPTY)"
    "i \<in> group c (unat p) \<Longrightarrow> matches cfg c k t i \<Longrightarrow> overlooked cfg c t (unat p) i"
proof -
  have m: "match_loop (cfg_fix cfg) (\<lambda>slot. k = key_at cfg c slot) p
      (GetCmpMask SIZE (set1_epi8 SIZE t) (load_group c p)) = None"
    using assms(3,4) by (auto simp: find_stop_def Let_def split: option.splits)
  then have "r = (if (GetEmptyMask SIZE (load_group c p) :: u32) \<noteq> 0 then Some None else None)"
    using assms(3) by (simp add: find_stop_def Let_def)
  then show "r = None \<longleftrightarrow> (\<forall>i \<in> group c (unat p). tag_at c i \<noteq> EMPTY)"
    using no_empty_mask[OF ok p] by auto
  show "i \<in> group c (unat p) \<Longrightarrow> matches cfg c k t i \<Longrightarrow> overlooked cfg c t (unat p) i"
    using m by (rule match_miss[OF ok p])
qed

text \<open>The first slot of a mask is a slot of the group.\<close>

lemma first_lane:
  fixes m :: u32 and p :: u64
  assumes ok: "table_ok cfg c" and p: "unat p < cap c"
    and "m \<noteq> 0" "\<And>j. bit m j \<longleftrightarrow> j < SIZE \<and> P (tag_at c (unat p + j))" "\<not> P FORBIDDEN"
    and s_def: "s = p + ucast (TrailingZeroCount bFix m)"
  shows "unat s \<in> group c (unat p)" "P (tag_at c (unat s))"
proof -
  let ?j = "unat (TrailingZeroCount bFix m)"
  have j: "?j < SIZE" "P (tag_at c (unat p + ?j))"
    using TrailingZeroCount_set_bit[OF assms(3)] assms(4) by auto
  have s: "unat s = unat p + ?j" unfolding s_def using lane_slot[OF ok p j(1)] by (simp only: of_nat_unat)
  show "P (tag_at c (unat s))" unfolding s by (rule j(2))
  show "unat s \<in> group c (unat p)" unfolding s using j assms(5) by (intro group_lane[OF ok p]) auto
qed

lemma add_stop_Inl:
  assumes ok: "table_ok cfg c" and p: "unat p < cap c"
    and r: "add_stop cfg bUnique c k t p = Some (Inl s)" and t: "t \<noteq> FORBIDDEN"
  shows "\<not> bUnique" "unat s \<in> group c (unat p)" "matches cfg c k t (unat s)"
proof -
  have "\<not> bUnique \<and> match_loop (cfg_fix cfg) (\<lambda>slot. k = key_at cfg c slot) p
      (GetCmpMask SIZE (set1_epi8 SIZE t) (load_group c p)) = Some s"
    using r by (simp add: add_stop_def Let_def split: option.splits if_splits)
  with match_hit[OF ok p _ t] show "\<not> bUnique" "unat s \<in> group c (unat p)" "matches cfg c k t (unat s)"
    by blast+
qed

lemma add_stop_Inr:
  assumes ok: "table_ok cfg c" and p: "unat p < cap c"
    and r: "add_stop cfg bUnique c k t p = Some (Inr s)"
  shows "unat s \<in> group c (unat p)" "is_free (tag_at c (unat s))"
proof -
  let ?m = "GetEmptyOrTomeStoneMask SIZE (load_group c p) :: u32"
  have m: "?m \<noteq> 0 \<and> s = p + ucast (TrailingZeroCount (cfg_fix cfg) ?m)"
    using r by (simp add: add_stop_def Let_def split: option.splits if_splits)
  have b: "bit ?m j \<longleftrightarrow> j < SIZE \<and> is_free (tag_at c (unat p + j))" for j
    by (rule bit_free_group[OF ok p])
  show "unat s \<in> group c (unat p)" "is_free (tag_at c (unat s))"
    using first_lane[OF ok p conjunct1[OF m] b _ conjunct2[OF m]] by simp_all
qed

lemma add_stop_free:
  assumes ok: "table_ok cfg c" and p: "unat p < cap c"
    and r: "add_stop cfg bUnique c k t p = None" and i: "i \<in> group c (unat p)"
  shows "\<not> is_free (tag_at c i)"
proof -
  have "(GetEmptyOrTomeStoneMask SIZE (load_group c p) :: u32) = 0"
    using r by (simp add: add_stop_def Let_def split: option.splits if_splits)
  with no_free_mask[OF ok p] i show ?thesis by blast
qed

lemma add_stop_miss:
  assumes ok: "table_ok cfg c" and p: "unat p < cap c" and u: "\<not> bUnique"
    and r: "add_stop cfg bUnique c k t p = None \<or> add_stop cfg bUnique c k t p = Some (Inr s)"
    and i: "i \<in> group c (unat p)" "matches cfg c k t i"
  shows "overlooked cfg c t (unat p) i"
proof -
  have "match_loop (cfg_fix cfg) (\<lambda>slot. k = key_at cfg c slot) p
      (GetCmpMask SIZE (set1_epi8 SIZE t) (load_group c p)) = None"
    using r u by (simp add: add_stop_def Let_def split: option.splits)
  then show ?thesis using i by (rule match_miss[OF ok p])
qed

end
