(* ===== verification/Search.thy ===== *)
theory Search
  imports Slots
begin

text \<open>
  The three probe loops of the table as searches over slots: \<open>FindSlot\<close> (the loop of \<open>FindEntry\<close>),
  \<open>AddSlot\<close> (the two loops of \<open>Add\<close>) and \<open>FindEmpty\<close>. For each: what a result means, what a
  miss excludes, and when the loop ends. They hold of any table whose tags are in order, whatever its
  entries are.
\<close>

definition group_at :: "('k, 'v) config \<Rightarrow> ('k, 'v) core \<Rightarrow> u64 \<Rightarrow> nat \<Rightarrow> nat set" where
  "group_at cfg c h n = group c (hash_path cfg c h n)"

text \<open>The slot lies in the first group of the path that has a slot with the property.\<close>

definition first_with :: "('k, 'v) config \<Rightarrow> ('k, 'v) core \<Rightarrow> u64 \<Rightarrow> (u8 \<Rightarrow> bool) \<Rightarrow> nat \<Rightarrow> bool" where
  "first_with cfg c h P i \<longleftrightarrow> i < cap c \<and> P (tag_at c i)
     \<and> (\<exists>n. i \<in> group_at cfg c h n \<and> (\<forall>m<n. \<forall>j \<in> group_at cfg c h m. \<not> P (tag_at c j)))"

lemma reachable_slot_group_at:
  "reachable_slot cfg c h i \<longleftrightarrow>
     (\<exists>n. i \<in> group_at cfg c h n \<and> (\<forall>m<n. \<forall>j \<in> group_at cfg c h m. tag_at c j \<noteq> EMPTY))"
  by (simp add: reachable_slot_def group_at_def)

lemma first_with_reachable:
  "first_with cfg c h P i \<Longrightarrow> P EMPTY \<Longrightarrow> reachable_slot cfg c h i"
  unfolding first_with_def reachable_slot_group_at by metis

lemma table_ok_sizes: "table_ok cfg c \<Longrightarrow> sizes_ok (cfg_mode cfg) c"
  by (simp add: table_ok_def)

lemma path_word:
  assumes "table_ok cfg c"
  shows "unat (of_nat (hash_path cfg c h n) :: u64) = hash_path cfg c h n" "hash_path cfg c h n < cap c"
proof -
  show lt: "hash_path cfg c h n < cap c"
    using pr.path_less[OF table_ok_sizes[OF assms]] by (simp add: hash_path_def cap_def)
  then have "hash_path cfg c h n < 2 ^ 64" using table_ok_cap[OF assms] by simp
  then show "unat (of_nat (hash_path cfg c h n) :: u64) = hash_path cfg c h n" by (simp add: unat_of_nat)
qed

lemma group_at_less: "i \<in> group_at cfg c h n \<Longrightarrow> i < cap c"
  by (simp add: group_at_def group_def)

text \<open>Slots of a kind cannot all stay out of reach, if there are more than 15 of them.\<close>

lemma groups_hit:
  assumes "table_ok cfg c" "coprime 15 (cap c)" "15 < card {i. i < cap c \<and> P (tag_at c i)}"
  shows "\<exists>n < cap c. \<exists>i \<in> group_at cfg c h n. P (tag_at c i)"
proof -
  obtain n i where "n < cap c" "hash_path cfg c h n \<le> i" "i < hash_path cfg c h n + 16" "i < cap c"
      "P (tag_at c i)"
    using pr.path_hits[OF table_ok_sizes[OF assms(1)], of "\<lambda>i. P (tag_at c i)" h] assms(2,3)
    by (auto simp: hash_path_def cap_def)
  then show ?thesis by (auto simp: group_at_def group_def SIZE_def)
qed

section \<open>Looking for a key\<close>

abbreviation key_stop :: "('k, 'v) config \<Rightarrow> ('k, 'v) core \<Rightarrow> 'k \<Rightarrow> u64 \<Rightarrow> u64 option option" where
  "key_stop cfg c k \<equiv> find_stop cfg c k (HashToTag (cfg_hash cfg k))"

lemma HashToTag_not_special [simp]: "HashToTag h \<noteq> FORBIDDEN" "HashToTag h \<noteq> EMPTY" "HashToTag h \<noteq> TOMBSTONE"
  using HashToTag_full[of h] by (metis special_not_full)+

definition key_slot :: "('k, 'v) config \<Rightarrow> ('k, 'v) core \<Rightarrow> 'k \<Rightarrow> nat \<Rightarrow> bool" where
  "key_slot cfg c k i \<longleftrightarrow> i < cap c \<and> matches cfg c k (HashToTag (cfg_hash cfg k)) i"

lemma key_slot_live: "key_slot cfg c k i \<Longrightarrow> i \<in> live c"
  by (auto simp: key_slot_def matches_def live_def)

lemma FindSlot_probe:
  "FindSlot cfg c k = probe (key_stop cfg c k) (AdjustTupleIndex (cfg_mode cfg) c)
     (AdjustTupleIndex (cfg_mode cfg) c (cfg_hash cfg k)) 0"
  by (simp add: FindSlot_def home_def Let_def)

text \<open>What the loop saw when it stopped.\<close>

lemma FindSlot_stop:
  assumes "FindSlot cfg c k = Some r"
  obtains n where "key_stop cfg c k (of_nat (hash_path cfg c (cfg_hash cfg k) n)) = Some r"
    "\<And>m. m < n \<Longrightarrow> key_stop cfg c k (of_nat (hash_path cfg c (cfg_hash cfg k) m)) = None"
  using assms unfolding FindSlot_probe hash_path_def by (rule pr.probe_Some) blast

lemma key_stop_Some:
  assumes "table_ok cfg c" "key_stop cfg c k (of_nat (hash_path cfg c h n)) = Some (Some s)"
  shows "unat s \<in> group_at cfg c h n" "key_slot cfg c k (unat s)"
proof -
  have "unat (of_nat (hash_path cfg c h n) :: u64) < cap c" using path_word[OF assms(1)] by simp
  from find_stop_Some[OF assms(1) this assms(2)]
  have s: "unat s \<in> group_at cfg c h n" "matches cfg c k (HashToTag (cfg_hash cfg k)) (unat s)"
    using path_word[OF assms(1)] by (auto simp: group_at_def)
  then show "unat s \<in> group_at cfg c h n" "key_slot cfg c k (unat s)"
    by (auto simp: key_slot_def dest: group_at_less)
qed

lemma key_stop_other:
  assumes "table_ok cfg c" "key_stop cfg c k (of_nat (hash_path cfg c h n)) = r" "r = None \<or> r = Some None"
  shows "r = None \<longleftrightarrow> (\<forall>i \<in> group_at cfg c h n. tag_at c i \<noteq> EMPTY)"
    "\<not> cfg_fix cfg \<Longrightarrow> i \<in> group_at cfg c h n \<Longrightarrow> \<not> key_slot cfg c k i"
proof -
  have p: "unat (of_nat (hash_path cfg c h n) :: u64) < cap c" using path_word[OF assms(1)] by simp
  show "r = None \<longleftrightarrow> (\<forall>i \<in> group_at cfg c h n. tag_at c i \<noteq> EMPTY)"
    using find_stop_other(1)[OF assms(1) p assms(2,3)] path_word[OF assms(1)] by (simp add: group_at_def)
  show "\<not> cfg_fix cfg \<Longrightarrow> i \<in> group_at cfg c h n \<Longrightarrow> \<not> key_slot cfg c k i"
    using find_stop_other(2)[OF assms(1) p assms(2,3)] path_word[OF assms(1)]
    by (auto simp: group_at_def key_slot_def overlooked_def)
qed

lemma FindSlot_found:
  assumes "table_ok cfg c" "FindSlot cfg c k = Some (Some s)"
  shows "key_slot cfg c k (unat s)"
  using FindSlot_stop[OF assms(2)] key_stop_Some[OF assms(1)] by metis

lemma FindSlot_absent:
  assumes "table_ok cfg c" "\<not> cfg_fix cfg" "FindSlot cfg c k = Some None"
    "reachable_slot cfg c (cfg_hash cfg k) i"
  shows "\<not> key_slot cfg c k i"
proof -
  let ?h = "cfg_hash cfg k"
  obtain n where n: "key_stop cfg c k (of_nat (hash_path cfg c ?h n)) = Some None"
    "\<And>m. m < n \<Longrightarrow> key_stop cfg c k (of_nat (hash_path cfg c ?h m)) = None"
    using FindSlot_stop[OF assms(3)] by blast
  obtain j where j: "j \<in> group_at cfg c ?h n" "tag_at c j = EMPTY"
    using key_stop_other(1)[OF assms(1) n(1)] by auto
  obtain q where q: "i \<in> group_at cfg c ?h q"
    "\<forall>m<q. \<forall>j \<in> group_at cfg c ?h m. tag_at c j \<noteq> EMPTY"
    using assms(4) by (auto simp: reachable_slot_group_at)
  then have "q \<le> n" using j by (meson not_le)
  then consider "q = n" | "q < n" by linarith
  then show ?thesis
  proof cases
    case 1
    with key_stop_other(2)[OF assms(1) n(1) _ assms(2)] q(1) show ?thesis by blast
  next
    case 2
    with key_stop_other(2)[OF assms(1) n(2)[OF 2] _ assms(2)] q(1) show ?thesis by blast
  qed
qed

lemma FindSlot_ends:
  assumes "table_ok cfg c" "coprime 15 (cap c)" "15 < card {i. i < cap c \<and> tag_at c i = EMPTY}"
  shows "FindSlot cfg c k \<noteq> None"
proof
  assume "FindSlot cfg c k = None"
  then have n: "key_stop cfg c k (of_nat (hash_path cfg c (cfg_hash cfg k) n)) = None" for n
    unfolding FindSlot_probe hash_path_def pr.probe_None by blast
  obtain n i where "i \<in> group_at cfg c (cfg_hash cfg k) n" "tag_at c i = EMPTY"
    using groups_hit[OF assms(1,2), of "\<lambda>t. t = EMPTY" "cfg_hash cfg k"] assms(3) by auto
  with key_stop_other(1)[OF assms(1) n[of n]] show False by auto
qed

text \<open>Without an empty slot there is no end, unless the key is there.\<close>

lemma FindSlot_endless:
  assumes "table_ok cfg c" "\<forall>i < cap c. tag_at c i \<noteq> EMPTY" "\<forall>i. \<not> key_slot cfg c k i"
  shows "FindSlot cfg c k = None"
proof (rule ccontr)
  assume "FindSlot cfg c k \<noteq> None"
  then obtain r where "FindSlot cfg c k = Some r" by auto
  then obtain n where n: "key_stop cfg c k (of_nat (hash_path cfg c (cfg_hash cfg k) n)) = Some r"
    using FindSlot_stop by metis
  show False
  proof (cases r)
    case None
    with key_stop_other(1)[OF assms(1) n] assms(2) group_at_less show False by blast
  next
    case (Some s)
    with key_stop_Some(2)[OF assms(1)] n assms(3) show False by blast
  qed
qed

section \<open>Looking for an empty slot\<close>

lemma FindEmpty_probe:
  "FindEmpty cfg c h = probe (empty_stop c (cfg_fix cfg)) (AdjustTupleIndex (cfg_mode cfg) c)
     (AdjustTupleIndex (cfg_mode cfg) c h) 0"
  by (simp add: FindEmpty_def home_def)

lemma empty_stop_group:
  assumes "table_ok cfg c"
  shows "empty_stop c b (of_nat (hash_path cfg c h n)) = None
      \<longleftrightarrow> (\<forall>i \<in> group_at cfg c h n. tag_at c i \<noteq> EMPTY)"
    "empty_stop c b (of_nat (hash_path cfg c h n)) = Some i \<Longrightarrow>
      unat i \<in> group_at cfg c h n \<and> tag_at c (unat i) = EMPTY"
proof -
  let ?p = "of_nat (hash_path cfg c h n) :: u64"
  let ?m = "GetEmptyMask SIZE (load_group c ?p) :: u32"
  have p: "unat ?p < cap c" using path_word[OF assms(1)] by simp
  show "empty_stop c b ?p = None \<longleftrightarrow> (\<forall>i \<in> group_at cfg c h n. tag_at c i \<noteq> EMPTY)"
    using no_empty_mask[OF assms p] path_word[OF assms(1)]
    by (auto simp: empty_stop_def Let_def group_at_def)
  assume s: "empty_stop c b ?p = Some i"
  then have nz: "?m \<noteq> 0" and i: "i = ucast (?p + ucast (TrailingZeroCount b ?m))"
    by (auto simp: empty_stop_def Let_def split: if_splits)
  define s where "s = ?p + ucast (TrailingZeroCount b ?m)"
  have f: "unat s \<in> group c (unat ?p)" "tag_at c (unat s) = EMPTY"
    using first_lane[OF assms p nz _ _ s_def, of "\<lambda>t. t = EMPTY"] bit_empty_group by auto
  then have "unat s < cap c" by (auto simp: group_def)
  then have "unat s < 2 ^ 32" using table_ok_cap[OF assms] by simp
  then have "unat i = unat s" unfolding i s_def[symmetric]
    by (simp add: unsigned_ucast_eq take_bit_nat_eq_self)
  with f show "unat i \<in> group_at cfg c h n \<and> tag_at c (unat i) = EMPTY"
    using path_word[OF assms(1)] by (simp add: group_at_def)
qed

lemma FindEmpty_Some:
  assumes "table_ok cfg c" "FindEmpty cfg c h = Some i"
  shows "first_with cfg c h (\<lambda>t. t = EMPTY) (unat i)"
proof -
  obtain n where n: "empty_stop c (cfg_fix cfg) (of_nat (hash_path cfg c h n)) = Some i"
    "\<forall>m<n. empty_stop c (cfg_fix cfg) (of_nat (hash_path cfg c h m)) = None"
    using assms(2) unfolding FindEmpty_probe hash_path_def by (rule pr.probe_Some)
  then show ?thesis
    unfolding first_with_def using empty_stop_group[OF assms(1)] group_at_less by metis
qed

lemma FindEmpty_ends:
  assumes "table_ok cfg c" "coprime 15 (cap c)" "15 < card {i. i < cap c \<and> tag_at c i = EMPTY}"
  shows "\<exists>i. FindEmpty cfg c h = Some i"
proof (rule ccontr)
  assume "\<not> ?thesis"
  then have "FindEmpty cfg c h = None" by auto
  then have n: "empty_stop c (cfg_fix cfg) (of_nat (hash_path cfg c h n)) = None" for n
    unfolding FindEmpty_probe hash_path_def pr.probe_None by blast
  obtain n i where "i \<in> group_at cfg c h n" "tag_at c i = EMPTY"
    using groups_hit[OF assms(1,2), of "\<lambda>t. t = EMPTY" h] assms(3) by auto
  with empty_stop_group(1)[OF assms(1)] n[of n] show False by blast
qed

section \<open>Looking for a place to add\<close>

abbreviation slot_stop :: "('k, 'v) config \<Rightarrow> bool \<Rightarrow> ('k, 'v) core \<Rightarrow> 'k \<Rightarrow> u64 \<Rightarrow> (u64 + u64) option" where
  "slot_stop cfg bUnique c k \<equiv> add_stop cfg bUnique c k (HashToTag (cfg_hash cfg k))"

lemma AddSlot_probe:
  "AddSlot cfg bUnique c k = probe (slot_stop cfg bUnique c k) (AdjustTupleIndex (cfg_mode cfg) c)
     (AdjustTupleIndex (cfg_mode cfg) c (cfg_hash cfg k)) 0"
  by (simp add: AddSlot_def home_def Let_def)

lemma slot_stop_group:
  assumes ok: "table_ok cfg c" and r: "slot_stop cfg bUnique c k (of_nat (hash_path cfg c h n)) = r"
  shows "r = Some (Inl s) \<Longrightarrow> \<not> bUnique \<and> unat s \<in> group_at cfg c h n \<and> key_slot cfg c k (unat s)"
    "r = Some (Inr s) \<Longrightarrow> unat s \<in> group_at cfg c h n \<and> is_free (tag_at c (unat s))"
    "r = None \<Longrightarrow> i \<in> group_at cfg c h n \<Longrightarrow> \<not> is_free (tag_at c i)"
    "r = None \<or> r = Some (Inr s) \<Longrightarrow> \<not> cfg_fix cfg \<Longrightarrow> \<not> bUnique \<Longrightarrow> i \<in> group_at cfg c h n \<Longrightarrow>
      \<not> key_slot cfg c k i"
proof -
  let ?p = "of_nat (hash_path cfg c h n) :: u64"
  have p: "unat ?p < cap c" and g: "group c (unat ?p) = group_at cfg c h n"
    using path_word[OF ok] by (auto simp: group_at_def)
  show "r = Some (Inl s) \<Longrightarrow> \<not> bUnique \<and> unat s \<in> group_at cfg c h n \<and> key_slot cfg c k (unat s)"
    using add_stop_Inl[OF ok p _ HashToTag_not_special(1)] group_at_less[of "unat s"]
    unfolding r[symmetric] g key_slot_def by blast
  show "r = Some (Inr s) \<Longrightarrow> unat s \<in> group_at cfg c h n \<and> is_free (tag_at c (unat s))"
    using add_stop_Inr[OF ok p] unfolding r[symmetric] g by blast
  show "r = None \<Longrightarrow> i \<in> group_at cfg c h n \<Longrightarrow> \<not> is_free (tag_at c i)"
    using add_stop_free[OF ok p] unfolding r[symmetric] g by blast
  show "r = None \<or> r = Some (Inr s) \<Longrightarrow> \<not> cfg_fix cfg \<Longrightarrow> \<not> bUnique \<Longrightarrow> i \<in> group_at cfg c h n \<Longrightarrow>
      \<not> key_slot cfg c k i"
    using add_stop_miss[OF ok p] unfolding r[symmetric] g key_slot_def overlooked_def by blast
qed

lemma AddSlot_stop:
  assumes "AddSlot cfg bUnique c k = Some r"
  obtains n where "slot_stop cfg bUnique c k (of_nat (hash_path cfg c (cfg_hash cfg k) n)) = Some r"
    "\<And>m. m < n \<Longrightarrow> slot_stop cfg bUnique c k (of_nat (hash_path cfg c (cfg_hash cfg k) m)) = None"
  using assms unfolding AddSlot_probe hash_path_def by (rule pr.probe_Some) blast

lemma AddSlot_Inl:
  assumes "table_ok cfg c" "AddSlot cfg bUnique c k = Some (Inl s)"
  shows "\<not> bUnique" "key_slot cfg c k (unat s)"
  using AddSlot_stop[OF assms(2)] slot_stop_group(1)[OF assms(1)] by metis+

lemma AddSlot_Inr:
  assumes "table_ok cfg c" "AddSlot cfg bUnique c k = Some (Inr s)"
  shows "first_with cfg c (cfg_hash cfg k) is_free (unat s)"
proof -
  obtain n where n: "slot_stop cfg bUnique c k (of_nat (hash_path cfg c (cfg_hash cfg k) n)) = Some (Inr s)"
    "\<And>m. m < n \<Longrightarrow> slot_stop cfg bUnique c k (of_nat (hash_path cfg c (cfg_hash cfg k) m)) = None"
    using AddSlot_stop[OF assms(2)] by blast
  have "unat s \<in> group_at cfg c (cfg_hash cfg k) n" "is_free (tag_at c (unat s))"
    using slot_stop_group(2)[OF assms(1) n(1)] by auto
  moreover have "m < n \<Longrightarrow> j \<in> group_at cfg c (cfg_hash cfg k) m \<Longrightarrow> \<not> is_free (tag_at c j)" for m j
    using slot_stop_group(3)[OF assms(1) n(2)] by blast
  ultimately show ?thesis unfolding first_with_def using group_at_less by blast
qed

text \<open>Which slots a miss of \<open>Add\<close> excludes: those no later on the path than the first group with a free
  slot, be it empty or a tombstone.\<close>

definition before_free :: "('k, 'v) config \<Rightarrow> ('k, 'v) core \<Rightarrow> u64 \<Rightarrow> nat \<Rightarrow> bool" where
  "before_free cfg c h i \<longleftrightarrow>
     (\<exists>n. i \<in> group_at cfg c h n \<and> (\<forall>m<n. \<forall>j \<in> group_at cfg c h m. \<not> is_free (tag_at c j)))"

lemma AddSlot_absent:
  assumes "table_ok cfg c" "\<not> cfg_fix cfg" "\<not> bUnique" "AddSlot cfg bUnique c k = Some (Inr s)"
    "before_free cfg c (cfg_hash cfg k) i"
  shows "\<not> key_slot cfg c k i"
proof -
  let ?h = "cfg_hash cfg k"
  obtain n where n: "slot_stop cfg bUnique c k (of_nat (hash_path cfg c ?h n)) = Some (Inr s)"
    "\<And>m. m < n \<Longrightarrow> slot_stop cfg bUnique c k (of_nat (hash_path cfg c ?h m)) = None"
    using AddSlot_stop[OF assms(4)] by blast
  have f: "unat s \<in> group_at cfg c ?h n" "is_free (tag_at c (unat s))"
    using slot_stop_group(2)[OF assms(1) n(1)] by auto
  obtain q where q: "i \<in> group_at cfg c ?h q"
    "\<forall>m<q. \<forall>j \<in> group_at cfg c ?h m. \<not> is_free (tag_at c j)"
    using assms(5) by (auto simp: before_free_def)
  then have "q \<le> n" using f by (meson not_le)
  then consider "q = n" | "q < n" by linarith
  then show ?thesis
  proof cases
    case 1
    with slot_stop_group(4)[OF assms(1) n(1) _ assms(2,3)] q(1) show ?thesis by blast
  next
    case 2
    with slot_stop_group(4)[OF assms(1) n(2)[OF 2] _ assms(2,3)] q(1) show ?thesis by blast
  qed
qed

text \<open>A free slot found earlier hides the key: \<open>Add\<close> does not look behind it.\<close>

lemma AddSlot_hidden:
  assumes "table_ok cfg c" "\<forall>i. key_slot cfg c k i \<longrightarrow> \<not> before_free cfg c (cfg_hash cfg k) i"
    "AddSlot cfg bUnique c k = Some r"
  shows "\<exists>s. r = Inr s"
proof (cases r)
  case (Inl s)
  let ?h = "cfg_hash cfg k"
  obtain n where n: "slot_stop cfg bUnique c k (of_nat (hash_path cfg c ?h n)) = Some (Inl s)"
    "\<And>m. m < n \<Longrightarrow> slot_stop cfg bUnique c k (of_nat (hash_path cfg c ?h m)) = None"
    using AddSlot_stop[OF assms(3)] Inl by blast
  have "unat s \<in> group_at cfg c ?h n" "key_slot cfg c k (unat s)"
    using slot_stop_group(1)[OF assms(1) n(1)] by auto
  moreover have "m < n \<Longrightarrow> j \<in> group_at cfg c ?h m \<Longrightarrow> \<not> is_free (tag_at c j)" for m j
    using slot_stop_group(3)[OF assms(1) n(2)] by blast
  ultimately show ?thesis using assms(2) unfolding before_free_def by blast
qed auto

lemma AddSlot_ends:
  assumes "table_ok cfg c" "coprime 15 (cap c)" "15 < card {i. i < cap c \<and> is_free (tag_at c i)}"
  shows "\<exists>r. AddSlot cfg bUnique c k = Some r"
proof (rule ccontr)
  assume "\<not> ?thesis"
  then have "AddSlot cfg bUnique c k = None" by auto
  then have n: "slot_stop cfg bUnique c k (of_nat (hash_path cfg c (cfg_hash cfg k) n)) = None" for n
    unfolding AddSlot_probe hash_path_def pr.probe_None by blast
  obtain n i where "i \<in> group_at cfg c (cfg_hash cfg k) n" "is_free (tag_at c i)"
    using groups_hit[OF assms(1,2), of is_free "cfg_hash cfg k"] assms(3) by auto
  with slot_stop_group(3)[OF assms(1) n[of n]] show False by blast
qed

end
