(* ===== verification/Contents.thy ===== *)
theory Contents
  imports Search "HOL-Library.Multiset"
begin

text \<open>
  What a table holds. \<open>slots_ok\<close> is the invariant of the tags: the count, the tag each entry has, and
  that a search for its key gets to it. \<open>store_ok\<close> is the invariant of the entry arrays, for an index
  the one-to-one correspondence of slots in use and positions. \<open>contents\<close>, a multiset of entries, is
  the abstract value of the table; the operations are specified on it.
\<close>

definition slot_entry :: "('k, 'v) config \<Rightarrow> ('k, 'v) core \<Rightarrow> nat \<Rightarrow> ('k, 'v) entry" where
  "slot_entry cfg c i = EntryArray_get (entries c) (real_index cfg c (of_nat i))"

lemma slot_key_entry: "slot_key cfg c i = ekey (slot_entry cfg c i)"
  by (simp add: slot_key_def key_at_def slot_entry_def)

definition placed_right :: "('k, 'v) config \<Rightarrow> ('k, 'v) core \<Rightarrow> nat \<Rightarrow> bool" where
  "placed_right cfg c i \<longleftrightarrow> (let h = cfg_hash cfg (slot_key cfg c i) in
     tag_at c i = HashToTag h \<and> reachable_slot cfg c h i)"

definition slots_ok :: "('k, 'v) config \<Rightarrow> ('k, 'v) core \<Rightarrow> bool" where
  "slots_ok cfg c \<longleftrightarrow> table_ok cfg c \<and> unat (Count c) = card (live c)
     \<and> (\<forall>i \<in> live c. placed_right cfg c i)"

definition contents :: "('k, 'v) config \<Rightarrow> ('k, 'v) core \<Rightarrow> ('k, 'v) entry multiset" where
  "contents cfg c = image_mset (slot_entry cfg c) (mset_set (live c))"

definition keys_of :: "('k, 'v) config \<Rightarrow> ('k, 'v) core \<Rightarrow> 'k multiset" where
  "keys_of cfg c = image_mset ekey (contents cfg c)"

definition index_at :: "('k, 'v) core \<Rightarrow> nat \<Rightarrow> nat" where
  "index_at c i = unat (EntryArray_get (realIndex c) (of_nat i))"

definition store_ok :: "('k, 'v) config \<Rightarrow> ('k, 'v) core \<Rightarrow> bool" where
  "store_ok cfg c \<longleftrightarrow> entries_ok (entries c)
     \<and> (if cfg_type cfg = Type_Index
        then entries_ok (realIndex c) \<and> ea_len (realIndex c) = cap c
          \<and> unat (Count c) \<le> ea_len (entries c) \<and> ea_len (entries c) \<le> 2 ^ 31
          \<and> bij_betw (index_at c) (live c) {..<unat (Count c)}
        else ea_len (entries c) = cap c)"

definition core_ok :: "('k, 'v) config \<Rightarrow> ('k, 'v) core \<Rightarrow> bool" where
  "core_ok cfg c \<longleftrightarrow> slots_ok cfg c \<and> store_ok cfg c"

lemma core_okD: "core_ok cfg c \<Longrightarrow> slots_ok cfg c" "core_ok cfg c \<Longrightarrow> store_ok cfg c"
  by (simp_all add: core_ok_def)

lemma slots_okD:
  assumes "slots_ok cfg c"
  shows "table_ok cfg c" "unat (Count c) = card (live c)"
    "i \<in> live c \<Longrightarrow> tag_at c i = HashToTag (cfg_hash cfg (slot_key cfg c i))"
    "i \<in> live c \<Longrightarrow> reachable_slot cfg c (cfg_hash cfg (slot_key cfg c i)) i"
  using assms by (auto simp: slots_ok_def placed_right_def Let_def)

section \<open>Contents\<close>

lemma size_contents [simp]: "size (contents cfg c) = card (live c)" "size (keys_of cfg c) = card (live c)"
  by (simp_all add: contents_def keys_of_def)

lemma in_keys_iff: "k \<in># keys_of cfg c \<longleftrightarrow> (\<exists>i \<in> live c. slot_key cfg c i = k)"
  by (auto simp: keys_of_def contents_def slot_key_entry)

lemma key_slot_iff:
  assumes "slots_ok cfg c"
  shows "key_slot cfg c k i \<longleftrightarrow> i \<in> live c \<and> slot_key cfg c i = k"
  using slots_okD(3)[OF assms, of i] key_slot_live[of cfg c k i]
  by (auto simp: key_slot_def matches_def live_def)

lemma in_keys_key_slot: "slots_ok cfg c \<Longrightarrow> k \<in># keys_of cfg c \<longleftrightarrow> (\<exists>i. key_slot cfg c k i)"
  by (auto simp: in_keys_iff key_slot_iff)

lemma slot_in_contents: "i \<in> live c \<Longrightarrow> slot_entry cfg c i \<in># contents cfg c"
  by (simp add: contents_def)

text \<open>Slots that are not in use are free; a tag table has no third kind.\<close>

lemma free_slots:
  assumes "table_ok cfg c"
  shows "{i. i < cap c \<and> is_free (tag_at c i)} = {..<cap c} - live c"
  using table_ok_tag(3)[OF assms] full_not_free
  by (auto simp: live_def valid_tag_def)

lemma card_live_le: "card (live c) \<le> cap c"
  using card_mono[of "{..<cap c}" "live c"] by (auto simp: live_def)

lemma card_free:
  assumes "table_ok cfg c"
  shows "card {i. i < cap c \<and> is_free (tag_at c i)} = cap c - card (live c)"
  unfolding free_slots[OF assms] by (subst card_Diff_subset) (auto simp: live_def)

definition tombstones :: "('k, 'v) core \<Rightarrow> nat set" where
  "tombstones c = {i. i < cap c \<and> tag_at c i = TOMBSTONE}"

lemma card_empty:
  assumes "table_ok cfg c"
  shows "card {i. i < cap c \<and> tag_at c i = EMPTY} = cap c - card (live c) - card (tombstones c)"
proof -
  have "{i. i < cap c \<and> tag_at c i = EMPTY} = {i. i < cap c \<and> is_free (tag_at c i)} - tombstones c"
    by (auto simp: is_free_def tombstones_def)
  moreover have "tombstones c \<subseteq> {i. i < cap c \<and> is_free (tag_at c i)}"
    by (auto simp: tombstones_def)
  ultimately show ?thesis
    using card_free[OF assms] by (simp add: card_Diff_subset finite_subset)
qed

section \<open>The same sizes\<close>

definition same_sizes :: "('k, 'v) core \<Rightarrow> ('k, 'v) core \<Rightarrow> bool" where
  "same_sizes c c' \<longleftrightarrow> Capacity c' = Capacity c \<and> CapacityMask c' = CapacityMask c
     \<and> CapacityMultiplier c' = CapacityMultiplier c \<and> CountGrowthLimit c' = CountGrowthLimit c
     \<and> load_limit c' = load_limit c"

lemma same_sizes_intros [simp]:
  "same_sizes c c" "same_sizes c (c\<lparr>tags := t\<rparr>)" "same_sizes c (c\<lparr>entries := es\<rparr>)"
  "same_sizes c (c\<lparr>realIndex := ri\<rparr>)" "same_sizes c (c\<lparr>Count := n\<rparr>)"
  by (simp_all add: same_sizes_def)

lemma same_sizes_trans [trans]: "same_sizes a b \<Longrightarrow> same_sizes b c \<Longrightarrow> same_sizes a c"
  by (simp add: same_sizes_def)

lemma same_sizes_facts:
  assumes "same_sizes c c'"
  shows "cap c' = cap c" "hash_path cfg c' = hash_path cfg c"
    "sizes_ok mode c' = sizes_ok mode c" "group c' p = group c p" "group_at cfg c' h n = group_at cfg c h n"
proof -
  show cap: "cap c' = cap c" using assms by (simp add: cap_def same_sizes_def)
  have "AdjustTupleIndex mode c' = AdjustTupleIndex mode c" for mode
    using assms by (intro ext) (simp add: AdjustTupleIndex_def same_sizes_def)
  then show path: "hash_path cfg c' = hash_path cfg c"
    by (intro ext) (simp add: hash_path_def pr.path_def)
  show "sizes_ok mode c' = sizes_ok mode c"
    using assms by (simp add: sizes_ok_def limit_ok_def same_sizes_def)
  show "group c' p = group c p" by (simp add: group_def cap)
  show "group_at cfg c' h n = group_at cfg c h n" by (simp add: group_at_def group_def cap path)
qed

text \<open>Slots stay within reach when no slot becomes empty.\<close>

lemma reachable_mono:
  assumes "same_sizes c c'" "\<And>j. j < cap c \<Longrightarrow> tag_at c' j = EMPTY \<Longrightarrow> tag_at c j = EMPTY"
    "reachable_slot cfg c h i"
  shows "reachable_slot cfg c' h i"
  using assms(3) unfolding reachable_slot_group_at same_sizes_facts[OF assms(1)]
  by (meson assms(2) group_at_less)

lemma tag_at_set:
  assumes "tags_ok (tags c)" "tags c' = TagArray_set (tags c) s t" "unat s < cap c"
    "ta_size (tags c) = Capacity c"
  shows "tag_at c' i = (if i = unat s then t else tag_at c i)"
  using assms TagArray_set_fields[OF assms(1), of s t]
  by (auto simp: tag_at_def tags_ok_def cap_def nth_list_update)

lemma table_ok_set:
  assumes "table_ok cfg c" "same_sizes c c'" "tags c' = TagArray_set (tags c) s t" "unat s < cap c"
    "valid_tag t"
  shows "table_ok cfg c'"
  using assms tags_ok_set[of "tags c" s t] TagArray_set_fields[of "tags c" s t]
    same_sizes_facts(3)[OF assms(2)]
  by (auto simp: table_ok_def cap_def same_sizes_def)

section \<open>An entry goes to a free slot\<close>

lemma place_slots_ok:
  assumes ok: "slots_ok cfg c" and ss: "same_sizes c c'"
    and s: "first_with cfg c (cfg_hash cfg (ekey e)) P (unat s)" "P EMPTY" "\<And>t. P t \<Longrightarrow> is_free t"
    and tags: "tags c' = TagArray_set (tags c) s (HashToTag (cfg_hash cfg (ekey e)))"
    and count: "Count c' = Count c + 1"
    and here: "slot_entry cfg c' (unat s) = e"
    and others: "\<And>i. i \<in> live c \<Longrightarrow> slot_entry cfg c' i = slot_entry cfg c i"
  shows "slots_ok cfg c'" "contents cfg c' = add_mset e (contents cfg c)"
    "live c' = insert (unat s) (live c)" "unat s \<notin> live c"
    "tombstones c' = tombstones c - {unat s}"
proof -
  let ?t = "HashToTag (cfg_hash cfg (ekey e))"
  have tok: "table_ok cfg c" by (rule slots_okD[OF ok])
  have lt: "unat s < cap c" and free: "is_free (tag_at c (unat s))" using s by (auto simp: first_with_def)
  have tag: "tag_at c' i = (if i = unat s then ?t else tag_at c i)" for i
    using tag_at_set[of c c' s ?t i] tok tags lt by (auto simp: table_ok_def)
  have tok': "table_ok cfg c'"
    using table_ok_set[OF tok ss tags lt] by (simp add: valid_tag_def)
  have fresh: "unat s \<notin> live c" using free full_not_free by (auto simp: live_def)
  then show "unat s \<notin> live c" .
  have live: "live c' = insert (unat s) (live c)"
    using lt by (auto simp: live_def tag same_sizes_facts[OF ss])
  then show "live c' = insert (unat s) (live c)" .
  show "tombstones c' = tombstones c - {unat s}"
    using full_not_free[OF HashToTag_full] by (auto simp: tombstones_def tag same_sizes_facts[OF ss] is_free_def)
  have "card (live c) < cap c"
    using psubset_card_mono[of "{..<cap c}" "live c"] lt fresh by (auto simp: live_def)
  then have "unat (Count c) + unat (1 :: u32) < 2 ^ 32"
    using slots_okD(2)[OF ok] table_ok_cap[OF tok] by simp
  then have cnt: "unat (Count c') = card (live c')"
    unfolding live count by (simp add: unat_add_u32 slots_okD(2)[OF ok] fresh)
  have reach: "reachable_slot cfg c' h i" if "reachable_slot cfg c h i" for h i
    using that by (rule reachable_mono[OF ss, rotated]) (auto simp: tag split: if_splits)
  have "placed_right cfg c' i" if "i \<in> live c'" for i
  proof (cases "i = unat s")
    case True
    have "reachable_slot cfg c (cfg_hash cfg (ekey e)) (unat s)"
      using s(1,2) by (rule first_with_reachable)
    then show ?thesis using reach True here by (simp add: placed_right_def slot_key_entry tag)
  next
    case False
    with that live have i: "i \<in> live c" by simp
    then have "placed_right cfg c i" using ok by (simp add: slots_ok_def)
    then show ?thesis using reach False others[OF i] by (simp add: placed_right_def Let_def slot_key_entry tag)
  qed
  with tok' cnt show "slots_ok cfg c'" by (simp add: slots_ok_def)
  have "image_mset (slot_entry cfg c') (mset_set (live c)) = contents cfg c"
    unfolding contents_def by (rule image_mset_cong) (simp add: others)
  then show "contents cfg c' = add_mset e (contents cfg c)"
    using fresh here by (simp add: contents_def live)
qed

text \<open>A tag becomes a tombstone.\<close>

lemma bury_slots_ok:
  assumes ok: "slots_ok cfg c" and ss: "same_sizes c c'"
    and s: "unat s \<in> live c"
    and tags: "tags c' = TagArray_set (tags c) s TOMBSTONE"
    and count: "Count c' = Count c - 1"
    and others: "\<And>i. i \<in> live c \<Longrightarrow> slot_entry cfg c' i = slot_entry cfg c i"
  shows "slots_ok cfg c'" "contents cfg c' = contents cfg c - {#slot_entry cfg c (unat s)#}"
    "live c' = live c - {unat s}"
proof -
  have tok: "table_ok cfg c" by (rule slots_okD[OF ok])
  have lt: "unat s < cap c" using s by (auto simp: live_def)
  have tag: "tag_at c' i = (if i = unat s then TOMBSTONE else tag_at c i)" for i
    using tag_at_set[of c c' s TOMBSTONE i] tok tags lt by (auto simp: table_ok_def)
  have tok': "table_ok cfg c'" using table_ok_set[OF tok ss tags lt] by simp
  show live: "live c' = live c - {unat s}"
    by (auto simp: live_def tag same_sizes_facts[OF ss])
  have pos: "0 < card (live c)" using s by (auto simp: card_gt_0_iff)
  then have "1 \<le> Count c" using slots_okD(2)[OF ok] by (simp add: word_le_nat_alt)
  then have cnt: "unat (Count c') = card (live c')"
    unfolding live count using s by (simp add: unat_sub slots_okD(2)[OF ok])
  have reach: "reachable_slot cfg c' h i" if "reachable_slot cfg c h i" for h i
    using that by (rule reachable_mono[OF ss, rotated]) (auto simp: tag split: if_splits)
  have "placed_right cfg c' i" if "i \<in> live c'" for i
  proof -
    from that live have i: "i \<in> live c" "i \<noteq> unat s" by auto
    then have "placed_right cfg c i" using ok by (simp add: slots_ok_def)
    then show ?thesis using reach i others[OF i(1)] by (simp add: placed_right_def Let_def slot_key_entry tag)
  qed
  with tok' cnt show "slots_ok cfg c'" by (simp add: slots_ok_def)
  have "image_mset (slot_entry cfg c') (mset_set (live c - {unat s}))
      = image_mset (slot_entry cfg c) (mset_set (live c - {unat s}))"
    by (rule image_mset_cong) (simp add: others)
  then show "contents cfg c' = contents cfg c - {#slot_entry cfg c (unat s)#}"
    using s by (simp add: contents_def live mset_set_Diff image_mset_Diff)
qed

text \<open>A table without live slots.\<close>

definition empty_table :: "('k, 'v) config \<Rightarrow> ('k, 'v) core \<Rightarrow> bool" where
  "empty_table cfg c \<longleftrightarrow> sizes_ok (cfg_mode cfg) c \<and> tags c = fresh_tags (Capacity c)"

lemma empty_table_facts:
  assumes "empty_table cfg c"
  shows "table_ok cfg c" "live c = {}" "tombstones c = {}" "contents cfg c = {#}"
    "Count c = 0 \<Longrightarrow> slots_ok cfg c"
proof -
  have t: "tags c = fresh_tags (Capacity c)" and s: "sizes_ok (cfg_mode cfg) c"
    using assms by (auto simp: empty_table_def)
  have cap: "cap c \<le> 2 ^ 31" using s by (simp add: sizes_ok_def cap_ok_def cap_def)
  then have "unat (Capacity c) + SIZE < 2 ^ 32" by (simp add: cap_def SIZE_def)
  then show tok: "table_ok cfg c"
    using fresh_tags_ok[of "Capacity c"] s t by (simp add: table_ok_def) (simp add: fresh_tags_def)
  have e: "i < cap c \<Longrightarrow> tag_at c i = EMPTY" for i
    by (simp add: tag_at_def t fresh_tags_def cap_def nth_fresh_bytes)
  then show l: "live c = {}" "tombstones c = {}" by (auto simp: live_def tombstones_def)
  then show "contents cfg c = {#}" by (simp add: contents_def)
  show "Count c = 0 \<Longrightarrow> slots_ok cfg c" using tok l by (simp add: slots_ok_def)
qed

end
