(* ===== verification/Rehashing.thy ===== *)
theory Rehashing
  imports Contents
begin

text \<open>
  \<open>RehashInternal\<close>. For maps and sets it is done in place: the entries stay in one array while their
  tags move from the old tag array to the new one, and an entry that stands where another has to go is
  taken up and placed next. The invariant \<open>rehashing\<close> accounts for every entry: it is in the new
  table, still to be moved, or in hand. For an index only the tags and the positions are rebuilt.
  Every search for an empty slot ends when 16 slots stay free and the capacity is coprime to the step
  of 15 groups (\<open>roomy\<close>); without that a rehash may not return, but what it returns is still right.
\<close>

definition tag_of :: "('k, 'v) config \<Rightarrow> ('k, 'v) entry \<Rightarrow> u8" where
  "tag_of cfg e = HashToTag (cfg_hash cfg (ekey e))"

text \<open>The slots of a tag array that are in use.\<close>

definition pending :: "tag_array \<Rightarrow> nat set" where
  "pending P = {i. i < unat (ta_size P) \<and> is_full (ta_bytes P ! i)}"

lemma finite_pending [simp]: "finite (pending P)"
  by (simp add: pending_def)

lemma pending_live: "ta_size (tags c) = Capacity c \<Longrightarrow> pending (tags c) = live c"
  by (simp add: pending_def live_def tag_at_def cap_def)

lemma pending_set:
  assumes "tags_ok P" "\<not> is_full t"
  shows "pending (TagArray_set P i t) = pending P - {unat i}"
proof -
  have "is_full ((ta_bytes P)[unat i := t] ! j) \<longleftrightarrow> j \<noteq> unat i \<and> is_full (ta_bytes P ! j)"
    if "j < unat (ta_size P)" for j
    using that assms by (cases "j = unat i") (auto simp: tags_ok_def)
  then show ?thesis using TagArray_set_fields[OF assms(1)] by (auto simp: pending_def)
qed

lemma vacant_iff: "vacant P i \<longleftrightarrow> unat i \<notin> pending P"
  by (auto simp: vacant_def pending_def TagArray_get_def and_EMPTY_full word_le_nat_alt not_le)

section \<open>Entries in place\<close>

lemma EntryArray_set_same: "EntryArray_set a i (EntryArray_get a i) = a"
  by (cases a) (auto simp: EntryArray_set_def EntryArray_get_def ea_page_list_def Let_def split: option.split)

lemma slot_entry_plain:
  "cfg_type cfg \<noteq> Type_Index \<Longrightarrow> slot_entry cfg c i = ea.cell (entries c) i"
  by (simp add: slot_entry_def real_index_def ea.cell_def)

definition arranged :: "('k, 'v) config \<Rightarrow> ('k, 'v) core \<Rightarrow> bool" where
  "arranged cfg c \<longleftrightarrow> cfg_type cfg \<noteq> Type_Index \<and> slots_ok cfg c \<and> tombstones c = {}
     \<and> entries_ok (entries c) \<and> ea_len (entries c) = cap c"

definition roomy :: "nat \<Rightarrow> ('k, 'v) core \<Rightarrow> bool" where
  "roomy n c \<longleftrightarrow> n + 16 \<le> cap c \<and> coprime 15 (cap c)"

definition rehashing ::
    "('k, 'v) config \<Rightarrow> ('k, 'v) entry multiset \<Rightarrow> ('k, 'v) entry multiset \<Rightarrow> tag_array \<Rightarrow> ('k, 'v) core
      \<Rightarrow> bool" where
  "rehashing cfg M H P c \<longleftrightarrow> arranged cfg c
     \<and> tags_ok P \<and> unat (ta_size P) \<le> cap c \<and> pending P \<inter> live c = {}
     \<and> (\<forall>i \<in> pending P. ta_bytes P ! i = tag_of cfg (slot_entry cfg c i))
     \<and> contents cfg c + image_mset (slot_entry cfg c) (mset_set (pending P)) + H = M"

lemma rehashing_arranged: "rehashing cfg M H P c \<Longrightarrow> arranged cfg c"
  by (simp add: rehashing_def)

lemma arranged_table: "arranged cfg c \<Longrightarrow> table_ok cfg c"
  by (simp add: arranged_def slots_okD)

lemma pending_less: "rehashing cfg M H P c \<Longrightarrow> i \<in> pending P \<Longrightarrow> i < cap c"
  by (auto simp: rehashing_def pending_def)

text \<open>An entry is taken up.\<close>

lemma rehashing_take:
  assumes r: "rehashing cfg M H P c" and i: "unat i \<in> pending P"
  shows "rehashing cfg M (add_mset (slot_entry cfg c (unat i)) H) (TagArray_set P i EMPTY) c"
    "pending (TagArray_set P i EMPTY) = pending P - {unat i}"
    "TagArray_get P i = tag_of cfg (slot_entry cfg c (unat i))"
proof -
  have P: "tags_ok P" using r by (simp add: rehashing_def)
  show pend: "pending (TagArray_set P i EMPTY) = pending P - {unat i}"
    by (rule pending_set[OF P]) simp
  show "TagArray_get P i = tag_of cfg (slot_entry cfg c (unat i))"
    using r i by (simp add: rehashing_def TagArray_get_def)
  have "tags_ok (TagArray_set P i EMPTY)" using P i by (intro tags_ok_set) (auto simp: pending_def)
  moreover have "image_mset (slot_entry cfg c) (mset_set (pending P))
      = add_mset (slot_entry cfg c (unat i)) (image_mset (slot_entry cfg c) (mset_set (pending P - {unat i})))"
    using i by (simp add: mset_set.remove)
  moreover have "ta_bytes (TagArray_set P i EMPTY) ! j = ta_bytes P ! j" if "j \<noteq> unat i" for j
    using that P by (simp add: TagArray_set_fields)
  ultimately show "rehashing cfg M (add_mset (slot_entry cfg c (unat i)) H) (TagArray_set P i EMPTY) c"
    using r P unfolding rehashing_def pend by (auto simp: TagArray_set_fields)
qed

text \<open>An entry is put down.\<close>

lemma rehashing_place:
  assumes r: "rehashing cfg M (add_mset e H) P c"
    and i: "FindEmpty cfg c (cfg_hash cfg (ekey e)) = Some i" "vacant P i"
  shows "rehashing cfg M H P (place i (tag_of cfg e) e c)" "same_sizes c (place i (tag_of cfg e) e c)"
proof -
  let ?c = "place i (tag_of cfg e) e c" and ?i = "ucast i :: u64"
  have a: "arranged cfg c" by (rule rehashing_arranged[OF r])
  then have ok: "slots_ok cfg c" and ty: "cfg_type cfg \<noteq> Type_Index" and es: "entries_ok (entries c)"
      "ea_len (entries c) = cap c"
    by (auto simp: arranged_def)
  have tok: "table_ok cfg c" using a by (rule arranged_table)
  have f: "first_with cfg c (cfg_hash cfg (ekey e)) (\<lambda>t. t = EMPTY) (unat ?i)"
    using FindEmpty_Some[OF tok i(1)] by simp
  then have lt: "unat i < cap c" by (simp add: first_with_def)
  show ss: "same_sizes c ?c"
    by (simp add: place_def set_entry_def set_tag_def Let_def same_sizes_def)
  have fields: "tags ?c = TagArray_set (tags c) ?i (HashToTag (cfg_hash cfg (ekey e)))"
      "entries ?c = EntryArray_set (entries c) ?i e" "Count ?c = Count c + 1"
    by (simp_all add: place_def set_entry_def set_tag_def Let_def tag_of_def)
  have cell: "j < cap c \<Longrightarrow> slot_entry cfg ?c j = (if j = unat i then e else slot_entry cfg c j)" for j
    using ea.cell_set[OF es(1), of ?i j e] es(2) lt table_ok_cap[OF tok]
    by (auto simp: slot_entry_plain[OF ty] fields)
  have nl: "j \<in> live c \<Longrightarrow> slot_entry cfg ?c j = slot_entry cfg c j" for j
    using f cell[of j] by (auto simp: live_def first_with_def)
  have pl: "slots_ok cfg ?c" "contents cfg ?c = add_mset e (contents cfg c)"
      "live ?c = insert (unat i) (live c)" "unat i \<notin> live c"
    using place_slots_ok[OF ok ss f _ _ fields(1,3) _ nl] cell[of "unat i"] lt by simp_all
  have ni: "unat i \<notin> pending P" using i(2) by (simp add: vacant_iff)
  have "entries_ok (entries ?c)" "ea_len (entries ?c) = cap ?c"
    using ea.ok_set[OF es(1), of ?i e] lt es(2) same_sizes_facts(1)[OF ss]
    by (auto simp: fields ea.len_set)
  moreover have "tombstones ?c = {}"
  proof -
    have "tag_at ?c j = (if j = unat ?i then HashToTag (cfg_hash cfg (ekey e)) else tag_at c j)" for j
      using tag_at_set[of c ?c ?i _ j] tok lt fields(1) by (auto simp: table_ok_def)
    then show ?thesis using a by (auto simp: tombstones_def arranged_def same_sizes_facts[OF ss])
  qed
  ultimately have "arranged cfg ?c" using pl(1) ty by (simp add: arranged_def)
  moreover have same: "slot_entry cfg ?c j = slot_entry cfg c j" if "j \<in> pending P" for j
    using cell[OF pending_less[OF r that]] that ni by auto
  moreover have "image_mset (slot_entry cfg ?c) (mset_set (pending P))
      = image_mset (slot_entry cfg c) (mset_set (pending P))"
    by (rule image_mset_cong) (simp add: same)
  ultimately show "rehashing cfg M H P ?c"
    using r ni unfolding rehashing_def pl same_sizes_facts[OF ss] by simp
qed

text \<open>There is always an empty slot to find.\<close>

lemma rehashing_FindEmpty:
  assumes "rehashing cfg M H P c" "roomy (size M) c"
  obtains i where "FindEmpty cfg c h = Some i"
proof -
  have a: "arranged cfg c" by (rule rehashing_arranged[OF assms(1)])
  then have tok: "table_ok cfg c" by (rule arranged_table)
  have "card (live c) \<le> size M" "size M + 16 \<le> cap c" "coprime 15 (cap c)"
    using assms by (auto simp: rehashing_def roomy_def)
  then have "15 < card {i. i < cap c \<and> tag_at c i = EMPTY}"
    using card_empty[OF tok] a by (simp add: arranged_def)
  then show thesis using FindEmpty_ends[OF tok \<open>coprime 15 (cap c)\<close>] that by blast
qed

lemma slot_entry_get:
  "cfg_type cfg \<noteq> Type_Index \<Longrightarrow> EntryArray_get (entries c) i = slot_entry cfg c (unat i)"
  by (simp add: slot_entry_plain ea.cell_get)

lemma roomy_same: "same_sizes c c' \<Longrightarrow> roomy n c' = roomy n c"
  by (simp add: roomy_def same_sizes_facts)

text \<open>The chain: every turn takes one entry off the old table.\<close>

lemma chain_outcome:
  assumes "rehashing cfg M {#e#} P c" "FindEmpty cfg c (cfg_hash cfg (ekey e)) = Some i" "\<not> vacant P i"
  shows "returns_if (roomy (size M) c) (of_loop (rehash_chain cfg i (tag_of cfg e) e P c))
    (\<lambda>(P', c'). rehashing cfg M {#} P' c' \<and> pending P' \<subseteq> pending P \<and> ta_size P' = ta_size P
      \<and> same_sizes c c')"
  using assms
proof (induction "card (pending P)" arbitrary: P c e i rule: less_induct)
  case less
  let ?i = "ucast i :: u64" and ?P = "TagArray_set P (ucast i) EMPTY"
  have ty: "cfg_type cfg \<noteq> Type_Index" using rehashing_arranged[OF less.prems(1)] by (simp add: arranged_def)
  have i: "unat ?i \<in> pending P" using less.prems(3) by (simp add: vacant_iff)
  define e' where "e' = slot_entry cfg c (unat ?i)"
  note take = rehashing_take[OF less.prems(1) i, folded e'_def]
  have P: "tags_ok P" using less.prems(1) by (simp add: rehashing_def)
  have vac: "vacant ?P i" using take(2) by (simp add: vacant_iff)
  have r: "rehashing cfg M (add_mset e {#e'#}) ?P c" using take(1) by (simp add: add_mset_commute)
  note put = rehashing_place[OF r less.prems(2) vac]
  let ?c = "place i (tag_of cfg e) e c"
  have step: "rehash_chain cfg i (tag_of cfg e) e P c =
      Option.bind (FindEmpty cfg ?c (cfg_hash cfg (ekey e'))) (\<lambda>j.
        if vacant ?P j then Some (?P, place j (tag_of cfg e') e' ?c)
        else rehash_chain cfg j (tag_of cfg e') e' ?P ?c)"
    using take(3) slot_entry_get[OF ty, of c ?i]
    by (subst rehash_chain.simps) (simp add: Let_def e'_def cong: if_cong)
  note fields = take(2) put(2) TagArray_set_fields(1)[OF P] roomy_same[OF put(2)]
  show ?case
  proof (cases "FindEmpty cfg ?c (cfg_hash cfg (ekey e'))")
    case None
    then have "\<not> roomy (size M) c"
      using rehashing_FindEmpty[OF put(1), of "cfg_hash cfg (ekey e')"] fields by auto
    with None step show ?thesis by simp
  next
    case (Some j)
    show ?thesis
    proof (cases "vacant ?P j")
      case True
      with rehashing_place[of cfg M e' "{#}", OF put(1) Some True] step Some fields show ?thesis
        by (auto intro: same_sizes_trans)
    next
      case False
      have "card (pending ?P) < card (pending P)"
        unfolding take(2) using i by (intro psubset_card_mono) auto
      from less.hyps[OF this put(1) Some False] step False Some fields show ?thesis
        by (auto intro: same_sizes_trans elim!: returns_if_mono)
    qed
  qed
qed

text \<open>One iteration of the \<open>for\<close> loop.\<close>

lemma slot_step:
  assumes r: "rehashing cfg M {#} P c" and n: "n < unat (ta_size P)"
  shows "returns_if (roomy (size M) c) (rehash_slot cfg n (P, c))
    (\<lambda>(P', c'). rehashing cfg M {#} P' c' \<and> pending P' \<subseteq> pending P - {n} \<and> ta_size P' = ta_size P
      \<and> same_sizes c c')"
proof -
  let ?n = "of_nat n :: u64" and ?P = "TagArray_set P (of_nat n) EMPTY"
  have un: "unat ?n = n" using n unat_lt_2p(1)[of "ta_size P"] by (intro ea.unat_index) simp
  have P: "tags_ok P" using r by (simp add: rehashing_def)
  have ty: "cfg_type cfg \<noteq> Type_Index" using rehashing_arranged[OF r] by (simp add: arranged_def)
  show ?thesis
  proof (cases "n \<in> pending P")
    case False
    then have "TagArray_get P ?n AND EMPTY \<noteq> 0"
      using n by (simp add: pending_def and_EMPTY_full TagArray_get_def un)
    with False r show ?thesis by (auto simp: rehash_slot_def Let_def)
  next
    case True
    define e where "e = slot_entry cfg c n"
    note take = rehashing_take[OF r, of ?n, unfolded un, OF True, folded e_def]
    have get: "EntryArray_get (entries c) ?n = e" by (simp add: slot_entry_get[OF ty] un e_def)
    have full: "TagArray_get P ?n AND EMPTY = 0"
      using True and_EMPTY_full[of "ta_bytes P ! n"] by (auto simp: pending_def TagArray_get_def un)
    have same: "set_tag ?n (tag_of cfg e) c\<lparr>Count := Count c + 1\<rparr> = place i (tag_of cfg e) e c"
      if "ucast i = ?n" for i :: u32
      using that get EntryArray_set_same[of "entries c" ?n]
      by (simp add: place_def set_entry_def set_tag_def Let_def)
    have vac: "vacant ?P i" if "ucast i = ?n" for i :: u32
    proof -
      have "unat i = n" using arg_cong[OF that, of unat] un by simp
      then show ?thesis using take(2) by (simp add: vacant_iff)
    qed
    have step: "rehash_slot cfg n (P, c) = run_bind (of_loop (FindEmpty cfg c (cfg_hash cfg (ekey e)))) (\<lambda>i.
        if vacant ?P i then ret (?P, place i (tag_of cfg e) e c)
        else of_loop (rehash_chain cfg i (tag_of cfg e) e ?P c))"
      using full take(3) get same vac
      by (auto simp: rehash_slot_def Let_def set_tag_def intro!: arg_cong2[where f = run_bind])
    have size: "ta_size ?P = ta_size P" by (rule TagArray_set_fields[OF P])
    show ?thesis
    proof (cases "FindEmpty cfg c (cfg_hash cfg (ekey e))")
      case None
      then show ?thesis using rehashing_FindEmpty[OF r, of "cfg_hash cfg (ekey e)"] step by auto
    next
      case (Some i)
      show ?thesis
      proof (cases "vacant ?P i")
        case True
        with rehashing_place[of cfg M e "{#}", OF take(1) Some True] step Some take(2) size show ?thesis by auto
      next
        case False
        with chain_outcome[OF take(1) Some False] step Some take(2) size show ?thesis
          by (auto elim!: returns_if_mono)
      qed
    qed
  qed
qed

section \<open>Rehashing in place\<close>

lemma fresh_tag_array_ret:
  assumes "sizes_ok (cfg_mode cfg) c" "ta_size (tags c) < Capacity c"
  shows "fresh_tag_array cfg (Capacity c) c = ret (c\<lparr>tags := fresh_tags (Capacity c)\<rparr>)"
proof -
  have c: "4096 dvd unat (Capacity c)" "unat (Capacity c) \<le> 2 ^ 31"
    using assms(1) by (auto simp: sizes_ok_def cap_ok_def)
  have "unat (Capacity c) mod SIZE = 0" using c(1) by (auto simp: SIZE_def elim!: dvdE)
  moreover have "unat (Capacity c) + SIZE < 2 ^ 32" using c(2) by (simp add: SIZE_def)
  ultimately show ?thesis using AdjustSize_Init[OF assms(2)] by (simp add: fresh_tag_array_def)
qed

lemma sizes_ok_update [simp]:
  fixes c :: "('k, 'v) core"
  shows "sizes_ok mode (c\<lparr>tags := t\<rparr>) = sizes_ok mode c" "sizes_ok mode (c\<lparr>Count := n\<rparr>) = sizes_ok mode c"
    "sizes_ok mode (c\<lparr>entries := es\<rparr>) = sizes_ok mode c" "sizes_ok mode (c\<lparr>realIndex := ri\<rparr>) = sizes_ok mode c"
  by (rule same_sizes_facts; simp)+

lemma cap_update [simp]:
  "cap (c\<lparr>tags := t\<rparr>) = cap c" "cap (c\<lparr>Count := n\<rparr>) = cap c"
  "cap (c\<lparr>entries := es\<rparr>) = cap c" "cap (c\<lparr>realIndex := ri\<rparr>) = cap c"
  by (simp_all add: cap_def)

lemma slot_entry_tags [simp]: "slot_entry cfg (c\<lparr>tags := t\<rparr>) = slot_entry cfg c"
  "slot_entry cfg (c\<lparr>Count := n\<rparr>) = slot_entry cfg c"
  by (auto simp: slot_entry_def real_index_def)

lemma rehash_in_place:
  assumes ty: "cfg_type cfg \<noteq> Type_Index" and sz: "sizes_ok (cfg_mode cfg) c"
    and P: "tags_ok (tags c)" "unat (ta_size (tags c)) \<le> cap c"
    and es: "entries_ok (entries c)" "ea_len (entries c) = cap c"
    and tg: "\<forall>i \<in> pending (tags c). ta_bytes (tags c) ! i = tag_of cfg (slot_entry cfg c i)"
    and cnt: "unat (Count c) = card (pending (tags c))"
  shows "returns_if (roomy (unat (Count c)) c) (RehashInternal cfg (Capacity c) c) (\<lambda>c'. arranged cfg c'
    \<and> contents cfg c' = image_mset (slot_entry cfg c) (mset_set (pending (tags c))) \<and> same_sizes c c'
    \<and> Count c' = Count c)"
proof -
  let ?P = "tags c" and ?M = "image_mset (slot_entry cfg c) (mset_set (pending (tags c)))"
  define c1 where "c1 = c\<lparr>tags := fresh_tags (Capacity c), Count := 0\<rparr>"
  have ss: "same_sizes c c1" by (simp add: c1_def same_sizes_def)
  have e: "empty_table cfg c1" using sz by (simp add: empty_table_def c1_def)
  have "arranged cfg c1"
    using empty_table_facts[OF e] ty es by (simp add: arranged_def) (simp add: c1_def)
  moreover have "slot_entry cfg c1 = slot_entry cfg c" by (simp add: c1_def)
  ultimately have start: "rehashing cfg ?M {#} ?P c1"
    using empty_table_facts[OF e] P tg by (simp add: rehashing_def same_sizes_facts[OF ss])
  let ?I = "\<lambda>n (P', c'). rehashing cfg ?M {#} P' c' \<and> pending P' \<inter> {..<n} = {}
      \<and> ta_size P' = ta_size ?P \<and> same_sizes c c'" and ?b = "roomy (unat (Count c)) c"
  have run: "returns_if ?b (run_fold (rehash_slot cfg) [0..<unat (ta_size ?P)] (?P, c1)) (?I (unat (ta_size ?P)))"
  proof (rule returns_if_fold)
    show "?I 0 (?P, c1)" using start ss by simp
  next
    fix n s
    assume n: "n < unat (ta_size ?P)" and I: "?I n s"
    obtain P' c' where s: "s = (P', c')" by force
    from I have r: "rehashing cfg ?M {#} P' c'" "same_sizes c c'" and n': "n < unat (ta_size P')"
      using n by (auto simp: s)
    have "roomy (size ?M) c' = ?b" by (simp add: cnt roomy_same[OF r(2)])
    with slot_step[OF r(1) n'] I show "returns_if ?b (rehash_slot cfg n s) (?I (Suc n))"
      by (fastforce simp: s lessThan_Suc intro: same_sizes_trans elim!: returns_if_mono)
  qed
  have fin: "arranged cfg c' \<and> contents cfg c' = ?M \<and> same_sizes c c' \<and> Count c' = Count c"
    if "?I (unat (ta_size ?P)) (P', c')" for P' c'
  proof -
    have "pending P' = {}" using that by (auto simp: pending_def)
    then have con: "contents cfg c' = ?M" using that by (simp add: rehashing_def)
    have a: "arranged cfg c'" using that rehashing_arranged by blast
    then have "unat (Count c') = size (contents cfg c')" using slots_okD(2)[of cfg c'] by (simp add: arranged_def)
    also have "\<dots> = unat (Count c)" by (simp add: con cnt)
    finally have "Count c' = Count c" by (rule unsigned_word_eqI)
    with con a that show ?thesis by simp
  qed
  have move: "TagArray_move ?P = (?P, ?P\<lparr>ta_ptr := None, ta_size := 0\<rparr>)" by (simp add: TagArray_move_def)
  have "0 < Capacity c" using sz by (auto simp: sizes_ok_def cap_ok_def word_less_nat_alt)
  then have "fresh_tag_array cfg (Capacity c) (c\<lparr>tags := ?P\<lparr>ta_ptr := None, ta_size := 0\<rparr>\<rparr>)
      = ret (c\<lparr>tags := fresh_tags (Capacity c)\<rparr>)"
    using fresh_tag_array_ret[of cfg "c\<lparr>tags := ?P\<lparr>ta_ptr := None, ta_size := 0\<rparr>\<rparr>"] sz by simp
  then have "RehashInternal cfg (Capacity c) c =
      run_bind (run_fold (rehash_slot cfg) [0..<unat (ta_size ?P)] (?P, c1)) (\<lambda>(_, c').
      run_bind (check (Count c = Count c') Rehash_count) (\<lambda>_. ret c'))"
    using ty by (simp add: RehashInternal_def move Let_def c1_def)
  also have "returns_if ?b \<dots> (\<lambda>c'. arranged cfg c' \<and> contents cfg c' = ?M \<and> same_sizes c c'
      \<and> Count c' = Count c)"
  proof (rule returns_if_bind[OF run])
    fix s
    assume I: "?I (unat (ta_size ?P)) s"
    obtain P' c' where s: "s = (P', c')" by force
    from fin[of P' c'] I show "returns_if ?b (case s of (_, c') \<Rightarrow> run_bind (check (Count c = Count c') Rehash_count)
        (\<lambda>_. ret c')) (\<lambda>c'. arranged cfg c' \<and> contents cfg c' = ?M \<and> same_sizes c c' \<and> Count c' = Count c)"
      by (simp add: s)
  qed
  finally show ?thesis .
qed

section \<open>Rebuilding an index\<close>

lemma slot_entry_index:
  "cfg_type cfg = Type_Index \<Longrightarrow> slot_entry cfg c i = ea.cell (entries c) (index_at c i)"
  by (simp add: slot_entry_def real_index_def ea.cell_get index_at_def)

lemma index_at_cell: "index_at c i = unat (ea.cell (realIndex c) i)"
  by (simp add: index_at_def ea.cell_def)

text \<open>The entries of an index in the order of their positions.\<close>

definition index_entries :: "('k, 'v) core \<Rightarrow> ('k, 'v) entry list" where
  "index_entries c = map (ea.cell (entries c)) [0..<unat (Count c)]"

lemma index_contents:
  assumes "cfg_type cfg = Type_Index" "bij_betw (index_at c) (live c) {..<unat (Count c)}"
  shows "contents cfg c = mset (index_entries c)"
proof -
  have "contents cfg c = image_mset (ea.cell (entries c)) (image_mset (index_at c) (mset_set (live c)))"
    unfolding contents_def image_mset.compositionality comp_def
    by (rule image_mset_cong) (simp add: slot_entry_index[OF assms(1)])
  also have "image_mset (index_at c) (mset_set (live c)) = mset_set {..<unat (Count c)}"
    using assms(2) by (simp add: bij_betw_def image_mset_mset_set)
  also have "\<dots> = mset [0..<unat (Count c)]" by (simp add: lessThan_atLeast0)
  finally show ?thesis by (simp add: index_entries_def)
qed

definition rebuilt :: "('k, 'v) config \<Rightarrow> ('k, 'v) core \<Rightarrow> nat \<Rightarrow> ('k, 'v) core \<Rightarrow> bool" where
  "rebuilt cfg c0 r c \<longleftrightarrow> same_sizes c0 c \<and> entries c = entries c0 \<and> Count c = Count c0
     \<and> slots_ok cfg (c\<lparr>Count := of_nat r\<rparr>) \<and> tombstones c = {}
     \<and> entries_ok (realIndex c) \<and> ea_len (realIndex c) = cap c
     \<and> bij_betw (index_at c) (live c) {..<r}"

lemma FindEmpty_Count [simp]: "FindEmpty cfg (c\<lparr>Count := n\<rparr>) h = FindEmpty cfg c h"
proof -
  have "AdjustTupleIndex (cfg_mode cfg) (c\<lparr>Count := n\<rparr>) = AdjustTupleIndex (cfg_mode cfg) c"
    by (intro ext) (simp add: AdjustTupleIndex_def)
  moreover have "empty_stop (c\<lparr>Count := n\<rparr>) = empty_stop c"
    by (intro ext) (simp add: empty_stop_def load_group_def)
  ultimately show ?thesis by (simp add: FindEmpty_probe)
qed

lemma live_Count [simp]: "live (c\<lparr>Count := n\<rparr>) = live c" "index_at (c\<lparr>Count := n\<rparr>) = index_at c"
  "tag_at (c\<lparr>Count := n\<rparr>) = tag_at c" "tombstones (c\<lparr>Count := n\<rparr>) = tombstones c"
  by (auto simp: live_def tag_at_def index_at_def tombstones_def)

lemma bij_betw_add:
  assumes "bij_betw f A {..<r::nat}" "s \<notin> A" "\<And>i. i \<in> A \<Longrightarrow> g i = f i" "g s = r"
  shows "bij_betw g (insert s A) {..<Suc r}"
proof -
  have "bij_betw g A {..<r}" using assms(1,3) by (metis bij_betw_cong)
  then have "bij_betw g (A \<union> {s}) ({..<r} \<union> {r})"
    by (rule bij_betw_combine) (use assms(4) in \<open>auto simp: bij_betw_def\<close>)
  then show ?thesis by (simp add: lessThan_Suc)
qed

text \<open>The tag and the position of an entry are written to a free slot of an index.\<close>

lemma index_place:
  assumes ty: "cfg_type cfg = Type_Index" and ok: "slots_ok cfg c"
    and ri: "entries_ok (realIndex c)" "ea_len (realIndex c) = cap c"
    and bij: "bij_betw (index_at c) (live c) {..<r}" and r: "unat x = r" "unat (Count c) = r"
    and s: "first_with cfg c (cfg_hash cfg (ekey e)) P (unat s)" "P EMPTY" "\<And>t. P t \<Longrightarrow> is_free t"
    and ss: "same_sizes c c'"
    and fields: "tags c' = TagArray_set (tags c) s (HashToTag (cfg_hash cfg (ekey e)))"
      "realIndex c' = EntryArray_set (realIndex c) s x" "Count c' = Count c + 1"
    and es: "\<And>j. j < r \<Longrightarrow> ea.cell (entries c') j = ea.cell (entries c) j" "ea.cell (entries c') r = e"
  shows "slots_ok cfg c'" "contents cfg c' = add_mset e (contents cfg c)"
    "live c' = insert (unat s) (live c)" "unat s \<notin> live c"
    "bij_betw (index_at c') (live c') {..<Suc r}"
    "entries_ok (realIndex c')" "ea_len (realIndex c') = cap c'"
    "tombstones c' = tombstones c - {unat s}"
    "slot_entry cfg c' (unat s) = e" "\<And>i. i \<in> live c \<Longrightarrow> slot_entry cfg c' i = slot_entry cfg c i"
proof -
  have tok: "table_ok cfg c" by (rule slots_okD[OF ok])
  have lt: "unat s < cap c" and fresh: "unat s \<notin> live c"
    using s(1,3) full_not_free by (auto simp: first_with_def live_def)
  have at: "index_at c' i = (if i = unat s then r else index_at c i)" if "i < cap c" for i
    using ea.cell_set[OF ri(1), of s i x] ri(2) lt that table_ok_cap[OF tok] r(1)
    by (auto simp: index_at_cell fields)
  have lv: "i \<in> live c \<Longrightarrow> index_at c' i = index_at c i" for i
    using at[of i] fresh by (auto simp: live_def)
  show others: "slot_entry cfg c' i = slot_entry cfg c i" if "i \<in> live c" for i
    using bij_betw_apply[OF bij that] es(1)[of "index_at c i"] lv[OF that]
    by (simp add: slot_entry_index[OF ty])
  show here: "slot_entry cfg c' (unat s) = e"
    using at[OF lt] es(2) by (simp add: slot_entry_index[OF ty])
  show "slots_ok cfg c'" "contents cfg c' = add_mset e (contents cfg c)" "unat s \<notin> live c"
    "tombstones c' = tombstones c - {unat s}"
    and l: "live c' = insert (unat s) (live c)"
    using place_slots_ok[OF ok ss s fields(1,3) here others] by blast+
  show "bij_betw (index_at c') (live c') {..<Suc r}"
    unfolding l using bij fresh lv by (rule bij_betw_add) (use at[OF lt] in simp_all)
  show "entries_ok (realIndex c')" "ea_len (realIndex c') = cap c'"
    using ea.ok_set[OF ri(1), of s x] lt ri(2) same_sizes_facts(1)[OF ss] by (auto simp: fields ea.len_set)
qed

lemma index_step_found:
  assumes ty: "cfg_type cfg = Type_Index" and r: "r < unat (Count c0)" and c: "rebuilt cfg c0 r c"
    and i: "FindEmpty cfg c (cfg_hash cfg (ekey (ea.cell (entries c) r))) = Some i"
  shows "\<exists>c'. rehash_index cfg r c = ret c' \<and> rebuilt cfg c0 (Suc r) c'"
proof -
  let ?d = "c\<lparr>Count := of_nat r\<rparr>"
  have ss: "same_sizes c0 c" and es: "entries c = entries c0" and ok: "slots_ok cfg ?d"
    and tomb: "tombstones c = {}" and ri: "entries_ok (realIndex c)" "ea_len (realIndex c) = cap c"
    and bij: "bij_betw (index_at c) (live c) {..<r}" and cc: "Count c = Count c0"
    using c by (auto simp: rebuilt_def)
  have ur: "unat (of_nat r :: u32) = r" "unat (of_nat r :: u64) = r"
    using r unat_lt_2p(1)[of "Count c0"] by (simp_all add: unat_of_nat)
  define e where "e = ea.cell (entries c) r"
  define h where "h = cfg_hash cfg (ekey e)"
  have tok: "table_ok cfg ?d" by (rule slots_okD[OF ok])
  have f: "first_with cfg ?d h (\<lambda>t. t = EMPTY) (unat (ucast i :: u64))"
    using FindEmpty_Some[OF tok, of h i] i by (simp add: h_def e_def)
  define c' where "c' = (set_tag (ucast i) (HashToTag h) c)
      \<lparr>realIndex := EntryArray_set (realIndex c) (ucast i) (of_nat r)\<rparr>"
  have run: "rehash_index cfg r c = ret c'"
    using i ea.cell_get[of "entries c" "of_nat r"] ur
    by (simp add: rehash_index_def Let_def c'_def h_def e_def)
  let ?d' = "c'\<lparr>Count := of_nat (Suc r)\<rparr>"
  have ss': "same_sizes c c'" "same_sizes ?d ?d'" by (simp_all add: c'_def set_tag_def same_sizes_def)
  have "tags ?d' = TagArray_set (tags ?d) (ucast i) (HashToTag (cfg_hash cfg (ekey e)))"
    "realIndex ?d' = EntryArray_set (realIndex ?d) (ucast i) (of_nat r)" "Count ?d' = Count ?d + 1"
    "\<And>j. ea.cell (entries ?d') j = ea.cell (entries ?d) j" "ea.cell (entries ?d') r = e"
    by (simp_all add: c'_def set_tag_def h_def e_def)
  note pl = index_place[OF ty ok _ _ _ ur(1) _ f[unfolded h_def] _ _ ss'(2) this(1-3) this(4,5), simplified,
      OF ri bij ur(1)]
  have tag: "tag_at c' j = (if j = unat i then HashToTag h else tag_at c j)" for j
    using tag_at_set[of c c' "ucast i" "HashToTag h" j] tok f
    by (simp add: c'_def set_tag_def table_ok_def first_with_def)
  have "tombstones c' = {}"
    using tomb by (auto simp: tombstones_def tag same_sizes_facts[OF ss'(1)])
  then have "rebuilt cfg c0 (Suc r) c'"
    using pl same_sizes_trans[OF ss ss'(1)] es cc
    by (simp add: rebuilt_def) (simp add: c'_def set_tag_def)
  with run show ?thesis by blast
qed

lemma index_step:
  assumes ty: "cfg_type cfg = Type_Index" and r: "r < unat (Count c0)" and c: "rebuilt cfg c0 r c"
  shows "returns_if (roomy (unat (Count c0)) c0) (rehash_index cfg r c) (rebuilt cfg c0 (Suc r))"
proof (cases "FindEmpty cfg c (cfg_hash cfg (ekey (ea.cell (entries c) r)))")
  case None
  let ?d = "c\<lparr>Count := of_nat r\<rparr>"
  have ur: "unat (of_nat r :: u32) = r" "unat (of_nat r :: u64) = r"
    using r unat_lt_2p(1)[of "Count c0"] by (simp_all add: unat_of_nat)
  have ok: "slots_ok cfg ?d" "tombstones c = {}" "cap c = cap c0"
    using c by (auto simp: rebuilt_def same_sizes_facts)
  have tok: "table_ok cfg ?d" by (rule slots_okD[OF ok(1)])
  have card: "card (live c) = r" using slots_okD(2)[OF ok(1)] ur by simp
  have "\<not> (15 < card {i. i < cap ?d \<and> tag_at ?d i = EMPTY} \<and> coprime 15 (cap ?d))"
    using FindEmpty_ends[OF tok, of "cfg_hash cfg (ekey (ea.cell (entries c) r))"] None by auto
  then have "\<not> roomy (unat (Count c0)) c0"
    using card_empty[OF tok] card ok r by (auto simp: roomy_def)
  moreover have "rehash_index cfg r c = diverge"
    using None ea.cell_get[of "entries c" "of_nat r"] ur by (simp add: rehash_index_def Let_def)
  ultimately show ?thesis by simp
next
  case (Some i)
  with index_step_found[OF assms] show ?thesis by auto
qed

lemma rehash_rebuilds:
  assumes ty: "cfg_type cfg = Type_Index" and sz: "sizes_ok (cfg_mode cfg) c"
    and tg: "ta_size (tags c) < Capacity c"
    and ri: "entries_ok (realIndex c)" "ea_len (realIndex c) = cap c"
  shows "returns_if (roomy (unat (Count c)) c) (RehashInternal cfg (Capacity c) c) (rebuilt cfg c (unat (Count c)))"
proof -
  define c1 where "c1 = c\<lparr>tags := fresh_tags (Capacity c)\<rparr>"
  have ss: "same_sizes c c1" by (simp add: c1_def)
  have "empty_table cfg (c1\<lparr>Count := 0\<rparr>)" using sz by (simp add: empty_table_def c1_def)
  note e = empty_table_facts[OF this]
  have "index_at c1 = index_at c" by (rule ext) (simp add: c1_def index_at_def)
  then have start: "rebuilt cfg c 0 c1"
    using e ri ss by (simp add: rebuilt_def bij_betw_def same_sizes_facts[OF ss]) (simp add: c1_def)
  have "returns_if (roomy (unat (Count c)) c) (run_fold (rehash_index cfg) [0..<unat (Count c)] c1)
      (rebuilt cfg c (unat (Count c)))"
    using start by (rule returns_if_fold) (rule index_step[OF ty])
  moreover have "fresh_tag_array cfg (Capacity c) c = ret c1"
    using fresh_tag_array_ret[OF sz tg] by (simp add: c1_def)
  ultimately show ?thesis using ty by (simp add: RehashInternal_def c1_def)
qed

end
