(* ===== verification/Sizing.thy ===== *)
theory Sizing
  imports Rehashing
begin

text \<open>
  The operations that change the size of a table: \<open>Resize\<close>, \<open>Rehash\<close>, \<open>Clear\<close>, the constructor and
  \<open>max_load_factor\<close>. Each keeps the invariant and, except for \<open>Clear\<close>, the contents.
\<close>

section \<open>The sizes of the same capacity\<close>

lemma InitCapacity_core [simp]:
  "entries (InitCapacity mode sz c) = entries c" "realIndex (InitCapacity mode sz c) = realIndex c"
  "tags (InitCapacity mode sz c) = tags c" "Count (InitCapacity mode sz c) = Count c"
  "load_limit (InitCapacity mode sz c) = load_limit c"
  by (simp_all add: InitCapacity_def max_load_factor_def Let_def)

lemma InitCapacity_same:
  assumes "sizes_ok mode s" "AdjustCapacity mode sz = Capacity s"
  shows "InitCapacity mode sz s = s"
  using assms
  by (cases s) (auto simp: InitCapacity_def max_load_factor_def Let_def sizes_ok_def limit_ok_def)

lemma sizes_ok_limits: "sizes_ok mode s \<Longrightarrow> MIN_LOAD_FACTOR \<le> load_limit s \<and> load_limit s \<le> MAX_LOAD_FACTOR"
  by (simp add: sizes_ok_def limit_ok_def)

lemma slot_entry_sizes [simp]: "slot_entry cfg (InitCapacity mode sz c) = slot_entry cfg c"
  by (rule ext) (simp add: slot_entry_def real_index_def)

section \<open>Growing the entry arrays\<close>

lemma page_round_cap: "cap_ok mode n \<Longrightarrow> page_round n = n"
proof -
  assume "cap_ok mode n"
  then obtain k where "n = 4096 * k" unfolding cap_ok_def by (auto elim: dvdE)
  then show ?thesis by (simp add: page_round_def)
qed

lemma grow_to_capacity:
  assumes "entries_ok a" "ea_len a < unat n" "cap_ok mode (unat n)"
  obtains b where "EntryArray_AdjustSize True raw n a = ret b" "entries_ok b" "ea_len b = unat n"
    "\<And>j. j < ea_len a \<Longrightarrow> ea.cell b j = ea.cell a j"
proof -
  have n: "unat n \<le> 2 ^ 31" using assms(3) by (simp add: cap_ok_def)
  obtain b where b: "EntryArray_AdjustSize True raw n a = ret b" "entries_ok b" "ea_len b = page_round (unat n)"
    by (rule AdjustSize_entries[OF assms(1,2) n, of raw]) blast
  then show thesis
    using that ea.cell_grow(3)[OF assms(1,2) n b(1)] page_round_cap[OF assms(3)] by simp
qed

section \<open>Resize\<close>

text \<open>What stays the same when a table is rehashed: the entries; for an index also their order.\<close>

definition same_entries :: "('k, 'v) config \<Rightarrow> ('k, 'v) core \<Rightarrow> ('k, 'v) core \<Rightarrow> bool" where
  "same_entries cfg c c' \<longleftrightarrow> contents cfg c' = contents cfg c \<and> Count c' = Count c
     \<and> (cfg_type cfg = Type_Index \<longrightarrow> index_entries c' = index_entries c)"

lemma same_entries_refl [simp]: "same_entries cfg c c"
  by (simp add: same_entries_def)

lemma store_ok_plain:
  "cfg_type cfg \<noteq> Type_Index \<Longrightarrow> store_ok cfg c \<longleftrightarrow> entries_ok (entries c) \<and> ea_len (entries c) = cap c"
  by (simp add: store_ok_def)

lemma store_ok_index:
  "cfg_type cfg = Type_Index \<Longrightarrow> store_ok cfg c \<longleftrightarrow> entries_ok (entries c) \<and> entries_ok (realIndex c)
     \<and> ea_len (realIndex c) = cap c \<and> unat (Count c) \<le> ea_len (entries c) \<and> ea_len (entries c) \<le> 2 ^ 31
     \<and> bij_betw (index_at c) (live c) {..<unat (Count c)}"
  by (simp add: store_ok_def)

lemma Count_le_cap: "slots_ok cfg c \<Longrightarrow> unat (Count c) \<le> cap c"
  using slots_okD(2) card_live_le by metis

lemma slots_ok_tags:
  assumes "slots_ok cfg c"
  shows "tags_ok (tags c)" "ta_size (tags c) = Capacity c" "sizes_ok (cfg_mode cfg) c"
  using slots_okD(1)[OF assms] by (auto simp: table_ok_def)

text \<open>The in-place rehash of a map or set whose entry array has the new size.\<close>

lemma rehash_plain:
  assumes ty: "cfg_type cfg \<noteq> Type_Index" and ok: "slots_ok cfg c"
    and d: "sizes_ok (cfg_mode cfg) d" "cap c \<le> cap d" "tags d = tags c" "Count d = Count c"
      "entries_ok (entries d)" "ea_len (entries d) = cap d"
      "\<And>j. j < cap c \<Longrightarrow> ea.cell (entries d) j = ea.cell (entries c) j"
  shows "returns_if (roomy (unat (Count c)) d) (RehashInternal cfg (Capacity d) d)
    (\<lambda>c'. core_ok cfg c' \<and> same_entries cfg c c' \<and> tombstones c' = {} \<and> same_sizes d c')"
proof -
  have tg: "tags_ok (tags c)" "ta_size (tags c) = Capacity c" by (rule slots_ok_tags[OF ok])+
  have pend: "pending (tags d) = live c" using pending_live[OF tg(2)] d(3) by simp
  have e: "slot_entry cfg d i = slot_entry cfg c i" if "i \<in> live c" for i
    using that d(7) by (simp add: slot_entry_plain[OF ty] live_def)
  have "\<forall>i \<in> pending (tags d). ta_bytes (tags d) ! i = tag_of cfg (slot_entry cfg d i)"
  proof
    fix i assume "i \<in> pending (tags d)"
    then have i: "i \<in> live c" by (simp add: pend)
    show "ta_bytes (tags d) ! i = tag_of cfg (slot_entry cfg d i)"
      using slots_okD(3)[OF ok i] e[OF i] by (simp add: d(3) tag_at_def tag_of_def slot_key_entry)
  qed
  moreover have "unat (Count d) = card (pending (tags d))" by (simp add: pend d(4) slots_okD(2)[OF ok])
  moreover have "tags_ok (tags d)" "unat (ta_size (tags d)) \<le> cap d" using tg d(2,3) by (auto simp: cap_def)
  ultimately have run: "returns_if (roomy (unat (Count c)) d) (RehashInternal cfg (Capacity d) d) (\<lambda>c'. arranged cfg c'
    \<and> contents cfg c' = image_mset (slot_entry cfg d) (mset_set (pending (tags d))) \<and> same_sizes d c'
    \<and> Count c' = Count d)"
    using rehash_in_place[OF ty d(1) _ _ d(5,6)] d(4) by auto
  have "image_mset (slot_entry cfg d) (mset_set (live c)) = contents cfg c"
    unfolding contents_def by (rule image_mset_cong) (simp add: e)
  with ty d(4) show ?thesis
    by (intro returns_if_mono[OF run]) (auto simp: pend same_entries_def core_ok_def arranged_def store_ok_plain)
qed

text \<open>The rebuilding of an index whose position array has the new size.\<close>

lemma rehash_index_ok:
  assumes ty: "cfg_type cfg = Type_Index" and ok: "slots_ok cfg c" "store_ok cfg c"
    and d: "sizes_ok (cfg_mode cfg) d" "cap c < cap d" "tags d = tags c" "Count d = Count c"
      "entries d = entries c" "entries_ok (realIndex d)" "ea_len (realIndex d) = cap d"
  shows "returns_if (roomy (unat (Count c)) d) (RehashInternal cfg (Capacity d) d)
    (\<lambda>c'. core_ok cfg c' \<and> same_entries cfg c c' \<and> tombstones c' = {} \<and> same_sizes d c')"
proof -
  have "ta_size (tags d) < Capacity d"
    using slots_ok_tags(2)[OF ok(1)] d(2,3) by (simp add: word_less_nat_alt cap_def)
  then have run: "returns_if (roomy (unat (Count c)) d) (RehashInternal cfg (Capacity d) d) (rebuilt cfg d (unat (Count d)))"
    using rehash_rebuilds[OF ty d(1) _ d(6,7)] d(4) by auto
  show ?thesis
  proof (rule returns_if_mono[OF run])
    fix c' assume c': "rebuilt cfg d (unat (Count d)) c'"
    then have f: "same_sizes d c'" "entries c' = entries c" "Count c' = Count c" "tombstones c' = {}"
        "entries_ok (realIndex c')" "ea_len (realIndex c') = cap c'"
        "bij_betw (index_at c') (live c') {..<unat (Count c')}"
      using d(4,5) by (auto simp: rebuilt_def)
    have "c'\<lparr>Count := of_nat (unat (Count d))\<rparr> = c'" using f(3) d(4) by simp
    then have s: "slots_ok cfg c'" using c' by (simp add: rebuilt_def)
    have ie: "index_entries c' = index_entries c" by (simp add: index_entries_def f(2,3))
    moreover have "contents cfg c' = contents cfg c"
      using index_contents[OF ty f(7)] index_contents[OF ty, of c] ok(2) ie
      by (simp add: store_ok_index[OF ty])
    moreover have "store_ok cfg c'" using ok(2) f by (simp add: store_ok_index[OF ty])
    ultimately show "core_ok cfg c' \<and> same_entries cfg c c' \<and> tombstones c' = {} \<and> same_sizes d c'"
      using s f by (auto simp: core_ok_def same_entries_def)
  qed
qed

lemma store_ok_fresh:
  assumes "empty_table cfg c" "Count c = 0" "entries_ok (entries c)"
    "cfg_type cfg \<noteq> Type_Index \<Longrightarrow> ea_len (entries c) = cap c"
    "cfg_type cfg = Type_Index \<Longrightarrow> entries_ok (realIndex c) \<and> ea_len (realIndex c) = cap c
      \<and> ea_len (entries c) \<le> 2 ^ 31"
  shows "core_ok cfg c"
  using assms empty_table_facts[OF assms(1)]
  by (auto simp: core_ok_def store_ok_def bij_betw_def)

text \<open>The arrays before a resize: as in a table, or as in one that was cleared or is new.\<close>

definition store_below :: "('k, 'v) config \<Rightarrow> nat \<Rightarrow> ('k, 'v) core \<Rightarrow> bool" where
  "store_below cfg n c \<longleftrightarrow> entries_ok (entries c)
     \<and> (if cfg_type cfg = Type_Index
        then entries_ok (realIndex c) \<and> ea_len (realIndex c) < n \<and> ea_len (entries c) \<le> 2 ^ 31
        else ea_len (entries c) < n)"

lemma adjust_entries_ret:
  assumes "sizes_ok (cfg_mode cfg) c" "store_below cfg (cap c) c"
  obtains d where "adjust_entries cfg c = ret d" "same_sizes c d" "tags d = tags c" "Count d = Count c"
    "entries_ok (entries d)"
    "cfg_type cfg \<noteq> Type_Index \<Longrightarrow> ea_len (entries d) = cap d
       \<and> (\<forall>j < ea_len (entries c). ea.cell (entries d) j = ea.cell (entries c) j)"
    "cfg_type cfg = Type_Index \<Longrightarrow> entries d = entries c \<and> entries_ok (realIndex d)
       \<and> ea_len (realIndex d) = cap d"
proof -
  have c: "cap_ok (cfg_mode cfg) (unat (Capacity c))" using assms(1) by (simp add: sizes_ok_def)
  show thesis
  proof (cases "cfg_type cfg = Type_Index")
    case True
    then have "entries_ok (realIndex c)" "ea_len (realIndex c) < unat (Capacity c)"
      using assms(2) by (auto simp: store_below_def cap_def)
    then obtain b where b: "EntryArray_AdjustSize True (cfg_raw_index cfg) (Capacity c) (realIndex c) = ret b"
      "entries_ok b" "ea_len b = unat (Capacity c)"
      by (rule grow_to_capacity[OF _ _ c, of _ "cfg_raw_index cfg"]) blast
    with True assms(2) show thesis
      by (intro that[of "c\<lparr>realIndex := b\<rparr>"])
        (auto simp: adjust_entries_def store_below_def cap_def)
  next
    case False
    then have "entries_ok (entries c)" "ea_len (entries c) < unat (Capacity c)"
      using assms(2) by (auto simp: store_below_def cap_def)
    then obtain b where b: "EntryArray_AdjustSize True (cfg_raw cfg) (Capacity c) (entries c) = ret b"
      "entries_ok b" "ea_len b = unat (Capacity c)"
      "\<And>j. j < ea_len (entries c) \<Longrightarrow> ea.cell b j = ea.cell (entries c) j"
      by (rule grow_to_capacity[OF _ _ c, of _ "cfg_raw cfg"]) blast
    with False assms(2) show thesis
      by (intro that[of "c\<lparr>entries := b\<rparr>"])
        (auto simp: adjust_entries_def store_below_def cap_def)
  qed
qed

text \<open>A table that has no slots yet gets fresh ones.\<close>

lemma Resize_from_nothing:
  assumes c: "Capacity c = 0" "Count c = 0" "ta_size (tags c) = 0"
    "MIN_LOAD_FACTOR \<le> load_limit c" "load_limit c \<le> MAX_LOAD_FACTOR"
    and st: "store_below cfg (unat (AdjustCapacity (cfg_mode cfg) sz)) c"
  shows "\<exists>c'. Resize cfg sz c = ret c' \<and> core_ok cfg c' \<and> empty_table cfg c' \<and> Count c' = 0
    \<and> Capacity c' = AdjustCapacity (cfg_mode cfg) sz \<and> load_limit c' = load_limit c"
proof -
  let ?C = "AdjustCapacity (cfg_mode cfg) sz" and ?d = "InitCapacity (cfg_mode cfg) sz c"
  have d: "sizes_ok (cfg_mode cfg) ?d" by (rule InitCapacity_sizes_ok[OF c(4,5)])
  have pos: "0 < ?C" using AdjustCapacity_cap_ok[of "cfg_mode cfg" sz] by (auto simp: cap_ok_def word_less_nat_alt)
  have "store_below cfg (cap ?d) ?d"
    using st by (simp add: store_below_def cap_def split: if_splits)
  then obtain e where e: "adjust_entries cfg ?d = ret e" "same_sizes ?d e" "tags e = tags ?d" "Count e = Count ?d"
    "entries_ok (entries e)" "cfg_type cfg \<noteq> Type_Index \<Longrightarrow> ea_len (entries e) = cap e"
    "cfg_type cfg = Type_Index \<Longrightarrow> entries e = entries ?d \<and> entries_ok (realIndex e) \<and> ea_len (realIndex e) = cap e"
    by (rule adjust_entries_ret[OF d]) blast
  have se: "sizes_ok (cfg_mode cfg) e" using d by (simp add: same_sizes_facts[OF e(2)])
  have Ce: "Capacity e = ?C" using e(2) by (simp add: same_sizes_def)
  define c' where "c' = e\<lparr>tags := fresh_tags (Capacity e)\<rparr>"
  have f: "fresh_tag_array cfg (Capacity e) e = ret c'"
    unfolding c'_def using e(3) c(3) Ce pos by (intro fresh_tag_array_ret[OF se]) simp
  have emp: "empty_table cfg c'" using se by (simp add: empty_table_def c'_def)
  have "core_ok cfg c'"
    using e c(2) st by (intro store_ok_fresh[OF emp]) (auto simp: c'_def store_below_def split: if_splits)
  moreover have "Resize cfg sz c = ret c'"
    using e(1,4) c pos f Ce by (simp add: Resize_def Let_def)
  ultimately show ?thesis
    using emp e(2,4) c(2) Ce by (auto simp: c'_def same_sizes_def)
qed

text \<open>Nothing happens when the capacity would not grow.\<close>

lemma Resize_smaller:
  "AdjustCapacity (cfg_mode cfg) sz < Capacity c \<Longrightarrow> Resize cfg sz c = ret c"
  by (simp add: Resize_def)

lemma Resize_equal:
  assumes "slots_ok cfg c" "AdjustCapacity (cfg_mode cfg) sz = Capacity c"
    "cfg_mode cfg = ResizeOnlyEmpty \<Longrightarrow> Count c = 0"
  shows "Resize cfg sz c = ret c"
proof -
  have "sizes_ok (cfg_mode cfg) c" "ta_size (tags c) = Capacity c" by (rule slots_ok_tags[OF assms(1)])+
  then show ?thesis using assms(2,3) InitCapacity_same[of "cfg_mode cfg" c sz] by (simp add: Resize_def Let_def)
qed

text \<open>The assertion of \<open>Mode::ResizeOnlyEmpty\<close>.\<close>

lemma Resize_only_empty_aborts:
  assumes "cfg_mode cfg = ResizeOnlyEmpty" "Count c \<noteq> 0" "Capacity c \<le> AdjustCapacity (cfg_mode cfg) sz"
  shows "Resize cfg sz c = abort Resize_only_empty"
  using assms by (simp add: Resize_def not_less[symmetric])

lemma Resize_outcome:
  assumes ok: "core_ok cfg c" and gr: "Capacity c < AdjustCapacity (cfg_mode cfg) sz"
    and only: "cfg_mode cfg = ResizeOnlyEmpty \<Longrightarrow> Count c = 0"
  shows "returns_if (Count c \<noteq> 0 \<longrightarrow> coprime 15 (unat (AdjustCapacity (cfg_mode cfg) sz))) (Resize cfg sz c)
    (\<lambda>c'. core_ok cfg c' \<and> same_entries cfg c c' \<and> tombstones c' = {}
      \<and> Capacity c' = AdjustCapacity (cfg_mode cfg) sz \<and> load_limit c' = load_limit c)"
proof -
  let ?C = "AdjustCapacity (cfg_mode cfg) sz" and ?d = "InitCapacity (cfg_mode cfg) sz c"
  have so: "slots_ok cfg c" and st: "store_ok cfg c" using ok by (auto simp: core_ok_def)
  have tg: "ta_size (tags c) = Capacity c" and sz: "sizes_ok (cfg_mode cfg) c" by (rule slots_ok_tags[OF so])+
  have d: "sizes_ok (cfg_mode cfg) ?d"
    using sizes_ok_limits[OF sz] by (intro InitCapacity_sizes_ok) auto
  have capd: "cap ?d = unat ?C" by (simp add: cap_def)
  have lt: "cap c < unat ?C" using gr by (simp add: cap_def word_less_nat_alt)
  have "store_below cfg (cap ?d) ?d" using st lt by (auto simp: store_below_def store_ok_def capd)
  then obtain e where e: "adjust_entries cfg ?d = ret e" "same_sizes ?d e" "tags e = tags ?d" "Count e = Count ?d"
    "entries_ok (entries e)"
    "cfg_type cfg \<noteq> Type_Index \<Longrightarrow> ea_len (entries e) = cap e
       \<and> (\<forall>j < ea_len (entries ?d). ea.cell (entries e) j = ea.cell (entries ?d) j)"
    "cfg_type cfg = Type_Index \<Longrightarrow> entries e = entries ?d \<and> entries_ok (realIndex e) \<and> ea_len (realIndex e) = cap e"
    by (rule adjust_entries_ret[OF d]) blast
  have se: "sizes_ok (cfg_mode cfg) e" using d by (simp add: same_sizes_facts[OF e(2)])
  have Ce: "Capacity e = ?C" "load_limit e = load_limit c" using e(2) by (auto simp: same_sizes_def)
  then have cape: "cap e = unat ?C" by (simp add: cap_def)
  have run: "Resize cfg sz c = (if Count c = 0 then fresh_tag_array cfg (Capacity e) e
      else RehashInternal cfg (Capacity e) e)"
    using gr only tg e(1,4) Ce by (auto simp: Resize_def Let_def)
  show ?thesis
  proof (cases "Count c = 0")
    case True
    then have lv: "live c = {}" using slots_okD(2)[OF so] by simp
    define c' where "c' = e\<lparr>tags := fresh_tags (Capacity e)\<rparr>"
    have f: "fresh_tag_array cfg (Capacity e) e = ret c'"
      unfolding c'_def using e(3) tg Ce gr by (intro fresh_tag_array_ret[OF se]) simp
    have emp: "empty_table cfg c'" using se by (simp add: empty_table_def c'_def)
    have "core_ok cfg c'"
      using e True st by (intro store_ok_fresh[OF emp]) (auto simp: c'_def store_ok_def)
    moreover have "same_entries cfg c c'"
      using empty_table_facts(4)[OF emp] lv e(4) True
      by (simp add: same_entries_def contents_def index_entries_def c'_def)
    ultimately show ?thesis
      using run f True Ce empty_table_facts(3)[OF emp] by (auto simp: c'_def)
  next
    case False
    have big: "4096 dvd cap c" "4096 dvd unat ?C"
      using sz AdjustCapacity_cap_ok[of "cfg_mode cfg" sz] by (auto simp: sizes_ok_def cap_ok_def cap_def)
    then have "cap c + 4096 \<le> unat ?C" using lt by (auto elim!: dvdE)
    then have room: "unat (Count c) + 16 \<le> cap e" using Count_le_cap[OF so] cape by simp
    then have room: "roomy (unat (Count c)) e \<longleftrightarrow> coprime 15 (unat ?C)" by (simp add: roomy_def cape)
    have "returns_if (roomy (unat (Count c)) e) (RehashInternal cfg (Capacity e) e)
        (\<lambda>c'. core_ok cfg c' \<and> same_entries cfg c c' \<and> tombstones c' = {} \<and> same_sizes e c')"
    proof (cases "cfg_type cfg = Type_Index")
      case True
      then show ?thesis
        using e lt cape by (intro rehash_index_ok[OF True so st se]) auto
    next
      case False
      then have "ea_len (entries c) = cap c" using st by (simp add: store_ok_plain)
      then show ?thesis
        using e lt cape False by (intro rehash_plain[OF False so se]) auto
    qed
    with run False Ce room show ?thesis by (auto simp: same_sizes_def elim!: returns_if_mono)
  qed
qed

lemma Resize_grows:
  assumes ok: "core_ok cfg c" and gr: "Capacity c < AdjustCapacity (cfg_mode cfg) sz"
    and only: "cfg_mode cfg = ResizeOnlyEmpty \<Longrightarrow> Count c = 0"
    and co: "Count c \<noteq> 0 \<Longrightarrow> coprime 15 (unat (AdjustCapacity (cfg_mode cfg) sz))"
  shows "\<exists>c'. Resize cfg sz c = ret c' \<and> core_ok cfg c' \<and> same_entries cfg c c' \<and> tombstones c' = {}
    \<and> Capacity c' = AdjustCapacity (cfg_mode cfg) sz \<and> load_limit c' = load_limit c"
  using returns_ifD(2)[OF Resize_outcome[OF ok gr only]] co by blast

section \<open>Rehash, Clear, the constructor\<close>

lemma Rehash_zero: "Count c = 0 \<Longrightarrow> Rehash cfg c = ret c"
  by (simp add: Rehash_def)

text \<open>\<open>Rehash\<close> (of maps and sets that are not empty) reclaims the tombstones, if it returns.\<close>

lemma Rehash_outcome:
  assumes ok: "core_ok cfg c" and ty: "cfg_type cfg \<noteq> Type_Index" and nz: "Count c \<noteq> 0"
  shows "returns_if (roomy (unat (Count c)) c) (Rehash cfg c)
    (\<lambda>c'. core_ok cfg c' \<and> same_entries cfg c c' \<and> tombstones c' = {} \<and> same_sizes c c')"
proof -
  have so: "slots_ok cfg c" and st: "store_ok cfg c" using ok by (auto simp: core_ok_def)
  have tg: "ta_size (tags c) = Capacity c" and sz: "sizes_ok (cfg_mode cfg) c" by (rule slots_ok_tags[OF so])+
  have "entries_ok (entries c)" "ea_len (entries c) = cap c" using st by (auto simp: store_ok_plain[OF ty])
  then show ?thesis
    using rehash_plain[OF ty so sz] nz tg by (simp add: Rehash_def)
qed

lemma Rehash_ok:
  assumes ok: "core_ok cfg c" and ty: "cfg_type cfg \<noteq> Type_Index" and nz: "Count c \<noteq> 0"
    and room: "unat (Count c) + 16 \<le> cap c" "coprime 15 (cap c)"
  shows "\<exists>c'. Rehash cfg c = ret c' \<and> core_ok cfg c' \<and> same_entries cfg c c' \<and> tombstones c' = {}
    \<and> same_sizes c c'"
  using returns_ifD(2)[OF Rehash_outcome[OF ok ty nz]] room by (simp add: roomy_def)

lemma max_load_factor_core [simp]:
  "entries (max_load_factor mlf c) = entries c" "realIndex (max_load_factor mlf c) = realIndex c"
  "tags (max_load_factor mlf c) = tags c" "Count (max_load_factor mlf c) = Count c"
  by (simp_all add: max_load_factor_def Let_def)

text \<open>A new table is an empty table, whatever the uninitialised members were.\<close>

lemma Core_new_ok:
  "\<exists>c. Core_new cfg c0 = ret c \<and> core_ok cfg c \<and> empty_table cfg c \<and> Count c = 0
    \<and> Capacity c = MIN_SIZE \<and> load_limit c = DEF_LOAD_FACTOR"
proof -
  let ?c = "c0\<lparr>Capacity := 0, load_limit := DEF_LOAD_FACTOR, tags := TagArray_new,
      entries := EntryArray_new, realIndex := EntryArray_new, Count := 0\<rparr>"
  have m: "AdjustCapacity (cfg_mode cfg) MIN_SIZE = MIN_SIZE" by (simp add: AdjustCapacity_def)
  have "store_below cfg (unat (AdjustCapacity (cfg_mode cfg) MIN_SIZE)) ?c"
    unfolding m by (simp add: store_below_def size_consts)
  moreover have "MIN_LOAD_FACTOR \<le> DEF_LOAD_FACTOR" "DEF_LOAD_FACTOR \<le> MAX_LOAD_FACTOR"
    by (simp_all add: load_factor_values)
  ultimately show ?thesis
    using Resize_from_nothing[of ?c cfg MIN_SIZE] m
    by (auto simp: Core_new_def TagArray_new_def)
qed

lemma Clear_same:
  assumes ok: "core_ok cfg c" and sz: "sz = 0 \<or> AdjustCapacity (cfg_mode cfg) sz = Capacity c"
  shows "\<exists>c'. Clear cfg sz c = ret c' \<and> core_ok cfg c' \<and> empty_table cfg c' \<and> Count c' = 0
    \<and> Capacity c' = Capacity c \<and> load_limit c' = load_limit c"
proof -
  have so: "slots_ok cfg c" and st: "store_ok cfg c" using ok by (auto simp: core_ok_def)
  note tg = slots_ok_tags[OF so]
  have "4096 dvd unat (Capacity c)" using tg(3) by (simp add: sizes_ok_def cap_ok_def)
  then have "unat (ta_size (tags c)) mod SIZE = 0" by (auto simp: tg(2) SIZE_def elim!: dvdE)
  then have init: "TagArray_Init False (tags c) = ret (fresh_tags (Capacity c))"
    using Init_fresh[OF tg(1)] tg(2) by simp
  define c' where "c' = c\<lparr>Count := 0, tags := fresh_tags (Capacity c)\<rparr>"
  have emp: "empty_table cfg c'" using tg(3) by (simp add: empty_table_def c'_def)
  have "core_ok cfg c'"
    using st by (intro store_ok_fresh[OF emp]) (auto simp: c'_def store_ok_def)
  moreover have "Clear cfg sz c = ret c'"
    using sz init by (auto simp: Clear_def Let_def c'_def)
  ultimately show ?thesis using emp by (auto simp: c'_def)
qed

lemma Clear_bigger:
  assumes ok: "core_ok cfg c" and sz: "0 < sz" "Capacity c < AdjustCapacity (cfg_mode cfg) sz"
  shows "\<exists>c'. Clear cfg sz c = ret c' \<and> core_ok cfg c' \<and> empty_table cfg c' \<and> Count c' = 0
    \<and> Capacity c' = AdjustCapacity (cfg_mode cfg) sz \<and> load_limit c' = load_limit c"
proof -
  have so: "slots_ok cfg c" and st: "store_ok cfg c" using ok by (auto simp: core_ok_def)
  note tg = slots_ok_tags[OF so]
  let ?c = "c\<lparr>Count := 0, tags := TagArray_Clear (tags c), Capacity := 0\<rparr>"
  have "store_below cfg (unat (AdjustCapacity (cfg_mode cfg) sz)) ?c"
    using st sz(2) by (auto simp: store_below_def store_ok_def cap_def word_less_nat_alt)
  then show ?thesis
    using Resize_from_nothing[of ?c cfg sz] sizes_ok_limits[OF tg(3)] sz
    by (auto simp: Clear_def Let_def TagArray_Clear_def)
qed

text \<open>A smaller size is not possible: the entry array cannot shrink.\<close>

lemma Clear_smaller:
  assumes ok: "core_ok cfg c" and sz: "0 < sz" "AdjustCapacity (cfg_mode cfg) sz < Capacity c"
  shows "Clear cfg sz c = abort Entry_size_grows"
proof -
  have so: "slots_ok cfg c" and st: "store_ok cfg c" using ok by (auto simp: core_ok_def)
  let ?C = "AdjustCapacity (cfg_mode cfg) sz"
  let ?d = "InitCapacity (cfg_mode cfg) sz (c\<lparr>Count := 0, tags := TagArray_Clear (tags c), Capacity := 0\<rparr>)"
  have C: "cap_ok (cfg_mode cfg) (unat ?C)" by (rule AdjustCapacity_cap_ok)
  then have b: "unat ?C \<le> 2 ^ 31" "0 < ?C" by (auto simp: cap_ok_def word_less_nat_alt)
  have "page_round (unat ?C) \<le> cap c"
    using page_round_cap[OF C] sz(2) by (simp add: cap_def word_less_nat_alt)
  then have "adjust_entries cfg ?d = abort Entry_size_grows"
    using st
    by (auto simp: adjust_entries_def store_ok_def AdjustSize_shrink_entries[OF b(1)] split: if_splits)
  with sz b(2) show ?thesis
    by (auto simp: Clear_def Resize_def Let_def TagArray_Clear_def)
qed

end
