(* ===== verification/Operations.thy ===== *)
theory Operations
  imports Sizing
begin

text \<open>
  Lookup, \<open>Remove\<close> and \<open>Add\<close> on tables that satisfy the invariant, in terms of the contents. The
  statements about completeness are for \<open>bFix = false\<close>: with \<open>bFix\<close> a lookup can pass over a slot.
\<close>

section \<open>Lookup\<close>

text \<open>A lookup gives a slot only for a key of the table, and nothing only for other keys.\<close>

lemma FindSlot_correct:
  assumes ok: "slots_ok cfg c" and nofix: "\<not> cfg_fix cfg" and r: "FindSlot cfg c k = Some r"
  shows "r \<noteq> None \<longleftrightarrow> k \<in># keys_of cfg c"
    "r = Some s \<Longrightarrow> unat s \<in> live c \<and> slot_key cfg c (unat s) = k"
proof -
  note tok = slots_okD(1)[OF ok]
  have hit: "unat s \<in> live c \<and> slot_key cfg c (unat s) = k" if "r = Some s" for s
    using FindSlot_found[OF tok, of k s] r that by (simp add: key_slot_iff[OF ok])
  have miss: "k \<notin># keys_of cfg c" if "r = None"
  proof
    assume "k \<in># keys_of cfg c"
    then obtain i where i: "i \<in> live c" "slot_key cfg c i = k" by (auto simp: in_keys_iff)
    then have "key_slot cfg c k i" by (simp add: key_slot_iff[OF ok])
    moreover have "reachable_slot cfg c (cfg_hash cfg k) i" using slots_okD(4)[OF ok i(1)] i(2) by simp
    ultimately show False using FindSlot_absent[OF tok nofix] r that by blast
  qed
  show "r = Some s \<Longrightarrow> unat s \<in> live c \<and> slot_key cfg c (unat s) = k" by (rule hit)
  show "r \<noteq> None \<longleftrightarrow> k \<in># keys_of cfg c"
    using hit miss by (cases r) (auto simp: in_keys_iff)
qed

text \<open>A lookup ends if 16 slots are empty.\<close>

definition searchable :: "('k, 'v) core \<Rightarrow> bool" where
  "searchable c \<longleftrightarrow> coprime 15 (cap c) \<and> card (live c) + card (tombstones c) + 16 \<le> cap c"

lemma FindSlot_total:
  assumes "slots_ok cfg c" "searchable c"
  obtains r where "FindSlot cfg c k = Some r"
proof -
  note tok = slots_okD(1)[OF assms(1)]
  have "15 < card {i. i < cap c \<and> tag_at c i = EMPTY}"
    using assms(2) card_empty[OF tok] unfolding searchable_def by linarith
  then show thesis using FindSlot_ends[OF tok] assms(2) that by (auto simp: searchable_def)
qed

lemma Contains_FindSlot: "Contains cfg c k = map_option (\<lambda>r. r \<noteq> None) (FindSlot cfg c k)"
  by (simp add: Contains_def FindEntry_def option.map_comp comp_def)

section \<open>Remove\<close>

definition removed :: "('k, 'v) config \<Rightarrow> 'k \<Rightarrow> ('k, 'v) core \<Rightarrow> ('k, 'v) core \<Rightarrow> bool" where
  "removed cfg k c c' \<longleftrightarrow> core_ok cfg c' \<and> same_sizes c c' \<and> Count c' = Count c - 1
     \<and> (\<exists>e. e \<in># contents cfg c \<and> ekey e = k \<and> contents cfg c' = contents cfg c - {#e#})
     \<and> card (tombstones c') = card (tombstones c) + 1"

lemma Remove_slot:
  assumes ty: "cfg_type cfg \<noteq> Type_Index" and ok: "core_ok cfg c"
    and s: "unat s \<in> live c" "slot_key cfg c (unat s) = k"
  shows "removed cfg k c (c\<lparr>tags := TagArray_set (tags c) s TOMBSTONE, Count := Count c - 1\<rparr>)"
proof -
  let ?c = "c\<lparr>tags := TagArray_set (tags c) s TOMBSTONE, Count := Count c - 1\<rparr>"
  have so: "slots_ok cfg c" and st: "store_ok cfg c" using ok by (auto simp: core_ok_def)
  have ss: "same_sizes c ?c" by (simp add: same_sizes_def)
  have "slot_entry cfg ?c = slot_entry cfg c"
    by (intro ext) (simp add: slot_entry_plain[OF ty])
  then have b: "slots_ok cfg ?c" "contents cfg ?c = contents cfg c - {#slot_entry cfg c (unat s)#}"
    using bury_slots_ok[OF so ss s(1)] by simp_all
  have lt: "unat s < cap c" using s(1) by (simp add: live_def)
  have "tag_at ?c i = (if i = unat s then TOMBSTONE else tag_at c i)" for i
    using tag_at_set[of c ?c s TOMBSTONE i] slots_ok_tags[OF so] lt by simp
  then have "tombstones ?c = insert (unat s) (tombstones c)" "unat s \<notin> tombstones c"
    using lt s(1) by (auto simp: tombstones_def live_def same_sizes_facts(1)[OF ss])
  moreover have "finite (tombstones c)" by (simp add: tombstones_def)
  moreover have "core_ok cfg ?c" using b(1) st by (simp add: core_ok_def store_ok_plain[OF ty])
  ultimately show ?thesis
    using b(2) ss slot_in_contents[OF s(1), of cfg] s(2)
    by (auto simp: removed_def slot_key_entry)
qed

text \<open>\<open>Remove\<close> takes out one entry with the key, if there is one.\<close>

lemma Remove_correct:
  assumes ty: "cfg_type cfg \<noteq> Type_Index" and ok: "core_ok cfg c" and nofix: "\<not> cfg_fix cfg"
    and r: "Remove cfg c k = Some (b, c')"
  shows "b \<longleftrightarrow> k \<in># keys_of cfg c" "b \<Longrightarrow> removed cfg k c c'" "\<not> b \<Longrightarrow> c' = c"
proof -
  have so: "slots_ok cfg c" by (rule core_okD[OF ok])
  obtain q where q: "FindSlot cfg c k = Some q"
    using r by (auto simp: Remove_def FindEntry_def)
  note f = FindSlot_correct[OF so nofix q]
  have rem: "(b, c') = (case q of None \<Rightarrow> (False, c) | Some s \<Rightarrow>
      (True, c\<lparr>tags := TagArray_set (tags c) s TOMBSTONE, Count := Count c - 1\<rparr>))"
    using r ty by (simp add: Remove_def FindEntry_def q real_index_def split: option.splits)
  then show "b \<longleftrightarrow> k \<in># keys_of cfg c" using f(1) by (auto split: option.splits)
  show "b \<Longrightarrow> removed cfg k c c'"
    using rem f(2) Remove_slot[OF ty ok] by (auto split: option.splits)
  show "\<not> b \<Longrightarrow> c' = c" using rem by (auto split: option.splits)
qed

lemma removed_keys: "removed cfg k c c' \<Longrightarrow> keys_of cfg c' = keys_of cfg c - {#k#} \<and> k \<in># keys_of cfg c"
  by (auto simp: removed_def keys_of_def image_mset_Diff)

section \<open>Add: what it sees\<close>

text \<open>\<open>Add\<close> sees a key in a slot no later on its path than the first group with a free slot.\<close>

definition visible :: "('k, 'v) config \<Rightarrow> ('k, 'v) core \<Rightarrow> 'k \<Rightarrow> bool" where
  "visible cfg c k \<longleftrightarrow> (\<exists>i. key_slot cfg c k i \<and> before_free cfg c (cfg_hash cfg k) i)"

lemma visible_in_keys: "slots_ok cfg c \<Longrightarrow> visible cfg c k \<Longrightarrow> k \<in># keys_of cfg c"
  by (auto simp: visible_def in_keys_key_slot)

text \<open>Without tombstones it sees every key.\<close>

lemma visible_iff:
  assumes ok: "slots_ok cfg c" and t: "tombstones c = {}"
  shows "visible cfg c k \<longleftrightarrow> k \<in># keys_of cfg c"
proof
  assume "k \<in># keys_of cfg c"
  then obtain i where i: "i \<in> live c" "slot_key cfg c i = k" by (auto simp: in_keys_iff)
  have free: "is_free (tag_at c j) \<longleftrightarrow> tag_at c j = EMPTY" if "j < cap c" for j
    using t that by (auto simp: tombstones_def is_free_def)
  have "reachable_slot cfg c (cfg_hash cfg k) i" using slots_okD(4)[OF ok i(1)] i(2) by simp
  then have "before_free cfg c (cfg_hash cfg k) i"
    unfolding reachable_slot_group_at before_free_def using free group_at_less by blast
  moreover have "key_slot cfg c k i" using i by (simp add: key_slot_iff[OF ok])
  ultimately show "visible cfg c k" by (auto simp: visible_def)
qed (rule visible_in_keys[OF ok])

text \<open>A new entry in the first free slot of its key is seen, and hides no other entry.\<close>

lemma place_visible:
  assumes ok: "slots_ok cfg c" and ss: "same_sizes c c'"
    and s: "first_with cfg c (cfg_hash cfg (ekey e)) is_free (unat s)"
    and tags: "tags c' = TagArray_set (tags c) s (HashToTag (cfg_hash cfg (ekey e)))"
    and count: "Count c' = Count c + 1"
    and here: "slot_entry cfg c' (unat s) = e"
    and others: "\<And>i. i \<in> live c \<Longrightarrow> slot_entry cfg c' i = slot_entry cfg c i"
  shows "visible cfg c' (ekey e)" "visible cfg c k \<Longrightarrow> visible cfg c' k"
proof -
  let ?t = "HashToTag (cfg_hash cfg (ekey e))"
  note pl = place_slots_ok[OF ok ss s is_free_simps(1) _ tags count here others, simplified]
  have tok: "table_ok cfg c" by (rule slots_okD[OF ok])
  have lt: "unat s < cap c" using s by (simp add: first_with_def)
  have tag: "tag_at c' i = (if i = unat s then ?t else tag_at c i)" for i
    using tag_at_set[of c c' s ?t i] tok tags lt by (auto simp: table_ok_def)
  have free: "\<not> is_free (tag_at c' j)" if "\<not> is_free (tag_at c j)" for j
    using that full_not_free[OF HashToTag_full] by (simp add: tag)
  have bf: "before_free cfg c' h i" if "before_free cfg c h i" for h i
    using that free unfolding before_free_def same_sizes_facts[OF ss] by blast
  have key: "key_slot cfg c' x i \<longleftrightarrow> i \<in> live c' \<and> ekey (slot_entry cfg c' i) = x" for x i
    by (simp add: key_slot_iff[OF pl(1)] slot_key_entry)
  have "before_free cfg c (cfg_hash cfg (ekey e)) (unat s)" using s by (auto simp: first_with_def before_free_def)
  moreover have "key_slot cfg c' (ekey e) (unat s)" unfolding key using here pl(3) by simp
  ultimately show "visible cfg c' (ekey e)" using bf by (auto simp: visible_def)
  assume "visible cfg c k"
  then obtain i where i: "key_slot cfg c k i" "before_free cfg c (cfg_hash cfg k) i" by (auto simp: visible_def)
  then have "i \<in> live c" "ekey (slot_entry cfg c i) = k" by (auto simp: key_slot_iff[OF ok] slot_key_entry)
  then have "key_slot cfg c' k i" unfolding key using others pl(3) by auto
  with bf[OF i(2)] show "visible cfg c' k" by (auto simp: visible_def)
qed

section \<open>Add: the new entry\<close>

definition added :: "('k, 'v) config \<Rightarrow> ('k, 'v) entry \<Rightarrow> ('k, 'v) core \<Rightarrow> ('k, 'v) core \<Rightarrow> bool" where
  "added cfg e c c' \<longleftrightarrow> core_ok cfg c' \<and> contents cfg c' = add_mset e (contents cfg c)
     \<and> Count c' = Count c + 1 \<and> card (tombstones c') \<le> card (tombstones c)
     \<and> (cfg_type cfg = Type_Index \<longrightarrow> index_entries c' = index_entries c @ [e])
     \<and> load_limit c' = load_limit c
     \<and> visible cfg c' (ekey e) \<and> (\<forall>k. visible cfg c k \<longrightarrow> visible cfg c' k)"

lemma free_below_cap:
  assumes "slots_ok cfg c" "first_with cfg c h is_free (unat s)"
  shows "unat s < cap c" "card (live c) < cap c" "unat (Count c + 1) = unat (Count c) + 1"
proof -
  show lt: "unat s < cap c" using assms(2) by (simp add: first_with_def)
  have "unat s \<notin> live c" using assms(2) full_not_free by (auto simp: first_with_def live_def)
  with lt show less: "card (live c) < cap c"
    using psubset_card_mono[of "{..<cap c}" "live c"] by (auto simp: live_def)
  then have "unat (Count c) + unat (1 :: u32) < 2 ^ 32"
    using slots_okD(2)[OF assms(1)] table_ok_cap[OF slots_okD(1)[OF assms(1)]] by simp
  then show "unat (Count c + 1) = unat (Count c) + 1" by (simp add: unat_add_u32)
qed

text \<open>The value of a new entry: set from what was in the memory, by the caller's function.\<close>

definition new_entry :: "('k, 'v) config \<Rightarrow> ('v \<Rightarrow> 'v) \<Rightarrow> 'k \<Rightarrow> 'v \<Rightarrow> ('k, 'v) entry" where
  "new_entry cfg f k v = Entry k (if cfg_type cfg = Type_Map then f v else v)"

lemma add_entry_plain:
  assumes ty: "cfg_type cfg \<noteq> Type_Index" and ok: "core_ok cfg c"
    and s: "first_with cfg c (cfg_hash cfg k) is_free (unat s)"
  defines "c1 \<equiv> set_tag s (HashToTag (cfg_hash cfg k)) c"
  shows "\<exists>c2 v. add_entry cfg bUpdate f k c1 s = ret (None, c2)
    \<and> added cfg (new_entry cfg f k v) c (c2\<lparr>Count := Count c2 + 1\<rparr>)
    \<and> same_sizes c c2 \<and> Count c2 = Count c"
proof -
  have so: "slots_ok cfg c" and st: "store_ok cfg c" using ok by (auto simp: core_ok_def)
  have es: "entries_ok (entries c)" "ea_len (entries c) = cap c" using st by (auto simp: store_ok_plain[OF ty])
  note lt = free_below_cap[OF so s]
  define v where "v = evalue (EntryArray_get (entries c) s)"
  define e where "e = new_entry cfg f k v"
  define c2 where "c2 = set_entry s e c1"
  let ?c = "c2\<lparr>Count := Count c2 + 1\<rparr>"
  have run: "add_entry cfg bUpdate f k c1 s = ret (None, c2)"
    using ty by (cases "cfg_type cfg")
      (simp_all add: add_entry_def c2_def e_def new_entry_def v_def c1_def set_tag_def)
  have ss: "same_sizes c ?c" "same_sizes c c2" by (simp_all add: c2_def c1_def set_tag_def set_entry_def same_sizes_def)
  have key: "ekey e = k" by (simp add: e_def new_entry_def)
  have fields: "tags ?c = TagArray_set (tags c) s (HashToTag (cfg_hash cfg (ekey e)))" "Count ?c = Count c + 1"
    "entries ?c = EntryArray_set (entries c) s e"
    by (simp_all add: c2_def c1_def set_tag_def set_entry_def key)
  have cell: "slot_entry cfg ?c i = (if i = unat s then e else slot_entry cfg c i)" if "i < cap c" for i
    using ea.cell_set[OF es(1), of s i e] es(2) lt(1) that table_ok_cap[OF slots_okD(1)[OF so]]
    unfolding slot_entry_plain[OF ty] fields(3) by auto
  have "unat s \<notin> live c" using s full_not_free by (auto simp: first_with_def live_def)
  then have nl: "slot_entry cfg ?c i = slot_entry cfg c i" if "i \<in> live c" for i
    using that cell[of i] by (auto simp: live_def)
  have here: "slot_entry cfg ?c (unat s) = e" using cell[OF lt(1)] by (simp only: if_True refl)
  note pl = place_slots_ok[OF so ss(1) s[folded key] is_free_simps(1) _ fields(1,2) here nl, simplified]
  note vis = place_visible[OF so ss(1) s[folded key] fields(1,2) here nl, simplified]
  have "entries_ok (entries ?c)" "ea_len (entries ?c) = cap ?c"
    using ea.ok_set[OF es(1), of s e] lt(1) es(2) same_sizes_facts(1)[OF ss(1)]
    unfolding fields(3) ea.len_set by simp_all
  then have "added cfg e c ?c"
    using pl(1,2) fields(2) ty ss(2) vis
    by (simp add: added_def core_ok_def store_ok_plain[OF ty] pl(5) card_Diff1_le same_sizes_def)
  moreover have "Count c2 = Count c" by (simp add: c2_def c1_def set_tag_def set_entry_def)
  ultimately show ?thesis using run ss(2) unfolding e_def by blast
qed

lemma add_entry_index:
  assumes ty: "cfg_type cfg = Type_Index" and ok: "core_ok cfg c"
    and s: "first_with cfg c (cfg_hash cfg k) is_free (unat s)"
  defines "c1 \<equiv> set_tag s (HashToTag (cfg_hash cfg k)) c"
  shows "\<exists>c2 v. add_entry cfg bUpdate f k c1 s = ret (if bUpdate then Some (Count c) else None, c2)
    \<and> added cfg (new_entry cfg f k v) c (c2\<lparr>Count := Count c2 + 1\<rparr>)
    \<and> same_sizes c c2 \<and> Count c2 = Count c"
proof -
  have so: "slots_ok cfg c" and st: "store_ok cfg c" using ok by (auto simp: core_ok_def)
  note st' = st[unfolded store_ok_index[OF ty]]
  note lt = free_below_cap[OF so s]
  let ?r = "unat (Count c)"
  have cap: "cap c \<le> 2 ^ 31" using table_ok_cap[OF slots_okD(1)[OF so]] by simp
  have rc: "?r < cap c" using lt(2) slots_okD(2)[OF so] by simp
  have "\<exists>es. (if Count c = ea_size (entries c)
      then EntryArray_AdjustSize True (cfg_raw cfg) (Count c + 1) (entries c) else ret (entries c)) = ret es
    \<and> entries_ok es \<and> ?r < ea_len es \<and> ea_len es \<le> 2 ^ 31
    \<and> (\<forall>j < ?r. ea.cell es j = ea.cell (entries c) j)"
  proof (cases "Count c = ea_size (entries c)")
    case True
    then have len: "ea_len (entries c) = ?r" by (simp add: ea_len_def)
    have n: "ea_len (entries c) < unat (Count c + 1)" "unat (Count c + 1) \<le> 2 ^ 31"
      using lt(3) rc cap len by simp_all
    obtain es where g: "EntryArray_AdjustSize True (cfg_raw cfg) (Count c + 1) (entries c) = ret es"
      "entries_ok es" "ea_len es = page_round (unat (Count c + 1))"
      by (rule AdjustSize_entries[OF _ n, of "cfg_raw cfg"]) (use st' in auto)
    have "?r + 1 \<le> page_round (?r + 1)" by (rule page_round_ge)
    moreover have "page_round (?r + 1) \<le> 2 ^ 31"
    proof -
      have "(?r + 1 + 4095) div 4096 \<le> (2 ^ 31 + 4095) div 4096"
        using rc cap by (intro div_le_mono) simp
      then show ?thesis by (simp add: page_round_def)
    qed
    moreover have "\<forall>j < ?r. ea.cell es j = ea.cell (entries c) j"
      using ea.cell_grow(3)[OF _ n g(1)] st' len by auto
    ultimately show ?thesis using g True lt(3) by simp
  next
    case False
    then have "?r \<noteq> ea_len (entries c)" using unsigned_word_eqI unfolding ea_len_def by blast
    then have "?r < ea_len (entries c)" using st' by simp
    with False st' show ?thesis by simp
  qed
  then obtain es where es: "(if Count c = ea_size (entries c)
      then EntryArray_AdjustSize True (cfg_raw cfg) (Count c + 1) (entries c) else ret (entries c)) = ret es"
    "entries_ok es" "?r < ea_len es" "ea_len es \<le> 2 ^ 31" "\<forall>j < ?r. ea.cell es j = ea.cell (entries c) j"
    by blast
  define v where "v = evalue (EntryArray_get es (ucast (Count c)))"
  define e where "e = new_entry cfg f k v"
  have ee: "e = Entry k v" using ty by (simp add: e_def new_entry_def)
  define es' where "es' = EntryArray_set es (ucast (Count c)) e"
  define c2 where "c2 = c1\<lparr>realIndex := EntryArray_set (realIndex c) s (Count c), entries := es'\<rparr>"
  let ?c = "c2\<lparr>Count := Count c2 + 1\<rparr>"
  have run: "add_entry cfg bUpdate f k c1 s = ret (if bUpdate then Some (Count c) else None, c2)"
    using es(1) ty by (cases "Count c = ea_size (entries c)")
      (auto simp: add_entry_def c2_def c1_def set_tag_def Let_def es'_def ee v_def)
  have ss: "same_sizes c ?c" "same_sizes c c2" by (simp_all add: c2_def c1_def set_tag_def same_sizes_def)
  have fields: "tags ?c = TagArray_set (tags c) s (HashToTag (cfg_hash cfg (ekey e)))"
    "realIndex ?c = EntryArray_set (realIndex c) s (Count c)" "Count ?c = Count c + 1"
    "entries ?c = es'"
    by (simp_all add: c2_def c1_def set_tag_def ee)
  have cell: "ea.cell es' j = (if j = ?r then e else ea.cell es j)" if "j < ea_len es" for j
    using ea.cell_set[OF es(2), of "ucast (Count c)" j e] es(3,4) that by (auto simp: es'_def)
  have c_es: "ea.cell (entries ?c) j = ea.cell (entries c) j" if "j < ?r" for j
    using cell[of j] es(3,5) that by (simp add: fields(4))
  have c_r: "ea.cell (entries ?c) ?r = e" using cell[OF es(3)] by (simp add: fields(4))
  have s': "first_with cfg c (cfg_hash cfg (ekey e)) is_free (unat s)" using s by (simp add: ee)
  note pl = index_place[OF ty so _ _ _ refl refl s' _ _ ss(1) fields(1-3) c_es c_r]
  have pl': "slots_ok cfg ?c" "contents cfg ?c = add_mset e (contents cfg c)"
    "bij_betw (index_at ?c) (live ?c) {..<Suc ?r}" "entries_ok (realIndex ?c)" "ea_len (realIndex ?c) = cap ?c"
    "tombstones ?c = tombstones c - {unat s}"
    using pl st' by auto
  have "slot_entry cfg ?c (unat s) = e" "\<And>i. i \<in> live c \<Longrightarrow> slot_entry cfg ?c i = slot_entry cfg c i"
    using pl st' by auto
  note vis = place_visible[OF so ss(1) s' fields(1,3) this]
  have cnt: "unat (Count ?c) = Suc ?r" using lt(3) by (simp only: fields(3) Suc_eq_plus1)
  have "entries_ok es'" "ea_len es' = ea_len es"
    using ea.ok_set[OF es(2), of "ucast (Count c)" e] es(3) by (auto simp: es'_def ea.len_set)
  then have "store_ok cfg ?c"
    unfolding store_ok_index[OF ty] cnt fields(4) using pl' es(3,4) by simp
  moreover have "index_entries ?c = index_entries c @ [e]"
    unfolding index_entries_def cnt using c_es c_r by simp
  ultimately have "added cfg e c ?c"
    using pl'(1,2) fields(3) ss(1) vis unfolding added_def core_ok_def pl'(6)
    by (simp add: card_Diff1_le same_sizes_def)
  moreover have "Count c2 = Count c" by (simp add: c2_def c1_def set_tag_def set_entry_def)
  ultimately show ?thesis using run ss(2) unfolding e_def by blast
qed

section \<open>Add: the key that is there\<close>

lemma AddSlot_kind:
  assumes ok: "slots_ok cfg c" and nofix: "\<not> cfg_fix cfg" and r: "AddSlot cfg bUnique c k = Some r"
  shows "r = Inl s \<Longrightarrow> \<not> bUnique \<and> unat s \<in> live c \<and> slot_key cfg c (unat s) = k"
    "r = Inr s \<Longrightarrow> first_with cfg c (cfg_hash cfg k) is_free (unat s)"
    "\<not> bUnique \<Longrightarrow> (\<exists>s. r = Inl s) \<longleftrightarrow> visible cfg c k"
proof -
  note tok = slots_okD(1)[OF ok]
  show "r = Inl s \<Longrightarrow> \<not> bUnique \<and> unat s \<in> live c \<and> slot_key cfg c (unat s) = k"
    using AddSlot_Inl[OF tok] r by (auto simp: key_slot_iff[OF ok])
  show "r = Inr s \<Longrightarrow> first_with cfg c (cfg_hash cfg k) is_free (unat s)"
    using AddSlot_Inr[OF tok] r by blast
  assume u: "\<not> bUnique"
  show "(\<exists>s. r = Inl s) \<longleftrightarrow> visible cfg c k"
  proof
    assume "\<exists>s. r = Inl s"
    then show "visible cfg c k"
      using AddSlot_hidden[OF tok _ r] unfolding visible_def by (metis sum.distinct(1))
  next
    assume "visible cfg c k"
    then show "\<exists>s. r = Inl s"
      using AddSlot_absent[OF tok nofix u] r unfolding visible_def by (cases r) blast+
  qed
qed

definition updated :: "('k, 'v) config \<Rightarrow> 'k \<Rightarrow> ('v \<Rightarrow> 'v) \<Rightarrow> ('k, 'v) core \<Rightarrow> ('k, 'v) core \<Rightarrow> bool" where
  "updated cfg k f c c' \<longleftrightarrow> core_ok cfg c' \<and> same_sizes c c' \<and> Count c' = Count c \<and> tags c' = tags c
     \<and> (\<exists>e. e \<in># contents cfg c \<and> ekey e = k
          \<and> contents cfg c' = contents cfg c - {#e#} + {#Entry k (f (evalue e))#})"

lemma slot_update:
  assumes ty: "cfg_type cfg \<noteq> Type_Index" and ok: "core_ok cfg c"
    and s: "unat s \<in> live c" "slot_key cfg c (unat s) = k"
  shows "updated cfg k f c (set_entry s (Entry k (f (evalue (EntryArray_get (entries c) s)))) c)"
proof -
  have so: "slots_ok cfg c" and st: "store_ok cfg c" using ok by (auto simp: core_ok_def)
  have es: "entries_ok (entries c)" "ea_len (entries c) = cap c" using st by (auto simp: store_ok_plain[OF ty])
  define e where "e = slot_entry cfg c (unat s)"
  define e' where "e' = Entry k (f (evalue e))"
  let ?c = "set_entry s e' c"
  have lt: "unat s < cap c" using s(1) by (simp add: live_def)
  have ss: "same_sizes c ?c" by (simp add: set_entry_def)
  have live: "live ?c = live c" "tag_at ?c = tag_at c"
    by (auto simp: live_def tag_at_def set_entry_def)
  have cell: "slot_entry cfg ?c i = (if i = unat s then e' else slot_entry cfg c i)" if "i < cap c" for i
    using ea.cell_set[OF es(1), of s i e'] es(2) lt that table_ok_cap[OF slots_okD(1)[OF so]]
    unfolding slot_entry_plain[OF ty] set_entry_def by auto
  have key: "slot_key cfg ?c i = slot_key cfg c i" if "i < cap c" for i
    using cell[OF that] s(2) by (simp add: slot_key_entry e'_def)
  have reach: "reachable_slot cfg ?c h i = reachable_slot cfg c h i" for h i
    unfolding reachable_slot_group_at same_sizes_facts[OF ss] live(2) ..
  have "placed_right cfg ?c i" if "i \<in> live c" for i
  proof -
    have "i < cap c" using that by (simp add: live_def)
    moreover have "placed_right cfg c i" using so that by (simp add: slots_ok_def)
    ultimately show ?thesis by (simp only: placed_right_def Let_def reach live(2) key)
  qed
  moreover have "table_ok cfg ?c" using slots_okD(1)[OF so] by (simp add: set_entry_def table_ok_def)
  moreover have "Count ?c = Count c" by (simp add: set_entry_def)
  ultimately have sok: "slots_ok cfg ?c" using slots_okD(2)[OF so] by (simp add: slots_ok_def live)
  have "store_ok cfg ?c"
    using ea.ok_set[OF es(1), of s e'] lt es(2) same_sizes_facts(1)[OF ss]
    unfolding store_ok_plain[OF ty] by (simp add: set_entry_def ea.len_set)
  have split: "mset_set (live c) = add_mset (unat s) (mset_set (live c - {unat s}))"
    using s(1) by (simp add: mset_set.remove)
  have "image_mset (slot_entry cfg ?c) (mset_set (live c - {unat s}))
      = image_mset (slot_entry cfg c) (mset_set (live c - {unat s}))"
    by (rule image_mset_cong) (auto simp: cell live_def)
  then have "contents cfg ?c = contents cfg c - {#e#} + {#e'#}"
    unfolding contents_def live split using cell[OF lt] by (simp add: e_def)
  then have "updated cfg k f c ?c"
    using sok \<open>store_ok cfg ?c\<close> ss slot_in_contents[OF s(1), of cfg] s(2)
    unfolding updated_def core_ok_def e'_def e_def[symmetric] slot_key_entry
    by (auto simp: set_entry_def)
  then show ?thesis by (simp add: e'_def e_def slot_entry_get[OF ty])
qed

section \<open>Add\<close>

text \<open>A table one more entry can be added to: the count has not reached the growth limit, and the
  probe sequence gets around.\<close>

definition ready :: "('k, 'v) config \<Rightarrow> ('k, 'v) core \<Rightarrow> bool" where
  "ready cfg c \<longleftrightarrow> core_ok cfg c \<and> Count c < CountGrowthLimit c \<and> unat (Count c) + 16 \<le> cap c
     \<and> coprime 15 (cap c)"

text \<open>If this entry reaches the limit, the table can grow.\<close>

definition growable :: "('k, 'v) config \<Rightarrow> ('k, 'v) core \<Rightarrow> bool" where
  "growable cfg c \<longleftrightarrow> unat (Count c) + 17 \<le> 2 ^ 31
     \<and> (Count c + 1 = CountGrowthLimit c \<longrightarrow> cfg_mode cfg \<noteq> ResizeOnlyEmpty
         \<and> coprime 15 (unat (AdjustCapacity (cfg_mode cfg) (Capacity c + 1))))"

lemma readyD:
  assumes "ready cfg c"
  shows "core_ok cfg c" "slots_ok cfg c" "sizes_ok (cfg_mode cfg) c" "coprime 15 (cap c)"
    "unat (Count c) + 16 \<le> cap c" "unat (Count c) < unat (CountGrowthLimit c)"
  using assms slots_ok_tags by (auto simp: ready_def core_ok_def word_less_nat_alt)

lemma AddSlot_total:
  assumes "ready cfg c"
  obtains r where "AddSlot cfg bUnique c k = Some r"
proof -
  note r = readyD[OF assms]
  note tok = slots_okD(1)[OF r(2)]
  have "15 < card {i. i < cap c \<and> is_free (tag_at c i)}"
    using card_free[OF tok] r(5) slots_okD(2)[OF r(2)] by linarith
  then show thesis using AddSlot_ends[OF tok r(4)] that by blast
qed

text \<open>The next capacity after the one in use.\<close>

lemma next_capacity:
  assumes "sizes_ok mode c" "Capacity c < MAX_SIZE"
  shows "Capacity c < AdjustCapacity mode (Capacity c + 1)"
proof -
  have "unat (Capacity c) < 2 ^ 31" using assms(2) by (simp add: word_less_nat_alt size_consts)
  then have u: "unat (Capacity c + 1) = unat (Capacity c) + 1" by (simp add: unat_add_u32)
  then have "Capacity c + 1 \<le> MAX_SIZE"
    using assms(2) by (simp add: word_le_nat_alt word_less_nat_alt)
  then have "unat (Capacity c + 1) \<le> unat (AdjustCapacity mode (Capacity c + 1))" by (rule AdjustCapacity_ge)
  then show ?thesis using u by (simp add: word_less_nat_alt)
qed

lemma limit_of: "sizes_ok mode c \<Longrightarrow> CountGrowthLimit c = growth_limit (Capacity c) (load_limit c)"
  by (simp add: sizes_ok_def limit_ok_def)

lemma limit_below_cap:
  assumes "sizes_ok mode c" "Capacity c < MAX_SIZE"
  shows "unat (CountGrowthLimit c) + 40 \<le> cap c"
  using growth_limit_bounds(1)[of mode "Capacity c" "load_limit c"] assms
  by (simp add: sizes_ok_def limit_ok_def cap_def)

text \<open>The end of \<open>Add\<close>: the table has one more entry and grows when the limit is reached.\<close>

definition finish_add :: "('k, 'v) config \<Rightarrow> ('k, 'v) core \<Rightarrow> ('k, 'v) core run" where
  "finish_add cfg c = (if Count c = CountGrowthLimit c then Resize cfg (Capacity c + 1) c else ret c)"

lemma finish_add_ok:
  assumes r: "ready cfg c" "growable cfg c" and a: "added cfg e c d" "same_sizes c d"
  shows "\<exists>d'. finish_add cfg d = ret d' \<and> added cfg e c d' \<and> ready cfg d' \<and> cap c \<le> cap d'
    \<and> load_limit d' = load_limit c"
proof -
  note rd = readyD[OF r(1)]
  have d: "core_ok cfg d" "Count d = Count c + 1" using a(1) by (auto simp: added_def)
  have dso: "slots_ok cfg d" by (rule core_okD[OF d(1)])
  have S: "Capacity d = Capacity c" "CountGrowthLimit d = CountGrowthLimit c" "load_limit d = load_limit c"
    "cap d = cap c"
    using a(2) by (auto simp: same_sizes_def cap_def)
  have "unat (Count c) + unat (1 :: u32) < 2 ^ 32" using r(2) by (simp add: growable_def)
  then have cnt: "unat (Count d) = unat (Count c) + 1" unfolding d(2) by (simp add: unat_add_u32)
  have sd: "sizes_ok (cfg_mode cfg) d" by (rule slots_ok_tags[OF dso])
  have le: "cap c \<le> 2 ^ 31" using rd(3) by (simp add: sizes_ok_def cap_ok_def cap_def)
  show ?thesis
  proof (cases "Count d = CountGrowthLimit d")
    case False
    then have "unat (Count d) \<noteq> unat (CountGrowthLimit d)" using unsigned_word_eqI by blast
    then have lt: "unat (Count d) < unat (CountGrowthLimit d)" using cnt rd(6) S(2) by simp
    have "unat (Count d) + 16 \<le> cap d"
    proof (cases "Capacity c < MAX_SIZE")
      case True
      then show ?thesis using limit_below_cap[OF rd(3)] lt S by simp
    next
      case False
      then have "cap c = 2 ^ 31" using le by (simp add: cap_def word_less_nat_alt size_consts)
      then show ?thesis using r(2) cnt S(4) by (simp add: growable_def)
    qed
    then have "ready cfg d" using d(1) lt rd(4) S(4) by (simp add: ready_def word_less_nat_alt)
    with False a(1) S show ?thesis by (simp add: finish_add_def)
  next
    case True
    let ?n = "AdjustCapacity (cfg_mode cfg) (Capacity c + 1)"
    have g: "cfg_mode cfg \<noteq> ResizeOnlyEmpty" "coprime 15 (unat ?n)"
      using r(2) True d(2) S(2) by (auto simp: growable_def)
    have lim: "CountGrowthLimit c = growth_limit (Capacity c) (load_limit c)" by (rule limit_of[OF rd(3)])
    have small: "Capacity c < MAX_SIZE"
    proof (rule ccontr)
      assume "\<not> ?thesis"
      then have "CountGrowthLimit c = MAX_SIZE" by (simp add: lim growth_limit_def)
      then have "unat (Count c) + 1 = 2 ^ 31" using True cnt S(2) by (simp add: size_consts)
      then show False using r(2) by (simp add: growable_def)
    qed
    have grow: "Capacity d < AdjustCapacity (cfg_mode cfg) (Capacity d + 1)"
      using next_capacity[OF rd(3) small] S(1) by simp
    then obtain d' where d': "Resize cfg (Capacity d + 1) d = ret d'" "core_ok cfg d'" "same_entries cfg d d'"
      "Capacity d' = ?n" "load_limit d' = load_limit d" "tombstones d' = {}"
      using Resize_grows[OF d(1) grow] g S(1) by auto
    have sd': "sizes_ok (cfg_mode cfg) d'" using core_okD(1)[OF d'(2)] by (rule slots_ok_tags)
    have cok: "cap_ok (cfg_mode cfg) (unat (Capacity c))" "cap_ok (cfg_mode cfg) (unat ?n)"
      using rd(3) sd' d'(4) by (auto simp: sizes_ok_def)
    have more: "Capacity c < ?n" using grow S(1) by simp
    have "CountGrowthLimit c < CountGrowthLimit d'"
      unfolding lim limit_of[OF sd'] d'(4,5) S(3)
      using growth_limit_less[OF cok more] sizes_ok_limits[OF rd(3)] by simp
    then have lt: "Count d' < CountGrowthLimit d'" using d'(3) True S(2) by (simp add: same_entries_def)
    have "4096 dvd unat (Capacity c)" "4096 dvd unat ?n" using cok by (auto simp: cap_ok_def)
    then have "cap c + 4096 \<le> cap d'"
      using more by (auto simp: cap_def d'(4) word_less_nat_alt elim!: dvdE)
    moreover have "Count d' = Count d" using d'(3) by (simp add: same_entries_def)
    ultimately have "ready cfg d'" "cap c \<le> cap d'"
      using d'(2,4) lt g(2) cnt rd(5) by (auto simp: ready_def cap_def)
    moreover have "visible cfg d' x" if "visible cfg d x" for x
      using visible_in_keys[OF dso that] visible_iff[OF core_okD(1)[OF d'(2)] d'(6)] d'(3)
      by (simp add: keys_of_def same_entries_def)
    then have "added cfg e c d'" using a(1) d'(2,3,5,6) by (auto simp: added_def same_entries_def)
    moreover have "finish_add cfg d = ret d'" using True d'(1) by (simp add: finish_add_def)
    ultimately show ?thesis using d'(5) S(3) by auto
  qed
qed

text \<open>\<open>Add\<close> where it finds no entry: the new entry is there, whatever else happens to the table.\<close>

lemma Add_new_slot:
  assumes r: "ready cfg c" "growable cfg c" and s: "AddSlot cfg bUnique c k = Some (Inr s)"
  shows "\<exists>v out c'. Add cfg bUnique bUpdate f k c = ret (True, out, c')
    \<and> added cfg (new_entry cfg f k v) c c' \<and> ready cfg c' \<and> cap c \<le> cap c'
    \<and> out = (if cfg_type cfg = Type_Index \<and> bUpdate then Some (Count c) else None)"
proof -
  note rd = readyD[OF r(1)]
  have fw: "first_with cfg c (cfg_hash cfg k) is_free (unat s)"
    using AddSlot_Inr[OF slots_okD(1)[OF rd(2)] s] .
  let ?c1 = "set_tag s (HashToTag (cfg_hash cfg k)) c"
  define out where "out = (if cfg_type cfg = Type_Index \<and> bUpdate then Some (Count c) else None)"
  have "\<exists>c2 v. add_entry cfg bUpdate f k ?c1 s = ret (out, c2)
      \<and> added cfg (new_entry cfg f k v) c (c2\<lparr>Count := Count c2 + 1\<rparr>) \<and> same_sizes c c2 \<and> Count c2 = Count c"
    using add_entry_plain[OF _ rd(1) fw, of bUpdate f] add_entry_index[OF _ rd(1) fw, of bUpdate f]
    by (cases "cfg_type cfg = Type_Index") (auto simp: out_def)
  then obtain c2 v where c2: "add_entry cfg bUpdate f k ?c1 s = ret (out, c2)"
    "added cfg (new_entry cfg f k v) c (c2\<lparr>Count := Count c2 + 1\<rparr>)" "same_sizes c c2" by blast
  let ?d = "c2\<lparr>Count := Count c2 + 1\<rparr>"
  have "same_sizes c ?d" using c2(3) by (simp add: same_sizes_def)
  then obtain d' where d': "finish_add cfg ?d = ret d'" "added cfg (new_entry cfg f k v) c d'" "ready cfg d'"
    "cap c \<le> cap d'"
    using finish_add_ok[OF r c2(2)] by blast
  have "Add cfg bUnique bUpdate f k c = run_bind (finish_add cfg ?d) (\<lambda>c. ret (True, out, c))"
    by (simp add: Add_def s c2(1) finish_add_def Let_def)
  then have "Add cfg bUnique bUpdate f k c = ret (True, out, d')" by (simp add: d'(1))
  then show ?thesis using d'(2-4) unfolding out_def by blast
qed

text \<open>\<open>Add\<close> where it finds the key.\<close>

lemma index_position:
  assumes ty: "cfg_type cfg = Type_Index" and ok: "core_ok cfg c" and s: "unat s \<in> live c"
  shows "unat (EntryArray_get (realIndex c) s) < unat (Count c)"
    "index_entries c ! unat (EntryArray_get (realIndex c) s) = slot_entry cfg c (unat s)"
proof -
  have st: "store_ok cfg c" by (rule core_okD[OF ok])
  have at: "unat (EntryArray_get (realIndex c) s) = index_at c (unat s)"
    by (simp add: index_at_cell ea.cell_get)
  show lt: "unat (EntryArray_get (realIndex c) s) < unat (Count c)"
    unfolding at using st s bij_betw_apply by (fastforce simp: store_ok_index[OF ty])
  show "index_entries c ! unat (EntryArray_get (realIndex c) s) = slot_entry cfg c (unat s)"
    using lt unfolding at by (simp add: index_entries_def slot_entry_index[OF ty])
qed

lemma Add_existing_slot:
  assumes ok: "core_ok cfg c" and s: "AddSlot cfg bUnique c k = Some (Inl s)"
    and k: "unat s \<in> live c" "slot_key cfg c (unat s) = k"
  shows "\<exists>out c'. Add cfg bUnique bUpdate f k c = ret (False, out, c')
    \<and> (if cfg_type cfg = Type_Map \<and> bUpdate then updated cfg k f c c' else c' = c)
    \<and> (if cfg_type cfg = Type_Index \<and> bUpdate
       then \<exists>p. out = Some p \<and> p < Count c \<and> ekey (index_entries c ! unat p) = k else out = None)"
proof -
  have run: "Add cfg bUnique bUpdate f k c =
      (case add_existing cfg bUpdate f c s of (out, c) \<Rightarrow> ret (False, out, c))"
    by (simp add: Add_def s)
  show ?thesis
  proof (cases "cfg_type cfg")
    case Type_Map
    let ?e = "EntryArray_get (entries c) s"
    have "ekey ?e = k" using k(2) Type_Map slot_entry_get[of cfg c s] by (simp add: slot_key_entry)
    then show ?thesis
      using run Type_Map slot_update[OF _ ok k, of f] by (simp add: add_existing_def Let_def)
  next
    case Type_Set
    then show ?thesis using run by (simp add: add_existing_def)
  next
    case Type_Index
    then show ?thesis
      using run index_position[OF Type_Index ok k(1)] k(2)
      by (auto simp: add_existing_def word_less_nat_alt slot_key_entry)
  qed
qed

section \<open>Modes with capacities that are powers of two\<close>

lemma AdjustCapacity_coprime:
  "pow2_mode mode \<Longrightarrow> coprime 15 (unat (AdjustCapacity mode sz))"
  using AdjustCapacity_cap_ok[of mode sz] by (auto simp: cap_ok_def coprime_power_right_iff)

lemma cap_coprime: "pow2_mode mode \<Longrightarrow> sizes_ok mode c \<Longrightarrow> coprime 15 (cap c)"
  using pow2_mode_coprime[of mode c] by (simp add: cap_def)

lemma growable_pow2:
  "pow2_mode (cfg_mode cfg) \<Longrightarrow> unat (Count c) + 17 \<le> 2 ^ 31 \<Longrightarrow> growable cfg c"
  by (auto simp: growable_def AdjustCapacity_coprime) (simp add: pow2_mode_def)

end
