(* ===== verification/Api.thy ===== *)
theory Api
  imports Operations
begin

text \<open>
  The classes \<open>Map\<close>, \<open>Set\<close> and \<open>Index\<close>, and what they promise: a map behaves like a finite partial
  function, a set like a finite set, an index like a list without repetitions. The step relation
  \<open>core_step\<close> has every public operation that changes a table; every table reached by operations that
  return satisfies the invariant, in each of the six modes.
\<close>

definition drop_out :: "(bool \<times> u32 option \<times> ('k, 'v) core) run \<Rightarrow> (bool \<times> ('k, 'v) core) run" where
  "drop_out r = run_bind r (\<lambda>(b, _, c). ret (b, c))"

definition Map_Add ::
    "('k, 'v) config \<Rightarrow> bool \<Rightarrow> 'k \<Rightarrow> 'v \<Rightarrow> ('k, 'v) core \<Rightarrow> (bool \<times> ('k, 'v) core) run" where
  "Map_Add cfg bUnique key val c = drop_out (Add cfg bUnique False (\<lambda>_. val) key c)"

definition Map_AddOrUpdate ::
    "('k, 'v) config \<Rightarrow> 'k \<Rightarrow> 'v \<Rightarrow> ('k, 'v) core \<Rightarrow> (bool \<times> ('k, 'v) core) run" where
  "Map_AddOrUpdate cfg key val c = drop_out (Add cfg False True (\<lambda>_. val) key c)"

text \<open>\<open>Some (Some v)\<close>: true, with the value written to the caller's variable.\<close>

definition Map_TryGetValue :: "('k, 'v) config \<Rightarrow> ('k, 'v) core \<Rightarrow> 'k \<Rightarrow> 'v option option" where
  "Map_TryGetValue cfg c key =
     map_option (\<lambda>r. case r of Some (Found_value v) \<Rightarrow> Some v | _ \<Rightarrow> None) (FindEntry cfg True c key)"

definition Set_Add :: "('k, 'v) config \<Rightarrow> bool \<Rightarrow> 'k \<Rightarrow> ('k, 'v) core \<Rightarrow> (bool \<times> ('k, 'v) core) run" where
  "Set_Add cfg bUnique key c = drop_out (Add cfg bUnique False id key c)"

definition Index_Add :: "('k, 'v) config \<Rightarrow> bool \<Rightarrow> 'k \<Rightarrow> ('k, 'v) core \<Rightarrow> (bool \<times> ('k, 'v) core) run" where
  "Index_Add cfg bUnique key c = drop_out (Add cfg bUnique False id key c)"

definition Index_TryAdd ::
    "('k, 'v) config \<Rightarrow> 'k \<Rightarrow> ('k, 'v) core \<Rightarrow> (bool \<times> u32 option \<times> ('k, 'v) core) run" where
  "Index_TryAdd cfg key c = Add cfg False True id key c"

definition Index_TryGetIndex :: "('k, 'v) config \<Rightarrow> ('k, 'v) core \<Rightarrow> 'k \<Rightarrow> u32 option option" where
  "Index_TryGetIndex cfg c key =
     map_option (\<lambda>r. case r of Some (Found_index i) \<Rightarrow> Some (ucast i) | _ \<Rightarrow> None) (FindEntry cfg False c key)"

section \<open>Abstract values\<close>

text \<open>A key that is in the table where \<open>Add\<close> does not look.\<close>

definition hidden :: "('k, 'v) config \<Rightarrow> ('k, 'v) core \<Rightarrow> 'k \<Rightarrow> bool" where
  "hidden cfg c k \<longleftrightarrow> k \<in># keys_of cfg c \<and> \<not> visible cfg c k"

lemma no_tombstones_not_hidden: "slots_ok cfg c \<Longrightarrow> tombstones c = {} \<Longrightarrow> \<not> hidden cfg c k"
  by (simp add: hidden_def visible_iff)

definition entry_of :: "('k \<rightharpoonup> 'v) \<Rightarrow> 'k \<Rightarrow> ('k, 'v) entry" where
  "entry_of m k = Entry k (the (m k))"

definition is_map :: "('k, 'v) config \<Rightarrow> ('k, 'v) core \<Rightarrow> ('k \<rightharpoonup> 'v) \<Rightarrow> bool" where
  "is_map cfg c m \<longleftrightarrow> finite (dom m) \<and> contents cfg c = image_mset (entry_of m) (mset_set (dom m))"

definition is_set :: "('k, 'v) config \<Rightarrow> ('k, 'v) core \<Rightarrow> 'k set \<Rightarrow> bool" where
  "is_set cfg c S \<longleftrightarrow> finite S \<and> keys_of cfg c = mset_set S"

definition is_index :: "('k, 'v) config \<Rightarrow> ('k, 'v) core \<Rightarrow> 'k list \<Rightarrow> bool" where
  "is_index cfg c ks \<longleftrightarrow> cfg_type cfg = Type_Index \<and> store_ok cfg c
     \<and> map ekey (index_entries c) = ks \<and> distinct ks"

lemma is_map_keys: "is_map cfg c m \<Longrightarrow> k \<in># keys_of cfg c \<longleftrightarrow> k \<in> dom m"
  by (auto simp: is_map_def keys_of_def entry_of_def image_mset.compositionality comp_def)

lemma is_map_entry: "is_map cfg c m \<Longrightarrow> e \<in># contents cfg c \<longleftrightarrow> m (ekey e) = Some (evalue e)"
  by (cases e) (auto simp: is_map_def entry_of_def)

lemma is_map_add:
  assumes "is_map cfg c m" "k \<notin> dom m" "contents cfg c' = add_mset (Entry k v) (contents cfg c)"
  shows "is_map cfg c' (m(k \<mapsto> v))"
proof -
  have "image_mset (entry_of (m(k \<mapsto> v))) (mset_set (dom m)) = image_mset (entry_of m) (mset_set (dom m))"
    using assms(1,2) by (intro image_mset_cong) (auto simp: entry_of_def is_map_def)
  with assms show ?thesis by (simp add: is_map_def) (simp add: entry_of_def)
qed

lemma is_map_del:
  assumes "is_map cfg c m" "e \<in># contents cfg c" "ekey e = k" "contents cfg c' = contents cfg c - {#e#}"
  shows "is_map cfg c' (m(k := None))"
proof -
  have fin: "finite (dom m)" using assms(1) by (simp add: is_map_def)
  have e: "m k = Some (evalue e)" using assms(1-3) is_map_entry by fastforce
  then have "e = entry_of m k" using assms(3) by (cases e) (auto simp: entry_of_def)
  moreover have "mset_set (dom m) = add_mset k (mset_set (dom m - {k}))"
    using e fin by (simp add: domI mset_set.remove)
  moreover have "image_mset (entry_of (m(k := None))) (mset_set (dom m - {k}))
      = image_mset (entry_of m) (mset_set (dom m - {k}))"
    using fin by (intro image_mset_cong) (auto simp: entry_of_def)
  ultimately show ?thesis using assms(1,4) by (simp add: is_map_def)
qed

lemma is_map_upd:
  assumes "is_map cfg c m" "e \<in># contents cfg c" "ekey e = k"
    "contents cfg c' = contents cfg c - {#e#} + {#Entry k v#}"
  shows "is_map cfg c' (m(k \<mapsto> v))"
proof -
  have fin: "finite (dom m)" using assms(1) by (simp add: is_map_def)
  have e: "m k = Some (evalue e)" using assms(1-3) is_map_entry by fastforce
  then have "e = entry_of m k" using assms(3) by (cases e) (auto simp: entry_of_def)
  moreover have "mset_set (dom m) = add_mset k (mset_set (dom m - {k}))"
    using e fin by (simp add: domI mset_set.remove)
  moreover have "image_mset (entry_of (m(k \<mapsto> v))) (mset_set (dom m - {k}))
      = image_mset (entry_of m) (mset_set (dom m - {k}))"
    using fin by (intro image_mset_cong) (auto simp: entry_of_def)
  moreover have "insert k (dom m) = dom m" using e by blast
  ultimately show ?thesis
    using assms(1,4) by (simp add: is_map_def) (simp add: entry_of_def)
qed

lemma is_index_keys:
  assumes "is_index cfg c ks"
  shows "keys_of cfg c = mset ks" "length ks = unat (Count c)"
  using assms index_contents[of cfg c]
  by (auto simp: is_index_def keys_of_def store_ok_def) (simp add: index_entries_def)

section \<open>Add, in one statement\<close>

lemma Add_cases:
  assumes r: "ready cfg c" "growable cfg c" and nofix: "\<not> cfg_fix cfg"
  obtains (present) out c' where "Add cfg bUnique bUpdate f k c = ret (False, out, c')"
      "\<not> bUnique" "visible cfg c k"
      "if cfg_type cfg = Type_Map \<and> bUpdate then updated cfg k f c c' else c' = c"
      "if cfg_type cfg = Type_Index \<and> bUpdate
       then \<exists>p. out = Some p \<and> p < Count c \<and> ekey (index_entries c ! unat p) = k else out = None"
    | (new) v out c' where "Add cfg bUnique bUpdate f k c = ret (True, out, c')"
      "bUnique \<or> \<not> visible cfg c k"
      "added cfg (new_entry cfg f k v) c c'" "ready cfg c'" "cap c \<le> cap c'"
      "out = (if cfg_type cfg = Type_Index \<and> bUpdate then Some (Count c) else None)"
proof -
  note rd = readyD[OF r(1)]
  obtain q where q: "AddSlot cfg bUnique c k = Some q" by (rule AddSlot_total[OF r(1)])
  note kind = AddSlot_kind[OF rd(2) nofix q]
  show thesis
  proof (cases q)
    case (Inl s)
    with kind have s: "\<not> bUnique" "unat s \<in> live c" "slot_key cfg c (unat s) = k" "visible cfg c k" by auto
    show thesis using Add_existing_slot[OF rd(1) q[unfolded Inl] s(2,3)] present s(1,4) by blast
  next
    case (Inr s)
    with kind(3) have "bUnique \<or> \<not> visible cfg c k" by auto
    then show thesis using Add_new_slot[OF r q[unfolded Inr], of bUpdate f] new by blast
  qed
qed

lemma TryGetValue_eq:
  assumes "cfg_type cfg = Type_Map"
  shows "Map_TryGetValue cfg c k
    = map_option (map_option (\<lambda>s. evalue (slot_entry cfg c (unat s)))) (FindSlot cfg c k)"
proof -
  have "EntryArray_get (entries c) s = slot_entry cfg c (unat s)" for s
    using slot_entry_get[of cfg c s] assms by simp
  then show ?thesis
    using assms by (auto simp: Map_TryGetValue_def FindEntry_def option.map_comp comp_def
        split: option.split intro!: option.map_cong)
qed

section \<open>All operations: reachable tables\<close>

text \<open>The public operations that change a table, with any arguments. An operation that aborts or does not
  return leads nowhere: that is the only condition on a step. \<open>Index\<close> has neither \<open>Remove\<close> nor \<open>Rehash\<close>.\<close>

inductive core_step :: "('k, 'v) config \<Rightarrow> ('k, 'v) core \<Rightarrow> ('k, 'v) core \<Rightarrow> bool" for cfg where
  step_Add: "Add cfg bUnique bUpdate f k c = ret (b, out, c') \<Longrightarrow> core_step cfg c c'"
| step_Remove: "cfg_type cfg \<noteq> Type_Index \<Longrightarrow> Remove cfg c k = Some (b, c') \<Longrightarrow> core_step cfg c c'"
| step_Rehash: "cfg_type cfg \<noteq> Type_Index \<Longrightarrow> Rehash cfg c = ret c' \<Longrightarrow> core_step cfg c c'"
| step_Resize: "Resize cfg sz c = ret c' \<Longrightarrow> core_step cfg c c'"
| step_Clear: "Clear cfg sz c = ret c' \<Longrightarrow> core_step cfg c c'"
| step_max_load_factor: "core_step cfg c (max_load_factor mlf c)"

inductive_cases core_stepE: "core_step cfg c c'"

inductive reachable :: "('k, 'v) config \<Rightarrow> ('k, 'v) core \<Rightarrow> bool" for cfg where
  reach_new: "Core_new cfg c0 = ret c \<Longrightarrow> reachable cfg c"
| reach_step: "reachable cfg c \<Longrightarrow> core_step cfg c c' \<Longrightarrow> reachable cfg c'"

lemma core_ok_max_load_factor:
  assumes "core_ok cfg c"
  shows "core_ok cfg (max_load_factor mlf c)"
proof -
  let ?c = "max_load_factor mlf c"
  have cap: "cap ?c = cap c" by (simp add: cap_def)
  have "AdjustTupleIndex mode ?c = AdjustTupleIndex mode c" for mode
    by (intro ext) (simp add: AdjustTupleIndex_def)
  then have path: "hash_path cfg ?c = hash_path cfg c"
    by (intro ext) (simp add: hash_path_def pr.path_def)
  have tag: "tag_at ?c = tag_at c" by (intro ext) (simp add: tag_at_def)
  have live: "live ?c = live c" by (simp add: live_def cap tag)
  have entry: "slot_entry cfg ?c = slot_entry cfg c" by (intro ext) (simp add: slot_entry_def real_index_def)
  have group: "group ?c = group c" by (intro ext) (simp add: group_def cap)
  have right: "placed_right cfg ?c i = placed_right cfg c i" for i
    by (simp add: placed_right_def reachable_slot_def slot_key_entry tag group path entry)
  have so: "slots_ok cfg c" and st: "store_ok cfg c" using assms by (auto simp: core_ok_def)
  have "table_ok cfg ?c"
    using slots_okD(1)[OF so] sizes_ok_max_load_factor[of "cfg_mode cfg" c mlf] by (simp add: table_ok_def)
  then have "slots_ok cfg ?c" using so by (simp add: slots_ok_def live right)
  moreover have "index_at ?c = index_at c" by (intro ext) (simp add: index_at_def)
  then have "store_ok cfg ?c" using st by (simp add: store_ok_def cap live split: if_splits)
  ultimately show ?thesis by (simp add: core_ok_def)
qed

text \<open>A resize that returns has kept the entries, in every mode.\<close>

lemma Resize_returns:
  assumes ok: "core_ok cfg c" and r: "Resize cfg sz c = ret c'"
  shows "core_ok cfg c'" "same_entries cfg c c'"
proof -
  have only: "cfg_mode cfg = ResizeOnlyEmpty \<Longrightarrow> Capacity c \<le> AdjustCapacity (cfg_mode cfg) sz \<Longrightarrow> Count c = 0"
    using r Resize_only_empty_aborts[of cfg c sz] by auto
  consider "AdjustCapacity (cfg_mode cfg) sz < Capacity c" | "AdjustCapacity (cfg_mode cfg) sz = Capacity c"
    | "Capacity c < AdjustCapacity (cfg_mode cfg) sz" by (meson linorder_cases)
  then have "core_ok cfg c' \<and> same_entries cfg c c'"
  proof cases
    case 1
    with ok r show ?thesis by (simp add: Resize_smaller)
  next
    case 2
    then have "Resize cfg sz c = ret c" using only by (intro Resize_equal[OF core_okD(1)[OF ok] 2]) simp
    with ok r show ?thesis by simp
  next
    case 3
    then have "cfg_mode cfg = ResizeOnlyEmpty \<Longrightarrow> Count c = 0" using only by simp
    from returns_ifD(1)[OF Resize_outcome[OF ok 3 this] r] show ?thesis by simp
  qed
  then show "core_ok cfg c'" "same_entries cfg c c'" by blast+
qed

lemma Add_keeps:
  assumes ok: "core_ok cfg c" and a: "Add cfg bUnique bUpdate f k c = ret (b, out, c')"
  shows "core_ok cfg c'"
proof -
  have so: "slots_ok cfg c" by (rule core_okD[OF ok])
  note tok = slots_okD(1)[OF so]
  obtain q where q: "AddSlot cfg bUnique c k = Some q"
    using a by (cases "AddSlot cfg bUnique c k") (auto simp: Add_def)
  show ?thesis
  proof (cases q)
    case (Inl s)
    have s: "unat s \<in> live c" "slot_key cfg c (unat s) = k"
      using AddSlot_Inl[OF tok] q Inl by (auto simp: key_slot_iff[OF so])
    show ?thesis
      using Add_existing_slot[OF ok q[unfolded Inl] s, of bUpdate f] a ok
      by (auto simp: updated_def split: if_splits)
  next
    case (Inr s)
    then have fw: "first_with cfg c (cfg_hash cfg k) is_free (unat s)"
      using AddSlot_Inr[OF tok] q by blast
    let ?c1 = "set_tag s (HashToTag (cfg_hash cfg k)) c"
    obtain out' c2 v where c2: "add_entry cfg bUpdate f k ?c1 s = ret (out', c2)"
      "added cfg (new_entry cfg f k v) c (c2\<lparr>Count := Count c2 + 1\<rparr>)"
      using add_entry_plain[OF _ ok fw, of bUpdate f] add_entry_index[OF _ ok fw, of bUpdate f]
      by (cases "cfg_type cfg = Type_Index") blast+
    let ?d = "c2\<lparr>Count := Count c2 + 1\<rparr>"
    have d: "core_ok cfg ?d" using c2(2) unfolding added_def by blast
    have "Add cfg bUnique bUpdate f k c = run_bind (finish_add cfg ?d) (\<lambda>c. ret (True, out', c))"
      by (simp add: Add_def q Inr c2(1) finish_add_def Let_def)
    with a have "finish_add cfg ?d = ret c'" by (auto simp: run_bind_ret_iff)
    then show ?thesis
      using Resize_returns(1)[OF d, of "Capacity ?d + 1"] d by (auto simp: finish_add_def split: if_splits)
  qed
qed

lemma Remove_keeps:
  assumes ty: "cfg_type cfg \<noteq> Type_Index" and ok: "core_ok cfg c" and r: "Remove cfg c k = Some (b, c')"
  shows "core_ok cfg c'"
proof -
  have so: "slots_ok cfg c" by (rule core_okD[OF ok])
  obtain q where q: "FindSlot cfg c k = Some q" using r by (auto simp: Remove_def FindEntry_def)
  show ?thesis
  proof (cases q)
    case None
    with r q ok show ?thesis by (simp add: Remove_def FindEntry_def)
  next
    case (Some s)
    with q have "unat s \<in> live c" "slot_key cfg c (unat s) = k"
      using FindSlot_found[OF slots_okD(1)[OF so]] by (auto simp: key_slot_iff[OF so])
    from Remove_slot[OF ty ok this] r q Some ty show ?thesis
      by (simp add: Remove_def FindEntry_def real_index_def removed_def)
  qed
qed

lemma Clear_keeps:
  assumes ok: "core_ok cfg c" and r: "Clear cfg sz c = ret c'"
  shows "core_ok cfg c' \<and> contents cfg c' = {#}"
proof -
  have "core_ok cfg c' \<and> empty_table cfg c'"
  proof (cases "sz = 0 \<or> AdjustCapacity (cfg_mode cfg) sz = Capacity c")
    case True
    with Clear_same[OF ok True] r show ?thesis by auto
  next
    case False
    then have "0 < sz" by (simp add: word_neq_0_conv)
    with False show ?thesis
      using Clear_smaller[OF ok \<open>0 < sz\<close>] Clear_bigger[OF ok \<open>0 < sz\<close>] r
      by (cases "AdjustCapacity (cfg_mode cfg) sz < Capacity c") auto
  qed
  then show ?thesis using empty_table_facts(4) by blast
qed

lemma Rehash_keeps:
  assumes ty: "cfg_type cfg \<noteq> Type_Index" and ok: "core_ok cfg c" and r: "Rehash cfg c = ret c'"
  shows "core_ok cfg c'"
  using returns_ifD(1)[OF Rehash_outcome[OF ok ty] r] Rehash_zero[of c cfg] ok r
  by (cases "Count c = 0") auto

lemma step_keeps:
  assumes ok: "core_ok cfg c" and st: "core_step cfg c c'"
  shows "core_ok cfg c'"
  using st
  by cases (use Add_keeps[OF ok] Remove_keeps[OF _ ok] Rehash_keeps[OF _ ok] Resize_returns(1)[OF ok]
    Clear_keeps[OF ok] core_ok_max_load_factor[OF ok] in blast)+

lemma reachable_ok:
  assumes "reachable cfg c"
  shows "core_ok cfg c"
  using assms
proof induction
  case (reach_new c0 c)
  then show ?case using Core_new_ok[of cfg c0] by auto
qed (rule step_keeps)

end
