(* ===== verification/Dispatch.thy ===== *)
theory Dispatch
  imports Api
begin

text \<open>
  The functions at the end of \<^verbatim>\<open>BenchHash.h\<close> that choose the hash functions of a table
  class by the low bits of the flags. What they run, the function template \<open>Bench\<close> at one type of object,
  is the argument \<open>bench\<close>.
\<close>

datatype key_type = Key32 | Key64   \<comment> \<open>\<open>uint32_t\<close>, \<open>uint64_t\<close>\<close>

datatype hash_fn =
    Ankerl_hash   \<comment> \<open>\<open>ankerl::unordered_dense::hash<TKey>\<close>\<close>
  | Std_hash      \<comment> \<open>\<open>std::hash<TKey>\<close>\<close>
  | Absl_hash     \<comment> \<open>\<open>absl::Hash<TKey>\<close>\<close>
  | Simd_hash     \<comment> \<open>\<open>MZ::SimdHash::Hash<TKey>\<close>\<close>

text \<open>The classes that are wrapped: \<open>TObject\<close> is \<open>BenchObjectWrapper<TKey, \<dots>>\<close> of one of them.\<close>

datatype object_type =
    Simd_Map key_type hash_fn mode bool
  | Simd_Set key_type hash_fn mode bool
  | Simd_Index key_type hash_fn mode bool
  | Robin_map key_type hash_fn
  | Robin_set key_type hash_fn
  | Absl_map key_type hash_fn
  | Absl_set key_type hash_fn
  | Em7_map key_type hash_fn
  | Em8_map key_type hash_fn
  | Ankerl_map key_type hash_fn

record bench_args =
  BenchFlags :: u64
  startLoad :: u64
  maxLoad :: u64
  stepLoad :: u64

definition test_vector_size :: u64 where
  "test_vector_size = 1024 * 1024 * 2"

type_synonym 's bench = "object_type \<Rightarrow> bench_args \<Rightarrow> 's \<Rightarrow> 's run"

definition when_flag :: "u64 \<Rightarrow> bench_args \<Rightarrow> ('s \<Rightarrow> 's run) \<Rightarrow> 's \<Rightarrow> 's run" where
  "when_flag flag a step s = (if BenchFlags a AND flag \<noteq> 0 then step s else ret s)"

definition run_steps :: "('s \<Rightarrow> 's run) list \<Rightarrow> 's \<Rightarrow> 's run" where
  "run_steps = run_fold (\<lambda>step s. step s)"

definition BenchSimdHashMap :: "'s bench \<Rightarrow> key_type \<Rightarrow> mode \<Rightarrow> bool \<Rightarrow> bench_args \<Rightarrow> 's \<Rightarrow> 's run" where
  "BenchSimdHashMap bench TKey mode bFix a = run_steps
     [when_flag 8 a (bench (Simd_Map TKey Ankerl_hash mode bFix) a),
      when_flag 2 a (bench (Simd_Map TKey Std_hash mode bFix) a),
      when_flag 4 a (bench (Simd_Map TKey Absl_hash mode bFix) a),
      when_flag 1 a (bench (Simd_Map TKey Simd_hash mode bFix) a)]"

definition BenchSimdHashSet :: "'s bench \<Rightarrow> key_type \<Rightarrow> bool \<Rightarrow> bench_args \<Rightarrow> 's \<Rightarrow> 's run" where
  "BenchSimdHashSet bench TKey bFix a = run_steps
     [when_flag 8 a (bench (Simd_Set TKey Ankerl_hash Fast bFix) a),
      when_flag 2 a (bench (Simd_Set TKey Std_hash Fast bFix) a),
      when_flag 4 a (bench (Simd_Set TKey Absl_hash Fast bFix) a),
      when_flag 1 a (bench (Simd_Set TKey Simd_hash Fast bFix) a)]"

definition BenchSimdHashIndex :: "'s bench \<Rightarrow> key_type \<Rightarrow> bool \<Rightarrow> bench_args \<Rightarrow> 's \<Rightarrow> 's run" where
  "BenchSimdHashIndex bench TKey bFix a = run_steps
     [when_flag 8 a (bench (Simd_Index TKey Ankerl_hash Fast bFix) a),
      when_flag 2 a (bench (Simd_Index TKey Std_hash Fast bFix) a),
      when_flag 4 a (bench (Simd_Index TKey Absl_hash Fast bFix) a),
      when_flag 1 a (bench (Simd_Index TKey Simd_hash Fast bFix) a)]"

definition BenchTslRobinMap :: "'s bench \<Rightarrow> key_type \<Rightarrow> bench_args \<Rightarrow> 's \<Rightarrow> 's run" where
  "BenchTslRobinMap bench TKey a = run_steps
     [when_flag 8 a (bench (Robin_map TKey Ankerl_hash) a),
      when_flag 2 a (bench (Robin_map TKey Std_hash) a),
      when_flag 4 a (bench (Robin_map TKey Absl_hash) a),
      when_flag 1 a (bench (Robin_map TKey Simd_hash) a)]"

definition BenchTslRobinSet :: "'s bench \<Rightarrow> key_type \<Rightarrow> bench_args \<Rightarrow> 's \<Rightarrow> 's run" where
  "BenchTslRobinSet bench TKey a = run_steps
     [when_flag 8 a (bench (Robin_set TKey Ankerl_hash) a),
      when_flag 2 a (bench (Robin_set TKey Std_hash) a),
      when_flag 4 a (bench (Robin_set TKey Absl_hash) a),
      when_flag 1 a (bench (Robin_set TKey Simd_hash) a)]"

definition BenchAbslFlatHashMap :: "'s bench \<Rightarrow> key_type \<Rightarrow> bench_args \<Rightarrow> 's \<Rightarrow> 's run" where
  "BenchAbslFlatHashMap bench TKey a = run_steps
     [when_flag 8 a (bench (Absl_map TKey Ankerl_hash) a),
      when_flag 2 a (bench (Absl_map TKey Std_hash) a),
      when_flag 4 a (bench (Absl_map TKey Absl_hash) a),
      when_flag 1 a (bench (Absl_map TKey Simd_hash) a)]"

definition BenchAbslFlatHashSet :: "'s bench \<Rightarrow> key_type \<Rightarrow> bench_args \<Rightarrow> 's \<Rightarrow> 's run" where
  "BenchAbslFlatHashSet bench TKey a = run_steps
     [when_flag 8 a (bench (Absl_set TKey Ankerl_hash) a),
      when_flag 2 a (bench (Absl_set TKey Std_hash) a),
      when_flag 4 a (bench (Absl_set TKey Absl_hash) a),
      when_flag 1 a (bench (Absl_set TKey Simd_hash) a)]"

definition BenchEm7HashMap :: "'s bench \<Rightarrow> key_type \<Rightarrow> bench_args \<Rightarrow> 's \<Rightarrow> 's run" where
  "BenchEm7HashMap bench TKey a = run_steps
     [when_flag 8 a (bench (Em7_map TKey Ankerl_hash) a),
      when_flag 2 a (bench (Em7_map TKey Std_hash) a),
      when_flag 4 a (bench (Em7_map TKey Absl_hash) a),
      when_flag 1 a (bench (Em7_map TKey Simd_hash) a)]"

definition BenchEm8HashMap :: "'s bench \<Rightarrow> key_type \<Rightarrow> bench_args \<Rightarrow> 's \<Rightarrow> 's run" where
  "BenchEm8HashMap bench TKey a = run_steps
     [when_flag 8 a (bench (Em8_map TKey Ankerl_hash) a),
      when_flag 2 a (bench (Em8_map TKey Std_hash) a),
      when_flag 4 a (bench (Em8_map TKey Absl_hash) a),
      when_flag 1 a (bench (Em8_map TKey Simd_hash) a)]"

definition BenchAnkerlHashMap :: "'s bench \<Rightarrow> key_type \<Rightarrow> bench_args \<Rightarrow> 's \<Rightarrow> 's run" where
  "BenchAnkerlHashMap bench TKey a = run_steps
     [when_flag 8 a (bench (Ankerl_map TKey Ankerl_hash) a),
      when_flag 2 a (bench (Ankerl_map TKey Std_hash) a),
      when_flag 4 a (bench (Ankerl_map TKey Absl_hash) a),
      when_flag 1 a (bench (Ankerl_map TKey Simd_hash) a)]"

section \<open>What they run\<close>

text \<open>The hash functions that the flags choose, in the order in which they are run.\<close>

definition chosen_hashes :: "u64 \<Rightarrow> hash_fn list" where
  "chosen_hashes flags = map snd (filter (\<lambda>(flag, h). flags AND flag \<noteq> 0)
     [(8, Ankerl_hash), (2, Std_hash), (4, Absl_hash), (1, Simd_hash)])"

definition run_objects :: "'s bench \<Rightarrow> bench_args \<Rightarrow> object_type list \<Rightarrow> 's \<Rightarrow> 's run" where
  "run_objects bench a = run_fold (\<lambda>obj. bench obj a)"

lemma run_objects_append:
  "run_objects bench a (xs @ ys) s = run_bind (run_objects bench a xs s) (run_objects bench a ys)"
  unfolding run_objects_def by (rule run_fold_append)

lemma run_bind_ret_id [simp]: "run_bind m ret = m"
  by (cases m rule: run_cases) auto

lemma run_fold_fun: "run_fold f [] = ret" "run_fold f (x # xs) = (\<lambda>s. run_bind (f x s) (run_fold f xs))"
  by (rule ext, simp)+

lemma four_hashes:
  "run_steps [when_flag 8 a (bench (f Ankerl_hash) a), when_flag 2 a (bench (f Std_hash) a),
      when_flag 4 a (bench (f Absl_hash) a), when_flag 1 a (bench (f Simd_hash) a)]
    = run_objects bench a (map f (chosen_hashes (BenchFlags a)))"
  by (simp add: run_steps_def run_objects_def chosen_hashes_def when_flag_def[abs_def] run_fold_fun
      del: run_fold.simps)

lemmas Bench_runs =
  BenchSimdHashMap_def BenchSimdHashSet_def BenchSimdHashIndex_def BenchTslRobinMap_def BenchTslRobinSet_def
  BenchAbslFlatHashMap_def BenchAbslFlatHashSet_def BenchEm7HashMap_def BenchEm8HashMap_def BenchAnkerlHashMap_def

lemma Bench_objects:
  "BenchSimdHashMap bench k m fx a = run_objects bench a (map (\<lambda>h. Simd_Map k h m fx) (chosen_hashes (BenchFlags a)))"
  "BenchSimdHashSet bench k fx a = run_objects bench a (map (\<lambda>h. Simd_Set k h Fast fx) (chosen_hashes (BenchFlags a)))"
  "BenchSimdHashIndex bench k fx a = run_objects bench a (map (\<lambda>h. Simd_Index k h Fast fx) (chosen_hashes (BenchFlags a)))"
  "BenchTslRobinMap bench k a = run_objects bench a (map (Robin_map k) (chosen_hashes (BenchFlags a)))"
  "BenchTslRobinSet bench k a = run_objects bench a (map (Robin_set k) (chosen_hashes (BenchFlags a)))"
  "BenchAbslFlatHashMap bench k a = run_objects bench a (map (Absl_map k) (chosen_hashes (BenchFlags a)))"
  "BenchAbslFlatHashSet bench k a = run_objects bench a (map (Absl_set k) (chosen_hashes (BenchFlags a)))"
  "BenchEm7HashMap bench k a = run_objects bench a (map (Em7_map k) (chosen_hashes (BenchFlags a)))"
  "BenchEm8HashMap bench k a = run_objects bench a (map (Em8_map k) (chosen_hashes (BenchFlags a)))"
  "BenchAnkerlHashMap bench k a = run_objects bench a (map (Ankerl_map k) (chosen_hashes (BenchFlags a)))"
  unfolding Bench_runs by (rule four_hashes)+

end
