(* ===== verification/BenchObject.thy ===== *)
theory BenchObject
  imports Dispatch
begin

text \<open>
  \<^verbatim>\<open>BenchHash.h\<close>: the class template \<open>BenchObjectWrapper\<close>, which runs the tests of the
  benchmark on one table object, and the function template \<open>Bench\<close>, which runs them for all loads. What the
  wrapper calls on a table is a record of the methods of the table's class; \<open>if constexpr\<close> is a case
  distinction on the kind of record. A failed \<open>assert\<close>, an access outside of a vector and an integer division
  by zero end the run. The times and the memory use that are printed are not modelled.
\<close>

datatype TestType = UNKNOWN | TEST1 | TEST2 | TEST3 | TEST4 | TEST5

section \<open>What is called on a table\<close>

text \<open>How a class takes and gives its elements: keys for a set (\<open>isSet\<close>), pairs for a map. An operation
  that inserts has a template argument \<open>'u\<close>.\<close>

datatype ('u, 'k, 't) elements =
    As_set "'u \<Rightarrow> 'k \<Rightarrow> 't \<Rightarrow> (bool \<times> 't) run" "'t \<Rightarrow> 'k list run"
  | As_map "'u \<Rightarrow> 'k \<Rightarrow> 'k \<Rightarrow> 't \<Rightarrow> (bool \<times> 't) run" "'t \<Rightarrow> ('k \<times> 'k) list run"

record ('k, 't) simd_class =
  Simd_new :: "'t run"
  Simd_max_load_factor :: "rat \<Rightarrow> 't \<Rightarrow> 't"
  Simd_Resize :: "u32 \<Rightarrow> 't \<Rightarrow> 't run"
  Simd_Clear :: "'t \<Rightarrow> 't run"
  Simd_Capacity :: "'t \<Rightarrow> u32"
  Simd_Count :: "'t \<Rightarrow> u32"
  Simd_load_factor :: "'t \<Rightarrow> rat"
  Simd_Contains :: "'k \<Rightarrow> 't \<Rightarrow> bool run"
  Simd_Remove :: "'k \<Rightarrow> 't \<Rightarrow> (bool \<times> 't) run"
  Simd_isIndex :: bool
  Simd_elements :: "(bool, 'k, 't) elements"

record ('k, 't) std_class =
  Std_new :: "'t run"
  Std_max_load_factor :: "rat \<Rightarrow> 't \<Rightarrow> 't"
  Std_reserve :: "u64 \<Rightarrow> 't \<Rightarrow> 't run"
  Std_clear :: "'t \<Rightarrow> 't run"
  Std_erase_all :: "'t \<Rightarrow> 't run"                       \<comment> \<open>\<open>erase(begin(), end())\<close>\<close>
  Std_bucket_count :: "'t \<Rightarrow> u64"
  Std_size :: "'t \<Rightarrow> u64"
  Std_load_factor :: "'t \<Rightarrow> rat"
  Std_contains :: "'k \<Rightarrow> 't \<Rightarrow> bool run"
  Std_erase :: "'k \<Rightarrow> 't \<Rightarrow> (u64 \<times> 't) run"
  Std_elements :: "(unit, 'k, 't) elements"

text \<open>\<open>isSimd<TObject>\<close> tells the two apart.\<close>

datatype ('k, 't) table_class = Simd "('k, 't) simd_class" | Std "('k, 't) std_class"

definition isIndex :: "('k, 't) table_class \<Rightarrow> bool" where
  "isIndex cls = (case cls of Simd m \<Rightarrow> Simd_isIndex m | Std m \<Rightarrow> False)"

section \<open>The test vectors\<close>

record vectors =
  erase_vector :: "u64 list"
  add_vector :: "u64 list"
  find_vector :: "u64 list"
  unknown_vector :: "u64 list"

text \<open>\<open>std::sample\<close> with the engine \<open>std::mt19937\<close> is the argument \<open>sample\<close>, from the state of the engine
  (\<open>seed\<close> at first), the elements and their number to the sample and the next state.\<close>

type_synonym 'g sampler = "'g \<Rightarrow> u64 list \<Rightarrow> nat \<Rightarrow> u64 list \<times> 'g"

definition MakeTestVector :: "'g sampler \<Rightarrow> 'g \<Rightarrow> u64 list \<Rightarrow> u64 \<Rightarrow> u64 \<Rightarrow> vectors run" where
  "MakeTestVector sample seed data_set load test_load =
     run_bind (check (unat load \<le> length data_set) Bench_assert) (\<lambda>_.
     run_bind (check (test_load \<le> test_vector_size) Bench_assert) (\<lambda>_.
       let n = unat test_load;
           (ev, g) = sample seed (take (unat load) data_set) n;
           (fv, g) = sample g (take (unat load) data_set) n;
           (av, g) = sample g ev n;
           (uv, g) = sample g (drop n data_set) n
       in ret \<lparr>erase_vector = ev, add_vector = av, find_vector = fv, unknown_vector = uv\<rparr>))"

section \<open>BenchObjectWrapper\<close>

definition bench_max_load_factor :: rat where
  "bench_max_load_factor = 16000 / (16 * 1024)"

definition Object_Clear :: "('k, 't) table_class \<Rightarrow> 't \<Rightarrow> 't run" where
  "Object_Clear cls t = (case cls of Simd m \<Rightarrow> Simd_Clear m t | Std m \<Rightarrow> Std_clear m t)"

definition Object_Capacity :: "('k, 't) table_class \<Rightarrow> 't \<Rightarrow> u32" where
  "Object_Capacity cls t = (case cls of Simd m \<Rightarrow> Simd_Capacity m t | Std m \<Rightarrow> ucast (Std_bucket_count m t))"

definition Object_Count :: "('k, 't) table_class \<Rightarrow> 't \<Rightarrow> u32" where
  "Object_Count cls t = (case cls of Simd m \<Rightarrow> Simd_Count m t | Std m \<Rightarrow> ucast (Std_size m t))"

definition Object_load_factor :: "('k, 't) table_class \<Rightarrow> 't \<Rightarrow> rat" where
  "Object_load_factor cls t = (case cls of Simd m \<Rightarrow> Simd_load_factor m t | Std m \<Rightarrow> Std_load_factor m t)"

text \<open>\<open>new TObject\<close>, the load factor, and the capacity for \<open>reserve\<close> elements.\<close>

definition Init_new :: "('k, 't) table_class \<Rightarrow> u32 \<Rightarrow> 't run" where
  "Init_new cls reserve =
     (let sz = trunc_u32 (to_double (of_nat (unat reserve) * to_double (9 / 10))) in
      case cls of
        Simd m \<Rightarrow>
          run_bind (Simd_new m) (\<lambda>t.
            let t = Simd_max_load_factor m bench_max_load_factor t
            in if reserve > 0 then Simd_Resize m sz t else ret t)
      | Std m \<Rightarrow>
          run_bind (Std_new m) (\<lambda>t.
            let t = Std_max_load_factor m bench_max_load_factor t
            in if reserve > 0 then Std_reserve m (ucast sz) t else ret t))"

definition Object_Init :: "('k, 't) table_class \<Rightarrow> u32 \<Rightarrow> bool \<Rightarrow> TestType \<Rightarrow> 't option \<Rightarrow> 't run" where
  "Object_Init cls reserve bReuse tt obj =
     (if bReuse then
        case obj of
          None \<Rightarrow> Init_new cls reserve
        | Some t \<Rightarrow>
            if tt = TEST1
            then case cls of Simd m \<Rightarrow> Simd_Clear m t | Std m \<Rightarrow> Std_erase_all m t
            else ret t
      else Init_new cls reserve)"

text \<open>\<open>static_cast<TKey>(data_set[i])\<close>, where \<open>data_set\<close> points to the element \<open>off\<close> of a vector.\<close>

definition read_key :: "u64 list \<Rightarrow> nat \<Rightarrow> nat \<Rightarrow> 'w::len word run" where
  "read_key v off i = (if off + i < length v then ret (ucast (v ! (off + i))) else abort Out_of_bounds)"

definition Object_contains :: "('k, 't) table_class \<Rightarrow> 'k \<Rightarrow> 't \<Rightarrow> bool run" where
  "Object_contains cls key t = (case cls of Simd m \<Rightarrow> Simd_Contains m key t | Std m \<Rightarrow> Std_contains m key t)"

text \<open>In reverse order the first index is \<open>load - 1\<close>, computed with 32 bits.\<close>

definition TestContains ::
    "('w::len word, 't) table_class \<Rightarrow> u64 list \<Rightarrow> nat \<Rightarrow> u32 \<Rightarrow> bool \<Rightarrow> 't \<Rightarrow> bool run" where
  "TestContains cls v off load bReverse t =
     run_fold (\<lambda>i bContains. run_bind (read_key v off i) (\<lambda>key.
         run_bind (Object_contains cls key t) (\<lambda>b. ret (bContains \<and> b))))
       (if bReverse then rev [0..<Suc (unat (load - 1))] else [0..<unat load]) True"

definition Object_remove :: "('k, 't) table_class \<Rightarrow> 'k \<Rightarrow> 't \<Rightarrow> (bool \<times> 't) run" where
  "Object_remove cls key t =
     (case cls of
        Simd m \<Rightarrow> if Simd_isIndex m then ret (True, t) else Simd_Remove m key t
      | Std m \<Rightarrow> run_bind (Std_erase m key t) (\<lambda>(n, t). ret (n = 1, t)))"

definition TestRemove :: "('w::len word, 't) table_class \<Rightarrow> u64 list \<Rightarrow> u32 \<Rightarrow> 't \<Rightarrow> (bool \<times> 't) run" where
  "TestRemove cls v load t =
     run_fold (\<lambda>i (bRemove, t). run_bind (read_key v 0 i) (\<lambda>key.
         run_bind (Object_remove cls key t) (\<lambda>(b, t). ret (bRemove \<and> b, t))))
       [0..<unat load] (True, t)"

text \<open>The insertion of a key; a map gives it the value \<open>static_cast<TKey>(i)\<close>.\<close>

definition Object_add :: "('w::len word, 't) table_class \<Rightarrow> bool \<Rightarrow> 'w word \<Rightarrow> nat \<Rightarrow> 't \<Rightarrow> (bool \<times> 't) run" where
  "Object_add cls bUnique key i t =
     (case cls of
        Simd m \<Rightarrow> (case Simd_elements m of
            As_set add _ \<Rightarrow> add bUnique key t | As_map add _ \<Rightarrow> add bUnique key (of_nat i) t)
      | Std m \<Rightarrow> (case Std_elements m of
            As_set emplace _ \<Rightarrow> emplace () key t | As_map emplace _ \<Rightarrow> emplace () key (of_nat i) t))"

definition TestAdd ::
    "('w::len word, 't) table_class \<Rightarrow> u64 list \<Rightarrow> nat \<Rightarrow> u32 \<Rightarrow> bool \<Rightarrow> 't \<Rightarrow> (bool \<times> 't) run" where
  "TestAdd cls v off load bUnique t =
     run_fold (\<lambda>i (bAdd, t). run_bind (read_key v off i) (\<lambda>key.
         run_bind (Object_add cls bUnique key i t) (\<lambda>(b, t). ret (bAdd \<and> b, t))))
       [0..<unat load] (True, t)"

text \<open>The range-based \<open>for\<close> loops: the keys, and what \<open>TEST5\<close> adds up.\<close>

definition Object_keys :: "('k, 't) table_class \<Rightarrow> 't \<Rightarrow> 'k list run" where
  "Object_keys cls t =
     (let keys = (\<lambda>items. run_bind (items t) (\<lambda>xs. ret (map fst xs))) in
      case cls of
        Simd m \<Rightarrow> (case Simd_elements m of As_set _ items \<Rightarrow> items t | As_map _ items \<Rightarrow> keys items)
      | Std m \<Rightarrow> (case Std_elements m of As_set _ items \<Rightarrow> items t | As_map _ items \<Rightarrow> keys items))"

definition Object_addends :: "('k, 't) table_class \<Rightarrow> 't \<Rightarrow> 'k list run" where
  "Object_addends cls t =
     (let values = (\<lambda>items. run_bind (items t) (\<lambda>xs. ret (map snd xs))) in
      case cls of
        Simd m \<Rightarrow> (case Simd_elements m of As_set _ items \<Rightarrow> items t | As_map _ items \<Rightarrow> values items)
      | Std m \<Rightarrow> (case Std_elements m of As_set _ items \<Rightarrow> items t | As_map _ items \<Rightarrow> values items))"

definition key_sum :: "'w::len word list \<Rightarrow> u64" where
  "key_sum ks = sum_list (map ucast ks)"

definition KeysSum :: "('w::len word, 't) table_class \<Rightarrow> 't \<Rightarrow> u64 run" where
  "KeysSum cls t = run_bind (Object_keys cls t) (\<lambda>ks. ret (key_sum ks))"

section \<open>BenchObjectWrapper::Bench\<close>

text \<open>The state of the tests is \<open>opCounter\<close> and the object. One step runs an operation, asserts its result
  and counts.\<close>

definition test_step :: "bool \<Rightarrow> u64 \<Rightarrow> ('t \<Rightarrow> (bool \<times> 't) run) \<Rightarrow> u64 \<times> 't \<Rightarrow> (u64 \<times> 't) run" where
  "test_step expected n operation = (\<lambda>(opCounter, t).
     run_bind (operation t) (\<lambda>(b, t).
     run_bind (check (b = expected) Bench_assert) (\<lambda>_. ret (opCounter + n, t))))"

definition reading :: "('t \<Rightarrow> bool run) \<Rightarrow> 't \<Rightarrow> (bool \<times> 't) run" where
  "reading operation t = run_bind (operation t) (\<lambda>b. ret (b, t))"

definition run_TEST2 :: "('w::len word, 't) table_class \<Rightarrow> bool \<Rightarrow> vectors \<Rightarrow> u64 \<Rightarrow> 't \<Rightarrow> (u64 \<times> 't) run" where
  "run_TEST2 cls bUnique v test_load t =
     (let n = ucast test_load :: u32;
          contains = (\<lambda>xs. reading (TestContains cls xs 0 n False));
          remove = (\<lambda>xs. TestRemove cls xs n);
          add = (\<lambda>xs u. TestAdd cls xs 0 n u);
          step = (\<lambda>expected. test_step expected test_load)
      in run_steps
        ((if isIndex cls then []
          else
           [step True (remove (erase_vector v)),
            step False (remove (erase_vector v)),
            step False (contains (erase_vector v)),
            step False (contains (add_vector v)),
            step False (contains (unknown_vector v)),
            step True (add (add_vector v) bUnique),
            step False (add (add_vector v) False),
            step True (contains (find_vector v)),
            step True (remove (erase_vector v)),
            step False (remove (erase_vector v)),
            step True (add (add_vector v) bUnique),
            step False (add (add_vector v) False)])
         @ [step True (contains (erase_vector v)),
            step True (contains (add_vector v)),
            step True (contains (find_vector v)),
            step False (contains (unknown_vector v))]) (0, t))"

text \<open>\<open>TEST3\<close> and, in reverse order, \<open>TEST4\<close>.\<close>

definition run_TEST34 :: "('w::len word, 't) table_class \<Rightarrow> bool \<Rightarrow> u64 list \<Rightarrow> u64 \<Rightarrow> 't \<Rightarrow> (u64 \<times> 't) run" where
  "run_TEST34 cls bReverse data_set load t =
     (let sz = load * 5 div 100;
          contains = (\<lambda>off. reading (TestContains cls data_set off (ucast sz) bReverse))
      in run_steps
           [test_step True sz (contains 0),
            test_step True sz (contains (unat (load div 2) - unat (sz div 2))),
            test_step True sz (contains (unat load - unat sz))] (0, t))"

definition run_TEST5 :: "('w::len word, 't) table_class \<Rightarrow> 't \<Rightarrow> (u64 \<times> 't) run" where
  "run_TEST5 cls t =
     run_bind (run_fold (\<lambda>_ (opCounter, sum). run_bind (Object_addends cls t) (\<lambda>xs.
           ret (opCounter + of_nat (length xs), sum + key_sum xs))) [0..<10] (0, 0 :: u64))
       (\<lambda>(opCounter, sum). ret (opCounter, t))"

text \<open>What one line of the output tells.\<close>

record row =
  row_load_factor :: rat
  row_Count :: u32
  row_opCounter :: u64
  row_capacity :: u32      \<comment> \<open>before the test\<close>
  row_Capacity :: u32      \<comment> \<open>after it\<close>

definition flag_reuse :: "u64 \<Rightarrow> bool" where "flag_reuse flags \<longleftrightarrow> flags AND 0x0000100000000000 \<noteq> 0"
definition flag_unique :: "u64 \<Rightarrow> bool" where "flag_unique flags \<longleftrightarrow> flags AND 0x1000000000000000 \<noteq> 0"

text \<open>The insertion of the data set, of what is missing when the object is used again.\<close>

definition Bench_fill ::
    "('w::len word, 't) table_class \<Rightarrow> u64 \<Rightarrow> u64 list \<Rightarrow> u64 \<Rightarrow> TestType \<Rightarrow> 't \<Rightarrow> 't run" where
  "Bench_fill cls flags data_set load tt t =
     run_bind
       (if tt = TEST1 \<or> \<not> flag_reuse flags then TestAdd cls data_set 0 (ucast load) (flag_unique flags) t
        else TestAdd cls data_set (unat (Object_Count cls t)) (ucast (load - ucast (Object_Count cls t)))
               (flag_unique flags) t) (\<lambda>(b, t).
     run_bind (check b Bench_assert) (\<lambda>_.
     run_bind (check (load = ucast (Object_Count cls t)) Bench_assert) (\<lambda>_. ret t)))"

definition run_test ::
    "('w::len word, 't) table_class \<Rightarrow> u64 \<Rightarrow> vectors \<Rightarrow> u64 list \<Rightarrow> u64 \<Rightarrow> TestType \<Rightarrow> 't \<Rightarrow> (u64 \<times> 't) run" where
  "run_test cls flags v data_set load tt t =
     (case tt of
        TEST2 \<Rightarrow> run_TEST2 cls (flag_unique flags) v (load div 100) t
      | TEST3 \<Rightarrow> run_TEST34 cls False data_set load t
      | TEST4 \<Rightarrow> run_TEST34 cls True data_set load t
      | TEST5 \<Rightarrow> run_TEST5 cls t
      | _ \<Rightarrow> ret (ucast (Object_Count cls t), t))"

text \<open>The check of the keys and the output: the time per operation is an integer division except for
  \<open>TEST5\<close>, the memory per element always is.\<close>

definition Bench_report ::
    "('w::len word, 't) table_class \<Rightarrow> u64 list \<Rightarrow> u64 \<Rightarrow> TestType \<Rightarrow> u32 \<Rightarrow> u64 \<times> 't \<Rightarrow> (row \<times> 't) run" where
  "Bench_report cls data_set load tt capacity = (\<lambda>(opCounter, t).
     run_bind (KeysSum cls t) (\<lambda>sum.
     run_bind (check (key_sum (map ucast (take (unat load) data_set) :: 'w word list) = sum) Bench_assert) (\<lambda>_.
     run_bind (check (tt = TEST5 \<or> opCounter \<noteq> 0) Division_by_zero) (\<lambda>_.
     run_bind (check (load \<noteq> 0) Division_by_zero) (\<lambda>_.
       ret (\<lparr>row_load_factor = Object_load_factor cls t, row_Count = Object_Count cls t,
             row_opCounter = opCounter, row_capacity = capacity, row_Capacity = Object_Capacity cls t\<rparr>, t))))))"

definition Object_Bench ::
    "('w::len word, 't) table_class \<Rightarrow> 'g sampler \<Rightarrow> 'g \<Rightarrow> u64 \<Rightarrow> u64 list \<Rightarrow> u64 \<Rightarrow> TestType \<Rightarrow> 't \<Rightarrow> (row \<times> 't) run" where
  "Object_Bench cls sample seed flags data_set load tt t =
     run_bind (MakeTestVector sample seed data_set load (load div 100)) (\<lambda>v.
     run_bind (Bench_fill cls flags data_set load tt t) (\<lambda>t'.
     run_bind (run_test cls flags v data_set load tt t')
       (Bench_report cls data_set load tt (Object_Capacity cls t))))"

section \<open>Bench\<close>

definition test_type :: "u64 \<Rightarrow> TestType" where
  "test_type flags =
     (if flags AND 0x0000010000000000 \<noteq> 0 then TEST2
      else if flags AND 0x0000001000000000 \<noteq> 0 then TEST3
      else if flags AND 0x0000000100000000 \<noteq> 0 then TEST4
      else if flags AND 0x0000000010000000 \<noteq> 0 then TEST5
      else TEST1)"

definition bench_reserve :: "bench_args \<Rightarrow> u64" where
  "bench_reserve a =
     (if BenchFlags a AND 0x0100000000000000 \<noteq> 0 then maxLoad a
      else if BenchFlags a AND 0x0010000000000000 \<noteq> 0 then 1000000
      else if BenchFlags a AND 0x0001000000000000 \<noteq> 0 then maxLoad a div 2
      else startLoad a)"

text \<open>\<open>for (load = startLoad; load <= maxLoad; load += stepLoad)\<close>\<close>

partial_function (option) Bench_loads ::
    "('w::len word, 't) table_class \<Rightarrow> 'g sampler \<Rightarrow> 'g \<Rightarrow> bench_args \<Rightarrow> u64 list \<Rightarrow> u64 \<Rightarrow> row list \<Rightarrow> 't option \<Rightarrow>
      (row list \<times> 't option) run" where
  "Bench_loads cls sample seed a data_set load rows obj =
     (if load \<le> maxLoad a then
        run_bind (Object_Init cls (ucast (bench_reserve a)) (flag_reuse (BenchFlags a))
            (test_type (BenchFlags a)) obj) (\<lambda>t.
        run_bind (Object_Bench cls sample seed (BenchFlags a) data_set load (test_type (BenchFlags a)) t) (\<lambda>(row, t).
          Bench_loads cls sample seed a data_set (load + stepLoad a) (rows @ [row]) (Some t)))
      else ret (rows, obj))"

declare Bench_loads.simps [code]

definition Bench ::
    "('w::len word, 't) table_class \<Rightarrow> 'g sampler \<Rightarrow> 'g \<Rightarrow> bench_args \<Rightarrow> u64 list \<Rightarrow> row list run" where
  "Bench cls sample seed a data_set =
     run_bind (check (test_type (BenchFlags a) \<noteq> UNKNOWN) Bench_assert) (\<lambda>_.
     run_bind (Bench_loads cls sample seed a data_set (startLoad a) [] None) (\<lambda>(rows, obj). ret rows))"

end
