(* ===== verification/BenchContract.thy ===== *)
theory BenchContract
  imports BenchObject "HOL-Library.Multiset" "HOL-Library.Sublist"
begin

text \<open>
  What the benchmark relies on, as a locale: the contract of a table of keys, with a second one for tables
  that can remove keys. The tests of \<^verbatim>\<open>BenchObjectWrapper\<close> are proved once in these
  locales; the theories of the tables interpret them.

  In the contract, \<open>holds t S V r M\<close> says that the table \<open>t\<close> holds the keys \<open>S\<close>, that an insertion finds
  those in \<open>V\<close> (a removal can hide a key from insertions), that \<open>r\<close> keys have been removed, and that it has
  held \<open>M\<close> keys at once. Searches end while \<open>50 * r \<le> M\<close>. An operation may end with
  \<open>std::length_error\<close> if \<open>throws\<close>.
\<close>

section \<open>Outcomes with a postcondition\<close>

definition ends :: "bool \<Rightarrow> 'a run \<Rightarrow> ('a \<Rightarrow> bool) \<Rightarrow> bool" where
  "ends throws m P \<longleftrightarrow> throws \<and> m = abort Length_error \<or> (\<exists>x. m = ret x \<and> P x)"

definition stops :: "bool \<Rightarrow> 'a run \<Rightarrow> failure \<Rightarrow> bool" where
  "stops throws m e \<longleftrightarrow> throws \<and> m = abort Length_error \<or> m = abort e"

lemma ends_ret [simp]: "ends th (ret x) P \<longleftrightarrow> P x"
  by (auto simp: ends_def)

lemma ends_bind: "ends th m P \<Longrightarrow> (\<And>x. P x \<Longrightarrow> ends th (f x) Q) \<Longrightarrow> ends th (run_bind m f) Q"
  unfolding ends_def by fastforce

lemma stops_bind: "ends th m P \<Longrightarrow> (\<And>x. P x \<Longrightarrow> stops th (f x) e) \<Longrightarrow> stops th (run_bind m f) e"
  unfolding ends_def stops_def by fastforce

lemma stops_abort [simp]: "stops th (abort e) e"
  by (simp add: stops_def)

lemma ends_mono: "ends th m P \<Longrightarrow> (\<And>x. P x \<Longrightarrow> Q x) \<Longrightarrow> ends th m Q"
  by (auto simp: ends_def)

lemma ends_upt:
  assumes "I 0 s" "\<And>i s. i < n \<Longrightarrow> I i s \<Longrightarrow> ends th (f i s) (I (Suc i))"
  shows "ends th (run_fold f [0..<n] s) (I n)"
  using assms(2)
proof (induction n)
  case 0
  with assms(1) show ?case by simp
next
  case (Suc n)
  have "ends th (run_fold f [0..<n] s) (I n)" using Suc by simp
  then have "ends th (run_bind (run_fold f [0..<n] s) (f n)) (I (Suc n))" by (rule ends_bind) (simp add: Suc.prems)
  moreover have "run_fold f [n] = f n" by (simp add: run_fold_fun del: run_fold.simps)
  ultimately show ?case by (simp add: run_fold_append)
qed

lemma run_fold_all:
  assumes "\<And>i b. i \<in> set xs \<Longrightarrow> f i b = ret (b \<and> P i)"
  shows "run_fold f xs b = ret (b \<and> (\<forall>i \<in> set xs. P i))"
  using assms by (induction xs arbitrary: b) auto

section \<open>The contracts\<close>

locale key_table =
  fixes cls :: "('w::len word, 't) table_class"
    and holds :: "'t \<Rightarrow> 'w word set \<Rightarrow> 'w word set \<Rightarrow> nat \<Rightarrow> nat \<Rightarrow> bool"
    and bound :: nat
    and throws :: bool
  assumes bound: "bound < 2 ^ 32"
    and facts: "holds t S V r M \<Longrightarrow> finite S \<and> V \<subseteq> S \<and> card S \<le> M"
    and start: "ends throws (Init_new cls n) (\<lambda>t. holds t {} {} 0 0)"
    and reset: "holds t S V r M \<Longrightarrow> ends throws (Object_Init cls n True TEST1 (Some t)) (\<lambda>t. holds t {} {} 0 0)"
    and add_new: "holds t S V r M \<Longrightarrow> k \<notin> S \<Longrightarrow> card S < bound \<Longrightarrow>
      ends throws (Object_add cls u k i t)
        (\<lambda>(b, t). b \<and> holds t (insert k S) (insert k V) r (max M (Suc (card S))))"
    and add_seen: "holds t S V r M \<Longrightarrow> k \<in> V \<Longrightarrow> card S \<le> bound \<Longrightarrow>
      Object_add cls False k i t = ret (False, t)"
    and contains: "holds t S V r M \<Longrightarrow> 50 * r \<le> M \<Longrightarrow> card S \<le> bound \<Longrightarrow> M \<le> bound \<Longrightarrow>
      Object_contains cls k t = ret (k \<in> S)"
    and counted: "holds t S V r M \<Longrightarrow> unat (Object_Count cls t) = card S"
    and keys: "holds t S V r M \<Longrightarrow> \<exists>ks. Object_keys cls t = ret ks \<and> mset ks = mset_set S"
    and addends: "holds t S V r M \<Longrightarrow> \<exists>xs. Object_addends cls t = ret xs \<and> length xs = card S"

locale removal_table = key_table cls holds bound throws
  for cls :: "('w::len word, 't) table_class" and holds bound throws +
  assumes not_index: "\<not> isIndex cls"
    and remove: "holds t S V r M \<Longrightarrow> 50 * r \<le> M \<Longrightarrow> M \<le> bound \<Longrightarrow> \<exists>t'. Object_remove cls k t = ret (k \<in> S, t')
      \<and> (if k \<in> S then holds t' (S - {k}) {} (Suc r) M else t' = t)"

section \<open>Keys of a vector\<close>

definition vec_keys :: "u64 list \<Rightarrow> 'w::len word list" where
  "vec_keys v = map ucast v"

lemma vec_keys_simps [simp]:
  "length (vec_keys v) = length v" "vec_keys (take n v) = take n (vec_keys v)"
  "vec_keys (drop n v) = drop n (vec_keys v)"
  by (simp_all add: vec_keys_def take_map drop_map)

lemma read_key_ok: "off + i < length v \<Longrightarrow> read_key v off i = ret (vec_keys v ! (off + i))"
  by (simp add: read_key_def vec_keys_def)

lemma take_Suc_nth: "i < length xs \<Longrightarrow> set (take (Suc i) xs) = insert (xs ! i) (set (take i xs))"
  by (simp add: take_Suc_conv_app_nth)

lemma nth_notin_take: "distinct xs \<Longrightarrow> i < length xs \<Longrightarrow> xs ! i \<notin> set (take i xs)"
  by (auto simp: in_set_conv_nth nth_eq_iff_index_eq)

lemma nth_in_take_drop: "i < n \<Longrightarrow> off + n \<le> length xs \<Longrightarrow> xs ! (off + i) \<in> set (take n (drop off xs))"
  by (auto simp: in_set_conv_nth intro!: exI[of _ i])

lemma key_sum_set:
  assumes "mset ks = mset_set (set xs)" "distinct xs"
  shows "key_sum ks = key_sum xs"
proof -
  have "mset ks = mset xs" using assms by (simp add: mset_set_set)
  then have "mset (map ucast ks :: u64 list) = mset (map ucast xs)" by simp
  then show ?thesis unfolding key_sum_def by (metis sum_mset_sum_list)
qed

section \<open>The operations on all keys of a vector\<close>

context key_table begin

lemma TestContains_ok:
  assumes h: "holds t S V r M" "50 * r \<le> M" "M \<le> bound"
    and len: "off + unat load \<le> length v" and rv: "bReverse \<longrightarrow> load \<noteq> 0"
  shows "TestContains cls v off load bReverse t = ret (set (take (unat load) (drop off (vec_keys v))) \<subseteq> S)"
proof -
  let ?xs = "take (unat load) (drop off (vec_keys v))"
  have b: "card S \<le> bound" using facts[OF h(1)] h(3) by simp
  have "Suc (unat (load - 1)) = unat load" if "load \<noteq> 0"
    using that by (metis Suc_pred' unat_gt_0 unat_minus_one)
  then have idx: "set (if bReverse then rev [0..<Suc (unat (load - 1))] else [0..<unat load]) = {..<unat load}"
    using rv by (cases bReverse) (simp_all add: atLeast0LessThan del: upt_Suc)
  have nth: "?xs ! i = vec_keys v ! (off + i)" if "i < unat load" for i using that len by simp
  have "TestContains cls v off load bReverse t = ret (True \<and> (\<forall>i \<in> {..<unat load}. vec_keys v ! (off + i) \<in> S))"
    unfolding TestContains_def idx[symmetric]
    by (rule run_fold_all) (use len idx in \<open>simp add: read_key_ok contains[OF h(1,2) b h(3)]\<close>)
  moreover have "set ?xs = {vec_keys v ! (off + i) |i. i < unat load}"
    using len nth by (force simp: in_set_conv_nth)
  ultimately show ?thesis by (auto simp: subset_iff)
qed

lemma TestAdd_new:
  fixes v :: "u64 list"
  defines "xs \<equiv> \<lambda>off n. take n (drop off (vec_keys v :: 'w word list))"
  assumes h: "holds t S V r M" and len: "off + unat load \<le> length v"
    and d: "distinct (xs off (unat load))" "set (xs off (unat load)) \<inter> S = {}" and b: "card S + unat load \<le> bound"
  shows "ends throws (TestAdd cls v off load u t) (\<lambda>(b, t). b
    \<and> holds t (S \<union> set (xs off (unat load))) (V \<union> set (xs off (unat load))) r (max M (card S + unat load)))"
proof -
  let ?n = "unat load"
  let ?I = "\<lambda>i (b, t). b \<and> holds t (S \<union> set (xs off i)) (V \<union> set (xs off i)) r (max M (card S + i))"
  have pre: "xs off i = take i (xs off ?n)" if "i \<le> ?n" for i using that by (simp add: xs_def min_def)
  have "ends throws (TestAdd cls v off load u t) (?I ?n)"
    unfolding TestAdd_def
  proof (rule ends_upt)
    show "?I 0 (True, t)" using h facts[OF h] by (simp add: xs_def max_absorb1)
  next
    fix i s assume i: "i < ?n" and I: "?I i s"
    obtain b t where s: "s = (b, t)" by (cases s)
    define k where "k = (vec_keys v :: 'w word list) ! (off + i)"
    note p = pre[OF less_imp_le[OF i]] pre[OF Suc_leI[OF i]]
    have k: "k = xs off ?n ! i" and l: "length (xs off ?n) = ?n" using i len by (simp_all add: k_def xs_def)
    then have kin: "k \<in> set (xs off ?n)" using i by simp
    have nk: "k \<notin> set (xs off i)" using nth_notin_take[OF d(1)] i l by (simp add: k p)
    have Suc: "set (xs off (Suc i)) = insert k (set (xs off i))"
      using i l take_Suc_nth[of i "xs off ?n"] by (simp add: k p)
    have fin: "finite S" using facts[OF h] by simp
    have "S \<inter> set (xs off i) = {}" using d(2) set_take_subset[of i "xs off ?n"] i by (auto simp: p dest: in_set_takeD)
    moreover have "card (set (xs off i)) = i"
      using i l d(1) by (subst distinct_card) (simp_all add: p distinct_take)
    ultimately have c: "card (S \<union> set (xs off i)) = card S + i" using fin by (simp add: card_Un_disjoint)
    have "k \<notin> S \<union> set (xs off i)" using nk kin d(2) by auto
    from add_new[OF _ this, of t "V \<union> set (xs off i)" r "max M (card S + i)" u i] I s b i
    have "ends throws (Object_add cls u k i t) (\<lambda>(b, t). b \<and> holds t (S \<union> set (xs off (Suc i)))
        (V \<union> set (xs off (Suc i))) r (max M (card S + Suc i)))"
      by (simp add: c Suc max.assoc)
    moreover have "read_key v off i = ret k" using i len by (simp add: read_key_ok k_def)
    ultimately show "ends throws ((case s of (bAdd, t) \<Rightarrow> run_bind (read_key v off i) (\<lambda>key.
         run_bind (Object_add cls u key i t) (\<lambda>(b, t). ret (bAdd \<and> b, t))))) (?I (Suc i))"
      using I s by (auto intro!: ends_bind)
  qed
  then show ?thesis by (simp add: xs_def)
qed

lemma TestAdd_seen:
  assumes h: "holds t S V r M" "card S \<le> bound" and len: "off + unat load \<le> length v"
    and sub: "set (take (unat load) (drop off (vec_keys v))) \<subseteq> V"
  shows "TestAdd cls v off load False t = ret (load = 0, t)"
proof -
  let ?f = "\<lambda>i (bAdd, t). run_bind (read_key v off i) (\<lambda>key.
         run_bind (Object_add cls False key i t) (\<lambda>(b, t). ret (bAdd \<and> b, t)))"
  have "run_fold ?f [0..<n] (True, t) = ret (n = 0, t)" if "n \<le> unat load" for n
    using that
  proof (induction n)
    case (Suc n)
    have "vec_keys v ! (off + n) \<in> V"
      using nth_in_take_drop[of n "unat load" off "vec_keys v"] Suc.prems len sub by auto
    then show ?case using Suc len by (simp add: run_fold_append read_key_ok add_seen[OF h(1) _ h(2)])
  qed simp
  from this[of "unat load"] show ?thesis by (simp add: TestAdd_def unat_eq_0)
qed

lemma KeysSum_ok:
  assumes "holds t S V r M" "S = set xs" "distinct xs"
  shows "KeysSum cls t = ret (key_sum xs)"
  using keys[OF assms(1)] key_sum_set[of _ xs] assms(2,3) by (auto simp: KeysSum_def)

end

context removal_table begin

lemma TestRemove_there:
  fixes v :: "u64 list"
  defines "xs \<equiv> \<lambda>n. take n (vec_keys v :: 'w word list)"
  assumes h: "holds t S V r M" "M \<le> bound" and len: "unat load \<le> length v" and nz: "load \<noteq> 0"
    and d: "distinct (xs (unat load))" "set (xs (unat load)) \<subseteq> S" and r: "50 * (r + unat load) \<le> M"
  shows "\<exists>t'. TestRemove cls v load t = ret (True, t') \<and> holds t' (S - set (xs (unat load))) {} (r + unat load) M"
proof -
  let ?n = "unat load"
  let ?f = "\<lambda>i (bRemove, t). run_bind (read_key v 0 i) (\<lambda>key.
         run_bind (Object_remove cls key t) (\<lambda>(b, t). ret (bRemove \<and> b, t)))"
  let ?I = "\<lambda>i (b, t'). b \<and> holds t' (S - set (xs i)) (if i = 0 then V else {}) (r + i) M"
  have "\<exists>s'. run_fold ?f [0..<?n] (True, t) = ret s' \<and> ?I ?n s'"
  proof (rule run_fold_upt)
    show "?I 0 (True, t)" using h by (simp add: xs_def)
  next
    fix i s assume i: "i < ?n" and I: "?I i s"
    obtain b t where s: "s = (b, t)" by (cases s)
    define k where "k = (vec_keys v :: 'w word list) ! i"
    have l: "length (xs ?n) = ?n" using len by (simp add: xs_def)
    have pre: "xs j = take j (xs ?n)" if "j \<le> ?n" for j using that by (simp add: xs_def min_def)
    note p = pre[OF less_imp_le[OF i]] pre[OF Suc_leI[OF i]]
    have k: "k = xs ?n ! i" using i by (simp add: k_def xs_def)
    have kin: "k \<in> S - set (xs i)"
      using i l d(2) nth_notin_take[OF d(1)] by (auto simp: k p)
    have "set (xs (Suc i)) = insert k (set (xs i))"
      using i l take_Suc_nth[of i "xs ?n"] by (simp add: k p)
    then have S': "S - set (xs i) - {k} = S - set (xs (Suc i))" by auto
    have H: "holds t (S - set (xs i)) (if i = 0 then V else {}) (r + i) M" "50 * (r + i) \<le> M"
      using I s r i by simp_all
    obtain t' where "Object_remove cls k t = ret (True, t')" "holds t' (S - set (xs (Suc i))) {} (Suc (r + i)) M"
      using remove[OF H h(2), of k] kin unfolding S' by auto
    moreover have "read_key v 0 i = ret k" using i len by (simp add: read_key_ok k_def)
    ultimately have "?f i s = ret (True, t')" "?I (Suc i) (True, t')" using I s by simp_all
    then show "\<exists>s'. ?f i s = ret s' \<and> ?I (Suc i) s'" by blast
  qed
  then obtain b t' where "run_fold ?f [0..<?n] (True, t) = ret (b, t')" "?I ?n (b, t')" by (metis surj_pair)
  then show ?thesis using nz by (simp add: TestRemove_def unat_eq_0)
qed

lemma TestRemove_absent:
  assumes h: "holds t S V r M" "M \<le> bound" "50 * r \<le> M" and len: "unat load \<le> length v"
    and d: "set (take (unat load) (vec_keys v)) \<inter> S = {}"
  shows "TestRemove cls v load t = ret (load = 0, t)"
proof -
  let ?f = "\<lambda>i (bRemove, t). run_bind (read_key v 0 i) (\<lambda>key.
         run_bind (Object_remove cls key t) (\<lambda>(b, t). ret (bRemove \<and> b, t)))"
  have "run_fold ?f [0..<n] (True, t) = ret (n = 0, t)" if "n \<le> unat load" for n
    using that
  proof (induction n)
    case (Suc n)
    have "vec_keys v ! n \<in> set (take (unat load) (vec_keys v))"
      using nth_in_take_drop[of n "unat load" 0 "vec_keys v"] Suc.prems len by simp
    then have "vec_keys v ! n \<notin> S" using d by auto
    then show ?case using Suc len remove[OF h(1,3,2), of "vec_keys v ! n"]
      by (auto simp: run_fold_append read_key_ok)
  qed simp
  from this[of "unat load"] show ?thesis by (simp add: TestRemove_def unat_eq_0)
qed

end

end
