(* ===== verification/BenchTests.thy ===== *)
theory BenchTests
  imports BenchContract
begin

text \<open>
  The tests of \<^verbatim>\<open>BenchObjectWrapper::Bench\<close> on a table that keeps the contract: which
  loads they accept, that their assertions then hold, and how many operations they count.
\<close>

section \<open>The test vectors\<close>

text \<open>What the standard says of \<open>std::sample\<close> for a vector: as many elements as asked for, or all when there
  are fewer, in the order of the vector.\<close>

definition sampler_ok :: "'g sampler \<Rightarrow> bool" where
  "sampler_ok sample \<longleftrightarrow> (\<forall>g xs n. subseq (fst (sample g xs n)) xs \<and> length (fst (sample g xs n)) = min n (length xs))"

definition vectors_ok :: "u64 list \<Rightarrow> nat \<Rightarrow> nat \<Rightarrow> vectors \<Rightarrow> bool" where
  "vectors_ok data_set load n v \<longleftrightarrow>
     subseq (erase_vector v) (take load data_set) \<and> length (erase_vector v) = n
     \<and> add_vector v = erase_vector v
     \<and> subseq (find_vector v) (take load data_set) \<and> length (find_vector v) = n
     \<and> length (unknown_vector v) = n"

lemma MakeTestVector_ok:
  assumes s: "sampler_ok sample" and len: "unat load \<le> length data_set" and n: "load div 100 \<le> test_vector_size"
  shows "\<exists>v. MakeTestVector sample seed data_set load (load div 100) = ret v
    \<and> vectors_ok data_set (unat load) (unat load div 100) v"
proof -
  let ?n = "unat load div 100" and ?known = "take (unat load) data_set"
  have u: "unat (load div 100) = ?n" by (simp add: unat_div)
  have S: "subseq (fst (sample g xs m)) xs" "length (fst (sample g xs m)) = min m (length xs)" for g xs m
    using s by (auto simp: sampler_ok_def)
  obtain ev g1 where e: "sample seed ?known ?n = (ev, g1)" by force
  obtain fv g2 where f: "sample g1 ?known ?n = (fv, g2)" by force
  obtain av g3 where a: "sample g2 ev ?n = (av, g3)" by force
  obtain uv g4 where w: "sample g3 (drop ?n data_set) ?n = (uv, g4)" by force
  have lev: "length ev = ?n" using S(2)[of seed ?known ?n] e len by simp
  have "length av = length ev" using S(2)[of g2 ev ?n] a lev by simp
  then have "av = ev" using S(1)[of g2 ev ?n] a by (simp add: subseq_same_length)
  moreover have "length uv = ?n" using S(2)[of g3 "drop ?n data_set" ?n] w len by simp
  moreover have "length fv = ?n" using S(2)[of g1 ?known ?n] f len by simp
  moreover have "subseq ev ?known" "subseq fv ?known" using S(1)[of seed ?known ?n] S(1)[of g1 ?known ?n] e f by simp_all
  ultimately show ?thesis
    using len n lev by (simp add: MakeTestVector_def u e f a w vectors_ok_def)
qed

lemma subseq_keys:
  assumes "subseq xs (take n v)"
  shows "set (vec_keys xs :: 'w::len word list) \<subseteq> set (take n (vec_keys v))"
    "distinct (vec_keys v :: 'w word list) \<Longrightarrow> distinct (vec_keys xs :: 'w word list)"
proof -
  have "subseq (vec_keys xs :: 'w word list) (take n (vec_keys v))"
    using subseq_map[OF assms, of ucast] by (simp add: vec_keys_def take_map)
  then show "set (vec_keys xs :: 'w word list) \<subseteq> set (take n (vec_keys v))"
    "distinct (vec_keys v :: 'w word list) \<Longrightarrow> distinct (vec_keys xs :: 'w word list)"
    by (auto simp: subseq_conv_nths dest: in_set_nthsD intro: distinct_nthsI)
qed

section \<open>Steps\<close>

lemma run_steps_simps [simp]:
  "run_steps [] s = ret s" "run_steps (st # sts) s = run_bind (st s) (run_steps sts)"
  "run_steps (xs @ ys) s = run_bind (run_steps xs s) (run_steps ys)"
  by (simp_all add: run_steps_def run_fold_append)

lemma test_step_ret:
  "operation t = ret (expected, t') \<Longrightarrow> test_step expected n operation (c, t) = ret (c + n, t')"
  by (simp add: test_step_def)

lemma test_step_reading:
  "operation t = ret expected \<Longrightarrow> test_step expected n (reading operation) (c, t) = ret (c + n, t)"
  by (simp add: test_step_def reading_def)

lemma test_step_fails:
  "operation t = ret (\<not> expected, t') \<Longrightarrow> test_step expected n operation (c, t) = abort Bench_assert"
  by (simp add: test_step_def)

lemma test_step_ends:
  assumes "ends th (operation t) (\<lambda>(b, t). b = expected \<and> P t)"
  shows "ends th (test_step expected n operation (c, t)) (\<lambda>(c', t). c' = c + n \<and> P t)"
  unfolding test_step_def by (auto intro!: ends_bind[OF assms])

section \<open>The phases of TEST2\<close>

context removal_table begin

lemma remove_phase:
  assumes h: "holds t S V r M" "M \<le> bound" and len: "unat n \<le> length v" and nz: "n \<noteq> 0"
    and d: "distinct (take (unat n) (vec_keys v) :: 'w word list)" "set (take (unat n) (vec_keys v)) \<subseteq> S"
    and r: "50 * (r + unat n) \<le> M"
  shows "\<exists>t'. run_steps [test_step True m (TestRemove cls v n), test_step False m (TestRemove cls v n)] (c, t)
      = ret (c + 2 * m, t') \<and> holds t' (S - set (take (unat n) (vec_keys v))) {} (r + unat n) M"
proof -
  obtain t' where t': "TestRemove cls v n t = ret (True, t')"
    "holds t' (S - set (take (unat n) (vec_keys v))) {} (r + unat n) M"
    using TestRemove_there[OF h len nz d r] by blast
  have "TestRemove cls v n t' = ret (False, t')"
    using TestRemove_absent[OF t'(2) h(2) r len] nz by auto
  then show ?thesis using t' by (simp add: test_step_ret)
qed

lemma add_phase:
  assumes h: "holds t (S - set (take (unat n) (vec_keys v))) {} r M" "M \<le> bound" "card S \<le> M" "finite S"
    and len: "unat n \<le> length v" and nz: "n \<noteq> 0"
    and d: "distinct (take (unat n) (vec_keys v) :: 'w word list)" "set (take (unat n) (vec_keys v)) \<subseteq> S"
  shows "ends throws (run_steps [test_step True m (TestAdd cls v 0 n u), test_step False m (TestAdd cls v 0 n False)] (c, t))
      (\<lambda>(c', t'). c' = c + 2 * m \<and> holds t' S (set (take (unat n) (vec_keys v))) r M)"
proof -
  let ?E = "set (take (unat n) (vec_keys v)) :: 'w word set"
  have "card ?E = unat n" using d(1) len by (simp add: distinct_card)
  then have c: "card (S - ?E) + unat n = card S"
    using d(2) h(4) card_mono[OF h(4) d(2)] by (simp add: card_Diff_subset)
  have un: "S - ?E \<union> ?E = S" using d(2) by auto
  have "ends throws (TestAdd cls v 0 n u t) (\<lambda>(b, t'). b = True \<and> holds t' S ?E r M)"
    using TestAdd_new[OF h(1), of 0 n v u] len d(1) h(2,3) c un by (simp add: max_absorb1 Un_commute)
  note st = test_step_ends[where P = "\<lambda>t'. holds t' S ?E r M" and operation = "TestAdd cls v 0 n u" and t = t,
      OF this, of m c]
  show ?thesis
  proof (subst run_steps_simps(2), rule ends_bind[OF st])
    fix x assume "case x of (c', t') \<Rightarrow> c' = c + m \<and> holds t' S ?E r M"
    then obtain t' where x: "x = (c + m, t')" and t': "holds t' S ?E r M" by (cases x) simp
    have "TestAdd cls v 0 n False t' = ret (False, t')"
      using TestAdd_seen[OF t', of 0 n v] h(2,3) len nz by simp
    then show "ends throws (run_steps [test_step False m (TestAdd cls v 0 n False)] x)
        (\<lambda>(c', t'). c' = c + 2 * m \<and> holds t' S ?E r M)"
      using t' by (simp add: test_step_ret x)
  qed
qed

end

section \<open>The loads that are accepted\<close>

text \<open>Of the sample \<open>unknown_vector\<close> at least one key is not in the table.\<close>

definition unknown_drawn :: "'w::len itself \<Rightarrow> 'g sampler \<Rightarrow> 'g \<Rightarrow> u64 list \<Rightarrow> u64 \<Rightarrow> bool" where
  "unknown_drawn _ sample seed data_set load \<longleftrightarrow>
     (\<forall>v. MakeTestVector sample seed data_set load (load div 100) = ret v \<longrightarrow>
        \<not> set (vec_keys (unknown_vector v) :: 'w word list) \<subseteq> set (take (unat load) (vec_keys data_set)))"

definition good_load :: "'w::len itself \<Rightarrow> nat \<Rightarrow> 'g sampler \<Rightarrow> 'g \<Rightarrow> u64 list \<Rightarrow> TestType \<Rightarrow> u64 \<Rightarrow> bool" where
  "good_load W bound sample seed data_set tt load \<longleftrightarrow>
     load \<noteq> 0 \<and> unat load \<le> length data_set \<and> unat load \<le> bound \<and> load div 100 \<le> test_vector_size
     \<and> (tt = TEST2 \<longrightarrow> 100 \<le> load \<and> unknown_drawn W sample seed data_set load)
     \<and> (tt = TEST3 \<or> tt = TEST4 \<longrightarrow> 20 \<le> load)"

definition counted_operations :: "('k, 't) table_class \<Rightarrow> TestType \<Rightarrow> u64 \<Rightarrow> u64" where
  "counted_operations cls tt load =
     (case tt of
        TEST2 \<Rightarrow> (if isIndex cls then 4 else 16) * (load div 100)
      | TEST3 \<Rightarrow> 3 * (load * 5 div 100)
      | TEST4 \<Rightarrow> 3 * (load * 5 div 100)
      | TEST5 \<Rightarrow> 10 * load
      | _ \<Rightarrow> load)"

section \<open>The tests\<close>

lemma ucast_small: "unat x < 2 ^ 32 \<Longrightarrow> unat (ucast (x :: u64) :: u32) = unat x"
  by (simp add: unsigned_ucast_eq take_bit_nat_eq_self)

context key_table begin

lemma final_reads:
  assumes h: "holds t S V r M" "M \<le> bound" "50 * r \<le> M"
    and len: "length xs = unat n" "length ys = unat n" "length us = unat n"
    and sub: "set (vec_keys xs) \<subseteq> S" "set (vec_keys ys) \<subseteq> S" "\<not> set (vec_keys us :: 'w word list) \<subseteq> S"
  shows "run_steps
      [test_step True m (reading (TestContains cls xs 0 n False)),
       test_step True m (reading (TestContains cls xs 0 n False)),
       test_step True m (reading (TestContains cls ys 0 n False)),
       test_step False m (reading (TestContains cls us 0 n False))] (c, t) = ret (c + 4 * m, t)"
  using TestContains_ok[OF h(1,3,2), of 0 n xs False] TestContains_ok[OF h(1,3,2), of 0 n ys False]
    TestContains_ok[OF h(1,3,2), of 0 n us False] len sub
  by (simp add: test_step_reading)

lemma run_TEST34_ok:
  assumes h: "holds t S V 0 M" "M \<le> bound" and S: "set (take (unat load) (vec_keys data_set)) \<subseteq> S"
    and len: "unat load \<le> length data_set" "unat load < 2 ^ 32" and nz: "bReverse \<longrightarrow> 20 \<le> load"
  shows "run_TEST34 cls bReverse data_set load t = ret (3 * (load * 5 div 100), t)"
proof -
  define L where "L = unat load"
  define sz where "sz = load * 5 div 100"
  have u: "unat sz = L * 5 div 100" using len(2) by (simp add: sz_def L_def unat_div unat_word_ariths)
  then have u32: "unat (ucast sz :: u32) = L * 5 div 100"
    using len(2) by (subst ucast_small) (simp_all add: L_def)
  have half: "unat (load div 2) = L div 2" "unat (sz div 2) = L * 5 div 100 div 2"
    by (simp_all add: unat_div L_def u)
  have nz': "bReverse \<longrightarrow> (ucast sz :: u32) \<noteq> 0"
  proof
    assume bReverse
    then have "20 \<le> L" using nz by (simp add: word_le_nat_alt L_def)
    then have "unat (ucast sz :: u32) \<noteq> 0" unfolding u32 by simp
    then show "(ucast sz :: u32) \<noteq> 0" by (metis unat_0)
  qed
  have step: "TestContains cls data_set off (ucast sz) bReverse t = ret True" if "off + L * 5 div 100 \<le> L" for off
  proof -
    have "set (take (unat (ucast sz :: u32)) (drop off (vec_keys data_set))) \<subseteq> (set (take L (vec_keys data_set)) :: 'w word set)"
    proof
      fix x :: "'w word" assume "x \<in> set (take (unat (ucast sz :: u32)) (drop off (vec_keys data_set)))"
      then obtain i where "x = vec_keys data_set ! (off + i)" "i < L * 5 div 100" "off + i < length data_set"
        unfolding u32 by (auto simp: in_set_conv_nth)
      then show "x \<in> set (take L (vec_keys data_set))"
        using that by (auto simp: in_set_conv_nth intro!: exI[of _ "off + i"])
    qed
    then have "set (take (unat (ucast sz :: u32)) (drop off (vec_keys data_set))) \<subseteq> S" using S by (simp add: L_def)
    then show ?thesis
      using TestContains_ok[OF h(1) _ h(2), of off "ucast sz" data_set bReverse] nz' that len(1) u32
      by (simp add: L_def)
  qed
  have "L * 5 div 100 \<le> L" "L div 2 - L * 5 div 100 div 2 + L * 5 div 100 \<le> L" by linarith+
  then show ?thesis
    unfolding run_TEST34_def Let_def sz_def[symmetric] half u L_def[symmetric]
    by (simp add: test_step_reading step)
qed

lemma run_TEST5_ok:
  assumes h: "holds t S V r M"
  shows "run_TEST5 cls t = ret (10 * of_nat (card S), t)"
proof -
  obtain xs where xs: "Object_addends cls t = ret xs" "length xs = card S" using addends[OF h] by blast
  have "run_fold (\<lambda>_ (opCounter, sum). run_bind (Object_addends cls t) (\<lambda>xs.
           ret (opCounter + of_nat (length xs), sum + key_sum xs))) [0..<n] (0 :: u64, 0 :: u64)
      = ret (of_nat n * of_nat (card S), of_nat n * key_sum xs)" for n
    by (induction n) (simp_all add: run_fold_append xs algebra_simps)
  from this[of 10] show ?thesis by (simp add: run_TEST5_def)
qed

end

end
