(* ===== verification/BenchRuns.thy ===== *)
theory BenchRuns
  imports BenchTests
begin

text \<open>
  The whole benchmark of one table: \<open>BenchObjectWrapper::Bench\<close> at one load, the loop of \<open>Bench\<close> over the
  loads, and the loads at which a test fails on every table.
\<close>

section \<open>TEST2\<close>

lemma vectors_okD:
  assumes v: "vectors_ok data_set L N v" and d: "distinct (vec_keys data_set :: 'w::len word list)"
  defines "K \<equiv> set (take L (vec_keys data_set)) :: 'w word set"
  shows "set (vec_keys (erase_vector v)) \<subseteq> K" "distinct (vec_keys (erase_vector v) :: 'w word list)"
    "set (vec_keys (find_vector v)) \<subseteq> K" "length (erase_vector v) = N" "add_vector v = erase_vector v"
    "length (find_vector v) = N" "length (unknown_vector v) = N"
  using v subseq_keys[where 'w = 'w, of "erase_vector v" L data_set] subseq_keys[where 'w = 'w, of "find_vector v" L data_set] d
  by (auto simp: vectors_ok_def K_def)

context removal_table begin

lemma run_TEST2_ok:
  fixes data_set :: "u64 list"
  defines "K \<equiv> \<lambda>n. set (take n (vec_keys data_set)) :: 'w word set"
  assumes h: "holds t (K (unat load)) V 0 M" "M \<le> bound" and len: "unat load \<le> length data_set" "unat load \<le> M"
    and d: "distinct (vec_keys data_set :: 'w word list)" and v: "vectors_ok data_set (unat load) (unat load div 100) v"
    and nz: "100 \<le> load" "load div 100 \<le> test_vector_size"
    and unk: "\<not> set (vec_keys (unknown_vector v)) \<subseteq> K (unat load)"
  shows "ends throws (run_TEST2 cls u v (load div 100) t)
    (\<lambda>(c, t'). c = 16 * (load div 100) \<and> (\<exists>V r. holds t' (K (unat load)) V r M))"
proof -
  define m where "m = load div 100"
  define n where "n = (ucast m :: u32)"
  let ?L = "unat load" and ?K = "K (unat load)"
  have V: "set (vec_keys (erase_vector v)) \<subseteq> ?K" "distinct (vec_keys (erase_vector v) :: 'w word list)"
    "set (vec_keys (find_vector v)) \<subseteq> ?K" "length (erase_vector v) = ?L div 100" "add_vector v = erase_vector v"
    "length (find_vector v) = ?L div 100" "length (unknown_vector v) = ?L div 100"
    using vectors_okD[OF v d] by (simp_all add: K_def)
  have N: "unat n = ?L div 100"
    using nz(2) unfolding n_def m_def
    by (subst ucast_small) (simp_all add: unat_div word_le_nat_alt test_vector_size_def)
  have "100 \<le> ?L" using nz(1) by (simp add: word_le_nat_alt)
  then have N1: "unat n \<noteq> 0" "n \<noteq> 0" using N by (auto simp: unat_eq_0[symmetric])
  have r: "50 * (0 + unat n) \<le> M" "50 * (0 + unat n + unat n) \<le> M"
  proof -
    have "100 * (?L div 100) \<le> ?L" by (rule times_div_less_eq_dividend)
    then show "50 * (0 + unat n + unat n) \<le> M" using N len(2) by simp
    then show "50 * (0 + unat n) \<le> M" by simp
  qed
  have take: "take (unat n) (vec_keys xs) = (vec_keys xs :: 'w word list)" if "length xs = unat n" for xs
    using that by simp
  have fin: "finite ?K" and card: "card ?K \<le> M" using facts[OF h(1)] by auto
  let ?e = "erase_vector v" and ?f = "find_vector v" and ?u = "unknown_vector v"
  let ?E = "set (vec_keys ?e) :: 'w word set"
  have tE: "take (unat n) (vec_keys ?e) = (vec_keys ?e :: 'w word list)" using V(4) N by simp
  have E: "distinct (take (unat n) (vec_keys ?e) :: 'w word list)" "set (take (unat n) (vec_keys ?e)) \<subseteq> ?K" "unat n \<le> length ?e"
    unfolding tE using V(1,2,4) N by simp_all
  have En: "?E \<noteq> {}" using V(4) N N1(1) by (cases "vec_keys ?e :: 'w word list") (auto simp: vec_keys_def)
  define R where "R = [test_step True m (TestRemove cls ?e n), test_step False m (TestRemove cls ?e n)]"
  define A where "A = [test_step True m (TestAdd cls ?e 0 n u), test_step False m (TestAdd cls ?e 0 n False)]"
  define C where "C = (\<lambda>b xs. test_step b m (reading (TestContains cls xs 0 n False)))"
  have def: "run_TEST2 cls u v m t
      = run_steps (R @ [C False ?e, C False ?e, C False ?u] @ A @ [C True ?f] @ R @ A
          @ [C True ?e, C True ?e, C True ?f, C False ?u]) (0, t)"
    using not_index by (simp add: run_TEST2_def Let_def R_def A_def C_def V(5) n_def)
  obtain t1 where t1: "run_steps R (0, t) = ret (0 + 2 * m, t1)" "holds t1 (?K - ?E) {} (0 + unat n) M"
    using remove_phase[OF h E(3) N1(2) E(1,2) r(1), of m 0] unfolding R_def tE by blast
  have absent: "C False xs (c, t1) = ret (c + m, t1)" if "length xs = unat n" "\<not> set (vec_keys xs) \<subseteq> ?K - ?E" for xs c
    using TestContains_ok[OF t1(2) _ h(2), of 0 n xs False] r(1) that unfolding C_def
    by (intro test_step_reading) simp
  have gone: "run_steps [C False ?e, C False ?e, C False ?u] (c, t1) = ret (c + 3 * m, t1)" for c
  proof -
    obtain x y where "x \<in> ?E" "y \<in> set (vec_keys ?u)" "y \<notin> ?K" using En unk by (meson all_not_in_conv subsetI)
    then have "\<not> ?E \<subseteq> ?K - ?E" "\<not> set (vec_keys ?u) \<subseteq> ?K - ?E" by (metis DiffD2 subsetD, metis DiffD1 subsetD)
    then show ?thesis using absent[of ?e] absent[of ?u] V(4,7) N by simp
  qed
  have add: "ends throws (run_steps A (c, t')) (\<lambda>(c', t'). c' = c + 2 * m \<and> holds t' ?K ?E q M)"
    if "holds t' (?K - ?E) {} q M" for c t' q
    using add_phase[OF _ h(2) card fin E(3) N1(2) E(1,2), of t' q m u c] that unfolding A_def tE by blast
  let ?Z = "[C True ?e, C True ?e, C True ?f, C False ?u]"
  have find: "C True ?f (c, t') = ret (c + m, t')" if "holds t' ?K V' q M" "50 * q \<le> M" for c t' V' q
    using TestContains_ok[OF that h(2), of 0 n ?f False] V(3,6) N unfolding C_def by (intro test_step_reading) simp
  have reads: "run_steps ?Z (c, t') = ret (c + 4 * m, t')" if "holds t' ?K V' q M" "50 * q \<le> M" for c t' V' q
    using final_reads[OF that(1) h(2) that(2), where n = n and xs = ?e and ys = ?f and us = ?u and m = m and c = c] V(1,3,4,6,7) N unk unfolding C_def by simp
  have second: "ends throws (run_steps (R @ A @ ?Z) (8 * m, t2)) (\<lambda>(c, t'). c = 16 * m \<and> (\<exists>V r. holds t' ?K V r M))"
    if t2: "holds t2 ?K ?E (0 + unat n) M" for t2
  proof -
    obtain t3 where t3: "run_steps R (8 * m, t2) = ret (8 * m + 2 * m, t3)" "holds t3 (?K - ?E) {} (0 + unat n + unat n) M"
      using remove_phase[OF t2 h(2) E(3) N1(2) E(1,2) r(2), of m "8 * m"] unfolding R_def tE by blast
    show ?thesis unfolding run_steps_simps(3) t3(1) run_bind_simps
    proof (rule ends_bind[OF add[OF t3(2)]])
      fix x assume "case x of (c', t') \<Rightarrow> c' = 8 * m + 2 * m + 2 * m \<and> holds t' ?K ?E (0 + unat n + unat n) M"
      then obtain t4 where x: "x = (12 * m, t4)" and t4: "holds t4 ?K ?E (0 + unat n + unat n) M" by (cases x) simp
      show "ends throws (run_steps ?Z x) (\<lambda>(c, t'). c = 16 * m \<and> (\<exists>V r. holds t' ?K V r M))"
        unfolding x reads[OF t4 r(2)] using t4 by auto
    qed
  qed
  have "ends throws (run_steps (A @ [C True ?f] @ R @ A @ ?Z) (5 * m, t1))
      (\<lambda>(c, t'). c = 16 * m \<and> (\<exists>V r. holds t' ?K V r M))"
    unfolding run_steps_simps(3)[of A]
  proof (rule ends_bind[OF add[OF t1(2)]])
    fix x assume "case x of (c', t') \<Rightarrow> c' = 5 * m + 2 * m \<and> holds t' ?K ?E (0 + unat n) M"
    then obtain t2 where x: "x = (7 * m, t2)" and t2: "holds t2 ?K ?E (0 + unat n) M" by (cases x) simp
    have "run_steps ([C True ?f] @ R @ A @ ?Z) x = run_steps (R @ A @ ?Z) (8 * m, t2)"
      using find[OF t2 r(1), of "7 * m"] by (simp add: x del: run_steps_simps(3))
    then show "ends throws (run_steps ([C True ?f] @ R @ A @ ?Z) x) (\<lambda>(c, t'). c = 16 * m \<and> (\<exists>V r. holds t' ?K V r M))"
      using second[OF t2] by simp
  qed
  moreover have "run_steps (R @ G @ rest) (0, t) = run_steps rest (5 * m, t1)"
    if "G = [C False ?e, C False ?e, C False ?u]" for G rest
    unfolding run_steps_simps(3) t1(1) run_bind_simps using gone[of "2 * m"] by (simp add: that)
  ultimately show ?thesis unfolding m_def[symmetric] def by simp
qed

end

section \<open>One load\<close>

lemma counted_operations_nonzero:
  assumes "load \<noteq> 0" "unat load < 2 ^ 32" "tt = TEST2 \<Longrightarrow> 100 \<le> load" "tt = TEST3 \<or> tt = TEST4 \<Longrightarrow> 20 \<le> load"
  shows "counted_operations cls tt load \<noteq> 0"
proof -
  let ?L = "unat load"
  have m: "unat (k * x) = unat k * unat x" if "unat k * unat x < 2 ^ 64" for k x :: u64
    using that by (simp add: unat_word_ariths)
  have two: "4 * (load div 100) \<noteq> 0 \<and> 16 * (load div 100) \<noteq> 0" if "100 \<le> load"
  proof -
    have "unat (load div 100) \<noteq> 0" using that by (simp add: unat_div word_le_nat_alt)
    moreover have "unat (4 * (load div 100)) = 4 * unat (load div 100)" "unat (16 * (load div 100)) = 16 * unat (load div 100)"
      using assms(2) by (subst m; simp add: unat_div)+
    ultimately show ?thesis by (metis mult_eq_0_iff unat_0 zero_neq_numeral)
  qed
  have three: "3 * (load * 5 div 100) \<noteq> 0" if "20 \<le> load"
  proof -
    have "unat (load * 5) = ?L * 5" using assms(2) by (subst m) simp_all
    then have u: "unat (load * 5 div 100) = ?L * 5 div 100" by (simp add: unat_div)
    then have "unat (3 * (load * 5 div 100)) = 3 * (?L * 5 div 100)" using assms(2) by (subst m) simp_all
    moreover have "?L * 5 div 100 \<noteq> 0" using that by (simp add: word_le_nat_alt)
    ultimately show ?thesis by (metis mult_eq_0_iff unat_0 zero_neq_numeral)
  qed
  have ten: "10 * load \<noteq> 0"
  proof -
    have "unat (10 * load) = 10 * ?L" using assms(2) by (subst m) simp_all
    then show ?thesis using assms(1) by (metis mult_eq_0_iff unat_0 unat_eq_0 zero_neq_numeral)
  qed
  show ?thesis using two three ten assms(1,3,4) by (cases tt) (simp_all add: counted_operations_def)
qed

context key_table begin

lemma card_take_keys:
  "distinct (vec_keys v :: 'w word list) \<Longrightarrow> n \<le> length v \<Longrightarrow> card (set (take n (vec_keys v)) :: 'w word set) = n"
  by (subst distinct_card) simp_all

lemma Bench_fill_ok:
  fixes data_set :: "u64 list"
  defines "K \<equiv> \<lambda>n. set (take n (vec_keys data_set)) :: 'w word set"
  assumes h: "holds t (K n0) (K n0) 0 M" and n0: "n0 \<le> unat load" "tt = TEST1 \<or> \<not> flag_reuse flags \<longrightarrow> n0 = 0"
    and len: "unat load \<le> length data_set" "unat load \<le> bound" and d: "distinct (vec_keys data_set :: 'w word list)"
  shows "ends throws (Bench_fill cls flags data_set load tt t)
    (\<lambda>t'. holds t' (K (unat load)) (K (unat load)) 0 (max M (unat load)))"
proof -
  let ?L = "unat load" and ?c = "Object_Count cls t" and ?u = "flag_unique flags"
  have card: "card (K n) = n" if "n \<le> ?L" for n using card_take_keys[OF d] that len by (simp add: K_def)
  have cnt: "unat ?c = n0" using counted[OF h] card[OF n0(1)] by simp
  have L32: "?L < 2 ^ 32" using len(2) bound by simp
  have u0: "unat (ucast load :: u32) = ?L" using L32 by (rule ucast_small)
  have u1: "unat (load - ucast ?c) = ?L - n0" using n0(1) cnt by (simp add: unat_sub word_le_nat_alt)
  then have u2: "unat (ucast (load - ucast ?c) :: u32) = ?L - n0" using L32 by (subst ucast_small) simp_all
  let ?xs = "take (?L - n0) (drop n0 (vec_keys data_set)) :: 'w word list"
  have split: "take ?L (vec_keys data_set) = take n0 (vec_keys data_set) @ ?xs"
    using n0(1) take_add[of n0 "?L - n0" "vec_keys data_set"] by simp
  have "distinct (take ?L (vec_keys data_set) :: 'w word list)" using d by simp
  then have xs: "distinct ?xs" "set ?xs \<inter> K n0 = {}" "K n0 \<union> set ?xs = K ?L"
    unfolding split K_def by auto
  have c: "card (K n0) + (?L - n0) = ?L" using card[OF n0(1)] n0(1) by simp
  have add: "ends throws (TestAdd cls data_set n0 w ?u t) (\<lambda>(b, t'). b \<and> holds t' (K ?L) (K ?L) 0 (max M ?L))"
    if "unat w = ?L - n0" for w
    using TestAdd_new[OF h, of n0 w data_set ?u] that n0(1) len xs c by (simp add: add.commute)
  define w where "w = (if tt = TEST1 \<or> \<not> flag_reuse flags then ucast load else ucast (load - ucast ?c) :: u32)"
  have w: "unat w = ?L - n0" using u0 u2 n0(2) by (auto simp: w_def)
  have eq: "(if tt = TEST1 \<or> \<not> flag_reuse flags then TestAdd cls data_set 0 (ucast load) ?u t
        else TestAdd cls data_set (unat ?c) (ucast (load - ucast ?c)) ?u t) = TestAdd cls data_set n0 w ?u t"
    using n0(2) cnt by (auto simp: w_def)
  show ?thesis unfolding Bench_fill_def eq
  proof (rule ends_bind[OF add[OF w]])
    fix x assume "case x of (b, t') \<Rightarrow> b \<and> holds t' (K ?L) (K ?L) 0 (max M ?L)"
    then obtain t' where x: "x = (True, t')" and t': "holds t' (K ?L) (K ?L) 0 (max M ?L)" by (cases x) auto
    have "unat (ucast (Object_Count cls t') :: u64) = ?L" using counted[OF t'] card[of ?L] by simp
    then have "load = ucast (Object_Count cls t')" by (metis word_unat_eq_iff)
    then show "ends throws (case x of (b, t) \<Rightarrow> run_bind (check b Bench_assert) (\<lambda>_.
        run_bind (check (load = ucast (Object_Count cls t)) Bench_assert) (\<lambda>_. ret t)))
      (\<lambda>t'. holds t' (K ?L) (K ?L) 0 (max M ?L))"
      using t' by (simp add: x)
  qed
qed

text \<open>The rest of the test, after the insertion.\<close>

lemma Object_Bench_from:
  fixes data_set :: "u64 list"
  defines "K \<equiv> \<lambda>n. set (take n (vec_keys data_set)) :: 'w word set"
  assumes s: "sampler_ok sample" and d: "distinct (vec_keys data_set :: 'w word list)"
    and good: "good_load TYPE('w) bound sample seed data_set tt load"
    and h: "holds t (K n0) (K n0) 0 M" "M \<le> bound"
    and n0: "n0 \<le> unat load" "tt = TEST1 \<or> \<not> flag_reuse flags \<longrightarrow> n0 = 0"
    and two: "\<And>v t. tt = TEST2 \<Longrightarrow> vectors_ok data_set (unat load) (unat load div 100) v \<Longrightarrow>
      \<not> set (vec_keys (unknown_vector v)) \<subseteq> K (unat load) \<Longrightarrow>
      holds t (K (unat load)) (K (unat load)) 0 (max M (unat load)) \<Longrightarrow>
      ends throws (run_TEST2 cls (flag_unique flags) v (load div 100) t)
        (\<lambda>(c, t'). c = counted_operations cls TEST2 load
          \<and> (\<exists>V r. holds t' (K (unat load)) V r (max M (unat load))))"
  shows "ends throws (Object_Bench cls sample seed flags data_set load tt t)
    (\<lambda>(row, t'). row_Count row = ucast load \<and> row_opCounter row = counted_operations cls tt load
      \<and> (tt \<noteq> TEST2 \<longrightarrow> holds t' (K (unat load)) (K (unat load)) 0 (max M (unat load))))"
proof -
  let ?L = "unat load" and ?M = "max M (unat load)"
  have g: "load \<noteq> 0" "?L \<le> length data_set" "?L \<le> bound" "load div 100 \<le> test_vector_size"
    "tt = TEST2 \<Longrightarrow> 100 \<le> load" "tt = TEST2 \<Longrightarrow> unknown_drawn TYPE('w) sample seed data_set load"
    "tt = TEST3 \<or> tt = TEST4 \<Longrightarrow> 20 \<le> load"
    using good by (auto simp: good_load_def)
  have M: "?M \<le> bound" using h(2) g(3) by simp
  obtain v where v: "MakeTestVector sample seed data_set load (load div 100) = ret v"
    "vectors_ok data_set ?L (?L div 100) v"
    using MakeTestVector_ok[OF s g(2,4)] by blast
  have L32: "?L < 2 ^ 32" using g(3) bound by simp
  let ?P = "\<lambda>(c, t'). c = counted_operations cls tt load \<and> (\<exists>V r. holds t' (K ?L) V r ?M)
      \<and> (tt \<noteq> TEST2 \<longrightarrow> holds t' (K ?L) (K ?L) 0 ?M)"
  have cnt: "Object_Count cls t = ucast load" if "holds t (K ?L) V r N" for t V r N
    using counted[OF that] card_take_keys[OF d g(2)] ucast_small[OF L32] by (metis K_def word_unat_eq_iff)
  have test: "ends throws (run_test cls flags v data_set load tt t) ?P" if t: "holds t (K ?L) (K ?L) 0 ?M" for t
  proof (cases tt)
    case TEST2
    have "\<not> set (vec_keys (unknown_vector v)) \<subseteq> K ?L"
      using g(6)[OF TEST2] v(1) by (simp add: unknown_drawn_def K_def)
    from ends_mono[OF two[OF TEST2 v(2) this t]] show ?thesis by (auto simp: TEST2 run_test_def)
  next
    case TEST3
    then show ?thesis using run_TEST34_ok[OF t M _ g(2) L32, of False] t
      by (auto simp: run_test_def counted_operations_def K_def)
  next
    case TEST4
    then show ?thesis using run_TEST34_ok[OF t M _ g(2) L32, of True] t g(7)
      by (auto simp: run_test_def counted_operations_def K_def)
  next
    case TEST5
    then show ?thesis using run_TEST5_ok[OF t] t card_take_keys[OF d g(2)]
      by (auto simp: run_test_def counted_operations_def K_def)
  next
    case TEST1
    have "ucast (ucast load :: u32) = load" using ucast_small[OF L32] by (metis unat_ucast_u32_u64 word_unat_eq_iff)
    then show ?thesis using TEST1 t cnt[OF t] by (auto simp: run_test_def counted_operations_def)
  next
    case UNKNOWN
    have "ucast (ucast load :: u32) = load" using ucast_small[OF L32] by (metis unat_ucast_u32_u64 word_unat_eq_iff)
    then show ?thesis using UNKNOWN t cnt[OF t] by (auto simp: run_test_def counted_operations_def)
  qed
  have ops: "tt = TEST5 \<or> counted_operations cls tt load \<noteq> 0"
    using counted_operations_nonzero[OF g(1) L32 g(5,7)] by blast
  have sum: "key_sum (map ucast (take ?L data_set) :: 'w word list) = key_sum (take ?L (vec_keys data_set) :: 'w word list)"
    by (simp add: vec_keys_def take_map)
  have fill: "ends throws (Bench_fill cls flags data_set load tt t) (\<lambda>t'. holds t' (K ?L) (K ?L) 0 ?M)"
    using Bench_fill_ok[OF h(1)[unfolded K_def] n0 g(2,3) d] by (simp only: K_def)
  show ?thesis unfolding Object_Bench_def v(1) run_bind_simps
  proof (rule ends_bind[OF fill], rule ends_bind[OF test], assumption)
    fix t1 x assume "?P x"
    then obtain t2 V r where x: "x = (counted_operations cls tt load, t2)" and t2: "holds t2 (K ?L) V r ?M"
      "tt \<noteq> TEST2 \<longrightarrow> holds t2 (K ?L) (K ?L) 0 ?M"
      by (cases x) auto
    have "KeysSum cls t2 = ret (key_sum (take ?L (vec_keys data_set) :: 'w word list))"
      using d by (intro KeysSum_ok[OF t2(1)]) (simp_all add: K_def)
    then show "ends throws (Bench_report cls data_set load tt (Object_Capacity cls t) x)
      (\<lambda>(row, t'). row_Count row = ucast load \<and> row_opCounter row = counted_operations cls tt load
        \<and> (tt \<noteq> TEST2 \<longrightarrow> holds t' (K ?L) (K ?L) 0 ?M))"
      using ops g(1) t2 cnt[OF t2(1)] by (simp add: Bench_report_def x sum)
  qed
qed

end

end
