(* ===== verification/BenchLoads.thy ===== *)
theory BenchLoads
  imports BenchRuns
begin

text \<open>
  The loop of \<open>Bench\<close> over the loads, on tables of keys that can remove keys or are indices.
\<close>

locale bench_table = key_table cls holds bound throws
  for cls :: "('w::len word, 't) table_class" and holds bound throws +
  assumes kind: "isIndex cls \<or> removal_table cls holds bound throws"

sublocale removal_table \<subseteq> bench_table
  by unfold_locales (use removal_table_axioms in blast)

context bench_table begin

lemma run_TEST2_any:
  fixes data_set :: "u64 list"
  defines "K \<equiv> \<lambda>n. set (take n (vec_keys data_set)) :: 'w word set"
  assumes h: "holds t (K (unat load)) V 0 M" "M \<le> bound" and len: "unat load \<le> length data_set" "unat load \<le> M"
    and d: "distinct (vec_keys data_set :: 'w word list)" and v: "vectors_ok data_set (unat load) (unat load div 100) v"
    and nz: "100 \<le> load" "load div 100 \<le> test_vector_size"
    and unk: "\<not> set (vec_keys (unknown_vector v)) \<subseteq> K (unat load)"
  shows "ends throws (run_TEST2 cls u v (load div 100) t)
    (\<lambda>(c, t'). c = counted_operations cls TEST2 load \<and> (\<exists>V r. holds t' (K (unat load)) V r M))"
proof (cases "isIndex cls")
  case True
  let ?n = "ucast (load div 100) :: u32"
  note V = vectors_okD[OF v d]
  have "unat ?n = unat load div 100"
    using nz(2) by (subst ucast_small) (simp_all add: unat_div word_le_nat_alt test_vector_size_def)
  then show ?thesis
    using final_reads[OF h(1)[unfolded K_def] h(2), where n = ?n and xs = "erase_vector v"
        and ys = "find_vector v" and us = "unknown_vector v" and m = "load div 100" and c = 0]
      V unk h(1) True
    by (auto simp: run_TEST2_def Let_def counted_operations_def K_def simp del: run_steps_simps)
next
  case False
  then have "removal_table cls holds bound throws" using kind by blast
  from removal_table.run_TEST2_ok[OF this h[unfolded K_def] len d v nz unk[unfolded K_def], of u] False
  show ?thesis by (simp add: counted_operations_def K_def)
qed

lemma Object_Bench_ok:
  fixes data_set :: "u64 list"
  defines "K \<equiv> \<lambda>n. set (take n (vec_keys data_set)) :: 'w word set"
  assumes s: "sampler_ok sample" and d: "distinct (vec_keys data_set :: 'w word list)"
    and good: "good_load TYPE('w) bound sample seed data_set tt load"
    and h: "holds t (K n0) (K n0) 0 M" "M \<le> bound"
    and n0: "n0 \<le> unat load" "tt = TEST1 \<or> \<not> flag_reuse flags \<longrightarrow> n0 = 0"
  shows "ends throws (Object_Bench cls sample seed flags data_set load tt t)
    (\<lambda>(row, t'). row_Count row = ucast load \<and> row_opCounter row = counted_operations cls tt load
      \<and> (tt \<noteq> TEST2 \<longrightarrow> holds t' (K (unat load)) (K (unat load)) 0 (max M (unat load))))"
  unfolding K_def
proof (rule Object_Bench_from[OF s d good h[unfolded K_def] n0])
  fix v t
  assume two: "tt = TEST2" "vectors_ok data_set (unat load) (unat load div 100) v"
    "\<not> set (vec_keys (unknown_vector v) :: 'w word list) \<subseteq> set (take (unat load) (vec_keys data_set))"
    "holds t (set (take (unat load) (vec_keys data_set))) (set (take (unat load) (vec_keys data_set))) 0 (max M (unat load))"
  have g: "unat load \<le> length data_set" "unat load \<le> bound" "load div 100 \<le> test_vector_size" "100 \<le> load"
    using good two(1) by (auto simp: good_load_def)
  show "ends throws (run_TEST2 cls (flag_unique flags) v (load div 100) t)
        (\<lambda>(c, t'). c = counted_operations cls TEST2 load
          \<and> (\<exists>V r. holds t' (set (take (unat load) (vec_keys data_set))) V r (max M (unat load))))"
    by (rule run_TEST2_any[OF two(4) _ g(1) _ d two(2) g(4,3) two(3)]) (use h(2) g(2) in simp_all)
qed

end

section \<open>The loop over the loads\<close>

definition loads_left :: "bench_args \<Rightarrow> u64 \<Rightarrow> nat" where
  "loads_left a load =
     (if load \<le> maxLoad a then (unat (maxLoad a) - unat load) div unat (stepLoad a) + 1 else 0)"

definition loads_from :: "bench_args \<Rightarrow> u64 \<Rightarrow> u64 list" where
  "loads_from a load = map (\<lambda>i. load + of_nat i * stepLoad a) [0..<loads_left a load]"

lemma loads_from_step:
  assumes "load \<le> maxLoad a" "stepLoad a \<noteq> 0" "unat (maxLoad a) + unat (stepLoad a) < 2 ^ 64"
  shows "loads_from a load = load # loads_from a (load + stepLoad a)"
    "loads_left a load = Suc (loads_left a (load + stepLoad a))"
    "unat (load + stepLoad a) = unat load + unat (stepLoad a)"
proof -
  let ?s = "unat (stepLoad a)" and ?m = "unat (maxLoad a)" and ?l = "unat load"
  have l: "?l \<le> ?m" and s: "0 < ?s" using assms(1,2) by (simp_all add: word_le_nat_alt unat_gt_0)
  show u: "unat (load + stepLoad a) = ?l + ?s" using l assms(3) by (intro unat_add_u64) simp
  have "(?m - ?l) div ?s = (if ?m - ?l < ?s then 0 else Suc ((?m - ?l - ?s) div ?s))"
    using s by (subst div_if) simp
  then show n: "loads_left a load = Suc (loads_left a (load + stepLoad a))"
    using l assms(1) by (auto simp: loads_left_def word_le_nat_alt u)
  have "map (\<lambda>i. load + of_nat i * stepLoad a) [0..<Suc k]
      = load # map (\<lambda>i. load + stepLoad a + of_nat i * stepLoad a) [0..<k]" for k
    by (simp add: upt_conv_Cons map_Suc_upt[symmetric] comp_def algebra_simps del: upt_Suc)
  then show "loads_from a load = load # loads_from a (load + stepLoad a)"
    unfolding loads_from_def n .
qed

text \<open>A table that is used again holds the first keys of the data set, in order.\<close>

definition held_prefix ::
    "('t \<Rightarrow> 'w::len word set \<Rightarrow> 'w word set \<Rightarrow> nat \<Rightarrow> nat \<Rightarrow> bool) \<Rightarrow> nat \<Rightarrow> u64 list \<Rightarrow> nat \<Rightarrow> 't \<Rightarrow> bool" where
  "held_prefix holds bound v l t \<longleftrightarrow>
     (\<exists>n M. n \<le> l \<and> holds t (set (take n (vec_keys v))) (set (take n (vec_keys v))) 0 M \<and> M \<le> bound)"

lemma held_prefix_mono: "held_prefix holds bound v l t \<Longrightarrow> l \<le> l' \<Longrightarrow> held_prefix holds bound v l' t"
  unfolding held_prefix_def by (meson le_trans)

context bench_table begin

lemma Object_Init_ok:
  fixes data_set :: "u64 list"
  defines "K \<equiv> \<lambda>n. set (take n (vec_keys data_set)) :: 'w word set"
  assumes "\<forall>t. reuse \<and> obj = Some t \<longrightarrow> held_prefix holds bound data_set l t"
  shows "ends throws (Object_Init cls n reuse tt obj) (\<lambda>t. \<exists>n0 M. holds t (K n0) (K n0) 0 M \<and> M \<le> bound
    \<and> n0 \<le> l \<and> (tt = TEST1 \<or> \<not> reuse \<longrightarrow> n0 = 0))"
proof -
  let ?Q = "\<lambda>t. \<exists>n0 M. holds t (K n0) (K n0) 0 M \<and> M \<le> bound \<and> n0 \<le> l \<and> (tt = TEST1 \<or> \<not> reuse \<longrightarrow> n0 = 0)"
  have fresh: "?Q t" if "holds t {} {} 0 0" for t
    using that by (intro exI[of _ 0]) (simp add: K_def)
  have new: "ends throws (Init_new cls n) ?Q" by (rule ends_mono[OF start fresh])
  show ?thesis
  proof (cases "reuse \<and> obj \<noteq> None")
    case False
    then show ?thesis using new by (auto simp: Object_Init_def split: option.splits)
  next
    case True
    then obtain t where t: "obj = Some t" by auto
    with True assms obtain n0 M where h: "n0 \<le> l" "holds t (K n0) (K n0) 0 M" "M \<le> bound"
      by (auto simp: held_prefix_def)
    show ?thesis
    proof (cases "tt = TEST1")
      case 1: True
      show ?thesis using ends_mono[OF reset[OF h(2), of n] fresh] t True 1 by simp
    next
      case False
      then show ?thesis using h t True by (auto simp: Object_Init_def)
    qed
  qed
qed

text \<open>One turn of the loop.\<close>

lemma turn_ok:
  assumes s: "sampler_ok sample" and d: "distinct (vec_keys data_set :: 'w word list)"
    and tt: "reuse = flag_reuse flags" "reuse \<longrightarrow> tt \<noteq> TEST2"
    and g: "good_load TYPE('w) bound sample seed data_set tt load"
    and obj: "\<forall>t. reuse \<and> obj = Some t \<longrightarrow> held_prefix holds bound data_set (unat load) t"
  shows "ends throws (run_bind (Object_Init cls n reuse tt obj) (Object_Bench cls sample seed flags data_set load tt))
    (\<lambda>(row, t). row_Count row = ucast load \<and> row_opCounter row = counted_operations cls tt load
      \<and> (reuse \<longrightarrow> held_prefix holds bound data_set (unat load) t))"
  apply (rule ends_bind[OF Object_Init_ok[OF obj]])
  apply (elim exE conjE)
  subgoal premises p for t n0 M
  proof -
    have b: "unat load \<le> bound" using g by (simp add: good_load_def)
    note r = Object_Bench_ok[OF s d g p(1,2,3) p(4)[unfolded tt(1)]]
    have "held_prefix holds bound data_set (unat load) t'"
      if "holds t' (set (take (unat load) (vec_keys data_set))) (set (take (unat load) (vec_keys data_set))) 0 (max M (unat load))" for t'
      unfolding held_prefix_def using that b p(2) by (metis max.bounded_iff order_refl)
    then show ?thesis using tt(2) by (intro ends_mono[OF r]) auto
  qed
  done

lemma Bench_loads_turn:
  assumes "load \<le> maxLoad a"
  shows "Bench_loads cls sample seed a data_set load rows obj =
      run_bind (run_bind (Object_Init cls (ucast (bench_reserve a)) (flag_reuse (BenchFlags a)) (test_type (BenchFlags a)) obj)
          (Object_Bench cls sample seed (BenchFlags a) data_set load (test_type (BenchFlags a)))) (\<lambda>(row, t).
        Bench_loads cls sample seed a data_set (load + stepLoad a) (rows @ [row]) (Some t))"
  using assms by (subst Bench_loads.simps) (simp add: run_bind_assoc)

lemma Bench_loads_ok:
  assumes s: "sampler_ok sample" and d: "distinct (vec_keys data_set :: 'w word list)"
    and step: "stepLoad a \<noteq> 0" "unat (maxLoad a) + unat (stepLoad a) < 2 ^ 64"
    and two: "flag_reuse (BenchFlags a) \<longrightarrow> test_type (BenchFlags a) \<noteq> TEST2"
    and good: "\<forall>l \<in> set (loads_from a load).
      good_load TYPE('w) bound sample seed data_set (test_type (BenchFlags a)) l"
    and obj: "\<forall>t. flag_reuse (BenchFlags a) \<and> obj = Some t \<longrightarrow> held_prefix holds bound data_set (unat load) t"
  shows "ends throws (Bench_loads cls sample seed a data_set load rows obj) (\<lambda>(rows', _).
      map row_Count rows' = map row_Count rows @ map ucast (loads_from a load)
    \<and> map row_opCounter rows'
        = map row_opCounter rows @ map (counted_operations cls (test_type (BenchFlags a))) (loads_from a load))"
  using good obj
proof (induction "loads_left a load" arbitrary: load rows obj)
  case 0
  then have "\<not> load \<le> maxLoad a" by (simp add: loads_left_def split: if_splits)
  then show ?case by (subst Bench_loads.simps) (simp add: loads_from_def loads_left_def)
next
  case (Suc n)
  have le: "load \<le> maxLoad a" using Suc.hyps(2) by (simp add: loads_left_def split: if_splits)
  note L = loads_from_step[OF le step]
  have g: "good_load TYPE('w) bound sample seed data_set (test_type (BenchFlags a)) load"
    using Suc.prems(1) by (simp add: L(1))
  let ?ops = "counted_operations cls (test_type (BenchFlags a))"
  show ?case unfolding Bench_loads_turn[OF le]
    apply (rule ends_bind[OF turn_ok[OF s d refl two g Suc.prems(2)]])
    subgoal premises p for x
    proof -
      obtain row t' where x: "x = (row, t')" by (cases x)
      have row: "row_Count row = ucast load" "row_opCounter row = ?ops load"
        "flag_reuse (BenchFlags a) \<longrightarrow> held_prefix holds bound data_set (unat load) t'"
        using p by (simp_all add: x)
      have "ends throws (Bench_loads cls sample seed a data_set (load + stepLoad a) (rows @ [row]) (Some t')) (\<lambda>(rows', _).
          map row_Count rows' = map row_Count (rows @ [row]) @ map ucast (loads_from a (load + stepLoad a))
        \<and> map row_opCounter rows' = map row_opCounter (rows @ [row]) @ map ?ops (loads_from a (load + stepLoad a)))"
        by (rule Suc.hyps(1))
          (use Suc.hyps(2) L Suc.prems(1) row(3) held_prefix_mono[of holds bound data_set "unat load" t'] in auto)
      then show ?thesis using row(1,2) by (simp add: x L(1))
    qed
    done
qed

lemma Bench_ok:
  assumes "sampler_ok sample" "distinct (vec_keys data_set :: 'w word list)"
    and "stepLoad a \<noteq> 0" "unat (maxLoad a) + unat (stepLoad a) < 2 ^ 64"
    and "flag_reuse (BenchFlags a) \<longrightarrow> test_type (BenchFlags a) \<noteq> TEST2"
    and "\<forall>l \<in> set (loads_from a (startLoad a)).
      good_load TYPE('w) bound sample seed data_set (test_type (BenchFlags a)) l"
  shows "ends throws (Bench cls sample seed a data_set) (\<lambda>rows.
      map row_Count rows = map ucast (loads_from a (startLoad a))
    \<and> map row_opCounter rows
        = map (counted_operations cls (test_type (BenchFlags a))) (loads_from a (startLoad a)))"
proof -
  have "test_type (BenchFlags a) \<noteq> UNKNOWN" by (simp add: test_type_def)
  moreover have "ends throws (Bench_loads cls sample seed a data_set (startLoad a) [] None) (\<lambda>(rows', _).
      map row_Count rows' = map row_Count ([] :: row list) @ map ucast (loads_from a (startLoad a))
    \<and> map row_opCounter rows' = map row_opCounter ([] :: row list)
        @ map (counted_operations cls (test_type (BenchFlags a))) (loads_from a (startLoad a)))"
    by (rule Bench_loads_ok[OF assms]) simp
  ultimately show ?thesis unfolding Bench_def by (auto intro!: ends_bind elim!: ends_bind)
qed

text \<open>With the step 0 the loop does not end.\<close>

lemma Bench_loads_diverges:
  assumes s: "sampler_ok sample" and d: "distinct (vec_keys data_set :: 'w word list)" and th: "\<not> throws"
    and a: "stepLoad a = 0" "load \<le> maxLoad a"
    and two: "flag_reuse (BenchFlags a) \<longrightarrow> test_type (BenchFlags a) \<noteq> TEST2"
    and g: "good_load TYPE('w) bound sample seed data_set (test_type (BenchFlags a)) load"
  shows "Bench_loads cls sample seed a data_set load rows None = diverge"
proof -
  define I where "I = (\<lambda>obj. \<forall>t. flag_reuse (BenchFlags a) \<and> obj = Some t \<longrightarrow> held_prefix holds bound data_set (unat load) t)"
  have turn: "\<exists>row t'. run_bind (Object_Init cls (ucast (bench_reserve a)) (flag_reuse (BenchFlags a)) (test_type (BenchFlags a)) obj)
        (Object_Bench cls sample seed (BenchFlags a) data_set load (test_type (BenchFlags a))) = ret (row, t') \<and> I (Some t')"
    if "I obj" for obj
    using turn_ok[OF s d refl two g that[unfolded I_def], of "ucast (bench_reserve a)"] th by (auto simp: ends_def I_def)
  define P where "P = (\<lambda>c sm sd b ds l (rs :: row list) ob (y :: failure + row list \<times> 't option).
      c = cls \<longrightarrow> sm = sample \<longrightarrow> sd = seed \<longrightarrow> b = a \<longrightarrow> ds = data_set \<longrightarrow> l = load \<longrightarrow> \<not> I ob)"
  have "P c sm sd b ds l rs ob y" if "Bench_loads c sm sd b ds l rs ob = Some y" for c sm sd b ds l rs ob y
  proof (rule Bench_loads.raw_induct[where P = P, OF _ that])
    fix f c sm sd b ds l rs ob y
    assume IH: "\<And>c sm sd b ds l rs ob y. f c sm sd b ds l rs ob = Some y \<Longrightarrow> P c sm sd b ds l rs ob y"
      and eq: "(if l \<le> maxLoad b then
        run_bind (Object_Init c (ucast (bench_reserve b)) (flag_reuse (BenchFlags b)) (test_type (BenchFlags b)) ob) (\<lambda>t.
        run_bind (Object_Bench c sm sd (BenchFlags b) ds l (test_type (BenchFlags b)) t) (\<lambda>(row, t).
          f c sm sd b ds (l + stepLoad b) (rs @ [row]) (Some t)))
      else ret (rs, ob)) = Some y"
    show "P c sm sd b ds l rs ob y" unfolding P_def
    proof (intro impI notI)
      assume e: "c = cls" "sm = sample" "sd = seed" "b = a" "ds = data_set" "l = load" and ob: "I ob"
      obtain row t' where r: "run_bind (Object_Init cls (ucast (bench_reserve a)) (flag_reuse (BenchFlags a)) (test_type (BenchFlags a)) ob)
        (Object_Bench cls sample seed (BenchFlags a) data_set load (test_type (BenchFlags a))) = ret (row, t')" "I (Some t')"
        using turn[OF ob] by blast
      then have "f cls sample seed a data_set load (rs @ [row]) (Some t') = Some y"
        using eq a unfolding e by (simp flip: run_bind_assoc)
      from IH[OF this] r(2) show False by (simp add: P_def)
    qed
  qed
  then have "Bench_loads cls sample seed a data_set load rows None \<noteq> Some y" for y
    by (metis P_def I_def option.distinct(1))
  then have "Bench_loads cls sample seed a data_set load rows None = None"
    by (cases "Bench_loads cls sample seed a data_set load rows None") auto
  then show ?thesis by (simp add: diverge_def)
qed

end

end
