(* ===== verification/BenchFailures.thy ===== *)
theory BenchFailures
  imports BenchLoads
begin

text \<open>
  The loads at which a test of the benchmark fails on every table that keeps the contract: the percentages of
  small loads are 0, and those of large loads exceed the test vectors.
\<close>

lemma MakeTestVector_too_large:
  "test_vector_size < load div 100 \<Longrightarrow> Object_Bench cls sample seed flags data_set load tt t = abort Bench_assert"
  by (cases "unat load \<le> length data_set")
    (simp_all add: Object_Bench_def MakeTestVector_def not_le[symmetric])

lemma run_TEST2_empty: "load div 100 = 0 \<Longrightarrow> run_TEST2 cls u v (load div 100) t = abort Bench_assert"
  by (simp add: run_TEST2_def Let_def test_step_def reading_def TestRemove_def TestContains_def)

lemma TestContains_reverse_empty:
  fixes cls :: "('w::len word, 't) table_class"
  assumes "off + length v \<le> 2 ^ 32 - 1"
  shows "TestContains cls v off 0 True t = abort Out_of_bounds"
proof -
  define n where "n = unat ((0 :: u32) - 1)"
  have "n = 2 ^ 32 - 1" by (simp add: n_def unsigned_minus_1_eq_mask mask_eq_exp_minus_1)
  then have "(read_key v off n :: 'w word run) = abort Out_of_bounds" using assms by (simp add: read_key_def)
  then show ?thesis unfolding TestContains_def n_def[symmetric] by simp
qed

lemma run_TEST34_empty:
  assumes "load * 5 div 100 = 0" "length data_set \<le> 2 ^ 32 - 1"
  shows "run_TEST34 cls True data_set load t = abort Out_of_bounds"
  using assms TestContains_reverse_empty[of 0 data_set cls t]
  by (simp add: run_TEST34_def Let_def test_step_def reading_def)

context bench_table begin

lemma small_load_fails:
  assumes s: "sampler_ok sample" and d: "distinct (vec_keys data_set :: 'w word list)"
    and t: "holds t {} {} 0 0" and r: "\<not> flag_reuse flags"
    and load: "unat load \<le> length data_set" "unat load \<le> bound" "length data_set \<le> 2 ^ 32 - 1"
    and tt: "tt = TEST2 \<and> load < 100 \<and> e = Bench_assert \<or> tt = TEST3 \<and> load < 20 \<and> e = Division_by_zero
      \<or> tt = TEST4 \<and> load < 20 \<and> e = Out_of_bounds"
  shows "stops throws (Object_Bench cls sample seed flags data_set load tt t) e"
proof -
  let ?K = "set (take (unat load) (vec_keys data_set)) :: 'w word set"
  have L: "unat load < 100" using tt by (auto simp: word_less_nat_alt)
  then have t0: "load div 100 = 0" "load div 100 \<le> test_vector_size"
    by (simp_all add: unat_div unat_eq_0[symmetric] word_le_nat_alt)
  have sz: "load * 5 div 100 = 0" if "load < 20"
  proof -
    have "unat (load * 5) = unat load * 5" using that by (simp add: unat_word_ariths word_less_nat_alt)
    then show ?thesis using that by (simp add: unat_div unat_eq_0[symmetric] word_less_nat_alt)
  qed
  obtain v where v: "MakeTestVector sample seed data_set load (load div 100) = ret v"
    using MakeTestVector_ok[OF s load(1) t0(2)] by blast
  have fill: "ends throws (Bench_fill cls flags data_set load tt t) (\<lambda>t'. holds t' ?K ?K 0 (unat load))"
    using Bench_fill_ok[of t 0 data_set 0 load tt flags] t r load d by simp
  have L32: "unat load < 2 ^ 32" using L by simp
  show ?thesis unfolding Object_Bench_def v run_bind_simps
  proof (rule stops_bind[OF fill])
    fix t' assume t': "holds t' ?K ?K 0 (unat load)"
    consider (two) "tt = TEST2" "e = Bench_assert" | (three) "tt = TEST3" "load < 20" "e = Division_by_zero"
      | (four) "tt = TEST4" "load < 20" "e = Out_of_bounds" using tt by blast
    then show "stops throws (run_bind (run_test cls flags v data_set load tt t')
        (Bench_report cls data_set load tt (Object_Capacity cls t))) e"
    proof cases
      case two
      then show ?thesis by (simp add: run_test_def run_TEST2_empty[OF t0(1)])
    next
      case three
      have "run_TEST34 cls False data_set load t' = ret (0, t')"
        using run_TEST34_ok[OF t' load(2) order_refl load(1) L32, of False] sz[OF three(2)] by simp
      moreover have "KeysSum cls t' = ret (key_sum (map ucast (take (unat load) data_set) :: 'w word list))"
        using KeysSum_ok[OF t' refl distinct_take[OF d]] by (simp add: vec_keys_def take_map)
      ultimately show ?thesis using three by (simp add: run_test_def Bench_report_def)
    next
      case four
      then show ?thesis by (simp add: run_test_def run_TEST34_empty[OF sz load(3)])
    qed
  qed
qed

end

end
