(* ===== verification/Wyhash.thy ===== *)
theory Wyhash
  imports Bits
begin

text \<open>
  \<^verbatim>\<open>unordered_dense.h\<close>: the hash functions of \<open>ankerl::unordered_dense\<close>, a form of wyhash. A
  key in memory is its list of bytes; a read outside of it ends the run, so that the theorem about
  \<open>wyhash_bytes\<close> says that there is none.
\<close>

section \<open>The multiplication\<close>

text \<open>The product of 128 bits, low half first, as an intrinsic or a built-in type computes it.\<close>

definition mum :: "u64 \<Rightarrow> u64 \<Rightarrow> u64 \<times> u64" where
  "mum a b = (a * b, umulh a b)"

text \<open>The same with 64-bit operations, for other compilers.\<close>

definition mum_portable :: "u64 \<Rightarrow> u64 \<Rightarrow> u64 \<times> u64" where
  "mum_portable a b =
     (let ha = drop_bit 32 a; hb = drop_bit 32 b;
          la = ucast (ucast a :: u32); lb = ucast (ucast b :: u32);
          rh = ha * hb; rm0 = ha * lb; rm1 = hb * la; rl = la * lb;
          t = rl + push_bit 32 rm0;
          c = (if t < rl then 1 else 0);
          lo = t + push_bit 32 rm1;
          c = c + (if lo < t then 1 else 0);
          hi = rh + drop_bit 32 rm0 + drop_bit 32 rm1 + c
      in (lo, hi))"

definition mix :: "u64 \<Rightarrow> u64 \<Rightarrow> u64" where
  "mix a b = (case mum a b of (a, b) \<Rightarrow> a XOR b)"

lemma add_carry: "unat (x + y :: u64) + 2 ^ 64 * (if x + y < x then 1 else 0) = unat x + unat y"
proof (cases "unat x + unat y < 2 ^ 64")
  case True
  then show ?thesis by (simp add: unat_add_u64 word_less_nat_alt)
next
  case False
  have "unat x < 2 ^ 64" "unat y < 2 ^ 64" by (rule unat_lt_2p)+
  then have "unat (x + y) = unat x + unat y - 2 ^ 64"
    using False by (simp add: unat_word_ariths mod_if)
  then show ?thesis using False \<open>unat y < 2 ^ 64\<close> by (simp add: word_less_nat_alt)
qed

lemma unat_drop_32: "unat (drop_bit 32 a :: u64) = unat a div 2 ^ 32"
  by (simp add: drop_bit_eq_div unat_div)

lemma unat_low_32: "unat (ucast (ucast a :: u32) :: u64) = unat (a :: u64) mod 2 ^ 32"
  by (simp add: unsigned_ucast_eq take_bit_eq_mod unat_mod)

lemma unat_push_32: "unat (push_bit 32 a :: u64) = unat a mod 2 ^ 32 * 2 ^ 32"
proof -
  have "unat a * 2 ^ 32 mod 2 ^ 64 = unat a mod 2 ^ 32 * 2 ^ 32"
    using mult_mod_left[of "unat a" "2 ^ 32" "2 ^ 32"] by simp
  then show ?thesis by (simp add: push_bit_eq_mult unat_word_ariths)
qed

lemma unat_mult_32:
  assumes "unat (a :: u64) < 2 ^ 32" "unat b < 2 ^ 32"
  shows "unat (a * b) = unat a * unat b"
proof -
  have "unat a * unat b < 2 ^ 32 * 2 ^ 32" using assms by (intro mult_strict_mono) auto
  then show ?thesis by (simp add: unat_word_ariths)
qed

lemma long_multiplication:
  fixes t :: nat
  assumes "t + 2 ^ 64 * c = R + pm * 2 ^ 32" "lo + 2 ^ 64 * d = t + qm * 2 ^ 32"
    "ab = H * 2 ^ 64 + (P + Q) * 2 ^ 32 + R" "P = pd * 2 ^ 32 + pm" "Q = qd * 2 ^ 32 + qm"
  shows "ab = (H + pd + qd + c + d) * 2 ^ 64 + lo"
  using assms by simp

lemma mum_portable_eq: "mum_portable a b = mum a b"
proof -
  define ha hb la lb :: u64 where "ha = drop_bit 32 a" and "hb = drop_bit 32 b"
    and "la = ucast (ucast a :: u32)" and "lb = ucast (ucast b :: u32)"
  define t lo c d where "t = la * lb + push_bit 32 (ha * lb)" and "lo = t + push_bit 32 (hb * la)"
    and "c = (if t < la * lb then 1 else 0 :: u64)" and "d = (if lo < t then 1 else 0 :: u64)"
  have lt: "unat ha < 2 ^ 32" "unat hb < 2 ^ 32" "unat la < 2 ^ 32" "unat lb < 2 ^ 32"
    using unat_lt_2p(2)[of a] unat_lt_2p(2)[of b]
    unfolding ha_def hb_def la_def lb_def unat_drop_32 unat_low_32 by simp_all
  note m = unat_mult_32[OF lt(1,2)] unat_mult_32[OF lt(1,4)] unat_mult_32[OF lt(2,3)] unat_mult_32[OF lt(3,4)]
  define P Q R H where "P = unat ha * unat lb" and "Q = unat hb * unat la" and "R = unat la * unat lb" and "H = unat ha * unat hb"
  note pqrh = P_def Q_def R_def H_def
  have ab: "unat a = unat ha * 2 ^ 32 + unat la" "unat b = unat hb * 2 ^ 32 + unat lb"
    unfolding ha_def hb_def la_def lb_def unat_drop_32 unat_low_32 by (rule div_mult_mod_eq[symmetric])+
  have "unat t + 2 ^ 64 * unat c = R + P mod 2 ^ 32 * 2 ^ 32"
    using add_carry[of "la * lb" "push_bit 32 (ha * lb)", folded t_def] m
    by (cases "t < la * lb") (simp_all add: c_def unat_push_32 pqrh)
  moreover have "unat lo + 2 ^ 64 * unat d = unat t + Q mod 2 ^ 32 * 2 ^ 32"
    using add_carry[of t "push_bit 32 (hb * la)", folded lo_def] m
    by (cases "lo < t") (simp_all add: d_def unat_push_32 pqrh)
  moreover have "unat a * unat b = H * 2 ^ 64 + (P + Q) * 2 ^ 32 + R"
    unfolding ab pqrh by (simp add: algebra_simps)
  moreover have "P = P div 2 ^ 32 * 2 ^ 32 + P mod 2 ^ 32" "Q = Q div 2 ^ 32 * 2 ^ 32 + Q mod 2 ^ 32"
    by (rule div_mult_mod_eq[symmetric])+
  ultimately have prod: "unat a * unat b = (H + P div 2 ^ 32 + Q div 2 ^ 32 + unat c + unat d) * 2 ^ 64 + unat lo"
    (is "_ = ?h * _ + _") by (rule long_multiplication)
  have "unat lo < 2 ^ 64" by (rule unat_lt_2p)
  then have h: "?h = unat a * unat b div 2 ^ 64" and l: "unat lo = unat a * unat b mod 2 ^ 64"
    unfolding prod by (simp_all only: div_mult_self3 div_less mod_mult_self3 mod_less add_0_right)
  have "drop_bit 32 x = of_nat (unat x div 2 ^ 32)" for x :: u64
    by (subst unat_drop_32[symmetric]) simp
  then have "ha * hb + drop_bit 32 (ha * lb) + drop_bit 32 (hb * la) + (c + d) = of_nat ?h"
    using m by (simp add: pqrh del: of_nat_unat) (simp only: of_nat_mult of_nat_unat word_of_nat_eq_iff ucast_id flip: m)
  then have "ha * hb + drop_bit 32 (ha * lb) + drop_bit 32 (hb * la) + (c + d) = umulh a b" by (simp only: h umulh_def)
  moreover have "lo = a * b" by (rule word_unat_eq_iff[THEN iffD2]) (simp add: l unat_word_ariths)
  ultimately show ?thesis
    unfolding mum_portable_def mum_def Let_def ha_def hb_def la_def lb_def lo_def c_def d_def t_def by simp
qed

section \<open>Hashing a key\<close>

definition secret :: "u64 list" where
  "secret = [0xa0761d6478bd642f, 0xe7037ed1a0b428db, 0x8ebc6af09c88c6e3, 0x589965cc75374cc3]"

text \<open>Reads of 8 and 4 bytes, little-endian, and of one byte, at an offset from the key.\<close>

definition read_bytes :: "nat \<Rightarrow> u8 list \<Rightarrow> int \<Rightarrow> u8 list run" where
  "read_bytes n key i =
     (if 0 \<le> i \<and> nat i + n \<le> length key then ret (take n (drop (nat i) key)) else abort Out_of_bounds)"

definition r8 :: "u8 list \<Rightarrow> int \<Rightarrow> u64 run" where
  "r8 key i = run_bind (read_bytes 8 key i) (\<lambda>bs. ret (word_rcat (rev bs)))"

definition r4 :: "u8 list \<Rightarrow> int \<Rightarrow> u64 run" where
  "r4 key i = run_bind (read_bytes 4 key i) (\<lambda>bs. ret (ucast (word_rcat (rev bs) :: u32)))"

definition r1 :: "u8 list \<Rightarrow> int \<Rightarrow> u64 run" where
  "r1 key i = run_bind (read_bytes 1 key i) (\<lambda>bs. ret (ucast (hd bs)))"

definition r3 :: "u8 list \<Rightarrow> nat \<Rightarrow> u64 run" where
  "r3 key k =
     run_bind (r1 key 0) (\<lambda>a. run_bind (r1 key (int (k div 2))) (\<lambda>b. run_bind (r1 key (int k - 1)) (\<lambda>c.
       ret (push_bit 16 a OR push_bit 8 b OR c))))"

text \<open>\<open>mix(r8(p) ^ s, r8(p + 8) ^ seed)\<close>\<close>

definition mix_block :: "u8 list \<Rightarrow> int \<Rightarrow> u64 \<Rightarrow> u64 \<Rightarrow> u64 run" where
  "mix_block key p s seed =
     run_bind (r8 key p) (\<lambda>a. run_bind (r8 key (p + 8)) (\<lambda>b. ret (mix (a XOR s) (b XOR seed))))"

text \<open>\<open>do { \<dots> } while (i > 48)\<close>, entered with \<open>i > 48\<close>, and \<open>while (i > 16)\<close>.\<close>

function long_loop :: "u8 list \<Rightarrow> int \<Rightarrow> nat \<Rightarrow> u64 \<times> u64 \<times> u64 \<Rightarrow> (int \<times> nat \<times> u64 \<times> u64 \<times> u64) run" where
  "long_loop key p i s =
     (if 48 < i then
        case s of (seed, see1, see2) \<Rightarrow>
        run_bind (mix_block key p (secret ! 1) seed) (\<lambda>seed.
        run_bind (mix_block key (p + 16) (secret ! 2) see1) (\<lambda>see1.
        run_bind (mix_block key (p + 32) (secret ! 3) see2) (\<lambda>see2.
          long_loop key (p + 48) (i - 48) (seed, see1, see2))))
      else ret (p, i, s))"
  by pat_completeness auto
termination by (relation "measure (\<lambda>(key, p, i, s). i)") auto

function block_loop :: "u8 list \<Rightarrow> int \<Rightarrow> nat \<Rightarrow> u64 \<Rightarrow> (int \<times> nat \<times> u64) run" where
  "block_loop key p i seed =
     (if 16 < i then
        run_bind (mix_block key p (secret ! 1) seed) (\<lambda>seed. block_loop key (p + 16) (i - 16) seed)
      else ret (p, i, seed))"
  by pat_completeness auto
termination by (relation "measure (\<lambda>(key, p, i, s). i)") auto

declare long_loop.simps [simp del] block_loop.simps [simp del]

definition wyhash_bytes :: "u8 list \<Rightarrow> u64 run" where
  "wyhash_bytes key =
     (let len = length key; seed = secret ! 0;
          finish = (\<lambda>a b seed. ret (mix (secret ! 1 XOR of_nat len) (mix (a XOR secret ! 1) (b XOR seed))))
      in if len \<le> 16 then
           if 4 \<le> len then
             let q = int (len div 8 * 4) in
             run_bind (r4 key 0) (\<lambda>a1. run_bind (r4 key q) (\<lambda>a2.
             run_bind (r4 key (int len - 4)) (\<lambda>b1. run_bind (r4 key (int len - 4 - q)) (\<lambda>b2.
               finish (push_bit 32 a1 OR a2) (push_bit 32 b1 OR b2) seed))))
           else if 0 < len then run_bind (r3 key len) (\<lambda>a. finish a 0 seed)
           else finish 0 0 seed
         else
           run_bind
             (if 48 < len then
                run_bind (long_loop key 0 len (seed, seed, seed)) (\<lambda>(p, i, seed, see1, see2).
                  ret (p, i, seed XOR (see1 XOR see2)))
              else ret (0, len, seed)) (\<lambda>(p, i, seed).
           run_bind (block_loop key p i seed) (\<lambda>(p, i, seed).
           run_bind (r8 key (p + int i - 16)) (\<lambda>a. run_bind (r8 key (p + int i - 8)) (\<lambda>b. finish a b seed)))))"

text \<open>The hash of an integral key, converted to 64 bits.\<close>

definition wyhash_hash :: "u64 \<Rightarrow> u64" where
  "wyhash_hash x = mix x 0x9E3779B97F4A7C15"

section \<open>ankerl::unordered_dense::hash\<close>

text \<open>The specializations for unsigned integers, enumerations and pointers, for strings, and for pairs and tuples,
  whose elements \<open>to64\<close> has converted.\<close>

definition ankerl_hash :: "'w::len word \<Rightarrow> u64" where
  "ankerl_hash x = wyhash_hash (ucast x)"

definition ankerl_string_hash :: "u8 list \<Rightarrow> u64 run" where
  "ankerl_string_hash = wyhash_bytes"

definition mix64 :: "u64 \<Rightarrow> u64 \<Rightarrow> u64" where
  "mix64 state v = mix (state + v) 0x9ddfea08eb382d69"

definition calc_hash :: "u64 list \<Rightarrow> u64" where
  "calc_hash xs = foldl mix64 0 xs"

section \<open>No read outside of the key\<close>

lemma read_bytes_ok: "0 \<le> i \<Longrightarrow> i + int n \<le> int (length key) \<Longrightarrow> \<exists>bs. read_bytes n key i = ret bs"
  by (simp add: read_bytes_def)

lemma r8_ok: "0 \<le> i \<Longrightarrow> i + 8 \<le> int (length key) \<Longrightarrow> \<exists>x. r8 key i = ret x"
  using read_bytes_ok[of i 8 key] by (auto simp: r8_def)

lemma r4_ok: "0 \<le> i \<Longrightarrow> i + 4 \<le> int (length key) \<Longrightarrow> \<exists>x. r4 key i = ret x"
  using read_bytes_ok[of i 4 key] by (auto simp: r4_def)

lemma r1_ok: "0 \<le> i \<Longrightarrow> i + 1 \<le> int (length key) \<Longrightarrow> \<exists>x. r1 key i = ret x"
  using read_bytes_ok[of i 1 key] by (auto simp: r1_def)

lemma run_bind_ok: "\<exists>x. m = ret x \<Longrightarrow> (\<And>x. m = ret x \<Longrightarrow> \<exists>y. f x = ret y) \<Longrightarrow> \<exists>y. run_bind m f = ret y"
  by auto

lemma mix_block_ok: "0 \<le> p \<Longrightarrow> p + 16 \<le> int (length key) \<Longrightarrow> \<exists>x. mix_block key p s seed = ret x"
  unfolding mix_block_def by (intro run_bind_ok r8_ok) auto

lemma long_loop_ok:
  "0 \<le> p \<Longrightarrow> p + int i = int (length key) \<Longrightarrow>
   \<exists>r. long_loop key p i s = ret r \<and> 0 \<le> fst r \<and> fst r + int (fst (snd r)) = int (length key)"
proof (induction key p i s rule: long_loop.induct)
  case (1 key p i s)
  obtain a b c where s: "s = (a, b, c)" by (cases s)
  show ?case
  proof (cases "48 < i")
    case True
    have "\<exists>x. mix_block key p k y = ret x" "\<exists>x. mix_block key (p + 16) k y = ret x" "\<exists>x. mix_block key (p + 32) k y = ret x" for k y
      using 1(2,3) True by (intro mix_block_ok; simp)+
    then obtain x y z where "mix_block key p (secret ! 1) a = ret x" "mix_block key (p + 16) (secret ! 2) b = ret y"
      "mix_block key (p + 32) (secret ! 3) c = ret z" by blast
    then show ?thesis using 1(1)[OF True s[symmetric] refl, of x y z] 1(2,3) True by (subst long_loop.simps) (simp add: s)
  next
    case False
    then show ?thesis using 1(2,3) by (subst long_loop.simps) simp
  qed
qed

lemma block_loop_ok:
  "0 \<le> p \<Longrightarrow> p + int i = int (length key) \<Longrightarrow>
   \<exists>r. block_loop key p i seed = ret r \<and> fst r + int (fst (snd r)) = int (length key)"
proof (induction key p i seed rule: block_loop.induct)
  case (1 key p i seed)
  show ?case
  proof (cases "16 < i")
    case True
    obtain x where "mix_block key p (secret ! 1) seed = ret x" using mix_block_ok 1(2,3) True by fastforce
    then show ?thesis using 1(1)[OF True, of x] 1(2,3) True by (subst block_loop.simps) simp
  next
    case False
    then show ?thesis using 1(3) by (subst block_loop.simps) simp
  qed
qed

lemma wyhash_bytes_ok: "\<exists>h. wyhash_bytes key = ret h"
proof (cases "length key \<le> 16")
  case True
  let ?q = "int (length key div 8 * 4)"
  have "n div 8 * 4 + 4 \<le> n" if "4 \<le> n" "n \<le> 16" for n :: nat using that by presburger
  from this[OF _ True] have "?q + 4 \<le> int (length key)" "0 \<le> int (length key) - 4 - ?q" if "4 \<le> length key"
    using that by linarith+
  then have a: "\<exists>x. r4 key 0 = ret x" "\<exists>x. r4 key ?q = ret x" "\<exists>x. r4 key (int (length key) - 4) = ret x"
    "\<exists>x. r4 key (int (length key) - 4 - ?q) = ret x" if "4 \<le> length key" using that by (intro r4_ok; simp)+
  have b: "\<exists>x. r3 key (length key) = ret x" if "0 < length key"
  proof -
    have "0 < n \<Longrightarrow> n div 2 + 1 \<le> n" for n :: nat by presburger
    from this[OF that] have "\<exists>x. r1 key 0 = ret x" "\<exists>x. r1 key (int (length key div 2)) = ret x"
      "\<exists>x. r1 key (int (length key) - 1) = ret x" using that by (intro r1_ok; linarith)+
    then show ?thesis by (auto simp: r3_def)
  qed
  show ?thesis using True a b by (auto simp: wyhash_bytes_def Let_def)
next
  case False
  let ?s = "secret ! 0"
  obtain p i x y z where "long_loop key 0 (length key) (?s, ?s, ?s) = ret (p, i, x, y, z)"
    "0 \<le> p" "p + int i = int (length key)" using long_loop_ok[of 0 "length key" key "(?s, ?s, ?s)"] by auto
  moreover have tail: "\<exists>h. run_bind (block_loop key p i w) (\<lambda>(p, i, seed).
      run_bind (r8 key (p + int i - 16)) (\<lambda>a. run_bind (r8 key (p + int i - 8)) (\<lambda>b. f a b seed))) = ret h"
    if pi: "0 \<le> p" "p + int i = int (length key)" and f: "\<And>a b seed. \<exists>h. f a b seed = ret h"
    for p i w and f :: "u64 \<Rightarrow> u64 \<Rightarrow> u64 \<Rightarrow> u64 run"
  proof -
    obtain p' i' w' where r: "block_loop key p i w = ret (p', i', w')" "p' + int i' = int (length key)"
      using block_loop_ok[OF pi, of w] by auto
    then have "\<exists>x. r8 key (p' + int i' - 16) = ret x" "\<exists>x. r8 key (p' + int i' - 8) = ret x"
      using False by (intro r8_ok; simp)+
    then show ?thesis using r f by auto
  qed
  ultimately show ?thesis using False tail[of 0 "length key"] by (simp add: wyhash_bytes_def Let_def)
qed

end
