(* ===== verification/AnkerlTable.thy ===== *)
theory AnkerlTable
  imports Wyhash Floats
begin

text \<open>
  \<^verbatim>\<open>unordered_dense.h\<close>: the hash table \<open>ankerl::unordered_dense::detail::table\<close> behind \<open>map\<close> and
  \<open>set\<close>, with the bucket type \<open>standard\<close> and the default containers. The values lie in a vector without
  holes; a bucket holds the distance from its home, counted from 1, above eight bits of the hash, and the
  position of its value. \<open>'a\<close> is the type of the values, \<open>'k\<close> that of the keys. The vector of the values is a
  list, its size a \<open>size_t\<close>.
\<close>

section \<open>Members\<close>

record dense_bucket =
  dist_and_fingerprint :: u32
  value_idx :: u32

definition zero_bucket :: dense_bucket where
  "zero_bucket = \<lparr>dist_and_fingerprint = 0, value_idx = 0\<rparr>"

text \<open>What the template arguments give: the hash functor, \<open>get_key\<close>, whether the functor is avalanching and
  whether its result has less than 64 bits.\<close>

record ('a, 'k) ud_config =
  ud_hash :: "'k \<Rightarrow> u64"
  ud_key :: "'a \<Rightarrow> 'k"
  is_avalanching :: bool
  narrow_hash :: bool

record 'a dense =
  ud_values :: "'a list"
  ud_buckets :: "dense_bucket list"
  ud_max_bucket_capacity :: u64
  ud_max_load_factor :: rat
  ud_shifts :: u8

definition initial_shifts :: u8 where "initial_shifts = 64 - 2"
definition default_max_load_factor :: rat where "default_max_load_factor = to_float (8 / 10)"
definition bucket_dist_inc :: u32 where "bucket_dist_inc = 0x100"
definition fingerprint_mask :: u32 where "fingerprint_mask = bucket_dist_inc - 1"

definition ud_size :: "'a dense \<Rightarrow> u64" where
  "ud_size t = of_nat (length (ud_values t))"

definition ud_empty :: "'a dense \<Rightarrow> bool" where
  "ud_empty t \<longleftrightarrow> ud_values t = []"

definition ud_bucket_count :: "'a dense \<Rightarrow> u64" where
  "ud_bucket_count t = of_nat (length (ud_buckets t))"

definition ud_max_size :: u64 where "ud_max_size = push_bit 32 1"

text \<open>The elements of the two containers.\<close>

definition ud_at :: "dense_bucket list \<Rightarrow> u32 \<Rightarrow> dense_bucket" where
  "ud_at bs i = bs ! unat i"

definition ud_value :: "'a dense \<Rightarrow> u32 \<Rightarrow> 'a" where
  "ud_value t i = ud_values t ! unat i"

section \<open>Hashes and positions\<close>

definition ud_next :: "u64 \<Rightarrow> u32 \<Rightarrow> u32" where
  "ud_next count bucket_idx = (if ucast (bucket_idx + 1) = count then 0 else bucket_idx + 1)"

definition dist_inc :: "u32 \<Rightarrow> u32" where "dist_inc x = x + bucket_dist_inc"
definition dist_dec :: "u32 \<Rightarrow> u32" where "dist_dec x = x - bucket_dist_inc"

definition mixed_hash :: "('a, 'k) ud_config \<Rightarrow> 'k \<Rightarrow> u64" where
  "mixed_hash cfg key =
     (if is_avalanching cfg
      then if narrow_hash cfg then ud_hash cfg key * 0x9ddfea08eb382d69 else ud_hash cfg key
      else wyhash_hash (ud_hash cfg key))"

definition dist_and_fingerprint_from_hash :: "u64 \<Rightarrow> u32" where
  "dist_and_fingerprint_from_hash h = bucket_dist_inc OR (ucast h AND fingerprint_mask)"

definition bucket_idx_from_hash :: "'a dense \<Rightarrow> u64 \<Rightarrow> u32" where
  "bucket_idx_from_hash t h = ucast (drop_bit (unat (ud_shifts t)) h)"

text \<open>The loops over the buckets: until \<open>stop\<close>, go on with \<open>dist_inc\<close> and \<open>next\<close>.\<close>

partial_function (option) dense_probe :: "(u32 \<Rightarrow> u32 \<Rightarrow> 'r option) \<Rightarrow> u64 \<Rightarrow> u32 \<Rightarrow> u32 \<Rightarrow> 'r option" where
  "dense_probe stop count daf bucket_idx =
     (case stop daf bucket_idx of
        Some r \<Rightarrow> Some r
      | None \<Rightarrow> dense_probe stop count (dist_inc daf) (ud_next count bucket_idx))"

declare dense_probe.simps [code]

text \<open>The test of a bucket against a key.\<close>

definition same_key :: "('a, 'k) ud_config \<Rightarrow> 'a dense \<Rightarrow> 'k \<Rightarrow> u32 \<Rightarrow> bool" where
  "same_key cfg t key bucket_idx \<longleftrightarrow> key = ud_key cfg (ud_value t (value_idx (ud_at (ud_buckets t) bucket_idx)))"

definition less_stop :: "dense_bucket list \<Rightarrow> u32 \<Rightarrow> u32 \<Rightarrow> (u32 \<times> u32) option" where
  "less_stop bs daf i = (if daf < dist_and_fingerprint (ud_at bs i) then None else Some (daf, i))"

definition next_while_less :: "('a, 'k) ud_config \<Rightarrow> 'a dense \<Rightarrow> 'k \<Rightarrow> (u32 \<times> u32) option" where
  "next_while_less cfg t key =
     (let h = mixed_hash cfg key in
      dense_probe (less_stop (ud_buckets t)) (ud_bucket_count t) (dist_and_fingerprint_from_hash h) (bucket_idx_from_hash t h))"

partial_function (option) place_and_shift_up :: "u64 \<Rightarrow> dense_bucket \<Rightarrow> u32 \<Rightarrow> dense_bucket list \<Rightarrow> dense_bucket list option" where
  "place_and_shift_up count bucket place bs =
     (if dist_and_fingerprint (ud_at bs place) \<noteq> 0 then
        let old = ud_at bs place; bs = bs[unat place := bucket]
        in place_and_shift_up count (old\<lparr>dist_and_fingerprint := dist_inc (dist_and_fingerprint old)\<rparr>)
             (ud_next count place) bs
      else Some (bs[unat place := bucket]))"

declare place_and_shift_up.simps [code]

definition ud_place :: "dense_bucket \<Rightarrow> u32 \<Rightarrow> 'a dense \<Rightarrow> 'a dense run" where
  "ud_place bucket place t =
     run_bind (of_loop (place_and_shift_up (ud_bucket_count t) bucket place (ud_buckets t)))
       (\<lambda>bs. ret (t\<lparr>ud_buckets := bs\<rparr>))"

section \<open>Numbers of buckets\<close>

text \<open>For a shift of 64, undefined in the code, the size is taken to be 0; it is reached for more than
  \<open>2 ^ 32\<close> times the load factor elements only.\<close>

definition calc_num_buckets :: "u8 \<Rightarrow> u64" where
  "calc_num_buckets shifts = min ud_max_size (push_bit (64 - unat shifts) 1)"

function calc_shifts_from :: "rat \<Rightarrow> u64 \<Rightarrow> u8 \<Rightarrow> u8" where
  "calc_shifts_from ml s shifts =
     (if shifts > 0 \<and> trunc_u64 (to_float (to_float (of_nat (unat (calc_num_buckets shifts))) * ml)) < s
      then calc_shifts_from ml s (shifts - 1) else shifts)"
  by pat_completeness auto
termination
  by (relation "measure (\<lambda>(ml, s, shifts). unat shifts)") (auto simp: word_less_nat_alt unat_sub_if_size word_size)

declare calc_shifts_from.simps [simp del]

definition calc_shifts_for_size :: "'a dense \<Rightarrow> u64 \<Rightarrow> u8" where
  "calc_shifts_for_size t s = calc_shifts_from (ud_max_load_factor t) s initial_shifts"

definition ud_is_full :: "'a dense \<Rightarrow> bool" where
  "ud_is_full t \<longleftrightarrow> ud_size t > ud_max_bucket_capacity t"

definition deallocate_buckets :: "'a dense \<Rightarrow> 'a dense" where
  "deallocate_buckets t = t\<lparr>ud_buckets := [], ud_max_bucket_capacity := 0\<rparr>"

text \<open>\<open>m_buckets.resize\<close> keeps the buckets that are there and fills up with zeros.\<close>

definition max_capacity :: "u64 \<Rightarrow> rat \<Rightarrow> u64" where
  "max_capacity count ml = ucast (trunc_u32 (to_float (to_float (of_nat (unat count)) * ml)))"

definition allocate_buckets_from_shift :: "'a dense \<Rightarrow> 'a dense" where
  "allocate_buckets_from_shift t =
     (let num_buckets = calc_num_buckets (ud_shifts t); n = unat num_buckets; bs = ud_buckets t in
      t\<lparr>ud_buckets := take n bs @ replicate (n - length bs) zero_bucket,
        ud_max_bucket_capacity :=
          (if num_buckets = ud_max_size then ud_max_size else max_capacity num_buckets (ud_max_load_factor t))\<rparr>)"

definition clear_buckets :: "'a dense \<Rightarrow> 'a dense" where
  "clear_buckets t = t\<lparr>ud_buckets := map (\<lambda>_. zero_bucket) (ud_buckets t)\<rparr>"

definition fill_bucket :: "('a, 'k) ud_config \<Rightarrow> nat \<Rightarrow> 'a dense \<Rightarrow> 'a dense run" where
  "fill_bucket cfg i t =
     run_bind (of_loop (next_while_less cfg t (ud_key cfg (ud_value t (of_nat i))))) (\<lambda>(daf, bucket).
       ud_place \<lparr>dist_and_fingerprint = daf, value_idx = of_nat i\<rparr> bucket t)"

definition clear_and_fill_buckets_from_values :: "('a, 'k) ud_config \<Rightarrow> 'a dense \<Rightarrow> 'a dense run" where
  "clear_and_fill_buckets_from_values cfg t =
     run_fold (fill_bucket cfg) [0..<unat (ucast (ud_size t) :: u32)] (clear_buckets t)"

definition increase_size :: "('a, 'k) ud_config \<Rightarrow> 'a dense \<Rightarrow> 'a dense run" where
  "increase_size cfg t =
     run_bind (check (ud_max_bucket_capacity t \<noteq> ud_max_size) Overflow_error) (\<lambda>_.
       clear_and_fill_buckets_from_values cfg
         (allocate_buckets_from_shift (deallocate_buckets (t\<lparr>ud_shifts := ud_shifts t - 1\<rparr>))))"

end
