(* ===== verification/AnkerlOps.thy ===== *)
theory AnkerlOps
  imports AnkerlTable
begin

text \<open>
  The operations of \<open>ankerl::unordered_dense\<close>: lookup, insertion, erasure, and the functions on whole tables.
  An iterator is the index of a value.
\<close>

section \<open>Construction\<close>

definition reserve_for :: "('a, 'k) ud_config \<Rightarrow> u8 \<Rightarrow> 'a dense \<Rightarrow> 'a dense run" where
  "reserve_for cfg shifts t =
     clear_and_fill_buckets_from_values cfg (allocate_buckets_from_shift (deallocate_buckets (t\<lparr>ud_shifts := shifts\<rparr>)))"

definition ud_reserve :: "('a, 'k) ud_config \<Rightarrow> u64 \<Rightarrow> 'a dense \<Rightarrow> 'a dense run" where
  "ud_reserve cfg capa t =
     (let capa = min capa ud_max_size; shifts = calc_shifts_for_size t (max capa (ud_size t)) in
      if ud_bucket_count t = 0 \<or> shifts < ud_shifts t then reserve_for cfg shifts t else ret t)"

definition ud_rehash :: "('a, 'k) ud_config \<Rightarrow> u64 \<Rightarrow> 'a dense \<Rightarrow> 'a dense run" where
  "ud_rehash cfg n t =
     (let n = min n ud_max_size; shifts = calc_shifts_for_size t (max n (ud_size t)) in
      if shifts \<noteq> ud_shifts t then reserve_for cfg shifts t else ret t)"

definition dense_init :: "'a dense" where
  "dense_init = \<lparr>ud_values = [], ud_buckets = [], ud_max_bucket_capacity = 0,
     ud_max_load_factor = default_max_load_factor, ud_shifts = initial_shifts\<rparr>"

definition dense_new :: "('a, 'k) ud_config \<Rightarrow> u64 \<Rightarrow> 'a dense run" where
  "dense_new cfg bucket_count =
     (if bucket_count \<noteq> 0 then ud_reserve cfg bucket_count dense_init
      else ret (clear_buckets (allocate_buckets_from_shift dense_init)))"

definition copy_buckets :: "'a dense \<Rightarrow> 'a dense \<Rightarrow> 'a dense" where
  "copy_buckets other t =
     (if ud_empty t then clear_buckets (allocate_buckets_from_shift t)
      else let t = allocate_buckets_from_shift (t\<lparr>ud_shifts := ud_shifts other\<rparr>);
               n = length (ud_buckets t)
           in t\<lparr>ud_buckets := take n (ud_buckets other)\<rparr>)"

definition dense_copy :: "'a dense \<Rightarrow> 'a dense" where
  "dense_copy other =
     copy_buckets other (dense_init\<lparr>ud_values := ud_values other, ud_max_load_factor := ud_max_load_factor other\<rparr>)"

text \<open>\<open>operator=\<close>; the flag says that both are the same object.\<close>

definition dense_assign :: "bool \<Rightarrow> 'a dense \<Rightarrow> 'a dense \<Rightarrow> 'a dense" where
  "dense_assign same other t =
     (if \<not> same then
        copy_buckets other ((deallocate_buckets t)
          \<lparr>ud_values := ud_values other, ud_max_load_factor := ud_max_load_factor other, ud_shifts := initial_shifts\<rparr>)
      else t)"

text \<open>\<open>operator=(table&&)\<close> with equal allocators: the table and what is left in the other one.\<close>

definition dense_move_assign :: "'a dense \<Rightarrow> 'a dense \<Rightarrow> 'a dense \<times> 'a dense" where
  "dense_move_assign other t =
     ((deallocate_buckets t)\<lparr>ud_values := ud_values other, ud_buckets := ud_buckets other,
        ud_max_bucket_capacity := ud_max_bucket_capacity other, ud_shifts := ud_shifts other,
        ud_max_load_factor := ud_max_load_factor other\<rparr>,
      clear_buckets (allocate_buckets_from_shift dense_init))"

definition dense_move :: "'a dense \<Rightarrow> 'a dense \<times> 'a dense" where
  "dense_move other = dense_move_assign other dense_init"

text \<open>\<open>swap\<close> is \<open>std::swap\<close>: a move construction and two move assignments.\<close>

definition dense_swap :: "'a dense \<Rightarrow> 'a dense \<Rightarrow> 'a dense \<times> 'a dense" where
  "dense_swap a b =
     (case dense_move a of (tmp, a) \<Rightarrow>
      case dense_move_assign b a of (a, b) \<Rightarrow>
      case dense_move_assign tmp b of (b, tmp) \<Rightarrow> (a, b))"

definition ud_clear :: "'a dense \<Rightarrow> 'a dense" where
  "ud_clear t = clear_buckets (t\<lparr>ud_values := []\<rparr>)"

definition ud_load_factor :: "'a dense \<Rightarrow> rat" where
  "ud_load_factor t =
     (if ud_bucket_count t \<noteq> 0
      then to_float (to_float (of_nat (unat (ud_size t))) / to_float (of_nat (unat (ud_bucket_count t)))) else 0)"

definition ud_set_max_load_factor :: "rat \<Rightarrow> 'a dense \<Rightarrow> 'a dense" where
  "ud_set_max_load_factor ml t =
     (let t = t\<lparr>ud_max_load_factor := ml\<rparr> in
      if ud_bucket_count t \<noteq> ud_max_size
      then t\<lparr>ud_max_bucket_capacity := max_capacity (ud_bucket_count t) ml\<rparr> else t)"

section \<open>Lookup\<close>

definition find_test :: "('a, 'k) ud_config \<Rightarrow> 'a dense \<Rightarrow> 'k \<Rightarrow> u32 \<Rightarrow> u32 \<Rightarrow> bool" where
  "find_test cfg t key daf i \<longleftrightarrow> daf = dist_and_fingerprint (ud_at (ud_buckets t) i) \<and> same_key cfg t key i"

definition do_find_stop :: "('a, 'k) ud_config \<Rightarrow> 'a dense \<Rightarrow> 'k \<Rightarrow> u32 \<Rightarrow> u32 \<Rightarrow> u64 option" where
  "do_find_stop cfg t key daf i =
     (let b = ud_at (ud_buckets t) i in
      if daf = dist_and_fingerprint b
      then if same_key cfg t key i then Some (ucast (value_idx b)) else None
      else if daf > dist_and_fingerprint b then Some (ud_size t) else None)"

text \<open>\<open>end()\<close> is the number of values.\<close>

definition do_find :: "('a, 'k) ud_config \<Rightarrow> 'a dense \<Rightarrow> 'k \<Rightarrow> u64 option" where
  "do_find cfg t key =
     (if ud_empty t then Some (ud_size t)
      else
        let mh = mixed_hash cfg key;
            daf = dist_and_fingerprint_from_hash mh; i = bucket_idx_from_hash t mh; b = ud_at (ud_buckets t) i in
        if find_test cfg t key daf i then Some (ucast (value_idx b))
        else
          let daf = dist_inc daf; i = ud_next (ud_bucket_count t) i; b = ud_at (ud_buckets t) i in
          if find_test cfg t key daf i then Some (ucast (value_idx b))
          else dense_probe (do_find_stop cfg t key) (ud_bucket_count t) (dist_inc daf) (ud_next (ud_bucket_count t) i))"

definition ud_contains :: "('a, 'k) ud_config \<Rightarrow> 'a dense \<Rightarrow> 'k \<Rightarrow> bool option" where
  "ud_contains cfg t key = map_option (\<lambda>it. it \<noteq> ud_size t) (do_find cfg t key)"

definition ud_count :: "('a, 'k) ud_config \<Rightarrow> 'a dense \<Rightarrow> 'k \<Rightarrow> u64 option" where
  "ud_count cfg t key = map_option (\<lambda>it. if it = ud_size t then 0 else 1) (do_find cfg t key)"

definition ud_equal_range :: "('a, 'k) ud_config \<Rightarrow> 'a dense \<Rightarrow> 'k \<Rightarrow> (u64 \<times> u64) option" where
  "ud_equal_range cfg t key = map_option (\<lambda>it. (it, if it = ud_size t then ud_size t else it + 1)) (do_find cfg t key)"

definition do_at :: "('k \<times> 'v, 'k) ud_config \<Rightarrow> ('k \<times> 'v) dense \<Rightarrow> 'k \<Rightarrow> 'v run" where
  "do_at cfg t key =
     run_bind (of_loop (do_find cfg t key)) (\<lambda>it.
       if it \<noteq> ud_size t then ret (snd (ud_values t ! unat it)) else abort Out_of_range)"

section \<open>Insertion\<close>

definition ud_place_new :: "('a, 'k) ud_config \<Rightarrow> u32 \<Rightarrow> u32 \<Rightarrow> 'a dense \<Rightarrow> (u64 \<times> bool \<times> 'a dense) run" where
  "ud_place_new cfg daf i t =
     (let idx = (ucast (ud_size t - 1) :: u32) in
      run_bind
        (if ud_is_full t then increase_size cfg t
         else ud_place \<lparr>dist_and_fingerprint = daf, value_idx = idx\<rparr> i t)
        (\<lambda>t. ret (ucast idx, True, t)))"

definition push_back :: "'a \<Rightarrow> 'a dense \<Rightarrow> 'a dense" where
  "push_back x t = t\<lparr>ud_values := ud_values t @ [x]\<rparr>"

definition pop_back :: "'a dense \<Rightarrow> 'a dense" where
  "pop_back t = t\<lparr>ud_values := butlast (ud_values t)\<rparr>"

definition do_place_element :: "('a, 'k) ud_config \<Rightarrow> u32 \<Rightarrow> u32 \<Rightarrow> 'a \<Rightarrow> 'a dense \<Rightarrow> (u64 \<times> bool \<times> 'a dense) run" where
  "do_place_element cfg daf i x t = ud_place_new cfg daf i (push_back x t)"

definition emplace_stop :: "('a, 'k) ud_config \<Rightarrow> 'a dense \<Rightarrow> 'k \<Rightarrow> u32 \<Rightarrow> u32 \<Rightarrow> (u32 + u32 \<times> u32) option" where
  "emplace_stop cfg t key daf i =
     (let b = ud_at (ud_buckets t) i in
      if daf \<le> dist_and_fingerprint b
      then if daf = dist_and_fingerprint b \<and> same_key cfg t key i then Some (Inl (value_idx b)) else None
      else Some (Inr (daf, i)))"

text \<open>The value is appended first and removed again when its key is there.\<close>

definition ud_emplace :: "('a, 'k) ud_config \<Rightarrow> 'a \<Rightarrow> 'a dense \<Rightarrow> (u64 \<times> bool \<times> 'a dense) run" where
  "ud_emplace cfg x t =
     (let t = push_back x t; key = ud_key cfg x; h = mixed_hash cfg key in
      run_bind (of_loop (dense_probe (emplace_stop cfg t key) (ud_bucket_count t)
          (dist_and_fingerprint_from_hash h) (bucket_idx_from_hash t h))) (\<lambda>r. case r of
        Inl it \<Rightarrow> ret (ucast it, False, pop_back t)
      | Inr (daf, i) \<Rightarrow> ud_place_new cfg daf i t))"

definition ud_insert_range :: "('a, 'k) ud_config \<Rightarrow> 'a list \<Rightarrow> 'a dense \<Rightarrow> 'a dense run" where
  "ud_insert_range cfg = run_fold (\<lambda>x t. run_bind (ud_emplace cfg x t) (\<lambda>(_, _, t). ret t))"

text \<open>The constructor from a range, and \<open>emplace\<close> of a key that a transparent set takes as it is.\<close>

definition dense_from_range :: "('a, 'k) ud_config \<Rightarrow> 'a list \<Rightarrow> u64 \<Rightarrow> 'a dense run" where
  "dense_from_range cfg xs bucket_count = run_bind (dense_new cfg bucket_count) (ud_insert_range cfg xs)"

definition ud_emplace_key :: "('k, 'k) ud_config \<Rightarrow> 'k \<Rightarrow> 'k dense \<Rightarrow> (u64 \<times> bool \<times> 'k dense) run" where
  "ud_emplace_key cfg key t =
     (let h = mixed_hash cfg key in
      run_bind (of_loop (dense_probe (emplace_stop cfg t key) (ud_bucket_count t)
          (dist_and_fingerprint_from_hash h) (bucket_idx_from_hash t h))) (\<lambda>r. case r of
        Inl it \<Rightarrow> ret (ucast it, False, t)
      | Inr (daf, i) \<Rightarrow> do_place_element cfg daf i key t))"

definition try_emplace_stop :: "('a, 'k) ud_config \<Rightarrow> 'a dense \<Rightarrow> 'k \<Rightarrow> u32 \<Rightarrow> u32 \<Rightarrow> (u32 + u32 \<times> u32) option" where
  "try_emplace_stop cfg t key daf i =
     (let b = ud_at (ud_buckets t) i in
      if daf = dist_and_fingerprint b
      then if same_key cfg t key i then Some (Inl (value_idx b)) else None
      else if daf > dist_and_fingerprint b then Some (Inr (daf, i)) else None)"

definition do_try_emplace :: "('k \<times> 'v, 'k) ud_config \<Rightarrow> 'k \<Rightarrow> 'v \<Rightarrow> ('k \<times> 'v) dense \<Rightarrow> (u64 \<times> bool \<times> ('k \<times> 'v) dense) run" where
  "do_try_emplace cfg key mapped t =
     (let h = mixed_hash cfg key in
      run_bind (of_loop (dense_probe (try_emplace_stop cfg t key) (ud_bucket_count t)
          (dist_and_fingerprint_from_hash h) (bucket_idx_from_hash t h))) (\<lambda>r. case r of
        Inl it \<Rightarrow> ret (ucast it, False, t)
      | Inr (daf, i) \<Rightarrow> do_place_element cfg daf i (key, mapped) t))"

text \<open>\<open>it->second = mapped\<close>\<close>

definition ud_set_mapped :: "u64 \<Rightarrow> 'v \<Rightarrow> ('k \<times> 'v) dense \<Rightarrow> ('k \<times> 'v) dense" where
  "ud_set_mapped it v t =
     t\<lparr>ud_values := (ud_values t)[unat it := (fst (ud_values t ! unat it), v)]\<rparr>"

definition do_insert_or_assign :: "('k \<times> 'v, 'k) ud_config \<Rightarrow> 'k \<Rightarrow> 'v \<Rightarrow> ('k \<times> 'v) dense \<Rightarrow> (u64 \<times> bool \<times> ('k \<times> 'v) dense) run" where
  "do_insert_or_assign cfg key mapped t =
     run_bind (do_try_emplace cfg key mapped t) (\<lambda>(it, inserted, t).
       ret (it, inserted, if \<not> inserted then ud_set_mapped it mapped t else t))"

text \<open>\<open>operator[]\<close> gives the value, default-constructed (\<open>zero\<close>) for a new key.\<close>

definition ud_subscript :: "('k \<times> 'v, 'k) ud_config \<Rightarrow> 'v \<Rightarrow> 'k \<Rightarrow> ('k \<times> 'v) dense \<Rightarrow> ('v \<times> ('k \<times> 'v) dense) run" where
  "ud_subscript cfg zero key t =
     run_bind (do_try_emplace cfg key zero t) (\<lambda>(it, _, t). ret (snd (ud_values t ! unat it), t))"

section \<open>Erasure\<close>

text \<open>The loop that shifts buckets down gives the position of the bucket that becomes empty.\<close>

partial_function (option) shift_down :: "u64 \<Rightarrow> u32 \<Rightarrow> u32 \<Rightarrow> dense_bucket list \<Rightarrow> (u32 \<times> dense_bucket list) option" where
  "shift_down count i nxt bs =
     (if dist_and_fingerprint (ud_at bs nxt) \<ge> bucket_dist_inc * 2 then
        let b = ud_at bs nxt;
            bs = bs[unat i := \<lparr>dist_and_fingerprint = dist_dec (dist_and_fingerprint b), value_idx = value_idx b\<rparr>]
        in shift_down count nxt (ud_next count nxt) bs
      else Some (i, bs))"

declare shift_down.simps [code]

text \<open>\<open>while (v != m_value_idx) bucket_idx = next(bucket_idx)\<close>\<close>

partial_function (option) seek_value_idx :: "u64 \<Rightarrow> dense_bucket list \<Rightarrow> u32 \<Rightarrow> u32 \<Rightarrow> u32 option" where
  "seek_value_idx count bs v i =
     (if v \<noteq> value_idx (ud_at bs i) then seek_value_idx count bs v (ud_next count i) else Some i)"

declare seek_value_idx.simps [code]

text \<open>The value that is erased is handed to \<open>handle_erased_value\<close>: the first result.\<close>

definition do_erase :: "('a, 'k) ud_config \<Rightarrow> u32 \<Rightarrow> 'a dense \<Rightarrow> ('a \<times> 'a dense) option" where
  "do_erase cfg bucket_idx t =
     (let r = value_idx (ud_at (ud_buckets t) bucket_idx); count = ud_bucket_count t in
      Option.bind (shift_down count bucket_idx (ud_next count bucket_idx) (ud_buckets t)) (\<lambda>(i, bs).
      let t = t\<lparr>ud_buckets := bs[unat i := zero_bucket]\<rparr>; erased = ud_value t r in
      if ucast r \<noteq> ud_size t - 1 then
        let val = last (ud_values t); t = t\<lparr>ud_values := (ud_values t)[unat r := val]\<rparr>;
            mh = mixed_hash cfg (ud_key cfg val); values_idx_back = (ucast (ud_size t - 1) :: u32) in
        Option.bind (seek_value_idx count (ud_buckets t) values_idx_back (bucket_idx_from_hash t mh)) (\<lambda>i.
        let bs = ud_buckets t in
        Some (erased, pop_back (t\<lparr>ud_buckets := bs[unat i := (ud_at bs i)\<lparr>value_idx := r\<rparr>]\<rparr>)))
      else Some (erased, pop_back t)))"

definition erase_stop :: "('a, 'k) ud_config \<Rightarrow> 'a dense \<Rightarrow> 'k \<Rightarrow> u32 \<Rightarrow> u32 \<Rightarrow> (u32 \<times> u32) option" where
  "erase_stop cfg t key daf i =
     (if daf = dist_and_fingerprint (ud_at (ud_buckets t) i) \<and> \<not> same_key cfg t key i then None else Some (daf, i))"

definition do_erase_key :: "('a, 'k) ud_config \<Rightarrow> 'k \<Rightarrow> 'a dense \<Rightarrow> ('a option \<times> 'a dense) option" where
  "do_erase_key cfg key t =
     (if ud_empty t then Some (None, t)
      else
        Option.bind (next_while_less cfg t key) (\<lambda>(daf, i).
        Option.bind (dense_probe (erase_stop cfg t key) (ud_bucket_count t) daf i) (\<lambda>(daf, i).
        if daf \<noteq> dist_and_fingerprint (ud_at (ud_buckets t) i) then Some (None, t)
        else map_option (\<lambda>(x, t). (Some x, t)) (do_erase cfg i t))))"

definition ud_erase_key :: "('a, 'k) ud_config \<Rightarrow> 'k \<Rightarrow> 'a dense \<Rightarrow> (u64 \<times> 'a dense) option" where
  "ud_erase_key cfg key t =
     map_option (\<lambda>(r, t). (if r = None then 0 else 1, t)) (do_erase_key cfg key t)"

definition ud_extract_key :: "('a, 'k) ud_config \<Rightarrow> 'k \<Rightarrow> 'a dense \<Rightarrow> ('a option \<times> 'a dense) option" where
  "ud_extract_key = do_erase_key"

definition erase_iterator :: "('a, 'k) ud_config \<Rightarrow> u64 \<Rightarrow> 'a dense \<Rightarrow> ('a \<times> 'a dense) option" where
  "erase_iterator cfg it t =
     (let h = mixed_hash cfg (ud_key cfg (ud_values t ! unat it)) in
      Option.bind (seek_value_idx (ud_bucket_count t) (ud_buckets t) (ucast it) (bucket_idx_from_hash t h))
        (\<lambda>i. do_erase cfg i t))"

text \<open>\<open>erase(first, last)\<close>: forward over the values that ones from the end replace, then backward.\<close>

fun erase_forward :: "('a, 'k) ud_config \<Rightarrow> nat \<Rightarrow> nat \<Rightarrow> 'a dense \<Rightarrow> 'a dense option" where
  "erase_forward cfg idx 0 t = Some t"
| "erase_forward cfg idx (Suc n) t =
     Option.bind (erase_iterator cfg (of_nat idx) t) (\<lambda>(_, t). erase_forward cfg (Suc idx) n t)"

fun erase_backward :: "('a, 'k) ud_config \<Rightarrow> nat \<Rightarrow> nat \<Rightarrow> 'a dense \<Rightarrow> 'a dense option" where
  "erase_backward cfg mid 0 t = Some t"
| "erase_backward cfg mid (Suc n) t =
     Option.bind (erase_iterator cfg (of_nat (mid + n)) t) (\<lambda>(_, t). erase_backward cfg mid n t)"

definition ud_erase_range :: "('a, 'k) ud_config \<Rightarrow> nat \<Rightarrow> nat \<Rightarrow> 'a dense \<Rightarrow> 'a dense option" where
  "ud_erase_range cfg idx_first idx_last t =
     (let mid = idx_first + min (idx_last - idx_first) (length (ud_values t) - idx_last) in
      Option.bind (erase_forward cfg idx_first (mid - idx_first) t) (erase_backward cfg mid (idx_last - mid)))"

text \<open>\<open>std::erase_if\<close>, from the back; it gives the number of values that are left.\<close>

fun erase_if_loop :: "('a, 'k) ud_config \<Rightarrow> ('a \<Rightarrow> bool) \<Rightarrow> nat \<Rightarrow> 'a dense \<Rightarrow> 'a dense option" where
  "erase_if_loop cfg pred 0 t = Some t"
| "erase_if_loop cfg pred (Suc idx) t =
     (if pred (ud_values t ! idx)
      then Option.bind (erase_iterator cfg (of_nat idx) t) (\<lambda>(_, t). erase_if_loop cfg pred idx t)
      else erase_if_loop cfg pred idx t)"

definition ud_erase_if :: "('a, 'k) ud_config \<Rightarrow> ('a \<Rightarrow> bool) \<Rightarrow> 'a dense \<Rightarrow> (u64 \<times> 'a dense) option" where
  "ud_erase_if cfg pred t =
     map_option (\<lambda>t'. (ud_size t - ud_size t', t')) (erase_if_loop cfg pred (length (ud_values t)) t)"

section \<open>Whole tables\<close>

definition replace_stop :: "('a, 'k) ud_config \<Rightarrow> 'a dense \<Rightarrow> 'k \<Rightarrow> u32 \<Rightarrow> u32 \<Rightarrow> (u32 + u32 \<times> u32) option" where
  "replace_stop cfg t key daf i =
     (let b = ud_at (ud_buckets t) i in
      if daf > dist_and_fingerprint b then Some (Inr (daf, i))
      else if daf = dist_and_fingerprint b \<and> same_key cfg t key i then Some (Inl (value_idx b)) else None)"

text \<open>The loop of \<open>replace\<close>: a value whose key is already there is replaced by the last one.\<close>

partial_function (option) replace_loop :: "('a, 'k) ud_config \<Rightarrow> u32 \<Rightarrow> 'a dense \<Rightarrow> 'a dense run" where
  "replace_loop cfg i t =
     (if i \<noteq> ucast (ud_size t) then
        let key = ud_key cfg (ud_value t i); h = mixed_hash cfg key in
        run_bind (of_loop (dense_probe (replace_stop cfg t key) (ud_bucket_count t)
            (dist_and_fingerprint_from_hash h) (bucket_idx_from_hash t h))) (\<lambda>r.
        case r of
          Inl _ \<Rightarrow>
            replace_loop cfg i (pop_back
              (if i \<noteq> ucast (ud_size t - 1) then t\<lparr>ud_values := (ud_values t)[unat i := last (ud_values t)]\<rparr> else t))
        | Inr (daf, place) \<Rightarrow>
            run_bind (ud_place \<lparr>dist_and_fingerprint = daf, value_idx = i\<rparr> place t) (replace_loop cfg (i + 1)))
      else ret t)"

declare replace_loop.simps [code]

definition ud_replace :: "('a, 'k) ud_config \<Rightarrow> 'a list \<Rightarrow> 'a dense \<Rightarrow> 'a dense run" where
  "ud_replace cfg container t =
     run_bind (check (of_nat (length container) \<le> ud_max_size) Out_of_range) (\<lambda>_.
       let shifts = calc_shifts_for_size t (of_nat (length container));
           t = (if ud_bucket_count t = 0 \<or> shifts < ud_shifts t
                then allocate_buckets_from_shift (deallocate_buckets (t\<lparr>ud_shifts := shifts\<rparr>)) else t)
       in replace_loop cfg 0 ((clear_buckets t)\<lparr>ud_values := container\<rparr>))"

text \<open>\<open>operator==\<close> of maps.\<close>

fun equal_entries :: "('k \<times> 'v, 'k) ud_config \<Rightarrow> ('k \<times> 'v) dense \<Rightarrow> ('k \<times> 'v) list \<Rightarrow> bool option" where
  "equal_entries cfg a [] = Some True"
| "equal_entries cfg a (e # es) =
     Option.bind (do_find cfg a (fst e)) (\<lambda>it.
       if it = ud_size a \<or> snd e \<noteq> snd (ud_values a ! unat it) then Some False else equal_entries cfg a es)"

definition dense_equal :: "('k \<times> 'v, 'k) ud_config \<Rightarrow> ('k \<times> 'v) dense \<Rightarrow> ('k \<times> 'v) dense \<Rightarrow> bool option" where
  "dense_equal cfg a b = (if ud_size a \<noteq> ud_size b then Some False else equal_entries cfg a (ud_values b))"

end
