(* ===== verification/AnkerlBuckets.thy ===== *)
theory AnkerlBuckets
  imports AnkerlOps "HOL-Library.Multiset"
begin

text \<open>
  The invariant of the buckets of \<open>ankerl::unordered_dense\<close>. Positions are natural numbers read modulo the
  number of buckets; \<open>hs\<close> gives the hash of the value at a position of the vector. Distance and fingerprint are
  one number, \<open>dval\<close>: it grows by at most \<open>256\<close> from one bucket to the next, except that a value at home may follow
  any bucket.
\<close>

section \<open>The invariant\<close>

definition dval :: "dense_bucket list \<Rightarrow> nat \<Rightarrow> nat" where
  "dval bs v = unat (dist_and_fingerprint (bs ! (v mod length bs)))"

definition bucket_idx_at :: "dense_bucket list \<Rightarrow> nat \<Rightarrow> u32" where
  "bucket_idx_at bs v = value_idx (bs ! (v mod length bs))"

definition dense_home :: "u8 \<Rightarrow> u64 \<Rightarrow> nat" where
  "dense_home shifts h = unat (ucast (drop_bit (unat shifts) h) :: u32)"

text \<open>The number \<open>dval\<close> of a value \<open>j\<close> buckets from home.\<close>

definition dprobe :: "u64 \<Rightarrow> nat \<Rightarrow> nat" where
  "dprobe h j = 256 * (j + 1) + unat h mod 256"

definition dbucket_ok :: "u8 \<Rightarrow> (nat \<Rightarrow> u64) \<Rightarrow> nat \<Rightarrow> nat \<Rightarrow> dense_bucket \<Rightarrow> bool" where
  "dbucket_ok shifts hs n i b \<longleftrightarrow> b = zero_bucket
     \<or> (\<exists>j. unat (dist_and_fingerprint b) = dprobe (hs (unat (value_idx b))) j
          \<and> (dense_home shifts (hs (unat (value_idx b))) + j) mod n = i)"

definition ring_ok :: "u8 \<Rightarrow> (nat \<Rightarrow> u64) \<Rightarrow> dense_bucket list \<Rightarrow> bool" where
  "ring_ok shifts hs bs \<longleftrightarrow> bs \<noteq> [] \<and> (\<forall>i < length bs. dbucket_ok shifts hs (length bs) i (bs ! i))
     \<and> (\<forall>v. dval bs (Suc v) \<le> max 511 (dval bs v + 256))"

definition idx_mset :: "dense_bucket \<Rightarrow> u32 multiset" where
  "idx_mset b = (if dist_and_fingerprint b = 0 then {#} else {#value_idx b#})"

definition idxs :: "dense_bucket list \<Rightarrow> u32 multiset" where
  "idxs bs = sum_list (map idx_mset bs)"

lemma sum_list_update:
  fixes f :: "'a \<Rightarrow> 'b::comm_monoid_add"
  assumes "i < length xs"
  shows "sum_list (map f (xs[i := b])) + f (xs ! i) = sum_list (map f xs) + f b"
proof -
  have "xs = take i xs @ xs ! i # drop (Suc i) xs" using assms by (rule id_take_nth_drop)
  then have "sum_list (map f xs) = sum_list (map f (take i xs)) + (f (xs ! i) + sum_list (map f (drop (Suc i) xs)))"
    by (metis sum_list.Cons sum_list_append list.simps(9) map_append)
  moreover have "sum_list (map f (xs[i := b])) = sum_list (map f (take i xs)) + (f b + sum_list (map f (drop (Suc i) xs)))"
    using assms by (simp add: upd_conv_take_nth_drop)
  ultimately show ?thesis by (simp add: ac_simps)
qed

lemma idxs_update: "i < length bs \<Longrightarrow> idxs (bs[i := b]) + idx_mset (bs ! i) = idxs bs + idx_mset b"
  unfolding idxs_def by (rule sum_list_update)

lemma size_idxs: "size (idxs bs) = card {i. i < length bs \<and> dist_and_fingerprint (bs ! i) \<noteq> 0}"
proof (induction bs)
  case (Cons b bs)
  let ?A = "{i. i < length bs \<and> dist_and_fingerprint (bs ! i) \<noteq> 0}"
  have "{i. i < length (b # bs) \<and> dist_and_fingerprint ((b # bs) ! i) \<noteq> 0}
      = (if dist_and_fingerprint b = 0 then {} else {0}) \<union> Suc ` ?A" (is "?B = _")
    by (auto simp: less_Suc_eq_0_disj split: if_splits)
  moreover have "card (Suc ` ?A) = card ?A" by (rule card_image) simp
  moreover have "card (insert 0 (Suc ` ?A)) = Suc (card (Suc ` ?A))" by (subst card_insert_disjoint) auto
  ultimately have "card ?B = (if dist_and_fingerprint b = 0 then 0 else 1) + card ?A" by (auto split: if_splits)
  then show ?case using Cons by (simp add: idxs_def idx_mset_def)
qed (simp add: idxs_def)

lemma in_idxs: "v \<in># idxs bs \<longleftrightarrow> (\<exists>i < length bs. dist_and_fingerprint (bs ! i) \<noteq> 0 \<and> value_idx (bs ! i) = v)"
proof (induction bs)
  case (Cons b bs)
  have "idxs (b # bs) = idx_mset b + idxs bs" by (simp add: idxs_def)
  then show ?case using Cons by (auto simp: idx_mset_def less_Suc_eq_0_disj)
qed (simp add: idxs_def)

text \<open>A position of the vector is in one bucket only.\<close>

lemma idxs_unique:
  assumes "count (idxs bs) v \<le> 1" "i < length bs" "j < length bs" "dist_and_fingerprint (bs ! i) \<noteq> 0"
    "dist_and_fingerprint (bs ! j) \<noteq> 0" "value_idx (bs ! i) = v" "value_idx (bs ! j) = v"
  shows "i = j"
proof (rule ccontr)
  assume ij: "i \<noteq> j"
  let ?bs = "bs[i := zero_bucket]"
  have "idxs ?bs + {#v#} = idxs bs"
    using idxs_update[OF assms(2), of zero_bucket] assms(4,6) by (simp add: idx_mset_def zero_bucket_def)
  moreover have "v \<in># idxs ?bs" unfolding in_idxs using ij assms by (intro exI[of _ j]) simp
  ultimately have "2 \<le> count (idxs bs) v" by (metis One_nat_def Suc_1 add_le_cancel_right add_mset_add_single
      count_add_mset count_greater_eq_one_iff plus_1_eq_Suc add.commute Suc_eq_plus1 Suc_le_mono)
  with assms(1) show False by simp
qed

lemma dbucket_okD:
  assumes "dbucket_ok shifts hs n i b" "dist_and_fingerprint b \<noteq> 0"
  shows "\<exists>j. unat (dist_and_fingerprint b) = dprobe (hs (unat (value_idx b))) j
      \<and> (dense_home shifts (hs (unat (value_idx b))) + j) mod n = i"
    "256 \<le> unat (dist_and_fingerprint b)"
  using assms by (auto simp: dbucket_ok_def zero_bucket_def dprobe_def)

lemma ring_okD:
  assumes "ring_ok shifts hs bs"
  shows "bs \<noteq> []" "i < length bs \<Longrightarrow> dbucket_ok shifts hs (length bs) i (bs ! i)"
    "dbucket_ok shifts hs (length bs) (v mod length bs) (bs ! (v mod length bs))"
    "dval bs (Suc v) \<le> max 511 (dval bs v + 256)"
  using assms by (auto simp: ring_ok_def)

lemma dval_mod [simp]: "dval bs (v mod length bs) = dval bs v" "dval bs (v + length bs) = dval bs v"
  by (simp_all add: dval_def)

lemma dval_occupied: "ring_ok shifts hs bs \<Longrightarrow> dval bs v \<noteq> 0 \<Longrightarrow> 256 \<le> dval bs v"
  unfolding dval_def using ring_okD(3)[of shifts hs bs v] dbucket_okD(2) by (metis unat_0)

lemma dval_back:
  assumes "ring_ok shifts hs bs" "256 * (k + 1) \<le> dval bs (v + k)"
  shows "dval bs (v + k) \<le> dval bs v + 256 * k"
  using assms(2)
proof (induction k)
  case (Suc k)
  have "dval bs (Suc (v + k)) \<le> dval bs (v + k) + 256" using ring_okD(4)[OF assms(1), of "v + k"] Suc.prems by simp
  with Suc show ?case by simp
qed simp

lemma dval_forward: "ring_ok shifts hs bs \<Longrightarrow> dval bs v < dprobe h j \<Longrightarrow> dval bs (v + k) < dprobe h (j + k)"
proof (induction k)
  case (Suc k)
  then have "dval bs (v + k) < dprobe h (j + k)" by simp
  moreover have "dval bs (Suc (v + k)) \<le> max 511 (dval bs (v + k) + 256)" by (rule ring_okD(4)[OF Suc.prems(1)])
  ultimately show ?case by (simp add: dprobe_def)
qed simp

lemma mod_interval_inj: "d < n \<Longrightarrow> inj_on (\<lambda>u. u mod n) {v..v + d :: nat}"
proof (rule linorder_inj_onI)
  fix x y assume "d < n" and xy: "x < y" "x \<in> {v..v + d}" "y \<in> {v..v + d}"
  then have "0 < y - x" "y - x < n" by auto
  then show "x mod n \<noteq> y mod n" using xy(1) by (metis mod_eq_dvd_iff_nat less_imp_le_nat nat_dvd_not_less)
qed auto

lemma occupied_run:
  assumes "bs \<noteq> []" "d < length bs" "\<And>u. v \<le> u \<Longrightarrow> u \<le> v + d \<Longrightarrow> dval bs u \<noteq> 0"
  shows "d < size (idxs bs)"
proof -
  let ?n = "length bs"
  have "card ((\<lambda>u. u mod ?n) ` {v..v + d}) = Suc d" using mod_interval_inj[OF assms(2)] by (simp add: card_image)
  moreover have "(\<lambda>u. u mod ?n) ` {v..v + d} \<subseteq> {i. i < ?n \<and> dist_and_fingerprint (bs ! i) \<noteq> 0}"
    using assms(1,3) by (auto simp: dval_def unat_eq_0)
  then have "card ((\<lambda>u. u mod ?n) ` {v..v + d}) \<le> size (idxs bs)"
    unfolding size_idxs by (intro card_mono) auto
  ultimately show ?thesis by simp
qed

text \<open>An empty bucket comes after at most as many buckets as there are values.\<close>

lemma empty_near:
  assumes "bs \<noteq> []" "size (idxs bs) < length bs"
  shows "\<exists>j \<le> size (idxs bs). dval bs (v + j) = 0"
proof (rule ccontr)
  assume "\<not> ?thesis"
  then have "dval bs u \<noteq> 0" if "v \<le> u" "u \<le> v + size (idxs bs)" for u
    using that by (metis add_diff_cancel_left' le_add_diff_inverse diff_le_mono)
  from occupied_run[OF assms this] show False by simp
qed

text \<open>A value lies at most as far from home as there are values.\<close>

lemma dval_less:
  assumes r: "ring_ok shifts hs bs" and s: "size (idxs bs) < length bs"
  shows "dval bs v < 256 * (size (idxs bs) + 1)"
proof (rule ccontr)
  let ?s = "size (idxs bs)" and ?n = "length bs"
  assume "\<not> ?thesis"
  then have big: "256 * (?s + 1) \<le> dval bs (v + ?n)" by simp
  have "dval bs u \<noteq> 0" if u: "v + ?n - ?s \<le> u" "u \<le> v + ?n - ?s + ?s" for u
  proof -
    have "u \<le> v + ?n" using u s by linarith
    then obtain k where k: "v + ?n = u + k" using le_Suc_ex by blast
    then have "256 * (k + 1) \<le> dval bs (u + k)" using big u by simp
    moreover from dval_back[OF r this] have "dval bs (u + k) \<le> dval bs u + 256 * k" .
    ultimately show ?thesis by simp
  qed
  from occupied_run[OF ring_okD(1)[OF r] s this] show False by simp
qed

end
