(* ===== verification/AnkerlSearch.thy ===== *)
theory AnkerlSearch
  imports AnkerlBuckets
begin

text \<open>
  What the searches of \<open>ankerl::unordered_dense\<close> find. \<open>dense_index cfg t m\<close> says that the buckets index the
  first \<open>m\<close> values; while a value is added, it is not indexed yet.
\<close>

section \<open>The index\<close>

definition dense_bound :: nat where "dense_bound = 2 ^ 24 - 2"

definition value_hash :: "('a, 'k) ud_config \<Rightarrow> 'a list \<Rightarrow> nat \<Rightarrow> u64" where
  "value_hash cfg xs v = mixed_hash cfg (ud_key cfg (xs ! v))"

definition dense_shape :: "'a dense \<Rightarrow> bool" where
  "dense_shape t \<longleftrightarrow> 32 \<le> unat (ud_shifts t) \<and> unat (ud_shifts t) \<le> 62
     \<and> length (ud_buckets t) = 2 ^ (64 - unat (ud_shifts t))"

definition dense_index :: "('a, 'k) ud_config \<Rightarrow> 'a dense \<Rightarrow> nat \<Rightarrow> bool" where
  "dense_index cfg t m \<longleftrightarrow> dense_shape t \<and> ring_ok (ud_shifts t) (value_hash cfg (ud_values t)) (ud_buckets t)
     \<and> idxs (ud_buckets t) = mset (map of_nat [0..<m]) \<and> m \<le> length (ud_values t)
     \<and> distinct (map (ud_key cfg) (take m (ud_values t))) \<and> m \<le> dense_bound \<and> m < length (ud_buckets t)"

lemma dense_shapeD:
  assumes "dense_shape t"
  shows "0 < length (ud_buckets t)" "4 \<le> length (ud_buckets t)" "length (ud_buckets t) \<le> 2 ^ 32"
    "dense_home (ud_shifts t) h < length (ud_buckets t)" "ud_bucket_count t = of_nat (length (ud_buckets t))"
    "bucket_idx_from_hash t h = of_nat (dense_home (ud_shifts t) h mod length (ud_buckets t))"
proof -
  let ?s = "unat (ud_shifts t)"
  have s: "32 \<le> ?s" "?s \<le> 62" "length (ud_buckets t) = 2 ^ (64 - ?s)" using assms by (auto simp: dense_shape_def)
  show "0 < length (ud_buckets t)" using s by simp
  have "(2 :: nat) ^ 2 \<le> 2 ^ (64 - ?s)" "(2 :: nat) ^ (64 - ?s) \<le> 2 ^ 32" using s by (intro power_increasing; simp)+
  then show "4 \<le> length (ud_buckets t)" "length (ud_buckets t) \<le> 2 ^ 32" using s by simp_all
  have "unat h < 2 ^ (64 - ?s) * 2 ^ ?s" using unat_lt_2p(2)[of h] s by (simp flip: power_add)
  then have d: "unat (drop_bit ?s h) < 2 ^ (64 - ?s)"
    using s by (simp add: drop_bit_eq_div unat_div unat_p2 less_mult_imp_div_less)
  then have "unat (drop_bit ?s h) < 2 ^ 32" using \<open>(2 :: nat) ^ (64 - ?s) \<le> 2 ^ 32\<close> by linarith
  then have "dense_home (ud_shifts t) h = unat (drop_bit ?s h)"
    by (simp add: dense_home_def unsigned_ucast_eq take_bit_nat_eq_self)
  then show home: "dense_home (ud_shifts t) h < length (ud_buckets t)" using d s by simp
  show "ud_bucket_count t = of_nat (length (ud_buckets t))" by (simp add: ud_bucket_count_def)
  show "bucket_idx_from_hash t h = of_nat (dense_home (ud_shifts t) h mod length (ud_buckets t))"
    using home by (simp add: bucket_idx_from_hash_def dense_home_def)
qed

lemma dense_indexD:
  assumes "dense_index cfg t m"
  shows "dense_shape t" "ring_ok (ud_shifts t) (value_hash cfg (ud_values t)) (ud_buckets t)"
    "idxs (ud_buckets t) = mset (map of_nat [0..<m])" "m \<le> length (ud_values t)"
    "distinct (map (ud_key cfg) (take m (ud_values t)))" "m \<le> dense_bound" "m < length (ud_buckets t)"
    "size (idxs (ud_buckets t)) = m"
  using assms by (auto simp: dense_index_def)

lemma unat_of_index: "v < dense_bound + 2 \<Longrightarrow> unat (of_nat v :: u32) = v"
  by (simp add: unat_of_nat dense_bound_def)

lemma dense_index_count:
  assumes "dense_index cfg t m"
  shows "count (idxs (ud_buckets t)) v \<le> 1"
proof -
  have "distinct (map (of_nat :: nat \<Rightarrow> u32) [0..<m])"
    using dense_indexD(6)[OF assms] by (auto simp: distinct_map dense_bound_def intro!: inj_onI dest!: arg_cong[of _ _ unat] simp: unat_of_nat)
  then show ?thesis by (simp add: dense_indexD(3)[OF assms] distinct_count_atmost_1 count_mset_0_iff le_Suc_eq)
qed

lemma dense_index_value:
  assumes "dense_index cfg t m" "dval (ud_buckets t) u \<noteq> 0"
  shows "unat (bucket_idx_at (ud_buckets t) u) < m"
proof -
  have "bucket_idx_at (ud_buckets t) u \<in># idxs (ud_buckets t)"
    using assms(2) ring_okD(1)[OF dense_indexD(2)[OF assms(1)]]
    unfolding in_idxs by (intro exI[of _ "u mod length (ud_buckets t)"]) (auto simp: bucket_idx_at_def dval_def unat_eq_0)
  then obtain v where "v < m" "bucket_idx_at (ud_buckets t) u = of_nat v"
    by (auto simp: dense_indexD(3)[OF assms(1)])
  then show ?thesis using dense_indexD(6)[OF assms(1)] by (simp add: unat_of_index)
qed

lemma dense_index_unique:
  assumes "dense_index cfg t m" "dval (ud_buckets t) u \<noteq> 0" "dval (ud_buckets t) w \<noteq> 0"
    "bucket_idx_at (ud_buckets t) u = bucket_idx_at (ud_buckets t) w"
  shows "u mod length (ud_buckets t) = w mod length (ud_buckets t)"
  using assms ring_okD(1)[OF dense_indexD(2)[OF assms(1)]]
  by (intro idxs_unique[OF dense_index_count[OF assms(1)], where v = "bucket_idx_at (ud_buckets t) u"])
    (auto simp: bucket_idx_at_def dval_def unat_eq_0)

text \<open>The bucket of a value, and what lies on the way to it.\<close>

lemma ring_located:
  assumes r: "ring_ok shifts hs bs" and x: "count (idxs bs) x = 1" and full: "size (idxs bs) < length bs"
  defines "h \<equiv> hs (unat x)"
  obtains j where "j < size (idxs bs)" "dval bs (dense_home shifts h + j) = dprobe h j"
    "bucket_idx_at bs (dense_home shifts h + j) = x"
    "\<And>i. i \<le> j \<Longrightarrow> dprobe h i \<le> dval bs (dense_home shifts h + i)"
    "\<And>i. i < j \<Longrightarrow> bucket_idx_at bs (dense_home shifts h + i) \<noteq> x"
proof -
  let ?home = "dense_home shifts h"
  have "x \<in># idxs bs" using x by (simp flip: count_greater_zero_iff)
  then obtain i where i: "i < length bs" "dist_and_fingerprint (bs ! i) \<noteq> 0" "value_idx (bs ! i) = x"
    by (auto simp: in_idxs)
  from dbucket_okD(1)[OF ring_okD(2)[OF r i(1)] i(2)] obtain j where j: "unat (dist_and_fingerprint (bs ! i)) = dprobe h j"
    "(?home + j) mod length bs = i" unfolding i(3) h_def by blast
  have dj: "dval bs (?home + j) = dprobe h j" "bucket_idx_at bs (?home + j) = x"
    using j i(3) by (simp_all add: dval_def bucket_idx_at_def)
  have "dval bs (?home + j) < 256 * (size (idxs bs) + 1)" by (rule dval_less[OF r full])
  then have jm: "j < size (idxs bs)" unfolding dj by (simp add: dprobe_def)
  have way: "dprobe h k \<le> dval bs (?home + k)" if k: "k \<le> j" for k
  proof -
    obtain l where l: "j = k + l" using k le_Suc_ex by blast
    have "256 * (l + 1) \<le> dval bs (?home + k + l)" using dj(1) l by (simp add: dprobe_def add.assoc)
    from dval_back[OF r this] show ?thesis using dj(1) l by (simp add: dprobe_def add.assoc)
  qed
  have "bucket_idx_at bs (?home + k) \<noteq> x" if k: "k < j" for k
  proof
    assume "bucket_idx_at bs (?home + k) = x"
    moreover have "dval bs (?home + k) \<noteq> 0" using way[of k] k by (simp add: dprobe_def)
    moreover have "dval bs (?home + j) \<noteq> 0" by (simp add: dj dprobe_def)
    ultimately have "(?home + k) mod length bs = (?home + j) mod length bs"
      using idxs_unique[of bs x "(?home + k) mod length bs" "(?home + j) mod length bs"] x dj(2) ring_okD(1)[OF r]
      by (simp add: bucket_idx_at_def dval_def unat_eq_0)
    moreover have "inj_on (\<lambda>u. u mod length bs) {?home..?home + j}" using jm full by (intro mod_interval_inj) simp
    ultimately show False using k by (auto dest!: inj_onD)
  qed
  then show ?thesis using that jm dj way by blast
qed

lemma dense_located:
  assumes ix: "dense_index cfg t m" and v: "v < m"
  defines "h \<equiv> value_hash cfg (ud_values t) v" and "bs \<equiv> ud_buckets t"
  obtains j where "j < m" "dval bs (dense_home (ud_shifts t) h + j) = dprobe h j"
    "bucket_idx_at bs (dense_home (ud_shifts t) h + j) = of_nat v"
    "\<And>i. i \<le> j \<Longrightarrow> dprobe h i \<le> dval bs (dense_home (ud_shifts t) h + i)"
    "\<And>i. i < j \<Longrightarrow> bucket_idx_at bs (dense_home (ud_shifts t) h + i) \<noteq> of_nat v"
proof -
  note D = dense_indexD[OF ix, folded bs_def]
  have uv: "unat (of_nat v :: u32) = v" using v D(6) by (simp add: unat_of_index)
  have "of_nat v \<in># idxs bs" using v D(3) by simp
  then have "count (idxs bs) (of_nat v) = 1"
    using dense_index_count[OF ix, of "of_nat v"] by (simp add: bs_def le_Suc_eq flip: count_greater_zero_iff)
  from ring_located[OF D(2) this] D(7,8) show ?thesis unfolding uv h_def[symmetric] D(8) using that by metis
qed

text \<open>A bucket with the number of a key has its value only if the key is there.\<close>

lemma dense_same_key:
  assumes ix: "dense_index cfg t m" and u: "dval (ud_buckets t) u \<noteq> 0"
  shows "same_key cfg t key (of_nat (u mod length (ud_buckets t)))
    \<longleftrightarrow> key = ud_key cfg (ud_values t ! unat (bucket_idx_at (ud_buckets t) u))"
proof -
  note S = dense_shapeD[OF dense_indexD(1)[OF ix]]
  have "u mod length (ud_buckets t) < 2 ^ 32" using S(1,3) by (meson le_trans less_le_trans mod_less_divisor)
  then have "unat (of_nat (u mod length (ud_buckets t)) :: u32) = u mod length (ud_buckets t)" by (simp add: unat_of_nat)
  then show ?thesis by (simp add: same_key_def ud_value_def ud_at_def bucket_idx_at_def)
qed

lemma dense_absent:
  assumes ix: "dense_index cfg t m" and u: "dval (ud_buckets t) u \<noteq> 0"
    and key: "key \<notin> set (map (ud_key cfg) (take m (ud_values t)))"
  shows "\<not> same_key cfg t key (of_nat (u mod length (ud_buckets t)))"
proof -
  let ?v = "unat (bucket_idx_at (ud_buckets t) u)"
  have v: "?v < m" by (rule dense_index_value[OF ix u])
  then have "ud_values t ! ?v \<in> set (take m (ud_values t))" using dense_indexD(4)[OF ix] by (auto simp: in_set_conv_nth)
  then show ?thesis using key by (auto simp: dense_same_key[OF ix u])
qed

lemma dense_first:
  assumes ix: "dense_index cfg t m"
  obtains j where "j \<le> m" "dval (ud_buckets t) (v + j) < dprobe h j" "\<And>i. i < j \<Longrightarrow> dprobe h i \<le> dval (ud_buckets t) (v + i)"
proof -
  note D = dense_indexD[OF ix]
  obtain e where e: "e \<le> m" "dval (ud_buckets t) (v + e) = 0"
    using empty_near[OF ring_okD(1)[OF D(2)], of v] D(7,8) by auto
  let ?P = "\<lambda>j. dval (ud_buckets t) (v + j) < dprobe h j"
  have "?P e" using e by (simp add: dprobe_def)
  then have "?P (LEAST j. ?P j)" "(LEAST j. ?P j) \<le> m" using e(1) by (auto intro: LeastI Least_le le_trans)
  moreover have "dprobe h i \<le> dval (ud_buckets t) (v + i)" if "i < (LEAST j. ?P j)" for i
    using not_less_Least[OF that] by simp
  ultimately show ?thesis using that by blast
qed

end
