(* ===== verification/AnkerlFind.thy ===== *)
theory AnkerlFind
  imports AnkerlSearch
begin

text \<open>
  The loops of the lookups. Whatever the order of their tests, they find the same bucket: that of the key, or
  the first one where the key would be in front.
\<close>

section \<open>Steps of a loop\<close>

lemma ud_next_mod:
  assumes "0 < n" "n \<le> 2 ^ 32"
  shows "ud_next (of_nat n) (of_nat (v mod n)) = of_nat (Suc v mod n)"
proof -
  let ?i = "v mod n"
  have i: "?i < n" using assms(1) by simp
  have e: "(of_nat ?i + 1 :: u32) = of_nat (Suc ?i)" by simp
  show ?thesis
  proof (cases "Suc ?i = n")
    case True
    have "ucast (of_nat n :: u32) = (of_nat n :: u64) \<or> (of_nat n :: u32) = 0"
    proof (cases "n = 2 ^ 32")
      case False
      then have "unat (of_nat n :: u32) = n" using assms(2) by (simp add: unat_of_nat)
      moreover have "unat (of_nat n :: u64) = n" using assms(2) by (simp add: unat_of_nat)
      ultimately show ?thesis by (simp add: word_unat_eq_iff)
    qed simp
    moreover have "Suc v mod n = 0" using True by (simp add: mod_Suc)
    ultimately show ?thesis unfolding ud_next_def e True by auto
  next
    case False
    then have lt: "Suc ?i < n" using i by simp
    then have "unat (of_nat (Suc ?i) :: u32) = Suc ?i" using assms(2) by (simp only: unat_of_nat) simp
    then have "unat (ucast (of_nat (Suc ?i) :: u32) :: u64) = Suc ?i" by simp
    moreover have "unat (of_nat n :: u64) = n" using assms(2) by (simp add: unat_of_nat)
    ultimately have "ucast (of_nat (Suc ?i) :: u32) \<noteq> (of_nat n :: u64)" using lt by (metis less_irrefl)
    moreover have "Suc v mod n = Suc ?i" using False by (simp add: mod_Suc)
    ultimately show ?thesis unfolding ud_next_def e by simp
  qed
qed

lemma dist_inc_dprobe: "dist_inc (of_nat (dprobe h j)) = of_nat (dprobe h (Suc j))"
  by (simp add: dist_inc_def bucket_dist_inc_def dprobe_def)

lemma hash_start: "dist_and_fingerprint_from_hash h = of_nat (dprobe h 0)"
proof -
  let ?f = "take_bit 8 (ucast h) :: u32"
  have f: "ucast h AND fingerprint_mask = ?f"
    by (simp add: fingerprint_mask_def bucket_dist_inc_def take_bit_eq_mask mask_eq_exp_minus_1)
  have "unat ?f = take_bit 8 (unat h)" by (simp only: unsigned_take_bit_eq unsigned_ucast_eq take_bit_take_bit) simp
  then have "unat ?f = unat h mod 256" by (simp only: take_bit_eq_mod) simp
  then have u: "?f = of_nat (unat h mod 256)" by (simp add: word_unat_eq_iff unat_of_nat)
  have "(2 ^ 8 :: u32) + ?f = 2 ^ 8 OR ?f" by (rule disjunctive_add) (simp only: bit_exp_iff bit_take_bit_iff, auto)
  then show ?thesis
    by (simp add: dist_and_fingerprint_from_hash_def f bucket_dist_inc_def dprobe_def) (simp add: u)
qed

lemma unat_dprobe: "j \<le> dense_bound \<Longrightarrow> unat (of_nat (dprobe h j) :: u32) = dprobe h j"
proof -
  assume j: "j \<le> dense_bound"
  have "unat h mod 256 < 256" by simp
  then have "dprobe h j < 2 ^ 32" using j by (simp add: dprobe_def dense_bound_def)
  then show ?thesis by (simp add: unat_of_nat)
qed

lemma dense_probe_steps:
  assumes n: "0 < n" "n \<le> 2 ^ 32"
    and go: "\<And>i. i < j \<Longrightarrow> stop (of_nat (dprobe h (k + i))) (of_nat ((v + i) mod n)) = None"
    and halt: "stop (of_nat (dprobe h (k + j))) (of_nat ((v + j) mod n)) = Some r"
  shows "dense_probe stop (of_nat n) (of_nat (dprobe h k)) (of_nat (v mod n)) = Some r"
  using go halt
proof (induction j arbitrary: k v)
  case 0
  then show ?case by (subst dense_probe.simps) simp
next
  case (Suc j)
  have "stop (of_nat (dprobe h k)) (of_nat (v mod n)) = None" using Suc.prems(1)[of 0] by simp
  moreover have "dense_probe stop (of_nat n) (of_nat (dprobe h (Suc k))) (of_nat (Suc v mod n)) = Some r"
  proof (rule Suc.IH)
    show "stop (of_nat (dprobe h (Suc k + i))) (of_nat ((Suc v + i) mod n)) = None" if "i < j" for i
      using Suc.prems(1)[of "Suc i"] that by simp
  qed (use Suc.prems(2) in simp)
  ultimately show ?case by (subst dense_probe.simps) (simp add: ud_next_mod[OF n] dist_inc_dprobe)
qed

text \<open>The tests of a loop in numbers.\<close>

lemma dense_tests:
  fixes u :: nat
  assumes "dense_shape t" "j \<le> dense_bound"
  defines "d \<equiv> dist_and_fingerprint (ud_at (ud_buckets t) (of_nat (u mod length (ud_buckets t))))"
  shows "of_nat (dprobe h j) < d \<longleftrightarrow> dprobe h j < dval (ud_buckets t) u"
    "of_nat (dprobe h j) \<le> d \<longleftrightarrow> dprobe h j \<le> dval (ud_buckets t) u"
    "of_nat (dprobe h j) = d \<longleftrightarrow> dprobe h j = dval (ud_buckets t) u"
    "d < of_nat (dprobe h j) \<longleftrightarrow> dval (ud_buckets t) u < dprobe h j"
    "value_idx (ud_at (ud_buckets t) (of_nat (u mod length (ud_buckets t)))) = bucket_idx_at (ud_buckets t) u"
proof -
  note S = dense_shapeD[OF assms(1)]
  have "u mod length (ud_buckets t) < 2 ^ 32" using S(1,3) by (meson le_trans less_le_trans mod_less_divisor)
  then have i: "unat (of_nat (u mod length (ud_buckets t)) :: u32) = u mod length (ud_buckets t)" by (simp add: unat_of_nat)
  have d: "unat d = dval (ud_buckets t) u" by (simp only: d_def ud_at_def i dval_def)
  note p = unat_dprobe[OF assms(2), of h]
  show "of_nat (dprobe h j) < d \<longleftrightarrow> dprobe h j < dval (ud_buckets t) u"
    "of_nat (dprobe h j) \<le> d \<longleftrightarrow> dprobe h j \<le> dval (ud_buckets t) u"
    "d < of_nat (dprobe h j) \<longleftrightarrow> dval (ud_buckets t) u < dprobe h j"
    by (simp_all only: word_less_nat_alt word_le_nat_alt p d)
  show "of_nat (dprobe h j) = d \<longleftrightarrow> dprobe h j = dval (ud_buckets t) u"
    by (simp only: word_unat_eq_iff p d)
  show "value_idx (ud_at (ud_buckets t) (of_nat (u mod length (ud_buckets t)))) = bucket_idx_at (ud_buckets t) u"
    by (simp only: ud_at_def i bucket_idx_at_def)
qed

section \<open>The searches agree\<close>

lemma emplace_stops_equal: "try_emplace_stop = emplace_stop" "replace_stop = emplace_stop"
  by (auto simp: fun_eq_iff try_emplace_stop_def emplace_stop_def replace_stop_def Let_def not_less not_le)

text \<open>What \<open>do_find_stop\<close> makes of the result.\<close>

lemma do_find_stop_emplace:
  "do_find_stop cfg t key daf i
    = map_option (\<lambda>r. case r of Inl v \<Rightarrow> ucast v | Inr _ \<Rightarrow> ud_size t) (emplace_stop cfg t key daf i)"
  by (auto simp: do_find_stop_def emplace_stop_def Let_def)

section \<open>What is found\<close>

lemma dense_present:
  assumes ix: "dense_index cfg t m" and v: "v < m" "ud_key cfg (ud_values t ! v) = key" and u: "dval (ud_buckets t) u \<noteq> 0"
  shows "same_key cfg t key (of_nat (u mod length (ud_buckets t))) \<longleftrightarrow> bucket_idx_at (ud_buckets t) u = of_nat v"
proof -
  note D = dense_indexD[OF ix]
  let ?w = "bucket_idx_at (ud_buckets t) u"
  have w: "unat ?w < m" by (rule dense_index_value[OF ix u])
  have "ud_key cfg (ud_values t ! unat ?w) = key \<longleftrightarrow> unat ?w = v"
    using nth_eq_iff_index_eq[OF D(5), of "unat ?w" v] w v D(4) by simp
  moreover have "unat ?w = v \<longleftrightarrow> ?w = of_nat v" using unat_of_index[of v] v(1) D(6) by (auto simp: word_unat_eq_iff)
  ultimately show ?thesis using dense_same_key[OF ix u, of key] by auto
qed

lemma emplace_found:
  assumes ix: "dense_index cfg t m" and v: "v < m" "ud_key cfg (ud_values t ! v) = key"
  defines "h \<equiv> mixed_hash cfg key"
  obtains j where "j < m"
    "\<And>i. i < j \<Longrightarrow> emplace_stop cfg t key (of_nat (dprobe h i))
        (of_nat ((dense_home (ud_shifts t) h + i) mod length (ud_buckets t))) = None"
    "emplace_stop cfg t key (of_nat (dprobe h j))
        (of_nat ((dense_home (ud_shifts t) h + j) mod length (ud_buckets t))) = Some (Inl (of_nat v))"
    "dval (ud_buckets t) (dense_home (ud_shifts t) h + j) = dprobe h j"
    "bucket_idx_at (ud_buckets t) (dense_home (ud_shifts t) h + j) = of_nat v"
    "\<And>i. i \<le> j \<Longrightarrow> dprobe h i \<le> dval (ud_buckets t) (dense_home (ud_shifts t) h + i)"
proof -
  note D = dense_indexD[OF ix]
  have h: "h = value_hash cfg (ud_values t) v" by (simp add: h_def value_hash_def v(2))
  obtain j where j: "j < m" "dval (ud_buckets t) (dense_home (ud_shifts t) h + j) = dprobe h j"
    "bucket_idx_at (ud_buckets t) (dense_home (ud_shifts t) h + j) = of_nat v"
    "\<And>i. i \<le> j \<Longrightarrow> dprobe h i \<le> dval (ud_buckets t) (dense_home (ud_shifts t) h + i)"
    "\<And>i. i < j \<Longrightarrow> bucket_idx_at (ud_buckets t) (dense_home (ud_shifts t) h + i) \<noteq> of_nat v"
    using dense_located[OF ix v(1), folded h] by blast
  have occ: "dval (ud_buckets t) (dense_home (ud_shifts t) h + i) \<noteq> 0" if "i \<le> j" for i
    using j(4)[OF that] by (simp add: dprobe_def)
  have b: "i \<le> dense_bound" if "i \<le> j" for i using that j(1) D(6) by simp
  note T = dense_tests[OF D(1) b]
  show ?thesis
    by (rule that[of j])
      (use j(1-4) in \<open>simp_all add: emplace_stop_def Let_def T dense_tests(5)[OF D(1) le0] dense_present[OF ix v occ] j(5)\<close>)
qed

lemma emplace_absent:
  assumes ix: "dense_index cfg t m" and key: "key \<notin> set (map (ud_key cfg) (take m (ud_values t)))"
  defines "h \<equiv> mixed_hash cfg key"
  obtains j where "j \<le> m"
    "\<And>i. i < j \<Longrightarrow> emplace_stop cfg t key (of_nat (dprobe h i))
        (of_nat ((dense_home (ud_shifts t) h + i) mod length (ud_buckets t))) = None"
    "\<And>i. j \<le> i \<Longrightarrow> i \<le> dense_bound \<Longrightarrow> emplace_stop cfg t key (of_nat (dprobe h i))
        (of_nat ((dense_home (ud_shifts t) h + i) mod length (ud_buckets t)))
      = Some (Inr (of_nat (dprobe h i), of_nat ((dense_home (ud_shifts t) h + i) mod length (ud_buckets t))))"
    "dval (ud_buckets t) (dense_home (ud_shifts t) h + j) < dprobe h j"
    "\<And>i. i < j \<Longrightarrow> dprobe h i \<le> dval (ud_buckets t) (dense_home (ud_shifts t) h + i)"
proof -
  note D = dense_indexD[OF ix]
  let ?u = "dense_home (ud_shifts t) h"
  obtain j where j: "j \<le> m" "dval (ud_buckets t) (?u + j) < dprobe h j"
    "\<And>i. i < j \<Longrightarrow> dprobe h i \<le> dval (ud_buckets t) (?u + i)"
    using dense_first[OF ix, where v = ?u and h = h] by blast
  have occ: "dval (ud_buckets t) (?u + i) \<noteq> 0" if "i < j" for i
    using j(3)[OF that] by (simp add: dprobe_def)
  have b: "i \<le> dense_bound" if "i \<le> j" for i using that j(1) D(6) by simp
  have beyond: "dval (ud_buckets t) (?u + i) < dprobe h i" if i: "j \<le> i" for i
  proof -
    obtain k where "i = j + k" using i le_Suc_ex by blast
    then show ?thesis using dval_forward[OF D(2) j(2), of k] by (simp add: add.assoc)
  qed
  show ?thesis
  proof (rule that[OF j(1) _ _ j(2)])
    show "emplace_stop cfg t key (of_nat (dprobe h i)) (of_nat ((?u + i) mod length (ud_buckets t))) = None" if "i < j" for i
      using that j(3) dense_tests[OF D(1) b] dense_absent[OF ix occ key] by (simp add: emplace_stop_def Let_def)
    show "emplace_stop cfg t key (of_nat (dprobe h i)) (of_nat ((?u + i) mod length (ud_buckets t)))
      = Some (Inr (of_nat (dprobe h i), of_nat ((?u + i) mod length (ud_buckets t))))" if "j \<le> i" "i \<le> dense_bound" for i
      using beyond[OF that(1)] dense_tests[OF D(1) that(2)] by (simp add: emplace_stop_def Let_def not_le)
  qed (use j(3) in blast)
qed

lemma dense_probe_start:
  assumes ix: "dense_index cfg t m"
    and "\<And>i. i < j \<Longrightarrow> stop (of_nat (dprobe h i)) (of_nat ((dense_home (ud_shifts t) h + i) mod length (ud_buckets t))) = None"
    and "stop (of_nat (dprobe h j)) (of_nat ((dense_home (ud_shifts t) h + j) mod length (ud_buckets t))) = Some r"
  shows "dense_probe stop (ud_bucket_count t) (dist_and_fingerprint_from_hash h) (bucket_idx_from_hash t h) = Some r"
proof -
  note S = dense_shapeD[OF dense_indexD(1)[OF ix]]
  show ?thesis
    unfolding S(5) S(6) hash_start
    by (rule dense_probe_steps[OF S(1) S(3), where j = j]) (use assms(2,3) in simp_all)
qed

lemma emplace_search_found:
  assumes "dense_index cfg t m" "v < m" "ud_key cfg (ud_values t ! v) = key"
  shows "dense_probe (emplace_stop cfg t key) (ud_bucket_count t) (dist_and_fingerprint_from_hash (mixed_hash cfg key))
    (bucket_idx_from_hash t (mixed_hash cfg key)) = Some (Inl (of_nat v))"
  by (rule emplace_found[OF assms]) (rule dense_probe_start[OF assms(1)])

lemma emplace_search_absent:
  assumes "dense_index cfg t m" "key \<notin> set (map (ud_key cfg) (take m (ud_values t)))"
  defines "h \<equiv> mixed_hash cfg key"
  obtains j where "j \<le> m"
    "dense_probe (emplace_stop cfg t key) (ud_bucket_count t) (dist_and_fingerprint_from_hash h) (bucket_idx_from_hash t h)
      = Some (Inr (of_nat (dprobe h j), of_nat ((dense_home (ud_shifts t) h + j) mod length (ud_buckets t))))"
    "dval (ud_buckets t) (dense_home (ud_shifts t) h + j) < dprobe h j"
    "\<And>i. i < j \<Longrightarrow> dprobe h i \<le> dval (ud_buckets t) (dense_home (ud_shifts t) h + i)"
proof (rule emplace_absent[OF assms(1,2)], fold h_def)
  fix j assume j: "j \<le> m" "\<And>i. i < j \<Longrightarrow> emplace_stop cfg t key (of_nat (dprobe h i))
        (of_nat ((dense_home (ud_shifts t) h + i) mod length (ud_buckets t))) = None"
    "\<And>i. j \<le> i \<Longrightarrow> i \<le> dense_bound \<Longrightarrow> emplace_stop cfg t key (of_nat (dprobe h i))
        (of_nat ((dense_home (ud_shifts t) h + i) mod length (ud_buckets t)))
      = Some (Inr (of_nat (dprobe h i), of_nat ((dense_home (ud_shifts t) h + i) mod length (ud_buckets t))))"
    "dval (ud_buckets t) (dense_home (ud_shifts t) h + j) < dprobe h j"
    "\<And>i. i < j \<Longrightarrow> dprobe h i \<le> dval (ud_buckets t) (dense_home (ud_shifts t) h + i)"
  have "j \<le> dense_bound" using j(1) dense_indexD(6)[OF assms(1)] by simp
  from that[OF j(1) dense_probe_start[OF assms(1), where stop = "emplace_stop cfg t key" and j = j and h = h,
      OF j(2) j(3)[OF order_refl this]] j(4,5)]
  show thesis .
qed

section \<open>The unrolled lookup\<close>

lemma do_find_test:
  "do_find_stop cfg t key daf i = Some (ucast (value_idx (ud_at (ud_buckets t) i))) \<or> \<not> find_test cfg t key daf i"
  by (auto simp: do_find_stop_def find_test_def Let_def)

lemma find_test_emplace:
  "find_test cfg t key daf i \<longleftrightarrow> emplace_stop cfg t key daf i = Some (Inl (value_idx (ud_at (ud_buckets t) i)))"
  by (auto simp: find_test_def emplace_stop_def Let_def)

lemma do_find_unrolled:
  fixes cfg :: "('a, 'k) ud_config" and key :: 'k
  assumes "dense_shape t" "\<not> ud_empty t"
  defines "n \<equiv> length (ud_buckets t)" and "h \<equiv> mixed_hash cfg key"
  defines "u \<equiv> dense_home (ud_shifts t) h"
  shows "do_find cfg t key =
    (if find_test cfg t key (of_nat (dprobe h 0)) (of_nat (u mod n))
     then Some (ucast (value_idx (ud_at (ud_buckets t) (of_nat (u mod n)))))
     else if find_test cfg t key (of_nat (dprobe h 1)) (of_nat ((u + 1) mod n))
     then Some (ucast (value_idx (ud_at (ud_buckets t) (of_nat ((u + 1) mod n)))))
     else dense_probe (do_find_stop cfg t key) (of_nat n) (of_nat (dprobe h 2)) (of_nat ((u + 2) mod n)))"
proof -
  note S = dense_shapeD[OF assms(1), folded n_def]
  have st: "dist_inc (of_nat (dprobe h 0)) = of_nat (dprobe h 1)" "dist_inc (of_nat (dprobe h 1)) = of_nat (dprobe h 2)"
    "ud_next (of_nat n) (of_nat (u mod n)) = of_nat ((u + 1) mod n)"
    "ud_next (of_nat n) (of_nat ((u + 1) mod n)) = of_nat ((u + 2) mod n)"
    using dist_inc_dprobe[of h 0] dist_inc_dprobe[of h 1] ud_next_mod[OF S(1,3), of u] ud_next_mod[OF S(1,3), of "u + 1"]
    by (simp_all add: numeral_2_eq_2)
  show ?thesis
    unfolding do_find_def Let_def h_def[symmetric] S(5) S(6) hash_start u_def[symmetric] st if_not_P[OF assms(2)] ..
qed

lemma do_find_found:
  assumes ix: "dense_index cfg t m" and v: "v < m" "ud_key cfg (ud_values t ! v) = key"
  shows "do_find cfg t key = Some (of_nat v)"
proof -
  define h where "h = mixed_hash cfg key"
  let ?n = "length (ud_buckets t)" and ?u = "dense_home (ud_shifts t) h"
  note D = dense_indexD[OF ix] and S = dense_shapeD[OF dense_indexD(1)[OF ix]]
  obtain j where j: "j < m" "\<And>i. i < j \<Longrightarrow> emplace_stop cfg t key (of_nat (dprobe h i)) (of_nat ((?u + i) mod ?n)) = None"
    "emplace_stop cfg t key (of_nat (dprobe h j)) (of_nat ((?u + j) mod ?n)) = Some (Inl (of_nat v))"
    "bucket_idx_at (ud_buckets t) (?u + j) = of_nat v"
    using emplace_found[OF ix v, folded h_def] by metis
  have nempty: "\<not> ud_empty t" using v(1) D(4) by (auto simp: ud_empty_def)
  have jb: "j \<le> dense_bound" using j(1) D(6) by simp
  have w: "ucast (of_nat v :: u32) = (of_nat v :: u64)"
    using unat_of_index[of v] v(1) D(6) by (simp add: word_unat_eq_iff unat_of_nat dense_bound_def)
  have idx: "value_idx (ud_at (ud_buckets t) (of_nat ((?u + j) mod ?n))) = of_nat v"
    using dense_tests(5)[OF D(1) jb, of "?u + j"] j(4) by simp
  have miss: "\<not> find_test cfg t key (of_nat (dprobe h i)) (of_nat ((?u + i) mod ?n))" if "i < j" for i
    using j(2)[OF that] by (simp add: find_test_emplace)
  have hit: "find_test cfg t key (of_nat (dprobe h j)) (of_nat ((?u + j) mod ?n))"
    using j(3) by (simp add: find_test_emplace idx)
  have loop: "dense_probe (do_find_stop cfg t key) (of_nat ?n) (of_nat (dprobe h 2)) (of_nat ((?u + 2) mod ?n)) = Some (of_nat v)"
    if "2 \<le> j"
  proof (rule dense_probe_steps[OF S(1,3), where j = "j - 2"])
    have e: "2 + (j - 2) = j" "?u + 2 + (j - 2) = ?u + j" using that by simp_all
    show "do_find_stop cfg t key (of_nat (dprobe h (2 + i))) (of_nat ((?u + 2 + i) mod ?n)) = None" if "i < j - 2" for i
      using j(2)[of "2 + i"] that by (simp add: do_find_stop_emplace add.assoc)
    show "do_find_stop cfg t key (of_nat (dprobe h (2 + (j - 2)))) (of_nat ((?u + 2 + (j - 2)) mod ?n)) = Some (of_nat v)"
      unfolding e using j(3) w by (simp add: do_find_stop_emplace)
  qed
  note unrolled = do_find_unrolled[OF D(1) nempty, of cfg key, folded h_def]
  consider "j = 0" | "j = 1" | "2 \<le> j" by linarith
  then show ?thesis
  proof cases
    case 1
    then show ?thesis using hit idx w by (simp add: unrolled)
  next
    case 2
    then show ?thesis using hit miss[of 0] idx w by (simp add: unrolled)
  next
    case 3
    then show ?thesis using miss[of 0] miss[of 1] loop by (simp add: unrolled)
  qed
qed

lemma do_find_absent:
  assumes ix: "dense_index cfg t m" and key: "key \<notin> set (map (ud_key cfg) (take m (ud_values t)))"
  shows "do_find cfg t key = Some (ud_size t)"
proof (cases "ud_empty t")
  case True
  then show ?thesis by (simp add: do_find_def)
next
  case nempty: False
  define h where "h = mixed_hash cfg key"
  let ?n = "length (ud_buckets t)" and ?u = "dense_home (ud_shifts t) h"
  note D = dense_indexD[OF ix] and S = dense_shapeD[OF dense_indexD(1)[OF ix]]
  obtain j where j: "j \<le> m" "\<And>i. i < j \<Longrightarrow> emplace_stop cfg t key (of_nat (dprobe h i)) (of_nat ((?u + i) mod ?n)) = None"
    "\<And>i. j \<le> i \<Longrightarrow> i \<le> dense_bound \<Longrightarrow> emplace_stop cfg t key (of_nat (dprobe h i)) (of_nat ((?u + i) mod ?n))
      = Some (Inr (of_nat (dprobe h i), of_nat ((?u + i) mod ?n)))"
    using emplace_absent[OF ix key, folded h_def] by metis
  have miss: "\<not> find_test cfg t key (of_nat (dprobe h i)) (of_nat ((?u + i) mod ?n))" if "i \<le> dense_bound" for i
    using j(2)[of i] j(3)[of i] that by (cases "i < j") (auto simp: find_test_emplace)
  define k where "k = max j 2"
  have k: "2 \<le> k" "j \<le> k" "k \<le> dense_bound" using j(1) D(6) by (auto simp: k_def dense_bound_def)
  have loop: "dense_probe (do_find_stop cfg t key) (of_nat ?n) (of_nat (dprobe h 2)) (of_nat ((?u + 2) mod ?n)) = Some (ud_size t)"
  proof (rule dense_probe_steps[OF S(1,3), where j = "k - 2"])
    have e: "2 + (k - 2) = k" "?u + 2 + (k - 2) = ?u + k" using k by simp_all
    show "do_find_stop cfg t key (of_nat (dprobe h (2 + i))) (of_nat ((?u + 2 + i) mod ?n)) = None" if "i < k - 2" for i
      using j(2)[of "2 + i"] that by (simp add: do_find_stop_emplace add.assoc k_def max_def split: if_splits)
    show "do_find_stop cfg t key (of_nat (dprobe h (2 + (k - 2)))) (of_nat ((?u + 2 + (k - 2)) mod ?n)) = Some (ud_size t)"
      unfolding e using j(3)[OF k(2,3)] by (simp add: do_find_stop_emplace)
  qed
  note unrolled = do_find_unrolled[OF D(1) nempty, of cfg key, folded h_def]
  have "\<not> find_test cfg t key (of_nat (dprobe h 0)) (of_nat (?u mod ?n))"
    "\<not> find_test cfg t key (of_nat (dprobe h 1)) (of_nat ((?u + 1) mod ?n))"
    using miss[of 0] miss[of 1] by (simp_all add: dense_bound_def)
  then show ?thesis using loop by (simp add: unrolled)
qed

end
