(* ===== verification/AnkerlInsert.thy ===== *)
theory AnkerlInsert
  imports AnkerlFind
begin

text \<open>
  Placing a bucket in \<open>ankerl::unordered_dense\<close>: the buckets behind it move up by one and the ring stays
  ordered; rebuilding the buckets and growing; the invariant of a table; what the insertions do.
\<close>

section \<open>Placing a bucket\<close>

lemma dval_update:
  "bs \<noteq> [] \<Longrightarrow> dval (bs[v mod length bs := b]) u
    = (if u mod length bs = v mod length bs then unat (dist_and_fingerprint b) else dval bs u)"
  by (simp add: dval_def)

lemma mod_prev: "Suc u mod n = v mod n \<Longrightarrow> 0 < n \<Longrightarrow> u mod n = (v + (n - 1)) mod n"
proof -
  assume a: "Suc u mod n = v mod n" "0 < n"
  then have "(Suc u + (n - 1)) mod n = (v + (n - 1)) mod n" by (metis mod_add_left_eq)
  moreover have "Suc u + (n - 1) = u + n" using a(2) by simp
  ultimately show ?thesis by simp
qed

lemma ring_put:
  assumes r: "ring_ok s hs bs" and n: "2 \<le> length bs"
    and b: "dbucket_ok s hs (length bs) (v mod length bs) b"
    and lo: "dval bs v \<le> unat (dist_and_fingerprint b)"
    and hi: "unat (dist_and_fingerprint b) \<le> max 511 (dval bs (v + (length bs - 1)) + 256)"
  shows "ring_ok s hs (bs[v mod length bs := b])" (is "ring_ok s hs ?bs")
proof -
  note R = ring_okD[OF r]
  have "dval ?bs (Suc u) \<le> max 511 (dval ?bs u + 256)" for u
  proof (cases "Suc u mod length bs = v mod length bs")
    case True
    have "u mod length bs \<noteq> v mod length bs"
    proof
      assume "u mod length bs = v mod length bs"
      then have "Suc u mod length bs = Suc v mod length bs" by (metis mod_Suc_eq)
      with True n show False by (auto simp: mod_Suc split: if_splits)
    qed
    moreover have "dval bs u = dval bs (v + (length bs - 1))"
      using mod_prev[OF True] R(1) by (simp add: dval_def)
    ultimately show ?thesis using True hi R(1) by (simp add: dval_update)
  next
    case False
    moreover have "dval bs u = dval bs v" if "u mod length bs = v mod length bs" using that by (simp add: dval_def)
    ultimately show ?thesis using R(4)[of u] lo R(1) by (auto simp: dval_update)
  qed
  then show ?thesis using R(1,2) b by (auto simp: ring_ok_def nth_list_update)
qed

lemma mod_shift_neq: "0 < e \<Longrightarrow> e < n \<Longrightarrow> (v + e) mod n \<noteq> v mod (n :: nat)"
  using mod_interval_inj[of e n v] by (auto dest!: inj_onD)

lemma place_and_shift_up_ring:
  assumes n: "2 \<le> length bs" "length bs \<le> 2 ^ 32" and r: "ring_ok s hs bs"
    and full: "size (idxs bs) < length bs" "size (idxs bs) \<le> dense_bound"
    and b: "dbucket_ok s hs (length bs) (v mod length bs) b" "dist_and_fingerprint b \<noteq> 0"
    and lo: "dval bs v \<le> unat (dist_and_fingerprint b)"
    and hi: "unat (dist_and_fingerprint b) \<le> max 511 (dval bs (v + (length bs - 1)) + 256)"
    and e: "dval bs (v + e) = 0" "e < length bs"
  shows "\<exists>bs'. place_and_shift_up (of_nat (length bs)) b (of_nat (v mod length bs)) bs = Some bs'
    \<and> ring_ok s hs bs' \<and> length bs' = length bs \<and> idxs bs' = add_mset (value_idx b) (idxs bs)"
  using assms
proof (induction e arbitrary: bs b v rule: less_induct)
  case (less e)
  let ?n = "length bs" and ?old = "bs ! (v mod length bs)"
  let ?bs = "bs[v mod ?n := b]"
  have nz: "0 < ?n" using less.prems(1) by linarith
  then have i: "v mod ?n < ?n" by simp
  have u: "unat (of_nat (v mod ?n) :: u32) = v mod ?n"
    using less_le_trans[OF i less.prems(2)] by (simp add: unat_of_nat)
  have ok: "ring_ok s hs ?bs" by (rule ring_put) (use less.prems in simp_all)
  have ix: "idxs ?bs + idx_mset ?old = add_mset (value_idx b) (idxs bs)"
    using idxs_update[OF i, of b] less.prems(7) by (simp add: idx_mset_def)
  have old: "dist_and_fingerprint ?old = 0 \<longleftrightarrow> dval bs v = 0" by (simp add: dval_def unat_eq_0)
  show ?case
  proof (cases "dval bs v = 0")
    case True
    then show ?thesis using ok ix old by (subst place_and_shift_up.simps) (simp add: ud_at_def u idx_mset_def)
  next
    case occ: False
    then have e0: "0 < e" using less.prems(10) by (metis add_0_right gr0I)
    let ?b = "?old\<lparr>dist_and_fingerprint := dist_inc (dist_and_fingerprint ?old)\<rparr>"
    have "dval bs v < 256 * (size (idxs bs) + 1)" by (rule dval_less[OF less.prems(3,4)])
    then have "dval bs v + 256 < 2 ^ 32" using less.prems(5) by (simp add: dense_bound_def)
    then have inc: "unat (dist_inc (dist_and_fingerprint ?old)) = dval bs v + 256"
      unfolding dist_inc_def bucket_dist_inc_def dval_def by (simp add: unat_word_ariths(1))
    have big: "256 \<le> dval bs v" by (rule dval_occupied[OF less.prems(3) occ])
    have dv: "dval ?bs w = (if w mod ?n = v mod ?n then unat (dist_and_fingerprint b) else dval bs w)" for w
      using dval_update[OF ring_okD(1)[OF less.prems(3)]] .
    have suc: "Suc v mod ?n \<noteq> v mod ?n" using mod_shift_neq[of 1 ?n v] less.prems(1) by simp
    have "Suc v + (?n - 1) = v + ?n" using nz by linarith
    then have prev: "(Suc v + (?n - 1)) mod ?n = v mod ?n" by (simp only: mod_add_self2)
    have "\<exists>bs'. place_and_shift_up (of_nat (length ?bs)) ?b (of_nat (Suc v mod length ?bs)) ?bs = Some bs'
        \<and> ring_ok s hs bs' \<and> length bs' = length ?bs \<and> idxs bs' = add_mset (value_idx ?b) (idxs ?bs)"
    proof (rule less.IH[of "e - 1"])
      show "dbucket_ok s hs (length ?bs) (Suc v mod length ?bs) ?b"
      proof -
        obtain j where j: "unat (dist_and_fingerprint ?old) = dprobe (hs (unat (value_idx ?old))) j"
          "(dense_home s (hs (unat (value_idx ?old))) + j) mod ?n = v mod ?n"
          using dbucket_okD(1)[OF ring_okD(3)[OF less.prems(3), of v]] occ unfolding old by auto
        have "(dense_home s (hs (unat (value_idx ?old))) + Suc j) mod ?n = Suc v mod ?n"
          using j(2) by (metis add_Suc_right mod_Suc_eq)
        moreover have "unat (dist_inc (dist_and_fingerprint ?old)) = dprobe (hs (unat (value_idx ?old))) (Suc j)"
          using inc j(1) by (simp add: dval_def dprobe_def)
        ultimately show ?thesis unfolding dbucket_ok_def by auto
      qed
      show "dist_and_fingerprint ?b \<noteq> 0" using inc by (auto simp: unat_eq_0[symmetric] simp del: unat_eq_0)
      show "dval ?bs (Suc v) \<le> unat (dist_and_fingerprint ?b)"
        using suc ring_okD(4)[OF less.prems(3), of v] big by (simp add: dv inc)
      show "unat (dist_and_fingerprint ?b) \<le> max 511 (dval ?bs (Suc v + (length ?bs - 1)) + 256)"
        using prev less.prems(8) by (simp add: dv inc)
      have "(v + e) mod ?n \<noteq> v mod ?n" by (rule mod_shift_neq[OF e0 less.prems(11)])
      then show "dval ?bs (Suc v + (e - 1)) = 0" using e0 less.prems(10) by (simp add: dv)
      have "size (idxs ?bs) + size (idx_mset ?old) = Suc (size (idxs bs))" using ix by (metis size_add_mset size_union)
      then have "size (idxs ?bs) = size (idxs bs)" using occ old by (simp add: idx_mset_def)
      then show "size (idxs ?bs) < length ?bs" "size (idxs ?bs) \<le> dense_bound" using less.prems(4,5) by simp_all
    qed (use ok less.prems e0 in simp_all)
    moreover have "idxs ?bs + {#value_idx ?old#} = add_mset (value_idx b) (idxs bs)"
      using ix occ old by (simp add: idx_mset_def)
    ultimately show ?thesis using occ old ud_next_mod[OF nz less.prems(2), of v]
      by (subst place_and_shift_up.simps) (simp add: ud_at_def u Let_def)
  qed
qed

section \<open>Indexing one more value\<close>

lemma first_not_less:
  assumes ix: "dense_index cfg t m"
  obtains j where "j \<le> m" "dval (ud_buckets t) (v + j) \<le> dprobe h j" "\<And>i. i < j \<Longrightarrow> dprobe h i < dval (ud_buckets t) (v + i)"
proof -
  obtain k where k: "k \<le> m" "dval (ud_buckets t) (v + k) < dprobe h k" using dense_first[OF ix, where v = v and h = h] by metis
  let ?P = "\<lambda>j. dval (ud_buckets t) (v + j) \<le> dprobe h j"
  have "?P k" using k(2) by simp
  then have "?P (LEAST j. ?P j)" "(LEAST j. ?P j) \<le> m" using k(1) by (auto intro: LeastI Least_le le_trans)
  moreover have "dprobe h i < dval (ud_buckets t) (v + i)" if "i < (LEAST j. ?P j)" for i
    using not_less_Least[OF that] by simp
  ultimately show ?thesis using that by blast
qed

lemma next_while_less_ok:
  fixes key :: 'k
  assumes ix: "dense_index (cfg :: ('a, 'k) ud_config) t m"
  defines "h \<equiv> mixed_hash cfg key"
  obtains j where "j \<le> m"
    "next_while_less cfg t key
      = Some (of_nat (dprobe h j), of_nat ((dense_home (ud_shifts t) h + j) mod length (ud_buckets t)))"
    "dval (ud_buckets t) (dense_home (ud_shifts t) h + j) \<le> dprobe h j"
    "\<And>i. i < j \<Longrightarrow> dprobe h i < dval (ud_buckets t) (dense_home (ud_shifts t) h + i)"
proof -
  note D = dense_indexD[OF ix]
  let ?u = "dense_home (ud_shifts t) h"
  obtain j where j: "j \<le> m" "dval (ud_buckets t) (?u + j) \<le> dprobe h j" "\<And>i. i < j \<Longrightarrow> dprobe h i < dval (ud_buckets t) (?u + i)"
    using first_not_less[OF ix, where v = ?u and h = h] by metis
  have b: "i \<le> dense_bound" if "i \<le> j" for i using that j(1) D(6) by simp
  have "next_while_less cfg t key = Some (of_nat (dprobe h j), of_nat ((?u + j) mod length (ud_buckets t)))"
    unfolding next_while_less_def Let_def h_def[symmetric]
    by (rule dense_probe_start[OF ix, where j = j and h = h])
      (use j dense_tests[OF D(1) b] in \<open>simp_all add: less_stop_def\<close>)
  with that j show ?thesis by blast
qed

lemma value_hash_cong: "take m xs = take m ys \<Longrightarrow> v < m \<Longrightarrow> m \<le> length xs \<Longrightarrow> value_hash cfg xs v = value_hash cfg ys v"
  by (metis value_hash_def nth_take)

lemma dense_index_place:
  assumes ix: "dense_index cfg t m" and m: "m < length (ud_values t)" "m < dense_bound" "Suc m < length (ud_buckets t)"
    and key: "ud_key cfg (ud_values t ! m) \<notin> set (map (ud_key cfg) (take m (ud_values t)))"
    and h: "h = value_hash cfg (ud_values t) m" and j: "j \<le> m"
    and at: "dval (ud_buckets t) (dense_home (ud_shifts t) h + j) \<le> dprobe h j"
    and before: "\<And>i. i < j \<Longrightarrow> dprobe h i \<le> dval (ud_buckets t) (dense_home (ud_shifts t) h + i)"
  shows "\<exists>bs. ud_place \<lparr>dist_and_fingerprint = of_nat (dprobe h j), value_idx = of_nat m\<rparr>
      (of_nat ((dense_home (ud_shifts t) h + j) mod length (ud_buckets t))) t = ret (t\<lparr>ud_buckets := bs\<rparr>)
    \<and> length bs = length (ud_buckets t) \<and> dense_index cfg (t\<lparr>ud_buckets := bs\<rparr>) (Suc m)"
proof -
  note D = dense_indexD[OF ix] and S = dense_shapeD[OF dense_indexD(1)[OF ix]]
  let ?bs = "ud_buckets t" and ?s = "ud_shifts t" and ?hs = "value_hash cfg (ud_values t)"
  let ?u = "dense_home ?s h" and ?b = "\<lparr>dist_and_fingerprint = of_nat (dprobe h j), value_idx = of_nat m\<rparr>"
  have dp: "unat (of_nat (dprobe h j) :: u32) = dprobe h j" using unat_dprobe j m(2) by simp
  have um: "unat (of_nat m :: u32) = m" using m(2) by (simp add: unat_of_index)
  obtain e where e: "e \<le> m" "dval ?bs (?u + j + e) = 0" using empty_near[OF ring_okD(1)[OF D(2)], of "?u + j"] D(7,8) by auto
  have hi: "dprobe h j \<le> max 511 (dval ?bs (?u + j + (length ?bs - 1)) + 256)"
  proof (cases j)
    case 0
    have "unat h mod 256 < 256" by simp
    then show ?thesis by (simp add: 0 dprobe_def)
  next
    case (Suc i)
    have "?u + j + (length ?bs - 1) = ?u + i + length ?bs" using Suc S(1) by linarith
    then have "dval ?bs (?u + j + (length ?bs - 1)) = dval ?bs (?u + i)" by (simp only: dval_mod)
    then show ?thesis using before[of i] Suc by (simp add: dprobe_def)
  qed
  have "\<exists>bs. place_and_shift_up (of_nat (length ?bs)) ?b (of_nat ((?u + j) mod length ?bs)) ?bs = Some bs
    \<and> ring_ok ?s ?hs bs \<and> length bs = length ?bs \<and> idxs bs = add_mset (value_idx ?b) (idxs ?bs)"
  proof (rule place_and_shift_up_ring[where e = e])
    show "dbucket_ok ?s ?hs (length ?bs) ((?u + j) mod length ?bs) ?b"
      using dp unfolding dbucket_ok_def by (auto simp: um h)
    show "dist_and_fingerprint ?b \<noteq> 0" using dp by (auto simp: dprobe_def simp flip: unat_eq_0)
  qed (use S D m at hi e dp in simp_all)
  then obtain bs where bs: "place_and_shift_up (of_nat (length ?bs)) ?b (of_nat ((?u + j) mod length ?bs)) ?bs = Some bs"
    "ring_ok ?s ?hs bs" "length bs = length ?bs" "idxs bs = add_mset (of_nat m) (idxs ?bs)" by auto
  have "dense_index cfg (t\<lparr>ud_buckets := bs\<rparr>) (Suc m)"
    using D m key bs by (simp add: dense_index_def dense_shape_def take_Suc_conv_app_nth)
  then show ?thesis using bs S(5) by (auto simp: ud_place_def)
qed

section \<open>Rebuilding the buckets\<close>

lemma fill_bucket_ok:
  assumes ix: "dense_index cfg t i" and i: "i < length (ud_values t)" "i < dense_bound" "Suc i < length (ud_buckets t)"
    and d: "distinct (map (ud_key cfg) (ud_values t))"
  shows "\<exists>bs. fill_bucket cfg i t = ret (t\<lparr>ud_buckets := bs\<rparr>) \<and> length bs = length (ud_buckets t)
    \<and> dense_index cfg (t\<lparr>ud_buckets := bs\<rparr>) (Suc i)"
proof -
  let ?key = "ud_key cfg (ud_values t ! i)"
  have ui: "unat (of_nat i :: u32) = i" using i(2) by (simp add: unat_of_index)
  have h: "mixed_hash cfg ?key = value_hash cfg (ud_values t) i" by (simp add: value_hash_def)
  have "?key \<notin> set (map (ud_key cfg) (take i (ud_values t)))"
    using d i(1) by (auto simp: in_set_conv_nth distinct_conv_nth)
  note place = dense_index_place[OF ix i this h]
  show ?thesis
  proof (rule next_while_less_ok[OF ix, where key = ?key])
    fix j assume j: "j \<le> i" "next_while_less cfg t ?key = Some (of_nat (dprobe (mixed_hash cfg ?key) j),
        of_nat ((dense_home (ud_shifts t) (mixed_hash cfg ?key) + j) mod length (ud_buckets t)))"
      "dval (ud_buckets t) (dense_home (ud_shifts t) (mixed_hash cfg ?key) + j) \<le> dprobe (mixed_hash cfg ?key) j"
      "\<And>k. k < j \<Longrightarrow> dprobe (mixed_hash cfg ?key) k < dval (ud_buckets t) (dense_home (ud_shifts t) (mixed_hash cfg ?key) + k)"
    have "fill_bucket cfg i t = ud_place \<lparr>dist_and_fingerprint = of_nat (dprobe (mixed_hash cfg ?key) j), value_idx = of_nat i\<rparr>
        (of_nat ((dense_home (ud_shifts t) (mixed_hash cfg ?key) + j) mod length (ud_buckets t))) t"
      by (simp add: fill_bucket_def ud_value_def ui j(2))
    then show ?thesis using place[OF j(1,3) less_imp_le[OF j(4)]] by simp
  qed
qed

lemma clear_buckets_index:
  assumes "dense_shape t"
  shows "dense_index cfg (clear_buckets t) 0"
proof -
  let ?bs = "ud_buckets (clear_buckets t)"
  have z: "?bs ! i = zero_bucket" if "i < length ?bs" for i using that by (simp add: clear_buckets_def)
  have ne: "?bs \<noteq> []" using dense_shapeD(1)[OF assms] by (auto simp: clear_buckets_def)
  then have "dval ?bs v = 0" for v using z by (simp add: dval_def zero_bucket_def)
  then have "ring_ok (ud_shifts t) hs ?bs" for hs using z ne by (simp add: ring_ok_def dbucket_ok_def)
  moreover have "idxs ?bs = {#}" by (simp add: idxs_def clear_buckets_def idx_mset_def zero_bucket_def comp_def)
  ultimately show ?thesis
    using assms ne by (simp add: dense_index_def dense_shape_def clear_buckets_def)
qed

lemma clear_and_fill_ok:
  assumes "dense_shape t" "length (ud_values t) \<le> dense_bound" "length (ud_values t) < length (ud_buckets t)"
    and d: "distinct (map (ud_key cfg) (ud_values t))"
  shows "\<exists>bs. clear_and_fill_buckets_from_values cfg t = ret (t\<lparr>ud_buckets := bs\<rparr>)
    \<and> length bs = length (ud_buckets t) \<and> dense_index cfg (t\<lparr>ud_buckets := bs\<rparr>) (length (ud_values t))"
proof -
  have n: "unat (ucast (ud_size t) :: u32) = length (ud_values t)"
    using assms(2) by (simp add: ud_size_def dense_bound_def unsigned_ucast_eq unat_of_nat take_bit_nat_eq_self)
  let ?I = "\<lambda>i s. \<exists>bs. s = t\<lparr>ud_buckets := bs\<rparr> \<and> length bs = length (ud_buckets t) \<and> dense_index cfg s i"
  have "\<exists>s'. run_fold (fill_bucket cfg) [0..<length (ud_values t)] (clear_buckets t) = ret s' \<and> ?I (length (ud_values t)) s'"
  proof (rule run_fold_upt)
    show "?I 0 (clear_buckets t)"
      using clear_buckets_index[OF assms(1)] by (auto simp: clear_buckets_def intro!: exI[of _ "map (\<lambda>_. zero_bucket) (ud_buckets t)"])
    fix i s assume i: "i < length (ud_values t)" and "?I i s"
    then obtain bs where s: "s = t\<lparr>ud_buckets := bs\<rparr>" "length bs = length (ud_buckets t)" "dense_index cfg s i" by blast
    show "\<exists>s'. fill_bucket cfg i s = ret s' \<and> ?I (Suc i) s'"
      using fill_bucket_ok[OF s(3)] i assms(2,3) d s(1,2) by fastforce
  qed
  then show ?thesis unfolding clear_and_fill_buckets_from_values_def n by blast
qed

end
