(* ===== verification/AnkerlGrow.thy ===== *)
theory AnkerlGrow
  imports AnkerlInsert
begin

text \<open>
  The invariant of a table of \<open>ankerl::unordered_dense\<close>, growing, and the insertions.
\<close>

section \<open>The invariant\<close>

definition ankerl_lf_ok :: "rat \<Rightarrow> bool" where
  "ankerl_lf_ok ml \<longleftrightarrow> 0 \<le> ml \<and> ml \<le> 125 / 128"

text \<open>The capacity is below the number of buckets, but for the largest table.\<close>

definition capacity_ok :: "'a dense \<Rightarrow> bool" where
  "capacity_ok t \<longleftrightarrow> (if length (ud_buckets t) = 2 ^ 32 then ud_max_bucket_capacity t = ud_max_size
     else unat (ud_max_bucket_capacity t) < length (ud_buckets t))"

definition dense_ok :: "('a, 'k) ud_config \<Rightarrow> 'a dense \<Rightarrow> bool" where
  "dense_ok cfg t \<longleftrightarrow> dense_index cfg t (length (ud_values t)) \<and> ankerl_lf_ok (ud_max_load_factor t) \<and> capacity_ok t"

lemma dense_okD:
  assumes "dense_ok cfg t"
  shows "dense_index cfg t (length (ud_values t))" "ankerl_lf_ok (ud_max_load_factor t)" "capacity_ok t"
    "dense_shape t" "distinct (map (ud_key cfg) (ud_values t))" "length (ud_values t) \<le> dense_bound"
    "length (ud_values t) < length (ud_buckets t)"
  using assms dense_indexD[of cfg t "length (ud_values t)"] by (auto simp: dense_ok_def)

lemma ud_max_size_value: "unat ud_max_size = 2 ^ 32"
  by (simp add: ud_max_size_def)

lemma unat_ud_size: "length (ud_values t) \<le> dense_bound + 1 \<Longrightarrow> unat (ud_size t) = length (ud_values t)"
  by (simp add: ud_size_def unat_of_nat dense_bound_def)

section \<open>Numbers of buckets\<close>

lemma calc_num_buckets_value:
  assumes "32 \<le> unat s" "unat s \<le> 62"
  shows "unat (calc_num_buckets s) = 2 ^ (64 - unat s)"
proof -
  have le: "(2 :: nat) ^ (64 - unat s) \<le> 2 ^ 32" using assms by (intro power_increasing) simp_all
  then have "unat (push_bit (64 - unat s) 1 :: u64) = 2 ^ (64 - unat s)" using assms
    by (simp add: push_bit_eq_mult unat_p2)
  then show ?thesis using le ud_max_size_value by (simp add: calc_num_buckets_def min_def word_le_nat_alt)
qed

lemma of_nat_less_2: "m \<le> 2 ^ k \<Longrightarrow> (of_nat m :: rat) \<le> 2 ^ k"
  by (metis of_nat_le_iff of_nat_numeral of_nat_power)

lemma max_capacity_less:
  assumes ml: "ankerl_lf_ok ml" and n: "0 < unat n" "unat n < 2 ^ 32"
  shows "unat (max_capacity n ml) < unat n"
proof -
  define x :: rat where "x = of_nat (unat n)"
  have x: "1 \<le> x" unfolding x_def by (rule one_le_of_nat[OF n(1)])
  note lt = scaled_less[OF x ml[unfolded ankerl_lf_ok_def, THEN conjunct1] ml[unfolded ankerl_lf_ok_def, THEN conjunct2]]
  have "x \<le> 2 ^ 32" unfolding x_def by (rule of_nat_less_2) (use n(2) in simp)
  then have "unat (max_capacity n ml) = nat \<lfloor>to_float (to_float x * ml)\<rfloor>"
    unfolding max_capacity_def x_def[symmetric] using lt by (simp add: unat_trunc_u32)
  moreover have "\<lfloor>to_float (to_float x * ml)\<rfloor> < int (unat n)"
    using lt(2) unfolding x_def by (simp add: floor_less_iff)
  ultimately show ?thesis using n(1) by linarith
qed

section \<open>New buckets\<close>

lemma allocate_ok:
  assumes ml: "ankerl_lf_ok (ud_max_load_factor t)" and s: "32 \<le> unat s" "unat s \<le> 62"
  defines "t' \<equiv> allocate_buckets_from_shift (deallocate_buckets (t\<lparr>ud_shifts := s\<rparr>))"
  shows "dense_shape t'" "capacity_ok t'" "ud_values t' = ud_values t" "ud_max_load_factor t' = ud_max_load_factor t"
    "ud_shifts t' = s" "length (ud_buckets t') = 2 ^ (64 - unat s)"
proof -
  note n = calc_num_buckets_value[OF s]
  show l: "length (ud_buckets t') = 2 ^ (64 - unat s)"
    by (simp add: t'_def allocate_buckets_from_shift_def Let_def deallocate_buckets_def n)
  show "dense_shape t'" using s l by (simp add: dense_shape_def t'_def allocate_buckets_from_shift_def Let_def deallocate_buckets_def)
  show "ud_values t' = ud_values t" "ud_max_load_factor t' = ud_max_load_factor t" "ud_shifts t' = s"
    by (simp_all add: t'_def allocate_buckets_from_shift_def Let_def deallocate_buckets_def)
  have big: "calc_num_buckets s = ud_max_size \<longleftrightarrow> (2 :: nat) ^ (64 - unat s) = 2 ^ 32"
    using n ud_max_size_value by (simp add: word_unat_eq_iff)
  have "(2 :: nat) ^ (64 - unat s) \<le> 2 ^ 32" using s by (intro power_increasing) simp_all
  then have "unat (max_capacity (calc_num_buckets s) (ud_max_load_factor t)) < 2 ^ (64 - unat s)"
    if "(2 :: nat) ^ (64 - unat s) \<noteq> 2 ^ 32"
    using that max_capacity_less[OF ml, of "calc_num_buckets s"] n by simp
  then show "capacity_ok t'" unfolding capacity_ok_def l
    using big by (simp add: t'_def allocate_buckets_from_shift_def Let_def deallocate_buckets_def)
qed

lemma reserve_for_ok:
  assumes ml: "ankerl_lf_ok (ud_max_load_factor t)" and s: "32 \<le> unat s" "unat s \<le> 62"
    and d: "distinct (map (ud_key cfg) (ud_values t))"
    and n: "length (ud_values t) \<le> dense_bound" "length (ud_values t) < 2 ^ (64 - unat s)"
  shows "\<exists>t'. reserve_for cfg s t = ret t' \<and> dense_ok cfg t' \<and> ud_values t' = ud_values t
    \<and> ud_max_load_factor t' = ud_max_load_factor t \<and> ud_shifts t' = s"
proof -
  let ?t = "allocate_buckets_from_shift (deallocate_buckets (t\<lparr>ud_shifts := s\<rparr>))"
  note A = allocate_ok[OF ml s]
  from clear_and_fill_ok[OF A(1), of cfg] obtain bs where bs:
    "clear_and_fill_buckets_from_values cfg ?t = ret (?t\<lparr>ud_buckets := bs\<rparr>)" "length bs = length (ud_buckets ?t)"
    "dense_index cfg (?t\<lparr>ud_buckets := bs\<rparr>) (length (ud_values ?t))"
    using n d A(3,6) by auto
  then show ?thesis using A ml by (auto simp: reserve_for_def dense_ok_def capacity_ok_def)
qed

lemma increase_size_reserve:
  "ud_max_bucket_capacity t \<noteq> ud_max_size \<Longrightarrow> increase_size cfg t = reserve_for cfg (ud_shifts t - 1) t"
  by (simp add: increase_size_def reserve_for_def)

section \<open>Appending a value\<close>

lemma ring_ok_cong:
  assumes "ring_ok s hs bs" "\<And>v. v \<in># idxs bs \<Longrightarrow> hs (unat v) = hs' (unat v)"
  shows "ring_ok s hs' bs"
proof -
  have "dbucket_ok s hs' (length bs) i (bs ! i)" if i: "i < length bs" for i
  proof (cases "dist_and_fingerprint (bs ! i) = 0")
    case True
    then show ?thesis using ring_okD(2)[OF assms(1) i] by (auto simp: dbucket_ok_def dprobe_def)
  next
    case False
    then have "value_idx (bs ! i) \<in># idxs bs" using i by (auto simp: in_idxs)
    from assms(2)[OF this] show ?thesis using ring_okD(2)[OF assms(1) i] by (simp add: dbucket_ok_def)
  qed
  then show ?thesis using assms(1) by (simp add: ring_ok_def)
qed

lemma dense_index_values:
  assumes ix: "dense_index cfg t m" and "take m xs = take m (ud_values t)" "m \<le> length xs"
  shows "dense_index cfg (t\<lparr>ud_values := xs\<rparr>) m"
proof -
  note D = dense_indexD[OF ix]
  have "ring_ok (ud_shifts t) (value_hash cfg xs) (ud_buckets t)"
  proof (rule ring_ok_cong[OF D(2)])
    fix v assume "v \<in># idxs (ud_buckets t)"
    then obtain i where "i < m" "v = of_nat i" by (auto simp: D(3))
    then have "unat v < m" using D(6) by (simp add: unat_of_index)
    then show "value_hash cfg (ud_values t) (unat v) = value_hash cfg xs (unat v)"
      by (metis assms(2) value_hash_def nth_take)
  qed
  then show ?thesis using D assms(2,3) by (simp add: dense_index_def dense_shape_def)
qed

lemma push_back_index: "dense_index cfg t (length (ud_values t)) \<Longrightarrow> dense_index cfg (push_back x t) (length (ud_values t))"
  unfolding push_back_def by (rule dense_index_values) simp_all

lemma push_back_simps [simp]:
  "ud_values (push_back x t) = ud_values t @ [x]" "ud_buckets (push_back x t) = ud_buckets t"
  "ud_shifts (push_back x t) = ud_shifts t" "ud_max_load_factor (push_back x t) = ud_max_load_factor t"
  "ud_max_bucket_capacity (push_back x t) = ud_max_bucket_capacity t" "pop_back (push_back x t) = t"
  "ud_bucket_count (push_back x t) = ud_bucket_count t" "bucket_idx_from_hash (push_back x t) = bucket_idx_from_hash t"
  by (auto simp: push_back_def pop_back_def ud_bucket_count_def bucket_idx_from_hash_def fun_eq_iff)

text \<open>What the insertion of a new value gives.\<close>

definition appended :: "('a, 'k) ud_config \<Rightarrow> 'a \<Rightarrow> 'a dense \<Rightarrow> (u64 \<times> bool \<times> 'a dense) run \<Rightarrow> bool" where
  "appended cfg x t m \<longleftrightarrow> (\<exists>t'. m = ret (of_nat (length (ud_values t)), True, t') \<and> dense_ok cfg t'
     \<and> ud_values t' = ud_values t @ [x] \<and> ud_max_load_factor t' = ud_max_load_factor t)"

lemma place_new_ok:
  assumes ok: "dense_ok cfg t" and key: "ud_key cfg x \<notin> set (map (ud_key cfg) (ud_values t))"
    and small: "length (ud_values t) < dense_bound"
    and h: "h = mixed_hash cfg (ud_key cfg x)" and j: "j \<le> length (ud_values t)"
    and at: "dval (ud_buckets t) (dense_home (ud_shifts t) h + j) \<le> dprobe h j"
    and before: "\<And>i. i < j \<Longrightarrow> dprobe h i \<le> dval (ud_buckets t) (dense_home (ud_shifts t) h + i)"
  shows "appended cfg x t (ud_place_new cfg (of_nat (dprobe h j))
    (of_nat ((dense_home (ud_shifts t) h + j) mod length (ud_buckets t))) (push_back x t))"
proof -
  let ?t = "push_back x t" and ?m = "length (ud_values t)"
  note D = dense_okD[OF ok]
  have sz: "unat (ud_size ?t) = Suc ?m" by (subst unat_ud_size) (use small in simp_all)
  have "ud_size ?t - 1 = of_nat ?m" by (simp add: ud_size_def)
  then have idx: "(ucast (ud_size ?t - 1) :: u32) = of_nat ?m" "ucast (of_nat ?m :: u32) = (of_nat ?m :: u64)"
    using small by (simp_all add: word_unat_eq_iff unat_of_nat dense_bound_def unsigned_ucast_eq take_bit_nat_eq_self)
  have dist: "distinct (map (ud_key cfg) (ud_values ?t))" using D(5) key by simp
  show ?thesis
  proof (cases "ud_is_full ?t")
    case True
    then have lt: "unat (ud_max_bucket_capacity t) < Suc ?m" by (simp add: ud_is_full_def word_less_nat_alt sz)
    then have cap: "ud_max_bucket_capacity t \<noteq> ud_max_size" using small ud_max_size_value by (auto simp: dense_bound_def)
    then have n: "length (ud_buckets t) \<noteq> 2 ^ 32" using D(3) by (auto simp: capacity_ok_def)
    note s = D(4)[unfolded dense_shape_def]
    have s33: "33 \<le> unat (ud_shifts t)" using s n by (cases "unat (ud_shifts t) = 32") auto
    then have s1: "unat (ud_shifts t - 1) = unat (ud_shifts t) - 1" by (subst unat_minus_one) (auto simp: unat_eq_0[symmetric])
    have "64 - unat (ud_shifts t - 1) = Suc (64 - unat (ud_shifts t))" using s1 s33 s by linarith
    then have n2: "(2 :: nat) ^ (64 - unat (ud_shifts t - 1)) = 2 * length (ud_buckets t)" using s by simp
    have "\<exists>t'. reserve_for cfg (ud_shifts ?t - 1) ?t = ret t' \<and> dense_ok cfg t' \<and> ud_values t' = ud_values ?t
      \<and> ud_max_load_factor t' = ud_max_load_factor ?t \<and> ud_shifts t' = ud_shifts ?t - 1"
    proof (rule reserve_for_ok)
      show "32 \<le> unat (ud_shifts ?t - 1)" "unat (ud_shifts ?t - 1) \<le> 62" using s s1 s33 by auto
      show "length (ud_values ?t) < 2 ^ (64 - unat (ud_shifts ?t - 1))" using n2 D(7) by simp
    qed (use D(2) dist small in simp_all)
    then show ?thesis using True cap increase_size_reserve[of ?t cfg]
      by (auto simp: appended_def ud_place_new_def Let_def idx)
  next
    case False
    then have le: "Suc ?m \<le> unat (ud_max_bucket_capacity t)" by (simp add: ud_is_full_def word_less_nat_alt sz)
    have "Suc ?m < length (ud_buckets t)"
      using le D(3) small by (auto simp: capacity_ok_def dense_bound_def split: if_splits)
    from dense_index_place[OF push_back_index[OF D(1)], of x h j] this obtain bs where bs:
      "ud_place \<lparr>dist_and_fingerprint = of_nat (dprobe h j), value_idx = of_nat ?m\<rparr>
        (of_nat ((dense_home (ud_shifts t) h + j) mod length (ud_buckets t))) ?t = ret (?t\<lparr>ud_buckets := bs\<rparr>)"
      "length bs = length (ud_buckets t)" "dense_index cfg (?t\<lparr>ud_buckets := bs\<rparr>) (Suc ?m)"
      using key small j at before by (auto simp: value_hash_def h)
    have "dense_ok cfg (?t\<lparr>ud_buckets := bs\<rparr>)"
      using bs(2,3) D(2,3) by (simp add: dense_ok_def capacity_ok_def)
    then show ?thesis using False bs(1) by (simp add: appended_def ud_place_new_def Let_def idx)
  qed
qed

section \<open>Insertions\<close>

lemma not_key_cases:
  assumes "key \<in> set (map f xs)"
  obtains v where "v < length xs" "f (xs ! v) = key"
  using assms by (auto simp: in_set_conv_nth)

text \<open>A search on the table before the value is appended, or after: the same buckets and the same keys.\<close>

lemma search_new:
  assumes ok: "dense_ok cfg t" and key: "ud_key cfg x = key" "key \<notin> set (map (ud_key cfg) (ud_values t))"
    and small: "length (ud_values t) < dense_bound" and t0: "t0 = t \<or> t0 = push_back x t"
  shows "\<exists>daf i. dense_probe (emplace_stop cfg t0 key) (ud_bucket_count t0) (dist_and_fingerprint_from_hash (mixed_hash cfg key))
      (bucket_idx_from_hash t0 (mixed_hash cfg key)) = Some (Inr (daf, i))
    \<and> appended cfg x t (ud_place_new cfg daf i (push_back x t))"
proof -
  have ix: "dense_index cfg t0 (length (ud_values t))" using t0 dense_okD(1)[OF ok] push_back_index by auto
  have key': "key \<notin> set (map (ud_key cfg) (take (length (ud_values t)) (ud_values t0)))" using t0 key(2) by auto
  have same: "ud_buckets t0 = ud_buckets t" "ud_shifts t0 = ud_shifts t" using t0 by auto
  let ?h = "mixed_hash cfg key"
  show ?thesis
  proof (rule emplace_search_absent[OF ix key'], unfold same)
    fix j assume j: "j \<le> length (ud_values t)"
      "dense_probe (emplace_stop cfg t0 key) (ud_bucket_count t0) (dist_and_fingerprint_from_hash ?h) (bucket_idx_from_hash t0 ?h)
        = Some (Inr (of_nat (dprobe ?h j), of_nat ((dense_home (ud_shifts t) ?h + j) mod length (ud_buckets t))))"
      "dval (ud_buckets t) (dense_home (ud_shifts t) ?h + j) < dprobe ?h j"
      "\<And>i. i < j \<Longrightarrow> dprobe ?h i \<le> dval (ud_buckets t) (dense_home (ud_shifts t) ?h + i)"
    have "appended cfg x t (ud_place_new cfg (of_nat (dprobe ?h j))
      (of_nat ((dense_home (ud_shifts t) ?h + j) mod length (ud_buckets t))) (push_back x t))"
      by (rule place_new_ok[OF ok _ small]) (use j key in auto)
    with j(2) show ?thesis by blast
  qed
qed

lemma ucast_index: "v \<le> dense_bound \<Longrightarrow> (ucast (of_nat v :: u32) :: u64) = of_nat v"
  by (simp add: word_unat_eq_iff unat_of_nat dense_bound_def)

lemma ud_emplace_old:
  assumes ok: "dense_ok cfg t" and v: "v < length (ud_values t)" "ud_key cfg (ud_values t ! v) = ud_key cfg x"
  shows "ud_emplace cfg x t = ret (of_nat v, False, t)"
proof -
  have "ud_key cfg (ud_values (push_back x t) ! v) = ud_key cfg x" using v by (simp add: nth_append)
  from emplace_search_found[OF push_back_index[OF dense_okD(1)[OF ok]] v(1) this] show ?thesis
    using ucast_index[of v] v(1) dense_okD(6)[OF ok] by (simp add: ud_emplace_def Let_def)
qed

lemma ud_emplace_new:
  assumes "dense_ok cfg t" "ud_key cfg x \<notin> set (map (ud_key cfg) (ud_values t))" "length (ud_values t) < dense_bound"
  shows "appended cfg x t (ud_emplace cfg x t)"
  using search_new[OF assms(1) refl assms(2,3) disjI2[OF refl]] by (auto simp: ud_emplace_def Let_def)

lemma do_try_emplace_old:
  assumes ok: "dense_ok cfg t" and v: "v < length (ud_values t)" "ud_key cfg (ud_values t ! v) = key"
  shows "do_try_emplace cfg key y t = ret (of_nat v, False, t)"
  using emplace_search_found[OF dense_okD(1)[OF ok] v] ucast_index[of v] v(1) dense_okD(6)[OF ok]
  by (simp add: do_try_emplace_def Let_def emplace_stops_equal)

lemma do_try_emplace_new:
  assumes "dense_ok cfg t" "ud_key cfg (key, y) = key" "key \<notin> set (map (ud_key cfg) (ud_values t))"
    "length (ud_values t) < dense_bound"
  shows "appended cfg (key, y) t (do_try_emplace cfg key y t)"
  using search_new[OF assms disjI1[OF refl]]
  by (auto simp: do_try_emplace_def Let_def emplace_stops_equal do_place_element_def)

lemma ud_emplace_key_old:
  assumes ok: "dense_ok cfg t" and v: "v < length (ud_values t)" "ud_key cfg (ud_values t ! v) = key"
  shows "ud_emplace_key cfg key t = ret (of_nat v, False, t)"
  using emplace_search_found[OF dense_okD(1)[OF ok] v] ucast_index[of v] v(1) dense_okD(6)[OF ok]
  by (simp add: ud_emplace_key_def Let_def)

lemma ud_emplace_key_new:
  assumes "dense_ok cfg t" "ud_key cfg key = key" "key \<notin> set (map (ud_key cfg) (ud_values t))" "length (ud_values t) < dense_bound"
  shows "appended cfg key t (ud_emplace_key cfg key t)"
  using search_new[OF assms disjI1[OF refl]] by (auto simp: ud_emplace_key_def Let_def do_place_element_def)

text \<open>The mapped value of an element may change: its key is the same.\<close>

lemma dense_ok_values:
  assumes ok: "dense_ok cfg t" and keys: "map (ud_key cfg) xs = map (ud_key cfg) (ud_values t)"
  shows "dense_ok cfg (t\<lparr>ud_values := xs\<rparr>)"
proof -
  have len: "length xs = length (ud_values t)" using keys by (metis length_map)
  note D = dense_okD[OF ok] and I = dense_indexD[OF dense_okD(1)[OF ok]]
  have "ring_ok (ud_shifts t) (value_hash cfg xs) (ud_buckets t)"
  proof (rule ring_ok_cong[OF I(2)])
    fix v assume "v \<in># idxs (ud_buckets t)"
    then obtain i where "i < length (ud_values t)" "v = of_nat i" by (auto simp: I(3))
    then have "unat v < length (ud_values t)" using I(6) by (simp add: unat_of_index)
    then show "value_hash cfg (ud_values t) (unat v) = value_hash cfg xs (unat v)"
      by (metis keys len nth_map value_hash_def)
  qed
  moreover have "capacity_ok (t\<lparr>ud_values := xs\<rparr>)" using D(3) by (simp add: capacity_ok_def)
  ultimately show ?thesis using D(2) I keys len by (simp add: dense_ok_def dense_index_def dense_shape_def)
qed

section \<open>Construction and reservation\<close>

lemma calc_shifts_ok:
  assumes "32 \<le> unat s" "unat s \<le> 62" "k \<le> trunc_u64 (to_float (to_float (2 ^ 32) * ml))"
  shows "32 \<le> unat (calc_shifts_from ml k s) \<and> unat (calc_shifts_from ml k s) \<le> 62
    \<and> k \<le> trunc_u64 (to_float (to_float (of_nat (2 ^ (64 - unat (calc_shifts_from ml k s)))) * ml))"
  using assms
proof (induction ml k s rule: calc_shifts_from.induct)
  case (1 ml k s)
  note n = calc_num_buckets_value[OF 1(2,3)]
  have pos: "0 < s" using 1(2) by (simp add: word_less_nat_alt)
  show ?case
  proof (cases "trunc_u64 (to_float (to_float (of_nat (unat (calc_num_buckets s))) * ml)) < k")
    case True
    have "unat s \<noteq> 32"
    proof
      assume s: "unat s = 32"
      then have "(of_nat (unat (calc_num_buckets s)) :: rat) = 2 ^ 32" unfolding n by simp
      with True 1(4) show False by simp
    qed
    then have "unat (s - 1) = unat s - 1" "33 \<le> unat s" using 1(2) pos by (auto simp: unat_minus_one word_gt_0)
    then show ?thesis using 1 True pos by (subst (1 2 3) calc_shifts_from.simps) simp
  next
    case False
    have "calc_shifts_from ml k s = s" by (subst calc_shifts_from.simps) (simp only: False simp_thms if_False)
    then show ?thesis using 1(2,3) False[unfolded n not_less] by simp
  qed
qed

text \<open>For \<open>max_size()\<close> elements no number of shifts is small enough: the loop ends with 0, for which the number of
  buckets is not defined.\<close>

lemma calc_shifts_max_size:
  assumes "ankerl_lf_ok ml" "unat s \<le> 62"
  shows "calc_shifts_from ml ud_max_size s = 0"
  using assms(2)
proof (induction "unat s" arbitrary: s)
  case 0
  then have "s = 0" by (simp add: unat_eq_0)
  then show ?case by (subst calc_shifts_from.simps) simp
next
  case (Suc k)
  then have s: "0 < s" by (cases "s = 0") (auto simp: word_gt_0)
  then have k: "unat (s - 1) = k" using Suc.hyps(2) by (subst unat_minus_one) auto
  define n where "n = unat (calc_num_buckets s)"
  have p: "unat (push_bit (64 - unat s) 1 :: u64) = 2 ^ (64 - unat s)"
    using s by (simp add: push_bit_eq_mult unat_p2 word_less_nat_alt)
  then have n: "1 \<le> n" "n \<le> 2 ^ 32"
    using ud_max_size_value by (auto simp: n_def calc_num_buckets_def min_def word_le_nat_alt)
  have x: "1 \<le> (of_nat n :: rat)" by (rule one_le_of_nat) (use n in simp)
  note lt = scaled_less[OF x assms(1)[unfolded ankerl_lf_ok_def, THEN conjunct1] assms(1)[unfolded ankerl_lf_ok_def, THEN conjunct2]]
  have le: "(of_nat n :: rat) \<le> 2 ^ 32" by (rule of_nat_less_2[OF n(2)])
  have "unat (trunc_u64 (to_float (to_float (of_nat n) * ml))) = nat \<lfloor>to_float (to_float (of_nat n) * ml)\<rfloor>"
    using lt le by (intro unat_trunc_u64) auto
  moreover have "\<lfloor>to_float (to_float (of_nat n) * ml)\<rfloor> < 2 ^ 32" using lt(2) le by (simp add: floor_less_iff)
  ultimately have "trunc_u64 (to_float (to_float (of_nat n) * ml)) < ud_max_size"
    using lt(1) by (simp add: word_less_nat_alt ud_max_size_value nat_less_iff)
  then have "calc_shifts_from ml ud_max_size s = calc_shifts_from ml ud_max_size (s - 1)"
    using s unfolding n_def by (subst calc_shifts_from.simps) (simp only: if_True simp_thms)
  then show ?case using Suc.hyps(1)[of "s - 1"] Suc.prems Suc.hyps(2) k by simp
qed

text \<open>A number of elements that a table of \<open>2 ^ 32\<close> buckets takes.\<close>

definition reservable :: "'a dense \<Rightarrow> u64 \<Rightarrow> bool" where
  "reservable t n \<longleftrightarrow> max (min n ud_max_size) (ud_size t) \<le> trunc_u64 (to_float (to_float (2 ^ 32) * ud_max_load_factor t))"

definition dense_rebuilt :: "('a, 'k) ud_config \<Rightarrow> 'a dense \<Rightarrow> 'a dense run \<Rightarrow> bool" where
  "dense_rebuilt cfg t m \<longleftrightarrow> (\<exists>t'. m = ret t' \<and> dense_ok cfg t' \<and> ud_values t' = ud_values t
     \<and> ud_max_load_factor t' = ud_max_load_factor t)"

lemma reserve_fits:
  assumes ml: "ankerl_lf_ok ml" and k: "k \<le> trunc_u64 (to_float (to_float (of_nat (2 ^ (64 - s))) * ml))" and s: "32 \<le> s" "s \<le> 62"
  shows "unat k < 2 ^ (64 - s)"
proof -
  define x :: rat where "x = of_nat (2 ^ (64 - s))"
  have x: "1 \<le> x" unfolding x_def by (rule one_le_of_nat) simp
  have "(2 :: nat) ^ (64 - s) \<le> 2 ^ 32" using s by (intro power_increasing) simp_all
  then have "x \<le> 2 ^ 32" unfolding x_def by (rule of_nat_less_2)
  note lt = scaled_less[OF x ml[unfolded ankerl_lf_ok_def, THEN conjunct1] ml[unfolded ankerl_lf_ok_def, THEN conjunct2]]
  have "unat k \<le> nat \<lfloor>to_float (to_float x * ml)\<rfloor>"
    using k lt \<open>x \<le> 2 ^ 32\<close> unfolding x_def[symmetric] by (simp add: word_le_nat_alt unat_trunc_u64)
  moreover have "\<lfloor>to_float (to_float x * ml)\<rfloor> < int (2 ^ (64 - s))"
    using lt(2) unfolding x_def by (simp add: floor_less_iff)
  ultimately show ?thesis using lt(1) by linarith
qed

lemma reserve_for_rebuilt:
  fixes t :: "'a dense"
  assumes ml: "ankerl_lf_ok (ud_max_load_factor t)" and d: "distinct (map (ud_key cfg) (ud_values t))"
    and n: "length (ud_values t) \<le> dense_bound" and r: "reservable t n"
  shows "dense_rebuilt cfg t (reserve_for cfg (calc_shifts_for_size t (max (min n ud_max_size) (ud_size t))) t)"
proof -
  let ?k = "max (min n ud_max_size) (ud_size t)" and ?ml = "ud_max_load_factor t"
  let ?s = "calc_shifts_for_size t ?k"
  have i: "unat initial_shifts = 62" by (simp add: initial_shifts_def)
  have s: "32 \<le> unat ?s" "unat ?s \<le> 62" "?k \<le> trunc_u64 (to_float (to_float (of_nat (2 ^ (64 - unat ?s))) * ?ml))"
    using calc_shifts_ok[of initial_shifts ?k ?ml] r unfolding reservable_def calc_shifts_for_size_def i by simp_all
  have "unat ?k < 2 ^ (64 - unat ?s)" by (rule reserve_fits[OF ml s(3,1,2)])
  moreover have "unat (ud_size t) \<le> unat ?k" by (simp only: word_le_nat_alt[symmetric] max.cobounded2)
  ultimately have "length (ud_values t) < 2 ^ (64 - unat ?s)" using unat_ud_size[of t] n by simp
  from reserve_for_ok[OF ml s(1,2) d n this] show ?thesis by (auto simp: dense_rebuilt_def)
qed

lemma ud_reserve_ok:
  assumes ok: "dense_ok cfg t" and r: "reservable t n"
  shows "dense_rebuilt cfg t (ud_reserve cfg n t)"
  using reserve_for_rebuilt[OF dense_okD(2,5,6)[OF ok] r] ok by (auto simp: ud_reserve_def Let_def dense_rebuilt_def)

lemma ud_rehash_ok:
  assumes ok: "dense_ok cfg t" and r: "reservable t n"
  shows "dense_rebuilt cfg t (ud_rehash cfg n t)"
  using reserve_for_rebuilt[OF dense_okD(2,5,6)[OF ok] r] ok by (auto simp: ud_rehash_def Let_def dense_rebuilt_def)

lemma default_lf_ok: "ankerl_lf_ok default_max_load_factor"
  using fl_round_bounds[of "8 / 10" 24] fl_round_nonneg[of "8 / 10" 24]
  unfolding ankerl_lf_ok_def default_max_load_factor_def by simp

lemma dense_new_empty: "\<exists>t. dense_new cfg 0 = ret t \<and> dense_ok cfg t \<and> ud_values t = [] \<and> ud_max_load_factor t = default_max_load_factor"
proof -
  have i: "unat initial_shifts = 62" by (simp add: initial_shifts_def)
  have e: "deallocate_buckets (dense_init\<lparr>ud_shifts := initial_shifts\<rparr>) = (dense_init :: 'a dense)"
    by (simp add: deallocate_buckets_def dense_init_def)
  let ?t = "allocate_buckets_from_shift dense_init :: 'a dense"
  have lf: "ankerl_lf_ok (ud_max_load_factor (dense_init :: 'a dense))" using default_lf_ok by (simp add: dense_init_def)
  note A = allocate_ok[OF lf, of initial_shifts, unfolded i e]
  have "dense_ok cfg (clear_buckets ?t)"
    using clear_buckets_index[of ?t cfg] A lf
    by (simp add: dense_ok_def clear_buckets_def capacity_ok_def dense_init_def)
  then show ?thesis using A by (simp add: dense_new_def) (simp add: clear_buckets_def dense_init_def)
qed

lemma ud_clear_ok:
  assumes "dense_ok cfg t"
  shows "dense_ok cfg (ud_clear t)" "ud_values (ud_clear t) = []"
proof -
  have "capacity_ok (ud_clear t)" using dense_okD(3)[OF assms] by (simp add: capacity_ok_def ud_clear_def clear_buckets_def)
  then show "dense_ok cfg (ud_clear t)"
    using clear_buckets_index[of "t\<lparr>ud_values := []\<rparr>" cfg] dense_okD(2,4)[OF assms]
    by (simp add: ud_clear_def dense_ok_def clear_buckets_def dense_shape_def)
qed (simp add: ud_clear_def clear_buckets_def)

lemma ud_set_max_load_factor_ok:
  assumes ok: "dense_ok cfg t" and ml: "ankerl_lf_ok ml"
  shows "dense_ok cfg (ud_set_max_load_factor ml t)" "ud_values (ud_set_max_load_factor ml t) = ud_values t"
    "ud_max_load_factor (ud_set_max_load_factor ml t) = ml"
proof -
  note D = dense_okD[OF ok] and S = dense_shapeD[OF dense_okD(4)[OF ok]]
  have n: "unat (ud_bucket_count t) = length (ud_buckets t)" using S(3,5) by (simp add: unat_of_nat)
  then have big: "ud_bucket_count t = ud_max_size \<longleftrightarrow> length (ud_buckets t) = 2 ^ 32"
    using ud_max_size_value by (simp add: word_unat_eq_iff)
  have c: "ud_bucket_count (t\<lparr>ud_max_load_factor := ml\<rparr>) = ud_bucket_count t" by (simp add: ud_bucket_count_def)
  have "unat (max_capacity (ud_bucket_count t) ml) < length (ud_buckets t)" if "length (ud_buckets t) \<noteq> 2 ^ 32"
    using max_capacity_less[OF ml, of "ud_bucket_count t"] n S(1,3) that by simp
  then show "dense_ok cfg (ud_set_max_load_factor ml t)"
    using D ml big dense_indexD[OF D(1)] unfolding dense_ok_def capacity_ok_def ud_set_max_load_factor_def Let_def c
    by (auto simp: dense_index_def dense_shape_def)
qed (simp_all add: ud_set_max_load_factor_def Let_def)

end
