(* ===== verification/AnkerlErase.thy ===== *)
theory AnkerlErase
  imports AnkerlGrow
begin

text \<open>
  Erasing from \<open>ankerl::unordered_dense\<close>: the buckets behind the erased one move down until one is at its home
  or empty, and the last value takes the place of the one that is erased.
\<close>

section \<open>Moving buckets down\<close>

text \<open>The ring is in order but for the bucket \<open>v\<close>, which is free to be overwritten.\<close>

definition hole_ok :: "u8 \<Rightarrow> (nat \<Rightarrow> u64) \<Rightarrow> dense_bucket list \<Rightarrow> nat \<Rightarrow> bool" where
  "hole_ok s hs bs v \<longleftrightarrow> 4 \<le> length bs
     \<and> (\<forall>i < length bs. i \<noteq> v mod length bs \<longrightarrow> dbucket_ok s hs (length bs) i (bs ! i))
     \<and> (\<forall>u. u mod length bs \<noteq> v mod length bs \<longrightarrow> Suc u mod length bs \<noteq> v mod length bs
          \<longrightarrow> dval bs (Suc u) \<le> max 511 (dval bs u + 256))
     \<and> dval bs (Suc v) \<le> max 767 (dval bs (v + (length bs - 1)) + 512)"

lemma hole_start:
  assumes r: "ring_ok s hs bs" and n: "4 \<le> length bs"
  shows "hole_ok s hs bs v"
proof -
  have "Suc (v + (length bs - 1)) = v + length bs" using n by simp
  then have "dval bs v \<le> max 511 (dval bs (v + (length bs - 1)) + 256)"
    using ring_okD(4)[OF r, of "v + (length bs - 1)"] by (simp only: dval_mod)
  moreover have "dval bs (Suc v) \<le> max 511 (dval bs v + 256)" by (rule ring_okD(4)[OF r])
  ultimately have "dval bs (Suc v) \<le> max 767 (dval bs (v + (length bs - 1)) + 512)" by (auto simp: max_def split: if_splits)
  then show ?thesis using ring_okD(2,4)[OF r] n unfolding hole_ok_def by blast
qed

lemma gap_close:
  assumes g: "hole_ok s hs bs v" and stop: "dval bs (Suc v) < 512"
  shows "ring_ok s hs (bs[v mod length bs := zero_bucket])" (is "ring_ok s hs ?bs")
proof -
  have ne: "bs \<noteq> []" using g by (auto simp: hole_ok_def)
  note dv = dval_update[OF ne, of v zero_bucket, unfolded zero_bucket_def dense_bucket.simps unsigned_0, folded zero_bucket_def]
  have "dval ?bs (Suc u) \<le> max 511 (dval ?bs u + 256)" for u
  proof (cases "Suc u mod length bs = v mod length bs")
    case False
    show ?thesis
    proof (cases "u mod length bs = v mod length bs")
      case True
      then have "Suc u mod length bs = Suc v mod length bs" by (metis mod_Suc_eq)
      then have "dval bs (Suc u) = dval bs (Suc v)" by (simp add: dval_def)
      then show ?thesis using stop by (simp add: dv False)
    next
      case neq: False
      then show ?thesis using g False by (simp add: hole_ok_def dv)
    qed
  qed (simp add: dv)
  moreover have "dbucket_ok s hs (length bs) i (?bs ! i)" if "i < length bs" for i
    using that g by (cases "i = v mod length bs") (auto simp: hole_ok_def dbucket_ok_def)
  ultimately show ?thesis using ne by (simp add: ring_ok_def)
qed

lemma hole_step:
  assumes g: "hole_ok s hs bs v" and occ: "512 \<le> dval bs (Suc v)"
  defines "b \<equiv> bs ! (Suc v mod length bs)"
  defines "c \<equiv> \<lparr>dist_and_fingerprint = dist_dec (dist_and_fingerprint b), value_idx = value_idx b\<rparr>"
  shows "hole_ok s hs (bs[v mod length bs := c]) (Suc v)"
    "idxs (bs[v mod length bs := c, Suc v mod length bs := zero_bucket]) = idxs (bs[v mod length bs := zero_bucket])"
proof -
  let ?n = "length bs" and ?bs = "bs[v mod length bs := c]"
  have n: "4 \<le> ?n" and ne: "bs \<noteq> []" and nz: "0 < ?n" using g by (auto simp: hole_ok_def)
  have d: "unat (dist_and_fingerprint b) = dval bs (Suc v)" by (simp add: b_def dval_def)
  have c: "unat (dist_and_fingerprint c) = dval bs (Suc v) - 256"
    unfolding c_def dist_dec_def bucket_dist_inc_def using occ d by (simp add: unat_sub word_le_nat_alt)
  note dv = dval_update[OF ne, of v c, unfolded c]
  have far: "(v + e) mod ?n \<noteq> v mod ?n" if "0 < e" "e < 4" for e
    using mod_shift_neq[of e ?n v] that n by simp
  have s1: "Suc v mod ?n \<noteq> v mod ?n" and s2: "Suc (Suc v) mod ?n \<noteq> v mod ?n"
    using far[of 1] far[of 2] by (simp_all add: numeral_2_eq_2)
  have s3: "(v + (?n - 1)) mod ?n \<noteq> v mod ?n" using mod_shift_neq[of "?n - 1" ?n v] n by simp
  have bok: "dbucket_ok s hs ?n (Suc v mod ?n) b" using g s1 nz by (simp add: hole_ok_def b_def)
  have cok: "dbucket_ok s hs ?n (v mod ?n) c"
  proof -
    have "dist_and_fingerprint b \<noteq> 0" using occ d by auto
    from dbucket_okD(1)[OF bok this] obtain j where j: "unat (dist_and_fingerprint b) = dprobe (hs (unat (value_idx b))) j"
      "(dense_home s (hs (unat (value_idx b))) + j) mod ?n = Suc v mod ?n" by blast
    have "unat (hs (unat (value_idx b))) mod 256 < 256" by simp
    then have "1 \<le> j" using occ d j(1) by (cases j) (simp_all add: dprobe_def)
    then obtain i where i: "j = Suc i" by (cases j) auto
    have "Suc (dense_home s (hs (unat (value_idx b))) + i) mod ?n = Suc v mod ?n" using j(2) i by simp
    from mod_prev[OF this nz] have "(dense_home s (hs (unat (value_idx b))) + i) mod ?n = v mod ?n" using nz by simp
    moreover have "unat (dist_and_fingerprint c) = dprobe (hs (unat (value_idx b))) i"
      using c d j(1) i by (simp add: dprobe_def)
    ultimately show ?thesis unfolding dbucket_ok_def by (auto simp: c_def)
  qed
  show "hole_ok s hs ?bs (Suc v)" unfolding hole_ok_def length_list_update
  proof (intro conjI allI impI)
    fix i assume "i < ?n" "i \<noteq> Suc v mod ?n"
    then show "dbucket_ok s hs ?n i (?bs ! i)" using g cok by (cases "i = v mod ?n") (auto simp: hole_ok_def)
  next
    fix u assume u: "u mod ?n \<noteq> Suc v mod ?n" "Suc u mod ?n \<noteq> Suc v mod ?n"
    have unv: "u mod ?n \<noteq> v mod ?n" using u(2) by (metis mod_Suc_eq)
    show "dval ?bs (Suc u) \<le> max 511 (dval ?bs u + 256)"
    proof (cases "Suc u mod ?n = v mod ?n")
      case True
      have "dval bs u = dval bs (v + (?n - 1))" using mod_prev[OF True nz] by (simp add: dval_def)
      moreover have "dval bs (Suc v) \<le> max 767 (dval bs (v + (?n - 1)) + 512)" using g unfolding hole_ok_def by blast
      ultimately show ?thesis using True unv by (simp add: dv)
    next
      case False
      then show ?thesis using g unv by (simp add: dv hole_ok_def)
    qed
  next
    have "dval bs (Suc (Suc v)) \<le> max 511 (dval bs (Suc v) + 256)" using g s1 s2 by (simp add: hole_ok_def)
    moreover have "(Suc v + (?n - 1)) mod ?n = v mod ?n"
    proof -
      have "Suc v + (?n - 1) = v + ?n" using nz by linarith
      then show ?thesis by (simp only: mod_add_self2)
    qed
    ultimately show "dval ?bs (Suc (Suc v)) \<le> max 767 (dval ?bs (Suc v + (?n - 1)) + 512)"
      using s2 occ by (simp add: dv)
  qed (use n in simp)
  have i: "v mod ?n < ?n" "Suc v mod ?n < ?n" using nz by simp_all
  have "idx_mset c = idx_mset b" using occ d c by (auto simp: idx_mset_def c_def simp flip: unat_eq_0)
  moreover have "?bs ! (Suc v mod ?n) = b" using s1 by (simp add: b_def)
  ultimately have e: "idxs (?bs[Suc v mod ?n := zero_bucket]) + idx_mset b = idxs ?bs"
      "idxs ?bs + idx_mset (bs ! (v mod ?n)) = idxs bs + idx_mset b"
    using idxs_update[of "Suc v mod ?n" ?bs zero_bucket] idxs_update[OF i(1), of c] i
    by (simp_all add: idx_mset_def zero_bucket_def)
  have z: "idxs (bs[v mod ?n := zero_bucket]) + idx_mset (bs ! (v mod ?n)) = idxs bs"
    using idxs_update[OF i(1), of zero_bucket] by (simp add: idx_mset_def zero_bucket_def)
  have "idxs (?bs[Suc v mod ?n := zero_bucket]) + (idx_mset b + idx_mset (bs ! (v mod ?n)))
      = idxs (bs[v mod ?n := zero_bucket]) + (idx_mset b + idx_mset (bs ! (v mod ?n)))"
    by (simp only: add.assoc[symmetric] e(1)) (simp only: e(2) z[symmetric] add.assoc add.commute[of "idx_mset b"])
  then show "idxs (?bs[Suc v mod ?n := zero_bucket]) = idxs (bs[v mod ?n := zero_bucket])" by (rule add_right_imp_eq)
qed

lemma shift_down_ok:
  assumes "hole_ok s hs bs v" "dval bs (v + Suc e) = 0" "Suc e < length bs" "length bs \<le> 2 ^ 32"
  shows "\<exists>i bs'. shift_down (of_nat (length bs)) (of_nat (v mod length bs)) (of_nat (Suc v mod length bs)) bs
      = Some (of_nat (i mod length bs), bs')
    \<and> length bs' = length bs \<and> ring_ok s hs (bs'[i mod length bs := zero_bucket])
    \<and> idxs (bs'[i mod length bs := zero_bucket]) = idxs (bs[v mod length bs := zero_bucket])"
  using assms
proof (induction e arbitrary: bs v)
  case (0 bs v)
  then have "ring_ok s hs (bs[v mod length bs := zero_bucket])" by (intro gap_close) simp_all
  moreover have "Suc v mod length bs < 2 ^ 32" using 0(3,4) by (intro less_le_trans[OF mod_less_divisor]) auto
  then have "ud_at bs (of_nat (Suc v mod length bs)) = bs ! (Suc v mod length bs)" by (simp add: ud_at_def unat_of_nat)
  then have "dist_and_fingerprint (ud_at bs (of_nat (Suc v mod length bs))) = 0"
    using 0(2) by (simp add: dval_def unat_eq_0)
  ultimately show ?case by (subst shift_down.simps) (auto simp: bucket_dist_inc_def)
next
  case (Suc e bs v)
  let ?n = "length bs" and ?b = "bs ! (Suc v mod length bs)"
  have n: "4 \<le> ?n" "0 < ?n" using Suc.prems(1) by (auto simp: hole_ok_def)
  have i: "v mod ?n < 2 ^ 32" "Suc v mod ?n < 2 ^ 32"
    using n(2) Suc.prems(4) by (intro less_le_trans[OF mod_less_divisor]; simp)+
  then have u: "unat (of_nat (v mod ?n) :: u32) = v mod ?n" "ud_at bs (of_nat (Suc v mod ?n)) = ?b"
    by (simp_all add: ud_at_def unat_of_nat)
  have ge: "bucket_dist_inc * 2 \<le> dist_and_fingerprint ?b \<longleftrightarrow> 512 \<le> dval bs (Suc v)"
    by (simp add: bucket_dist_inc_def word_le_nat_alt dval_def)
  show ?case
  proof (cases "512 \<le> dval bs (Suc v)")
    case False
    then have "ring_ok s hs (bs[v mod ?n := zero_bucket])" by (intro gap_close[OF Suc.prems(1)]) simp
    then show ?thesis using False by (subst shift_down.simps) (auto simp: u ge)
  next
    case True
    let ?bs = "bs[v mod ?n := \<lparr>dist_and_fingerprint = dist_dec (dist_and_fingerprint ?b), value_idx = value_idx ?b\<rparr>]"
    note step = hole_step[OF Suc.prems(1) True]
    have "(v + Suc (Suc e)) mod ?n \<noteq> v mod ?n" by (rule mod_shift_neq) (use Suc.prems(3) in simp_all)
    then have z: "dval ?bs (Suc v + Suc e) = 0" using Suc.prems(2) n by (subst dval_update) auto
    have "shift_down (of_nat ?n) (of_nat (v mod ?n)) (of_nat (Suc v mod ?n)) bs
      = shift_down (of_nat ?n) (of_nat (Suc v mod ?n)) (of_nat (Suc (Suc v) mod ?n)) ?bs"
      using True by (subst shift_down.simps) (simp add: u ge Let_def ud_next_mod[OF n(2) Suc.prems(4)])
    then show ?thesis using Suc.IH[OF step(1) z] step(2) Suc.prems(3,4) by simp
  qed
qed

section \<open>The values that are left\<close>

definition taken_out :: "nat \<Rightarrow> 'a list \<Rightarrow> 'a list" where
  "taken_out r xs = butlast (xs[r := last xs])"

lemma length_taken_out [simp]: "length (taken_out r xs) = length xs - 1"
  by (simp add: taken_out_def)

lemma nth_taken_out: "v < length xs - 1 \<Longrightarrow> taken_out r xs ! v = (if v = r then last xs else xs ! v)"
  by (simp add: taken_out_def nth_butlast nth_list_update)

lemma mset_taken_out: "r < length xs \<Longrightarrow> add_mset (xs ! r) (mset (taken_out r xs)) = mset xs"
proof -
  assume r: "r < length xs"
  then obtain ys y where xs: "xs = ys @ [y]" by (cases xs rule: rev_cases) auto
  show ?thesis
  proof (cases "r = length ys")
    case False
    then have r': "r < length ys" using r xs by simp
    have "taken_out r xs = ys[r := y]" using r' by (simp add: taken_out_def xs list_update_append)
    moreover have "add_mset (ys ! r) (mset (ys[r := y])) = add_mset y (mset ys)"
      using r' by (simp add: mset_update insert_DiffM2)
    ultimately show ?thesis using r' by (simp add: xs nth_append)
  qed (simp add: taken_out_def xs list_update_append)
qed

lemma map_taken_out: "r < length xs \<Longrightarrow> map f (taken_out r xs) = taken_out r (map f xs)"
  by (cases xs rule: rev_cases) (simp_all add: taken_out_def map_butlast map_update last_map)

lemma distinct_taken_out: "distinct xs \<Longrightarrow> distinct (taken_out r xs)"
proof -
  assume d: "distinct xs"
  have e: "taken_out r xs ! v = xs ! (if v = r then length xs - 1 else v)" if "v < length xs - 1" for v
    using that nth_taken_out[OF that, of r] by (cases "xs = []") (auto simp: last_conv_nth)
  show ?thesis
    unfolding distinct_conv_nth
    using d by (auto simp: e nth_eq_iff_index_eq)
qed

section \<open>Erasing one bucket\<close>

lemma seek_steps:
  assumes n: "0 < n" "n \<le> 2 ^ 32" "n = length bs"
    and go: "\<And>i. i < j \<Longrightarrow> bucket_idx_at bs (v + i) \<noteq> x" and halt: "bucket_idx_at bs (v + j) = x"
  shows "seek_value_idx (of_nat n) bs x (of_nat (v mod n)) = Some (of_nat ((v + j) mod n))"
  using go halt
proof (induction j arbitrary: v)
  case 0
  have "unat (of_nat (v mod n) :: u32) = v mod n" using n by (simp add: unat_of_nat less_le_trans[OF mod_less_divisor])
  then show ?case using 0 n by (subst seek_value_idx.simps) (simp add: ud_at_def bucket_idx_at_def)
next
  case (Suc j)
  have "unat (of_nat (v mod n) :: u32) = v mod n" using n by (simp add: unat_of_nat less_le_trans[OF mod_less_divisor])
  moreover have "bucket_idx_at bs v \<noteq> x" using Suc.prems(1)[of 0] by simp
  moreover have "seek_value_idx (of_nat n) bs x (of_nat (Suc v mod n)) = Some (of_nat ((Suc v + j) mod n))"
    using Suc.prems(1)[of "Suc i" for i] Suc.prems(2) by (intro Suc.IH) simp_all
  ultimately show ?case using n by (subst seek_value_idx.simps) (auto simp: ud_at_def bucket_idx_at_def ud_next_mod)
qed

lemma seek_located:
  assumes r: "ring_ok s hs bs" and x: "count (idxs bs) x = 1" and n: "size (idxs bs) < length bs" "length bs \<le> 2 ^ 32"
  obtains u where "seek_value_idx (of_nat (length bs)) bs x (of_nat (dense_home s (hs (unat x)) mod length bs)) = Some (of_nat u)"
    "u < length bs" "bucket_idx_at bs u = x" "dval bs u \<noteq> 0"
proof -
  have nz: "0 < length bs" using n(1) by linarith
  let ?h = "hs (unat x)"
  obtain j where j: "dval bs (dense_home s ?h + j) = dprobe ?h j" "bucket_idx_at bs (dense_home s ?h + j) = x"
    "\<And>i. i < j \<Longrightarrow> bucket_idx_at bs (dense_home s ?h + i) \<noteq> x"
    using ring_located[OF r x n(1)] by metis
  from seek_steps[OF nz n(2) refl j(3,2)] show ?thesis
    by (rule that) (use j(1,2) nz in \<open>simp_all add: bucket_idx_at_def dprobe_def\<close>)
qed

text \<open>A bucket gets another value with the same hash.\<close>

lemma ring_rename:
  assumes r: "ring_ok s hs bs" and i: "i < length bs" and h: "hs (unat x) = hs (unat (value_idx (bs ! i)))"
    and occ: "dist_and_fingerprint (bs ! i) \<noteq> 0"
  shows "ring_ok s hs (bs[i := (bs ! i)\<lparr>value_idx := x\<rparr>])" (is "ring_ok s hs ?bs")
proof -
  have d: "dval ?bs u = dval bs u" for u using i by (cases "u mod length bs = i") (simp_all add: dval_def)
  have "dbucket_ok s hs (length bs) i ((bs ! i)\<lparr>value_idx := x\<rparr>)"
    using dbucket_okD(1)[OF ring_okD(2)[OF r i] occ] h unfolding dbucket_ok_def by simp
  then show ?thesis using r d i by (auto simp: ring_ok_def nth_list_update)
qed

lemma index_of_nat_inj: "v \<le> dense_bound \<Longrightarrow> w \<le> dense_bound \<Longrightarrow> (of_nat v :: u32) = of_nat w \<longleftrightarrow> v = w"
  by (auto simp: dense_bound_def unat_of_nat dest!: arg_cong[of _ _ unat])

text \<open>The bucket of value \<open>r\<close> is erased; the table before the last value moves.\<close>

lemma erase_bucket_ok:
  assumes ok: "dense_ok cfg t" and u: "dval (ud_buckets t) u \<noteq> 0" "bucket_idx_at (ud_buckets t) u = of_nat r" and r: "r < length (ud_values t)"
  obtains i bs where "shift_down (of_nat (length (ud_buckets t))) (of_nat (u mod length (ud_buckets t)))
      (of_nat (Suc u mod length (ud_buckets t))) (ud_buckets t) = Some (of_nat i, bs)" "i < length bs"
    "length bs = length (ud_buckets t)" "ring_ok (ud_shifts t) (value_hash cfg (ud_values t)) (bs[i := zero_bucket])"
    "add_mset (of_nat r) (idxs (bs[i := zero_bucket])) = mset (map of_nat [0..<length (ud_values t)])"
proof -
  let ?bs = "ud_buckets t" and ?n = "length (ud_buckets t)"
  note D = dense_okD[OF ok] and I = dense_indexD[OF dense_okD(1)[OF ok]] and S = dense_shapeD[OF dense_okD(4)[OF ok]]
  obtain k where k: "k \<le> size (idxs ?bs)" "dval ?bs (Suc u + k) = 0" using empty_near[OF ring_okD(1)[OF I(2)], of "Suc u"] I(7,8) by auto
  have kn: "Suc k < ?n"
  proof (rule ccontr)
    assume "\<not> ?thesis"
    then have "Suc k = ?n" using k(1) I(7,8) by simp
    then have "Suc u + k = u + ?n" by simp
    then show False using k(2) u(1) by (simp only: dval_mod)
  qed
  from shift_down_ok[OF hole_start[OF I(2) S(2)] _ kn S(3), of u] k(2) obtain i bs where i:
    "shift_down (of_nat ?n) (of_nat (u mod ?n)) (of_nat (Suc u mod ?n)) ?bs = Some (of_nat (i mod ?n), bs)"
    "length bs = ?n" "ring_ok (ud_shifts t) (value_hash cfg (ud_values t)) (bs[i mod ?n := zero_bucket])"
    "idxs (bs[i mod ?n := zero_bucket]) = idxs (?bs[u mod ?n := zero_bucket])" by auto
  have "idxs (?bs[u mod ?n := zero_bucket]) + idx_mset (?bs ! (u mod ?n)) = idxs ?bs"
    using idxs_update[of "u mod ?n" ?bs zero_bucket] S(1) by (simp add: idx_mset_def zero_bucket_def)
  moreover have "idx_mset (?bs ! (u mod ?n)) = {#of_nat r#}"
    using u by (simp add: idx_mset_def bucket_idx_at_def dval_def unat_eq_0)
  ultimately have "add_mset (of_nat r) (idxs (bs[i mod ?n := zero_bucket])) = mset (map of_nat [0..<length (ud_values t)])"
    using i(4) I(3) by simp
  then show ?thesis using that[of "i mod ?n" bs] i S(1) by simp
qed

text \<open>The table after the erasure: its buckets index the values that are left.\<close>

lemma erased_ok:
  assumes ok: "dense_ok cfg t" and r: "r < length (ud_values t)" and bs: "length bs = length (ud_buckets t)"
    and ring: "ring_ok (ud_shifts t) (value_hash cfg (taken_out r (ud_values t))) bs"
    and ix: "idxs bs = mset (map of_nat [0..<length (ud_values t) - 1])"
  shows "dense_ok cfg (t\<lparr>ud_values := taken_out r (ud_values t), ud_buckets := bs\<rparr>)" (is "dense_ok cfg ?t")
proof -
  note D = dense_okD[OF ok]
  have "distinct (map (ud_key cfg) (taken_out r (ud_values t)))"
    unfolding map_taken_out[OF r] by (rule distinct_taken_out[OF D(5)])
  moreover have "capacity_ok ?t" using D(3) bs by (simp add: capacity_ok_def)
  moreover have "length (ud_values t) - 1 \<le> dense_bound" "length (ud_values t) - 1 < length bs" using D(6,7) bs by linarith+
  ultimately show ?thesis using D(2,4) ring ix bs by (simp add: dense_ok_def dense_index_def dense_shape_def)
qed

lemma index_mset:
  assumes "m \<le> dense_bound" "add_mset (of_nat r :: u32) A = mset (map of_nat [0..<m])" "r < m"
  shows "v \<in># A \<Longrightarrow> unat v < m \<and> unat v \<noteq> r" "w < m \<Longrightarrow> w \<noteq> r \<Longrightarrow> count A (of_nat w) = 1"
proof -
  have d: "distinct (map (of_nat :: nat \<Rightarrow> u32) [0..<m])"
    using assms(1) by (auto simp: distinct_map inj_on_def index_of_nat_inj)
  have c: "count (mset (map of_nat [0..<m])) x = (if x \<in> of_nat ` {0..<m} then 1 else 0)" for x :: u32
    using d distinct_count_atmost_1 by (metis atLeastLessThan_upt list.set_map)
  have u: "unat (of_nat w :: u32) = w" if "w < m" for w using that assms(1) by (simp add: unat_of_index)
  have r: "count A (of_nat r) = 0" using c[of "of_nat r"] assms(3) unfolding assms(2)[symmetric] by auto
  show "unat v < m \<and> unat v \<noteq> r" if v: "v \<in># A"
  proof -
    have "v \<in># mset (map of_nat [0..<m])" unfolding assms(2)[symmetric] using v by simp
    then obtain w where w: "w < m" "v = of_nat w" by auto
    moreover have "w \<noteq> r" using v r w by (auto simp flip: count_greater_zero_iff)
    ultimately show ?thesis using u by simp
  qed
  show "count A (of_nat w) = 1" if w: "w < m" "w \<noteq> r"
  proof -
    have "(of_nat w :: u32) \<noteq> of_nat r" using w assms(1,3) by (simp add: index_of_nat_inj)
    then show ?thesis using c[of "of_nat w"] w(1) unfolding assms(2)[symmetric] by auto
  qed
qed

lemma pop_back_last:
  "pop_back (t\<lparr>ud_values := xs, ud_buckets := bs\<rparr>) = t\<lparr>ud_values := butlast xs, ud_buckets := bs\<rparr>"
  "pop_back (t\<lparr>ud_buckets := bs\<rparr>) = t\<lparr>ud_values := butlast (ud_values t), ud_buckets := bs\<rparr>"
  "pop_back (t\<lparr>ud_buckets := bs, ud_values := xs\<rparr>) = t\<lparr>ud_values := butlast xs, ud_buckets := bs\<rparr>"
  by (simp_all add: pop_back_def)

lemma size_update:
  "ud_size (t\<lparr>ud_buckets := bs\<rparr>) = ud_size t" "ud_size (t\<lparr>ud_buckets := bs, ud_values := xs\<rparr>) = of_nat (length xs)"
  "bucket_idx_from_hash (t\<lparr>ud_buckets := bs, ud_values := xs\<rparr>) h = bucket_idx_from_hash t h"
  by (simp_all add: ud_size_def bucket_idx_from_hash_def)

text \<open>The index after value \<open>r\<close> of \<open>k + 1\<close> is gone: the last value has its number, if it is another one.\<close>

lemma last_gone:
  assumes ring: "ring_ok s hs bs" and ix: "add_mset (of_nat k) (idxs bs) = mset (map of_nat [0..<Suc k])"
    and k: "k < dense_bound" and hs: "\<And>v. v < k \<Longrightarrow> hs' v = hs v"
  shows "ring_ok s hs' bs \<and> idxs bs = mset (map of_nat [0..<k])"
proof -
  have e: "idxs bs = mset (map of_nat [0..<k])" using ix by simp
  have "hs (unat v) = hs' (unat v)" if v: "v \<in># idxs bs" for v
  proof -
    obtain i where "i < k" "v = of_nat i" using v unfolding e by auto
    then show ?thesis using k hs by (simp add: unat_of_index)
  qed
  from ring_ok_cong[OF ring this] e show ?thesis by blast
qed

lemma last_renamed:
  assumes ring: "ring_ok s hs bs" and ix: "add_mset (of_nat r) (idxs bs) = mset (map of_nat [0..<Suc k])"
    and r: "r < k" "k < dense_bound" and w: "w < length bs" "value_idx (bs ! w) = of_nat k" "dist_and_fingerprint (bs ! w) \<noteq> 0"
    and hs: "\<And>v. v < k \<Longrightarrow> hs' v = hs (if v = r then k else v)"
  defines "bs2 \<equiv> bs[w := (bs ! w)\<lparr>value_idx := of_nat r\<rparr>]"
  shows "ring_ok s hs' bs2 \<and> idxs bs2 = mset (map of_nat [0..<k])"
proof -
  have u: "unat (of_nat r :: u32) = r" "unat (of_nat k :: u32) = k" using r by (simp_all add: unat_of_index)
  have "Suc k \<le> dense_bound" "r < Suc k" using r by simp_all
  note M = index_mset[OF this(1) ix this(2)]
  have "ring_ok s (hs(r := hs k)) bs" by (rule ring_ok_cong[OF ring]) (use M(1) in auto)
  then have ring2: "ring_ok s (hs(r := hs k)) bs2"
    unfolding bs2_def by (rule ring_rename) (use w r in \<open>simp_all add: u\<close>)
  have "idxs bs2 + {#of_nat k#} = idxs bs + {#of_nat r#}"
    using idxs_update[of w bs "(bs ! w)\<lparr>value_idx := of_nat r\<rparr>"] w by (simp add: bs2_def idx_mset_def)
  then have e: "idxs bs2 = mset (map of_nat [0..<k])" using ix by simp
  have "(hs(r := hs k)) (unat v) = hs' (unat v)" if v: "v \<in># idxs bs2" for v
  proof -
    obtain i where "i < k" "v = of_nat i" using v unfolding e by auto
    then show ?thesis using r hs by (simp add: unat_of_index)
  qed
  from ring_ok_cong[OF ring2 this] e show ?thesis by blast
qed

lemma do_erase_ok:
  assumes ok: "dense_ok cfg t" and u: "dval (ud_buckets t) u \<noteq> 0" "bucket_idx_at (ud_buckets t) u = of_nat r" and r: "r < length (ud_values t)"
  obtains bs where "do_erase cfg (of_nat (u mod length (ud_buckets t))) t
      = Some (ud_values t ! r, t\<lparr>ud_values := taken_out r (ud_values t), ud_buckets := bs\<rparr>)"
    "dense_ok cfg (t\<lparr>ud_values := taken_out r (ud_values t), ud_buckets := bs\<rparr>)"
proof -
  let ?n = "length (ud_buckets t)" and ?xs = "ud_values t"
  note D = dense_okD[OF ok] and S = dense_shapeD[OF dense_okD(4)[OF ok]]
  obtain k where k: "length ?xs = Suc k" using r by (cases "length ?xs") auto
  then have kb: "k < dense_bound" and rk: "r \<le> k" using D(6) r by simp_all
  obtain i bs where sh: "shift_down (of_nat ?n) (of_nat (u mod ?n)) (of_nat (Suc u mod ?n)) (ud_buckets t) = Some (of_nat i, bs)"
    and i: "i < length bs" "length bs = ?n"
    and ring: "ring_ok (ud_shifts t) (value_hash cfg ?xs) (bs[i := zero_bucket])"
    and ix: "add_mset (of_nat r) (idxs (bs[i := zero_bucket])) = mset (map of_nat [0..<Suc k])"
    by (rule erase_bucket_ok[OF ok u r, unfolded k])
  define bs1 where "bs1 = bs[i := zero_bucket]"
  have l1: "length bs1 = ?n" using i by (simp add: bs1_def)
  have "u mod ?n < 2 ^ 32" using S(1,3) by (meson le_trans less_le_trans mod_less_divisor)
  then have idx: "value_idx (ud_at (ud_buckets t) (of_nat (u mod ?n))) = of_nat r"
    using u(2) by (simp add: ud_at_def unat_of_nat bucket_idx_at_def)
  have ui: "unat (of_nat i :: u32) = i" using i S(3) by (simp add: unat_of_nat)
  have ur: "unat (of_nat r :: u32) = r" "unat (of_nat k :: u32) = k" using rk kb by (simp_all add: unat_of_index)
  have sz: "ud_size t - 1 = of_nat k" by (simp add: ud_size_def k)
  have uc: "ucast (of_nat r :: u32) = (of_nat k :: u64) \<longleftrightarrow> r = k" "(ucast (of_nat k :: u64) :: u32) = of_nat k"
    using rk kb by (auto simp: word_unat_eq_iff unsigned_ucast_eq unat_of_nat take_bit_eq_mod dense_bound_def)
  have lst: "last ?xs = ?xs ! k" using k by (subst last_conv_nth) auto
  have vals: "value_hash cfg (taken_out r ?xs) v = value_hash cfg ?xs (if v = r then k else v)" if "v < k" for v
    using that k lst by (auto simp: value_hash_def nth_taken_out)
  have "\<exists>bs2. do_erase cfg (of_nat (u mod ?n)) t = Some (?xs ! r, t\<lparr>ud_values := taken_out r ?xs, ud_buckets := bs2\<rparr>)
    \<and> length bs2 = ?n \<and> ring_ok (ud_shifts t) (value_hash cfg (taken_out r ?xs)) bs2 \<and> idxs bs2 = mset (map of_nat [0..<k])"
  proof (cases "r = k")
    case True
    have "butlast ?xs = taken_out k ?xs" using k by (cases ?xs rule: rev_cases) (simp_all add: taken_out_def list_update_append)
    then have "do_erase cfg (of_nat (u mod ?n)) t = Some (?xs ! r, t\<lparr>ud_values := taken_out r ?xs, ud_buckets := bs1\<rparr>)"
      using True sh by (simp add: do_erase_def Let_def idx ud_next_mod[OF S(1,3)] S(5) bs1_def ui ur ud_value_def sz
        ucast_index[OF less_imp_le[OF kb]] pop_back_last size_update)
    with last_gone[OF ring[folded bs1_def] ix[folded bs1_def, unfolded True] kb] vals l1 True show ?thesis by auto
  next
    case False
    then have "r < k" using rk by simp
    have "count (idxs bs1) (of_nat k) = 1" "size (idxs bs1) < length bs1"
      using index_mset(2)[OF D(6)[unfolded k] ix[folded bs1_def], of k] arg_cong[OF ix[folded bs1_def], of size] False rk D(7) k l1
      by simp_all
    then obtain w where w: "seek_value_idx (of_nat ?n) bs1 (of_nat k)
        (of_nat (dense_home (ud_shifts t) (value_hash cfg ?xs k) mod ?n)) = Some (of_nat w)"
      "w < ?n" "bucket_idx_at bs1 w = of_nat k" "dval bs1 w \<noteq> 0"
      using seek_located[OF ring[folded bs1_def]] l1 S(3) ur(2) by metis
    then have b: "w < length bs1" "value_idx (bs1 ! w) = of_nat k" "dist_and_fingerprint (bs1 ! w) \<noteq> 0"
      using l1 by (simp_all add: bucket_idx_at_def dval_def unat_eq_0)
    have "ud_at bs1 (of_nat w) = bs1 ! w" "unat (of_nat w :: u32) = w" using w(2) S(3) by (simp_all add: ud_at_def unat_of_nat)
    then have "do_erase cfg (of_nat (u mod ?n)) t
        = Some (?xs ! r, t\<lparr>ud_values := taken_out r ?xs, ud_buckets := bs1[w := (bs1 ! w)\<lparr>value_idx := of_nat r\<rparr>]\<rparr>)"
      using False sh w(1) k
      by (simp add: do_erase_def Let_def idx ud_next_mod[OF S(1,3)] S(5,6) bs1_def[symmetric] ui ur ud_value_def sz uc lst
        value_hash_def pop_back_last taken_out_def size_update)
    with last_renamed[OF ring[folded bs1_def] ix[folded bs1_def] \<open>r < k\<close> kb b] vals l1 show ?thesis by auto
  qed
  then show ?thesis using that erased_ok[OF ok r] k by auto
qed

end
