(* ===== verification/AnkerlRemove.thy ===== *)
theory AnkerlRemove
  imports AnkerlErase
begin

text \<open>
  The erasures of \<open>ankerl::unordered_dense\<close>: by key, by iterator, of a range and by a predicate.
\<close>

section \<open>By key\<close>

text \<open>What an erasure of value \<open>r\<close> leaves.\<close>

definition erased :: "('a, 'k) ud_config \<Rightarrow> 'a dense \<Rightarrow> nat \<Rightarrow> 'a dense \<Rightarrow> bool" where
  "erased cfg t r t' \<longleftrightarrow> dense_ok cfg t' \<and> ud_values t' = taken_out r (ud_values t)
     \<and> ud_max_load_factor t' = ud_max_load_factor t"

lemma do_erase_erased:
  assumes "dense_ok cfg t" "dval (ud_buckets t) u \<noteq> 0" "bucket_idx_at (ud_buckets t) u = of_nat r" "r < length (ud_values t)"
  shows "\<exists>t'. do_erase cfg (of_nat (u mod length (ud_buckets t))) t = Some (ud_values t ! r, t') \<and> erased cfg t r t'"
  by (rule do_erase_ok[OF assms]) (auto simp: erased_def)

lemma dval_forward_le: "ring_ok s hs bs \<Longrightarrow> dval bs v \<le> dprobe h j \<Longrightarrow> dval bs (v + k) \<le> dprobe h (j + k)"
proof (induction k)
  case (Suc k)
  then have "dval bs (v + k) \<le> dprobe h (j + k)" by simp
  moreover have "dval bs (Suc (v + k)) \<le> max 511 (dval bs (v + k) + 256)" by (rule ring_okD(4)[OF Suc.prems(1)])
  ultimately show ?case by (simp add: dprobe_def)
qed simp

lemma erase_stop_tests:
  assumes "dense_shape t" "j \<le> dense_bound"
  shows "erase_stop cfg t key (of_nat (dprobe h j)) (of_nat (u mod length (ud_buckets t)))
    = (if dval (ud_buckets t) u = dprobe h j \<and> \<not> same_key cfg t key (of_nat (u mod length (ud_buckets t)))
       then None else Some (of_nat (dprobe h j), of_nat (u mod length (ud_buckets t))))"
  using dense_tests(3)[OF assms, of h u] by (auto simp: erase_stop_def)

lemma erase_key_found:
  assumes ok: "dense_ok cfg t" and v: "v < length (ud_values t)" "ud_key cfg (ud_values t ! v) = key"
  shows "\<exists>t'. do_erase_key cfg key t = Some (Some (ud_values t ! v), t') \<and> erased cfg t v t'"
proof -
  define h where "h = mixed_hash cfg key"
  let ?n = "length (ud_buckets t)" and ?u = "dense_home (ud_shifts t) h" and ?bs = "ud_buckets t"
  note D = dense_okD[OF ok] and I = dense_indexD[OF dense_okD(1)[OF ok]] and S = dense_shapeD[OF dense_okD(4)[OF ok]]
  have "h = value_hash cfg (ud_values t) v" by (simp add: h_def value_hash_def v(2))
  then obtain j where j: "j < length (ud_values t)" "dval ?bs (?u + j) = dprobe h j" "bucket_idx_at ?bs (?u + j) = of_nat v"
    "\<And>i. i \<le> j \<Longrightarrow> dprobe h i \<le> dval ?bs (?u + i)" "\<And>i. i < j \<Longrightarrow> bucket_idx_at ?bs (?u + i) \<noteq> of_nat v"
    using dense_located[OF D(1) v(1)] by metis
  obtain j0 where j0: "next_while_less cfg t key = Some (of_nat (dprobe h j0), of_nat ((?u + j0) mod ?n))"
    "dval ?bs (?u + j0) \<le> dprobe h j0" "\<And>i. i < j0 \<Longrightarrow> dprobe h i < dval ?bs (?u + i)"
    using next_while_less_ok[OF D(1), of key] unfolding h_def by metis
  have le: "j0 \<le> j" using j0(3)[of j] j(2) by (cases "j < j0") auto
  have b: "i \<le> dense_bound" if "i \<le> j" for i using that j(1) I(6) by simp
  have eq: "dval ?bs (?u + (j0 + i)) = dprobe h (j0 + i)" if "j0 + i \<le> j" for i
    using dval_forward_le[OF I(2) j0(2), of i] j(4)[OF that] by (simp add: add.assoc)
  have same: "same_key cfg t key (of_nat ((?u + i) mod ?n)) \<longleftrightarrow> i = j" if "j0 \<le> i" "i \<le> j" for i
    using dense_present[OF D(1) v, of "?u + i"] eq[of "i - j0"] that j(3) j(5)[of i] by (auto simp: dprobe_def le_less)
  have "dense_probe (erase_stop cfg t key) (of_nat ?n) (of_nat (dprobe h j0)) (of_nat ((?u + j0) mod ?n))
      = Some (of_nat (dprobe h j), of_nat ((?u + j) mod ?n))"
  proof (rule dense_probe_steps[OF S(1,3), where j = "j - j0"])
    show "erase_stop cfg t key (of_nat (dprobe h (j0 + i))) (of_nat ((?u + j0 + i) mod ?n)) = None" if "i < j - j0" for i
    proof -
      have i: "j0 + i \<le> j" "j0 + i \<noteq> j" using that by simp_all
      show ?thesis using erase_stop_tests[OF D(4) b[OF i(1)], of cfg key h "?u + (j0 + i)"] eq[OF i(1)] same[of "j0 + i"] i
        by (simp add: add.assoc)
    qed
    show "erase_stop cfg t key (of_nat (dprobe h (j0 + (j - j0)))) (of_nat ((?u + j0 + (j - j0)) mod ?n))
      = Some (of_nat (dprobe h j), of_nat ((?u + j) mod ?n))"
      using erase_stop_tests[OF D(4) b[OF order_refl], of cfg key h "?u + j"] same[OF le order_refl] le by (simp add: add.assoc)
  qed
  moreover have "of_nat (dprobe h j) = dist_and_fingerprint (ud_at ?bs (of_nat ((?u + j) mod ?n)))"
    using dense_tests(3)[OF D(4) b[OF order_refl], of h "?u + j"] j(2) by simp
  moreover have "dval ?bs (?u + j) \<noteq> 0" using j(2) by (simp add: dprobe_def)
  from do_erase_erased[OF ok this j(3) v(1)] obtain t' where
    "do_erase cfg (of_nat ((?u + j) mod ?n)) t = Some (ud_values t ! v, t')" "erased cfg t v t'" by blast
  moreover have "\<not> ud_empty t" using v(1) by (auto simp: ud_empty_def)
  ultimately show ?thesis using j0(1) S(5) by (simp add: do_erase_key_def)
qed

lemma erase_key_absent:
  assumes ok: "dense_ok cfg t" and key: "key \<notin> set (map (ud_key cfg) (ud_values t))"
  shows "do_erase_key cfg key t = Some (None, t)"
proof -
  define h where "h = mixed_hash cfg key"
  let ?n = "length (ud_buckets t)" and ?u = "dense_home (ud_shifts t) h" and ?bs = "ud_buckets t"
  note D = dense_okD[OF ok] and I = dense_indexD[OF dense_okD(1)[OF ok]] and S = dense_shapeD[OF dense_okD(4)[OF ok]]
  obtain j0 where j0: "j0 \<le> length (ud_values t)"
    "next_while_less cfg t key = Some (of_nat (dprobe h j0), of_nat ((?u + j0) mod ?n))"
    "dval ?bs (?u + j0) \<le> dprobe h j0" "\<And>i. i < j0 \<Longrightarrow> dprobe h i < dval ?bs (?u + i)"
    using next_while_less_ok[OF D(1), of key] unfolding h_def by metis
  obtain e where e: "e \<le> length (ud_values t)" "dval ?bs (?u + e) < dprobe h e" "\<And>i. i < e \<Longrightarrow> dprobe h i \<le> dval ?bs (?u + i)"
    using dense_first[OF D(1), where v = ?u and h = h] by metis
  have le: "j0 \<le> e" using j0(4)[of e] e(2) by (cases "e < j0") auto
  have b: "i \<le> dense_bound" if "i \<le> e" for i using that e(1) I(6) by simp
  have eq: "dval ?bs (?u + (j0 + i)) = dprobe h (j0 + i)" if "j0 + i < e" for i
    using dval_forward_le[OF I(2) j0(3), of i] e(3)[OF that] by (simp add: add.assoc)
  have miss: "\<not> same_key cfg t key (of_nat ((?u + (j0 + i)) mod ?n))" if "j0 + i < e" for i
    using dense_absent[OF D(1), of "?u + (j0 + i)" key] eq[OF that] key by (simp add: dprobe_def)
  have "dense_probe (erase_stop cfg t key) (of_nat ?n) (of_nat (dprobe h j0)) (of_nat ((?u + j0) mod ?n))
      = Some (of_nat (dprobe h e), of_nat ((?u + e) mod ?n))"
  proof (rule dense_probe_steps[OF S(1,3), where j = "e - j0"])
    show "erase_stop cfg t key (of_nat (dprobe h (j0 + i))) (of_nat ((?u + j0 + i) mod ?n)) = None" if "i < e - j0" for i
    proof -
      have i: "j0 + i < e" using that by simp
      show ?thesis using erase_stop_tests[OF D(4) b[OF less_imp_le[OF i]], of cfg key h "?u + (j0 + i)"] eq[OF i] miss[OF i]
        by (simp add: add.assoc)
    qed
    show "erase_stop cfg t key (of_nat (dprobe h (j0 + (e - j0)))) (of_nat ((?u + j0 + (e - j0)) mod ?n))
      = Some (of_nat (dprobe h e), of_nat ((?u + e) mod ?n))"
      using erase_stop_tests[OF D(4) b[OF order_refl], of cfg key h "?u + e"] e(2) le by (simp add: add.assoc)
  qed
  moreover have "of_nat (dprobe h e) \<noteq> dist_and_fingerprint (ud_at ?bs (of_nat ((?u + e) mod ?n)))"
    using dense_tests(3)[OF D(4) b[OF order_refl], of h "?u + e"] e(2) by simp
  ultimately show ?thesis using j0(2) S(5) by (simp add: do_erase_key_def)
qed

section \<open>By iterator\<close>

lemma erase_iterator_ok:
  assumes ok: "dense_ok cfg t" and v: "v < length (ud_values t)"
  shows "\<exists>t'. erase_iterator cfg (of_nat v) t = Some (ud_values t ! v, t') \<and> erased cfg t v t'"
proof -
  let ?n = "length (ud_buckets t)" and ?bs = "ud_buckets t"
  note D = dense_okD[OF ok] and I = dense_indexD[OF dense_okD(1)[OF ok]] and S = dense_shapeD[OF dense_okD(4)[OF ok]]
  have uv: "unat (of_nat v :: u32) = v" "unat (of_nat v :: u64) = v"
    using v D(6) by (simp_all add: unat_of_nat dense_bound_def)
  have cv: "(ucast (of_nat v :: u64) :: u32) = of_nat v"
    using v D(6) by (simp add: word_unat_eq_iff unsigned_ucast_eq unat_of_nat take_bit_eq_mod dense_bound_def)
  have "of_nat v \<in># idxs ?bs" using v I(3) by simp
  then have c: "count (idxs ?bs) (of_nat v) = 1"
    using dense_index_count[OF D(1), of "of_nat v"] by (simp add: le_Suc_eq flip: count_greater_zero_iff)
  obtain w where w: "seek_value_idx (of_nat ?n) ?bs (of_nat v)
      (of_nat (dense_home (ud_shifts t) (value_hash cfg (ud_values t) v) mod ?n)) = Some (of_nat w)"
    "w < ?n" "bucket_idx_at ?bs w = of_nat v" "dval ?bs w \<noteq> 0"
    using seek_located[OF I(2) c] S(3) I(7,8) unfolding uv by metis
  from do_erase_erased[OF ok w(4,3) v] w(1,2) show ?thesis
    by (simp add: erase_iterator_def Let_def uv cv S(5,6) value_hash_def)
qed

section \<open>Ranges\<close>

lemma taken_out_far: "v < length xs - 1 \<Longrightarrow> v \<noteq> r \<Longrightarrow> taken_out r xs ! v = xs ! v"
  by (simp add: nth_taken_out)

lemma take_drop_Suc: "i + Suc n \<le> length xs \<Longrightarrow> take (Suc n) (drop i xs) = xs ! i # take n (drop (Suc i) xs)"
  by (simp add: Cons_nth_drop_Suc[symmetric])

lemma take_drop_cong: "(\<And>v. i \<le> v \<Longrightarrow> v < i + n \<Longrightarrow> xs ! v = ys ! v) \<Longrightarrow> i + n \<le> length xs \<Longrightarrow> i + n \<le> length ys
    \<Longrightarrow> take n (drop i xs) = take n (drop i ys)"
  by (rule nth_equalityI) simp_all

lemma erase_forward_ok:
  assumes "dense_ok cfg t" "idx + 2 * n \<le> length (ud_values t)"
  shows "\<exists>t'. erase_forward cfg idx n t = Some t' \<and> dense_ok cfg t' \<and> ud_max_load_factor t' = ud_max_load_factor t
    \<and> mset (ud_values t') + mset (take n (drop idx (ud_values t))) = mset (ud_values t)
    \<and> (\<forall>v. v < idx \<or> idx + n \<le> v \<longrightarrow> v < length (ud_values t) - n \<longrightarrow> ud_values t' ! v = ud_values t ! v)"
  using assms
proof (induction n arbitrary: idx t)
  case (Suc n)
  let ?xs = "ud_values t"
  have i: "idx < length ?xs" using Suc.prems(2) by simp
  obtain t1 where t1: "erase_iterator cfg (of_nat idx) t = Some (?xs ! idx, t1)" "dense_ok cfg t1"
    "ud_values t1 = taken_out idx ?xs" "ud_max_load_factor t1 = ud_max_load_factor t"
    using erase_iterator_ok[OF Suc.prems(1) i] by (auto simp: erased_def)
  have len: "length (ud_values t1) = length ?xs - 1" using t1(3) by simp
  then have room: "Suc idx + 2 * n \<le> length (ud_values t1)" using Suc.prems(2) by simp
  obtain t' where t': "erase_forward cfg (Suc idx) n t1 = Some t'" "dense_ok cfg t'" "ud_max_load_factor t' = ud_max_load_factor t1"
    "mset (ud_values t') + mset (take n (drop (Suc idx) (ud_values t1))) = mset (ud_values t1)"
    "\<And>v. v < Suc idx \<or> Suc idx + n \<le> v \<Longrightarrow> v < length (ud_values t1) - n \<Longrightarrow> ud_values t' ! v = ud_values t1 ! v"
    using Suc.IH[OF t1(2) room] by auto
  have "take n (drop (Suc idx) (ud_values t1)) = take n (drop (Suc idx) ?xs)"
    using Suc.prems(2) len by (intro take_drop_cong) (simp_all add: t1(3) taken_out_far)
  then have "mset (ud_values t') + mset (take (Suc n) (drop idx ?xs)) = mset ?xs"
    using t'(4) Suc.prems(2) mset_taken_out[OF i] by (simp add: take_drop_Suc t1(3)[symmetric])
  moreover have "ud_values t' ! v = ?xs ! v" if "v < idx \<or> idx + Suc n \<le> v" "v < length ?xs - Suc n" for v
    using t'(5)[of v] that len taken_out_far[of v ?xs idx] by (auto simp: t1(3))
  ultimately show ?case using t1(1,4) t'(1-3) by auto
qed simp

lemma erase_backward_ok:
  assumes "dense_ok cfg t" "mid + n \<le> length (ud_values t)"
  shows "\<exists>t'. erase_backward cfg mid n t = Some t' \<and> dense_ok cfg t' \<and> ud_max_load_factor t' = ud_max_load_factor t
    \<and> mset (ud_values t') + mset (take n (drop mid (ud_values t))) = mset (ud_values t)"
  using assms
proof (induction n arbitrary: t)
  case (Suc n)
  let ?xs = "ud_values t"
  have i: "mid + n < length ?xs" using Suc.prems(2) by simp
  obtain t1 where t1: "erase_iterator cfg (of_nat (mid + n)) t = Some (?xs ! (mid + n), t1)" "dense_ok cfg t1"
    "ud_values t1 = taken_out (mid + n) ?xs" "ud_max_load_factor t1 = ud_max_load_factor t"
    using erase_iterator_ok[OF Suc.prems(1) i] by (auto simp: erased_def)
  have len: "length (ud_values t1) = length ?xs - 1" using t1(3) by simp
  then have room: "mid + n \<le> length (ud_values t1)" using i by linarith
  obtain t' where t': "erase_backward cfg mid n t1 = Some t'" "dense_ok cfg t'" "ud_max_load_factor t' = ud_max_load_factor t1"
    "mset (ud_values t') + mset (take n (drop mid (ud_values t1))) = mset (ud_values t1)"
    using Suc.IH[OF t1(2) room] by auto
  have "take n (drop mid (ud_values t1)) = take n (drop mid ?xs)"
    using Suc.prems(2) len by (intro take_drop_cong) (simp_all add: t1(3) taken_out_far)
  moreover have "take (Suc n) (drop mid ?xs) = take n (drop mid ?xs) @ [?xs ! (mid + n)]"
    using i by (simp add: take_Suc_conv_app_nth)
  ultimately have "mset (ud_values t') + mset (take (Suc n) (drop mid ?xs)) = mset ?xs"
    using t'(4) mset_taken_out[OF i] by (simp add: t1(3)[symmetric])
  then show ?case using t1(1,4) t'(1-3) by auto
qed simp

lemma erase_range_ok:
  assumes ok: "dense_ok cfg t" and r: "fst_idx \<le> end_idx" "end_idx \<le> length (ud_values t)"
  shows "\<exists>t'. ud_erase_range cfg fst_idx end_idx t = Some t' \<and> dense_ok cfg t' \<and> ud_max_load_factor t' = ud_max_load_factor t
    \<and> mset (ud_values t') + mset (take (end_idx - fst_idx) (drop fst_idx (ud_values t))) = mset (ud_values t)"
proof -
  let ?xs = "ud_values t"
  define n where "n = min (end_idx - fst_idx) (length ?xs - end_idx)"
  have room: "fst_idx + 2 * n \<le> length ?xs" using r by (auto simp: n_def min_def)
  obtain t1 where t1: "erase_forward cfg fst_idx n t = Some t1" "dense_ok cfg t1" "ud_max_load_factor t1 = ud_max_load_factor t"
    "mset (ud_values t1) + mset (take n (drop fst_idx ?xs)) = mset ?xs"
    "\<And>v. fst_idx + n \<le> v \<Longrightarrow> v < length ?xs - n \<Longrightarrow> ud_values t1 ! v = ?xs ! v"
    using erase_forward_ok[OF ok room] by auto
  have len: "length (ud_values t1) = length ?xs - n"
    using arg_cong[OF t1(4), of size] r by (simp add: n_def)
  let ?k = "end_idx - (fst_idx + n)"
  have fit: "fst_idx + n + ?k \<le> length ?xs - n" using r by (simp add: n_def)
  obtain t' where t': "erase_backward cfg (fst_idx + n) ?k t1 = Some t'" "dense_ok cfg t'" "ud_max_load_factor t' = ud_max_load_factor t1"
    "mset (ud_values t') + mset (take ?k (drop (fst_idx + n) (ud_values t1))) = mset (ud_values t1)"
    using erase_backward_ok[OF t1(2), of "fst_idx + n" ?k] fit len by auto
  have "take ?k (drop (fst_idx + n) (ud_values t1)) = take ?k (drop (fst_idx + n) ?xs)"
    using fit len t1(5) by (intro take_drop_cong) simp_all
  moreover have "take (end_idx - fst_idx) (drop fst_idx ?xs) = take n (drop fst_idx ?xs) @ take ?k (drop (fst_idx + n) ?xs)"
  proof -
    have "end_idx - fst_idx = n + ?k" by (simp add: n_def)
    then show ?thesis by (simp only: take_add drop_drop add.commute)
  qed
  ultimately have "mset (ud_values t') + mset (take (end_idx - fst_idx) (drop fst_idx ?xs)) = mset ?xs"
    unfolding t1(4)[symmetric] t'(4)[symmetric] by simp
  then show ?thesis using t1(1,3) t'(1-3) by (auto simp: ud_erase_range_def Let_def n_def)
qed

lemma erase_if_loop_ok:
  assumes "dense_ok cfg t" "idx \<le> length (ud_values t)"
  shows "\<exists>t'. erase_if_loop cfg pred idx t = Some t' \<and> dense_ok cfg t' \<and> ud_max_load_factor t' = ud_max_load_factor t
    \<and> mset (ud_values t') = mset (filter (\<lambda>x. \<not> pred x) (take idx (ud_values t))) + mset (drop idx (ud_values t))"
  using assms
proof (induction idx arbitrary: t)
  case (Suc idx)
  let ?xs = "ud_values t"
  have i: "idx < length ?xs" using Suc.prems(2) by simp
  have tk: "take (Suc idx) ?xs = take idx ?xs @ [?xs ! idx]" using i by (rule take_Suc_conv_app_nth)
  show ?case
  proof (cases "pred (?xs ! idx)")
    case True
    obtain t1 where t1: "erase_iterator cfg (of_nat idx) t = Some (?xs ! idx, t1)" "dense_ok cfg t1"
      "ud_values t1 = taken_out idx ?xs" "ud_max_load_factor t1 = ud_max_load_factor t"
      using erase_iterator_ok[OF Suc.prems(1) i] by (auto simp: erased_def)
    have e: "take idx (ud_values t1) = take idx ?xs" using i by (intro nth_equalityI) (simp_all add: t1(3) taken_out_far)
    have "add_mset (?xs ! idx) (mset (take idx (ud_values t1)) + mset (drop idx (ud_values t1)))
        = mset (take (Suc idx) ?xs) + mset (drop (Suc idx) ?xs)"
      using mset_taken_out[OF i] by (simp add: t1(3) flip: mset_append)
    then have d: "mset (drop idx (ud_values t1)) = mset (drop (Suc idx) ?xs)" by (simp add: e tk)
    have "idx \<le> length (ud_values t1)" using i by (simp add: t1(3))
    from Suc.IH[OF t1(2) this, unfolded e d] show ?thesis using True t1(1,4) by (auto simp: tk)
  next
    case False
    have "drop idx ?xs = ?xs ! idx # drop (Suc idx) ?xs" using i by (simp add: Cons_nth_drop_Suc)
    then show ?thesis using Suc.IH[OF Suc.prems(1)] Suc.prems(2) False by (auto simp: tk)
  qed
qed simp

lemma erase_if_ok:
  assumes ok: "dense_ok cfg t"
  shows "\<exists>t'. ud_erase_if cfg pred t = Some (of_nat (length (filter pred (ud_values t))), t') \<and> dense_ok cfg t'
    \<and> mset (ud_values t') = mset (filter (\<lambda>x. \<not> pred x) (ud_values t)) \<and> ud_max_load_factor t' = ud_max_load_factor t"
proof -
  obtain t' where t': "erase_if_loop cfg pred (length (ud_values t)) t = Some t'" "dense_ok cfg t'"
    "mset (ud_values t') = mset (filter (\<lambda>x. \<not> pred x) (ud_values t))" "ud_max_load_factor t' = ud_max_load_factor t"
    using erase_if_loop_ok[OF ok order_refl, of pred] by auto
  have "length (ud_values t) = length (ud_values t') + length (filter pred (ud_values t))"
    using t'(3) sum_length_filter_compl[of pred "ud_values t"] by (metis add.commute size_mset)
  then have "ud_size t - ud_size t' = of_nat (length (filter pred (ud_values t)))" by (simp add: ud_size_def)
  then show ?thesis using t' by (auto simp: ud_erase_if_def)
qed

end
