(* ===== verification/AnkerlMaps.thy ===== *)
theory AnkerlMaps
  imports AnkerlRemove
begin

text \<open>
  \<open>ankerl::unordered_dense::map\<close> and \<open>set\<close> as finite partial functions: the lookups, the effect of each
  operation, and histories of operations.
\<close>

section \<open>Maps and sets\<close>

text \<open>The value type of a map is a pair, that of a set the key: \<open>get_key\<close>.\<close>

definition ankerl_map_config :: "('k \<Rightarrow> u64) \<Rightarrow> bool \<Rightarrow> bool \<Rightarrow> ('k \<times> 'v, 'k) ud_config" where
  "ankerl_map_config hash avalanching narrow =
     \<lparr>ud_hash = hash, ud_key = fst, is_avalanching = avalanching, narrow_hash = narrow\<rparr>"

definition ankerl_set_config :: "('k \<Rightarrow> u64) \<Rightarrow> bool \<Rightarrow> bool \<Rightarrow> ('k, 'k) ud_config" where
  "ankerl_set_config hash avalanching narrow =
     \<lparr>ud_hash = hash, ud_key = (\<lambda>k. k), is_avalanching = avalanching, narrow_hash = narrow\<rparr>"

lemma ankerl_config_simps [simp]:
  "ud_key (ankerl_map_config hash av nw) = fst" "ud_key (ankerl_set_config hash av nw) = (\<lambda>k. k)"
  by (simp_all add: ankerl_map_config_def ankerl_set_config_def)

section \<open>Lookup\<close>

abbreviation dkeys :: "('a, 'k) ud_config \<Rightarrow> 'a dense \<Rightarrow> 'k set" where
  "dkeys cfg t \<equiv> set (map (ud_key cfg) (ud_values t))"

lemma dense_find_cases:
  assumes ok: "dense_ok cfg t"
  obtains (found) v where "do_find cfg t key = Some (of_nat v)" "v < length (ud_values t)"
      "ud_key cfg (ud_values t ! v) = key" "of_nat v \<noteq> ud_size t" "unat (of_nat v :: u64) = v"
  | (absent) "do_find cfg t key = Some (ud_size t)" "key \<notin> dkeys cfg t"
proof (cases "key \<in> dkeys cfg t")
  case True
  then obtain v where v: "v < length (ud_values t)" "ud_key cfg (ud_values t ! v) = key" by (auto simp: in_set_conv_nth)
  have "unat (of_nat v :: u64) = v" using v(1) dense_okD(6)[OF ok] by (simp add: unat_of_nat dense_bound_def)
  moreover have "unat (ud_size t) = length (ud_values t)" using dense_okD(6)[OF ok] by (simp add: unat_ud_size)
  ultimately show ?thesis using found do_find_found[OF dense_okD(1)[OF ok] v] v by fastforce
next
  case False
  then show ?thesis using absent do_find_absent[OF dense_okD(1)[OF ok], of key] by simp
qed

lemma contains_ok: "dense_ok cfg t \<Longrightarrow> ud_contains cfg t key = Some (key \<in> dkeys cfg t)"
  by (cases rule: dense_find_cases[where key = key]) (auto simp: ud_contains_def)

lemma count_ok: "dense_ok cfg t \<Longrightarrow> ud_count cfg t key = Some (if key \<in> dkeys cfg t then 1 else 0)"
  by (cases rule: dense_find_cases[where key = key]) (auto simp: ud_count_def)

lemma dense_at_ok:
  assumes ok: "dense_ok cfg t" and key: "ud_key cfg = fst"
  shows "do_at cfg t k = (case map_of (ud_values t) k of Some v \<Rightarrow> ret v | None \<Rightarrow> abort Out_of_range)"
proof (cases rule: dense_find_cases[OF ok, where key = k])
  case (1 v)
  have "distinct (map fst (ud_values t))" using dense_okD(5)[OF ok] by (simp add: key)
  moreover have "(k, snd (ud_values t ! v)) \<in> set (ud_values t)" using 1(2,3) key by (metis nth_mem prod.collapse)
  ultimately have "map_of (ud_values t) k = Some (snd (ud_values t ! v))" by simp
  then show ?thesis using 1 by (simp add: do_at_def)
next
  case 2
  then have "map_of (ud_values t) k = None" by (simp add: key map_of_eq_None_iff)
  then show ?thesis using 2 by (simp add: do_at_def)
qed

section \<open>Operations on the partial function\<close>

lemma map_of_taken_out:
  assumes d: "distinct (map fst xs)" and r: "r < length xs"
  shows "map_of (taken_out r xs) = (map_of xs)(fst (xs ! r) := None)"
proof
  fix k
  have m: "add_mset (xs ! r) (mset (taken_out r xs)) = mset xs" by (rule mset_taken_out[OF r])
  have d': "distinct (map fst (taken_out r xs))" unfolding map_taken_out[OF r] by (rule distinct_taken_out[OF d])
  have s: "insert (xs ! r) (set (taken_out r xs)) = set xs" using arg_cong[OF m, of set_mset] by simp
  have "distinct xs" using d by (simp add: distinct_map)
  then have "count (mset xs) (xs ! r) = 1" using nth_mem[OF r] by (metis distinct_count_atmost_1)
  then have "count (mset (taken_out r xs)) (xs ! r) = 0" using arg_cong[OF m, of "\<lambda>M. count M (xs ! r)"] by simp
  then have nin: "xs ! r \<notin> set (taken_out r xs)" by simp
  have k: "x = xs ! r" if "x \<in> set xs" "fst x = fst (xs ! r)" for x
    using that r d by (metis eq_key_imp_eq_value nth_mem prod.collapse)
  show "map_of (taken_out r xs) k = ((map_of xs)(fst (xs ! r) := None)) k"
  proof (cases "k = fst (xs ! r)")
    case True
    have "fst x \<noteq> k" if "x \<in> set (taken_out r xs)" for x using k[of x] nin True that s by blast
    then have "k \<notin> fst ` set (taken_out r xs)" by blast
    then show ?thesis using True by (simp add: map_of_eq_None_iff)
  next
    case False
    have "(k, v) \<in> set (taken_out r xs) \<longleftrightarrow> (k, v) \<in> set xs" for v using False s by (metis insertE insertI2 fst_conv)
    then have "map_of (taken_out r xs) k = map_of xs k"
      by (metis d d' map_of_is_SomeI map_of_SomeD option.exhaust)
    then show ?thesis using False by simp
  qed
qed

lemma map_of_set_mapped:
  assumes "distinct (map fst xs)" "r < length xs"
  shows "map_of (xs[r := (fst (xs ! r), v)]) = (map_of xs)(fst (xs ! r) \<mapsto> v)"
  using assms
proof (induction xs arbitrary: r)
  case (Cons x xs)
  show ?case
  proof (cases r)
    case (Suc i)
    then have "fst (xs ! i) \<in> fst ` set xs" using Cons.prems(2) by simp
    then have "fst (xs ! i) \<noteq> fst x" using Cons.prems(1) by (metis distinct.simps(2) list.map(2) list.set_map)
    then show ?thesis using Cons Suc by (auto simp: fun_eq_iff)
  qed (auto simp: fun_eq_iff)
qed simp

lemma map_of_append_new: "k \<notin> fst ` set xs \<Longrightarrow> map_of (xs @ [(k, v)]) = (map_of xs)(k \<mapsto> v)"
  using map_of_eq_None_iff[of xs k] by (auto simp: fun_eq_iff map_add_def split: option.splits)

text \<open>The result of an operation on a map: the table is in order and its elements are those of \<open>m\<close>.\<close>

definition dmap_ok :: "('k \<times> 'v, 'k) ud_config \<Rightarrow> ('k \<times> 'v) dense \<Rightarrow> ('k \<rightharpoonup> 'v) \<Rightarrow> bool" where
  "dmap_ok cfg t m \<longleftrightarrow> dense_ok cfg t \<and> 1 / 2 \<le> ud_max_load_factor t \<and> map_of (ud_values t) = m"

lemma dmap_okD:
  assumes "dmap_ok cfg t m" "ud_key cfg = fst"
  shows "dense_ok cfg t" "1 / 2 \<le> ud_max_load_factor t" "m = map_of (ud_values t)" "distinct (map fst (ud_values t))"
    "dom m = dkeys cfg t" "card (dom m) = length (ud_values t)"
proof -
  show d: "dense_ok cfg t" "1 / 2 \<le> ud_max_load_factor t" "m = map_of (ud_values t)" using assms by (auto simp: dmap_ok_def)
  show d2: "distinct (map fst (ud_values t))" using dense_okD(5)[OF d(1)] assms(2) by simp
  show "dom m = dkeys cfg t" by (simp add: d(3) assms(2) dom_map_of_conv_image_fst)
  have "dom m = set (map fst (ud_values t))" by (simp add: d(3) dom_map_of_conv_image_fst)
  then show "card (dom m) = length (ud_values t)" using distinct_card[OF d2] by (simp only: length_map)
qed

lemma appended_map:
  assumes "dmap_ok cfg t m" "ud_key cfg = fst" "appended cfg (k, v) t r" "k \<notin> dkeys cfg t"
  shows "\<exists>t'. r = ret (of_nat (length (ud_values t)), True, t') \<and> dmap_ok cfg t' (m(k \<mapsto> v)) \<and> ud_values t' = ud_values t @ [(k, v)]"
  using assms map_of_append_new[of k "ud_values t" v] by (auto simp: appended_def dmap_ok_def)

lemma try_emplace_map:
  assumes dm: "dmap_ok cfg t m" and key: "ud_key cfg = fst" and small: "card (dom m) < dense_bound"
  obtains (old) v r where "do_try_emplace cfg k y t = ret (of_nat r, False, t)" "m k = Some v" "r < length (ud_values t)"
      "ud_values t ! r = (k, v)"
  | (new) t' where "do_try_emplace cfg k y t = ret (of_nat (length (ud_values t)), True, t')" "m k = None"
      "dmap_ok cfg t' (m(k \<mapsto> y))" "ud_values t' = ud_values t @ [(k, y)]"
proof (cases "k \<in> dkeys cfg t")
  case True
  then obtain r where r: "r < length (ud_values t)" "ud_key cfg (ud_values t ! r) = k" by (auto simp: in_set_conv_nth)
  then have e: "ud_values t ! r = (k, snd (ud_values t ! r))" using key by (metis prod.collapse)
  then have "m k = Some (snd (ud_values t ! r))"
    using dmap_okD(3,4)[OF dm key] r(1) by (metis map_of_is_SomeI nth_mem)
  then show ?thesis using old do_try_emplace_old[OF dmap_okD(1)[OF dm key] r] r(1) e by blast
next
  case False
  then have none: "m k = None" using dmap_okD(5)[OF dm key] by auto
  have "appended cfg (k, y) t (do_try_emplace cfg k y t)"
    using do_try_emplace_new[OF dmap_okD(1)[OF dm key], of k y] False small dmap_okD(6)[OF dm key] key by simp
  from appended_map[OF dm key this False] none show ?thesis using new by blast
qed

lemma emplace_map:
  assumes dm: "dmap_ok cfg t m" and key: "ud_key cfg = fst" and small: "card (dom m) < dense_bound"
  shows "\<exists>it t'. ud_emplace cfg (k, v) t = ret (it, m k = None, t') \<and> dmap_ok cfg t' (if m k = None then m(k \<mapsto> v) else m)
    \<and> (m k \<noteq> None \<longrightarrow> t' = t)"
proof (cases "k \<in> dkeys cfg t")
  case True
  then obtain r where r: "r < length (ud_values t)" "ud_key cfg (ud_values t ! r) = ud_key cfg (k, v)"
    using key by (auto simp: in_set_conv_nth)
  then show ?thesis using ud_emplace_old[OF dmap_okD(1)[OF dm key] r] dm True dmap_okD(5)[OF dm key] by auto
next
  case False
  then have none: "m k = None" using dmap_okD(5)[OF dm key] by auto
  have "appended cfg (k, v) t (ud_emplace cfg (k, v) t)"
    using ud_emplace_new[OF dmap_okD(1)[OF dm key], of "(k, v)"] False small dmap_okD(6)[OF dm key] key by simp
  from appended_map[OF dm key this False] none show ?thesis by auto
qed

lemma ud_set_mapped_ok:
  assumes dm: "dmap_ok cfg t m" and key: "ud_key cfg = fst" and r: "r < length (ud_values t)" "ud_values t ! r = (k, v0)"
  shows "dmap_ok cfg (ud_set_mapped (of_nat r) v t) (m(k \<mapsto> v))"
proof -
  note D = dmap_okD[OF dm key]
  have u: "unat (of_nat r :: u64) = r" using r dense_okD(6)[OF D(1)] by (simp add: unat_of_nat dense_bound_def)
  let ?xs = "(ud_values t)[r := (k, v)]"
  have "map fst ?xs = map fst (ud_values t)"
    using r by (simp add: map_update) (metis fst_conv list_update_id nth_map)
  then have "dense_ok cfg (t\<lparr>ud_values := ?xs\<rparr>)" using dense_ok_values[OF D(1)] key by simp
  then show ?thesis
    using D(2,3) map_of_set_mapped[OF D(4) r(1), of v] r(2) by (simp add: dmap_ok_def ud_set_mapped_def u)
qed

lemma insert_or_assign_map:
  assumes dm: "dmap_ok cfg t m" and key: "ud_key cfg = fst" and small: "card (dom m) < dense_bound"
  shows "\<exists>it t'. do_insert_or_assign cfg k v t = ret (it, m k = None, t') \<and> dmap_ok cfg t' (m(k \<mapsto> v))"
proof (cases rule: try_emplace_map[OF dm key small, of k v])
  case (1 v0 r)
  then show ?thesis using ud_set_mapped_ok[OF dm key 1(3,4), of v] by (simp add: do_insert_or_assign_def)
next
  case (2 t')
  then show ?thesis by (simp add: do_insert_or_assign_def)
qed

lemma subscript_map:
  assumes dm: "dmap_ok cfg t m" and key: "ud_key cfg = fst" and small: "card (dom m) < dense_bound"
  shows "\<exists>t'. ud_subscript cfg zero k t = ret (case m k of Some v \<Rightarrow> v | None \<Rightarrow> zero, t')
    \<and> dmap_ok cfg t' (if m k = None then m(k \<mapsto> zero) else m)"
proof -
  have u: "unat (of_nat r :: u64) = r" if "r \<le> length (ud_values t)" for r
    using that dense_okD(6)[OF dmap_okD(1)[OF dm key]] by (simp add: unat_of_nat dense_bound_def)
  show ?thesis
  proof (cases rule: try_emplace_map[OF dm key small, of k zero])
    case (1 v r)
    then show ?thesis using dm u[of r] by (simp add: ud_subscript_def)
  next
    case (2 t')
    then show ?thesis using u[OF order_refl] by (simp add: ud_subscript_def nth_append)
  qed
qed

lemma erase_map:
  assumes dm: "dmap_ok cfg t m" and key: "ud_key cfg = fst"
  shows "\<exists>t'. ud_erase_key cfg k t = Some (if m k = None then 0 else 1, t') \<and> dmap_ok cfg t' (m(k := None))
    \<and> (m k = None \<longrightarrow> t' = t)"
proof (cases "k \<in> dkeys cfg t")
  case True
  then obtain r where r: "r < length (ud_values t)" "ud_key cfg (ud_values t ! r) = k" by (auto simp: in_set_conv_nth)
  note D = dmap_okD[OF dm key]
  have "m k \<noteq> None" using True D(5) by auto
  moreover obtain t' where t': "do_erase_key cfg k t = Some (Some (ud_values t ! r), t')" "erased cfg t r t'"
    using erase_key_found[OF D(1) r] by blast
  moreover have "dmap_ok cfg t' (m(k := None))"
    using t'(2) D(2,3) map_of_taken_out[OF D(4) r(1)] r(2) key by (simp add: erased_def dmap_ok_def)
  ultimately show ?thesis by (auto simp: ud_erase_key_def)
next
  case False
  then have none: "m k = None" using dmap_okD(5)[OF dm key] by auto
  then have "m(k := None) = m" by auto
  then show ?thesis using none dm erase_key_absent[OF dmap_okD(1)[OF dm key] False] by (simp add: ud_erase_key_def)
qed

end
