(* ===== verification/AnkerlHistory.thy ===== *)
theory AnkerlHistory
  imports AnkerlMaps
begin

text \<open>
  \<open>ankerl::unordered_dense\<close>: copies, moves, \<open>replace\<close> and comparison, and histories of a map next to the
  finite partial function that they describe.
\<close>

section \<open>Reserving\<close>

text \<open>Up to 99 percent of the load factor of the largest table.\<close>

lemma threshold_lower:
  assumes ml: "0 \<le> ml" "ml \<le> 125 / 128" and k: "(of_nat k :: rat) \<le> 2 ^ 32 * ml * (99 / 100)"
  shows "k \<le> unat (trunc_u64 (to_float (to_float (2 ^ 32) * ml)))"
proof -
  define e :: rat where "e = 1 / 2 ^ 24"
  have e: "0 < e" "e < 1 / 1000" by (simp_all add: e_def)
  have one: "(1 :: rat) \<le> 2 ^ 32" by simp
  note lt = scaled_less[OF one ml]
  have a: "2 ^ 32 * (1 - e) \<le> to_float (2 ^ 32)" unfolding e_def by (rule fl_round_bounds) simp_all
  have p: "0 \<le> to_float (2 ^ 32) * ml" using ml fl_round_nonneg[of "2 ^ 32" 24] by simp
  have "to_float (2 ^ 32) * ml * (1 - e) \<le> to_float (to_float (2 ^ 32) * ml)"
    unfolding e_def by (rule fl_round_bounds[OF p]) simp
  moreover have "2 ^ 32 * (1 - e) * ml * (1 - e) \<le> to_float (2 ^ 32) * ml * (1 - e)"
    using a ml e by (intro mult_right_mono) auto
  moreover have "2 ^ 32 * ml * (99 / 100) \<le> 2 ^ 32 * ml * ((1 - e) * (1 - e))"
  proof (rule mult_left_mono)
    have "(999 / 1000) * (999 / 1000) \<le> (1 - e) * (1 - e)" using e by (intro mult_mono) auto
    then show "99 / 100 \<le> (1 - e) * (1 - e)" by simp
  qed (use ml in simp)
  moreover have eq: "2 ^ 32 * ml * ((1 - e) * (1 - e)) = 2 ^ 32 * (1 - e) * ml * (1 - e)"
    by (simp only: mult.assoc mult.commute mult.left_commute)
  ultimately have "(of_nat k :: rat) \<le> to_float (to_float (2 ^ 32) * ml)"
    using k eq by linarith
  then have "int k \<le> \<lfloor>to_float (to_float (2 ^ 32) * ml)\<rfloor>" by (simp add: le_floor_iff)
  moreover have "to_float (to_float (2 ^ 32) * ml) < 2 ^ 64" using lt(2) by simp
  ultimately show ?thesis using lt(1) by (simp add: unat_trunc_u64)
qed

lemma reservable_le:
  assumes lf: "ankerl_lf_ok (ud_max_load_factor t)" and n: "length (ud_values t) \<le> dense_bound"
    and k: "(of_nat (max (unat n) dense_bound) :: rat) \<le> 2 ^ 32 * ud_max_load_factor t * (99 / 100)"
  shows "reservable t n"
proof -
  have "max (unat n) dense_bound \<le> unat (trunc_u64 (to_float (to_float (2 ^ 32) * ud_max_load_factor t)))"
    using lf k by (intro threshold_lower) (simp_all add: ankerl_lf_ok_def)
  moreover have "unat (ud_size t) \<le> dense_bound" using n by (simp add: unat_ud_size)
  ultimately show ?thesis
    unfolding reservable_def by (simp add: word_le_nat_alt) (meson le_trans max.bounded_iff min.cobounded1 word_le_nat_alt)
qed

lemma reservable_small:
  assumes "dense_ok cfg t" "1 / 2 \<le> ud_max_load_factor t" "n \<le> 2 ^ 30"
  shows "reservable t n"
proof (rule reservable_le)
  have "unat n \<le> 2 ^ 30" using assms(3) by (simp add: word_le_nat_alt)
  then have "max (unat n) dense_bound \<le> 2 ^ 30" by (simp add: dense_bound_def)
  then have "(of_nat (max (unat n) dense_bound) :: rat) \<le> 2 ^ 30" by (rule of_nat_less_2)
  also have "\<dots> \<le> 2 ^ 32 * ud_max_load_factor t * (99 / 100)" using assms(2) by simp
  finally show "(of_nat (max (unat n) dense_bound) :: rat) \<le> 2 ^ 32 * ud_max_load_factor t * (99 / 100)" .
qed (use dense_okD[OF assms(1)] in simp_all)

section \<open>Copies and moves\<close>

text \<open>A copy of an empty table has the smallest number of buckets, another one those of the original.\<close>

lemma copy_buckets_ok:
  assumes ok: "dense_ok cfg other" and t: "ud_values t = ud_values other" "ud_max_load_factor t = ud_max_load_factor other"
    "ud_buckets t = []" "ud_shifts t = initial_shifts"
  shows "dense_ok cfg (copy_buckets other t)" "ud_values (copy_buckets other t) = ud_values other"
    "ud_max_load_factor (copy_buckets other t) = ud_max_load_factor other"
proof -
  note D = dense_okD[OF ok]
  have lf: "ankerl_lf_ok (ud_max_load_factor t)" using D(2) t(2) by simp
  have e: "allocate_buckets_from_shift (deallocate_buckets (t\<lparr>ud_shifts := s\<rparr>))
      = allocate_buckets_from_shift (t\<lparr>ud_shifts := s\<rparr>)" for s
    using t(3) by (simp add: allocate_buckets_from_shift_def deallocate_buckets_def Let_def)
  have i: "unat initial_shifts = 62" "t\<lparr>ud_shifts := initial_shifts\<rparr> = t" using t(4) by (simp_all add: initial_shifts_def)
  note A0 = allocate_ok[OF lf, of initial_shifts, unfolded e, unfolded i]
  have s: "32 \<le> unat (ud_shifts other)" "unat (ud_shifts other) \<le> 62" "length (ud_buckets other) = 2 ^ (64 - unat (ud_shifts other))"
    using D(4) by (auto simp: dense_shape_def)
  note A1 = allocate_ok[OF lf s(1,2), unfolded e]
  show "ud_values (copy_buckets other t) = ud_values other" "ud_max_load_factor (copy_buckets other t) = ud_max_load_factor other"
    using A0(3,4) A1(3,4) t by (simp_all add: copy_buckets_def Let_def clear_buckets_def)
  show "dense_ok cfg (copy_buckets other t)"
  proof (cases "ud_empty t")
    case True
    have "capacity_ok (clear_buckets (allocate_buckets_from_shift t))" using A0(2) by (simp add: capacity_ok_def clear_buckets_def)
    then show ?thesis
      using True t lf A0 clear_buckets_index[OF A0(1), of cfg] by (simp add: copy_buckets_def dense_ok_def ud_empty_def clear_buckets_def)
  next
    case False
    let ?a = "allocate_buckets_from_shift (t\<lparr>ud_shifts := ud_shifts other\<rparr>)"
    have len: "length (ud_buckets ?a) = length (ud_buckets other)" using A1(6) s(3) by simp
    have c: "copy_buckets other t = ?a\<lparr>ud_buckets := ud_buckets other\<rparr>"
      using False len by (simp add: copy_buckets_def Let_def)
    have "capacity_ok (copy_buckets other t)" using A1(2) unfolding c capacity_ok_def len by simp
    then show ?thesis
      using dense_indexD[OF D(1)] lf A1 t unfolding c by (simp add: dense_ok_def dense_index_def dense_shape_def)
  qed
qed

lemma dense_copy_ok:
  assumes "dense_ok cfg other"
  shows "dense_ok cfg (dense_copy other)" "ud_values (dense_copy other) = ud_values other"
    "ud_max_load_factor (dense_copy other) = ud_max_load_factor other"
  unfolding dense_copy_def by (rule copy_buckets_ok[OF assms]; simp add: dense_init_def)+

lemma dense_assign_ok:
  assumes "dense_ok cfg other" "same \<longrightarrow> t = other"
  shows "dense_ok cfg (dense_assign same other t)" "ud_values (dense_assign same other t) = ud_values other"
    "ud_max_load_factor (dense_assign same other t) = ud_max_load_factor other"
  using assms copy_buckets_ok[OF assms(1), of "(deallocate_buckets t)\<lparr>ud_values := ud_values other,
    ud_max_load_factor := ud_max_load_factor other, ud_shifts := initial_shifts\<rparr>"]
  by (auto simp: dense_assign_def deallocate_buckets_def)

lemma dense_move_assign_ok: "fst (dense_move_assign other t) = other"
  by (simp add: dense_move_assign_def)

lemma dense_swap_ok: "dense_swap a b = (b, a)"
  by (simp add: dense_swap_def dense_move_def dense_move_assign_def split: prod.splits)

section \<open>Replacing the values\<close>

lemma pop_taken_out:
  assumes "i < length (ud_values t)" "length (ud_values t) \<le> dense_bound"
  shows "pop_back (if of_nat i \<noteq> (ucast (ud_size t - 1) :: u32) then t\<lparr>ud_values := (ud_values t)[unat (of_nat i :: u32) := last (ud_values t)]\<rparr> else t)
    = t\<lparr>ud_values := taken_out i (ud_values t)\<rparr>"
proof -
  obtain ys y where xs: "ud_values t = ys @ [y]" using assms(1) by (cases "ud_values t" rule: rev_cases) auto
  have "ud_size t - 1 = of_nat (length ys)" by (simp add: ud_size_def xs)
  moreover have "(ucast (of_nat (length ys) :: u64) :: u32) = of_nat (length ys)"
    using assms(2) xs by (simp add: word_unat_eq_iff unsigned_ucast_eq unat_of_nat take_bit_eq_mod dense_bound_def)
  ultimately have s: "(ucast (ud_size t - 1) :: u32) = of_nat (length ys)" by simp
  have "(of_nat i :: u32) = of_nat (length ys) \<longleftrightarrow> i = length ys"
    using assms xs by (intro index_of_nat_inj) simp_all
  moreover have "unat (of_nat i :: u32) = i" using assms by (simp add: unat_of_index)
  ultimately show ?thesis unfolding s by (simp add: pop_back_def taken_out_def xs list_update_append)
qed

definition same_keys :: "('a, 'k) ud_config \<Rightarrow> 'a list \<Rightarrow> 'a list \<Rightarrow> bool" where
  "same_keys cfg xs ys \<longleftrightarrow> set xs \<subseteq> set ys \<and> ud_key cfg ` set xs = ud_key cfg ` set ys"

lemma replace_loop_ok:
  assumes "dense_index cfg t i" "length (ud_values t) \<le> dense_bound" "length (ud_values t) < length (ud_buckets t)"
    "ankerl_lf_ok (ud_max_load_factor t)" "capacity_ok t"
  shows "\<exists>t'. replace_loop cfg (of_nat i) t = ret t' \<and> dense_ok cfg t' \<and> same_keys cfg (ud_values t') (ud_values t)"
  using assms
proof (induction "length (ud_values t) - i" arbitrary: i t rule: less_induct)
  case less
  let ?xs = "ud_values t" and ?key = "ud_key cfg (ud_values t ! i)"
  let ?h = "mixed_hash cfg ?key"
  note I = dense_indexD[OF less.prems(1)]
  have ui: "unat (of_nat i :: u32) = i" using I(6) by (simp add: unat_of_index)
  have "(ucast (ud_size t) :: u32) = of_nat (length ?xs)"
    using less.prems(2) by (simp add: ud_size_def word_unat_eq_iff unsigned_ucast_eq unat_of_nat take_bit_eq_mod dense_bound_def)
  then have test: "of_nat i = (ucast (ud_size t) :: u32) \<longleftrightarrow> i = length ?xs"
    using I(6) less.prems(2) by (simp add: index_of_nat_inj)
  show ?case
  proof (cases "i = length ?xs")
    case True
    then show ?thesis using test less.prems by (subst replace_loop.simps) (simp add: dense_ok_def same_keys_def)
  next
    case False
    then have i: "i < length ?xs" using I(4) by simp
    have v: "ud_value t (of_nat i) = ?xs ! i" by (simp add: ud_value_def ui)
    show ?thesis
    proof (cases "?key \<in> set (map (ud_key cfg) (take i ?xs))")
      case True
      then obtain w where w: "w < i" "ud_key cfg (?xs ! w) = ?key" using i by (auto simp: in_set_conv_nth)
      let ?t = "t\<lparr>ud_values := taken_out i ?xs\<rparr>"
      have step: "replace_loop cfg (of_nat i) t = replace_loop cfg (of_nat i) ?t"
        using emplace_search_found[OF less.prems(1) w] False test pop_taken_out[OF i less.prems(2)]
        by (subst replace_loop.simps) (simp add: v Let_def emplace_stops_equal)
      have tk: "take i (taken_out i ?xs) = take i ?xs" using i by (intro nth_equalityI) (simp_all add: taken_out_far)
      have ix: "dense_index cfg ?t i" using i by (intro dense_index_values[OF less.prems(1) tk]) simp
      have "\<exists>t'. replace_loop cfg (of_nat i) ?t = ret t' \<and> dense_ok cfg t' \<and> same_keys cfg (ud_values t') (ud_values ?t)"
        using ix less.prems i by (intro less.hyps) (auto simp: capacity_ok_def)
      moreover have "same_keys cfg (taken_out i ?xs) ?xs"
      proof -
        have s: "set ?xs = insert (?xs ! i) (set (taken_out i ?xs))" using arg_cong[OF mset_taken_out[OF i], of set_mset] by simp
        have "?xs ! w = taken_out i ?xs ! w" using w(1) i by (simp add: taken_out_far)
        then have "?xs ! w \<in> set (taken_out i ?xs)" using w(1) i by simp
        then show ?thesis using w(2) s by (auto simp: same_keys_def intro: rev_image_eqI)
      qed
      ultimately show ?thesis unfolding step by (auto simp: same_keys_def)
    next
      case absent: False
      show ?thesis
      proof (rule emplace_search_absent[OF less.prems(1) absent])
        fix j assume j: "j \<le> i" "dense_probe (emplace_stop cfg t ?key) (ud_bucket_count t) (dist_and_fingerprint_from_hash ?h)
            (bucket_idx_from_hash t ?h)
          = Some (Inr (of_nat (dprobe ?h j), of_nat ((dense_home (ud_shifts t) ?h + j) mod length (ud_buckets t))))"
          "dval (ud_buckets t) (dense_home (ud_shifts t) ?h + j) < dprobe ?h j"
          "\<And>k. k < j \<Longrightarrow> dprobe ?h k \<le> dval (ud_buckets t) (dense_home (ud_shifts t) ?h + k)"
        have h: "?h = value_hash cfg ?xs i" by (simp add: value_hash_def)
        obtain bs where bs: "ud_place \<lparr>dist_and_fingerprint = of_nat (dprobe ?h j), value_idx = of_nat i\<rparr>
            (of_nat ((dense_home (ud_shifts t) ?h + j) mod length (ud_buckets t))) t = ret (t\<lparr>ud_buckets := bs\<rparr>)"
          "length bs = length (ud_buckets t)" "dense_index cfg (t\<lparr>ud_buckets := bs\<rparr>) (Suc i)"
          using dense_index_place[OF less.prems(1) i _ _ absent h j(1) less_imp_le[OF j(3)] j(4)] i less.prems(2,3) by auto
        have step: "replace_loop cfg (of_nat i) t = replace_loop cfg (of_nat (Suc i)) (t\<lparr>ud_buckets := bs\<rparr>)"
          using j(2) False test bs(1)
          by (subst replace_loop.simps) (simp add: v Let_def emplace_stops_equal add.commute)
        have "\<exists>t'. replace_loop cfg (of_nat (Suc i)) (t\<lparr>ud_buckets := bs\<rparr>) = ret t' \<and> dense_ok cfg t'
            \<and> same_keys cfg (ud_values t') (ud_values (t\<lparr>ud_buckets := bs\<rparr>))"
          using bs(2,3) less.prems i by (intro less.hyps) (auto simp: capacity_ok_def)
        then show ?thesis unfolding step by simp
      qed
    qed
  qed
qed

text \<open>\<open>replace\<close> keeps one of the values for each key.\<close>

lemma ud_replace_ok:
  assumes ok: "dense_ok cfg t" and half: "1 / 2 \<le> ud_max_load_factor t" and n: "length container \<le> dense_bound"
  shows "\<exists>t'. ud_replace cfg container t = ret t' \<and> dense_ok cfg t' \<and> same_keys cfg (ud_values t') container"
proof -
  note D = dense_okD[OF ok]
  let ?n = "of_nat (length container) :: u64"
  let ?s = "calc_shifts_for_size t ?n" and ?ml = "ud_max_load_factor t"
  have un: "unat ?n = length container" using n by (simp add: unat_of_nat dense_bound_def)
  have small: "?n \<le> ud_max_size" using n by (simp add: word_le_nat_alt un ud_max_size_value dense_bound_def)
  have "?n \<le> 2 ^ 30" using n by (simp add: word_le_nat_alt un dense_bound_def)
  from reservable_small[OF ok half this] have fits: "?n \<le> trunc_u64 (to_float (to_float (2 ^ 32) * ?ml))"
    using small by (simp add: reservable_def min_def)
  have i: "unat initial_shifts = 62" by (simp add: initial_shifts_def)
  have s: "32 \<le> unat ?s" "unat ?s \<le> 62" "?n \<le> trunc_u64 (to_float (to_float (of_nat (2 ^ (64 - unat ?s))) * ?ml))"
    using calc_shifts_ok[of initial_shifts ?n ?ml] fits unfolding calc_shifts_for_size_def i by simp_all
  have lt: "length container < 2 ^ (64 - unat ?s)" using reserve_fits[OF D(2) s(3,1,2)] by (simp add: un)
  define t1 where "t1 = (if ud_bucket_count t = 0 \<or> ?s < ud_shifts t
    then allocate_buckets_from_shift (deallocate_buckets (t\<lparr>ud_shifts := ?s\<rparr>)) else t)"
  note A = allocate_ok[OF D(2) s(1,2)]
  have "dense_shape t1 \<and> capacity_ok t1 \<and> ankerl_lf_ok (ud_max_load_factor t1) \<and> length container < length (ud_buckets t1)"
  proof (cases "ud_bucket_count t = 0 \<or> ?s < ud_shifts t")
    case True
    then show ?thesis using A lt D(2) by (simp add: t1_def)
  next
    case False
    then have "unat (ud_shifts t) \<le> unat ?s" by (simp add: word_le_nat_alt not_less)
    then have "(2 :: nat) ^ (64 - unat ?s) \<le> 2 ^ (64 - unat (ud_shifts t))" by (intro power_increasing) simp_all
    from less_le_trans[OF lt this] have "length container < length (ud_buckets t)" using D(4) by (simp only: dense_shape_def)
    then show ?thesis using False D by (simp add: t1_def)
  qed
  then have t1: "dense_shape t1" "capacity_ok t1" "ankerl_lf_ok (ud_max_load_factor t1)" "length container < length (ud_buckets t1)"
    by simp_all
  let ?t = "(clear_buckets t1)\<lparr>ud_values := container\<rparr>"
  have "dense_index cfg ?t 0" by (rule dense_index_values[OF clear_buckets_index[OF t1(1)]]) simp_all
  moreover have "capacity_ok ?t" using t1(2) by (simp add: capacity_ok_def clear_buckets_def)
  ultimately have "\<exists>t'. replace_loop cfg (of_nat 0) ?t = ret t' \<and> dense_ok cfg t' \<and> same_keys cfg (ud_values t') (ud_values ?t)"
    using t1 n by (intro replace_loop_ok) (simp_all add: clear_buckets_def)
  then show ?thesis using small by (simp add: ud_replace_def Let_def t1_def)
qed

section \<open>Tables from a range\<close>

lemma insert_range_map:
  assumes "dmap_ok cfg t m" "ud_key cfg = fst" "card (dom m) + length xs \<le> dense_bound"
  shows "\<exists>t'. ud_insert_range cfg xs t = ret t' \<and> dmap_ok cfg t' (map_of xs ++ m)"
  using assms(1,3)
proof (induction xs arbitrary: t m)
  case Nil
  then show ?case by (simp add: ud_insert_range_def)
next
  case (Cons x xs)
  obtain k v where x: "x = (k, v)" by (cases x)
  define m1 where "m1 = (if m k = None then m(k \<mapsto> v) else m)"
  obtain it t1 where t1: "ud_emplace cfg (k, v) t = ret (it, m k = None, t1)" "dmap_ok cfg t1 m1"
    using emplace_map[OF Cons.prems(1) assms(2), of k v] Cons.prems(2) by (auto simp: m1_def)
  have "finite (dom m)" unfolding dmap_okD(3)[OF Cons.prems(1) assms(2)] by (rule finite_dom_map_of)
  then have "card (dom m1) + length xs \<le> dense_bound" using Cons.prems(2) by (auto simp: m1_def card_insert_if)
  moreover have "map_of xs ++ m1 = map_of (x # xs) ++ m" by (auto simp: m1_def x fun_eq_iff map_add_def split: option.splits)
  ultimately have "\<exists>t'. ud_insert_range cfg xs t1 = ret t' \<and> dmap_ok cfg t' (map_of (x # xs) ++ m)"
    using Cons.IH[OF t1(2)] by (simp only:)
  moreover have "ud_insert_range cfg (x # xs) t = ud_insert_range cfg xs t1"
    using t1(1) by (simp add: ud_insert_range_def x)
  ultimately show ?case by (simp only:)
qed

section \<open>Comparison\<close>

lemma equal_entries_ok:
  assumes ok: "dense_ok cfg a" and key: "ud_key cfg = fst"
  shows "equal_entries cfg a es = Some (\<forall>e \<in> set es. map_of (ud_values a) (fst e) = Some (snd e))"
proof (induction es)
  case (Cons e es)
  show ?case
  proof (cases rule: dense_find_cases[OF ok, where key = "fst e"])
    case (1 v)
    have "distinct (map fst (ud_values a))" using dense_okD(5)[OF ok] by (simp add: key)
    moreover have "(fst e, snd (ud_values a ! v)) \<in> set (ud_values a)" using 1(2,3) key by (metis nth_mem prod.collapse)
    ultimately have "map_of (ud_values a) (fst e) = Some (snd (ud_values a ! v))" by simp
    then show ?thesis using 1 Cons by auto
  next
    case 2
    then have "map_of (ud_values a) (fst e) = None" by (simp add: key map_of_eq_None_iff)
    then show ?thesis using 2 by simp
  qed
qed simp

lemma dense_equal_ok:
  assumes a: "dmap_ok cfg a m" and b: "dmap_ok cfg b m'" and key: "ud_key cfg = fst"
  shows "dense_equal cfg a b = Some (m = m')"
proof -
  note A = dmap_okD[OF a key] and B = dmap_okD[OF b key]
  have sz: "ud_size a = ud_size b \<longleftrightarrow> card (dom m) = card (dom m')"
    using dense_okD(6)[OF A(1)] dense_okD(6)[OF B(1)] by (simp add: A(6) B(6) word_unat_eq_iff unat_ud_size)
  have fin: "finite (dom m)" by (simp add: A(3) finite_dom_map_of)
  have le: "(\<forall>e \<in> set (ud_values b). m (fst e) = Some (snd e)) \<longleftrightarrow> m' \<subseteq>\<^sub>m m"
  proof -
    have "m' (fst e) = Some (snd e)" if "e \<in> set (ud_values b)" for e using that B(3,4) by (simp add: map_of_is_SomeI)
    then have "m (fst e) = Some (snd e)" if "e \<in> set (ud_values b)" "m' \<subseteq>\<^sub>m m" for e
      using that unfolding map_le_def by (metis domI)
    moreover have "m' \<subseteq>\<^sub>m m" if r: "\<forall>e \<in> set (ud_values b). m (fst e) = Some (snd e)"
      unfolding map_le_def
    proof
      fix k assume "k \<in> dom m'"
      then obtain v where v: "m' k = Some v" by blast
      then have "(k, v) \<in> set (ud_values b)" using B(3) by (simp add: map_of_SomeD)
      from bspec[OF r this] show "m' k = m k" by (simp add: v)
    qed
    ultimately show ?thesis by blast
  qed
  have "m = m'" if "m' \<subseteq>\<^sub>m m" "card (dom m) = card (dom m')"
  proof -
    have "dom m' = dom m" using that map_le_implies_dom_le[OF that(1)] card_subset_eq[OF fin] by metis
    then show ?thesis using that(1) by (metis map_le_antisym map_le_def)
  qed
  then have eq: "card (dom m) = card (dom m') \<and> m' \<subseteq>\<^sub>m m \<longleftrightarrow> m = m'" by auto
  show ?thesis unfolding dense_equal_def sz equal_entries_ok[OF A(1) key] A(3)[symmetric] le using eq by auto
qed

section \<open>Histories\<close>

datatype ('k, 'v) dense_op =
  Dense_insert_or_assign 'k 'v | Dense_emplace 'k 'v | Dense_subscript 'k | Dense_erase 'k
| Dense_erase_if "'k \<times> 'v \<Rightarrow> bool" | Dense_erase_all | Dense_clear | Dense_reserve u64 | Dense_rehash u64
| Dense_max_load_factor rat | Dense_copy

fun dense_op_step :: "('k \<times> 'v, 'k) ud_config \<Rightarrow> 'v \<Rightarrow> ('k, 'v) dense_op \<Rightarrow> ('k \<times> 'v) dense \<Rightarrow> ('k \<times> 'v) dense run" where
  "dense_op_step cfg zero (Dense_insert_or_assign k v) t = run_bind (do_insert_or_assign cfg k v t) (\<lambda>(_, _, t). ret t)"
| "dense_op_step cfg zero (Dense_emplace k v) t = run_bind (ud_emplace cfg (k, v) t) (\<lambda>(_, _, t). ret t)"
| "dense_op_step cfg zero (Dense_subscript k) t = run_bind (ud_subscript cfg zero k t) (\<lambda>(_, t). ret t)"
| "dense_op_step cfg zero (Dense_erase k) t = of_loop (map_option snd (ud_erase_key cfg k t))"
| "dense_op_step cfg zero (Dense_erase_if p) t = of_loop (map_option snd (ud_erase_if cfg p t))"
| "dense_op_step cfg zero Dense_erase_all t = of_loop (ud_erase_range cfg 0 (length (ud_values t)) t)"
| "dense_op_step cfg zero Dense_clear t = ret (ud_clear t)"
| "dense_op_step cfg zero (Dense_reserve n) t = ud_reserve cfg n t"
| "dense_op_step cfg zero (Dense_rehash n) t = ud_rehash cfg n t"
| "dense_op_step cfg zero (Dense_max_load_factor ml) t = ret (ud_set_max_load_factor ml t)"
| "dense_op_step cfg zero Dense_copy t = ret (dense_copy t)"

text \<open>What the operation means for the partial function.\<close>

fun dense_op_spec :: "'v \<Rightarrow> ('k, 'v) dense_op \<Rightarrow> ('k \<rightharpoonup> 'v) \<Rightarrow> ('k \<rightharpoonup> 'v)" where
  "dense_op_spec zero (Dense_insert_or_assign k v) m = m(k \<mapsto> v)"
| "dense_op_spec zero (Dense_emplace k v) m = (if m k = None then m(k \<mapsto> v) else m)"
| "dense_op_spec zero (Dense_subscript k) m = (if m k = None then m(k \<mapsto> zero) else m)"
| "dense_op_spec zero (Dense_erase k) m = m(k := None)"
| "dense_op_spec zero (Dense_erase_if p) m = (\<lambda>k. case m k of Some v \<Rightarrow> if p (k, v) then None else Some v | None \<Rightarrow> None)"
| "dense_op_spec zero Dense_erase_all m = Map.empty"
| "dense_op_spec zero Dense_clear m = Map.empty"
| "dense_op_spec zero (Dense_reserve n) m = m"
| "dense_op_spec zero (Dense_rehash n) m = m"
| "dense_op_spec zero (Dense_max_load_factor ml) m = m"
| "dense_op_spec zero Dense_copy m = m"

text \<open>The arguments that the table can take.\<close>

fun dense_op_valid :: "('k, 'v) dense_op \<Rightarrow> bool" where
  "dense_op_valid (Dense_reserve n) \<longleftrightarrow> n \<le> 2 ^ 30"
| "dense_op_valid (Dense_rehash n) \<longleftrightarrow> n \<le> 2 ^ 30"
| "dense_op_valid (Dense_max_load_factor ml) \<longleftrightarrow> 1 / 2 \<le> ml \<and> ml \<le> 125 / 128"
| "dense_op_valid _ \<longleftrightarrow> True"

definition dense_history :: "('k \<times> 'v, 'k) ud_config \<Rightarrow> 'v \<Rightarrow> ('k, 'v) dense_op list \<Rightarrow> ('k \<times> 'v) dense run" where
  "dense_history cfg zero ps = run_bind (dense_new cfg 0) (run_fold (dense_op_step cfg zero) ps)"

definition dense_history_spec :: "'v \<Rightarrow> ('k, 'v) dense_op list \<Rightarrow> ('k \<rightharpoonup> 'v)" where
  "dense_history_spec zero ps = fold (dense_op_spec zero) ps Map.empty"

lemma map_of_mset_filter:
  assumes d: "distinct (map fst xs)" and f: "mset ys = mset (filter (\<lambda>x. \<not> p x) xs)"
  shows "map_of ys = (\<lambda>k. case map_of xs k of Some v \<Rightarrow> if p (k, v) then None else Some v | None \<Rightarrow> None)"
proof
  fix k
  have "mset (map fst ys) = mset (map fst (filter (\<lambda>x. \<not> p x) xs))" using f by simp
  moreover have "distinct (map fst (filter (\<lambda>x. \<not> p x) xs))" using d by (rule distinct_map_filter)
  ultimately have dy: "distinct (map fst ys)" by (metis mset_eq_imp_distinct_iff)
  have s: "set ys = {x \<in> set xs. \<not> p x}" using arg_cong[OF f, of set_mset] by simp
  show "map_of ys k = (case map_of xs k of Some v \<Rightarrow> if p (k, v) then None else Some v | None \<Rightarrow> None)"
  proof (cases "map_of ys k")
    case None
    have False if "map_of xs k = Some v" "\<not> p (k, v)" for v
    proof -
      have "(k, v) \<in> set ys" using that s by (auto dest: map_of_SomeD)
      then have "k \<in> fst ` set ys" by force
      then show False using None by (simp add: map_of_eq_None_iff)
    qed
    then show ?thesis using None by (auto split: option.splits)
  next
    case (Some v)
    then have "(k, v) \<in> set xs" "\<not> p (k, v)" using s by (auto dest: map_of_SomeD)
    then show ?thesis using Some d by simp
  qed
qed

lemma dense_op_step_ok:
  assumes dm: "dmap_ok cfg t m" and key: "ud_key cfg = fst" and small: "card (dom m) < dense_bound" and v: "dense_op_valid p"
  shows "\<exists>t'. dense_op_step cfg zero p t = ret t' \<and> dmap_ok cfg t' (dense_op_spec zero p m)"
proof (cases p)
  case (Dense_insert_or_assign k v)
  then show ?thesis using insert_or_assign_map[OF dm key small, of k v] by auto
next
  case (Dense_emplace k v)
  then show ?thesis using emplace_map[OF dm key small, of k v] by auto
next
  case (Dense_subscript k)
  then show ?thesis using subscript_map[OF dm key small, of zero k] by auto
next
  case (Dense_erase k)
  then show ?thesis using erase_map[OF dm key, of k] by auto
next
  case (Dense_erase_if q)
  then show ?thesis using erase_if_ok[OF dmap_okD(1)[OF dm key], of q] dmap_okD(2,3)[OF dm key]
      map_of_mset_filter[OF dmap_okD(4)[OF dm key]] by (fastforce simp: dmap_ok_def)
next
  case Dense_erase_all
  then show ?thesis using erase_range_ok[OF dmap_okD(1)[OF dm key], of 0 "length (ud_values t)"] dmap_okD(2)[OF dm key]
    by (auto simp: dmap_ok_def)
next
  case Dense_clear
  then show ?thesis using ud_clear_ok[OF dmap_okD(1)[OF dm key]] dmap_okD(2)[OF dm key]
    by (simp add: dmap_ok_def ud_clear_def clear_buckets_def)
next
  case (Dense_reserve n)
  then show ?thesis using ud_reserve_ok[OF dmap_okD(1)[OF dm key] reservable_small[OF dmap_okD(1,2)[OF dm key], of n]] v dm
    by (auto simp: dense_rebuilt_def dmap_ok_def)
next
  case (Dense_rehash n)
  then show ?thesis using ud_rehash_ok[OF dmap_okD(1)[OF dm key] reservable_small[OF dmap_okD(1,2)[OF dm key], of n]] v dm
    by (auto simp: dense_rebuilt_def dmap_ok_def)
next
  case (Dense_max_load_factor ml)
  then show ?thesis using ud_set_max_load_factor_ok[OF dmap_okD(1)[OF dm key], of ml] v dm
    by (auto simp: dmap_ok_def ankerl_lf_ok_def)
next
  case Dense_copy
  then show ?thesis using dense_copy_ok[OF dmap_okD(1)[OF dm key]] dm by (simp add: dmap_ok_def)
qed

lemma dense_op_spec_card:
  assumes fin: "finite (dom m)"
  shows "finite (dom (dense_op_spec z p m)) \<and> card (dom (dense_op_spec z p m)) \<le> Suc (card (dom m))"
proof (cases p)
  case (Dense_erase_if q)
  have "dom (dense_op_spec z p m) \<subseteq> dom m" by (auto simp: Dense_erase_if split: option.splits if_splits)
  then show ?thesis using fin by (meson card_mono finite_subset le_SucI)
qed (use fin in \<open>auto simp: card_insert_if intro: le_SucI card_mono diff_le_self[THEN le_trans] simp del: fun_upd_apply\<close>)

lemma dense_fold_ok:
  assumes "dmap_ok cfg t m" "ud_key cfg = fst" "card (dom m) + length ps \<le> dense_bound" "list_all dense_op_valid ps"
  shows "\<exists>t'. run_fold (dense_op_step cfg zero) ps t = ret t' \<and> dmap_ok cfg t' (fold (dense_op_spec zero) ps m)"
  using assms(1,3,4)
proof (induction ps arbitrary: t m)
  case (Cons p ps)
  have "card (dom m) < dense_bound" "dense_op_valid p" using Cons.prems(2,3) by simp_all
  from dense_op_step_ok[OF Cons.prems(1) assms(2) this] obtain t1 where t1: "dense_op_step cfg zero p t = ret t1"
    "dmap_ok cfg t1 (dense_op_spec zero p m)" by blast
  have "finite (dom m)" unfolding dmap_okD(3)[OF Cons.prems(1) assms(2)] by (rule finite_dom_map_of)
  then have "card (dom (dense_op_spec zero p m)) + length ps \<le> dense_bound"
    using dense_op_spec_card[of m zero p] Cons.prems(2) by simp
  from Cons.IH[OF t1(2) this] Cons.prems(3) t1(1) show ?case by simp
qed auto

lemma dense_new_map: "\<exists>t. dense_new cfg 0 = ret t \<and> dmap_ok cfg t Map.empty"
proof -
  have "1 / 2 \<le> default_max_load_factor"
    using fl_round_bounds(1)[of "8 / 10" 24] unfolding default_max_load_factor_def by simp
  then show ?thesis using dense_new_empty[of cfg] by (auto simp: dmap_ok_def)
qed

lemma dense_history_ok:
  assumes key: "ud_key cfg = fst" and n: "length ps \<le> dense_bound" and v: "list_all dense_op_valid ps"
  shows "\<exists>t. dense_history cfg zero ps = ret t \<and> dmap_ok cfg t (dense_history_spec zero ps)"
proof -
  obtain t where t: "dense_new cfg 0 = ret t" "dmap_ok cfg t Map.empty" using dense_new_map by blast
  from dense_fold_ok[OF t(2) key _ v, of zero] n t(1) show ?thesis
    by (simp add: dense_history_def dense_history_spec_def)
qed

end
