(* ===== verification/AnkerlBench.thy ===== *)
theory AnkerlBench
  imports BenchFailures AnkerlHistory
begin

text \<open>
  \<open>ankerl::unordered_dense::map\<close> as a table of the benchmark: it keeps the contract up to 16777214 keys, where no
  distance in a bucket can overflow, for every hash function and without an exception.
\<close>

type_synonym 'w dtable = "('w word \<times> 'w word) dense"

definition AnkerlMap_class :: "('w::len word \<times> 'w word, 'w word) ud_config \<Rightarrow> ('w word, 'w dtable) table_class" where
  "AnkerlMap_class cfg = Std
     \<lparr>Std_new = dense_new cfg 0, Std_max_load_factor = ud_set_max_load_factor, Std_reserve = ud_reserve cfg,
      Std_clear = (\<lambda>t. ret (ud_clear t)),
      Std_erase_all = (\<lambda>t. of_loop (ud_erase_range cfg 0 (length (ud_values t)) t)),
      Std_bucket_count = ud_bucket_count, Std_size = ud_size, Std_load_factor = ud_load_factor,
      Std_contains = (\<lambda>k t. of_loop (ud_contains cfg t k)),
      Std_erase = (\<lambda>k t. of_loop (ud_erase_key cfg k t)),
      Std_elements = As_map (\<lambda>_ k v t. run_bind (ud_emplace cfg (k, v) t) (\<lambda>(_, b, t). ret (b, t)))
        (\<lambda>t. ret (ud_values t))\<rparr>"

definition ankerl_holds ::
    "('k \<times> 'v, 'k) ud_config \<Rightarrow> ('k \<times> 'v) dense \<Rightarrow> 'k set \<Rightarrow> 'k set \<Rightarrow> nat \<Rightarrow> nat \<Rightarrow> bool" where
  "ankerl_holds cfg t S V r M \<longleftrightarrow>
     dense_ok cfg t \<and> 1 / 2 \<le> ud_max_load_factor t \<and> S = fst ` set (ud_values t) \<and> V \<subseteq> S \<and> card S \<le> M \<and> M \<le> dense_bound"

lemma ankerl_holdsD:
  assumes h: "ankerl_holds cfg t S V r M" and key: "ud_key cfg = fst"
  shows "dense_ok cfg t" "S = dkeys cfg t" "dmap_ok cfg t (map_of (ud_values t))" "dom (map_of (ud_values t)) = S"
    "card S = length (ud_values t)" "finite S" "unat (ud_size t) = card S" "mset (map fst (ud_values t)) = mset_set S"
proof -
  show ok: "dense_ok cfg t" using h by (simp add: ankerl_holds_def)
  show S: "S = dkeys cfg t" using h key by (simp add: ankerl_holds_def)
  show dm: "dmap_ok cfg t (map_of (ud_values t))" using h by (simp add: ankerl_holds_def dmap_ok_def)
  show dom: "dom (map_of (ud_values t)) = S" using dmap_okD(5)[OF dm key] S by simp
  show c: "card S = length (ud_values t)" using dmap_okD(6)[OF dm key] dom by simp
  show "finite S" unfolding S by simp
  show "unat (ud_size t) = card S" using dense_okD(6)[OF ok] c by (simp add: unat_ud_size)
  show "mset (map fst (ud_values t)) = mset_set S"
    using mset_set_set[OF dmap_okD(4)[OF dm key]] S key by simp
qed

lemma ankerl_holds_bounds:
  "ankerl_holds cfg t S V r M \<Longrightarrow> V \<subseteq> S" "ankerl_holds cfg t S V r M \<Longrightarrow> card S \<le> M"
  "ankerl_holds cfg t S V r M \<Longrightarrow> M \<le> dense_bound"
  unfolding ankerl_holds_def by blast+

lemma ankerl_holds_map:
  assumes "dmap_ok cfg t m" "ud_key cfg = fst" "dom m = S" "V \<subseteq> S" "card S \<le> M" "M \<le> dense_bound"
  shows "ankerl_holds cfg t S V r M"
  using assms dmap_okD(1,2,5)[OF assms(1,2)] by (auto simp: ankerl_holds_def)

text \<open>\<open>reserve\<close> with nine tenths of any number that \<open>BenchObjectWrapper\<close> is given.\<close>

lemma bench_reservable:
  assumes "dense_ok cfg t" "ud_max_load_factor t = bench_max_load_factor"
  shows "reservable t (ucast (trunc_u32 (to_double (of_nat (unat (n :: u32)) * to_double (9 / 10)))))"
proof (rule reservable_le)
  define d x :: rat where "d = to_double (9 / 10)" and "x = of_nat (unat n)"
  have "x \<le> 2 ^ 32" unfolding x_def by (rule of_nat_less_2) (rule less_imp_le, rule unat_lt_2p)
  moreover have "0 \<le> x" unfolding x_def by (rule of_nat_0_le_iff)
  ultimately have x: "0 \<le> x" "x \<le> 2 ^ 32" by simp_all
  have d: "0 \<le> d" "d \<le> 9 / 10 * (1 + 1 / 2 ^ 53)" unfolding d_def by (rule fl_round_nonneg fl_round_bounds; simp)+
  have y: "0 \<le> x * d" using x d by simp
  have r: "0 \<le> to_double (x * d)" "to_double (x * d) \<le> x * d * (1 + 1 / 2 ^ 53)"
    by (rule fl_round_nonneg[OF y] fl_round_bounds[OF y]; simp)+
  have "x * d * (1 + 1 / 2 ^ 53) \<le> 2 ^ 32 * (9 / 10 * (1 + 1 / 2 ^ 53)) * (1 + 1 / 2 ^ 53)"
    using x d by (intro mult_right_mono mult_mono) auto
  also have "\<dots> \<le> 3900000000" by simp
  finally have "x * d * (1 + 1 / 2 ^ 53) \<le> 3900000000" .
  then have le: "to_double (x * d) \<le> 3900000000" by (rule order_trans[OF r(2)])
  then have "\<lfloor>to_double (x * d)\<rfloor> \<le> 3900000000" using floor_mono[OF le] by simp
  then have "unat (trunc_u32 (to_double (x * d))) \<le> 3900000000" using r(1) le by (simp add: unat_trunc_u32 nat_le_iff)
  then have "max (unat (ucast (trunc_u32 (to_double (x * d))) :: u64)) dense_bound \<le> 3900000000" by (simp add: dense_bound_def)
  then have "(of_nat (max (unat (ucast (trunc_u32 (to_double (x * d))) :: u64)) dense_bound) :: rat) \<le> of_nat 3900000000"
    by (rule of_nat_mono)
  also have "\<dots> \<le> 2 ^ 32 * ud_max_load_factor t * (99 / 100)" using assms(2) by (simp add: bench_max_load_factor_def)
  finally show "(of_nat (max (unat (ucast (trunc_u32 (to_double (of_nat (unat n) * to_double (9 / 10)))) :: u64)) dense_bound) :: rat)
      \<le> 2 ^ 32 * ud_max_load_factor t * (99 / 100)"
    unfolding x_def d_def .
qed (use dense_okD[OF assms(1)] in simp_all)

lemma ankerl_start:
  assumes key: "ud_key cfg = fst"
  shows "ends False (Init_new (AnkerlMap_class cfg) n) (\<lambda>t. ankerl_holds cfg t {} {} 0 0)"
proof -
  obtain t where t: "dense_new cfg 0 = ret t" "dense_ok cfg t" "ud_values t = []" using dense_new_empty[of cfg] by blast
  let ?t = "ud_set_max_load_factor bench_max_load_factor t"
  have ml: "ankerl_lf_ok bench_max_load_factor" by (simp add: ankerl_lf_ok_def bench_max_load_factor_def)
  note L = ud_set_max_load_factor_ok[OF t(2) ml]
  have h: "ankerl_holds cfg t' {} {} 0 0" if "dense_ok cfg t'" "ud_values t' = []" "ud_max_load_factor t' = bench_max_load_factor" for t'
    using that by (simp add: ankerl_holds_def bench_max_load_factor_def)
  have "dense_rebuilt cfg ?t (ud_reserve cfg (ucast (trunc_u32 (to_double (of_nat (unat n) * to_double (9 / 10))))) ?t)"
    by (rule ud_reserve_ok[OF L(1) bench_reservable[OF L(1,3)]])
  then show ?thesis using h L t(1,3) by (auto simp: Init_new_def AnkerlMap_class_def Let_def dense_rebuilt_def ends_def)
qed

lemma ankerl_reset:
  assumes key: "ud_key cfg = fst" and h: "ankerl_holds cfg t S V q M"
  shows "\<exists>t'. Object_Init (AnkerlMap_class cfg) n True TEST1 (Some t) = ret t' \<and> ankerl_holds cfg t' {} {} 0 0"
proof -
  obtain t' where t': "ud_erase_range cfg 0 (length (ud_values t)) t = Some t'" "dense_ok cfg t'" "ud_values t' = []"
    "ud_max_load_factor t' = ud_max_load_factor t"
    using erase_range_ok[OF ankerl_holdsD(1)[OF h key], of 0 "length (ud_values t)"] by auto
  then show ?thesis using h by (simp add: Object_Init_def AnkerlMap_class_def ankerl_holds_def)
qed

section \<open>The contract\<close>

lemma AnkerlMap_methods:
  "Object_contains (AnkerlMap_class cfg) k t = of_loop (ud_contains cfg t k)"
  "Object_Count (AnkerlMap_class cfg) t = ucast (ud_size t)"
  "Object_remove (AnkerlMap_class cfg) k t = run_bind (of_loop (ud_erase_key cfg k t)) (\<lambda>(n, t). ret (n = 1, t))"
  "Object_keys (AnkerlMap_class cfg) t = ret (map fst (ud_values t))"
  "Object_addends (AnkerlMap_class cfg) t = ret (map snd (ud_values t))"
  "Object_add (AnkerlMap_class cfg) u k i t = run_bind (ud_emplace cfg (k, of_nat i) t) (\<lambda>(_, b, t). ret (b, t))"
  by (auto simp: AnkerlMap_class_def Object_contains_def Object_Count_def Object_remove_def Object_keys_def
    Object_addends_def Object_add_def Let_def)

theorem AnkerlMap_table:
  fixes cfg :: "('w::len word \<times> 'w word, 'w word) ud_config"
  assumes key: "ud_key cfg = fst"
  shows "removal_table (AnkerlMap_class cfg) (ankerl_holds cfg) dense_bound False"
proof -
  note H = ankerl_holdsD[OF _ key]
  have "key_table (AnkerlMap_class cfg) (ankerl_holds cfg) dense_bound False"
  proof (unfold_locales, goal_cases)
    case 1
    show ?case by (simp add: dense_bound_def)
  next
    case (2 t S V q M)
    then show ?case using H(6)[OF 2] ankerl_holds_bounds(1,2)[OF 2] by simp
  next
    case (3 n)
    show ?case by (rule ankerl_start[OF key])
  next
    case (4 t S V q M n)
    then show ?case using ankerl_reset[OF key, of t S V q M n] by (auto simp: ends_def)
  next
    case (5 t S V q M k u i)
    let ?m = "map_of (ud_values t)"
    have none: "?m k = None" using 5(2) H(4)[OF 5(1)] by auto
    obtain it t' where t': "ud_emplace cfg (k, of_nat i) t = ret (it, True, t')" "dmap_ok cfg t' (?m(k \<mapsto> of_nat i))"
      using emplace_map[OF H(3)[OF 5(1)] key, of k "of_nat i"] H(4)[OF 5(1)] 5(3) none by auto
    have "ankerl_holds cfg t' (insert k S) (insert k V) q (max M (Suc (card S)))"
    proof (rule ankerl_holds_map[OF t'(2) key])
      show "insert k V \<subseteq> insert k S" using ankerl_holds_bounds(1)[OF 5(1)] by blast
      show "card (insert k S) \<le> max M (Suc (card S))" using H(6)[OF 5(1)] 5(2) by simp
      show "max M (Suc (card S)) \<le> dense_bound" using ankerl_holds_bounds(3)[OF 5(1)] 5(3) by simp
    qed (use H(4)[OF 5(1)] in simp)
    then show ?case using t'(1) by (simp add: AnkerlMap_methods)
  next
    case (6 t S V q M k i)
    have "k \<in> dkeys cfg t" using ankerl_holds_bounds(1)[OF 6(1)] 6(2) H(2)[OF 6(1)] by blast
    then obtain v where "v < length (ud_values t)" "ud_key cfg (ud_values t ! v) = ud_key cfg (k, of_nat i)"
      using key by (auto simp: in_set_conv_nth)
    from ud_emplace_old[OF H(1)[OF 6(1)] this] show ?case by (simp add: AnkerlMap_methods)
  next
    case (7 t S V q M k)
    then show ?case using contains_ok[OF H(1)[OF 7(1)], of k] H(2)[OF 7(1)] by (simp add: AnkerlMap_methods)
  next
    case (8 t S V q M)
    have "card S \<le> dense_bound" using ankerl_holds_bounds(2,3)[OF 8] by linarith
    then show ?case using H(7)[OF 8] by (simp add: AnkerlMap_methods unsigned_ucast_eq take_bit_eq_mod dense_bound_def)
  next
    case (9 t S V q M)
    then show ?case using H(8)[OF 9] by (simp add: AnkerlMap_methods)
  next
    case (10 t S V q M)
    then show ?case using H(5)[OF 10] by (simp add: AnkerlMap_methods)
  qed
  moreover have "removal_table_axioms (AnkerlMap_class cfg) (ankerl_holds cfg) dense_bound"
  proof (unfold_locales, goal_cases)
    case 1
    show ?case by (simp add: AnkerlMap_class_def isIndex_def)
  next
    case (2 t S V q M k)
    let ?m = "map_of (ud_values t)"
    obtain t' where t': "ud_erase_key cfg k t = Some (if ?m k = None then 0 else 1, t')" "dmap_ok cfg t' (?m(k := None))"
      "?m k = None \<longrightarrow> t' = t" using erase_map[OF H(3)[OF 2(1)] key, of k] by (elim exE conjE)
    have k: "?m k = None \<longleftrightarrow> k \<notin> S" using H(4)[OF 2(1)] by auto
    have "dom (?m(k := None)) = S - {k}" "card (S - {k}) \<le> card S"
      using H(4,6)[OF 2(1)] by (auto intro: card_Diff1_le)
    then have "ankerl_holds cfg t' (S - {k}) {} (Suc q) M"
      using ankerl_holds_bounds(2,3)[OF 2(1)] by (intro ankerl_holds_map[OF t'(2) key]) simp_all
    then show ?case using t'(1,3) k by (auto simp: AnkerlMap_methods)
  qed
  ultimately show ?thesis by (rule removal_table.intro)
qed

interpretation ankerl_map: removal_table "AnkerlMap_class (ankerl_map_config hash av nw)"
  "ankerl_holds (ankerl_map_config hash av nw)" dense_bound False for hash av nw
  by (rule AnkerlMap_table) simp

end
