(* ===== verification/Demo.thy ===== *)
theory Demo
  imports Api
begin

text \<open>
  Concrete tables: the tables of 64-bit keys and values with the default hash functor that the
  constructor makes, and those after a few operations. The theorems are applied to them.
\<close>

definition demo_cfg :: "core_type \<Rightarrow> mode \<Rightarrow> (u64, u64) config" where
  "demo_cfg ty mode = \<lparr>cfg_type = ty, cfg_mode = mode, cfg_fix = False, cfg_hash = Hash_hash Absl,
     cfg_fill = (\<lambda>_. 0xCD), cfg_raw = (\<lambda>_. Entry 0 0), cfg_raw_index = (\<lambda>_. 0)\<rparr>"

definition demo_blank :: "(u64, u64) core" where
  "demo_blank = \<lparr>Capacity = 0, CapacityMask = 0, CapacityMultiplier = 0, CountGrowthLimit = 0,
     load_limit = DEF_LOAD_FACTOR, tags = TagArray_new, entries = EntryArray_new,
     realIndex = EntryArray_new, Count = 0\<rparr>"

definition after_run :: "'a \<Rightarrow> 'a run \<Rightarrow> 'a" where
  "after_run d r = (case r of Some (Inr x) \<Rightarrow> x | _ \<Rightarrow> d)"

lemma after_ret [simp]: "after_run d (ret x) = x"
  by (simp add: after_run_def ret_def)

definition demo_new :: "core_type \<Rightarrow> mode \<Rightarrow> (u64, u64) core" where
  "demo_new ty mode = after_run demo_blank (Core_new (demo_cfg ty mode) demo_blank)"

definition demo_one :: "core_type \<Rightarrow> mode \<Rightarrow> (u64, u64) core" where
  "demo_one ty mode = snd (snd (after_run (False, None, demo_blank)
     (Add (demo_cfg ty mode) False False (\<lambda>_. 70) 7 (demo_new ty mode))))"

lemma demo_cfg_simps [simp]:
  "cfg_type (demo_cfg ty mode) = ty" "cfg_mode (demo_cfg ty mode) = mode" "\<not> cfg_fix (demo_cfg ty mode)"
  "cfg_hash (demo_cfg ty mode) = Hash_hash Absl"
  by (simp_all add: demo_cfg_def)

text \<open>A new table can take entries in every mode.\<close>

lemma empty_ready:
  assumes "core_ok cfg c" "Count c = 0" "coprime 15 (cap c)"
  shows "ready cfg c"
proof -
  have s: "sizes_ok (cfg_mode cfg) c" using core_okD(1)[OF assms(1)] by (rule slots_ok_tags)
  then have ck: "cap_ok (cfg_mode cfg) (unat (Capacity c))" by (simp add: sizes_ok_def)
  have "0 < CountGrowthLimit c"
  proof (cases "Capacity c < MAX_SIZE")
    case True
    have "3000 \<le> unat (growth_limit (Capacity c) (load_limit c))"
      using growth_limit_bounds(2)[OF ck True] sizes_ok_limits[OF s] by blast
    then show ?thesis unfolding limit_of[OF s] word_less_nat_alt by simp
  next
    case False
    then show ?thesis by (simp add: limit_of[OF s] growth_limit_def size_consts)
  qed
  moreover have "16 \<le> cap c" using ck by (simp add: cap_ok_def cap_def)
  ultimately show ?thesis using assms by (simp add: ready_def)
qed

lemma coprime_15_4096: "coprime 15 (4096 :: nat)"
proof -
  have "coprime 15 ((2 :: nat) ^ 12)" by (subst coprime_power_right_iff) simp
  then show ?thesis by simp
qed

lemma new_growable:
  assumes "core_ok cfg c" "unat (Count c) \<le> 2000" "Capacity c = MIN_SIZE"
  shows "growable cfg c"
proof -
  have s: "sizes_ok (cfg_mode cfg) c" using core_okD(1)[OF assms(1)] by (rule slots_ok_tags)
  then have ck: "cap_ok (cfg_mode cfg) (unat (Capacity c))" by (simp add: sizes_ok_def)
  have "Capacity c < MAX_SIZE" by (simp add: assms(3) size_consts)
  then have l: "3000 \<le> unat (CountGrowthLimit c)"
    using growth_limit_bounds(2)[OF ck _] sizes_ok_limits[OF s] limit_of[OF s] by simp
  have "unat (Count c + 1) = unat (Count c) + 1" using assms(2) by (intro unat_add_u32[THEN trans]) simp_all
  then have "Count c + 1 \<noteq> CountGrowthLimit c" using l assms(2) by auto
  then show ?thesis using assms(2) by (simp add: growable_def)
qed

lemma demo_new_facts:
  shows "Core_new (demo_cfg ty mode) demo_blank = ret (demo_new ty mode)"
    "core_ok (demo_cfg ty mode) (demo_new ty mode)" "empty_table (demo_cfg ty mode) (demo_new ty mode)"
    "Count (demo_new ty mode) = 0" "Capacity (demo_new ty mode) = MIN_SIZE"
    "ready (demo_cfg ty mode) (demo_new ty mode)" "growable (demo_cfg ty mode) (demo_new ty mode)"
    "contents (demo_cfg ty mode) (demo_new ty mode) = {#}" "tombstones (demo_new ty mode) = {}"
    "load_limit (demo_new ty mode) = DEF_LOAD_FACTOR"
proof -
  let ?cfg = "demo_cfg ty mode" and ?c = "demo_new ty mode"
  obtain c where c: "Core_new ?cfg demo_blank = ret c" "core_ok ?cfg c" "empty_table ?cfg c" "Count c = 0"
    "Capacity c = MIN_SIZE" "load_limit c = DEF_LOAD_FACTOR"
    using Core_new_ok by blast
  then have [simp]: "?c = c" by (simp add: demo_new_def)
  show "Core_new ?cfg demo_blank = ret ?c" "core_ok ?cfg ?c" "empty_table ?cfg ?c" "Count ?c = 0"
    "Capacity ?c = MIN_SIZE" "load_limit ?c = DEF_LOAD_FACTOR" using c by simp_all
  show "contents ?cfg ?c = {#}" "tombstones ?c = {}" using empty_table_facts[OF c(3)] by simp_all
  have "cap c = 4096" using c(5) by (simp add: cap_def size_consts)
  then show "ready ?cfg ?c" using empty_ready[OF c(2,4)] coprime_15_4096 by simp
  show "growable ?cfg ?c" using new_growable[OF c(2) _ c(5)] c(4) by simp
qed

text \<open>The table with one entry: key 7, and in a map the value 70.\<close>

lemma demo_one_facts:
  assumes "pow2_mode mode"
  shows "core_ok (demo_cfg ty mode) (demo_one ty mode)" "ready (demo_cfg ty mode) (demo_one ty mode)"
    "growable (demo_cfg ty mode) (demo_one ty mode)" "Count (demo_one ty mode) = 1"
    "\<exists>v. contents (demo_cfg ty mode) (demo_one ty mode) = {#Entry 7 v#} \<and> (ty = Type_Map \<longrightarrow> v = 70)"
    "reachable (demo_cfg ty mode) (demo_one ty mode)" "tombstones (demo_one ty mode) = {}"
proof -
  let ?cfg = "demo_cfg ty mode" and ?c = "demo_new ty mode" and ?d = "demo_one ty mode"
  note new = demo_new_facts[of ty mode]
  have "\<not> visible ?cfg ?c 7"
    using visible_in_keys[OF core_okD(1)[OF new(2)]] new(8) by (auto simp: keys_of_def)
  then obtain v out c' where a: "Add ?cfg False False (\<lambda>_. 70) 7 ?c = ret (True, out, c')"
    "added ?cfg (new_entry ?cfg (\<lambda>_. 70) 7 v) ?c c'" "ready ?cfg c'"
    using Add_cases[OF new(6,7), of False False "\<lambda>_. 70" 7] by (metis demo_cfg_simps(3))
  have d: "?d = c'" using a(1) by (simp add: demo_one_def)
  show "core_ok ?cfg ?d" "ready ?cfg ?d" "Count ?d = 1"
    using a(2,3) new(4) by (auto simp: d added_def)
  show "\<exists>v. contents ?cfg ?d = {#Entry 7 v#} \<and> (ty = Type_Map \<longrightarrow> v = 70)"
    using a(2) new(8) by (auto simp: d added_def new_entry_def)
  show "reachable ?cfg ?d"
    unfolding d using reach_step[OF reach_new[OF new(1)] step_Add[OF a(1)]] .
  have "card (tombstones ?d) = 0" using a(2) new(9) by (simp add: d added_def)
  then show "tombstones ?d = {}" by (simp add: tombstones_def)
  show "growable ?cfg ?d"
    using growable_pow2[of ?cfg ?d] assms \<open>Count ?d = 1\<close> by simp
qed

lemma ready_searchable: "ready cfg c \<Longrightarrow> tombstones c = {} \<Longrightarrow> searchable c"
  using readyD[of cfg c] slots_okD(2)[of cfg c] by (simp add: searchable_def)

lemma demo_new_not_hidden: "\<not> hidden (demo_cfg ty mode) (demo_new ty mode) k"
  by (rule no_tombstones_not_hidden[OF core_okD(1)]) (rule demo_new_facts)+

lemma demo_one_not_hidden: "pow2_mode mode \<Longrightarrow> \<not> hidden (demo_cfg ty mode) (demo_one ty mode) k"
  by (rule no_tombstones_not_hidden[OF core_okD(1)]) (rule demo_one_facts; assumption)+

lemma Fast_pow2: "pow2_mode Fast"
  by (simp add: pow2_mode_def)

lemma demo_searchable:
  "searchable (demo_new ty mode)" "pow2_mode mode \<Longrightarrow> searchable (demo_one ty mode)"
  using ready_searchable demo_new_facts(6,9) demo_one_facts(2,7) by blast+

end
