(* ===== verification/Tables.thy ===== *)
theory Tables
  imports Demo
begin

text \<open>
  The properties of the table classes: maps refine finite partial functions, sets refine finite sets,
  indices refine lists without repetitions, and every reachable table satisfies the invariant.
\<close>

section \<open>Removals\<close>

text \<open>A removal leaves room for the next entry.\<close>

lemma removed_ready:
  assumes rem: "removed cfg k c c'" and r: "ready cfg c"
  shows "ready cfg c'"
proof -
  have ss: "same_sizes c c'" and ok: "core_ok cfg c'" and cnt: "Count c' = Count c - 1"
    and ne: "contents cfg c \<noteq> {#}"
    using rem by (auto simp: removed_def)
  have "live c \<noteq> {}" using ne by (auto simp: contents_def)
  moreover have "finite (live c)" by (simp add: live_def)
  ultimately have "0 < card (live c)" by (simp add: card_gt_0_iff)
  then have "Count c \<noteq> 0" using slots_okD(2)[OF readyD(2)[OF r]] by auto
  then have "unat (Count c') = unat (Count c) - 1" by (simp add: cnt unat_minus_one)
  then show ?thesis
    using r ok ss same_sizes_facts(1)[OF ss] by (auto simp: ready_def same_sizes_def word_less_nat_alt)
qed

section \<open>Maps\<close>

lemma new_entry_map [simp]: "cfg_type cfg = Type_Map \<Longrightarrow> new_entry cfg f k v = Entry k (f v)"
  by (simp add: new_entry_def)

lemma Map_Add_ok:
  assumes ty: "cfg_type cfg = Type_Map" and nofix: "\<not> cfg_fix cfg"
    and r: "ready cfg c" "growable cfg c" and m: "is_map cfg c m"
    and seen: "if bUnique then k \<notin> dom m else \<not> hidden cfg c k"
  shows "\<exists>b c'. Map_Add cfg bUnique k v c = ret (b, c') \<and> (b \<longleftrightarrow> m k = None)
    \<and> is_map cfg c' (if b then m(k \<mapsto> v) else m) \<and> ready cfg c'
    \<and> card (tombstones c') \<le> card (tombstones c)"
proof (rule Add_cases[OF r nofix, of bUnique False "\<lambda>_. v" k])
  fix out c'
  assume a: "Add cfg bUnique False (\<lambda>_. v) k c = ret (False, out, c')" "visible cfg c k"
    "if cfg_type cfg = Type_Map \<and> False then updated cfg k (\<lambda>_. v) c c' else c' = c"
  have "k \<in> dom m" using visible_in_keys[OF readyD(2)[OF r(1)] a(2)] is_map_keys[OF m] by simp
  then show ?thesis using a(1,3) m r(1) by (auto simp: Map_Add_def drop_out_def)
next
  fix w out c'
  assume a: "Add cfg bUnique False (\<lambda>_. v) k c = ret (True, out, c')" "bUnique \<or> \<not> visible cfg c k"
    "added cfg (new_entry cfg (\<lambda>_. v) k w) c c'" "ready cfg c'"
  have k: "k \<notin> dom m" using a(2) seen is_map_keys[OF m] by (auto simp: hidden_def split: if_splits)
  then have "is_map cfg c' (m(k \<mapsto> v))" using a(3) ty by (intro is_map_add[OF m k]) (simp add: added_def)
  moreover have "card (tombstones c') \<le> card (tombstones c)" using a(3) by (simp add: added_def)
  ultimately show ?thesis using a(1,4) k by (auto simp: Map_Add_def drop_out_def)
qed

text \<open>C1. \<open>Map::Add\<close> refines the update of a finite partial function: it returns true exactly for a
  key that is not there and then maps it to the value, it leaves the map alone otherwise, and the table
  can take the next entry. With \<open>bUnique\<close> the caller promises a new key; without it no tombstone may
  hide the key.\<close>

theorem Map_Add_refines:
  assumes ty: "cfg_type cfg = Type_Map" and nofix: "\<not> cfg_fix cfg"
    and r: "ready cfg c" "growable cfg c" and m: "is_map cfg c m"
    and seen: "if bUnique then k \<notin> dom m else \<not> hidden cfg c k"
  shows "\<exists>b c'. Map_Add cfg bUnique k v c = ret (b, c') \<and> (b \<longleftrightarrow> m k = None)
    \<and> is_map cfg c' (if b then m(k \<mapsto> v) else m) \<and> ready cfg c'"
  using Map_Add_ok[OF assms] by blast

lemma demo_new_map: "is_map (demo_cfg Type_Map mode) (demo_new Type_Map mode) Map.empty"
  by (simp add: is_map_def demo_new_facts)

lemma demo_one_map:
  assumes "pow2_mode mode"
  shows "is_map (demo_cfg Type_Map mode) (demo_one Type_Map mode) [7 \<mapsto> 70]"
  using demo_one_facts(5)[OF assms, of Type_Map] by (auto simp: is_map_def entry_of_def)

theorem Map_Add_refines_witness:
  "\<exists>c'. Map_Add (demo_cfg Type_Map Fast) False 7 70 (demo_new Type_Map Fast) = ret (True, c')
    \<and> is_map (demo_cfg Type_Map Fast) c' [7 \<mapsto> 70]"
  using Map_Add_refines[of "demo_cfg Type_Map Fast" "demo_new Type_Map Fast" Map.empty False 7 70]
    demo_new_facts(6,7) demo_new_map demo_new_not_hidden by auto

lemma Map_AddOrUpdate_ok:
  assumes ty: "cfg_type cfg = Type_Map" and nofix: "\<not> cfg_fix cfg"
    and r: "ready cfg c" "growable cfg c" and m: "is_map cfg c m" and seen: "\<not> hidden cfg c k"
  shows "\<exists>b c'. Map_AddOrUpdate cfg k v c = ret (b, c') \<and> (b \<longleftrightarrow> m k = None)
    \<and> is_map cfg c' (m(k \<mapsto> v)) \<and> ready cfg c'
    \<and> card (tombstones c') \<le> card (tombstones c)"
proof (rule Add_cases[OF r nofix, of False True "\<lambda>_. v" k])
  fix out c'
  assume a: "Add cfg False True (\<lambda>_. v) k c = ret (False, out, c')" "visible cfg c k"
    "if cfg_type cfg = Type_Map \<and> True then updated cfg k (\<lambda>_. v) c c' else c' = c"
  have k: "k \<in> dom m" using visible_in_keys[OF readyD(2)[OF r(1)] a(2)] is_map_keys[OF m] by simp
  have u: "updated cfg k (\<lambda>_. v) c c'" using a(3) ty by simp
  then have "is_map cfg c' (m(k \<mapsto> v))" using is_map_upd[OF m] by (auto simp: updated_def)
  moreover have "ready cfg c'"
    using u r(1) by (auto simp: updated_def ready_def same_sizes_facts(1)) (simp add: same_sizes_def)
  moreover have "tombstones c' = tombstones c"
    using u same_sizes_facts(1)[of c c'] by (simp add: updated_def tombstones_def tag_at_def)
  ultimately show ?thesis using a(1) k by (auto simp: Map_AddOrUpdate_def drop_out_def)
next
  fix w out c'
  assume a: "Add cfg False True (\<lambda>_. v) k c = ret (True, out, c')" "False \<or> \<not> visible cfg c k"
    "added cfg (new_entry cfg (\<lambda>_. v) k w) c c'" "ready cfg c'"
  have k: "k \<notin> dom m" using a(2) seen is_map_keys[OF m] by (auto simp: hidden_def)
  then have "is_map cfg c' (m(k \<mapsto> v))" using a(3) ty by (intro is_map_add[OF m k]) (simp add: added_def)
  moreover have "card (tombstones c') \<le> card (tombstones c)" using a(3) by (simp add: added_def)
  ultimately show ?thesis using a(1,4) k by (auto simp: Map_AddOrUpdate_def drop_out_def)
qed

text \<open>C2. \<open>Map::AddOrUpdate\<close> maps the key to the value, whether or not it was there, and returns true
  exactly if it was not.\<close>

theorem Map_AddOrUpdate_refines:
  assumes ty: "cfg_type cfg = Type_Map" and nofix: "\<not> cfg_fix cfg"
    and r: "ready cfg c" "growable cfg c" and m: "is_map cfg c m" and seen: "\<not> hidden cfg c k"
  shows "\<exists>b c'. Map_AddOrUpdate cfg k v c = ret (b, c') \<and> (b \<longleftrightarrow> m k = None)
    \<and> is_map cfg c' (m(k \<mapsto> v)) \<and> ready cfg c'"
  using Map_AddOrUpdate_ok[OF assms] by blast

theorem Map_AddOrUpdate_refines_witness:
  "\<exists>c'. Map_AddOrUpdate (demo_cfg Type_Map Fast) 7 71 (demo_one Type_Map Fast) = ret (False, c')
    \<and> is_map (demo_cfg Type_Map Fast) c' [7 \<mapsto> 71]"
  using Map_AddOrUpdate_refines[of "demo_cfg Type_Map Fast" "demo_one Type_Map Fast" "[7 \<mapsto> 70]" 7 71]
    demo_one_facts(2,3)[OF Fast_pow2, of Type_Map] demo_one_map[OF Fast_pow2]
    demo_one_not_hidden[OF Fast_pow2] by auto

lemma Map_lookup:
  assumes ty: "cfg_type cfg = Type_Map" and nofix: "\<not> cfg_fix cfg"
    and ok: "core_ok cfg c" "searchable c" and m: "is_map cfg c m"
  shows "Map_TryGetValue cfg c k = Some (m k) \<and> Contains cfg c k = Some (k \<in> dom m)"
proof -
  have so: "slots_ok cfg c" by (rule core_okD[OF ok(1)])
  obtain r where r: "FindSlot cfg c k = Some r" by (rule FindSlot_total[OF so ok(2)])
  note f = FindSlot_correct[OF so nofix r]
  have "Contains cfg c k = Some (k \<in> dom m)"
    using f(1) r is_map_keys[OF m] by (simp add: Contains_FindSlot)
  moreover have "map_option (\<lambda>s. evalue (slot_entry cfg c (unat s))) r = m k"
  proof (cases r)
    case None
    then have "k \<notin> dom m" using f(1) is_map_keys[OF m, of k] by simp
    then show ?thesis using None by (auto simp: domIff)
  next
    case (Some s)
    then have "unat s \<in> live c" "ekey (slot_entry cfg c (unat s)) = k" using f(2) by (auto simp: slot_key_entry)
    then show ?thesis
      using Some is_map_entry[OF m, of "slot_entry cfg c (unat s)"] slot_in_contents[of "unat s" c cfg] by simp
  qed
  ultimately show ?thesis by (simp add: TryGetValue_eq[OF ty] r)
qed

text \<open>C3. \<open>Map::TryGetValue\<close> and \<open>Contains\<close> read the map: when enough slots are empty they return,
  with the value of the key if it has one.\<close>

theorem Map_lookup_refines:
  assumes ty: "cfg_type cfg = Type_Map" and nofix: "\<not> cfg_fix cfg"
    and ok: "core_ok cfg c" "searchable c" and m: "is_map cfg c m"
  shows "Map_TryGetValue cfg c k = Some (m k) \<and> Contains cfg c k = Some (k \<in> dom m)"
  using Map_lookup[OF assms] by blast

theorem Map_lookup_refines_witness:
  "Map_TryGetValue (demo_cfg Type_Map Fast) (demo_one Type_Map Fast) 7 = Some (Some 70)
    \<and> Contains (demo_cfg Type_Map Fast) (demo_one Type_Map Fast) 7 = Some True"
  using Map_lookup_refines[of "demo_cfg Type_Map Fast" "demo_one Type_Map Fast" "[7 \<mapsto> 70]" 7]
    demo_one_facts(1)[OF Fast_pow2] demo_searchable(2)[OF Fast_pow2] demo_one_map[OF Fast_pow2] by simp

lemma Map_Remove_ok:
  assumes ty: "cfg_type cfg = Type_Map" and nofix: "\<not> cfg_fix cfg"
    and ok: "core_ok cfg c" "searchable c" and m: "is_map cfg c m"
  shows "\<exists>b c'. Remove cfg c k = Some (b, c') \<and> (b \<longleftrightarrow> m k \<noteq> None) \<and> is_map cfg c' (m(k := None))
    \<and> core_ok cfg c' \<and> (ready cfg c \<longrightarrow> ready cfg c') \<and> card (tombstones c') = card (tombstones c) + (if b then 1 else 0)"
proof -
  have so: "slots_ok cfg c" by (rule core_okD[OF ok(1)])
  obtain q where q: "FindSlot cfg c k = Some q" by (rule FindSlot_total[OF so ok(2)])
  then obtain b c' where r: "Remove cfg c k = Some (b, c')"
    by (cases "the (Remove cfg c k)") (auto simp: Remove_def FindEntry_def)
  have ni: "cfg_type cfg \<noteq> Type_Index" using ty by simp
  note rc = Remove_correct[OF ni ok(1) nofix r]
  show ?thesis
  proof (cases b)
    case True
    with rc have rem: "removed cfg k c c'" "k \<in> dom m" using is_map_keys[OF m] by auto
    then have "is_map cfg c' (m(k := None))" using is_map_del[OF m] by (auto simp: removed_def)
    with r rem True show ?thesis using removed_ready[OF rem(1)] by (auto simp: removed_def)
  next
    case False
    with rc have "c' = c" "m k = None" using is_map_keys[OF m] by auto
    with r False m ok(1) show ?thesis by (auto simp: fun_upd_idem)
  qed
qed

text \<open>C4. \<open>Map::Remove\<close> removes the key from the map, returns whether it was there, and keeps the
  invariant; the number of tombstones grows by one if it was.\<close>

theorem Map_Remove_refines:
  assumes ty: "cfg_type cfg = Type_Map" and nofix: "\<not> cfg_fix cfg"
    and ok: "core_ok cfg c" "searchable c" and m: "is_map cfg c m"
  shows "\<exists>b c'. Remove cfg c k = Some (b, c') \<and> (b \<longleftrightarrow> m k \<noteq> None) \<and> is_map cfg c' (m(k := None))
    \<and> core_ok cfg c' \<and> card (tombstones c') = card (tombstones c) + (if b then 1 else 0)"
  using Map_Remove_ok[OF assms] by blast

theorem Map_Remove_refines_witness:
  "\<exists>c'. Remove (demo_cfg Type_Map Fast) (demo_one Type_Map Fast) 7 = Some (True, c')
    \<and> is_map (demo_cfg Type_Map Fast) c' Map.empty \<and> card (tombstones c') = 1"
  using Map_Remove_refines[of "demo_cfg Type_Map Fast" "demo_one Type_Map Fast" "[7 \<mapsto> 70]" 7]
    demo_one_facts(1)[OF Fast_pow2] demo_searchable(2)[OF Fast_pow2] demo_one_map[OF Fast_pow2]
    demo_one_facts(7)[OF Fast_pow2, of Type_Map] by auto

section \<open>Sets\<close>

lemma added_set:
  assumes "is_set cfg c S" "k \<notin> S" "added cfg (new_entry cfg f k v) c c'"
  shows "is_set cfg c' (insert k S)"
  using assms by (simp add: is_set_def added_def keys_of_def new_entry_def)

lemma Set_Add_ok:
  assumes ty: "cfg_type cfg = Type_Set" and nofix: "\<not> cfg_fix cfg"
    and r: "ready cfg c" "growable cfg c" and S: "is_set cfg c S"
    and seen: "if bUnique then k \<notin> S else \<not> hidden cfg c k"
  shows "\<exists>b c'. Set_Add cfg bUnique k c = ret (b, c') \<and> (b \<longleftrightarrow> k \<notin> S)
    \<and> is_set cfg c' (insert k S) \<and> ready cfg c'
    \<and> card (tombstones c') \<le> card (tombstones c)"
proof -
  have key: "k \<in># keys_of cfg c \<longleftrightarrow> k \<in> S" using S by (simp add: is_set_def)
  show ?thesis
  proof (rule Add_cases[OF r nofix, of bUnique False id k])
    fix out c'
    assume a: "Add cfg bUnique False id k c = ret (False, out, c')" "visible cfg c k"
      "if cfg_type cfg = Type_Map \<and> False then updated cfg k id c c' else c' = c"
    have "k \<in> S" using visible_in_keys[OF readyD(2)[OF r(1)] a(2)] key by simp
    then show ?thesis using a(1,3) S r(1) by (auto simp: Set_Add_def drop_out_def insert_absorb)
  next
    fix w out c'
    assume a: "Add cfg bUnique False id k c = ret (True, out, c')" "bUnique \<or> \<not> visible cfg c k"
      "added cfg (new_entry cfg id k w) c c'" "ready cfg c'"
    have k: "k \<notin> S" using a(2) seen key by (auto simp: hidden_def split: if_splits)
    moreover have "card (tombstones c') \<le> card (tombstones c)" using a(3) by (simp add: added_def)
    ultimately show ?thesis using a(1,4) added_set[OF S k a(3)] by (auto simp: Set_Add_def drop_out_def)
  qed
qed

lemma demo_new_set: "is_set (demo_cfg Type_Set mode) (demo_new Type_Set mode) {}"
  by (simp add: is_set_def keys_of_def demo_new_facts)

lemma demo_one_set: "pow2_mode mode \<Longrightarrow> is_set (demo_cfg Type_Set mode) (demo_one Type_Set mode) {7}"
  using demo_one_facts(5)[of mode Type_Set] by (auto simp: is_set_def keys_of_def)

lemma Set_Remove_ok:
  assumes ty: "cfg_type cfg = Type_Set" and nofix: "\<not> cfg_fix cfg"
    and ok: "core_ok cfg c" "searchable c" and S: "is_set cfg c S"
  shows "Contains cfg c k = Some (k \<in> S)
    \<and> (\<exists>c'. Remove cfg c k = Some (k \<in> S, c') \<and> is_set cfg c' (S - {k}) \<and> core_ok cfg c'
      \<and> (ready cfg c \<longrightarrow> ready cfg c') \<and> card (tombstones c') \<le> card (tombstones c) + 1)"
proof -
  have so: "slots_ok cfg c" by (rule core_okD[OF ok(1)])
  have key: "k \<in># keys_of cfg c \<longleftrightarrow> k \<in> S" using S by (simp add: is_set_def)
  obtain q where q: "FindSlot cfg c k = Some q" by (rule FindSlot_total[OF so ok(2)])
  have con: "Contains cfg c k = Some (k \<in> S)"
    using FindSlot_correct(1)[OF so nofix q] q key by (simp add: Contains_FindSlot)
  obtain b c' where r: "Remove cfg c k = Some (b, c')"
    using q by (cases "the (Remove cfg c k)") (auto simp: Remove_def FindEntry_def)
  have ni: "cfg_type cfg \<noteq> Type_Index" using ty by simp
  note rc = Remove_correct[OF ni ok(1) nofix r]
  have "is_set cfg c' (S - {k}) \<and> core_ok cfg c' \<and> (ready cfg c \<longrightarrow> ready cfg c')
    \<and> card (tombstones c') \<le> card (tombstones c) + 1"
  proof (cases b)
    case True
    then have "removed cfg k c c'" by (rule rc(2))
    from removed_keys[OF this] this S removed_ready[OF this] show ?thesis
      by (simp add: is_set_def removed_def mset_set_Diff)
  next
    case False
    with rc key S ok(1) show ?thesis by auto
  qed
  with con r rc(1) key show ?thesis by auto
qed

text \<open>C12. The operations of a set are those of a finite set: \<open>Set::Add\<close> inserts the key and returns
  whether it was new (with \<open>bUnique\<close> the caller promises that; without it no tombstone may hide the key),
  \<open>Contains\<close> tests membership, and \<open>Remove\<close> deletes the key and returns whether it was there. After
  each the table can take the next key.\<close>

theorem Set_operations_refine:
  assumes ty: "cfg_type cfg = Type_Set" and nofix: "\<not> cfg_fix cfg"
    and r: "ready cfg c" "growable cfg c" "searchable c" and S: "is_set cfg c S"
  shows "((if bUnique then k \<notin> S else \<not> hidden cfg c k) \<longrightarrow>
      (\<exists>c'. Set_Add cfg bUnique k c = ret (k \<notin> S, c') \<and> is_set cfg c' (insert k S) \<and> ready cfg c'))
    \<and> Contains cfg c k = Some (k \<in> S)
    \<and> (\<exists>c'. Remove cfg c k = Some (k \<in> S, c') \<and> is_set cfg c' (S - {k}) \<and> ready cfg c')"
  using Set_Add_ok[OF ty nofix r(1,2) S, of bUnique k] Set_Remove_ok[OF ty nofix readyD(1)[OF r(1)] r(3) S, of k] r(1)
  by blast

theorem Set_operations_refine_witness:
  "(\<exists>c'. Set_Add (demo_cfg Type_Set Fast) False 8 (demo_one Type_Set Fast) = ret (True, c')
      \<and> is_set (demo_cfg Type_Set Fast) c' {8, 7})
    \<and> (\<exists>c'. Remove (demo_cfg Type_Set Fast) (demo_one Type_Set Fast) 7 = Some (True, c')
      \<and> is_set (demo_cfg Type_Set Fast) c' {})"
  using Set_operations_refine[of "demo_cfg Type_Set Fast" "demo_one Type_Set Fast" "{7}" False 8]
    Set_operations_refine[of "demo_cfg Type_Set Fast" "demo_one Type_Set Fast" "{7}" False 7]
    demo_one_facts(2,3)[OF Fast_pow2, of Type_Set] demo_one_set[OF Fast_pow2]
    demo_searchable(2)[OF Fast_pow2] demo_one_not_hidden[OF Fast_pow2] by auto

section \<open>Indices\<close>

lemma ucast_u32_u64_u32: "ucast (ucast (x :: u32) :: u64) = x"
  by (rule bit_word_eqI) (auto simp: bit_simps)

lemma added_index:
  assumes i: "is_index cfg c ks" and k: "k \<notin> set ks" and a: "added cfg (new_entry cfg f k v) c c'"
  shows "is_index cfg c' (ks @ [k])"
proof -
  have "index_entries c' = index_entries c @ [new_entry cfg f k v]"
    using i a by (simp add: is_index_def added_def)
  then show ?thesis using i k a by (auto simp: is_index_def added_def core_ok_def new_entry_def)
qed

lemma index_key_nth:
  assumes "is_index cfg c ks" "p < Count c" "ekey (index_entries c ! unat p) = k"
  shows "unat p < length ks" "ks ! unat p = k"
  using assms is_index_keys(2)[OF assms(1)]
  by (auto simp: is_index_def index_entries_def word_less_nat_alt)

lemma Index_TryAdd_ok:
  assumes ty: "cfg_type cfg = Type_Index" and nofix: "\<not> cfg_fix cfg"
    and r: "ready cfg c" "growable cfg c" and i: "is_index cfg c ks" and seen: "\<not> hidden cfg c k"
  shows "\<exists>b p c'. Index_TryAdd cfg k c = ret (b, Some p, c') \<and> (b \<longleftrightarrow> k \<notin> set ks)
    \<and> is_index cfg c' (if b then ks @ [k] else ks)
    \<and> (if b then unat p = length ks else unat p < length ks \<and> ks ! unat p = k) \<and> ready cfg c'
    \<and> card (tombstones c') \<le> card (tombstones c)"
proof -
  have key: "k \<in># keys_of cfg c \<longleftrightarrow> k \<in> set ks" using is_index_keys(1)[OF i] by simp
  show ?thesis
  proof (rule Add_cases[OF r nofix, of False True id k])
    fix out c'
    assume a: "Add cfg False True id k c = ret (False, out, c')" "visible cfg c k"
      "if cfg_type cfg = Type_Map \<and> True then updated cfg k id c c' else c' = c"
      "if cfg_type cfg = Type_Index \<and> True
       then \<exists>p. out = Some p \<and> p < Count c \<and> ekey (index_entries c ! unat p) = k else out = None"
    then obtain p where p: "out = Some p" "p < Count c" "ekey (index_entries c ! unat p) = k" using ty by auto
    have "k \<in> set ks" using visible_in_keys[OF readyD(2)[OF r(1)] a(2)] key by simp
    then show ?thesis using a(1,3) p(1) index_key_nth[OF i p(2,3)] i r(1) ty by (auto simp: Index_TryAdd_def)
  next
    fix w out c'
    assume a: "Add cfg False True id k c = ret (True, out, c')" "False \<or> \<not> visible cfg c k"
      "added cfg (new_entry cfg id k w) c c'" "ready cfg c'"
      "out = (if cfg_type cfg = Type_Index \<and> True then Some (Count c) else None)"
    have k: "k \<notin> set ks" using a(2) seen key by (auto simp: hidden_def)
    moreover have "card (tombstones c') \<le> card (tombstones c)" using a(3) by (simp add: added_def)
    ultimately show ?thesis
      using a(1,4,5) added_index[OF i k a(3)] is_index_keys(2)[OF i] ty by (auto simp: Index_TryAdd_def)
  qed
qed

text \<open>C10. \<open>Index::TryAdd\<close> appends a new key to the list of keys and gives its position, the number of
  keys before it; for a key that is there it returns false with the position the key has. The
  position of a key never changes: the list only grows at its end.\<close>

theorem Index_TryAdd_refines:
  assumes ty: "cfg_type cfg = Type_Index" and nofix: "\<not> cfg_fix cfg"
    and r: "ready cfg c" "growable cfg c" and i: "is_index cfg c ks" and seen: "\<not> hidden cfg c k"
  shows "\<exists>b p c'. Index_TryAdd cfg k c = ret (b, Some p, c') \<and> (b \<longleftrightarrow> k \<notin> set ks)
    \<and> is_index cfg c' (if b then ks @ [k] else ks)
    \<and> (if b then unat p = length ks else unat p < length ks \<and> ks ! unat p = k) \<and> ready cfg c'"
  using Index_TryAdd_ok[OF assms] by blast

lemma demo_new_index: "is_index (demo_cfg Type_Index mode) (demo_new Type_Index mode) []"
  using core_okD(2)[OF demo_new_facts(2)] by (simp add: is_index_def index_entries_def demo_new_facts)

lemma demo_one_index:
  assumes "pow2_mode mode"
  shows "is_index (demo_cfg Type_Index mode) (demo_one Type_Index mode) [7]"
proof -
  let ?cfg = "demo_cfg Type_Index mode" and ?d = "demo_one Type_Index mode"
  note f = demo_one_facts[OF assms, of Type_Index]
  have st: "store_ok ?cfg ?d" by (rule core_okD[OF f(1)])
  then have "contents ?cfg ?d = mset (index_entries ?d)"
    by (intro index_contents) (simp_all add: store_ok_def)
  moreover obtain v where "contents ?cfg ?d = {#Entry 7 v#}" using f(5) by blast
  ultimately have "index_entries ?d = [Entry 7 v]" by (metis mset_single_iff_right)
  then show ?thesis using st by (simp add: is_index_def)
qed

theorem Index_TryAdd_refines_witness:
  "\<exists>p c'. Index_TryAdd (demo_cfg Type_Index Fast) 9 (demo_one Type_Index Fast) = ret (True, Some p, c')
    \<and> unat p = 1 \<and> is_index (demo_cfg Type_Index Fast) c' [7, 9]"
  using Index_TryAdd_refines[of "demo_cfg Type_Index Fast" "demo_one Type_Index Fast" "[7]" 9]
    demo_one_facts(2,3)[OF Fast_pow2, of Type_Index] demo_one_index[OF Fast_pow2]
    demo_one_not_hidden[OF Fast_pow2] by auto

lemma Index_lookup:
  assumes ty: "cfg_type cfg = Type_Index" and nofix: "\<not> cfg_fix cfg"
    and ok: "core_ok cfg c" "searchable c" and i: "is_index cfg c ks"
  shows "\<exists>r. Index_TryGetIndex cfg c k = Some r \<and> (r \<noteq> None \<longleftrightarrow> k \<in> set ks)
    \<and> (\<forall>p. r = Some p \<longrightarrow> unat p < length ks \<and> ks ! unat p = k)
    \<and> Contains cfg c k = Some (k \<in> set ks)"
proof -
  have so: "slots_ok cfg c" by (rule core_okD[OF ok(1)])
  obtain q where q: "FindSlot cfg c k = Some q" by (rule FindSlot_total[OF so ok(2)])
  note f = FindSlot_correct[OF so nofix q]
  have key: "k \<in># keys_of cfg c \<longleftrightarrow> k \<in> set ks" using is_index_keys(1)[OF i] by simp
  have r: "Index_TryGetIndex cfg c k = Some (map_option (\<lambda>s. EntryArray_get (realIndex c) s) q)"
    using ty q 
    by (cases q) (simp_all add: Index_TryGetIndex_def FindEntry_def real_index_def ucast_u32_u64_u32)
  have "unat p < length ks \<and> ks ! unat p = k" if "map_option (\<lambda>s. EntryArray_get (realIndex c) s) q = Some p" for p
  proof -
    from that obtain s where s: "q = Some s" "p = EntryArray_get (realIndex c) s" by auto
    then have "unat s \<in> live c" "slot_key cfg c (unat s) = k" using f(2) by auto
    with index_position[OF ty ok(1)] have "p < Count c" "ekey (index_entries c ! unat p) = k"
      using s(2) by (auto simp: word_less_nat_alt slot_key_entry)
    then show ?thesis using index_key_nth[OF i] by blast
  qed
  moreover have "Contains cfg c k = Some (k \<in> set ks)" using f(1) q key by (simp add: Contains_FindSlot)
  ultimately show ?thesis using r f(1) key by (auto simp: )
qed

text \<open>\<open>Index::TryGetIndex\<close> gives the position of a key that is there and nothing for another key;
  \<open>Contains\<close> tells the two apart.\<close>

theorem Index_TryGetIndex_refines:
  assumes ty: "cfg_type cfg = Type_Index" and nofix: "\<not> cfg_fix cfg"
    and ok: "core_ok cfg c" "searchable c" and i: "is_index cfg c ks"
  shows "\<exists>r. Index_TryGetIndex cfg c k = Some r \<and> (r \<noteq> None \<longleftrightarrow> k \<in> set ks)
    \<and> (\<forall>p. r = Some p \<longrightarrow> unat p < length ks \<and> ks ! unat p = k)
    \<and> Contains cfg c k = Some (k \<in> set ks)"
  using Index_lookup[OF assms] by blast

theorem Index_TryGetIndex_refines_witness:
  "\<exists>p. Index_TryGetIndex (demo_cfg Type_Index Fast) (demo_one Type_Index Fast) 7 = Some (Some p) \<and> unat p = 0"
  using Index_TryGetIndex_refines[of "demo_cfg Type_Index Fast" "demo_one Type_Index Fast" "[7]" 7]
    demo_one_facts(1)[OF Fast_pow2] demo_searchable(2)[OF Fast_pow2] demo_one_index[OF Fast_pow2] by auto

section \<open>Every reachable table\<close>

text \<open>C5. Take any mode and any sequence of public operations with any arguments (additions with and
  without update, removals and rehashes of maps and sets, resizes, clears, changes of the load factor),
  starting from a new table whatever its uninitialised members were. If every operation of the sequence
  returns, then the invariant holds after each: the count is the number of slots in use, every entry
  carries the tag of its hash and is found where a search for its key looks, and the entry arrays have the
  size of the table. (An operation can also fail an assertion or search for ever; then there is no table
  to speak of.)\<close>

theorem reachable_core_ok:
  assumes "reachable cfg c"
  shows "core_ok cfg c"
  using assms by (rule reachable_ok)

theorem reachable_core_ok_witness: "core_ok (demo_cfg Type_Map Fast) (demo_one Type_Map Fast)"
  by (rule reachable_core_ok) (simp add: demo_one_facts pow2_mode_def)

text \<open>C13. \<open>Rehash\<close> of a map or set. With no entries it does nothing, so tombstones stay. Otherwise it
  never fails an assertion, and when it returns the entries are the same, the capacity is the same and
  no tombstone is left; it does return when 16 slots are unused and the capacity is coprime to 15.\<close>

theorem Rehash_reclaims:
  assumes "core_ok cfg c" "cfg_type cfg \<noteq> Type_Index"
  shows "if Count c = 0 then Rehash cfg c = ret c
    else (\<forall>e. Rehash cfg c \<noteq> abort e)
      \<and> (\<forall>c'. Rehash cfg c = ret c' \<longrightarrow> core_ok cfg c' \<and> contents cfg c' = contents cfg c
           \<and> tombstones c' = {} \<and> Capacity c' = Capacity c)
      \<and> (unat (Count c) + 16 \<le> cap c \<and> coprime 15 (cap c) \<longrightarrow> (\<exists>c'. Rehash cfg c = ret c'))"
proof (cases "Count c = 0")
  case False
  show ?thesis
    unfolding if_not_P[OF False]
    using Rehash_outcome[OF assms False] unfolding returns_if_iff same_entries_def same_sizes_def roomy_def by blast
qed (simp add: Rehash_zero)

theorem Rehash_reclaims_witness:
  "\<exists>c'. Rehash (demo_cfg Type_Map Fast) (demo_one Type_Map Fast) = ret c' \<and> tombstones c' = {}
    \<and> contents (demo_cfg Type_Map Fast) c' = contents (demo_cfg Type_Map Fast) (demo_one Type_Map Fast)"
proof -
  let ?cfg = "demo_cfg Type_Map Fast" and ?d = "demo_one Type_Map Fast"
  note f = demo_one_facts[OF Fast_pow2, of Type_Map]
  have nz: "Count ?d \<noteq> 0" and room: "unat (Count ?d) + 16 \<le> cap ?d" "coprime 15 (cap ?d)"
    using f readyD[OF f(2)] by simp_all
  have "cfg_type ?cfg \<noteq> Type_Index" by simp
  from Rehash_reclaims[OF f(1) this] room show ?thesis unfolding if_not_P[OF nz] by blast
qed

text \<open>What \<open>Resize\<close> does when the capacity has to grow.\<close>

lemma Resize_growth:
  assumes ok: "core_ok cfg c" and gr: "Capacity c < AdjustCapacity (cfg_mode cfg) sz"
    and only: "cfg_mode cfg = ResizeOnlyEmpty \<Longrightarrow> Count c = 0"
  shows "(\<forall>e. Resize cfg sz c \<noteq> abort e)
    \<and> (\<forall>c'. Resize cfg sz c = ret c' \<longrightarrow> core_ok cfg c' \<and> contents cfg c' = contents cfg c
         \<and> (cfg_type cfg = Type_Index \<longrightarrow> index_entries c' = index_entries c)
         \<and> Capacity c' = AdjustCapacity (cfg_mode cfg) sz \<and> tombstones c' = {})
    \<and> (Count c = 0 \<or> pow2_mode (cfg_mode cfg) \<or> coprime 15 (unat (AdjustCapacity (cfg_mode cfg) sz)) \<longrightarrow>
       (\<exists>c'. Resize cfg sz c = ret c'))"
  using Resize_outcome[OF ok gr only] AdjustCapacity_coprime[of "cfg_mode cfg" sz]
  unfolding returns_if_iff same_entries_def by blast

text \<open>C14. \<open>Resize\<close> in every mode. It does nothing when the capacity computed for the argument is smaller
  than the present one. Otherwise \<open>Mode::ResizeOnlyEmpty\<close> fails its assertion unless the table is empty,
  and in all other cases nothing fails: an equal capacity leaves the table as it is, and a larger one
  becomes the capacity of the table, which keeps its entries (an index their positions too) and has
  no tombstones. Growing returns when the table is empty, when the mode takes powers of two, or
  when the new capacity is coprime to 15; in the other cases the statement is about a call that returns.\<close>

theorem Resize_keeps_contents:
  assumes "core_ok cfg c"
  shows "if AdjustCapacity (cfg_mode cfg) sz < Capacity c then Resize cfg sz c = ret c
    else if cfg_mode cfg = ResizeOnlyEmpty \<and> Count c \<noteq> 0 then Resize cfg sz c = abort Resize_only_empty
    else if AdjustCapacity (cfg_mode cfg) sz = Capacity c then Resize cfg sz c = ret c
    else (\<forall>e. Resize cfg sz c \<noteq> abort e)
      \<and> (\<forall>c'. Resize cfg sz c = ret c' \<longrightarrow> core_ok cfg c' \<and> contents cfg c' = contents cfg c
           \<and> (cfg_type cfg = Type_Index \<longrightarrow> index_entries c' = index_entries c)
           \<and> Capacity c' = AdjustCapacity (cfg_mode cfg) sz \<and> tombstones c' = {})
      \<and> (Count c = 0 \<or> pow2_mode (cfg_mode cfg) \<or> coprime 15 (unat (AdjustCapacity (cfg_mode cfg) sz)) \<longrightarrow>
         (\<exists>c'. Resize cfg sz c = ret c'))"
proof -
  consider "AdjustCapacity (cfg_mode cfg) sz < Capacity c" | "AdjustCapacity (cfg_mode cfg) sz = Capacity c"
    | "Capacity c < AdjustCapacity (cfg_mode cfg) sz" by (meson linorder_cases)
  then show ?thesis
  proof cases
    case 1
    then show ?thesis by (simp add: Resize_smaller)
  next
    case 2
    then show ?thesis
      using Resize_equal[OF core_okD(1)[OF assms] 2] Resize_only_empty_aborts[of cfg c sz] by auto
  next
    case 3
    then have "\<not> AdjustCapacity (cfg_mode cfg) sz < Capacity c" "AdjustCapacity (cfg_mode cfg) sz \<noteq> Capacity c" by auto
    with Resize_only_empty_aborts[of cfg c sz] Resize_growth[OF assms 3] show ?thesis
      using 3 by (cases "cfg_mode cfg = ResizeOnlyEmpty \<and> Count c \<noteq> 0") auto
  qed
qed

theorem Resize_keeps_contents_witness:
  "\<exists>c'. Resize (demo_cfg Type_Map Fast) 100000 (demo_one Type_Map Fast) = ret c'
    \<and> contents (demo_cfg Type_Map Fast) c' = contents (demo_cfg Type_Map Fast) (demo_one Type_Map Fast)"
  using Resize_keeps_contents[of "demo_cfg Type_Map Fast" "demo_one Type_Map Fast" 100000]
    demo_one_facts(1)[OF Fast_pow2] Fast_pow2 by (auto simp: split: if_splits)

text \<open>C17. \<open>Clear\<close> empties the table. It keeps the capacity when no size is given, it grows when the size
  asks for more, and it aborts when the size asks for less, because an entry array cannot shrink.\<close>

theorem Clear_outcomes:
  assumes "core_ok cfg c"
  shows "if sz = 0 \<or> Capacity c \<le> AdjustCapacity (cfg_mode cfg) sz
    then \<exists>c'. Clear cfg sz c = ret c' \<and> core_ok cfg c' \<and> contents cfg c' = {#} \<and> Count c' = 0
      \<and> tombstones c' = {} \<and> Capacity c' = (if sz = 0 then Capacity c else AdjustCapacity (cfg_mode cfg) sz)
    else Clear cfg sz c = abort Entry_size_grows"
proof (cases "sz = 0 \<or> AdjustCapacity (cfg_mode cfg) sz = Capacity c")
  case True
  from Clear_same[OF assms True] True show ?thesis using empty_table_facts(3,4) by fastforce
next
  case False
  then have nz: "0 < sz" by (simp add: word_neq_0_conv)
  show ?thesis
  proof (cases "Capacity c < AdjustCapacity (cfg_mode cfg) sz")
    case True
    from Clear_bigger[OF assms nz True] True nz show ?thesis using empty_table_facts(3,4) by fastforce
  next
    case 2: False
    with False have lt: "AdjustCapacity (cfg_mode cfg) sz < Capacity c"
      by (auto simp: not_less order_le_less)
    from Clear_smaller[OF assms nz lt] lt False show ?thesis by simp
  qed
qed

theorem Clear_outcomes_witness:
  "\<exists>c'. Clear (demo_cfg Type_Map Fast) 0 (demo_one Type_Map Fast) = ret c'
    \<and> contents (demo_cfg Type_Map Fast) c' = {#}"
  using Clear_outcomes[OF demo_one_facts(1)[OF Fast_pow2, of Type_Map], of 0] by auto

end
