(* ===== verification/Iterator.thy ===== *)
theory Iterator
  imports Demo
begin

text \<open>
  \<open>ConstIterator\<close>: the entries of a map or set in the order of their slots, found with registers of
  16, 32 or 64 tags, and those of an index in the order of their positions. \<open>iterate\<close> is the range-based
  \<open>for\<close> over a table. The masks are loaded with \<open>Mode::Align\<close>, which faults at an address that is not a
  multiple of the register's size: a load that is not aligned, or not in the tag array, is None.
\<close>

record 'w iter =
  it_idx :: u32
  it_base :: u32
  it_mask :: 'w

definition CalcMask :: "nat \<Rightarrow> ('k, 'v) core \<Rightarrow> u32 \<Rightarrow> 'm::len word option" where
  "CalcMask sz c base =
     (if access_ok Mode_Align sz (unat base) (ta_bytes (tags c))
      then Some (GetNonEmptyMask sz (LoadVector sz (ta_bytes (tags c)) (unat base)))
      else None)"

text \<open>The \<open>while (true)\<close> of \<open>Seek\<close>; the inner \<open>while (_mask)\<close> returns in its first turn.\<close>

partial_function (option) seek_loop ::
    "nat \<Rightarrow> ('k, 'v) core \<Rightarrow> u32 \<Rightarrow> 'm::len word \<Rightarrow> 'm word iter option" where
  "seek_loop sz c base msk =
     (if msk \<noteq> 0 then
        Some \<lparr>it_idx = base + TrailingZeroCount False msk, it_base = base, it_mask = ResetLowestSetBit msk\<rparr>
      else let base = base + of_nat sz in
        if base \<ge> ta_size (tags c) then Some \<lparr>it_idx = base, it_base = base, it_mask = msk\<rparr>
        else Option.bind (CalcMask sz c base) (\<lambda>msk. seek_loop sz c base msk))"

declare seek_loop.simps [code]

definition Seek :: "('k, 'v) config \<Rightarrow> nat \<Rightarrow> ('k, 'v) core \<Rightarrow> 'm::len word iter \<Rightarrow> 'm word iter option" where
  "Seek cfg sz c it =
     (if cfg_type cfg \<noteq> Type_Index then seek_loop sz c (it_base it) (it_mask it)
      else Some (it\<lparr>it_idx := it_idx it + 1\<rparr>))"

definition iter_begin :: "('k, 'v) config \<Rightarrow> nat \<Rightarrow> ('k, 'v) core \<Rightarrow> 'm::len word iter option" where
  "iter_begin cfg sz c =
     (let it = \<lparr>it_idx = 0, it_base = 0, it_mask = 0\<rparr> in
      if cfg_type cfg \<noteq> Type_Index \<and> Count c \<noteq> 0
      then Option.bind (CalcMask sz c (it_base it)) (\<lambda>msk. Seek cfg sz c (it\<lparr>it_mask := msk\<rparr>))
      else Some it)"

definition iter_end :: "('k, 'v) config \<Rightarrow> ('k, 'v) core \<Rightarrow> 'm::len word iter" where
  "iter_end cfg c =
     (let idx = if Count c \<noteq> 0 then Capacity c else 0;
          it = \<lparr>it_idx = idx, it_base = idx, it_mask = 0\<rparr>
      in if cfg_type cfg = Type_Index then it\<lparr>it_idx := Count c\<rparr> else it)"

definition iter_get :: "('k, 'v) core \<Rightarrow> 'm::len word iter \<Rightarrow> ('k, 'v) entry" where
  "iter_get c it = EntryArray_get (entries c) (ucast (it_idx it))"

partial_function (option) iterate_from ::
    "('k, 'v) config \<Rightarrow> nat \<Rightarrow> ('k, 'v) core \<Rightarrow> 'm::len word iter \<Rightarrow> ('k, 'v) entry list option" where
  "iterate_from cfg sz c it =
     (if it_idx it = it_idx (iter_end cfg c :: 'm word iter) then Some []
      else Option.bind (Seek cfg sz c it) (\<lambda>next_it.
        Option.bind (iterate_from cfg sz c next_it) (\<lambda>es. Some (iter_get c it # es))))"

declare iterate_from.simps [code]

definition iterate :: "'m::len itself \<Rightarrow> ('k, 'v) config \<Rightarrow> nat \<Rightarrow> ('k, 'v) core \<Rightarrow> ('k, 'v) entry list option" where
  "iterate _ cfg sz c = Option.bind (iter_begin cfg sz c :: 'm word iter option) (iterate_from cfg sz c)"

section \<open>The slots still to come\<close>

definition to_come :: "nat \<Rightarrow> ('k, 'v) core \<Rightarrow> nat \<Rightarrow> 'm::len word \<Rightarrow> nat list" where
  "to_come sz c b msk = map (\<lambda>j. b + j) (filter (bit msk) [0..<sz])
     @ filter (\<lambda>i. is_full (tag_at c i)) [b + sz..<cap c]"

text \<open>The mask of the tags at a base.\<close>

definition full_mask :: "nat \<Rightarrow> ('k, 'v) core \<Rightarrow> u32 \<Rightarrow> 'm::len word" where
  "full_mask sz c base = GetNonEmptyMask sz (LoadVector sz (ta_bytes (tags c)) (unat base))"

lemma CalcMask_aligned:
  assumes "table_ok cfg c" "sz dvd unat base" "unat base + sz \<le> cap c"
  shows "CalcMask sz c base = Some (full_mask sz c base :: 'm::len word)"
proof -
  have "length (ta_bytes (tags c)) = cap c + SIZE"
    using assms(1) by (simp add: table_ok_def tags_ok_def cap_def)
  then show ?thesis using assms(2,3) by (simp add: CalcMask_def full_mask_def access_ok_def)
qed

lemma bit_full_mask:
  assumes "sz \<le> LENGTH('m)"
  shows "bit (full_mask sz c base :: 'm::len word) j \<longleftrightarrow> j < sz \<and> is_full (tag_at c (unat base + j))"
  unfolding full_mask_def
  by (subst bit_GetNonEmptyMask[OF _ assms]) (auto simp: is_full_def tag_at_def)

lemma to_come_full_mask:
  assumes "sz \<le> LENGTH('m)" "unat base + sz \<le> cap c"
  shows "to_come sz c (unat base) (full_mask sz c base :: 'm::len word)
    = filter (\<lambda>i. is_full (tag_at c i)) [unat base..<cap c]"
proof -
  let ?full = "\<lambda>i. is_full (tag_at c i)"
  have "[unat base..<unat base + sz] = map (\<lambda>j. unat base + j) [0..<sz]"
    using map_add_upt[of "unat base" sz] by (simp add: add.commute)
  then have "filter ?full [unat base..<unat base + sz] = map (\<lambda>j. unat base + j) (filter (\<lambda>j. ?full (unat base + j)) [0..<sz])"
    by (simp add: filter_map comp_def)
  also have "filter (\<lambda>j. ?full (unat base + j)) [0..<sz] = filter (bit (full_mask sz c base :: 'm word)) [0..<sz]"
    by (rule filter_cong) (auto simp: bit_full_mask[OF assms(1)])
  finally have "filter ?full [unat base..<unat base + sz]
      = map (\<lambda>j. unat base + j) (filter (bit (full_mask sz c base :: 'm word)) [0..<sz])" .
  moreover have "[unat base..<cap c] = [unat base..<unat base + sz] @ [unat base + sz..<cap c]"
    using assms(2) by (metis le_add1 le_add_diff_inverse upt_add_eq_append)
  ultimately show ?thesis by (simp add: to_come_def)
qed

lemma filter_upt_first:
  assumes "k < n" "P k" "\<And>i. i < k \<Longrightarrow> \<not> P i"
  shows "filter P [0..<n] = k # filter (\<lambda>i. P i \<and> i \<noteq> k) [0..<n]"
proof -
  have "[0..<n] = [0..<k] @ k # [Suc k..<n]"
    using assms(1) by (metis add_0 le_eq_less_or_eq upt_add_eq_append upt_conv_Cons zero_le le_add_diff_inverse)
  moreover have "filter P [0..<k] = []" "filter (\<lambda>i. P i \<and> i \<noteq> k) [0..<k] = []"
    using assms(3) by (auto simp: filter_empty_conv)
  moreover have "filter (\<lambda>i. P i \<and> i \<noteq> k) [Suc k..<n] = filter P [Suc k..<n]"
    by (rule filter_cong) auto
  ultimately show ?thesis using assms(2) by simp
qed

lemma to_come_step:
  assumes "msk \<noteq> 0" "\<And>j. bit msk j \<Longrightarrow> j < sz"
  shows "to_come sz c b msk = (b + lowest_bit msk) # to_come sz c b (ResetLowestSetBit msk)"
proof -
  note l = lowest_bit[OF assms(1)]
  have "filter (bit (ResetLowestSetBit msk)) [0..<sz] = filter (\<lambda>i. bit msk i \<and> i \<noteq> lowest_bit msk) [0..<sz]"
    by (rule filter_cong) (simp_all add: bit_ResetLowestSetBit[OF assms(1)])
  then show ?thesis
    using filter_upt_first[of "lowest_bit msk" sz "bit msk"] l assms(2) by (auto simp: to_come_def)
qed

text \<open>A state of the iterator whose mask is for its base.\<close>

definition iter_ok :: "nat \<Rightarrow> ('k, 'v) core \<Rightarrow> u32 \<Rightarrow> 'm::len word \<Rightarrow> bool" where
  "iter_ok sz c base msk \<longleftrightarrow> sz dvd unat base \<and> unat base + sz \<le> cap c \<and> (\<forall>j. bit msk j \<longrightarrow> j < sz)"

definition vector_ok :: "nat \<Rightarrow> 'm::len itself \<Rightarrow> bool" where
  "vector_ok sz _ \<longleftrightarrow> (sz = 16 \<or> sz = 32 \<or> sz = 64) \<and> sz \<le> LENGTH('m) \<and> LENGTH('m) \<le> 64"

lemma vector_ok_dvd:
  assumes "vector_ok sz t" "table_ok cfg c"
  shows "sz dvd cap c" "0 < sz" "sz \<le> 64" "cap c \<le> 2 ^ 31" "ta_size (tags c) = Capacity c"
proof -
  have c: "4096 dvd cap c" using assms(2) by (auto simp: table_ok_def sizes_ok_def cap_ok_def cap_def)
  have "sz dvd 4096" using assms(1) by (auto simp: vector_ok_def)
  then show "sz dvd cap c" using c by (rule dvd_trans)
  show "0 < sz" "sz \<le> 64" using assms(1) by (auto simp: vector_ok_def)
  show "cap c \<le> 2 ^ 31" "ta_size (tags c) = Capacity c" using assms(2) table_ok_cap by (auto simp: table_ok_def)
qed

text \<open>\<open>Seek\<close> goes to the next slot in use, or to the end if there is none.\<close>

lemma seek_loop_next:
  fixes msk :: "'m::len word"
  assumes v: "vector_ok sz TYPE('m)" and tok: "table_ok cfg c" and i: "iter_ok sz c base msk"
  shows "case to_come sz c (unat base) msk of
      [] \<Rightarrow> \<exists>it. seek_loop sz c base msk = Some it \<and> it_idx it = Capacity c
    | x # xs \<Rightarrow> \<exists>it. seek_loop sz c base msk = Some it \<and> unat (it_idx it) = x
        \<and> iter_ok sz c (it_base it) (it_mask it) \<and> to_come sz c (unat (it_base it)) (it_mask it) = xs"
  using i
proof (induction "cap c - unat base" arbitrary: base msk rule: less_induct)
  case less
  note d = vector_ok_dvd[OF v tok]
  have len: "sz \<le> LENGTH('m)" "LENGTH('m) \<le> 64" using v by (auto simp: vector_ok_def)
  have b: "unat base + sz \<le> cap c" "sz dvd unat base" using less.prems by (auto simp: iter_ok_def)
  show ?case
  proof (cases "msk = 0")
    case False
    have bits: "\<And>j. bit msk j \<Longrightarrow> j < sz" using less.prems by (simp add: iter_ok_def)
    then have l: "lowest_bit msk < sz" using bit_lowest_bit[OF False] by blast
    have u: "unat (TrailingZeroCount False msk) = lowest_bit msk"
      using l d(3) by (simp add: TrailingZeroCount_nofix unat_of_nat)
    then have "unat base + unat (TrailingZeroCount False msk) < 2 ^ 32" using b(1) l d(4) by simp
    then have idx: "unat (base + TrailingZeroCount False msk) = unat base + lowest_bit msk"
      using u by (simp only: unat_add_u32)
    have "iter_ok sz c base (ResetLowestSetBit msk)"
      using less.prems bit_ResetLowestSetBit[OF False] by (simp add: iter_ok_def)
    moreover have "to_come sz c (unat base) msk
        = (unat base + lowest_bit msk) # to_come sz c (unat base) (ResetLowestSetBit msk)"
      by (rule to_come_step[OF False bits])
    moreover have "seek_loop sz c base msk = Some \<lparr>it_idx = base + TrailingZeroCount False msk,
        it_base = base, it_mask = ResetLowestSetBit msk\<rparr>"
      using False by (subst seek_loop.simps) simp
    ultimately show ?thesis using idx by simp
  next
    case True
    let ?b = "base + of_nat sz"
    have "unat (of_nat sz :: u32) = sz" using d(3) by (simp add: unat_of_nat)
    then have ub: "unat ?b = unat base + sz" using b(1) d(4) by (subst unat_add_u32) simp_all
    have rest: "to_come sz c (unat base) msk = filter (\<lambda>i. is_full (tag_at c i)) [unat ?b..<cap c]"
      by (simp add: to_come_def True ub)
    show ?thesis
    proof (cases "?b \<ge> ta_size (tags c)")
      case end_reached: True
      then have "unat ?b = cap c" using ub b(1) d(5) by (simp add: word_le_nat_alt cap_def)
      then have "?b = Capacity c" using unsigned_word_eqI unfolding cap_def by blast
      moreover have "seek_loop sz c base msk = Some \<lparr>it_idx = ?b, it_base = ?b, it_mask = msk\<rparr>"
        using True end_reached by (subst seek_loop.simps) (simp add: Let_def)
      ultimately show ?thesis using \<open>unat ?b = cap c\<close> unfolding rest by simp
    next
      case False
      then have lt: "unat ?b < cap c" using d(5) by (simp add: word_le_nat_alt cap_def)
      have dv: "sz dvd unat ?b" using b(2) ub by simp
      obtain m n where "cap c = sz * m" "unat ?b = sz * n" using d(1) dv by (auto elim!: dvdE)
      with lt have "n < m" by simp
      then have "Suc n \<le> m" by simp
      then have "sz * Suc n \<le> sz * m" by (rule mult_le_mono2)
      then have fit: "unat ?b + sz \<le> cap c" using \<open>cap c = sz * m\<close> \<open>unat ?b = sz * n\<close> by simp
      have ok: "iter_ok sz c ?b (full_mask sz c ?b :: 'm word)"
        using dv fit by (simp add: iter_ok_def bit_full_mask[OF len(1)])
      have "cap c - unat ?b < cap c - unat base" using lt ub d(2) by simp
      note IH = less.hyps[OF this ok, unfolded to_come_full_mask[OF len(1) fit]]
      have run: "seek_loop sz c base msk = seek_loop sz c ?b (full_mask sz c ?b)"
        using True False CalcMask_aligned[OF tok dv fit, where 'm = 'm] by (subst seek_loop.simps) (simp add: Let_def)
      show ?thesis unfolding rest run by (rule IH)
    qed
  qed
qed

text \<open>From a slot in use on, the loop visits that slot and those still to come.\<close>

lemma iterate_from_list:
  fixes it :: "'m::len word iter"
  assumes v: "vector_ok sz TYPE('m)" and tok: "table_ok cfg c" and ty: "cfg_type cfg \<noteq> Type_Index"
    and nz: "Count c \<noteq> 0" and x: "unat (it_idx it) < cap c" and i: "iter_ok sz c (it_base it) (it_mask it)"
  shows "iterate_from cfg sz c it = Some (map (slot_entry cfg c)
    (unat (it_idx it) # to_come sz c (unat (it_base it)) (it_mask it)))"
  using x i
proof (induction "to_come sz c (unat (it_base it)) (it_mask it)" arbitrary: it)
  case Nil
  have e: "it_idx (iter_end cfg c :: 'm word iter) = Capacity c" using nz ty by (simp add: iter_end_def Let_def)
  have ne: "it_idx it \<noteq> Capacity c" using Nil.prems(1) by (auto simp: cap_def)
  obtain nx where nx: "seek_loop sz c (it_base it) (it_mask it) = Some nx" "it_idx nx = Capacity c"
    using seek_loop_next[OF v tok Nil.prems(2)] Nil.hyps by (auto split: list.splits)
  have "iterate_from cfg sz c nx = Some []" by (subst iterate_from.simps) (simp add: e nx(2))
  then show ?case
    using ty ne nx(1) Nil.hyps
    by (subst iterate_from.simps) (simp add: e Seek_def iter_get_def slot_entry_get[OF ty])
next
  case (Cons y ys)
  have e: "it_idx (iter_end cfg c :: 'm word iter) = Capacity c" using nz ty by (simp add: iter_end_def Let_def)
  have ne: "it_idx it \<noteq> Capacity c" using Cons.prems(1) by (auto simp: cap_def)
  obtain nx where nx: "seek_loop sz c (it_base it) (it_mask it) = Some nx" "unat (it_idx nx) = y"
    "iter_ok sz c (it_base nx) (it_mask nx)" "to_come sz c (unat (it_base nx)) (it_mask nx) = ys"
    using seek_loop_next[OF v tok Cons.prems(2)] Cons.hyps(2) by (auto split: list.splits)
  have "y \<in> set (to_come sz c (unat (it_base it)) (it_mask it))" by (simp flip: Cons.hyps(2))
  then have "y < cap c" using Cons.prems(2) by (auto simp: to_come_def iter_ok_def)
  then have "iterate_from cfg sz c nx = Some (map (slot_entry cfg c) (y # ys))"
    using Cons.hyps(1)[of nx] nx(2-4) by simp
  then show ?case
    using ty ne nx(1) by (subst iterate_from.simps)
      (simp add: e Seek_def iter_get_def slot_entry_get[OF ty] flip: Cons.hyps(2))
qed

lemma iterate_plain:
  assumes v: "vector_ok sz TYPE('m::len)" and ok: "slots_ok cfg c" and ty: "cfg_type cfg \<noteq> Type_Index"
  shows "iterate TYPE('m) cfg sz c = Some (map (slot_entry cfg c) (filter (\<lambda>i. is_full (tag_at c i)) [0..<cap c]))"
proof -
  have tok: "table_ok cfg c" by (rule slots_okD[OF ok])
  note d = vector_ok_dvd[OF v tok]
  have len: "sz \<le> LENGTH('m)" using v by (auto simp: vector_ok_def)
  define full where "full = filter (\<lambda>i. is_full (tag_at c i)) [0..<cap c]"
  have card: "length full = card (live c)"
  proof -
    have "live c = set full" by (auto simp: live_def full_def)
    moreover have "distinct full" by (simp add: full_def)
    ultimately show ?thesis by (simp only: distinct_card)
  qed
  show ?thesis
  proof (cases "Count c = 0")
    case True
    then have "full = []" using slots_okD(2)[OF ok] card by simp
    moreover have "iterate TYPE('m) cfg sz c = Some []"
      using True ty by (simp add: iterate_def iter_begin_def Let_def)
        (subst iterate_from.simps, simp add: iter_end_def Let_def True ty)
    ultimately show ?thesis by (simp add: full_def)
  next
    case False
    have fit: "unat (0 :: u32) + sz \<le> cap c" using d(3) table_ok_cap[OF tok] by simp
    have ok0: "iter_ok sz c 0 (full_mask sz c 0 :: 'm word)"
      using fit by (simp add: iter_ok_def bit_full_mask[OF len])
    have come: "to_come sz c (unat (0 :: u32)) (full_mask sz c 0 :: 'm word) = full"
      using to_come_full_mask[OF len fit] by (simp add: full_def)
    have "unat (Count c) \<noteq> 0" using False by (metis unsigned_0 unsigned_word_eqI)
    then have "full \<noteq> []" using card slots_okD(2)[OF ok] by auto
    then obtain x xs where full: "full = x # xs" by (cases full) auto
    obtain it where it: "seek_loop sz c 0 (full_mask sz c 0 :: 'm word) = Some it" "unat (it_idx it) = x"
      "iter_ok sz c (it_base it) (it_mask it)" "to_come sz c (unat (it_base it)) (it_mask it) = xs"
      using seek_loop_next[OF v tok ok0] unfolding come full by auto
    have "x \<in> set full" by (simp add: full)
    then have "x < cap c" by (simp add: full_def)
    then have "iterate_from cfg sz c it = Some (map (slot_entry cfg c) full)"
      using iterate_from_list[OF v tok ty False, of it] it by (simp add: full)
    moreover have "iter_begin cfg sz c = Some it"
      using it(1) False ty CalcMask_aligned[OF tok _ fit, where 'm = 'm] by (simp add: iter_begin_def Seek_def Let_def)
    ultimately show ?thesis by (simp add: iterate_def full_def)
  qed
qed

lemma iterate_from_index:
  fixes it :: "'m::len word iter"
  assumes ty: "cfg_type cfg = Type_Index" and i: "unat (it_idx it) \<le> unat (Count c)"
  shows "iterate_from cfg sz c it = Some (map (ea.cell (entries c)) [unat (it_idx it)..<unat (Count c)])"
  using i
proof (induction "unat (Count c) - unat (it_idx it)" arbitrary: it)
  case 0
  then have "unat (it_idx it) = unat (Count c)" by simp
  then have "it_idx it = Count c" by (rule unsigned_word_eqI)
  then show ?case using ty by (subst iterate_from.simps) (simp add: iter_end_def Let_def)
next
  case (Suc n)
  let ?nx = "it\<lparr>it_idx := it_idx it + 1\<rparr>"
  have lt: "unat (it_idx it) < unat (Count c)" using Suc.hyps(2) by simp
  then have ne: "it_idx it \<noteq> Count c" by auto
  have "unat (it_idx it) + unat (1 :: u32) < 2 ^ 32" using lt unat_lt_2p(1)[of "Count c"] by simp
  then have u: "unat (it_idx it + 1) = unat (it_idx it) + 1" by (simp only: unat_add_u32) simp
  have "iterate_from cfg sz c ?nx = Some (map (ea.cell (entries c)) [unat (it_idx it) + 1..<unat (Count c)])"
    using Suc.hyps(1)[of ?nx] Suc.hyps(2) lt u by simp
  moreover have "[unat (it_idx it)..<unat (Count c)] = unat (it_idx it) # [unat (it_idx it) + 1..<unat (Count c)]"
    using lt by (simp add: upt_conv_Cons)
  ultimately show ?case
    using ty ne by (subst iterate_from.simps)
      (simp add: iter_end_def Let_def Seek_def iter_get_def ea.cell_get)
qed

section \<open>The range-based for loop\<close>

definition slot_list :: "('k, 'v) config \<Rightarrow> ('k, 'v) core \<Rightarrow> ('k, 'v) entry list" where
  "slot_list cfg c = (if cfg_type cfg = Type_Index then index_entries c
     else map (slot_entry cfg c) (sorted_list_of_set (live c)))"

lemma iterate_slots:
  assumes "core_ok cfg c" "vector_ok sz TYPE('m::len)"
  shows "iterate TYPE('m) cfg sz c = Some (slot_list cfg c)"
proof (cases "cfg_type cfg = Type_Index")
  case True
  then show ?thesis
    using iterate_from_index[OF True, of "\<lparr>it_idx = 0, it_base = 0, it_mask = 0 :: 'm word\<rparr>" c sz]
    by (simp add: iterate_def iter_begin_def Let_def index_entries_def slot_list_def)
next
  case False
  have "sorted_list_of_set (live c) = filter (\<lambda>i. is_full (tag_at c i)) [0..<cap c]"
    by (rule sorted_distinct_set_unique) (auto simp: live_def sorted_wrt_filter)
  then show ?thesis using iterate_plain[OF assms(2) core_okD(1)[OF assms(1)] False] False by (simp add: slot_list_def)
qed

lemma slot_list_contents:
  assumes "core_ok cfg c"
  shows "mset (slot_list cfg c) = contents cfg c"
proof (cases "cfg_type cfg = Type_Index")
  case True
  have "contents cfg c = mset (index_entries c)"
    using core_okD(2)[OF assms] True by (intro index_contents) (simp_all add: store_ok_def)
  then show ?thesis using True by (simp add: slot_list_def)
next
  case False
  have "finite (live c)" by (simp add: live_def)
  then have "mset (sorted_list_of_set (live c)) = mset_set (live c)" by (metis mset_set_set distinct_sorted_list_of_set set_sorted_list_of_set)
  then show ?thesis using False by (simp add: slot_list_def contents_def)
qed

text \<open>C15. The iterator of a map or set, with registers of 16, 32 or 64 tags, visits the entries of the
  table and nothing else, each slot in use once in ascending order, and the loop ends. For an index it
  visits the entries in the order of their positions.\<close>

theorem iterator_visits_contents:
  assumes "core_ok cfg c" "vector_ok sz TYPE('m::len)"
  shows "\<exists>es. iterate TYPE('m) cfg sz c = Some es \<and> mset es = contents cfg c
    \<and> (if cfg_type cfg = Type_Index then es = index_entries c
       else es = map (slot_entry cfg c) (sorted_list_of_set (live c)))"
  using iterate_slots[OF assms] slot_list_contents[OF assms(1)] by (simp add: slot_list_def)

theorem iterator_visits_contents_witness:
  "\<exists>es. iterate TYPE(64) (demo_cfg Type_Map Fast) 64 (demo_one Type_Map Fast) = Some es \<and> es = [Entry 7 70]"
proof -
  let ?cfg = "demo_cfg Type_Map Fast" and ?d = "demo_one Type_Map Fast"
  obtain es where es: "iterate TYPE(64) ?cfg 64 ?d = Some es" "mset es = contents ?cfg ?d"
    using iterator_visits_contents[OF demo_one_facts(1)[OF Fast_pow2, of Type_Map], of 64, where 'm = 64]
    by (auto simp: vector_ok_def)
  moreover have "contents ?cfg ?d = {#Entry 7 70#}" using demo_one_facts(5)[OF Fast_pow2, of Type_Map] by auto
  ultimately show ?thesis by (simp add: mset_single_iff)
qed

section \<open>The states of the loop\<close>

text \<open>The iterators the range-based \<open>for\<close> gets to.\<close>

inductive iter_state :: "('k, 'v) config \<Rightarrow> nat \<Rightarrow> ('k, 'v) core \<Rightarrow> 'm::len word iter \<Rightarrow> bool" for cfg sz c where
  iter_first: "iter_begin cfg sz c = Some it \<Longrightarrow> iter_state cfg sz c it"
| iter_next: "iter_state cfg sz c it \<Longrightarrow> it_idx it \<noteq> it_idx (iter_end cfg c :: 'm word iter) \<Longrightarrow>
    Seek cfg sz c it = Some it' \<Longrightarrow> iter_state cfg sz c it'"

text \<open>At the end, or at a slot in use with a mask whose slots are in use.\<close>

definition iter_stands :: "('k, 'v) config \<Rightarrow> nat \<Rightarrow> ('k, 'v) core \<Rightarrow> 'm::len word iter \<Rightarrow> bool" where
  "iter_stands cfg sz c it \<longleftrightarrow> it_idx it = it_idx (iter_end cfg c :: 'm word iter)
     \<or> unat (it_idx it) \<in> live c \<and> iter_ok sz c (it_base it) (it_mask it)
       \<and> set (to_come sz c (unat (it_base it)) (it_mask it)) \<subseteq> live c"

lemma seek_stands:
  fixes msk :: "'m::len word"
  assumes "vector_ok sz TYPE('m)" "table_ok cfg c" "iter_ok sz c base msk" "cfg_type cfg \<noteq> Type_Index"
    "Count c \<noteq> 0" "set (to_come sz c (unat base) msk) \<subseteq> live c"
  shows "\<exists>it. seek_loop sz c base msk = Some it \<and> iter_stands cfg sz c it"
  using seek_loop_next[OF assms(1-3)] assms(4-6)
  by (cases "to_come sz c (unat base) msk") (auto simp: iter_stands_def iter_end_def Let_def)

lemma begin_stands:
  assumes v: "vector_ok sz TYPE('m::len)" and tok: "table_ok cfg c" and ty: "cfg_type cfg \<noteq> Type_Index"
  shows "\<exists>it :: 'm word iter. iter_begin cfg sz c = Some it \<and> iter_stands cfg sz c it"
proof (cases "Count c = 0")
  case True
  then show ?thesis using ty by (simp add: iter_begin_def iter_stands_def iter_end_def Let_def)
next
  case False
  note d = vector_ok_dvd[OF v tok]
  have len: "sz \<le> LENGTH('m)" using v by (auto simp: vector_ok_def)
  have fit: "unat (0 :: u32) + sz \<le> cap c" using d(3) table_ok_cap[OF tok] by simp
  have ok0: "iter_ok sz c 0 (full_mask sz c 0 :: 'm word)"
    using fit by (simp add: iter_ok_def bit_full_mask[OF len])
  have "set (to_come sz c (unat (0 :: u32)) (full_mask sz c 0 :: 'm word)) \<subseteq> live c"
    unfolding to_come_full_mask[OF len fit] by (auto simp: live_def)
  with seek_stands[OF v tok ok0 ty False] show ?thesis
    using False ty CalcMask_aligned[OF tok _ fit, where 'm = 'm] by (simp add: iter_begin_def Seek_def Let_def)
qed

lemma iter_state_stands:
  fixes it :: "'m::len word iter"
  assumes v: "vector_ok sz TYPE('m)" and so: "slots_ok cfg c" and ty: "cfg_type cfg \<noteq> Type_Index"
    and "iter_state cfg sz c it"
  shows "iter_stands cfg sz c it
    \<and> (it_idx it \<noteq> it_idx (iter_end cfg c :: 'm word iter) \<longrightarrow> (\<exists>nx. Seek cfg sz c it = Some nx \<and> iter_stands cfg sz c nx))"
proof -
  have tok: "table_ok cfg c" by (rule slots_okD[OF so])
  have next_ok: "\<exists>nx. Seek cfg sz c it = Some nx \<and> iter_stands cfg sz c nx"
    if "iter_stands cfg sz c it" "it_idx it \<noteq> it_idx (iter_end cfg c :: 'm word iter)" for it :: "'m word iter"
  proof -
    have i: "unat (it_idx it) \<in> live c" "iter_ok sz c (it_base it) (it_mask it)"
      "set (to_come sz c (unat (it_base it)) (it_mask it)) \<subseteq> live c"
      using that by (auto simp: iter_stands_def)
    have "Count c \<noteq> 0" using i(1) slots_okD(2)[OF so] by (auto simp: live_def)
    from seek_stands[OF v tok i(2) ty this i(3)] show ?thesis using ty by (simp add: Seek_def)
  qed
  from assms(4) have "iter_stands cfg sz c it"
  proof induction
    case (iter_first it)
    with begin_stands[OF v tok ty] show ?case by auto
  next
    case (iter_next it it')
    with next_ok[OF iter_next.IH iter_next.hyps(2)] show ?case by auto
  qed
  with next_ok show ?thesis by blast
qed

text \<open>C16. The iterator of a map or set is safe. \<open>begin()\<close> succeeds; every iterator that the range-based
  \<open>for\<close> gets to is at the end, or it stands on a slot in use, dereferencing it gives an entry of the
  table, and \<open>operator++\<close> succeeds. So no load of \<open>CalcMask\<close> is at an address that is not a multiple of
  the register's size (the aligned load would fault) or outside the tag array.\<close>

theorem iterator_loads_aligned:
  assumes "vector_ok sz TYPE('m::len)" "core_ok cfg c" "cfg_type cfg \<noteq> Type_Index"
  shows "(\<exists>it :: 'm word iter. iter_begin cfg sz c = Some it)
    \<and> (\<forall>it :: 'm word iter. iter_state cfg sz c it \<longrightarrow>
        it_idx it = it_idx (iter_end cfg c :: 'm word iter)
        \<or> unat (it_idx it) \<in> live c \<and> iter_get c it \<in># contents cfg c \<and> (\<exists>nx. Seek cfg sz c it = Some nx))"
proof (intro conjI allI impI)
  have so: "slots_ok cfg c" by (rule core_okD[OF assms(2)])
  show "\<exists>it :: 'm word iter. iter_begin cfg sz c = Some it"
    using begin_stands[OF assms(1) slots_okD(1)[OF so] assms(3)] by blast
  fix it :: "'m word iter"
  assume "iter_state cfg sz c it"
  note st = iter_state_stands[OF assms(1) so assms(3) this]
  have "iter_get c it = slot_entry cfg c (unat (it_idx it))"
    using slot_entry_get[OF assms(3), of c "ucast (it_idx it)"] by (simp add: iter_get_def)
  then show "it_idx it = it_idx (iter_end cfg c :: 'm word iter)
      \<or> unat (it_idx it) \<in> live c \<and> iter_get c it \<in># contents cfg c \<and> (\<exists>nx. Seek cfg sz c it = Some nx)"
    using st slot_in_contents[of "unat (it_idx it)" c cfg] by (auto simp: iter_stands_def)
qed

theorem iterator_loads_aligned_witness:
  "\<exists>it :: 32 word iter. iter_begin (demo_cfg Type_Map Fast) 32 (demo_one Type_Map Fast) = Some it
    \<and> (it_idx it = it_idx (iter_end (demo_cfg Type_Map Fast) (demo_one Type_Map Fast) :: 32 word iter)
       \<or> unat (it_idx it) \<in> live (demo_one Type_Map Fast))"
  using iterator_loads_aligned[of 32 "demo_cfg Type_Map Fast" "demo_one Type_Map Fast", where 'm = 32]
    demo_one_facts(1)[OF Fast_pow2, of Type_Map]
  by (auto simp: vector_ok_def intro: iter_first)

end
