(* ===== verification/BenchSimd.thy ===== *)
theory BenchSimd
  imports BenchFailures Tables Iterator
begin

text \<open>
  The classes \<open>Map\<close>, \<open>Set\<close> and \<open>Index\<close> as tables of the benchmark, and the proof that they keep its contract
  (in the modes whose capacities are powers of two): the interpretations of the benchmark's locales on the
  model of \<^verbatim>\<open>SimdHash.h\<close>.
\<close>

section \<open>The methods\<close>

type_synonym 'w table = "('w word, 'w word) core"

definition simd_entries :: "'m::len itself \<Rightarrow> ('k, 'v) config \<Rightarrow> nat \<Rightarrow> ('k, 'v) core \<Rightarrow> ('k, 'v) entry list run" where
  "simd_entries M cfg sz c = of_loop (iterate M cfg sz c)"

definition simd_methods ::
    "('w::len word, 'w word) config \<Rightarrow> 'w table \<Rightarrow> bool \<Rightarrow> (bool, 'w word, 'w table) elements \<Rightarrow> ('w word, 'w table) table_class" where
  "simd_methods cfg c0 index els = Simd
     \<lparr>Simd_new = Core_new cfg c0, Simd_max_load_factor = max_load_factor, Simd_Resize = Resize cfg,
      Simd_Clear = Clear cfg 0, Simd_Capacity = Capacity, Simd_Count = Count, Simd_load_factor = load_factor,
      Simd_Contains = (\<lambda>k c. of_loop (Contains cfg c k)), Simd_Remove = (\<lambda>k c. of_loop (Remove cfg c k)),
      Simd_isIndex = index, Simd_elements = els\<rparr>"

definition SimdMap_class ::
    "'m::len itself \<Rightarrow> nat \<Rightarrow> ('w::len word, 'w word) config \<Rightarrow> 'w table \<Rightarrow> ('w word, 'w table) table_class" where
  "SimdMap_class M sz cfg c0 = simd_methods cfg c0 False
     (As_map (Map_Add cfg) (\<lambda>c. run_bind (simd_entries M cfg sz c) (\<lambda>es. ret (map (\<lambda>e. (ekey e, evalue e)) es))))"

definition SimdSet_class ::
    "'m::len itself \<Rightarrow> nat \<Rightarrow> ('w::len word, 'w word) config \<Rightarrow> 'w table \<Rightarrow> ('w word, 'w table) table_class" where
  "SimdSet_class M sz cfg c0 = simd_methods cfg c0 False
     (As_set (Set_Add cfg) (\<lambda>c. run_bind (simd_entries M cfg sz c) (\<lambda>es. ret (map ekey es))))"

definition SimdIndex_class ::
    "'m::len itself \<Rightarrow> nat \<Rightarrow> ('w::len word, 'w word) config \<Rightarrow> 'w table \<Rightarrow> ('w word, 'w table) table_class" where
  "SimdIndex_class M sz cfg c0 = simd_methods cfg c0 True
     (As_set (Index_Add cfg) (\<lambda>c. run_bind (simd_entries M cfg sz c) (\<lambda>es. ret (map ekey es))))"

section \<open>What a table holds\<close>

definition simd_bound :: nat where "simd_bound = 2 ^ 30"

definition simd_holds ::
    "('k, 'v) config \<Rightarrow> ('k, 'v) core \<Rightarrow> 'k set \<Rightarrow> 'k set \<Rightarrow> nat \<Rightarrow> nat \<Rightarrow> bool" where
  "simd_holds cfg c S V r M \<longleftrightarrow>
     ready cfg c \<and> load_limit c = bench_max_load_factor \<and> is_set cfg c S \<and> V \<subseteq> S
     \<and> (\<forall>k \<in> V. visible cfg c k) \<and> card (tombstones c) \<le> r \<and> card S \<le> M \<and> 128 * M \<le> 125 * cap c"

lemma bench_max_load_factor_value: "bench_max_load_factor = 125 / 128"
  by (simp add: bench_max_load_factor_def)

lemma bench_max_load_factor_accepted:
  "MIN_LOAD_FACTOR \<le> bench_max_load_factor" "bench_max_load_factor \<le> MAX_LOAD_FACTOR"
  by (simp_all add: bench_max_load_factor_value load_factor_values)

lemma simd_holds_card:
  assumes "slots_ok cfg c" "is_set cfg c S"
  shows "unat (Count c) = card S" "card (live c) = card S"
proof -
  have "card (live c) = size (keys_of cfg c)" by (simp add: keys_of_def contents_def)
  also have "\<dots> = card S" using assms(2) by (simp add: is_set_def)
  finally show "card (live c) = card S" .
  then show "unat (Count c) = card S" using slots_okD(2)[OF assms(1)] by simp
qed

text \<open>Below its limit a table keeps a part of 3/128 of its slots unused.\<close>

lemma count_below:
  assumes s: "sizes_ok mode c" and l: "load_limit c = bench_max_load_factor" and n: "n < unat (CountGrowthLimit c)"
    "n \<le> simd_bound"
  shows "128 * n \<le> 125 * cap c"
proof (cases "Capacity c < MAX_SIZE")
  case True
  have "cap_ok mode (unat (Capacity c))" using s by (simp add: sizes_ok_def)
  from growth_limit_real[OF this True bench_max_load_factor_accepted] obtain y :: rat where
    "unat (growth_limit (Capacity c) bench_max_load_factor) = nat \<lfloor>y\<rfloor>"
    "\<bar>y - of_nat (unat (Capacity c)) * bench_max_load_factor\<bar> \<le> 1" "0 \<le> y" by blast
  then have y: "unat (CountGrowthLimit c) = nat \<lfloor>y\<rfloor>" "\<bar>y - of_nat (cap c) * (125 / 128)\<bar> \<le> 1" "0 \<le> y"
    using limit_of[OF s] l by (simp_all add: bench_max_load_factor_value cap_def)
  have "int (Suc n) \<le> \<lfloor>y\<rfloor>" using n(1) y(1,3) by linarith
  then have "of_nat n + 1 \<le> y" by (simp add: le_floor_iff)
  then have "(of_nat n :: rat) \<le> of_nat (cap c) * (125 / 128)" using y(2) by (simp add: abs_le_iff)
  then have "of_nat (128 * n) \<le> (of_nat (125 * cap c) :: rat)" by simp
  then show ?thesis by (simp only: of_nat_le_iff)
next
  case False
  then have "2 ^ 31 \<le> cap c" by (simp add: cap_def word_less_nat_alt size_consts)
  then show ?thesis using n(2) by (simp add: simd_bound_def)
qed

lemma simd_searchable:
  assumes h: "simd_holds cfg c S V r M" and r: "50 * r \<le> M"
  shows "searchable c"
proof -
  have rd: "ready cfg c" "card (tombstones c) \<le> r" "card S \<le> M" "128 * M \<le> 125 * cap c" "is_set cfg c S"
    using h by (auto simp: simd_holds_def)
  note R = readyD[OF rd(1)]
  have "4096 \<le> cap c" using R(3) by (simp add: sizes_ok_def cap_ok_def cap_def)
  then show ?thesis using rd(2-4) r R(4) simd_holds_card(2)[OF R(2) rd(5)] by (simp add: searchable_def)
qed

section \<open>The operations\<close>

lemma simd_growable:
  assumes p2: "pow2_mode (cfg_mode cfg)" and h: "simd_holds cfg c S V r M" and n: "card S \<le> simd_bound"
  shows "growable cfg c"
proof -
  have "ready cfg c" "is_set cfg c S" using h by (auto simp: simd_holds_def)
  then have "unat (Count c) = card S" using simd_holds_card(1) readyD(2) by blast
  then show ?thesis using n by (intro growable_pow2[OF p2]) (simp add: simd_bound_def)
qed

lemma simd_add_new:
  assumes p2: "pow2_mode (cfg_mode cfg)" and nofix: "\<not> cfg_fix cfg" and h: "simd_holds cfg c S V r M"
    and k: "k \<notin> S" and n: "card S < simd_bound"
  shows "\<exists>out c'. Add cfg u False f k c = ret (True, out, c')
    \<and> simd_holds cfg c' (insert k S) (insert k V) r (max M (Suc (card S)))"
proof -
  have H: "ready cfg c" "load_limit c = bench_max_load_factor" "is_set cfg c S" "V \<subseteq> S"
    "\<forall>k \<in> V. visible cfg c k" "card (tombstones c) \<le> r" "card S \<le> M" "128 * M \<le> 125 * cap c"
    using h by (auto simp: simd_holds_def)
  have g: "growable cfg c" using simd_growable[OF p2 h] n by simp
  have fin: "finite S" using H(3) by (simp add: is_set_def)
  show ?thesis
  proof (rule Add_cases[OF H(1) g nofix, of u False f k])
    fix out c' assume "visible cfg c k"
    then show ?thesis using visible_in_keys[OF readyD(2)[OF H(1)]] H(3) k by (auto simp: is_set_def)
  next
    fix v out c'
    assume a: "Add cfg u False f k c = ret (True, out, c')" "added cfg (new_entry cfg f k v) c c'"
      "ready cfg c'" "cap c \<le> cap c'"
    have key: "ekey (new_entry cfg f k v) = k" by (simp add: new_entry_def)
    have A: "contents cfg c' = add_mset (new_entry cfg f k v) (contents cfg c)" "load_limit c' = load_limit c"
      "card (tombstones c') \<le> card (tombstones c)" "visible cfg c' k" "\<forall>k. visible cfg c k \<longrightarrow> visible cfg c' k"
      using a(2) key by (auto simp: added_def)
    have S: "is_set cfg c' (insert k S)" using H(3) k A(1) by (simp add: is_set_def keys_of_def key)
    have R: "slots_ok cfg c'" "sizes_ok (cfg_mode cfg) c'" "Count c' < CountGrowthLimit c'"
      using readyD[OF a(3)] a(3) by (auto simp: ready_def)
    have "card (insert k S) < unat (CountGrowthLimit c')"
      using R(3) simd_holds_card(1)[OF R(1) S] by (simp add: word_less_nat_alt)
    then have "128 * Suc (card S) \<le> 125 * cap c'"
      using count_below[OF R(2), of "Suc (card S)"] A(2) H(2) n k fin by simp
    then have "simd_holds cfg c' (insert k S) (insert k V) r (max M (Suc (card S)))"
      using a(3,4) A H S k fin by (auto simp: simd_holds_def max_def)
    then show ?thesis using a(1) by blast
  qed
qed

lemma simd_add_seen:
  assumes p2: "pow2_mode (cfg_mode cfg)" and nofix: "\<not> cfg_fix cfg" and h: "simd_holds cfg c S V r M"
    and k: "k \<in> V" and n: "card S \<le> simd_bound"
  shows "\<exists>out. Add cfg False False f k c = ret (False, out, c)"
proof -
  have r: "ready cfg c" "visible cfg c k" using h k by (auto simp: simd_holds_def)
  show ?thesis by (rule Add_cases[OF r(1) simd_growable[OF p2 h n] nofix, of False False f k]) (use r(2) in auto)
qed

lemma simd_contains:
  assumes nofix: "\<not> cfg_fix cfg" and h: "simd_holds cfg c S V r M" "50 * r \<le> M"
  shows "Contains cfg c k = Some (k \<in> S)"
proof -
  have H: "slots_ok cfg c" "is_set cfg c S" using h(1) readyD(2) by (auto simp: simd_holds_def)
  obtain q where "FindSlot cfg c k = Some q" by (rule FindSlot_total[OF H(1) simd_searchable[OF h]])
  then show ?thesis using FindSlot_correct(1)[OF H(1) nofix] H(2) by (simp add: Contains_FindSlot is_set_def)
qed

lemma simd_remove:
  assumes ty: "cfg_type cfg \<noteq> Type_Index" and nofix: "\<not> cfg_fix cfg" and h: "simd_holds cfg c S V r M" "50 * r \<le> M"
  shows "\<exists>c'. Remove cfg c k = Some (k \<in> S, c')
    \<and> (if k \<in> S then simd_holds cfg c' (S - {k}) {} (Suc r) M else c' = c)"
proof -
  have H: "ready cfg c" "load_limit c = bench_max_load_factor" "is_set cfg c S"
    "card (tombstones c) \<le> r" "card S \<le> M" "128 * M \<le> 125 * cap c"
    using h by (auto simp: simd_holds_def)
  note R = readyD[OF H(1)]
  obtain q where q: "FindSlot cfg c k = Some q" by (rule FindSlot_total[OF R(2) simd_searchable[OF h]])
  then obtain b c' where r: "Remove cfg c k = Some (b, c')"
    by (cases "the (Remove cfg c k)") (auto simp: Remove_def FindEntry_def)
  note rc = Remove_correct[OF ty R(1) nofix r]
  have b: "b \<longleftrightarrow> k \<in> S" using rc(1) H(3) by (simp add: is_set_def)
  have "simd_holds cfg c' (S - {k}) {} (Suc r) M" if k: "k \<in> S"
  proof -
    have rem: "removed cfg k c c'" using rc(2) b k by blast
    then have ss: "same_sizes c c'" and ok: "core_ok cfg c'" "card (tombstones c') = card (tombstones c) + 1"
      by (auto simp: removed_def)
    have fin: "finite S" using H(3) by (simp add: is_set_def)
    have S: "is_set cfg c' (S - {k})"
      using removed_keys[OF rem] k H(3) by (simp add: is_set_def mset_set_Diff)
    have le: "card (S - {k}) \<le> card S" using fin by (simp add: card_mono)
    have "ready cfg c'" by (rule removed_ready[OF rem H(1)])
    then show ?thesis
      using H S ok(2) le ss same_sizes_facts(1)[OF ss] by (auto simp: simd_holds_def same_sizes_def)
  qed
  then show ?thesis using r b rc(3) by auto
qed

lemma simd_keys:
  assumes v: "vector_ok sz TYPE('m::len)" and h: "simd_holds cfg c S V r M"
  shows "\<exists>es. simd_entries TYPE('m) cfg sz c = ret es \<and> mset (map ekey es) = mset_set S"
proof -
  have H: "core_ok cfg c" "is_set cfg c S" using h by (auto simp: simd_holds_def ready_def)
  obtain es where "iterate TYPE('m) cfg sz c = Some es" "mset es = contents cfg c"
    using iterate_slots[OF H(1) v] slot_list_contents[OF H(1)] by blast
  then show ?thesis using H(2) by (simp add: simd_entries_def is_set_def keys_of_def)
qed

section \<open>A new table and a cleared table\<close>

lemma simd_holds_empty:
  assumes p2: "pow2_mode (cfg_mode cfg)" and c: "core_ok cfg c" "Count c = 0" "contents cfg c = {#}" "tombstones c = {}"
    "load_limit c = bench_max_load_factor"
  shows "simd_holds cfg c {} {} 0 0"
proof -
  have "sizes_ok (cfg_mode cfg) c" using core_okD(1)[OF c(1)] by (rule slots_ok_tags)
  then have "ready cfg c" using empty_ready[OF c(1,2)] cap_coprime[OF p2] by blast
  then show ?thesis using c by (simp add: simd_holds_def is_set_def keys_of_def)
qed

lemma simd_start:
  assumes p2: "pow2_mode (cfg_mode cfg)"
  shows "\<exists>c. Init_new (simd_methods cfg c0 ix els) n = ret c \<and> simd_holds cfg c {} {} 0 0"
proof -
  obtain c where c: "Core_new cfg c0 = ret c" "core_ok cfg c" "empty_table cfg c" "Count c = 0" using Core_new_ok by blast
  let ?c = "max_load_factor bench_max_load_factor c"
  have ok: "core_ok cfg ?c" using c(2) by (rule core_ok_max_load_factor)
  have "tombstones ?c = tombstones c" by (simp add: tombstones_def cap_def tag_at_def)
  then have f: "Count ?c = 0" "load_limit ?c = bench_max_load_factor" "tombstones ?c = {}"
    using c(4) empty_table_facts[OF c(3)] bench_max_load_factor_accepted
    by (auto simp: max_load_factor_def Let_def)
  have con: "contents cfg x = {#}" if "core_ok cfg x" "Count x = 0" for x
    using that slots_okD(2)[OF core_okD(1)[OF that(1)]] by (simp add: contents_def)
  have m: "cfg_mode cfg \<noteq> ResizeOnlyEmpty" using p2 by (auto simp: pow2_mode_def)
  have rs: "\<exists>c'. Resize cfg sz ?c = ret c' \<and> core_ok cfg c' \<and> Count c' = 0 \<and> tombstones c' = {}
      \<and> load_limit c' = bench_max_load_factor" for sz
  proof (cases "Capacity ?c < AdjustCapacity (cfg_mode cfg) sz")
    case True
    then show ?thesis using Resize_grows[OF ok True] f m by (auto simp: same_entries_def)
  next
    case False
    then consider "AdjustCapacity (cfg_mode cfg) sz < Capacity ?c" | "AdjustCapacity (cfg_mode cfg) sz = Capacity ?c"
      by (meson linorder_cases)
    then have "Resize cfg sz ?c = ret ?c"
      using Resize_smaller[of cfg sz ?c] Resize_equal[OF core_okD(1)[OF ok], of sz] m by cases auto
    then show ?thesis using ok f by blast
  qed
  have new: "Init_new (simd_methods cfg c0 ix els) n
      = (if n > 0 then Resize cfg (trunc_u32 (to_double (of_nat (unat n) * to_double (9 / 10)))) ?c else ret ?c)"
    by (simp add: Init_new_def simd_methods_def c(1) Let_def)
  show ?thesis
  proof (cases "n > 0")
    case True
    then show ?thesis using rs[of "trunc_u32 (to_double (of_nat (unat n) * to_double (9 / 10)))"] simd_holds_empty[OF p2] con
      unfolding new by auto
  next
    case False
    then show ?thesis using simd_holds_empty[OF p2 ok] con[OF ok] f unfolding new by auto
  qed
qed

lemma simd_reset:
  assumes p2: "pow2_mode (cfg_mode cfg)" and h: "simd_holds cfg c S V r M"
  shows "\<exists>c'. Clear cfg 0 c = ret c' \<and> simd_holds cfg c' {} {} 0 0"
proof -
  have H: "core_ok cfg c" "load_limit c = bench_max_load_factor" using h by (auto simp: simd_holds_def ready_def)
  obtain c' where c': "Clear cfg 0 c = ret c'" "core_ok cfg c'" "empty_table cfg c'" "Count c' = 0" "load_limit c' = load_limit c"
    using Clear_same[OF H(1), of 0] by auto
  then show ?thesis using simd_holds_empty[OF p2 c'(2,4)] empty_table_facts[OF c'(3)] H(2) by auto
qed

section \<open>The contract\<close>

lemma simd_key_table:
  fixes cfg :: "('w::len word, 'w word) config"
  assumes cls: "cls = simd_methods cfg c0 ix els" and p2: "pow2_mode (cfg_mode cfg)" and nofix: "\<not> cfg_fix cfg" and v: "vector_ok sz TYPE('m::len)"
    and add: "\<And>u k i c. Object_add cls u k i c = drop_out (Add cfg u False (f i) k c)"
    and keys: "\<And>c. Object_keys cls c = run_bind (simd_entries TYPE('m) cfg sz c) (\<lambda>es. ret (map ekey es))"
    and addends: "\<And>c. Object_addends cls c = run_bind (simd_entries TYPE('m) cfg sz c) (\<lambda>es. ret (map g es))"
  shows "key_table cls (simd_holds cfg) simd_bound False"
proof (unfold_locales, goal_cases)
  case 1
  show ?case by (simp add: simd_bound_def)
next
  case (2 t S V r M)
  then show ?case by (auto simp: simd_holds_def is_set_def)
next
  case (3 n)
  show ?case using simd_start[OF p2, of c0 ix els n] by (auto simp: cls ends_def)
next
  case (4 t S V r M n)
  then show ?case using simd_reset[OF p2] by (auto simp: cls Object_Init_def simd_methods_def ends_def)
next
  case (5 t S V r M k u i)
  then show ?case using simd_add_new[OF p2 nofix, of t S V r M k u "f i"] by (auto simp: add drop_out_def ends_def)
next
  case (6 t S V r M k i)
  then show ?case using simd_add_seen[OF p2 nofix, of t S V r M k "f i"] by (auto simp: add drop_out_def)
next
  case (7 t S V r M k)
  then show ?case using simd_contains[OF nofix, of t S V r M k]
    by (simp add: cls Object_contains_def simd_methods_def)
next
  case (8 t S V r M)
  then have "slots_ok cfg t" "is_set cfg t S" using readyD(2) by (auto simp: simd_holds_def)
  then show ?case using simd_holds_card(1) by (auto simp: cls Object_Count_def simd_methods_def)
next
  case (9 t S V r M)
  then show ?case using simd_keys[OF v, of cfg t S V r M] by (auto simp: keys)
next
  case (10 t S V r M)
  then obtain es where "simd_entries TYPE('m) cfg sz t = ret es" "mset (map ekey es) = mset_set S"
    using simd_keys[OF v] by blast
  moreover from this(2) have "length es = card S" by (metis length_map size_mset size_mset_set)
  ultimately show ?case by (simp add: addends)
qed

lemma simd_removal_table:
  fixes cfg :: "('w::len word, 'w word) config"
  assumes cls: "cls = simd_methods cfg c0 False els" and kt: "key_table cls (simd_holds cfg) simd_bound False"
    and nofix: "\<not> cfg_fix cfg" and ty: "cfg_type cfg \<noteq> Type_Index"
  shows "removal_table cls (simd_holds cfg) simd_bound False"
proof -
  have "removal_table_axioms cls (simd_holds cfg) simd_bound"
  proof (unfold_locales, goal_cases)
    case 1
    show ?case by (simp add: cls isIndex_def simd_methods_def)
  next
    case (2 t S V r M k)
    then show ?case using simd_remove[OF ty nofix, of t S V r M k]
      by (auto simp: cls Object_remove_def simd_methods_def)
  qed
  then show ?thesis by (rule removal_table.intro[OF kt])
qed

section \<open>The three classes\<close>

definition simd_class_of ::
    "'m::len itself \<Rightarrow> nat \<Rightarrow> ('w::len word, 'w word) config \<Rightarrow> 'w table \<Rightarrow> ('w word, 'w table) table_class" where
  "simd_class_of M sz cfg c0 =
     (case cfg_type cfg of
        Type_Map \<Rightarrow> SimdMap_class M sz cfg c0
      | Type_Set \<Rightarrow> SimdSet_class M sz cfg c0
      | Type_Index \<Rightarrow> SimdIndex_class M sz cfg c0)"

lemma SimdMap_table:
  assumes "cfg_type cfg = Type_Map" "pow2_mode (cfg_mode cfg)" "\<not> cfg_fix cfg" "vector_ok sz TYPE('m::len)"
  shows "removal_table (SimdMap_class TYPE('m) sz cfg c0) (simd_holds cfg) simd_bound False"
proof (rule simd_removal_table[OF SimdMap_class_def _ assms(3)])
  show "key_table (SimdMap_class TYPE('m) sz cfg c0) (simd_holds cfg) simd_bound False"
    by (rule simd_key_table[OF SimdMap_class_def assms(2-4), where f = "\<lambda>i _. of_nat i" and g = evalue])
      (simp_all add: SimdMap_class_def simd_methods_def Object_add_def Object_keys_def Object_addends_def
        Map_Add_def Let_def run_bind_assoc comp_def)
qed (use assms in simp)

lemma SimdSet_table:
  assumes "cfg_type cfg = Type_Set" "pow2_mode (cfg_mode cfg)" "\<not> cfg_fix cfg" "vector_ok sz TYPE('m::len)"
  shows "removal_table (SimdSet_class TYPE('m) sz cfg c0) (simd_holds cfg) simd_bound False"
proof (rule simd_removal_table[OF SimdSet_class_def _ assms(3)])
  show "key_table (SimdSet_class TYPE('m) sz cfg c0) (simd_holds cfg) simd_bound False"
    by (rule simd_key_table[OF SimdSet_class_def assms(2-4), where f = "\<lambda>i. id" and g = ekey])
      (simp_all add: SimdSet_class_def simd_methods_def Object_add_def Object_keys_def Object_addends_def Set_Add_def)
qed (use assms in simp)

lemma SimdIndex_table:
  assumes "pow2_mode (cfg_mode cfg)" "\<not> cfg_fix cfg" "vector_ok sz TYPE('m::len)"
  shows "bench_table (SimdIndex_class TYPE('m) sz cfg c0) (simd_holds cfg) simd_bound False"
proof -
  have "key_table (SimdIndex_class TYPE('m) sz cfg c0) (simd_holds cfg) simd_bound False"
    by (rule simd_key_table[OF SimdIndex_class_def assms, where f = "\<lambda>i. id" and g = ekey])
      (simp_all add: SimdIndex_class_def simd_methods_def Object_add_def Object_keys_def Object_addends_def Index_Add_def)
  moreover have "isIndex (SimdIndex_class TYPE('m) sz cfg c0)"
    by (simp add: SimdIndex_class_def simd_methods_def isIndex_def)
  ultimately show ?thesis by (intro bench_table.intro bench_table_axioms.intro) blast+
qed

lemma removal_bench_table: "removal_table cls holds bound throws \<Longrightarrow> bench_table cls holds bound throws"
  by (intro bench_table.intro bench_table_axioms.intro removal_table.axioms(1)) blast+

lemma simd_bench_table:
  assumes "pow2_mode (cfg_mode cfg)" "\<not> cfg_fix cfg" "vector_ok sz TYPE('m::len)"
  shows "bench_table (simd_class_of TYPE('m) sz cfg c0) (simd_holds cfg) simd_bound False"
  using SimdMap_table[OF _ assms] SimdSet_table[OF _ assms] SimdIndex_table[OF assms]
  by (cases "cfg_type cfg") (simp_all add: simd_class_of_def removal_bench_table)

text \<open>The interpretations, for the instances that the benchmark makes by default: the mode \<open>Fast\<close>, without the
  fix, and registers of 16 tags.\<close>

definition fast_config ::
    "core_type \<Rightarrow> ('k \<Rightarrow> u64) \<Rightarrow> (nat \<Rightarrow> u8) \<Rightarrow> (nat \<Rightarrow> ('k, 'v) entry) \<Rightarrow> (nat \<Rightarrow> u32) \<Rightarrow> ('k, 'v) config" where
  "fast_config ty hash fl raw raw_index =
     \<lparr>cfg_type = ty, cfg_mode = Fast, cfg_fix = False, cfg_hash = hash, cfg_fill = fl, cfg_raw = raw,
      cfg_raw_index = raw_index\<rparr>"

lemma fast_config_ok:
  "cfg_type (fast_config ty hash fl raw ri) = ty" "pow2_mode (cfg_mode (fast_config ty hash fl raw ri))"
  "\<not> cfg_fix (fast_config ty hash fl raw ri)" "vector_ok 16 TYPE(16)"
  by (simp_all add: fast_config_def pow2_mode_def vector_ok_def)

interpretation fast_map: removal_table "SimdMap_class TYPE(16) 16 (fast_config Type_Map hash fl raw ri) c0"
  "simd_holds (fast_config Type_Map hash fl raw ri)" simd_bound False for hash fl raw ri c0
  by (rule SimdMap_table) (rule fast_config_ok)+

interpretation fast_set: removal_table "SimdSet_class TYPE(16) 16 (fast_config Type_Set hash fl raw ri) c0"
  "simd_holds (fast_config Type_Set hash fl raw ri)" simd_bound False for hash fl raw ri c0
  by (rule SimdSet_table) (rule fast_config_ok)+

interpretation fast_index: bench_table "SimdIndex_class TYPE(16) 16 (fast_config Type_Index hash fl raw ri) c0"
  "simd_holds (fast_config Type_Index hash fl raw ri)" simd_bound False for hash fl raw ri c0
  by (rule SimdIndex_table) (rule fast_config_ok)+

end
