(* ===== verification/GrowthPolicy.thy ===== *)
theory GrowthPolicy
  imports Bits Floats
begin

text \<open>
  The growth policies of \<^verbatim>\<open>tsl/robin_growth_policy.h\<close>: how many buckets a
  \<open>robin_hash\<close> has and to which bucket a hash belongs. Each policy is a record of its operations over
  the type of its member (\<open>m_mask\<close>, \<open>m_mod\<close>, \<open>m_iprime\<close>); the locale \<open>growth_policy\<close> states what the
  table relies on, and all three policies are interpretations of it.
\<close>

record 'p policy_ops =
  create_policy :: "u64 \<Rightarrow> (u64 \<times> 'p) run"
  policy_bucket :: "'p \<Rightarrow> u64 \<Rightarrow> u64"
  policy_next_count :: "'p \<Rightarrow> u64 run"
  policy_max_count :: u64
  clear_policy :: "'p \<Rightarrow> 'p"
  policy_mask :: "('p \<Rightarrow> u64) option"

section \<open>Powers of two\<close>

definition is_power_of_two :: "u64 \<Rightarrow> bool" where
  "is_power_of_two v \<longleftrightarrow> v \<noteq> 0 \<and> v AND (v - 1) = 0"

text \<open>\<open>for (i = 1; i < 64; i *= 2) value |= value >> i\<close>\<close>

definition round_up_to_power_of_two :: "u64 \<Rightarrow> u64" where
  "round_up_to_power_of_two v =
     (if is_power_of_two v then v
      else if v = 0 then 1
      else fold (\<lambda>i v. v OR drop_bit i v) [1, 2, 4, 8, 16, 32] (v - 1) + 1)"

definition pow2_max_bucket_count :: u64 where
  "pow2_max_bucket_count = - 1 div 2 + 1"

definition pow2_create :: "u64 \<Rightarrow> (u64 \<times> u64) run" where
  "pow2_create n =
     (if n > pow2_max_bucket_count then abort Length_error
      else if n > 0 then
        let n = round_up_to_power_of_two n in ret (n, n - 1)
      else ret (n, 0))"

definition pow2_bucket_for_hash :: "u64 \<Rightarrow> u64 \<Rightarrow> u64" where
  "pow2_bucket_for_hash m_mask h = h AND m_mask"

definition pow2_next_bucket_count :: "u64 \<Rightarrow> u64 \<Rightarrow> u64 run" where
  "pow2_next_bucket_count GrowthFactor m_mask =
     (if m_mask + 1 > pow2_max_bucket_count div GrowthFactor then abort Length_error
      else ret ((m_mask + 1) * GrowthFactor))"

definition pow2_clear :: "u64 \<Rightarrow> u64" where
  "pow2_clear m_mask = 0"

definition power_of_two_growth_policy :: "u64 \<Rightarrow> u64 policy_ops" where
  "power_of_two_growth_policy GrowthFactor = \<lparr>create_policy = pow2_create,
     policy_bucket = pow2_bucket_for_hash, policy_next_count = pow2_next_bucket_count GrowthFactor,
     policy_max_count = pow2_max_bucket_count, clear_policy = pow2_clear, policy_mask = Some id\<rparr>"

section \<open>Modulo\<close>

text \<open>The factor \<open>GrowthFactor::num / GrowthFactor::den\<close> as a \<open>double\<close>.\<close>

definition mod_factor :: "nat \<Rightarrow> nat \<Rightarrow> rat" where
  "mod_factor num den = to_double (to_double (of_nat num) / to_double (of_nat den))"

definition mod_max_bucket_count :: "rat \<Rightarrow> u64" where
  "mod_max_bucket_count factor = trunc_u64 (to_double (to_double (2 ^ 64 - 1) / factor))"

definition mod_create :: "rat \<Rightarrow> u64 \<Rightarrow> (u64 \<times> u64) run" where
  "mod_create factor n =
     (if n > mod_max_bucket_count factor then abort Length_error
      else if n > 0 then ret (n, n) else ret (n, 1))"

definition mod_bucket_for_hash :: "u64 \<Rightarrow> u64 \<Rightarrow> u64" where
  "mod_bucket_for_hash m_mod h = h mod m_mod"

text \<open>\<open>std::isnormal\<close> holds of every product: it is at least 1 and below \<open>2^66\<close>.\<close>

definition mod_next_bucket_count :: "rat \<Rightarrow> u64 \<Rightarrow> u64 run" where
  "mod_next_bucket_count factor m_mod =
     (if m_mod = mod_max_bucket_count factor then abort Length_error
      else
        let next_bucket_count = of_int \<lceil>to_double (to_double (of_nat (unat m_mod)) * factor)\<rceil> :: rat in
        if next_bucket_count = 0 then abort Length_error
        else if next_bucket_count > to_double (of_nat (unat (mod_max_bucket_count factor)))
        then ret (mod_max_bucket_count factor)
        else ret (trunc_u64 next_bucket_count))"

definition mod_clear :: "u64 \<Rightarrow> u64" where
  "mod_clear m_mod = 1"

definition mod_growth_policy :: "rat \<Rightarrow> u64 policy_ops" where
  "mod_growth_policy factor = \<lparr>create_policy = mod_create factor,
     policy_bucket = mod_bucket_for_hash, policy_next_count = mod_next_bucket_count factor,
     policy_max_count = mod_max_bucket_count factor, clear_policy = mod_clear, policy_mask = None\<rparr>"

section \<open>Primes\<close>

definition PRIMES :: "u64 list" where
  "PRIMES = [1, 5, 17, 29, 37, 53, 67, 79, 97, 131, 193, 257, 389, 521, 769, 1031, 1543, 2053, 3079,
     6151, 12289, 24593, 49157,
     98317, 196613, 393241, 786433, 1572869, 3145739, 6291469, 12582917, 25165843, 50331653,
     100663319, 201326611, 402653189, 805306457, 1610612741, 3221225473, 4294967291,
     6442450939, 12884901893, 25769803751, 51539607551, 103079215111, 206158430209, 412316860441,
     824633720831, 1649267441651, 3298534883309, 6597069766657]"

definition prime_mod :: "nat \<Rightarrow> u64 \<Rightarrow> u64" where
  "prime_mod IPrime h = h mod PRIMES ! IPrime"

definition MOD_PRIME :: "(u64 \<Rightarrow> u64) list" where
  "MOD_PRIME =
     [prime_mod 0, prime_mod 1, prime_mod 2, prime_mod 3, prime_mod 4, prime_mod 5,
      prime_mod 6, prime_mod 7, prime_mod 8, prime_mod 9, prime_mod 10, prime_mod 11,
      prime_mod 12, prime_mod 13, prime_mod 14, prime_mod 15, prime_mod 16, prime_mod 17,
      prime_mod 18, prime_mod 19, prime_mod 20, prime_mod 21, prime_mod 22,
      prime_mod 23, prime_mod 24, prime_mod 25, prime_mod 26, prime_mod 27, prime_mod 28,
      prime_mod 29, prime_mod 30, prime_mod 31, prime_mod 32, prime_mod 33, prime_mod 34,
      prime_mod 35, prime_mod 36, prime_mod 37, prime_mod 38, prime_mod 39,
      prime_mod 40, prime_mod 41, prime_mod 42, prime_mod 43, prime_mod 44, prime_mod 45,
      prime_mod 46, prime_mod 47, prime_mod 48, prime_mod 49, prime_mod 50]"

text \<open>\<open>std::lower_bound\<close> in a sorted range: the first element that is not below the value.\<close>

definition lower_bound :: "u64 list \<Rightarrow> u64 \<Rightarrow> nat" where
  "lower_bound xs v = length (takeWhile (\<lambda>x. x < v) xs)"

definition prime_create :: "u64 \<Rightarrow> (u64 \<times> nat) run" where
  "prime_create n =
     (let it_prime = lower_bound PRIMES n in
      if it_prime = length PRIMES then abort Length_error
      else ret (if n > 0 then PRIMES ! it_prime else 0, it_prime))"

definition prime_bucket_for_hash :: "nat \<Rightarrow> u64 \<Rightarrow> u64" where
  "prime_bucket_for_hash m_iprime h = (MOD_PRIME ! m_iprime) h"

definition prime_next_bucket_count :: "nat \<Rightarrow> u64 run" where
  "prime_next_bucket_count m_iprime =
     (if m_iprime + 1 \<ge> length PRIMES then abort Length_error else ret (PRIMES ! (m_iprime + 1)))"

definition prime_max_bucket_count :: u64 where
  "prime_max_bucket_count = last PRIMES"

definition prime_clear :: "nat \<Rightarrow> nat" where
  "prime_clear m_iprime = 0"

definition prime_growth_policy :: "nat policy_ops" where
  "prime_growth_policy = \<lparr>create_policy = prime_create, policy_bucket = prime_bucket_for_hash,
     policy_next_count = prime_next_bucket_count, policy_max_count = prime_max_bucket_count,
     clear_policy = prime_clear, policy_mask = None\<rparr>"

section \<open>What a table relies on\<close>

locale growth_policy =
  fixes P :: "'p policy_ops"
    and policy_ok :: "u64 \<Rightarrow> 'p \<Rightarrow> bool"
  assumes create: "n \<le> policy_max_count P \<Longrightarrow>
      \<exists>m p. create_policy P n = ret (m, p) \<and> n \<le> m \<and> m \<le> policy_max_count P
        \<and> (n = 0 \<longrightarrow> m = 0) \<and> policy_ok m p"
    and create_fails: "policy_max_count P < n \<Longrightarrow> create_policy P n = abort Length_error"
    and create_again: "policy_ok n p \<Longrightarrow> n > 0 \<Longrightarrow> create_policy P n = ret (n, p)"
    and ok_le: "policy_ok n p \<Longrightarrow> n \<le> policy_max_count P"
    and bucket_less: "policy_ok n p \<Longrightarrow> n > 0 \<Longrightarrow> policy_bucket P p h < n"
    and bucket_0: "policy_ok 0 p \<Longrightarrow> policy_bucket P p h = 0"
    and next_count: "policy_ok n p \<Longrightarrow> policy_next_count P p = abort Length_error
      \<or> (\<exists>m. policy_next_count P p = ret m \<and> n < m \<and> m \<le> policy_max_count P)"
    and clear_ok: "policy_ok n p \<Longrightarrow> policy_ok 0 (clear_policy P p)"
    and mask_of: "policy_ok n p \<Longrightarrow> n > 0 \<Longrightarrow> policy_mask P = Some f \<Longrightarrow>
      f p = n - 1 \<and> (\<exists>k. n = 2 ^ k) \<and> policy_bucket P p h = h AND (n - 1)"
begin

lemma create_cases:
  obtains (fails) "create_policy P n = abort Length_error" "policy_max_count P < n"
  | (ok) m p where "create_policy P n = ret (m, p)" "n \<le> m" "m \<le> policy_max_count P"
      "n = 0 \<longrightarrow> m = 0" "policy_ok m p"
  using create[of n] create_fails[of n] by (meson linorder_not_le)

lemma create_ret:
  assumes "create_policy P n = ret (m, p)"
  shows "n \<le> m" "policy_ok m p" "n = 0 \<longrightarrow> m = 0"
  using assms by (cases rule: create_cases[of n]; simp)+

lemma bucket_le: "policy_ok n p \<Longrightarrow> policy_bucket P p h \<le> n"
  using bucket_less[of n p h] bucket_0[of p h] by (cases "n = 0") (auto simp: word_gt_0)

end

section \<open>The power-of-two policy keeps the contract\<close>

definition pow2_ok :: "u64 \<Rightarrow> u64 \<Rightarrow> bool" where
  "pow2_ok n m_mask \<longleftrightarrow> m_mask = (if n = 0 then 0 else n - 1) \<and> (n = 0 \<or> (\<exists>k<64. n = 2 ^ k))"

lemma is_power_of_two_ResetLowestSetBit:
  "is_power_of_two v \<longleftrightarrow> v \<noteq> 0 \<and> ResetLowestSetBit v = 0"
  by (simp add: is_power_of_two_def ResetLowestSetBit_def)

lemma round_up_smeared:
  "smeared (LENGTH(64)) v (fold (\<lambda>i v. v OR drop_bit i v) [1, 2, 4, 8, 16, 32] v)" for v :: u64
proof -
  note s2 = smeared_double[OF smeared_1[of v]]
  note s8 = smeared_double[OF smeared_double[OF s2]]
  note s64 = smeared_double[OF smeared_double[OF smeared_double[OF s8]]]
  show ?thesis using s64 by simp
qed

lemma round_up_least:
  assumes "0 < v" "unat v \<le> 2 ^ 63"
  shows "\<exists>k<64. round_up_to_power_of_two v = 2 ^ k \<and> unat v \<le> 2 ^ k \<and> (\<forall>j. unat v \<le> 2 ^ j \<longrightarrow> k \<le> j)"
proof (cases "is_power_of_two v")
  case True
  then have "v = 2 ^ lowest_bit v" "lowest_bit v < 64"
    using single_bit_word[of v] lowest_bit_less[of v] by (auto simp: is_power_of_two_ResetLowestSetBit)
  moreover from this have "unat v = 2 ^ lowest_bit v" using unat_p2[of "lowest_bit v", where 'a = 64] by simp
  ultimately show ?thesis using True by (auto simp: round_up_to_power_of_two_def)
next
  case False
  let ?x = "fold (\<lambda>i v. v OR drop_bit i v) [1, 2, 4, 8, 16, 32] (v - 1)"
  have nz: "v \<noteq> 0" using assms(1) by auto
  have "v \<noteq> 1" using False by (auto simp: is_power_of_two_def)
  then have "unat v \<noteq> 1" by (metis unat_1 unsigned_word_eqI)
  moreover have d: "unat (v - 1) = unat v - 1" using nz by (simp add: unat_minus_one)
  moreover have v0: "unat v \<noteq> 0" using nz by (simp add: unat_eq_zero)
  ultimately have "0 < unat (v - 1)" by linarith
  then obtain k where k: "2 ^ k \<le> unat (v - 1)" "unat (v - 1) < 2 ^ Suc k"
    using floor_log2_exists by blast
  have "unat (v - 1) < 2 ^ 63" using d assms(2) v0 by linarith
  with k(1) have "(2::nat) ^ k < 2 ^ 63" by (rule le_less_trans)
  then have "k < 63" by (rule power_less_imp_less_exp[rotated]) simp
  have "?x = mask (Suc k)" by (rule smeared_full_mask[OF round_up_smeared k(2,1)])
  then have "round_up_to_power_of_two v = 2 ^ Suc k"
    using False nz by (simp add: round_up_to_power_of_two_def mask_eq_exp_minus_1 del: fold.simps)
  moreover have "unat v \<le> 2 ^ Suc k" using k(2) d v0 by linarith
  moreover have "Suc k \<le> j" if j: "unat v \<le> 2 ^ j" for j
  proof -
    have "(2::nat) ^ k < 2 ^ j" using j k(1) d v0 by linarith
    then show ?thesis by (simp add: Suc_le_eq)
  qed
  ultimately show ?thesis using \<open>k < 63\<close> by (intro exI[of _ "Suc k"]) auto
qed

lemma round_up_spec:
  "0 < v \<Longrightarrow> unat v \<le> 2 ^ 63 \<Longrightarrow> \<exists>k<64. round_up_to_power_of_two v = 2 ^ k \<and> unat v \<le> 2 ^ k"
  using round_up_least[of v] by blast

lemma round_up_again: "k < 64 \<Longrightarrow> round_up_to_power_of_two (2 ^ k) = 2 ^ k"
proof -
  assume k: "k < 64"
  have "(2 ^ k :: u64) \<noteq> 0" using unat_p2[of k, where 'a = 64] k by auto
  moreover have "(2 ^ k :: u64) AND (2 ^ k - 1) = 0"
    by (rule bit_word_eqI) (auto simp: bit_and_iff bit_exp_iff bit_mask_iff simp flip: mask_eq_exp_minus_1)
  ultimately show ?thesis by (simp add: round_up_to_power_of_two_def is_power_of_two_def)
qed

lemma pow2_max: "pow2_max_bucket_count = 2 ^ 63"
  by (simp add: pow2_max_bucket_count_def)

lemma unat_p2_63: "unat (2 ^ 63 :: u64) = 2 ^ 63"
  by (rule unat_p2) simp

lemma word_p2_le:
  assumes "k < 64"
  shows "(2 ^ k :: u64) \<le> 2 ^ 63" "(0 :: u64) < 2 ^ k"
proof -
  have u: "unat (2 ^ k :: u64) = 2 ^ k" using assms by (intro unat_p2) simp
  have "(2::nat) ^ k \<le> 2 ^ 63" using assms by (intro power_increasing) auto
  then show "(2 ^ k :: u64) \<le> 2 ^ 63" unfolding word_le_nat_alt unat_p2_63 u .
  show "(0 :: u64) < 2 ^ k" unfolding word_less_nat_alt u by simp
qed

lemma unat_le_63: "(n :: u64) \<le> 2 ^ 63 \<longleftrightarrow> unat n \<le> 2 ^ 63"
  unfolding word_le_nat_alt unat_p2_63 ..

lemma and_mask_less_p2: "k < 64 \<Longrightarrow> (h :: u64) AND (2 ^ k - 1) < 2 ^ k"
  by (simp flip: mask_eq_exp_minus_1 take_bit_eq_mask add: word_less_nat_alt unat_p2 unsigned_take_bit_eq)

text \<open>The factor is a power of two from 2 on (the \<open>static_assert\<close>).\<close>

lemma pow2_growth_policy:
  assumes "g < 62"
  shows "growth_policy (power_of_two_growth_policy (2 ^ Suc g)) pow2_ok"
proof (unfold_locales, goal_cases)
  case (1 n)
  then have n: "n \<le> 2 ^ 63" by (simp add: power_of_two_growth_policy_def pow2_max)
  then have le: "unat n \<le> 2 ^ 63" unfolding unat_le_63 .
  show ?case
  proof (cases "n = 0")
    case False
    then obtain k where k: "k < 64" "round_up_to_power_of_two n = 2 ^ k" "unat n \<le> 2 ^ k"
      using round_up_spec[OF _ le] by (auto simp: word_gt_0)
    have "pow2_create n = ret (2 ^ k, 2 ^ k - 1)"
      using leD[OF n] False k(2) by (simp add: pow2_create_def pow2_max word_gt_0 Let_def)
    moreover have "n \<le> 2 ^ k" unfolding word_le_nat_alt using k unat_p2[of k, where 'a = 64] by simp
    moreover have "pow2_ok (2 ^ k) (2 ^ k - 1)" using word_p2_le(2)[OF k(1)] k(1) by (auto simp: pow2_ok_def)
    moreover note word_p2_le(1)[OF k(1)] False
    ultimately show ?thesis unfolding power_of_two_growth_policy_def policy_ops.simps pow2_max by blast
  qed (simp add: power_of_two_growth_policy_def pow2_create_def pow2_ok_def pow2_max)
next
  case (2 n)
  then show ?case by (simp add: power_of_two_growth_policy_def pow2_create_def)
next
  case (3 n p)
  then obtain k where k: "k < 64" "n = 2 ^ k" "p = n - 1" by (auto simp: pow2_ok_def)
  then show ?case using leD[OF word_p2_le(1)[OF k(1)]] word_p2_le(2)[OF k(1)] round_up_again[OF k(1)]
    by (simp add: power_of_two_growth_policy_def pow2_create_def pow2_max Let_def)
next
  case (4 n p)
  then show ?case unfolding power_of_two_growth_policy_def policy_ops.simps pow2_max pow2_ok_def
    using word_p2_le(1) by auto
next
  case (5 n p h)
  then show ?case
    by (auto simp: pow2_ok_def power_of_two_growth_policy_def pow2_bucket_for_hash_def intro: and_mask_less_p2)
next
  case (6 p h)
  then show ?case by (simp add: pow2_ok_def power_of_two_growth_policy_def pow2_bucket_for_hash_def)
next
  case (7 n p)
  have g: "unat (2 ^ Suc g :: u64) = 2 ^ Suc g" using assms by (intro unat_p2) simp
  have "unat ((2 ^ 63 :: u64) div 2 ^ Suc g) = 2 ^ 63 div 2 ^ Suc g" by (simp only: unat_div g unat_p2_63)
  also have "\<dots> = 2 ^ (63 - Suc g)" using assms by (intro power_diff[symmetric]) auto
  also have "63 - Suc g = 62 - g" by simp
  finally have dv: "unat ((2 ^ 63 :: u64) div 2 ^ Suc g) = 2 ^ (62 - g)" .
  have "\<exists>k<64. p + 1 = 2 ^ k \<and> n \<le> 2 ^ k" using 7 word_p2_le(2)[of 0]
    by (auto simp: pow2_ok_def split: if_splits intro: exI[of _ 0])
  then obtain k where k: "k < 64" "p + 1 = 2 ^ k" "n \<le> 2 ^ k" by blast
  show ?case
  proof (cases "p + 1 > pow2_max_bucket_count div 2 ^ Suc g")
    case False
    then have "(2::nat) ^ k \<le> 2 ^ (62 - g)"
      using dv k unat_p2[of k, where 'a = 64] by (simp add: pow2_max not_less word_le_nat_alt)
    then have kg: "k + Suc g \<le> 63" using assms by (auto dest!: power_le_imp_le_exp[rotated])
    have pr: "(p + 1) * 2 ^ Suc g = 2 ^ (k + Suc g)" unfolding k(2) by (simp only: power_add)
    have "(2::nat) ^ k < 2 ^ (k + Suc g)" by (intro power_strict_increasing) auto
    then have "(2 ^ k :: u64) < 2 ^ (k + Suc g)" using kg k(1)
      by (simp add: word_less_nat_alt unat_p2 del: power_Suc)
    with k(3) have "n < 2 ^ (k + Suc g)" by (rule le_less_trans)
    then show ?thesis using False pr word_p2_le(1)[of "k + Suc g"] kg
      by (simp add: power_of_two_growth_policy_def pow2_next_bucket_count_def pow2_max)
  qed (simp add: power_of_two_growth_policy_def pow2_next_bucket_count_def)
next
  case (8 n p)
  then show ?case by (simp add: pow2_ok_def power_of_two_growth_policy_def pow2_clear_def)
next
  case (9 n p f h)
  then show ?case
    by (auto simp: pow2_ok_def power_of_two_growth_policy_def pow2_bucket_for_hash_def)
qed

interpretation pow2: growth_policy "power_of_two_growth_policy 2" pow2_ok
  using pow2_growth_policy[of 0] by simp

section \<open>The prime policy keeps the contract\<close>

definition prime_ok :: "u64 \<Rightarrow> nat \<Rightarrow> bool" where
  "prime_ok n m_iprime \<longleftrightarrow> m_iprime < length PRIMES \<and> (n = 0 \<and> m_iprime = 0 \<or> n = PRIMES ! m_iprime)"

lemma PRIMES_sorted: "sorted_wrt (<) PRIMES"
  by (simp add: PRIMES_def sorted_wrt2 sorted_wrt1 del: sorted_wrt.simps(2))

lemma length_PRIMES [simp]: "length PRIMES = 51"
  by (simp add: PRIMES_def)

lemma MOD_PRIME_nth:
  assumes i: "i < 51"
  shows "MOD_PRIME ! i = prime_mod i"
proof -
  have "[0..50] = 0 # 1 # [2..50]" by (simp add: upto_rec1)
  then have "MOD_PRIME = map (\<lambda>i. prime_mod (nat i)) [0..50]" by (simp add: MOD_PRIME_def)
  moreover have "[0..50] ! i = int i" using i nth_upto[of 0 i 50] by simp
  moreover have "i < length [0..50]" using i by simp
  ultimately show "MOD_PRIME ! i = prime_mod i" by (metis nth_map nat_int)
qed

lemma PRIMES_pos: "i < 51 \<Longrightarrow> 0 < PRIMES ! i"
proof -
  have "\<forall>x\<in>set PRIMES. 0 < x" by (simp add: PRIMES_def)
  then show "i < 51 \<Longrightarrow> ?thesis" by (metis nth_mem length_PRIMES)
qed

lemma PRIMES_le_last: "i < 51 \<Longrightarrow> PRIMES ! i \<le> last PRIMES"
  using sorted_wrt_nth_less[OF PRIMES_sorted, of i 50]
  by (cases "i = 50") (auto simp: last_conv_nth simp flip: length_greater_0_conv)

lemma lower_bound_nth: "i < 51 \<Longrightarrow> lower_bound PRIMES (PRIMES ! i) = i"
proof -
  assume i: "i < 51"
  have "takeWhile (\<lambda>x. x < PRIMES ! i) PRIMES = take i PRIMES"
    using i sorted_wrt_nth_less[OF PRIMES_sorted, of _ i] by (intro takeWhile_eq_take_P_nth) auto
  with i show ?thesis by (simp add: lower_bound_def)
qed

lemma lower_bound_less:
  assumes "n \<le> last PRIMES"
  shows "lower_bound PRIMES n < 51" "n \<le> PRIMES ! lower_bound PRIMES n"
proof -
  have ne: "PRIMES \<noteq> []" by (simp flip: length_greater_0_conv)
  have "lower_bound PRIMES n \<noteq> 51"
  proof
    assume "lower_bound PRIMES n = 51"
    then have "takeWhile (\<lambda>x. x < n) PRIMES = PRIMES"
      by (metis lower_bound_def length_PRIMES takeWhile_eq_take take_all le_refl)
    then have "last PRIMES < n" using ne by (metis last_in_set takeWhile_eq_all_conv)
    with assms show False by simp
  qed
  moreover have "lower_bound PRIMES n \<le> 51" unfolding lower_bound_def using length_takeWhile_le[of _ PRIMES] by simp
  ultimately show "lower_bound PRIMES n < 51" by linarith
  then show "n \<le> PRIMES ! lower_bound PRIMES n"
    using nth_length_takeWhile[of "\<lambda>x. x < n" PRIMES] by (simp add: lower_bound_def not_less)
qed

lemma prime_create_spec:
  "prime_create n = abort Length_error \<and> 6597069766657 < n
    \<or> (\<exists>m i. prime_create n = ret (m, i) \<and> i < 51 \<and> n \<le> m \<and> m = (if n = 0 then 0 else PRIMES ! i)
        \<and> (\<forall>j<i. PRIMES ! j < n))"
proof (cases "n \<le> last PRIMES")
  case True
  have "PRIMES ! j < n" if "j < lower_bound PRIMES n" for j
    using that nth_mem[of j "takeWhile (\<lambda>x. x < n) PRIMES"] takeWhile_nth[of j "\<lambda>x. x < n" PRIMES]
    by (auto simp: lower_bound_def dest: set_takeWhileD)
  with lower_bound_less[OF True] show ?thesis by (auto simp: prime_create_def Let_def word_gt_0)
next
  case False
  have l: "last PRIMES = 6597069766657" by (simp add: PRIMES_def)
  have "takeWhile (\<lambda>x. x < n) PRIMES = PRIMES"
    using False PRIMES_le_last by (fastforce simp: takeWhile_eq_all_conv in_set_conv_nth)
  then have "lower_bound PRIMES n = length PRIMES" unfolding lower_bound_def by (rule arg_cong)
  then have "prime_create n = abort Length_error" by (simp add: prime_create_def)
  then show ?thesis using False l by (simp add: not_le)
qed

interpretation prime: growth_policy prime_growth_policy prime_ok
proof (unfold_locales, goal_cases)
  case (1 n)
  then have "n \<le> last PRIMES" by (simp add: prime_growth_policy_def prime_max_bucket_count_def)
  note lb = lower_bound_less[OF this]
  have "lower_bound PRIMES 0 = 0" by (simp add: lower_bound_def PRIMES_def)
  with lb show ?case using PRIMES_le_last[OF lb(1)]
    by (auto simp: prime_growth_policy_def prime_create_def Let_def prime_ok_def prime_max_bucket_count_def word_gt_0)
next
  case (2 n)
  have "\<forall>x\<in>set PRIMES. x < n"
    using 2 le_less_trans[OF PRIMES_le_last]
    by (auto simp: in_set_conv_nth prime_growth_policy_def prime_max_bucket_count_def)
  then have "lower_bound PRIMES n = 51" by (simp add: lower_bound_def takeWhile_eq_all_conv[THEN iffD2])
  then show ?case by (simp add: prime_growth_policy_def prime_create_def)
next
  case (3 n p)
  then show ?case using lower_bound_nth[of p]
    by (auto simp: prime_ok_def prime_growth_policy_def prime_create_def Let_def)
next
  case (4 n p)
  then show ?case using PRIMES_le_last
    by (auto simp: prime_ok_def prime_growth_policy_def prime_max_bucket_count_def)
next
  case (5 n p h)
  then show ?case using PRIMES_pos[of p]
    by (auto simp: prime_ok_def prime_growth_policy_def prime_bucket_for_hash_def MOD_PRIME_nth prime_mod_def
        word_mod_less_divisor)
next
  case (6 p h)
  then have "p = 0" using PRIMES_pos[of p] by (auto simp: prime_ok_def)
  moreover have "PRIMES ! 0 = 1" by (simp add: PRIMES_def)
  ultimately show ?case by (simp add: prime_growth_policy_def prime_bucket_for_hash_def MOD_PRIME_nth prime_mod_def)
next
  case (7 n p)
  then have "n \<le> PRIMES ! p" "p < 51" by (auto simp: prime_ok_def)
  moreover have "PRIMES ! p < PRIMES ! Suc p" if "Suc p < 51"
    using that by (intro sorted_wrt_nth_less[OF PRIMES_sorted]) auto
  ultimately show ?case using PRIMES_le_last[of "Suc p"]
    by (auto simp: prime_growth_policy_def prime_next_bucket_count_def prime_max_bucket_count_def)
next
  case (8 n p)
  then show ?case by (simp add: prime_ok_def prime_growth_policy_def prime_clear_def)
next
  case (9 n p f h)
  then show ?case by (simp add: prime_growth_policy_def)
qed

section \<open>The default modulo policy keeps the contract\<close>

lemma mod_factor_3_2: "mod_factor 3 2 = 3 / 2"
proof -
  have a: "to_double 3 = of_int (3 * 2 ^ 51) * (1 / 2 ^ 51)"
    by (rule fl_round_eval[where k = 1]) (simp_all add: power_int_def power_one_over)
  have b: "to_double 2 = of_int (2 ^ 52) * (1 / 2 ^ 51)"
    by (rule fl_round_eval[where k = 1]) (simp_all add: power_int_def power_one_over)
  have c: "to_double (3 / 2) = of_int (3 * 2 ^ 51) * (1 / 2 ^ 52)"
    by (rule fl_round_eval[where k = 0]) (simp_all add: power_int_def power_one_over)
  show ?thesis using a b c by (simp add: mod_factor_def)
qed

lemma to_double_large:
  "to_double 18446744073709551615 = 18446744073709551616"
  "to_double (18446744073709551616 / (3 / 2)) = 12297829382473033728"
  "to_double 12297829382473033728 = 12297829382473033728"
proof -
  show "to_double 18446744073709551615 = 18446744073709551616"
    unfolding fl_round_def ilog2_def by code_simp
  have "to_double (18446744073709551616 / (3 / 2)) = of_int 6004799503160661 * 2048"
    by (rule fl_round_eval[where k = 63]) (simp_all add: power_int_def)
  then show "to_double (18446744073709551616 / (3 / 2)) = 12297829382473033728" by simp
  have "to_double 12297829382473033728 = of_int 6004799503160661 * 2048"
    by (rule fl_round_eval[where k = 63]) (simp_all add: power_int_def)
  then show "to_double 12297829382473033728 = 12297829382473033728" by simp
qed


lemma mod_max_3_2:
  "unat (mod_max_bucket_count (3 / 2)) = 12297829382473033728"
  "to_double (of_nat (unat (mod_max_bucket_count (3 / 2)))) = 12297829382473033728"
proof -
  have "mod_max_bucket_count (3 / 2) = trunc_u64 12297829382473033728"
    using to_double_large by (simp add: mod_max_bucket_count_def)
  then show u: "unat (mod_max_bucket_count (3 / 2)) = 12297829382473033728"
    by (simp add: unat_trunc_u64)
  show "to_double (of_nat (unat (mod_max_bucket_count (3 / 2)))) = 12297829382473033728"
    unfolding u using to_double_large(3) by simp
qed

text \<open>Two roundings do not eat up the factor.\<close>

lemma mod_product_greater:
  assumes "0 < m"
  shows "of_nat m < to_double (to_double (of_nat m) * (3 / 2))"
proof -
  define x e :: rat where "x = of_nat m" and "e = 1 / 2 ^ 53"
  have x: "1 \<le> x" using assms by (simp add: x_def Suc_le_eq)
  have e: "0 < e" "e < 1 / 100" by (simp_all add: e_def)
  have a: "x * (1 - e) \<le> to_double x" unfolding e_def using x by (intro fl_round_bounds) auto
  have p: "0 \<le> to_double x * (3 / 2)" using x by (simp add: fl_round_nonneg)
  have b: "to_double x * (3 / 2) * (1 - e) \<le> to_double (to_double x * (3 / 2))"
    unfolding e_def using p by (rule fl_round_bounds) simp
  have "1 < (1 - e) * (3 / 2) * (1 - e)"
  proof -
    have "(99 / 100) * (3 / 2) * (99 / 100) \<le> (1 - e) * (3 / 2) * (1 - e)"
      using e by (intro mult_mono) auto
    then show ?thesis by simp
  qed
  then have "x * 1 < x * ((1 - e) * (3 / 2) * (1 - e))" using x by (intro mult_strict_left_mono) auto
  also have "\<dots> = x * (1 - e) * ((3 / 2) * (1 - e))" by (simp only: mult.assoc)
  also have "\<dots> \<le> to_double x * ((3 / 2) * (1 - e))" using a e by (intro mult_right_mono) auto
  finally show ?thesis using b unfolding x_def by (simp only: mult.assoc mult_1_right)
qed

definition mod_ok :: "u64 \<Rightarrow> u64 \<Rightarrow> bool" where
  "mod_ok n m_mod \<longleftrightarrow> n \<le> mod_max_bucket_count (3 / 2) \<and> m_mod = (if n = 0 then 1 else n)"

lemma mod_next_below:
  assumes "0 < m" "m < mod_max_bucket_count (3 / 2)"
  shows "\<exists>m'. mod_next_bucket_count (3 / 2) m = ret m' \<and> m < m' \<and> m' \<le> mod_max_bucket_count (3 / 2)"
proof -
  have False: "m \<noteq> mod_max_bucket_count (3 / 2)" using assms(2) by simp
  let ?y = "to_double (to_double (of_nat (unat m)) * (3 / 2))"
  have "0 < unat m" using assms(1) by (simp add: word_less_nat_alt)
  note y = mod_product_greater[OF this]
  note lt = assms(2)
  have c: "of_nat (unat m) < (of_int \<lceil>?y\<rceil> :: rat)" using y le_of_int_ceiling[of ?y] by linarith
  then have nz: "(of_int \<lceil>?y\<rceil> :: rat) \<noteq> 0" by linarith
  show ?thesis
  proof (cases "(of_int \<lceil>?y\<rceil> :: rat) > to_double (of_nat (unat (mod_max_bucket_count (3 / 2))))")
    case True
    then show ?thesis using False lt nz by (simp add: mod_next_bucket_count_def Let_def)
  next
    case f: False
    then have le: "(of_int \<lceil>?y\<rceil> :: rat) \<le> 12297829382473033728" unfolding mod_max_3_2(2) not_less .
    have u: "unat (trunc_u64 (of_int \<lceil>?y\<rceil>)) = nat \<lceil>?y\<rceil>"
    proof -
      have "0 \<le> (of_nat (unat m) :: rat)" by (rule of_nat_0_le_iff)
      with c have "0 \<le> (of_int \<lceil>?y\<rceil> :: rat)" by linarith
      then show ?thesis using le by (subst unat_trunc_u64) simp_all
    qed
    have ci: "int (unat m) < \<lceil>?y\<rceil>" using c by (metis of_int_less_iff of_int_of_nat_eq)
    have li: "\<lceil>?y\<rceil> \<le> 12297829382473033728" using le by (simp only: of_int_le_numeral_iff)
    have "m < trunc_u64 (of_int \<lceil>?y\<rceil>)" unfolding word_less_nat_alt u using ci by linarith
    moreover have "trunc_u64 (of_int \<lceil>?y\<rceil>) \<le> mod_max_bucket_count (3 / 2)"
      unfolding word_le_nat_alt u mod_max_3_2 using li by linarith
    moreover have "mod_next_bucket_count (3 / 2) m = ret (trunc_u64 (of_int \<lceil>?y\<rceil>))"
      using f False nz by (simp add: mod_next_bucket_count_def Let_def)
    ultimately show ?thesis by blast
  qed
qed

lemma mod_next:
  assumes "0 < m" "m \<le> mod_max_bucket_count (3 / 2)"
  shows "mod_next_bucket_count (3 / 2) m = abort Length_error
    \<or> (\<exists>m'. mod_next_bucket_count (3 / 2) m = ret m' \<and> m < m' \<and> m' \<le> mod_max_bucket_count (3 / 2))"
  using mod_next_below[OF assms(1)] assms(2)
  by (cases "m = mod_max_bucket_count (3 / 2)") (simp add: mod_next_bucket_count_def, simp)

interpretation mod: growth_policy "mod_growth_policy (mod_factor 3 2)" mod_ok
proof (unfold_locales, goal_cases)
  case (1 n)
  then show ?case by (auto simp: mod_growth_policy_def mod_factor_3_2 mod_create_def mod_ok_def word_gt_0 not_less)
next
  case (2 n)
  then show ?case by (simp add: mod_growth_policy_def mod_factor_3_2 mod_create_def)
next
  case (3 n p)
  then show ?case by (auto simp: mod_growth_policy_def mod_factor_3_2 mod_create_def mod_ok_def)
next
  case (5 n p h)
  then show ?case
    by (auto simp: mod_growth_policy_def mod_bucket_for_hash_def mod_ok_def word_mod_less_divisor)
next
  case (7 n p)
  have "0 < p" "p \<le> mod_max_bucket_count (3 / 2)" "n \<le> p"
    using 7 by (auto simp: mod_ok_def word_gt_0 word_le_nat_alt mod_max_3_2)
  then show ?case using mod_next[of p] by (auto simp: mod_growth_policy_def mod_factor_3_2)
qed (auto simp: mod_growth_policy_def mod_factor_3_2 mod_ok_def mod_bucket_for_hash_def mod_clear_def)

end
