(* ===== verification/RobinHash.thy ===== *)
theory RobinHash
  imports GrowthPolicy
begin

text \<open>
  \<^verbatim>\<open>tsl/robin_hash.h\<close>: the open-addressing table behind \<open>tsl::robin_map\<close> and
  \<open>tsl::robin_set\<close>, with robin hood displacement and backward-shift deletion. The template parameters
  are an \<open>rh_config\<close>, the members of the object the record \<open>robin_hash\<close>. An iterator is the index of
  its bucket. Memory never runs out; the length of a vector is bounded by its \<open>max_size()\<close>.
\<close>

section \<open>Buckets\<close>

text \<open>\<open>distance_type\<close> is \<open>int16_t\<close>; \<open>inc16\<close> is its \<open>++\<close>.\<close>

definition inc16 :: "int \<Rightarrow> int" where
  "inc16 d = (if d = 32767 then -32768 else d + 1)"

definition EMPTY_MARKER :: int where "EMPTY_MARKER = -1"
definition DIST_LIMIT :: int where "DIST_LIMIT = 8192"

record 'a bucket_entry =
  b_dist :: int
  b_last :: bool
  b_hash :: u32
  b_value :: "'a option"

text \<open>The flag is \<open>StoreHash\<close> of the base class \<open>bucket_entry_hash\<close>.\<close>

definition bucket_hash_equal :: "bool \<Rightarrow> 'a bucket_entry \<Rightarrow> u64 \<Rightarrow> bool" where
  "bucket_hash_equal store b h \<longleftrightarrow> (store \<longrightarrow> b_hash b = ucast h)"

definition truncated_hash :: "bool \<Rightarrow> 'a bucket_entry \<Rightarrow> u32" where
  "truncated_hash store b = (if store then b_hash b else 0)"

definition set_hash :: "bool \<Rightarrow> u32 \<Rightarrow> 'a bucket_entry \<Rightarrow> 'a bucket_entry" where
  "set_hash store h b = (if store then b\<lparr>b_hash := h\<rparr> else b)"

definition bucket_new :: "bool \<Rightarrow> 'a bucket_entry" where
  "bucket_new last_bucket = \<lparr>b_dist = EMPTY_MARKER, b_last = last_bucket, b_hash = 0, b_value = None\<rparr>"

definition bucket_empty :: "'a bucket_entry \<Rightarrow> bool" where
  "bucket_empty b \<longleftrightarrow> b_dist b = EMPTY_MARKER"

definition bucket_value :: "'a bucket_entry \<Rightarrow> 'a" where
  "bucket_value b = the (b_value b)"

definition bucket_copy :: "'a bucket_entry \<Rightarrow> 'a bucket_entry" where
  "bucket_copy other =
     (let b = \<lparr>b_dist = EMPTY_MARKER, b_last = b_last other, b_hash = b_hash other, b_value = None\<rparr> in
      if \<not> bucket_empty other
      then b\<lparr>b_value := Some (bucket_value other), b_dist := b_dist other\<rparr> else b)"

definition bucket_clear :: "'a bucket_entry \<Rightarrow> 'a bucket_entry" where
  "bucket_clear b = (if \<not> bucket_empty b then b\<lparr>b_value := None, b_dist := EMPTY_MARKER\<rparr> else b)"

definition bucket_assign :: "'a bucket_entry \<Rightarrow> 'a bucket_entry \<Rightarrow> 'a bucket_entry" where
  "bucket_assign b other =
     (let b = (bucket_clear b)\<lparr>b_hash := b_hash other\<rparr>;
          b = (if \<not> bucket_empty other then b\<lparr>b_value := Some (bucket_value other)\<rparr> else b)
      in b\<lparr>b_dist := b_dist other, b_last := b_last other\<rparr>)"

definition set_as_last_bucket :: "'a bucket_entry \<Rightarrow> 'a bucket_entry" where
  "set_as_last_bucket b = b\<lparr>b_last := True\<rparr>"

definition set_value_of_empty_bucket :: "bool \<Rightarrow> int \<Rightarrow> u32 \<Rightarrow> 'a \<Rightarrow> 'a bucket_entry \<Rightarrow> 'a bucket_entry" where
  "set_value_of_empty_bucket store dst h x b = (set_hash store h b)\<lparr>b_value := Some x, b_dist := dst\<rparr>"

text \<open>The bucket after the swap; the distance, hash and value handed back are \<open>swapped_out\<close>.\<close>

definition swap_with_value_in_bucket :: "bool \<Rightarrow> int \<Rightarrow> u32 \<Rightarrow> 'a \<Rightarrow> 'a bucket_entry \<Rightarrow> 'a bucket_entry" where
  "swap_with_value_in_bucket store dst h x b = set_hash store h (b\<lparr>b_value := Some x, b_dist := dst\<rparr>)"

definition swapped_out :: "bool \<Rightarrow> u32 \<Rightarrow> 'a bucket_entry \<Rightarrow> int \<times> u32 \<times> 'a" where
  "swapped_out store h b = (b_dist b, if store then b_hash b else h, bucket_value b)"

definition truncate_hash :: "u64 \<Rightarrow> u32" where
  "truncate_hash h = ucast h"

section \<open>The table\<close>

record ('a, 'k, 'p) rh_config =
  rh_hash :: "'k \<Rightarrow> u64"
  rh_key :: "'a \<Rightarrow> 'k"
  rh_policy :: "'p policy_ops"
  rh_StoreHash :: bool
  rh_same_size :: bool   \<comment> \<open>the two kinds of \<open>bucket_entry\<close> have the same size\<close>
  rh_std_hash :: bool    \<comment> \<open>an arithmetic key with \<open>std::hash\<close>\<close>
  rh_max_size :: u64     \<comment> \<open>\<open>m_buckets_data.max_size()\<close>\<close>

record ('a, 'p) robin_hash =
  rh_pol :: 'p
  m_buckets_data :: "'a bucket_entry list"
  m_bucket_count :: u64
  m_nb_elements :: u64
  m_load_threshold :: u64
  m_min_load_factor :: rat
  m_max_load_factor :: rat
  m_grow_on_next_insert :: bool
  m_try_shrink_on_next_insert :: bool

text \<open>A \<open>size_t\<close> has 64 bits and a stored hash 32.\<close>

definition STORE_HASH :: "('a, 'k, 'p) rh_config \<Rightarrow> bool" where
  "STORE_HASH cfg \<longleftrightarrow> rh_StoreHash cfg
     \<or> (rh_same_size cfg \<and> policy_mask (rh_policy cfg) \<noteq> None \<and> \<not> rh_std_hash cfg)"

definition USE_STORED_HASH_ON_LOOKUP :: "('a, 'k, 'p) rh_config \<Rightarrow> bool" where
  "USE_STORED_HASH_ON_LOOKUP cfg = rh_StoreHash cfg"

definition USE_STORED_HASH_ON_REHASH :: "('a, 'k, 'p) rh_config \<Rightarrow> u64 \<Rightarrow> bool" where
  "USE_STORED_HASH_ON_REHASH cfg bucket_count =
     (if STORE_HASH cfg \<and> policy_mask (rh_policy cfg) \<noteq> None
      then bucket_count = 0 \<or> bucket_count - 1 \<le> 0xFFFFFFFF else False)"

definition RH_DEFAULT_MAX_LOAD_FACTOR :: rat where "RH_DEFAULT_MAX_LOAD_FACTOR = to_float (5 / 10)"
definition RH_MINIMUM_MAX_LOAD_FACTOR :: rat where "RH_MINIMUM_MAX_LOAD_FACTOR = to_float (2 / 10)"
definition RH_MAXIMUM_MAX_LOAD_FACTOR :: rat where
  "RH_MAXIMUM_MAX_LOAD_FACTOR = to_float (to_float (to_float 1000000 / 1024) / 1024)"
definition RH_DEFAULT_MIN_LOAD_FACTOR :: rat where "RH_DEFAULT_MIN_LOAD_FACTOR = 0"
definition RH_MINIMUM_MIN_LOAD_FACTOR :: rat where "RH_MINIMUM_MIN_LOAD_FACTOR = 0"
definition RH_MAXIMUM_MIN_LOAD_FACTOR :: rat where "RH_MAXIMUM_MIN_LOAD_FACTOR = to_float (15 / 100)"

definition rh_clamp :: "rat \<Rightarrow> rat \<Rightarrow> rat \<Rightarrow> rat" where
  "rh_clamp v lo hi = min hi (max lo v)"

definition robin_max_bucket_count :: "('a, 'k, 'p) rh_config \<Rightarrow> u64" where
  "robin_max_bucket_count cfg = min (policy_max_count (rh_policy cfg)) (rh_max_size cfg)"

definition robin_load_factor :: "('a, 'p) robin_hash \<Rightarrow> rat" where
  "robin_load_factor t =
     (if m_bucket_count t = 0 then 0
      else to_float (to_float (of_nat (unat (m_nb_elements t))) / to_float (of_nat (unat (m_bucket_count t)))))"

definition set_min_load_factor :: "rat \<Rightarrow> ('a, 'p) robin_hash \<Rightarrow> ('a, 'p) robin_hash" where
  "set_min_load_factor ml t =
     t\<lparr>m_min_load_factor := rh_clamp ml RH_MINIMUM_MIN_LOAD_FACTOR RH_MAXIMUM_MIN_LOAD_FACTOR\<rparr>"

definition load_threshold :: "u64 \<Rightarrow> rat \<Rightarrow> u64" where
  "load_threshold n ml = trunc_u64 (to_float (to_float (of_nat (unat n)) * ml))"

definition set_max_load_factor :: "rat \<Rightarrow> ('a, 'p) robin_hash \<Rightarrow> ('a, 'p) robin_hash" where
  "set_max_load_factor ml t =
     (let ml = rh_clamp ml RH_MINIMUM_MAX_LOAD_FACTOR RH_MAXIMUM_MAX_LOAD_FACTOR in
      t\<lparr>m_max_load_factor := ml, m_load_threshold := load_threshold (m_bucket_count t) ml\<rparr>)"

text \<open>The constructor. The growth policy may raise the bucket count; the vector of the buckets throws
  like the test that follows when it is too long.\<close>

definition robin_new :: "('a, 'k, 'p) rh_config \<Rightarrow> u64 \<Rightarrow> rat \<Rightarrow> rat \<Rightarrow> ('a, 'p) robin_hash run" where
  "robin_new cfg bucket_count min_lf max_lf =
     run_bind (create_policy (rh_policy cfg) bucket_count) (\<lambda>(bucket_count, p).
       if bucket_count > robin_max_bucket_count cfg then abort Length_error
       else
         let bs = replicate (unat bucket_count) (bucket_new False);
             bs = (if bucket_count > 0
                   then bs[length bs - 1 := set_as_last_bucket (bs ! (length bs - 1))] else bs);
             t = \<lparr>rh_pol = p, m_buckets_data = bs, m_bucket_count = bucket_count, m_nb_elements = 0,
                  m_load_threshold = 0, m_min_load_factor = 0, m_max_load_factor = 0,
                  m_grow_on_next_insert = False, m_try_shrink_on_next_insert = False\<rparr>
         in ret (set_max_load_factor max_lf (set_min_load_factor min_lf t)))"

text \<open>\<open>m_buckets\<close>: the buckets, or the static empty bucket when there are none. The operations
  write to \<open>m_buckets_data\<close> only: a table without buckets is rehashed before a value is stored.\<close>

definition m_buckets :: "('a, 'p) robin_hash \<Rightarrow> 'a bucket_entry list" where
  "m_buckets t = (if m_buckets_data t = [] then [bucket_new True] else m_buckets_data t)"

definition bucket_at :: "('a, 'p) robin_hash \<Rightarrow> u64 \<Rightarrow> 'a bucket_entry" where
  "bucket_at t i = m_buckets t ! unat i"

definition upd_bucket :: "u64 \<Rightarrow> ('a bucket_entry \<Rightarrow> 'a bucket_entry) \<Rightarrow> ('a, 'p) robin_hash \<Rightarrow> ('a, 'p) robin_hash" where
  "upd_bucket i f t = t\<lparr>m_buckets_data := (m_buckets_data t)[unat i := f (m_buckets_data t ! unat i)]\<rparr>"

definition robin_bucket_for_hash :: "('a, 'k, 'p) rh_config \<Rightarrow> ('a, 'p) robin_hash \<Rightarrow> u64 \<Rightarrow> u64" where
  "robin_bucket_for_hash cfg t h = policy_bucket (rh_policy cfg) (rh_pol t) h"

definition next_bucket :: "('a, 'k, 'p) rh_config \<Rightarrow> ('a, 'p) robin_hash \<Rightarrow> u64 \<Rightarrow> u64" where
  "next_bucket cfg t index =
     (case policy_mask (rh_policy cfg) of
        Some mask_of \<Rightarrow> (index + 1) AND mask_of (rh_pol t)
      | None \<Rightarrow> let index = index + 1 in if index \<noteq> m_bucket_count t then index else 0)"

section \<open>Iterators\<close>

definition robin_begin :: "('a, 'p) robin_hash \<Rightarrow> u64" where
  "robin_begin t = of_nat (length (takeWhile bucket_empty (take (unat (m_bucket_count t)) (m_buckets t))))"

definition robin_end :: "('a, 'p) robin_hash \<Rightarrow> u64" where
  "robin_end t = m_bucket_count t"

partial_function (option) robin_next :: "('a, 'p) robin_hash \<Rightarrow> u64 \<Rightarrow> u64 option" where
  "robin_next t i =
     (if b_last (bucket_at t i) then Some (i + 1)
      else let i = i + 1 in
        if \<not> bucket_empty (bucket_at t i) then Some i else robin_next t i)"

declare robin_next.simps [code]

text \<open>The range-based \<open>for\<close>: the values in the order of the iterator.\<close>

partial_function (option) robin_iterate :: "('a, 'p) robin_hash \<Rightarrow> u64 \<Rightarrow> 'a list option" where
  "robin_iterate t i =
     (if i = robin_end t then Some []
      else Option.bind (robin_next t i) (\<lambda>j.
        Option.bind (robin_iterate t j) (\<lambda>xs. Some (bucket_value (bucket_at t i) # xs))))"

declare robin_iterate.simps [code]

section \<open>Lookup\<close>

text \<open>The loop of \<open>find_impl\<close> and of \<open>insert_impl\<close>: whether a bucket with the key was reached, its index
  and the distance at which the loop stopped.\<close>

partial_function (option) find_loop ::
    "('a, 'k, 'p) rh_config \<Rightarrow> ('a, 'p) robin_hash \<Rightarrow> 'k \<Rightarrow> u64 \<Rightarrow> u64 \<Rightarrow> int \<Rightarrow> (bool \<times> u64 \<times> int) option" where
  "find_loop cfg t key h ibucket dst =
     (if dst \<le> b_dist (bucket_at t ibucket) then
        if (\<not> USE_STORED_HASH_ON_LOOKUP cfg \<or> bucket_hash_equal (STORE_HASH cfg) (bucket_at t ibucket) h)
            \<and> rh_key cfg (bucket_value (bucket_at t ibucket)) = key
        then Some (True, ibucket, dst)
        else find_loop cfg t key h (next_bucket cfg t ibucket) (inc16 dst)
      else Some (False, ibucket, dst))"

declare find_loop.simps [code]

definition find_impl :: "('a, 'k, 'p) rh_config \<Rightarrow> ('a, 'p) robin_hash \<Rightarrow> 'k \<Rightarrow> u64 \<Rightarrow> u64 option" where
  "find_impl cfg t key h =
     map_option (\<lambda>(hit, ibucket, dst). if hit then ibucket else robin_end t)
       (find_loop cfg t key h (robin_bucket_for_hash cfg t h) 0)"

definition robin_count :: "('a, 'k, 'p) rh_config \<Rightarrow> ('a, 'p) robin_hash \<Rightarrow> 'k \<Rightarrow> u64 \<Rightarrow> u64 option" where
  "robin_count cfg t key h = map_option (\<lambda>pos. if pos \<noteq> robin_end t then 1 else 0) (find_impl cfg t key h)"

definition robin_contains :: "('a, 'k, 'p) rh_config \<Rightarrow> ('a, 'p) robin_hash \<Rightarrow> 'k \<Rightarrow> bool option" where
  "robin_contains cfg t key = map_option (\<lambda>n. n \<noteq> 0) (robin_count cfg t key (rh_hash cfg key))"

text \<open>\<open>at\<close>: the element whose mapped value is returned.\<close>

definition robin_at :: "('a, 'k, 'p) rh_config \<Rightarrow> ('a, 'p) robin_hash \<Rightarrow> 'k \<Rightarrow> u64 \<Rightarrow> 'a run" where
  "robin_at cfg t key h =
     run_bind (of_loop (find_impl cfg t key h)) (\<lambda>pos.
       if pos \<noteq> robin_end t then ret (bucket_value (bucket_at t pos)) else abort Out_of_range)"

definition robin_equal_range ::
    "('a, 'k, 'p) rh_config \<Rightarrow> ('a, 'p) robin_hash \<Rightarrow> 'k \<Rightarrow> u64 \<Rightarrow> (u64 \<times> u64) option" where
  "robin_equal_range cfg t key h =
     Option.bind (find_impl cfg t key h) (\<lambda>pos.
       if pos = robin_end t then Some (pos, pos)
       else map_option (\<lambda>nx. (pos, nx)) (robin_next t pos))"

end
