(* ===== verification/RobinOps.thy ===== *)
theory RobinOps
  imports RobinHash
begin

text \<open>
  The operations of \<open>robin_hash\<close> that change the table: insertion with displacement, growth and
  shrinking, deletion by backward shift, and what \<open>robin_map\<close> and \<open>robin_set\<close> offer on top of them.
\<close>

section \<open>Displacement\<close>

partial_function (option) insert_value_loop ::
    "('a, 'k, 'p) rh_config \<Rightarrow> ('a, 'p) robin_hash \<Rightarrow> u64 \<Rightarrow> int \<Rightarrow> u32 \<Rightarrow> 'a \<Rightarrow> ('a, 'p) robin_hash option" where
  "insert_value_loop cfg t ibucket dst h x =
     (if \<not> bucket_empty (bucket_at t ibucket) then
        if dst > b_dist (bucket_at t ibucket) then
          let t = (if dst > DIST_LIMIT then t\<lparr>m_grow_on_next_insert := True\<rparr> else t);
              (dst', h', x') = swapped_out (STORE_HASH cfg) h (bucket_at t ibucket);
              t = upd_bucket ibucket (swap_with_value_in_bucket (STORE_HASH cfg) dst h x) t
          in insert_value_loop cfg t (next_bucket cfg t ibucket) (inc16 dst') h' x'
        else insert_value_loop cfg t (next_bucket cfg t ibucket) (inc16 dst) h x
      else Some (upd_bucket ibucket (set_value_of_empty_bucket (STORE_HASH cfg) dst h x) t))"

declare insert_value_loop.simps [code]

definition insert_value_impl ::
    "('a, 'k, 'p) rh_config \<Rightarrow> ('a, 'p) robin_hash \<Rightarrow> u64 \<Rightarrow> int \<Rightarrow> u32 \<Rightarrow> 'a \<Rightarrow> ('a, 'p) robin_hash option" where
  "insert_value_impl cfg t ibucket dst h x =
     (let (dst', h', x') = swapped_out (STORE_HASH cfg) h (bucket_at t ibucket);
          t = upd_bucket ibucket (swap_with_value_in_bucket (STORE_HASH cfg) dst h x) t
      in insert_value_loop cfg t (next_bucket cfg t ibucket) (inc16 dst') h' x')"

partial_function (option) insert_value_on_rehash ::
    "('a, 'k, 'p) rh_config \<Rightarrow> ('a, 'p) robin_hash \<Rightarrow> u64 \<Rightarrow> int \<Rightarrow> u32 \<Rightarrow> 'a \<Rightarrow> ('a, 'p) robin_hash option" where
  "insert_value_on_rehash cfg t ibucket dst h x =
     (if dst > b_dist (bucket_at t ibucket) then
        if bucket_empty (bucket_at t ibucket)
        then Some (upd_bucket ibucket (set_value_of_empty_bucket (STORE_HASH cfg) dst h x) t)
        else
          let (dst', h', x') = swapped_out (STORE_HASH cfg) h (bucket_at t ibucket);
              t = upd_bucket ibucket (swap_with_value_in_bucket (STORE_HASH cfg) dst h x) t
          in insert_value_on_rehash cfg t (next_bucket cfg t ibucket) (inc16 dst') h' x'
      else insert_value_on_rehash cfg t (next_bucket cfg t ibucket) (inc16 dst) h x)"

declare insert_value_on_rehash.simps [code]

section \<open>Growing and shrinking\<close>

text \<open>One turn of the loop of \<open>rehash_impl\<close>, and the loop with the exchange of the two tables.\<close>

definition rehash_bucket ::
    "('a, 'k, 'p) rh_config \<Rightarrow> bool \<Rightarrow> 'a bucket_entry \<Rightarrow> ('a, 'p) robin_hash \<Rightarrow> ('a, 'p) robin_hash run" where
  "rehash_bucket cfg use_stored_hash bucket new_table =
     (if bucket_empty bucket then ret new_table
      else
        let h = (if use_stored_hash then ucast (truncated_hash (STORE_HASH cfg) bucket)
                 else rh_hash cfg (rh_key cfg (bucket_value bucket)))
        in of_loop (insert_value_on_rehash cfg new_table (robin_bucket_for_hash cfg new_table h) 0
             (truncate_hash h) (bucket_value bucket)))"

definition rehash_impl ::
    "('a, 'k, 'p) rh_config \<Rightarrow> u64 \<Rightarrow> ('a, 'p) robin_hash \<Rightarrow> ('a, 'p) robin_hash run" where
  "rehash_impl cfg count t =
     run_bind (robin_new cfg count (m_min_load_factor t) (m_max_load_factor t)) (\<lambda>new_table.
       run_bind (run_fold (rehash_bucket cfg (USE_STORED_HASH_ON_REHASH cfg (m_bucket_count new_table)))
           (m_buckets_data t) new_table) (\<lambda>new_table.
         ret (new_table\<lparr>m_nb_elements := m_nb_elements t\<rparr>)))"

definition buckets_for :: "u64 \<Rightarrow> rat \<Rightarrow> u64" where
  "buckets_for n ml = trunc_u64 (of_int \<lceil>to_float (to_float (of_nat (unat n)) / ml)\<rceil>)"

definition robin_rehash :: "('a, 'k, 'p) rh_config \<Rightarrow> u64 \<Rightarrow> ('a, 'p) robin_hash \<Rightarrow> ('a, 'p) robin_hash run" where
  "robin_rehash cfg count t =
     rehash_impl cfg (max count (buckets_for (m_nb_elements t) (m_max_load_factor t))) t"

definition robin_reserve :: "('a, 'k, 'p) rh_config \<Rightarrow> u64 \<Rightarrow> ('a, 'p) robin_hash \<Rightarrow> ('a, 'p) robin_hash run" where
  "robin_reserve cfg count t = robin_rehash cfg (buckets_for count (m_max_load_factor t)) t"

definition rehash_on_extreme_load ::
    "('a, 'k, 'p) rh_config \<Rightarrow> int \<Rightarrow> ('a, 'p) robin_hash \<Rightarrow> (bool \<times> ('a, 'p) robin_hash) run" where
  "rehash_on_extreme_load cfg curr_dist t =
     (if m_grow_on_next_insert t \<or> curr_dist > DIST_LIMIT \<or> m_nb_elements t \<ge> m_load_threshold t then
        run_bind (policy_next_count (rh_policy cfg) (rh_pol t)) (\<lambda>count.
          run_bind (rehash_impl cfg count t) (\<lambda>t. ret (True, t\<lparr>m_grow_on_next_insert := False\<rparr>)))
      else if m_try_shrink_on_next_insert t then
        let t = t\<lparr>m_try_shrink_on_next_insert := False\<rparr> in
        if m_min_load_factor t \<noteq> 0 \<and> robin_load_factor t < m_min_load_factor t
        then run_bind (robin_reserve cfg (m_nb_elements t + 1) t) (\<lambda>t. ret (True, t))
        else ret (False, t)
      else ret (False, t))"

section \<open>Insertion\<close>

text \<open>The inner loop after a rehash, and the loop around it.\<close>

partial_function (option) reseek_loop ::
    "('a, 'k, 'p) rh_config \<Rightarrow> ('a, 'p) robin_hash \<Rightarrow> u64 \<Rightarrow> int \<Rightarrow> (u64 \<times> int) option" where
  "reseek_loop cfg t ibucket dst =
     (if dst \<le> b_dist (bucket_at t ibucket)
      then reseek_loop cfg t (next_bucket cfg t ibucket) (inc16 dst)
      else Some (ibucket, dst))"

declare reseek_loop.simps [code]

partial_function (option) extreme_loop ::
    "('a, 'k, 'p) rh_config \<Rightarrow> u64 \<Rightarrow> u64 \<Rightarrow> int \<Rightarrow> ('a, 'p) robin_hash \<Rightarrow> (u64 \<times> int \<times> ('a, 'p) robin_hash) run" where
  "extreme_loop cfg h ibucket dst t =
     run_bind (rehash_on_extreme_load cfg dst t) (\<lambda>r.
       if fst r then
         run_bind (of_loop (reseek_loop cfg (snd r) (robin_bucket_for_hash cfg (snd r) h) 0)) (\<lambda>s.
           extreme_loop cfg h (fst s) (snd s) (snd r))
       else ret (ibucket, dst, snd r))"

declare extreme_loop.simps [code]

definition insert_impl ::
    "('a, 'k, 'p) rh_config \<Rightarrow> 'k \<Rightarrow> 'a \<Rightarrow> ('a, 'p) robin_hash \<Rightarrow> (u64 \<times> bool \<times> ('a, 'p) robin_hash) run" where
  "insert_impl cfg key x t =
     (let h = rh_hash cfg key in
      run_bind (of_loop (find_loop cfg t key h (robin_bucket_for_hash cfg t h) 0)) (\<lambda>(hit, ibucket, dst).
        if hit then ret (ibucket, False, t)
        else
          run_bind (extreme_loop cfg h ibucket dst t) (\<lambda>(ibucket, dst, t).
            run_bind
              (if bucket_empty (bucket_at t ibucket)
               then ret (upd_bucket ibucket
                      (set_value_of_empty_bucket (STORE_HASH cfg) dst (truncate_hash h) x) t)
               else of_loop (insert_value_impl cfg t ibucket dst (truncate_hash h) x)) (\<lambda>t.
              ret (ibucket, True, t\<lparr>m_nb_elements := m_nb_elements t + 1\<rparr>)))))"

definition robin_insert ::
    "('a, 'k, 'p) rh_config \<Rightarrow> 'a \<Rightarrow> ('a, 'p) robin_hash \<Rightarrow> (u64 \<times> bool \<times> ('a, 'p) robin_hash) run" where
  "robin_insert cfg x t = insert_impl cfg (rh_key cfg x) x t"

definition insert_hint ::
    "('a, 'k, 'p) rh_config \<Rightarrow> u64 \<Rightarrow> 'a \<Rightarrow> ('a, 'p) robin_hash \<Rightarrow> (u64 \<times> ('a, 'p) robin_hash) run" where
  "insert_hint cfg hint x t =
     (if hint \<noteq> robin_end t \<and> rh_key cfg (bucket_value (bucket_at t hint)) = rh_key cfg x
      then ret (hint, t)
      else run_bind (robin_insert cfg x t) (\<lambda>(pos, _, t). ret (pos, t)))"

text \<open>The range has forward iterators.\<close>

definition insert_range :: "('a, 'k, 'p) rh_config \<Rightarrow> 'a list \<Rightarrow> ('a, 'p) robin_hash \<Rightarrow> ('a, 'p) robin_hash run" where
  "insert_range cfg xs t =
     run_bind
       (let nb_elements_insert = of_nat (length xs);
            nb_free_buckets = m_load_threshold t - m_nb_elements t
        in if 0 < length xs \<and> nb_free_buckets < nb_elements_insert
           then robin_reserve cfg (m_nb_elements t + nb_elements_insert) t else ret t)
       (run_fold (\<lambda>x t. run_bind (robin_insert cfg x t) (\<lambda>(_, _, t). ret t)) xs)"

definition robin_emplace ::
    "('a, 'k, 'p) rh_config \<Rightarrow> 'a \<Rightarrow> ('a, 'p) robin_hash \<Rightarrow> (u64 \<times> bool \<times> ('a, 'p) robin_hash) run" where
  "robin_emplace cfg x t = robin_insert cfg x t"

text \<open>Maps: the elements are pairs, \<open>KeySelect\<close> is the first component and \<open>it.value()\<close> the second.\<close>

definition try_emplace ::
    "('k \<times> 'v, 'k, 'p) rh_config \<Rightarrow> 'k \<Rightarrow> 'v \<Rightarrow> ('k \<times> 'v, 'p) robin_hash \<Rightarrow>
     (u64 \<times> bool \<times> ('k \<times> 'v, 'p) robin_hash) run" where
  "try_emplace cfg key obj t = insert_impl cfg key (key, obj) t"

definition set_mapped :: "u64 \<Rightarrow> 'v \<Rightarrow> ('k \<times> 'v, 'p) robin_hash \<Rightarrow> ('k \<times> 'v, 'p) robin_hash" where
  "set_mapped pos obj t = upd_bucket pos (\<lambda>b. b\<lparr>b_value := Some (fst (bucket_value b), obj)\<rparr>) t"

definition insert_or_assign ::
    "('k \<times> 'v, 'k, 'p) rh_config \<Rightarrow> 'k \<Rightarrow> 'v \<Rightarrow> ('k \<times> 'v, 'p) robin_hash \<Rightarrow>
     (u64 \<times> bool \<times> ('k \<times> 'v, 'p) robin_hash) run" where
  "insert_or_assign cfg key obj t =
     run_bind (try_emplace cfg key obj t) (\<lambda>(pos, inserted, t).
       ret (pos, inserted, if \<not> inserted then set_mapped pos obj t else t))"

definition insert_or_assign_hint ::
    "('k \<times> 'v, 'k, 'p) rh_config \<Rightarrow> u64 \<Rightarrow> 'k \<Rightarrow> 'v \<Rightarrow> ('k \<times> 'v, 'p) robin_hash \<Rightarrow>
     (u64 \<times> ('k \<times> 'v, 'p) robin_hash) run" where
  "insert_or_assign_hint cfg hint key obj t =
     (if hint \<noteq> robin_end t \<and> rh_key cfg (bucket_value (bucket_at t hint)) = key
      then ret (hint, set_mapped hint obj t)
      else run_bind (insert_or_assign cfg key obj t) (\<lambda>(pos, _, t). ret (pos, t)))"

definition try_emplace_hint ::
    "('k \<times> 'v, 'k, 'p) rh_config \<Rightarrow> u64 \<Rightarrow> 'k \<Rightarrow> 'v \<Rightarrow> ('k \<times> 'v, 'p) robin_hash \<Rightarrow>
     (u64 \<times> ('k \<times> 'v, 'p) robin_hash) run" where
  "try_emplace_hint cfg hint key obj t =
     (if hint \<noteq> robin_end t \<and> rh_key cfg (bucket_value (bucket_at t hint)) = key
      then ret (hint, t)
      else run_bind (try_emplace cfg key obj t) (\<lambda>(pos, _, t). ret (pos, t)))"

text \<open>\<open>operator[]\<close>: the value referred to; a new key gets the value-initialised \<open>zero\<close>.\<close>

definition robin_subscript ::
    "('k \<times> 'v, 'k, 'p) rh_config \<Rightarrow> 'v \<Rightarrow> 'k \<Rightarrow> ('k \<times> 'v, 'p) robin_hash \<Rightarrow> ('v \<times> ('k \<times> 'v, 'p) robin_hash) run" where
  "robin_subscript cfg zero key t =
     run_bind (try_emplace cfg key zero t) (\<lambda>(pos, _, t). ret (snd (bucket_value (bucket_at t pos)), t))"

section \<open>Deletion\<close>

partial_function (option) shift_loop ::
    "('a, 'k, 'p) rh_config \<Rightarrow> ('a, 'p) robin_hash \<Rightarrow> u64 \<Rightarrow> u64 \<Rightarrow> ('a, 'p) robin_hash option" where
  "shift_loop cfg t previous_ibucket ibucket =
     (if b_dist (bucket_at t ibucket) > 0 then
        let b = bucket_at t ibucket;
            t = upd_bucket previous_ibucket (set_value_of_empty_bucket (STORE_HASH cfg) (b_dist b - 1)
                  (truncated_hash (STORE_HASH cfg) b) (bucket_value b)) t;
            t = upd_bucket ibucket bucket_clear t
        in shift_loop cfg t ibucket (next_bucket cfg t ibucket)
      else Some t)"

declare shift_loop.simps [code]

definition erase_from_bucket ::
    "('a, 'k, 'p) rh_config \<Rightarrow> u64 \<Rightarrow> ('a, 'p) robin_hash \<Rightarrow> ('a, 'p) robin_hash option" where
  "erase_from_bucket cfg pos t =
     (let t = upd_bucket pos bucket_clear t;
          t = t\<lparr>m_nb_elements := m_nb_elements t - 1\<rparr>
      in map_option (\<lambda>t. t\<lparr>m_try_shrink_on_next_insert := True\<rparr>)
           (shift_loop cfg t pos (next_bucket cfg t pos)))"

definition erase_pos ::
    "('a, 'k, 'p) rh_config \<Rightarrow> u64 \<Rightarrow> ('a, 'p) robin_hash \<Rightarrow> (u64 \<times> ('a, 'p) robin_hash) option" where
  "erase_pos cfg pos t =
     Option.bind (erase_from_bucket cfg pos t) (\<lambda>t.
       if bucket_empty (bucket_at t pos) then map_option (\<lambda>nx. (nx, t)) (robin_next t pos)
       else Some (pos, t))"

definition erase_key ::
    "('a, 'k, 'p) rh_config \<Rightarrow> 'k \<Rightarrow> u64 \<Rightarrow> ('a, 'p) robin_hash \<Rightarrow> (u64 \<times> ('a, 'p) robin_hash) option" where
  "erase_key cfg key h t =
     Option.bind (find_impl cfg t key h) (\<lambda>pos.
       if pos \<noteq> robin_end t then map_option (\<lambda>t. (1, t)) (erase_from_bucket cfg pos t)
       else Some (0, t))"

text \<open>The first loop of \<open>erase(first, last)\<close>, the position it returns and the second loop.\<close>

definition clear_bucket_counted :: "u64 \<Rightarrow> ('a, 'p) robin_hash \<Rightarrow> ('a, 'p) robin_hash" where
  "clear_bucket_counted i t =
     (if \<not> bucket_empty (bucket_at t i)
      then (upd_bucket i bucket_clear t)\<lparr>m_nb_elements := m_nb_elements t - 1\<rparr> else t)"

definition closer_bucket :: "('a, 'p) robin_hash \<Rightarrow> u64 \<Rightarrow> u64 \<Rightarrow> u64" where
  "closer_bucket t icloser ito_move =
     ito_move - min (ito_move - icloser) (of_int (b_dist (bucket_at t ito_move)))"

partial_function (option) closer_loop ::
    "('a, 'k, 'p) rh_config \<Rightarrow> ('a, 'p) robin_hash \<Rightarrow> u64 \<Rightarrow> u64 \<Rightarrow> ('a, 'p) robin_hash option" where
  "closer_loop cfg t icloser ito_move =
     (if ito_move < m_bucket_count t \<and> b_dist (bucket_at t ito_move) > 0 then
        let icloser = closer_bucket t icloser ito_move;
            b = bucket_at t ito_move;
            new_distance = sint (of_int (b_dist b) - ucast (ito_move - icloser) :: 16 word);
            t = upd_bucket icloser (set_value_of_empty_bucket (STORE_HASH cfg) new_distance
                  (truncated_hash (STORE_HASH cfg) b) (bucket_value b)) t;
            t = upd_bucket ito_move bucket_clear t
        in closer_loop cfg t (icloser + 1) (ito_move + 1)
      else Some t)"

declare closer_loop.simps [code]

definition erase_range ::
    "('a, 'k, 'p) rh_config \<Rightarrow> u64 \<Rightarrow> u64 \<Rightarrow> ('a, 'p) robin_hash \<Rightarrow> (u64 \<times> ('a, 'p) robin_hash) option" where
  "erase_range cfg first_it last_it t =
     (if first_it = last_it then Some (first_it, t)
      else
        let t = fold clear_bucket_counted (map of_nat [unat first_it..<unat last_it]) t in
        if last_it = robin_end t then Some (robin_end t, t\<lparr>m_try_shrink_on_next_insert := True\<rparr>)
        else
          let ireturn_bucket = closer_bucket t first_it last_it
          in map_option (\<lambda>t. (ireturn_bucket, t\<lparr>m_try_shrink_on_next_insert := True\<rparr>))
               (closer_loop cfg t first_it last_it))"

definition clear_and_shrink :: "('a, 'k, 'p) rh_config \<Rightarrow> ('a, 'p) robin_hash \<Rightarrow> ('a, 'p) robin_hash" where
  "clear_and_shrink cfg t =
     t\<lparr>rh_pol := clear_policy (rh_policy cfg) (rh_pol t), m_buckets_data := [], m_bucket_count := 0,
       m_nb_elements := 0, m_load_threshold := 0, m_grow_on_next_insert := False,
       m_try_shrink_on_next_insert := False\<rparr>"

definition robin_clear :: "('a, 'k, 'p) rh_config \<Rightarrow> ('a, 'p) robin_hash \<Rightarrow> ('a, 'p) robin_hash" where
  "robin_clear cfg t =
     (if m_min_load_factor t > 0 then clear_and_shrink cfg t
      else t\<lparr>m_buckets_data := map bucket_clear (m_buckets_data t), m_nb_elements := 0,
             m_grow_on_next_insert := False\<rparr>)"

section \<open>Copying, moving, exchanging\<close>

definition robin_copy :: "('a, 'p) robin_hash \<Rightarrow> ('a, 'p) robin_hash" where
  "robin_copy other = other\<lparr>m_buckets_data := map bucket_copy (m_buckets_data other)\<rparr>"

definition robin_swap ::
    "('a, 'p) robin_hash \<times> ('a, 'p) robin_hash \<Rightarrow> ('a, 'p) robin_hash \<times> ('a, 'p) robin_hash" where
  "robin_swap = (\<lambda>(this, other). (other, this))"

text \<open>The move constructor: the new table and what is left of the old one.\<close>

definition robin_move ::
    "('a, 'k, 'p) rh_config \<Rightarrow> ('a, 'p) robin_hash \<Rightarrow> ('a, 'p) robin_hash \<times> ('a, 'p) robin_hash" where
  "robin_move cfg other = (other, clear_and_shrink cfg other)"

definition robin_move_assign ::
    "('a, 'k, 'p) rh_config \<Rightarrow> ('a, 'p) robin_hash \<Rightarrow> ('a, 'p) robin_hash \<Rightarrow>
     ('a, 'p) robin_hash \<times> ('a, 'p) robin_hash" where
  "robin_move_assign cfg this other =
     (let (other, this) = robin_swap (other, this) in (this, clear_and_shrink cfg other))"

end
