(* ===== verification/RobinBuckets.thy ===== *)
theory RobinBuckets
  imports RobinOps "HOL-Library.Multiset"
begin

text \<open>
  The invariant of the buckets of a \<open>robin_hash\<close> and the two walks over them: displacement on insertion
  and the backward shift on deletion. Positions are natural numbers read modulo the number of buckets, so
  that a probe sequence is an interval. The invariant is local: the distance of a bucket exceeds the
  distance of the bucket before it by at most one, an empty bucket counting as -1.
\<close>

section \<open>The invariant\<close>

definition elem_home :: "('a, 'k, 'p) rh_config \<Rightarrow> 'p \<Rightarrow> 'a \<Rightarrow> nat" where
  "elem_home cfg p x = unat (policy_bucket (rh_policy cfg) p (rh_hash cfg (rh_key cfg x)))"

definition bucket_ok :: "('a, 'k, 'p) rh_config \<Rightarrow> 'p \<Rightarrow> nat \<Rightarrow> nat \<Rightarrow> 'a bucket_entry \<Rightarrow> bool" where
  "bucket_ok cfg p n i b \<longleftrightarrow>
     (case b_value b of
        None \<Rightarrow> b_dist b = EMPTY_MARKER
      | Some x \<Rightarrow> 0 \<le> b_dist b \<and> b_dist b < int n \<and> (elem_home cfg p x + nat (b_dist b)) mod n = i
          \<and> (STORE_HASH cfg \<longrightarrow> b_hash b = ucast (rh_hash cfg (rh_key cfg x))))"

definition dist_at :: "'a bucket_entry list \<Rightarrow> nat \<Rightarrow> int" where
  "dist_at bs v = b_dist (bs ! (v mod length bs))"

definition buckets_ok :: "('a, 'k, 'p) rh_config \<Rightarrow> 'p \<Rightarrow> 'a bucket_entry list \<Rightarrow> bool" where
  "buckets_ok cfg p bs \<longleftrightarrow> (\<forall>i < length bs. bucket_ok cfg p (length bs) i (bs ! i))
     \<and> (\<forall>v. dist_at bs (Suc v) \<le> dist_at bs v + 1)
     \<and> (\<forall>i < length bs. b_last (bs ! i) \<longleftrightarrow> Suc i = length bs)"

definition opt_mset :: "'a option \<Rightarrow> 'a multiset" where
  "opt_mset z = (case z of None \<Rightarrow> {#} | Some x \<Rightarrow> {#x#})"

definition rvalues :: "'a bucket_entry list \<Rightarrow> 'a multiset" where
  "rvalues bs = sum_list (map (\<lambda>b. opt_mset (b_value b)) bs)"

lemma opt_mset_simps [simp]: "opt_mset None = {#}" "opt_mset (Some x) = {#x#}"
  by (simp_all add: opt_mset_def)

lemma rvalues_simps [simp]:
  "rvalues [] = {#}" "rvalues (b # bs) = opt_mset (b_value b) + rvalues bs"
  "rvalues (bs @ cs) = rvalues bs + rvalues cs"
  by (simp_all add: rvalues_def)

lemma rvalues_update:
  "i < length bs \<Longrightarrow> rvalues (bs[i := b]) + opt_mset (b_value (bs ! i)) = rvalues bs + opt_mset (b_value b)"
proof -
  assume i: "i < length bs"
  have "bs = take i bs @ bs ! i # drop (Suc i) bs" using i by (rule id_take_nth_drop)
  then have "rvalues bs = rvalues (take i bs) + (opt_mset (b_value (bs ! i)) + rvalues (drop (Suc i) bs))"
    by (metis rvalues_simps(2,3))
  moreover have "rvalues (bs[i := b]) = rvalues (take i bs) + (opt_mset (b_value b) + rvalues (drop (Suc i) bs))"
    using i by (simp add: upd_conv_take_nth_drop)
  ultimately show ?thesis by (simp add: ac_simps)
qed

lemma in_rvalues: "x \<in># rvalues bs \<longleftrightarrow> (\<exists>i < length bs. b_value (bs ! i) = Some x)"
proof (induction bs)
  case (Cons b bs)
  show ?case unfolding rvalues_simps set_mset_union Un_iff Cons
    by (cases "b_value b") (auto simp: less_Suc_eq_0_disj)
qed simp

lemma size_rvalues: "size (rvalues bs) = card {i. i < length bs \<and> b_value (bs ! i) \<noteq> None}"
proof (induction bs)
  case (Cons b bs)
  let ?A = "{i. i < length bs \<and> b_value (bs ! i) \<noteq> None}"
  have "{i. i < length (b # bs) \<and> b_value ((b # bs) ! i) \<noteq> None}
      = (if b_value b = None then {} else {0}) \<union> Suc ` ?A" (is "?B = _")
    by (auto simp: less_Suc_eq_0_disj split: if_splits)
  moreover have "card (Suc ` ?A) = card ?A" by (rule card_image) simp
  moreover have "card (insert 0 (Suc ` ?A)) = Suc (card (Suc ` ?A))" by (subst card_insert_disjoint) auto
  ultimately have "card ?B = (if b_value b = None then 0 else 1) + card ?A" by (auto split: if_splits)
  then show ?case using Cons by (cases "b_value b") auto
qed simp

text \<open>Fewer values than buckets: some bucket is empty.\<close>

lemma room_empty:
  assumes "buckets_ok cfg p bs" "size (rvalues bs) < length bs"
  shows "\<exists>i < length bs. dist_at bs i = -1"
proof -
  have "\<exists>i < length bs. b_value (bs ! i) = None"
  proof (rule ccontr)
    assume "\<not> ?thesis"
    then have "{i. i < length bs \<and> b_value (bs ! i) \<noteq> None} = {i. i < length bs}" by auto
    then have "size (rvalues bs) = length bs" by (simp add: size_rvalues)
    with assms(2) show False by simp
  qed
  then obtain i where "i < length bs" "b_value (bs ! i) = None" by blast
  moreover from this have "bucket_ok cfg p (length bs) i (bs ! i)" using assms(1) by (simp add: buckets_ok_def)
  ultimately show ?thesis by (intro exI[of _ i]) (simp add: bucket_ok_def dist_at_def EMPTY_MARKER_def)
qed

lemma bucket_okD:
  assumes "bucket_ok cfg p n i b"
  shows "bucket_empty b \<longleftrightarrow> b_value b = None" "\<not> bucket_empty b \<longleftrightarrow> 0 \<le> b_dist b"
    "-1 \<le> b_dist b" "0 < n \<Longrightarrow> b_dist b < int n" "\<not> bucket_empty b \<Longrightarrow> b_value b = Some (bucket_value b)"
    "\<not> bucket_empty b \<Longrightarrow> (elem_home cfg p (bucket_value b) + nat (b_dist b)) mod n = i"
    "\<not> bucket_empty b \<Longrightarrow> STORE_HASH cfg \<Longrightarrow> b_hash b = ucast (rh_hash cfg (rh_key cfg (bucket_value b)))"
  using assms by (auto simp: bucket_ok_def bucket_empty_def bucket_value_def EMPTY_MARKER_def split: option.splits)

lemma buckets_ok_nth: "buckets_ok cfg p bs \<Longrightarrow> i < length bs \<Longrightarrow> bucket_ok cfg p (length bs) i (bs ! i)"
  by (simp add: buckets_ok_def)

lemma buckets_ok_mod:
  "buckets_ok cfg p bs \<Longrightarrow> bs \<noteq> [] \<Longrightarrow> bucket_ok cfg p (length bs) (v mod length bs) (bs ! (v mod length bs))"
  by (simp add: buckets_ok_nth)

lemma dist_at_step: "buckets_ok cfg p bs \<Longrightarrow> dist_at bs (v + k) \<le> dist_at bs v + int k"
proof (induction k)
  case (Suc k)
  have "dist_at bs (Suc (v + k)) \<le> dist_at bs (v + k) + 1" using Suc.prems by (simp add: buckets_ok_def)
  with Suc show ?case by simp
qed simp

lemma dist_at_back: "buckets_ok cfg p bs \<Longrightarrow> w \<le> v \<Longrightarrow> dist_at bs v \<le> dist_at bs w + int (v - w)"
  using dist_at_step[of cfg p bs w "v - w"] by simp

lemma dist_at_bounds:
  assumes "buckets_ok cfg p bs" "bs \<noteq> []"
  shows "-1 \<le> dist_at bs v" "dist_at bs v < int (length bs)"
  using bucket_okD(3,4)[OF buckets_ok_mod[OF assms]] assms(2) by (auto simp: dist_at_def)

lemma dist_at_mod [simp]: "dist_at bs (v mod length bs) = dist_at bs v" "dist_at bs (v + length bs) = dist_at bs v"
  by (simp_all add: dist_at_def)

text \<open>A value lies at most as far from home as there are values in front of it.\<close>

lemma dist_less_size:
  assumes "buckets_ok cfg p bs" "size (rvalues bs) < length bs"
  shows "dist_at bs v < int (size (rvalues bs))"
proof (cases "dist_at bs v < 0")
  case False
  let ?n = "length bs" and ?d = "nat (dist_at bs v)"
  have ne: "bs \<noteq> []" using assms(2) by auto
  have d: "?d < ?n" using dist_at_bounds(2)[OF assms(1) ne, of v] False by simp
  let ?w = "v + ?n"
  have full: "b_value (bs ! (u mod ?n)) \<noteq> None" if "u \<in> {?w - ?d..?w}" for u
  proof -
    have u: "u \<le> ?w" "?w - u \<le> ?d" using that by auto
    have "dist_at bs ?w \<le> dist_at bs u + int (?w - u)" using u(1) by (rule dist_at_back[OF assms(1)])
    then have "0 \<le> dist_at bs u" using u(2) False by simp
    then show ?thesis using bucket_okD(1,2)[OF buckets_ok_mod[OF assms(1) ne, of u]] by (simp add: dist_at_def)
  qed
  have "inj_on (\<lambda>u. u mod ?n) {?w - ?d..?w}"
  proof (rule linorder_inj_onI)
    fix x y assume xy: "x < y" "x \<in> {?w - ?d..?w}" "y \<in> {?w - ?d..?w}"
    then have "0 < y - x" "y - x < ?n" using d by auto
    then show "x mod ?n \<noteq> y mod ?n"
      using xy(1) by (metis mod_eq_dvd_iff_nat less_imp_le_nat nat_dvd_not_less)
  qed auto
  then have "card ((\<lambda>u. u mod ?n) ` {?w - ?d..?w}) = Suc ?d"
    using d by (subst card_image) auto
  moreover have "(\<lambda>u. u mod ?n) ` {?w - ?d..?w} \<subseteq> {i. i < ?n \<and> b_value (bs ! i) \<noteq> None}"
    using full ne by auto
  then have "card ((\<lambda>u. u mod ?n) ` {?w - ?d..?w}) \<le> size (rvalues bs)"
    unfolding size_rvalues by (intro card_mono) auto
  ultimately show ?thesis using False by linarith
next
  case True
  then show ?thesis by linarith
qed

section \<open>Writing one bucket\<close>

lemma dist_at_update:
  "bs \<noteq> [] \<Longrightarrow> dist_at (bs[v mod length bs := b]) u = (if u mod length bs = v mod length bs then b_dist b else dist_at bs u)"
  by (simp add: dist_at_def nth_list_update)

lemma mod_Suc_inj: "Suc u mod n = Suc v mod n \<longleftrightarrow> u mod n = v mod (n :: nat)"
  by (auto simp: mod_Suc split: if_splits)

lemma buckets_ok_update:
  assumes ok: "buckets_ok cfg p bs" "bs \<noteq> []"
    and b: "bucket_ok cfg p (length bs) (Suc v mod length bs) b" "b_last b = b_last (bs ! (Suc v mod length bs))"
    and prev: "b_dist b \<le> dist_at bs v + 1" and nxt: "dist_at bs (Suc (Suc v)) \<le> b_dist b + 1"
  shows "buckets_ok cfg p (bs[Suc v mod length bs := b])"
  unfolding buckets_ok_def
proof (intro conjI allI impI)
  let ?n = "length bs" and ?bs = "bs[Suc v mod length bs := b]"
  show "bucket_ok cfg p (length ?bs) i (?bs ! i)" if "i < length ?bs" for i
    using that ok b(1) by (auto simp: nth_list_update buckets_ok_nth)
  show "b_last (?bs ! i) \<longleftrightarrow> Suc i = length ?bs" if "i < length ?bs" for i
    using that ok b(2) by (simp add: nth_list_update buckets_ok_def)
  have same: "dist_at bs x = dist_at bs y" if "x mod ?n = y mod ?n" for x y
    using that by (simp add: dist_at_def)
  show "dist_at ?bs (Suc u) \<le> dist_at ?bs u + 1" for u
  proof -
    have "dist_at bs (Suc u) \<le> dist_at bs u + 1" using ok(1) by (simp add: buckets_ok_def)
    moreover have "dist_at bs (Suc u) = dist_at bs (Suc (Suc v))" if "u mod ?n = Suc v mod ?n"
      using that by (intro same) (simp add: mod_Suc_inj)
    moreover have "dist_at bs u = dist_at bs v" if "Suc u mod ?n = Suc v mod ?n"
      using that by (intro same) (simp add: mod_Suc_inj)
    ultimately show ?thesis using ok(2) prev nxt by (auto simp: dist_at_update)
  qed
qed

end
