(* ===== verification/RobinWalk.thy ===== *)
theory RobinWalk
  imports RobinBuckets
begin

text \<open>
  The walks of \<open>robin_hash\<close> over its buckets: the displacement of the two insertion loops, the probe
  loops of lookup and the backward shift, each from the invariant of theory \<open>RobinBuckets\<close>.
\<close>

section \<open>Carrying a value to its bucket\<close>

text \<open>A value \<open>x\<close> at distance \<open>d\<close> on its way to position \<open>j + 1\<close>; \<open>e\<close> is an empty bucket ahead,
  and no distance ahead exceeds \<open>M\<close>.\<close>

definition carry ::
    "('a, 'k, 'p) rh_config \<Rightarrow> 'p \<Rightarrow> int \<Rightarrow> nat \<Rightarrow> 'a bucket_entry list \<Rightarrow> nat \<Rightarrow> int \<Rightarrow> u32 \<Rightarrow> 'a \<Rightarrow> bool" where
  "carry cfg p M e bs j d h x \<longleftrightarrow> buckets_ok cfg p bs \<and> bs \<noteq> [] \<and> 0 \<le> d \<and> d \<le> M + 1 \<and> d \<le> dist_at bs j + 1
     \<and> (elem_home cfg p x + nat d) mod length bs = Suc j mod length bs
     \<and> (STORE_HASH cfg \<longrightarrow> h = ucast (rh_hash cfg (rh_key cfg x)))
     \<and> j < e \<and> length bs \<le> e \<and> e \<le> j + length bs \<and> dist_at bs e = -1
     \<and> (\<forall>v. j < v \<and> v \<le> e \<longrightarrow> dist_at bs v \<le> M) \<and> (\<forall>v. dist_at bs v \<le> M + 1)"

lemma carryD:
  assumes "carry cfg p M e bs j d h x"
  shows "buckets_ok cfg p bs" "bs \<noteq> []" "0 \<le> d" "d \<le> M + 1" "d \<le> dist_at bs j + 1"
    "(elem_home cfg p x + nat d) mod length bs = Suc j mod length bs"
    "STORE_HASH cfg \<Longrightarrow> h = ucast (rh_hash cfg (rh_key cfg x))"
    "j < e" "length bs \<le> e" "e \<le> j + length bs" "dist_at bs e = -1"
    "j < v \<Longrightarrow> v \<le> e \<Longrightarrow> dist_at bs v \<le> M" "dist_at bs u \<le> M + 1"
  using assms by (auto simp: carry_def)

lemma carry_bound: "carry cfg p M e bs j d h x \<Longrightarrow> d < int (length bs)"
proof -
  assume c: "carry cfg p M e bs j d h x"
  note D = carryD[OF c]
  have "e - length bs \<le> j" using D(10) by simp
  then have "dist_at bs j \<le> dist_at bs (e - length bs) + int (j - (e - length bs))"
    by (rule dist_at_back[OF D(1)])
  moreover have "dist_at bs (e - length bs) = dist_at bs e"
    using dist_at_mod(2)[of bs "e - length bs"] D(9) by simp
  ultimately show ?thesis using D(5,8,9,10,11) by linarith
qed

lemma carry_move:
  assumes "carry cfg p M e bs j d h x" "d \<le> dist_at bs (Suc j)"
  shows "carry cfg p M e bs (Suc j) (d + 1) h x"
proof -
  note D = carryD[OF assms(1)]
  have "Suc j \<noteq> e" using assms(2) D(3,11) by auto
  moreover have "nat (d + 1) = Suc (nat d)" using D(3) by simp
  moreover have "d \<le> M" using assms(2) D(12)[of "Suc j"] D(8) by simp
  ultimately show ?thesis using D(1,2,3,6,7,8,9,10,11,12,13) assms(2)
    by (simp add: carry_def mod_Suc)
qed

lemma apart:
  assumes "(j::nat) < v" "v \<le> j + n" "j < u" "u \<le> j + n" "u mod n = v mod n"
  shows "u = v"
proof (rule ccontr)
  assume "u \<noteq> v"
  then have "0 < (if u < v then v - u else u - v)" "(if u < v then v - u else u - v) < n" using assms by auto
  moreover have "n dvd (if u < v then v - u else u - v)"
    using assms(5) mod_eq_dvd_iff_nat[of u v n] mod_eq_dvd_iff_nat[of v u n] by auto
  ultimately show False by (meson nat_dvd_not_less)
qed

lemma set_value_simps [simp]:
  "b_dist (set_value_of_empty_bucket st d h x b) = d"
  "b_value (set_value_of_empty_bucket st d h x b) = Some x"
  "b_last (set_value_of_empty_bucket st d h x b) = b_last b"
  "b_hash (set_value_of_empty_bucket st d h x b) = (if st then h else b_hash b)"
  "b_dist (swap_with_value_in_bucket st d h x b) = d"
  "b_value (swap_with_value_in_bucket st d h x b) = Some x"
  "b_last (swap_with_value_in_bucket st d h x b) = b_last b"
  "b_hash (swap_with_value_in_bucket st d h x b) = (if st then h else b_hash b)"
  by (simp_all add: set_value_of_empty_bucket_def swap_with_value_in_bucket_def set_hash_def)

text \<open>Writing the carried value into its bucket, whichever value was there.\<close>

lemma carry_write:
  assumes c: "carry cfg p M e bs j d h x" and gt: "dist_at bs (Suc j) < d"
    and b: "b_dist b = d" "b_value b = Some x" "b_last b = b_last (bs ! (Suc j mod length bs))"
      "STORE_HASH cfg \<Longrightarrow> b_hash b = h"
  defines "bs' \<equiv> bs[Suc j mod length bs := b]"
  shows "buckets_ok cfg p bs'"
    "rvalues bs' + opt_mset (b_value (bs ! (Suc j mod length bs))) = add_mset x (rvalues bs)"
    "dist_at bs' v \<le> M + 1"
proof -
  note D = carryD[OF c]
  have bo: "bucket_ok cfg p (length bs) (Suc j mod length bs) b"
    using D(3,6,7) b carry_bound[OF c] by (simp add: bucket_ok_def)
  have "dist_at bs (Suc (Suc j)) \<le> dist_at bs (Suc j) + 1" using D(1) by (simp add: buckets_ok_def)
  then show "buckets_ok cfg p bs'"
    unfolding bs'_def using gt D(5) b(1) by (intro buckets_ok_update[OF D(1,2) bo b(3)]) auto
  have "Suc j mod length bs < length bs" using D(2) by simp
  from rvalues_update[OF this, of b]
  show "rvalues bs' + opt_mset (b_value (bs ! (Suc j mod length bs))) = add_mset x (rvalues bs)"
    by (simp add: bs'_def b(2))
  show "dist_at bs' v \<le> M + 1"
    using D(2,4) D(13)[of v] b(1) by (simp add: bs'_def dist_at_update)
qed

lemma carry_place:
  assumes c: "carry cfg p M e bs j d h x" and em: "bucket_empty (bs ! (Suc j mod length bs))"
  defines "bs' \<equiv> bs[Suc j mod length bs := set_value_of_empty_bucket (STORE_HASH cfg) d h x (bs ! (Suc j mod length bs))]"
  shows "buckets_ok cfg p bs'" "rvalues bs' = add_mset x (rvalues bs)" "dist_at bs' v \<le> M + 1"
proof -
  note D = carryD[OF c]
  have v: "b_value (bs ! (Suc j mod length bs)) = None" "dist_at bs (Suc j) = -1"
    using em bucket_okD(1)[OF buckets_ok_mod[OF D(1,2), of "Suc j"]]
    by (auto simp: dist_at_def bucket_empty_def EMPTY_MARKER_def)
  then have gt: "dist_at bs (Suc j) < d" using D(3) by simp
  note w = carry_write[OF c gt, of "set_value_of_empty_bucket (STORE_HASH cfg) d h x (bs ! (Suc j mod length bs))"]
  show "buckets_ok cfg p bs'" "dist_at bs' v \<le> M + 1" unfolding bs'_def by (rule w; simp)+
  show "rvalues bs' = add_mset x (rvalues bs)" using w(2) v(1) by (simp add: bs'_def)
qed

lemma carry_swap:
  assumes c: "carry cfg p M e bs j d h x" and gt: "dist_at bs (Suc j) < d"
    and full: "\<not> bucket_empty (bs ! (Suc j mod length bs))"
    and out: "swapped_out (STORE_HASH cfg) h (bs ! (Suc j mod length bs)) = (d', h', x')"
  defines "bs' \<equiv> bs[Suc j mod length bs := swap_with_value_in_bucket (STORE_HASH cfg) d h x (bs ! (Suc j mod length bs))]"
  shows "carry cfg p M e bs' (Suc j) (d' + 1) h' x'" "add_mset x' (rvalues bs') = add_mset x (rvalues bs)"
proof -
  note D = carryD[OF c]
  let ?b = "bs ! (Suc j mod length bs)"
  note B = bucket_okD[OF buckets_ok_mod[OF D(1,2), of "Suc j"]]
  have o: "d' = dist_at bs (Suc j)" "x' = bucket_value ?b" "STORE_HASH cfg \<Longrightarrow> h' = b_hash ?b"
    using out by (auto simp: swapped_out_def dist_at_def split: if_splits)
  have d': "0 \<le> d'" using B(2) full by (simp add: o(1) dist_at_def)
  have ne: "Suc j \<noteq> e" using d' D(11) o(1) by auto
  note w = carry_write[OF c gt, of "swap_with_value_in_bucket (STORE_HASH cfg) d h x ?b"]
  have w1: "buckets_ok cfg p bs'" and w3: "dist_at bs' u \<le> M + 1" for u unfolding bs'_def by (rule w; simp)+
  have far: "dist_at bs' v = dist_at bs v" if "Suc j < v" "v \<le> e" for v
    using that apart[of j "Suc j" "length bs" v] D(2,10) by (auto simp: bs'_def dist_at_update)
  have j': "dist_at bs' (Suc j) = d" using D(2) by (simp add: bs'_def dist_at_update)
  have home: "(elem_home cfg p x' + nat (d' + 1)) mod length bs = Suc (Suc j) mod length bs"
  proof -
    have "(elem_home cfg p x' + nat d') mod length bs = Suc j mod length bs"
      using B(6) full o by (simp add: dist_at_def)
    then have "Suc (elem_home cfg p x' + nat d') mod length bs = Suc (Suc j) mod length bs"
      by (simp add: mod_Suc_inj)
    moreover have "nat (d' + 1) = Suc (nat d')" using d' by simp
    ultimately show ?thesis by simp
  qed
  have M: "d' \<le> M" using D(12)[of "Suc j"] D(8) o(1) by simp
  have ln: "length bs' = length bs" by (simp add: bs'_def)
  show "carry cfg p M e bs' (Suc j) (d' + 1) h' x'"
    unfolding carry_def ln
  proof (intro conjI allI impI)
    show "bs' \<noteq> []" using ln D(2) by auto
    show "d' + 1 \<le> dist_at bs' (Suc j) + 1" using gt o(1) j' by simp
    show "h' = ucast (rh_hash cfg (rh_key cfg x'))" if "STORE_HASH cfg"
      using that B(7)[OF full that] o by simp
    show "Suc j < e" using D(8) ne by simp
    show "dist_at bs' e = - 1" using far[of e] D(8,11) ne by simp
    show "dist_at bs' v \<le> M" if "Suc j < v \<and> v \<le> e" for v using that far[of v] D(12)[of v] by simp
  qed (use d' M w1 w3 home D(9,10) in auto)
  have "b_value ?b = Some x'" using B(5) full o by simp
  then show "add_mset x' (rvalues bs') = add_mset x (rvalues bs)" using w(2) by (simp add: bs'_def)
qed

text \<open>What a walk from position \<open>j + 1\<close> to at most \<open>e\<close> leaves behind.\<close>

definition walked ::
    "('a, 'k, 'p) rh_config \<Rightarrow> 'p \<Rightarrow> int \<Rightarrow> nat \<Rightarrow> nat \<Rightarrow> 'a \<Rightarrow> 'a bucket_entry list \<Rightarrow> 'a bucket_entry list \<Rightarrow> bool" where
  "walked cfg p M j e x bs bs' \<longleftrightarrow> buckets_ok cfg p bs' \<and> length bs' = length bs
     \<and> rvalues bs' = add_mset x (rvalues bs) \<and> (\<forall>v. dist_at bs' v \<le> M + 1)
     \<and> (\<forall>u. (\<forall>v. j < v \<and> v \<le> e \<longrightarrow> v mod length bs \<noteq> u mod length bs)
          \<longrightarrow> bs' ! (u mod length bs) = bs ! (u mod length bs))"

lemma walked_place:
  assumes "carry cfg p M e bs j d h x" "bucket_empty (bs ! (Suc j mod length bs))"
  shows "walked cfg p M j e x bs
    (bs[Suc j mod length bs := set_value_of_empty_bucket (STORE_HASH cfg) d h x (bs ! (Suc j mod length bs))])"
  using carry_place[OF assms] carryD(8)[OF assms(1)]
  by (auto simp: walked_def dest!: spec[of _ "Suc j"])

lemma walked_swap:
  assumes "walked cfg p M (Suc j) e x' bs' bs''"
    "bs' = bs[Suc j mod length bs := b]" "add_mset x' (rvalues bs') = add_mset x (rvalues bs)" "j < e"
  shows "walked cfg p M j e x bs bs''"
  unfolding walked_def
proof (intro conjI allI impI)
  fix u assume u: "\<forall>v. j < v \<and> v \<le> e \<longrightarrow> v mod length bs \<noteq> u mod length bs"
  then have "Suc j mod length bs \<noteq> u mod length bs" using assms(4) by (auto dest: spec[of _ "Suc j"])
  moreover have "bs'' ! (u mod length bs) = bs' ! (u mod length bs)"
    using assms(1,2) u by (auto simp: walked_def)
  ultimately show "bs'' ! (u mod length bs) = bs ! (u mod length bs)" using assms(2) by simp
qed (use assms in \<open>auto simp: walked_def\<close>)

lemma walked_move: "walked cfg p M (Suc j) e x bs bs' \<Longrightarrow> walked cfg p M j e x bs bs'"
  by (auto simp: walked_def)

end
