(* ===== verification/RobinLoops.thy ===== *)
theory RobinLoops
  imports RobinWalk
begin

text \<open>
  The loops of \<open>robin_hash\<close> on the table itself, for every growth policy that keeps the contract of the
  locale \<open>growth_policy\<close>: each returns, and what it returns is said over the lists of theory \<open>RobinWalk\<close>.
\<close>

definition shape :: "(u64 \<Rightarrow> 'p \<Rightarrow> bool) \<Rightarrow> ('a, 'p) robin_hash \<Rightarrow> bool" where
  "shape policy_ok t \<longleftrightarrow> policy_ok (m_bucket_count t) (rh_pol t) \<and> length (m_buckets_data t) = unat (m_bucket_count t)"

abbreviation vpos :: "('a, 'p) robin_hash \<Rightarrow> nat \<Rightarrow> u64" where
  "vpos t v \<equiv> of_nat (v mod length (m_buckets_data t))"

lemma inc16_Suc [simp]: "d \<le> 32766 \<Longrightarrow> inc16 d = d + 1"
  by (simp add: inc16_def)

lemma shape_data: "shape ok t \<Longrightarrow> length bs = length (m_buckets_data t) \<Longrightarrow> shape ok (t\<lparr>m_buckets_data := bs\<rparr>)"
  by (simp add: shape_def)

lemma shape_grow [simp]: "shape ok (t\<lparr>m_grow_on_next_insert := g\<rparr>) = shape ok t"
  by (simp add: shape_def)

lemma unat_vpos:
  assumes "shape ok t" "m_buckets_data t \<noteq> []"
  shows "unat (vpos t v) = v mod length (m_buckets_data t)"
proof -
  have "v mod length (m_buckets_data t) < length (m_buckets_data t)" using assms(2) by simp
  also have "\<dots> < 2 ^ 64" using assms(1) unat_lt_2p(2)[of "m_bucket_count t"] by (simp add: shape_def)
  finally show ?thesis by (simp add: unat_of_nat)
qed

lemma bucket_at_vpos:
  "shape ok t \<Longrightarrow> m_buckets_data t \<noteq> [] \<Longrightarrow> bucket_at t (vpos t v) = m_buckets_data t ! (v mod length (m_buckets_data t))"
  using unat_vpos[of ok t v] by (simp add: bucket_at_def m_buckets_def del: unat_of_nat)

lemma upd_vpos:
  "shape ok t \<Longrightarrow> m_buckets_data t \<noteq> [] \<Longrightarrow> upd_bucket (vpos t v) f t
    = t\<lparr>m_buckets_data := (m_buckets_data t)[v mod length (m_buckets_data t)
        := f (m_buckets_data t ! (v mod length (m_buckets_data t)))]\<rparr>"
  using unat_vpos[of ok t v] by (simp add: upd_bucket_def del: unat_of_nat)

locale robin = growth_policy "rh_policy cfg" policy_ok
  for cfg :: "('a, 'k, 'p) rh_config" and policy_ok :: "u64 \<Rightarrow> 'p \<Rightarrow> bool"
begin

lemma next_vpos:
  assumes s: "shape policy_ok t" "m_buckets_data t \<noteq> []"
  shows "next_bucket cfg t (vpos t v) = vpos t (Suc v)"
proof -
  let ?n = "length (m_buckets_data t)"
  have n: "unat (m_bucket_count t) = ?n" "?n < 2 ^ 64"
    using shape_def[THEN iffD1, OF s(1)] unat_lt_2p(2)[of "m_bucket_count t"] by simp_all
  have n0: "0 < ?n" using s(2) by simp
  have bc: "m_bucket_count t > 0" using n n0 by (simp add: word_less_nat_alt)
  have p: "policy_ok (m_bucket_count t) (rh_pol t)" using s by (simp add: shape_def)
  have r: "v mod ?n < ?n" using n0 by simp
  have inc: "(vpos t v + 1 :: u64) = of_nat (Suc (v mod ?n))" by simp
  show ?thesis
  proof (cases "policy_mask (rh_policy cfg)")
    case None
    have "(of_nat (Suc (v mod ?n)) :: u64) \<noteq> m_bucket_count t \<longleftrightarrow> Suc (v mod ?n) \<noteq> ?n"
    proof -
      have "unat (of_nat (Suc (v mod ?n)) :: u64) = Suc (v mod ?n)"
        using r n(2) by (simp only: unat_of_nat) simp
      then show ?thesis using n(1) by (metis unsigned_word_eqI)
    qed
    then show ?thesis using None inc by (auto simp: next_bucket_def mod_Suc simp del: of_nat_Suc)
  next
    case (Some mask_of)
    obtain k where k: "m_bucket_count t = 2 ^ k" and m: "mask_of (rh_pol t) = m_bucket_count t - 1"
      using mask_of[OF p bc Some] by blast
    have k64: "k < 64"
    proof (rule ccontr)
      assume "\<not> k < 64"
      then have "(2 ^ k :: u64) = 0" by simp
      with k bc show False by simp
    qed
    then have nk: "?n = 2 ^ k" using n(1) k unat_p2[of k, where 'a = 64] by simp
    have "next_bucket cfg t (vpos t v) = of_nat (Suc (v mod ?n)) AND (2 ^ k - 1)"
      using Some m k inc by (simp add: next_bucket_def add.commute)
    also have "\<dots> = take_bit k (of_nat (Suc (v mod ?n)))"
      by (simp only: take_bit_eq_mask mask_eq_exp_minus_1)
    also have "\<dots> = of_nat (take_bit k (Suc (v mod ?n)))" by (simp only: take_bit_of_nat)
    also have "take_bit k (Suc (v mod ?n)) = Suc v mod ?n"
      by (simp add: take_bit_eq_mod nk mod_Suc_eq)
    finally show ?thesis .
  qed
qed

section \<open>Insertion loops\<close>

lemma insert_value_on_rehash_walks:
  assumes "M \<le> 32765"
  shows "shape policy_ok t \<Longrightarrow> carry cfg (rh_pol t) M e (m_buckets_data t) j d h x \<Longrightarrow>
    \<exists>bs. insert_value_on_rehash cfg t (vpos t (Suc j)) d h x = Some (t\<lparr>m_buckets_data := bs\<rparr>)
      \<and> walked cfg (rh_pol t) M j e x (m_buckets_data t) bs"
proof (induction "e - j" arbitrary: t j d h x rule: less_induct)
  case less
  let ?bs = "m_buckets_data t" and ?i = "Suc j mod length (m_buckets_data t)"
  note c = less.prems(2)
  note D = carryD[OF c]
  note at = bucket_at_vpos[OF less.prems(1) D(2), of "Suc j"]
  note up = upd_vpos[OF less.prems(1) D(2), of "Suc j"]
  note nx = next_vpos[OF less.prems(1) D(2), of "Suc j"]
  have da: "b_dist (?bs ! ?i) = dist_at ?bs (Suc j)" by (simp add: dist_at_def)
  consider "dist_at ?bs (Suc j) < d" "bucket_empty (?bs ! ?i)"
    | "dist_at ?bs (Suc j) < d" "\<not> bucket_empty (?bs ! ?i)" | "d \<le> dist_at ?bs (Suc j)" by linarith
  then show ?case
  proof cases
    case 1
    have "insert_value_on_rehash cfg t (vpos t (Suc j)) d h x = Some (t\<lparr>m_buckets_data
        := ?bs[?i := set_value_of_empty_bucket (STORE_HASH cfg) d h x (?bs ! ?i)]\<rparr>)"
      using 1 by (subst insert_value_on_rehash.simps) (simp add: at up da)
    then show ?thesis using walked_place[OF c 1(2)] by blast
  next
    case 2
    obtain d' h' x' where o: "swapped_out (STORE_HASH cfg) h (?bs ! ?i) = (d', h', x')" by (cases "swapped_out (STORE_HASH cfg) h (?bs ! ?i)")
    define bs' where "bs' = ?bs[?i := swap_with_value_in_bucket (STORE_HASH cfg) d h x (?bs ! ?i)]"
    note cs = carry_swap[OF c 2 o, folded bs'_def]
    let ?t = "t\<lparr>m_buckets_data := bs'\<rparr>"
    have len: "length bs' = length ?bs" by (simp add: bs'_def)
    have sh: "shape policy_ok ?t" using less.prems(1) len by (rule shape_data)
    have ne: "m_buckets_data ?t \<noteq> []" using len D(2) by auto
    have d': "d' + 1 \<le> M + 1" using carryD(4)[OF cs(1)] .
    have "insert_value_on_rehash cfg t (vpos t (Suc j)) d h x
        = insert_value_on_rehash cfg ?t (vpos ?t (Suc (Suc j))) (d' + 1) h' x'"
      using 2 o next_vpos[OF sh ne, of "Suc j"] d' assms
      by (subst insert_value_on_rehash.simps) (simp add: at up da len bs'_def[symmetric])
    moreover have "\<exists>bs. insert_value_on_rehash cfg ?t (vpos ?t (Suc (Suc j))) (d' + 1) h' x' = Some (?t\<lparr>m_buckets_data := bs\<rparr>)
        \<and> walked cfg (rh_pol ?t) M (Suc j) e x' (m_buckets_data ?t) bs"
      using D(8) cs(1) by (intro less.hyps sh) auto
    then obtain bs where "insert_value_on_rehash cfg ?t (vpos ?t (Suc (Suc j))) (d' + 1) h' x' = Some (?t\<lparr>m_buckets_data := bs\<rparr>)"
      and w: "walked cfg (rh_pol ?t) M (Suc j) e x' (m_buckets_data ?t) bs" by blast
    moreover have "walked cfg (rh_pol t) M j e x ?bs bs"
      by (rule walked_swap[OF _ bs'_def cs(2) D(8)]) (use w in simp)
    ultimately show ?thesis by (intro exI[of _ bs]) simp
  next
    case 3
    have ne: "Suc j \<noteq> e" using 3 D(3,11) by auto
    have d: "d \<le> 32766" using 3 D(12)[of "Suc j"] D(8) assms by simp
    have "\<exists>bs. insert_value_on_rehash cfg t (vpos t (Suc (Suc j))) (d + 1) h x = Some (t\<lparr>m_buckets_data := bs\<rparr>)
        \<and> walked cfg (rh_pol t) M (Suc j) e x ?bs bs"
      using D(8) ne by (intro less.hyps less.prems(1) carry_move[OF c 3]) auto
    moreover have "insert_value_on_rehash cfg t (vpos t (Suc j)) d h x
        = insert_value_on_rehash cfg t (vpos t (Suc (Suc j))) (d + 1) h x"
      using 3 d by (subst insert_value_on_rehash.simps) (simp add: at nx da)
    ultimately show ?thesis by (auto intro: walked_move)
  qed
qed

lemma insert_value_loop_walks:
  assumes "M \<le> 32765"
  shows "shape policy_ok t \<Longrightarrow> carry cfg (rh_pol t) M e (m_buckets_data t) j d h x \<Longrightarrow>
    \<exists>bs g. insert_value_loop cfg t (vpos t (Suc j)) d h x = Some (t\<lparr>m_buckets_data := bs, m_grow_on_next_insert := g\<rparr>)
      \<and> walked cfg (rh_pol t) M j e x (m_buckets_data t) bs \<and> (M < DIST_LIMIT \<longrightarrow> g = m_grow_on_next_insert t)"
proof (induction "e - j" arbitrary: t j d h x rule: less_induct)
  case less
  let ?bs = "m_buckets_data t" and ?i = "Suc j mod length (m_buckets_data t)"
  note c = less.prems(2)
  note D = carryD[OF c]
  note at = bucket_at_vpos[OF less.prems(1) D(2), of "Suc j"]
  note up = upd_vpos[OF less.prems(1) D(2), of "Suc j"]
  note nx = next_vpos[OF less.prems(1) D(2), of "Suc j"]
  note E = bucket_okD(1,2,3)[OF buckets_ok_mod[OF D(1,2), of "Suc j"]]
  have da: "b_dist (?bs ! ?i) = dist_at ?bs (Suc j)" by (simp add: dist_at_def)
  show ?case
  proof (cases "bucket_empty (?bs ! ?i)")
    case True
    have "insert_value_loop cfg t (vpos t (Suc j)) d h x = Some (t\<lparr>m_buckets_data
        := ?bs[?i := set_value_of_empty_bucket (STORE_HASH cfg) d h x (?bs ! ?i)],
        m_grow_on_next_insert := m_grow_on_next_insert t\<rparr>)"
      using True by (subst insert_value_loop.simps) (simp add: at up)
    then show ?thesis using walked_place[OF c True] by blast
  next
    case full: False
    show ?thesis
    proof (cases "dist_at ?bs (Suc j) < d")
      case gt: True
      obtain d' h' x' where o: "swapped_out (STORE_HASH cfg) h (?bs ! ?i) = (d', h', x')" by (cases "swapped_out (STORE_HASH cfg) h (?bs ! ?i)")
      define bs' where "bs' = ?bs[?i := swap_with_value_in_bucket (STORE_HASH cfg) d h x (?bs ! ?i)]"
      define g where "g = (d > DIST_LIMIT \<or> m_grow_on_next_insert t)"
      note cs = carry_swap[OF c gt full o, folded bs'_def]
      let ?t = "t\<lparr>m_buckets_data := bs', m_grow_on_next_insert := g\<rparr>"
      have len: "length bs' = length ?bs" by (simp add: bs'_def)
      have sh: "shape policy_ok ?t" using shape_data[OF less.prems(1) len] by (simp add: shape_def)
      have ne: "m_buckets_data ?t \<noteq> []" using len D(2) by auto
      have d': "d' \<le> 32766" using carryD(4)[OF cs(1)] assms by simp
      have "upd_bucket (vpos t (Suc j)) (swap_with_value_in_bucket (STORE_HASH cfg) d h x)
          (if d > DIST_LIMIT then t\<lparr>m_grow_on_next_insert := True\<rparr> else t) = ?t"
        using upd_vpos[of policy_ok "t\<lparr>m_grow_on_next_insert := True\<rparr>" "Suc j"] less.prems(1) D(2)
        by (simp add: up g_def bs'_def)
      moreover have "bucket_at (if d > DIST_LIMIT then t\<lparr>m_grow_on_next_insert := True\<rparr> else t) (vpos t (Suc j)) = ?bs ! ?i"
        using bucket_at_vpos[of policy_ok "t\<lparr>m_grow_on_next_insert := True\<rparr>" "Suc j"] less.prems(1) D(2)
        by (simp add: at)
      ultimately have "insert_value_loop cfg t (vpos t (Suc j)) d h x
          = insert_value_loop cfg ?t (vpos ?t (Suc (Suc j))) (d' + 1) h' x'"
        using gt full o next_vpos[OF sh ne, of "Suc j"] d'
        by (subst insert_value_loop.simps) (simp add: at da len Let_def del: if_split cong: if_cong)
      moreover have "\<exists>bs g. insert_value_loop cfg ?t (vpos ?t (Suc (Suc j))) (d' + 1) h' x'
            = Some (?t\<lparr>m_buckets_data := bs, m_grow_on_next_insert := g\<rparr>)
          \<and> walked cfg (rh_pol ?t) M (Suc j) e x' (m_buckets_data ?t) bs
          \<and> (M < DIST_LIMIT \<longrightarrow> g = m_grow_on_next_insert ?t)"
        using D(8) cs(1) by (intro less.hyps sh) auto
      then obtain bs g' where "insert_value_loop cfg ?t (vpos ?t (Suc (Suc j))) (d' + 1) h' x'
            = Some (?t\<lparr>m_buckets_data := bs, m_grow_on_next_insert := g'\<rparr>)"
          and w: "walked cfg (rh_pol ?t) M (Suc j) e x' (m_buckets_data ?t) bs"
          and g': "M < DIST_LIMIT \<longrightarrow> g' = m_grow_on_next_insert ?t" by blast
      moreover have "walked cfg (rh_pol t) M j e x ?bs bs"
        by (rule walked_swap[OF _ bs'_def cs(2) D(8)]) (use w in simp)
      moreover have "M < DIST_LIMIT \<longrightarrow> g' = m_grow_on_next_insert t"
        using D(4) g' by (simp add: g_def DIST_LIMIT_def)
      ultimately show ?thesis by (intro exI[of _ bs] exI[of _ g']) simp
    next
      case False
      then have le: "d \<le> dist_at ?bs (Suc j)" by simp
      have ne: "Suc j \<noteq> e" using le D(3,11) by auto
      have d: "d \<le> 32766" using le D(12)[of "Suc j"] D(8) assms by simp
      have "\<exists>bs g. insert_value_loop cfg t (vpos t (Suc (Suc j))) (d + 1) h x
            = Some (t\<lparr>m_buckets_data := bs, m_grow_on_next_insert := g\<rparr>)
          \<and> walked cfg (rh_pol t) M (Suc j) e x ?bs bs \<and> (M < DIST_LIMIT \<longrightarrow> g = m_grow_on_next_insert t)"
        using D(8) ne by (intro less.hyps less.prems(1) carry_move[OF c le]) auto
      moreover have "insert_value_loop cfg t (vpos t (Suc j)) d h x = insert_value_loop cfg t (vpos t (Suc (Suc j))) (d + 1) h x"
        using full le d by (subst insert_value_loop.simps) (simp add: at nx da)
      ultimately show ?thesis by (auto intro: walked_move)
    qed
  qed
qed

end

end
