(* ===== verification/RobinSearch.thy ===== *)
theory RobinSearch
  imports RobinLoops
begin

text \<open>
  Lookup and deletion in the buckets of a \<open>robin_hash\<close>: the probe loop finds a key that is there and
  stops early otherwise, and the backward shift closes the gap an erased value leaves.
\<close>

section \<open>The probe loop\<close>

text \<open>How a probe loop that starts at \<open>home\<close> ends: after \<open>m\<close> steps, at a bucket with the key or at one
  whose value is closer to its home.\<close>

definition key_at_pos :: "('a, 'k, 'p) rh_config \<Rightarrow> 'a bucket_entry list \<Rightarrow> nat \<Rightarrow> 'k" where
  "key_at_pos cfg bs v = rh_key cfg (bucket_value (bs ! (v mod length bs)))"

definition probed :: "('a, 'k, 'p) rh_config \<Rightarrow> 'a bucket_entry list \<Rightarrow> 'k \<Rightarrow> nat \<Rightarrow> bool \<Rightarrow> nat \<Rightarrow> bool" where
  "probed cfg bs key hm hit m \<longleftrightarrow> (\<forall>i<m. int i \<le> dist_at bs (hm + i) \<and> key_at_pos cfg bs (hm + i) \<noteq> key)
     \<and> (if hit then int m \<le> dist_at bs (hm + m) \<and> key_at_pos cfg bs (hm + m) = key
        else dist_at bs (hm + m) < int m)"

lemma probed_bound: "buckets_ok cfg p bs \<Longrightarrow> bs \<noteq> [] \<Longrightarrow> probed cfg' bs key hm hit m \<Longrightarrow> m \<le> length bs"
proof (rule ccontr)
  assume a: "buckets_ok cfg p bs" "bs \<noteq> []" "probed cfg' bs key hm hit m" and "\<not> m \<le> length bs"
  moreover have "\<forall>i<m. int i \<le> dist_at bs (hm + i)" using a(3) by (simp add: probed_def)
  ultimately have "int (length bs) \<le> dist_at bs (hm + length bs)" by (meson linorder_not_le)
  with dist_at_bounds(2)[OF a(1,2), of "hm + length bs"] show False by simp
qed

text \<open>A value with the key cannot be overlooked: the distances leading to it are too large.\<close>

lemma probed_miss:
  assumes ok: "buckets_ok cfg p bs" "bs \<noteq> []" and pr: "probed cfg bs key hm False m"
    and x: "x \<in># rvalues bs" "elem_home cfg p x = hm"
  shows "rh_key cfg x \<noteq> key"
proof
  assume k: "rh_key cfg x = key"
  obtain i where i: "i < length bs" "b_value (bs ! i) = Some x" using x(1) by (auto simp: in_rvalues)
  note B = bucket_okD[OF buckets_ok_nth[OF ok(1) i(1)]]
  let ?d = "nat (b_dist (bs ! i))"
  have full: "\<not> bucket_empty (bs ! i)" using B(1) i(2) by simp
  have bv: "bucket_value (bs ! i) = x" using i(2) by (simp add: bucket_value_def)
  have at: "(hm + ?d) mod length bs = i" using B(6)[OF full] x(2) bv by simp
  have d: "dist_at bs (hm + ?d) = int ?d" using B(2) full at by (simp add: dist_at_def)
  show False
  proof (cases "?d < m")
    case True
    then have "key_at_pos cfg bs (hm + ?d) \<noteq> key" using pr by (simp add: probed_def)
    then show False using k bv at by (simp add: key_at_pos_def)
  next
    case False
    have "dist_at bs (hm + ?d) \<le> dist_at bs (hm + m) + int (hm + ?d - (hm + m))"
      using False by (intro dist_at_back[OF ok(1)]) simp
    with d pr False show False by (simp add: probed_def)
  qed
qed

lemma probed_hit:
  assumes "buckets_ok cfg p bs" "bs \<noteq> []" "probed cfg bs key hm True m"
  shows "\<not> bucket_empty (bs ! ((hm + m) mod length bs))"
    "rh_key cfg (bucket_value (bs ! ((hm + m) mod length bs))) = key"
    "bucket_value (bs ! ((hm + m) mod length bs)) \<in># rvalues bs"
proof -
  note B = bucket_okD[OF buckets_ok_mod[OF assms(1,2), of "hm + m"]]
  show f: "\<not> bucket_empty (bs ! ((hm + m) mod length bs))"
    using B(2) assms(3) by (simp add: probed_def dist_at_def)
  show "rh_key cfg (bucket_value (bs ! ((hm + m) mod length bs))) = key"
    using assms(3) by (simp add: probed_def key_at_pos_def)
  show "bucket_value (bs ! ((hm + m) mod length bs)) \<in># rvalues bs"
    using B(5)[OF f] assms(2) by (auto simp: in_rvalues intro!: exI[of _ "(hm + m) mod length bs"])
qed

text \<open>An empty bucket ahead of any position.\<close>

lemma empty_ahead:
  assumes "buckets_ok cfg p bs" "size (rvalues bs) < length bs"
  shows "\<exists>e. j < e \<and> e \<le> j + length bs \<and> dist_at bs e = -1"
proof -
  let ?n = "length bs"
  obtain i where i: "i < ?n" "dist_at bs i = -1" using room_empty[OF assms] by blast
  let ?e = "Suc j + nat ((int i - int (Suc j)) mod int ?n)"
  have n: "0 < ?n" using i(1) by linarith
  have r: "0 \<le> (int i - int (Suc j)) mod int ?n" "(int i - int (Suc j)) mod int ?n < int ?n" using n by auto
  then have "int ?e = int (Suc j) + (int i - int (Suc j)) mod int ?n" by simp
  then have "int (?e mod ?n) = (int (Suc j) + (int i - int (Suc j)) mod int ?n) mod int ?n" by (simp only: zmod_int)
  also have "\<dots> = int i mod int ?n" by (subst mod_add_right_eq) simp
  also have "\<dots> = int i" using i(1) by simp
  finally have "int (?e mod ?n) = int i" .
  then have "?e mod ?n = i mod ?n" using i(1) by simp
  then have "dist_at bs ?e = -1" using i(2) by (simp add: dist_at_def)
  moreover have "?e \<le> j + ?n" using r by linarith
  ultimately show ?thesis by (intro exI[of _ ?e]) simp
qed

lemma start_carry:
  assumes ok: "buckets_ok cfg p bs" "size (rvalues bs) < length bs"
    and pr: "\<And>i. i < m \<Longrightarrow> int i \<le> dist_at bs (elem_home cfg p x + i)" and M: "\<And>v. dist_at bs v \<le> M" "0 \<le> M"
    and h: "h = ucast (rh_hash cfg (rh_key cfg x))"
  shows "\<exists>e. carry cfg p M e bs (elem_home cfg p x + m + length bs - 1) (int m) h x"
proof -
  let ?j = "elem_home cfg p x + m + length bs - 1"
  have ne: "bs \<noteq> []" using ok(2) by auto
  obtain e where e: "?j < e" "e \<le> ?j + length bs" "dist_at bs e = -1" using empty_ahead[OF ok, of ?j] by blast
  have n: "0 < length bs" using ne by simp
  have d: "int m \<le> dist_at bs ?j + 1"
  proof (cases m)
    case 0
    then show ?thesis using dist_at_bounds(1)[OF ok(1) ne, of ?j] by simp
  next
    case (Suc i)
    then have "?j = elem_home cfg p x + i + length bs" by simp
    then show ?thesis using pr[of i] Suc by (simp del: dist_at_mod) (simp add: dist_at_def)
  qed
  have "Suc ?j = elem_home cfg p x + m + length bs" using n by simp
  then have "Suc ?j mod length bs = (elem_home cfg p x + m) mod length bs" by simp
  moreover have "int m \<le> M + 1" using d M(1)[of ?j] by linarith
  moreover have "length bs \<le> e" using e(1) n by linarith
  ultimately show ?thesis using ok ne e d h M by (intro exI[of _ e]) (auto simp: carry_def intro: order_trans[OF M(1)])
qed

context robin begin

lemma find_loop_runs:
  assumes s: "shape policy_ok t" and ne: "m_buckets_data t \<noteq> []"
    and ok: "\<And>i. i < length (m_buckets_data t) \<Longrightarrow>
      bucket_ok cfg (rh_pol t) (length (m_buckets_data t)) i (m_buckets_data t ! i)"
    and small: "\<And>v. dist_at (m_buckets_data t) v \<le> 32766" and h: "h = rh_hash cfg key"
    and pre: "\<forall>i<m. int i \<le> dist_at (m_buckets_data t) (hm + i) \<and> key_at_pos cfg (m_buckets_data t) (hm + i) \<noteq> key"
  shows "\<exists>hit m'. find_loop cfg t key h (vpos t (hm + m)) (int m) = Some (hit, vpos t (hm + m'), int m')
    \<and> probed cfg (m_buckets_data t) key hm hit m'"
  using pre
proof (induction "length (m_buckets_data t) - m" arbitrary: m rule: less_induct)
  case less
  let ?bs = "m_buckets_data t" and ?v = "hm + m"
  let ?b = "?bs ! (?v mod length ?bs)"
  note at = bucket_at_vpos[OF s ne, of ?v]
  note nx = next_vpos[OF s ne, of ?v]
  have n: "0 < length ?bs" using ne by simp
  then have bo: "bucket_ok cfg (rh_pol t) (length ?bs) (?v mod length ?bs) ?b" by (intro ok) simp
  note B = bucket_okD[OF bo]
  have da: "b_dist ?b = dist_at ?bs ?v" by (simp add: dist_at_def)
  show ?case
  proof (cases "int m \<le> dist_at ?bs ?v")
    case True
    then have full: "\<not> bucket_empty ?b" using B(2) da by simp
    have eq: "(\<not> USE_STORED_HASH_ON_LOOKUP cfg \<or> bucket_hash_equal (STORE_HASH cfg) ?b h) \<and> rh_key cfg (bucket_value ?b) = key
        \<longleftrightarrow> rh_key cfg (bucket_value ?b) = key"
      using B(7)[OF full] h by (auto simp: bucket_hash_equal_def)
    show ?thesis
    proof (cases "rh_key cfg (bucket_value ?b) = key")
      case hit: True
      then have "find_loop cfg t key h (vpos t ?v) (int m) = Some (True, vpos t ?v, int m)"
        using True eq by (subst find_loop.simps) (simp add: at da)
      moreover have "probed cfg ?bs key hm True m" using less.prems True hit by (simp add: probed_def key_at_pos_def)
      ultimately show ?thesis by blast
    next
      case miss: False
      have m: "m < length ?bs" using True B(4)[OF n] da by simp
      have "inc16 (int m) = int (Suc m)" using True small[of ?v] by simp
      then have "find_loop cfg t key h (vpos t ?v) (int m) = find_loop cfg t key h (vpos t (hm + Suc m)) (int (Suc m))"
        using True eq miss by (subst find_loop.simps) (simp add: at da nx)
      moreover have "\<exists>hit m'. find_loop cfg t key h (vpos t (hm + Suc m)) (int (Suc m)) = Some (hit, vpos t (hm + m'), int m')
          \<and> probed cfg ?bs key hm hit m'"
      proof (rule less.hyps)
        show "length ?bs - Suc m < length ?bs - m" using m by simp
        show "\<forall>i<Suc m. int i \<le> dist_at ?bs (hm + i) \<and> key_at_pos cfg ?bs (hm + i) \<noteq> key"
          using less.prems True miss by (auto simp: less_Suc_eq key_at_pos_def)
      qed
      ultimately show ?thesis by simp
    qed
  next
    case False
    then have "find_loop cfg t key h (vpos t ?v) (int m) = Some (False, vpos t ?v, int m)"
      by (subst find_loop.simps) (simp add: at da)
    moreover have "probed cfg ?bs key hm False m" using less.prems False by (simp add: probed_def)
    ultimately show ?thesis by blast
  qed
qed

lemma find_loop_probes:
  assumes s: "shape policy_ok t" and ok: "buckets_ok cfg (rh_pol t) (m_buckets_data t)" "m_buckets_data t \<noteq> []"
    and small: "\<And>v. dist_at (m_buckets_data t) v \<le> 32766" and h: "h = rh_hash cfg key"
    and pre: "\<forall>i<m. int i \<le> dist_at (m_buckets_data t) (hm + i) \<and> key_at_pos cfg (m_buckets_data t) (hm + i) \<noteq> key"
  shows "\<exists>hit m'. find_loop cfg t key h (vpos t (hm + m)) (int m) = Some (hit, vpos t (hm + m'), int m')
    \<and> probed cfg (m_buckets_data t) key hm hit m'"
  using buckets_ok_nth[OF ok(1)] by (intro find_loop_runs[OF s ok(2) _ small h pre]) simp

lemma reseek_loop_probes:
  assumes s: "shape policy_ok t" and ok: "buckets_ok cfg (rh_pol t) (m_buckets_data t)" "m_buckets_data t \<noteq> []"
    and small: "\<And>v. dist_at (m_buckets_data t) v \<le> 32766"
    and pre: "\<forall>i<m. int i \<le> dist_at (m_buckets_data t) (hm + i)"
  shows "\<exists>m'. reseek_loop cfg t (vpos t (hm + m)) (int m) = Some (vpos t (hm + m'), int m')
    \<and> (\<forall>i<m'. int i \<le> dist_at (m_buckets_data t) (hm + i)) \<and> dist_at (m_buckets_data t) (hm + m') < int m'"
  using pre
proof (induction "length (m_buckets_data t) - m" arbitrary: m rule: less_induct)
  case less
  let ?bs = "m_buckets_data t" and ?v = "hm + m"
  note at = bucket_at_vpos[OF s ok(2), of ?v]
  note nx = next_vpos[OF s ok(2), of ?v]
  have da: "b_dist (?bs ! (?v mod length ?bs)) = dist_at ?bs ?v" by (simp add: dist_at_def)
  show ?case
  proof (cases "int m \<le> dist_at ?bs ?v")
    case True
    have m: "m < length ?bs" using True dist_at_bounds(2)[OF ok, of ?v] by simp
    have "inc16 (int m) = int (Suc m)" using True small[of ?v] by simp
    then have "reseek_loop cfg t (vpos t ?v) (int m) = reseek_loop cfg t (vpos t (hm + Suc m)) (int (Suc m))"
      using True by (subst reseek_loop.simps) (simp add: at da nx)
    moreover have "\<exists>m'. reseek_loop cfg t (vpos t (hm + Suc m)) (int (Suc m)) = Some (vpos t (hm + m'), int m')
        \<and> (\<forall>i<m'. int i \<le> dist_at ?bs (hm + i)) \<and> dist_at ?bs (hm + m') < int m'"
      using m less.prems True by (intro less.hyps) (auto simp: less_Suc_eq)
    ultimately show ?thesis by simp
  next
    case False
    then have "reseek_loop cfg t (vpos t ?v) (int m) = Some (vpos t ?v, int m)"
      by (subst reseek_loop.simps) (simp add: at da)
    then show ?thesis using less.prems False by auto
  qed
qed

end

end
