(* ===== verification/RobinShift.thy ===== *)
theory RobinShift
  imports RobinSearch
begin

text \<open>
  The backward shift of \<open>erase_from_bucket\<close>: an invariant with one gap, kept by every turn of the loop,
  which ends when the next value is at home or the next bucket is empty.
\<close>

text \<open>The buckets are in order except at the gap \<open>w + 1\<close>, which is empty.\<close>

definition gap_ok :: "('a, 'k, 'p) rh_config \<Rightarrow> 'p \<Rightarrow> int \<Rightarrow> 'a bucket_entry list \<Rightarrow> nat \<Rightarrow> bool" where
  "gap_ok cfg p M bs w \<longleftrightarrow> bs \<noteq> [] \<and> (\<forall>i < length bs. bucket_ok cfg p (length bs) i (bs ! i))
     \<and> (\<forall>i < length bs. b_last (bs ! i) \<longleftrightarrow> Suc i = length bs)
     \<and> dist_at bs (Suc w) = -1 \<and> dist_at bs (Suc (Suc w)) \<le> dist_at bs w + 2
     \<and> (\<forall>u. u mod length bs \<noteq> Suc w mod length bs \<longrightarrow> dist_at bs (Suc u) \<le> dist_at bs u + 1)
     \<and> (\<forall>u. dist_at bs u \<le> M)"

lemma bucket_clear_simps [simp]:
  "b_dist (bucket_clear b) = -1" "b_last (bucket_clear b) = b_last b" "bucket_empty (bucket_clear b)"
  by (simp_all add: bucket_clear_def bucket_empty_def EMPTY_MARKER_def)

lemma bucket_clear_value: "bucket_ok cfg p n i b \<Longrightarrow> b_value (bucket_clear b) = None"
  using bucket_okD(1)[of cfg p n i b] by (auto simp: bucket_clear_def)

lemma bucket_clear_ok: "bucket_ok cfg p n i b \<Longrightarrow> bucket_ok cfg p n j (bucket_clear b)"
  using bucket_clear_value[of cfg p n i b] by (simp add: bucket_ok_def EMPTY_MARKER_def split: option.splits)

lemma bucket_clear_id: "bucket_empty b \<Longrightarrow> bucket_clear b = b"
  by (simp add: bucket_clear_def)

lemma gap_start:
  fixes w :: nat
  assumes ok: "buckets_ok cfg p bs" "bs \<noteq> []" and M: "\<And>u. dist_at bs u \<le> M" "0 \<le> M"
  defines "bs' \<equiv> bs[Suc w mod length bs := bucket_clear (bs ! (Suc w mod length bs))]"
  shows "gap_ok cfg p M bs' w"
    "rvalues bs' + opt_mset (b_value (bs ! (Suc w mod length bs))) = rvalues bs"
proof -
  let ?n = "length bs" and ?b = "bs ! (Suc w mod length bs)"
  have B: "bucket_ok cfg p ?n (Suc w mod ?n) ?b" by (rule buckets_ok_mod[OF ok])
  have step: "dist_at bs (Suc u) \<le> dist_at bs u + 1" for u using ok(1) by (simp add: buckets_ok_def)
  have lo: "-1 \<le> dist_at bs u" for u by (rule dist_at_bounds(1)[OF ok])
  have d: "dist_at bs' u = (if u mod ?n = Suc w mod ?n then -1 else dist_at bs u)" for u
    using ok(2) by (simp add: bs'_def dist_at_update)
  show "gap_ok cfg p M bs' w"
    unfolding gap_ok_def d
  proof (intro conjI allI impI)
    show "bucket_ok cfg p (length bs') i (bs' ! i)" if "i < length bs'" for i
      using that bucket_clear_ok[OF B] ok by (auto simp: bs'_def nth_list_update buckets_ok_nth)
    show "b_last (bs' ! i) \<longleftrightarrow> Suc i = length bs'" if "i < length bs'" for i
      using that ok by (auto simp: bs'_def nth_list_update buckets_ok_def)
    show "(if Suc (Suc w) mod ?n = Suc w mod ?n then - 1 else dist_at bs (Suc (Suc w)))
        \<le> (if w mod ?n = Suc w mod ?n then - 1 else dist_at bs w) + 2"
      using step[of "Suc w"] step[of w] lo[of w] by (auto simp: mod_Suc_inj)
    fix u assume "u mod length bs' \<noteq> Suc w mod length bs'"
    then show "(if Suc u mod ?n = Suc w mod ?n then - 1 else dist_at bs (Suc u))
        \<le> (if u mod ?n = Suc w mod ?n then - 1 else dist_at bs u) + 1"
      using step[of u] lo[of u] by (auto simp: bs'_def)
  qed (use ok(2) M order_trans[OF _ M(2), of "-1"] in \<open>auto simp: bs'_def\<close>)
  have "Suc w mod ?n < ?n" using ok(2) by simp
  from rvalues_update[OF this, of "bucket_clear ?b"] bucket_clear_value[OF B]
  show "rvalues bs' + opt_mset (b_value ?b) = rvalues bs" by (simp add: bs'_def)
qed

definition total_dist :: "'a bucket_entry list \<Rightarrow> nat" where
  "total_dist bs = sum_list (map (\<lambda>b. nat (b_dist b + 1)) bs)"

lemma total_dist_update:
  "i < length bs \<Longrightarrow> total_dist (bs[i := b]) + nat (b_dist (bs ! i) + 1) = total_dist bs + nat (b_dist b + 1)"
  unfolding total_dist_def using elem_le_sum_list[of i "map (\<lambda>b. nat (b_dist b + 1)) bs"]
  by (simp add: map_update sum_list_update)

text \<open>One turn: the value behind the gap moves into it.\<close>

lemma gap_step:
  assumes g: "gap_ok cfg p M bs w" and pos: "0 < dist_at bs (Suc (Suc w))"
  defines "i \<equiv> Suc w mod length bs" and "k \<equiv> Suc (Suc w) mod length bs"
  defines "b \<equiv> set_value_of_empty_bucket (STORE_HASH cfg) (b_dist (bs ! k) - 1)
      (truncated_hash (STORE_HASH cfg) (bs ! k)) (bucket_value (bs ! k)) (bs ! i)"
  defines "bs' \<equiv> bs[i := b, k := bucket_clear (bs ! k)]"
  shows "gap_ok cfg p M bs' (Suc w)" "rvalues bs' = rvalues bs" "total_dist bs' < total_dist bs" "i \<noteq> k"
proof -
  let ?n = "length bs" and ?d = "dist_at bs (Suc (Suc w))"
  have ne: "bs \<noteq> []" and hole: "dist_at bs (Suc w) = -1" and two: "?d \<le> dist_at bs w + 2"
    and bo: "\<And>j. j < ?n \<Longrightarrow> bucket_ok cfg p ?n j (bs ! j)"
    and la: "\<And>j. j < ?n \<Longrightarrow> b_last (bs ! j) \<longleftrightarrow> Suc j = ?n"
    and loc: "\<And>u. u mod ?n \<noteq> Suc w mod ?n \<Longrightarrow> dist_at bs (Suc u) \<le> dist_at bs u + 1"
    and M: "\<And>u. dist_at bs u \<le> M"
    using g by (auto simp: gap_ok_def)
  have ik: "i < ?n" "k < ?n" using ne by (simp_all add: i_def k_def)
  have dk: "b_dist (bs ! k) = ?d" and di: "b_dist (bs ! i) = -1" using hole by (simp_all add: dist_at_def i_def k_def)
  show nik: "i \<noteq> k" using dk di pos by auto
  have n2: "w mod ?n \<noteq> Suc w mod ?n" "Suc (Suc w) mod ?n \<noteq> Suc w mod ?n"
    using nik mod_Suc_inj[of w ?n "Suc w"] by (auto simp: i_def k_def)
  note K = bucket_okD[OF bo[OF ik(2)]]
  have full: "\<not> bucket_empty (bs ! k)" using K(2) dk pos by simp
  have vk: "b_value (bs ! k) = Some (bucket_value (bs ! k))" using K(5)[OF full] .
  have vi: "b_value (bs ! i) = None" using bucket_okD(1)[OF bo[OF ik(1)]] di by (simp add: bucket_empty_def EMPTY_MARKER_def)
  have home: "(elem_home cfg p (bucket_value (bs ! k)) + nat (?d - 1)) mod ?n = i"
  proof -
    have "Suc (elem_home cfg p (bucket_value (bs ! k)) + nat (?d - 1)) mod ?n = Suc (Suc w) mod ?n"
      using K(6)[OF full] pos dk by (simp add: k_def Suc_nat_eq_nat_zadd1 flip: add_Suc_right)
    then show ?thesis by (simp add: mod_Suc_inj i_def)
  qed
  have b: "bucket_ok cfg p ?n i b"
    using home pos dk K(4,7) full ik ne by (auto simp: b_def bucket_ok_def truncated_hash_def)
  have d: "dist_at bs' u = (if u mod ?n = k then -1 else if u mod ?n = i then ?d - 1 else dist_at bs u)" for u
    using ik nik by (simp add: bs'_def dist_at_def nth_list_update b_def dk)
  show "gap_ok cfg p M bs' (Suc w)"
    unfolding gap_ok_def d
  proof (intro conjI allI impI)
    show "bs' \<noteq> []" using ne by (simp add: bs'_def)
    show "bucket_ok cfg p (length bs') j (bs' ! j)" if "j < length bs'" for j
      using that b bo bucket_clear_ok[OF bo[OF ik(2)]] ik by (auto simp: bs'_def nth_list_update)
    show "b_last (bs' ! j) \<longleftrightarrow> Suc j = length bs'" if "j < length bs'" for j
      using that la ik by (auto simp: bs'_def nth_list_update b_def)
    show "(if Suc (Suc w) mod ?n = k then - 1 else if Suc (Suc w) mod ?n = i then ?d - 1 else dist_at bs (Suc (Suc w))) = - 1"
      by (simp add: k_def)
    have "dist_at bs (Suc (Suc (Suc w))) \<le> ?d + 1" using n2(2) by (rule loc)
    then show "(if Suc (Suc (Suc w)) mod ?n = k then - 1 else if Suc (Suc (Suc w)) mod ?n = i then ?d - 1
          else dist_at bs (Suc (Suc (Suc w))))
        \<le> (if Suc w mod ?n = k then - 1 else if Suc w mod ?n = i then ?d - 1 else dist_at bs (Suc w)) + 2"
      using nik pos by (auto simp: i_def)
    show "(if u mod ?n = k then - 1 else if u mod ?n = i then ?d - 1 else dist_at bs u) \<le> M" for u
      using M[of u] M[of "Suc (Suc w)"] pos by auto
    fix u assume "u mod length bs' \<noteq> Suc (Suc w) mod length bs'"
    then have uk: "u mod ?n \<noteq> k" by (simp add: bs'_def k_def)
    have wi: "u mod ?n = w mod ?n" if "Suc u mod ?n = i" using that by (simp add: i_def mod_Suc_inj)
    have du: "dist_at bs u = dist_at bs w" if "u mod ?n = w mod ?n" using that by (simp add: dist_at_def)
    have ki: "Suc u mod ?n = k \<longleftrightarrow> u mod ?n = i" by (simp add: i_def k_def mod_Suc_inj)
    show "(if Suc u mod ?n = k then - 1 else if Suc u mod ?n = i then ?d - 1 else dist_at bs (Suc u))
        \<le> (if u mod ?n = k then - 1 else if u mod ?n = i then ?d - 1 else dist_at bs u) + 1"
      using uk wi du ki two pos loc[of u] n2(1) dist_at_def by (auto simp: i_def)
  qed
  have m1: "rvalues (bs[i := b]) = rvalues bs + {#bucket_value (bs ! k)#}"
    using rvalues_update[OF ik(1), of b] vi by (simp add: b_def)
  have "bs[i := b] ! k = bs ! k" using nik by simp
  then show "rvalues bs' = rvalues bs"
    using rvalues_update[of k "bs[i := b]" "bucket_clear (bs ! k)"] ik m1 vk bucket_clear_value[OF bo[OF ik(2)]]
    by (simp add: bs'_def)
  show "total_dist bs' < total_dist bs"
    using total_dist_update[OF ik(1), of b] total_dist_update[of k "bs[i := b]" "bucket_clear (bs ! k)"] ik nik di dk pos
    by (simp add: bs'_def b_def)
qed

lemma gap_closed:
  assumes "gap_ok cfg p M bs w" "\<not> 0 < dist_at bs (Suc (Suc w))"
  shows "buckets_ok cfg p bs"
  unfolding buckets_ok_def
proof (intro conjI allI)
  fix u show "dist_at bs (Suc u) \<le> dist_at bs u + 1"
  proof (cases "u mod length bs = Suc w mod length bs")
    case True
    then have "dist_at bs (Suc u) = dist_at bs (Suc (Suc w))" "dist_at bs u = dist_at bs (Suc w)"
      using mod_Suc_inj[of u "length bs" "Suc w"] by (simp_all add: dist_at_def)
    then show ?thesis using assms by (simp add: gap_ok_def)
  qed (use assms(1) in \<open>simp add: gap_ok_def\<close>)
qed (use assms(1) in \<open>auto simp: gap_ok_def\<close>)

context robin begin

lemma shift_loop_closes:
  "shape policy_ok t \<Longrightarrow> gap_ok cfg (rh_pol t) M (m_buckets_data t) w \<Longrightarrow>
   \<exists>bs. shift_loop cfg t (vpos t (Suc w)) (vpos t (Suc (Suc w))) = Some (t\<lparr>m_buckets_data := bs\<rparr>)
     \<and> buckets_ok cfg (rh_pol t) bs \<and> length bs = length (m_buckets_data t)
     \<and> rvalues bs = rvalues (m_buckets_data t) \<and> (\<forall>u. dist_at bs u \<le> M)"
proof (induction "total_dist (m_buckets_data t)" arbitrary: t w rule: less_induct)
  case less
  let ?bs = "m_buckets_data t"
  let ?i = "Suc w mod length ?bs" and ?k = "Suc (Suc w) mod length ?bs"
  note g = less.prems(2)
  have ne: "?bs \<noteq> []" using g by (simp add: gap_ok_def)
  note at = bucket_at_vpos[OF less.prems(1) ne, of "Suc (Suc w)"]
  have da: "b_dist (?bs ! ?k) = dist_at ?bs (Suc (Suc w))" by (simp add: dist_at_def)
  show ?case
  proof (cases "0 < dist_at ?bs (Suc (Suc w))")
    case True
    define b where "b = set_value_of_empty_bucket (STORE_HASH cfg) (b_dist (?bs ! ?k) - 1)
      (truncated_hash (STORE_HASH cfg) (?bs ! ?k)) (bucket_value (?bs ! ?k)) (?bs ! ?i)"
    define bs' where "bs' = ?bs[?i := b, ?k := bucket_clear (?bs ! ?k)]"
    note gs = gap_step[OF g True, folded b_def, folded bs'_def]
    have len: "length bs' = length ?bs" by (simp add: bs'_def)
    let ?t = "t\<lparr>m_buckets_data := bs'\<rparr>" and ?t1 = "t\<lparr>m_buckets_data := ?bs[?i := b]\<rparr>"
    have sh: "shape policy_ok ?t" "shape policy_ok ?t1" using less.prems(1) len by (auto intro: shape_data)
    have ne': "m_buckets_data ?t \<noteq> []" "m_buckets_data ?t1 \<noteq> []" using len ne by auto
    have u1: "upd_bucket (vpos t (Suc w)) (set_value_of_empty_bucket (STORE_HASH cfg) (b_dist (?bs ! ?k) - 1)
        (truncated_hash (STORE_HASH cfg) (?bs ! ?k)) (bucket_value (?bs ! ?k))) t = ?t1"
      by (simp add: upd_vpos[OF less.prems(1) ne, of "Suc w"] b_def)
    have u2: "upd_bucket (vpos t (Suc (Suc w))) bucket_clear ?t1 = ?t"
      using upd_vpos[OF sh(2) ne'(2), of "Suc (Suc w)" bucket_clear] gs(4) by (simp add: bs'_def)
    have "shift_loop cfg t (vpos t (Suc w)) (vpos t (Suc (Suc w)))
        = shift_loop cfg ?t (vpos ?t (Suc (Suc w))) (vpos ?t (Suc (Suc (Suc w))))"
      using True next_vpos[OF sh(1) ne'(1), of "Suc (Suc w)"] len
      by (subst shift_loop.simps) (simp add: at da[symmetric] u1 u2 Let_def)
    moreover have "\<exists>bs. shift_loop cfg ?t (vpos ?t (Suc (Suc w))) (vpos ?t (Suc (Suc (Suc w)))) = Some (?t\<lparr>m_buckets_data := bs\<rparr>)
       \<and> buckets_ok cfg (rh_pol ?t) bs \<and> length bs = length (m_buckets_data ?t)
       \<and> rvalues bs = rvalues (m_buckets_data ?t) \<and> (\<forall>u. dist_at bs u \<le> M)"
      using gs by (intro less.hyps sh) auto
    ultimately show ?thesis using gs(2) len by auto
  next
    case False
    then have "shift_loop cfg t (vpos t (Suc w)) (vpos t (Suc (Suc w))) = Some (t\<lparr>m_buckets_data := ?bs\<rparr>)"
      by (subst shift_loop.simps) (simp add: at da)
    then show ?thesis using gap_closed[OF g False] g by (intro exI[of _ ?bs]) (simp add: gap_ok_def)
  qed
qed

end

end
