(* ===== verification/RobinTable.thy ===== *)
theory RobinTable
  imports RobinShift
begin

text \<open>
  The invariant of a whole \<open>robin_hash\<close> and its lookup, deletion and rehashing, for every growth policy
  that keeps the contract.
\<close>

section \<open>Load factors\<close>

lemma RH_load_factor_values:
  "RH_MAXIMUM_MAX_LOAD_FACTOR = 15625 / 16384" "RH_MINIMUM_MAX_LOAD_FACTOR = 13421773 / 67108864"
  "RH_DEFAULT_MAX_LOAD_FACTOR = 1 / 2"
proof -
  show "RH_MAXIMUM_MAX_LOAD_FACTOR = 15625 / 16384"
    unfolding RH_MAXIMUM_MAX_LOAD_FACTOR_def fl_round_def ilog2_def by code_simp
  have a: "to_float (2 / 10) = of_int 13421773 * (1 / 2 ^ 26)"
    by (rule fl_round_eval[where k = "-3"]) (simp_all add: power_int_def power_one_over)
  show "RH_MINIMUM_MAX_LOAD_FACTOR = 13421773 / 67108864"
    unfolding RH_MINIMUM_MAX_LOAD_FACTOR_def a by simp
  have b: "to_float (5 / 10) = of_int (2 ^ 23) * (1 / 2 ^ 24)"
    by (rule fl_round_eval[where k = "-1"]) (simp_all add: power_int_def power_one_over)
  show "RH_DEFAULT_MAX_LOAD_FACTOR = 1 / 2" unfolding RH_DEFAULT_MAX_LOAD_FACTOR_def b by simp
qed

definition max_lf_ok :: "rat \<Rightarrow> bool" where
  "max_lf_ok ml \<longleftrightarrow> RH_MINIMUM_MAX_LOAD_FACTOR \<le> ml \<and> ml \<le> RH_MAXIMUM_MAX_LOAD_FACTOR"

lemma clamp_ok: "max_lf_ok (rh_clamp ml RH_MINIMUM_MAX_LOAD_FACTOR RH_MAXIMUM_MAX_LOAD_FACTOR)"
  unfolding max_lf_ok_def rh_clamp_def RH_load_factor_values by (simp add: min_def max_def)

lemma clamp_id:
  "max_lf_ok ml \<Longrightarrow> rh_clamp ml RH_MINIMUM_MAX_LOAD_FACTOR RH_MAXIMUM_MAX_LOAD_FACTOR = ml"
  by (auto simp: max_lf_ok_def rh_clamp_def min_def max_def)

text \<open>Two roundings do not bring the threshold up to the number of buckets.\<close>

lemma load_threshold_less:
  assumes ml: "max_lf_ok ml" and n: "0 < n"
  shows "load_threshold n ml < n"
proof -
  define x :: rat where "x = of_nat (unat n)"
  have un: "0 < unat n" using n by (simp add: word_less_nat_alt)
  have x: "1 \<le> x" unfolding x_def by (rule one_le_of_nat[OF un])
  have m: "0 \<le> ml" "ml \<le> 125 / 128" using ml unfolding max_lf_ok_def RH_load_factor_values by auto
  note lt = scaled_less[OF x m]
  have "x < 2 ^ 64" unfolding x_def by (rule of_nat_less_2p) (rule unat_lt_2p)
  then have "unat (load_threshold n ml) = nat \<lfloor>to_float (to_float x * ml)\<rfloor>"
    unfolding load_threshold_def x_def[symmetric] using lt by (intro unat_trunc_u64) auto
  moreover have "\<lfloor>to_float (to_float x * ml)\<rfloor> < int (unat n)"
    using lt(2) unfolding x_def by (simp add: floor_less_iff)
  ultimately have "unat (load_threshold n ml) < unat n" using un by linarith
  then show ?thesis by (simp add: word_less_nat_alt)
qed

lemma load_threshold_0: "max_lf_ok ml \<Longrightarrow> load_threshold 0 ml = 0"
  by (simp add: load_threshold_def fl_round_def trunc_u64_def)

text \<open>The buckets \<open>rehash\<close> asks for exceed the number of elements.\<close>

lemma buckets_for_greater:
  assumes ml: "max_lf_ok ml" and n: "0 < unat n" "unat n < 2 ^ 32"
  shows "n < buckets_for n ml"
proof -
  define x e :: rat where "x = of_nat (unat n)" and "e = 1 / 2 ^ 24"
  have x: "1 \<le> x" "x < 2 ^ 32"
    unfolding x_def using one_le_of_nat[OF n(1)] of_nat_less_2p[OF n(2)] by blast+
  have e: "0 < e" "e < 1 / 1000" by (simp_all add: e_def)
  have m: "1 / 8 \<le> ml" "ml \<le> 15625 / 16384" using ml unfolding max_lf_ok_def RH_load_factor_values by auto
  have x0: "0 \<le> x" using x by simp
  have a: "x * (1 - e) \<le> to_float x" "to_float x \<le> x * (1 + e)"
    unfolding e_def by (rule fl_round_bounds[OF x0]; simp)+
  have p: "0 \<le> to_float x / ml" using a m x by (simp add: fl_round_nonneg)
  let ?y = "to_float (to_float x / ml)"
  have b: "to_float x / ml * (1 - e) \<le> ?y" "?y \<le> to_float x / ml * (1 + e)"
    unfolding e_def by (rule fl_round_bounds[OF p]; simp)+
  have "x * ml < x * ((1 - e) * (1 - e))"
  proof (intro mult_strict_left_mono)
    have "999 / 1000 * (999 / 1000) \<le> (1 - e) * (1 - e)" using e by (intro mult_mono) auto
    then show "ml < (1 - e) * (1 - e)" using m by linarith
  qed (use x in auto)
  also have "\<dots> \<le> to_float x * (1 - e)" using a(1) e by (simp only: mult.assoc[symmetric]) (intro mult_right_mono; simp)
  finally have "x < to_float x / ml * (1 - e)" using m by (simp add: pos_less_divide_eq)
  then have lo: "x < ?y" using b(1) by linarith
  have "x * (1 + e) \<le> x * 2" using x e by (intro mult_left_mono) auto
  from order_trans[OF a(2) this] have f: "0 \<le> to_float x" "to_float x \<le> x * 2" using x0 by (simp_all add: fl_round_nonneg)
  have "to_float x * 1 \<le> to_float x * (8 * ml)" using f m by (intro mult_left_mono) auto
  then have "to_float x / ml \<le> to_float x * 8" using m by (simp add: pos_divide_le_eq mult.assoc)
  moreover have "to_float x / ml * (1 + e) \<le> to_float x / ml * 2" using p e by (intro mult_left_mono) auto
  ultimately have hi: "?y < 2 ^ 40" using b(2) f(2) x(2) by simp
  have c: "x < of_int \<lceil>?y\<rceil>" using lo le_of_int_ceiling[of ?y] by linarith
  have c2: "(of_int \<lceil>?y\<rceil> :: rat) < 2 ^ 64" using hi of_int_ceiling_le_add_one[of ?y] by simp
  have "unat (buckets_for n ml) = nat \<lceil>?y\<rceil>"
    unfolding buckets_for_def x_def[symmetric] using order_less_imp_le[OF le_less_trans[OF x0 c]] c2 by (intro unat_trunc_u64[THEN trans]) simp_all
  moreover have "int (unat n) < \<lceil>?y\<rceil>" using c unfolding x_def by (metis of_int_less_iff of_int_of_nat_eq)
  ultimately show ?thesis unfolding word_less_nat_alt by linarith
qed

section \<open>The invariant\<close>

abbreviation elems :: "('a, 'p) robin_hash \<Rightarrow> 'a multiset" where
  "elems t \<equiv> rvalues (m_buckets_data t)"

definition keys_distinct :: "('a, 'k, 'p) rh_config \<Rightarrow> 'a multiset \<Rightarrow> bool" where
  "keys_distinct cfg E \<longleftrightarrow> (\<forall>k. count (image_mset (rh_key cfg) E) k \<le> 1)"

definition robin_ok :: "(u64 \<Rightarrow> 'p \<Rightarrow> bool) \<Rightarrow> ('a, 'k, 'p) rh_config \<Rightarrow> ('a, 'p) robin_hash \<Rightarrow> bool" where
  "robin_ok policy_ok cfg t \<longleftrightarrow> shape policy_ok t
     \<and> (m_buckets_data t \<noteq> [] \<longrightarrow> buckets_ok cfg (rh_pol t) (m_buckets_data t)
          \<and> unat (m_nb_elements t) < length (m_buckets_data t) \<and> m_load_threshold t < m_bucket_count t)
     \<and> (m_buckets_data t = [] \<longrightarrow> m_load_threshold t = 0)
     \<and> size (elems t) = unat (m_nb_elements t) \<and> max_lf_ok (m_max_load_factor t)
     \<and> keys_distinct cfg (elems t)"

lemma robin_okD:
  assumes "robin_ok policy_ok cfg t"
  shows "shape policy_ok t" "m_buckets_data t \<noteq> [] \<Longrightarrow> buckets_ok cfg (rh_pol t) (m_buckets_data t)"
    "m_buckets_data t \<noteq> [] \<Longrightarrow> unat (m_nb_elements t) < length (m_buckets_data t)"
    "m_buckets_data t \<noteq> [] \<Longrightarrow> m_load_threshold t < m_bucket_count t"
    "m_buckets_data t = [] \<Longrightarrow> m_load_threshold t = 0"
    "size (elems t) = unat (m_nb_elements t)" "max_lf_ok (m_max_load_factor t)" "keys_distinct cfg (elems t)"
  using assms by (auto simp: robin_ok_def)

lemma shape_empty: "shape ok t \<Longrightarrow> m_buckets_data t = [] \<longleftrightarrow> m_bucket_count t = 0"
  by (auto simp: shape_def unat_eq_zero simp flip: length_0_conv)

lemma keys_distinct_add:
  "keys_distinct cfg E \<Longrightarrow> rh_key cfg x \<notin> rh_key cfg ` set_mset E \<Longrightarrow> keys_distinct cfg (add_mset x E)"
  by (auto simp: keys_distinct_def count_eq_zero_iff)

lemma keys_distinct_less: "keys_distinct cfg (E + F) \<Longrightarrow> keys_distinct cfg E"
  unfolding keys_distinct_def by (metis add_leD1 count_union image_mset_union)

lemma keys_distinct_unique:
  assumes "keys_distinct cfg E" "x \<in># E" "y \<in># E" "rh_key cfg x = rh_key cfg y"
  shows "x = y"
proof (rule ccontr)
  assume "x \<noteq> y"
  then obtain F where "E = add_mset x (add_mset y F)"
    using assms(2,3) by (metis insert_DiffM insert_noteq_member)
  then have "2 \<le> count (image_mset (rh_key cfg) E) (rh_key cfg x)" using assms(4) by simp
  with assms(1) show False by (auto simp: keys_distinct_def dest!: spec[of _ "rh_key cfg x"])
qed

end
