(* ===== verification/RobinGrow.thy ===== *)
theory RobinGrow
  imports RobinTable
begin

text \<open>
  Construction and rehashing of a \<open>robin_hash\<close>: the new table has the elements of the old one, more
  buckets than elements, and satisfies the invariant.
\<close>

lemma fresh_buckets_ok:
  fixes cfg :: "('a, 'k, 'p) rh_config"
  assumes "0 < n"
  shows "buckets_ok cfg p ((replicate n (bucket_new False))[n - 1 := set_as_last_bucket (bucket_new False)])"
    "rvalues ((replicate n (bucket_new False))[n - 1 := set_as_last_bucket (bucket_new False)] :: 'a bucket_entry list) = {#}"
proof -
  define bs :: "'a bucket_entry list"
    where "bs = (replicate n (bucket_new False))[n - 1 := set_as_last_bucket (bucket_new False)]"
  have len: "length bs = n" by (simp add: bs_def)
  have b: "b_dist (bs ! i) = -1" "b_value (bs ! i) = None" "b_last (bs ! i) \<longleftrightarrow> Suc i = n" if "i < n" for i
    using that by (auto simp: bs_def nth_list_update bucket_new_def set_as_last_bucket_def EMPTY_MARKER_def)
  have "dist_at bs v = -1" for v using b(1)[of "v mod n"] assms by (simp add: dist_at_def len)
  then show "buckets_ok cfg p ((replicate n (bucket_new False))[n - 1 := set_as_last_bucket (bucket_new False)])"
    unfolding bs_def[symmetric] using b assms by (simp add: buckets_ok_def bucket_ok_def EMPTY_MARKER_def len)
  have "x \<notin># rvalues bs" for x using b(2) by (auto simp: in_rvalues len)
  then have "rvalues bs = {#}" by (metis multiset_nonemptyE)
  then show "rvalues ((replicate n (bucket_new False))[n - 1 := set_as_last_bucket (bucket_new False)] :: 'a bucket_entry list) = {#}"
    unfolding bs_def[symmetric] by simp
qed

lemma USE_STORED_HASH_ON_REHASH_imp:
  assumes "USE_STORED_HASH_ON_REHASH cfg n" "0 < n"
  shows "STORE_HASH cfg" "\<exists>f. policy_mask (rh_policy cfg) = Some f" "n - 1 \<le> 0xFFFFFFFF"
  using assms by (auto simp: USE_STORED_HASH_ON_REHASH_def split: if_splits)

text \<open>A mask of at most 32 bits sees the same bits in the truncated hash.\<close>

lemma truncated_mask:
  fixes h n :: u64
  assumes "n - 1 \<le> 0xFFFFFFFF"
  shows "ucast (ucast h :: u32) AND (n - 1) = h AND (n - 1)"
proof (rule bit_word_eqI)
  fix i assume "i < LENGTH(64)"
  have "bit (n - 1) i \<Longrightarrow> i < 32"
  proof (rule ccontr)
    assume b: "bit (n - 1) i" "\<not> i < 32"
    have "(2::nat) ^ 32 \<le> 2 ^ i" using b(2) by (intro power_increasing) auto
    moreover have "2 ^ i \<le> unat (n - 1)"
    proof (rule ccontr)
      assume "\<not> 2 ^ i \<le> unat (n - 1)"
      then have "unat (n - 1) div 2 ^ i = 0" by simp
      moreover have "bit (unat (n - 1)) i" using b(1) by (simp add: bit_unsigned_iff)
      ultimately show False by (simp add: bit_iff_odd)
    qed
    moreover have "unat (n - 1) \<le> 0xFFFFFFFF" using assms by (simp add: word_le_nat_alt)
    ultimately show False by simp
  qed
  then show "bit (ucast (ucast h :: u32) AND (n - 1)) i \<longleftrightarrow> bit (h AND (n - 1)) i"
    by (auto simp: bit_and_iff bit_ucast_iff)
qed

context robin begin

lemma bucket_vpos:
  assumes "shape policy_ok t" "m_buckets_data t \<noteq> []"
  shows "robin_bucket_for_hash cfg t h = vpos t (unat (policy_bucket (rh_policy cfg) (rh_pol t) h))"
proof -
  have n: "0 < m_bucket_count t" using assms(2) shape_empty[OF assms(1)] by (simp add: word_gt_0)
  have "policy_ok (m_bucket_count t) (rh_pol t)" using assms(1) by (simp add: shape_def)
  from bucket_less[OF this n, of h]
  have "unat (policy_bucket (rh_policy cfg) (rh_pol t) h) < length (m_buckets_data t)"
    using assms(1) by (simp add: shape_def word_less_nat_alt)
  then show ?thesis by (simp only: robin_bucket_for_hash_def mod_less of_nat_unat ucast_id)
qed

lemma insert_one:
  assumes s: "shape policy_ok t" and ok: "buckets_ok cfg (rh_pol t) (m_buckets_data t)"
    and room: "size (elems t) < length (m_buckets_data t)" "size (elems t) \<le> 32766"
    and h: "policy_bucket (rh_policy cfg) (rh_pol t) h = policy_bucket (rh_policy cfg) (rh_pol t) (rh_hash cfg (rh_key cfg x))"
      "truncate_hash h = ucast (rh_hash cfg (rh_key cfg x))"
  shows "\<exists>bs. insert_value_on_rehash cfg t (robin_bucket_for_hash cfg t h) 0 (truncate_hash h) x = Some (t\<lparr>m_buckets_data := bs\<rparr>)
    \<and> length bs = length (m_buckets_data t) \<and> buckets_ok cfg (rh_pol t) bs \<and> rvalues bs = add_mset x (elems t)"
proof -
  let ?bs = "m_buckets_data t" and ?hm = "elem_home cfg (rh_pol t) x"
  have ne: "?bs \<noteq> []" using room(1) by auto
  have M: "dist_at ?bs v \<le> 32765" for v using dist_less_size[OF ok room(1), of v] room(2) by simp
  obtain e where c: "carry cfg (rh_pol t) 32765 e ?bs (?hm + 0 + length ?bs - 1) (int 0) (truncate_hash h) x"
    using start_carry[OF ok room(1), of 0 x 32765] M h(2) by auto
  have "Suc (?hm + 0 + length ?bs - 1) = ?hm + length ?bs" using ne by (simp flip: length_greater_0_conv)
  then have "vpos t (Suc (?hm + 0 + length ?bs - 1)) = robin_bucket_for_hash cfg t h"
    using bucket_vpos[OF s ne, of h] h(1) by (simp add: elem_home_def)
  with insert_value_on_rehash_walks[OF order_refl s c] show ?thesis by (auto simp: walked_def)
qed

lemma rehash_fold:
  assumes "use = USE_STORED_HASH_ON_REHASH cfg n"
  shows "\<forall>b\<in>set bs. \<exists>i. bucket_ok cfg q m i b \<Longrightarrow> shape policy_ok t \<Longrightarrow> m_bucket_count t = n \<Longrightarrow>
    (m_buckets_data t \<noteq> [] \<Longrightarrow> buckets_ok cfg (rh_pol t) (m_buckets_data t)) \<Longrightarrow>
    rvalues bs = {#} \<or> size (elems t) + size (rvalues bs) \<le> length (m_buckets_data t) \<Longrightarrow>
    size (elems t) + size (rvalues bs) \<le> 32767 \<Longrightarrow>
    \<exists>cs. run_fold (rehash_bucket cfg use) bs t = ret (t\<lparr>m_buckets_data := cs\<rparr>)
      \<and> length cs = length (m_buckets_data t) \<and> (cs \<noteq> [] \<longrightarrow> buckets_ok cfg (rh_pol t) cs)
      \<and> rvalues cs = elems t + rvalues bs"
proof (induction bs arbitrary: t)
  case (Cons b bs)
  obtain i where bo: "bucket_ok cfg q m i b" using Cons.prems(1) by auto
  note B = bucket_okD[OF bo]
  show ?case
  proof (cases "bucket_empty b")
    case True
    then have "rehash_bucket cfg use b t = ret t" by (simp add: rehash_bucket_def)
    moreover have "rvalues (b # bs) = rvalues bs" using True B(1) by simp
    ultimately show ?thesis using Cons by simp
  next
    case False
    let ?x = "bucket_value b"
    have v: "rvalues (b # bs) = add_mset ?x (rvalues bs)" using B(5)[OF False] by simp
    then have room: "size (elems t) < length (m_buckets_data t)" using Cons.prems(5) by auto
    then have ne: "m_buckets_data t \<noteq> []" by auto
    have n: "0 < n" using ne Cons.prems(3) shape_empty[OF Cons.prems(2)] by (simp add: word_gt_0)
    define h where "h = (if use then ucast (truncated_hash (STORE_HASH cfg) b) else rh_hash cfg (rh_key cfg ?x))"
    have h: "policy_bucket (rh_policy cfg) (rh_pol t) h = policy_bucket (rh_policy cfg) (rh_pol t) (rh_hash cfg (rh_key cfg ?x))
        \<and> truncate_hash h = ucast (rh_hash cfg (rh_key cfg ?x))"
    proof (cases use)
      case u: True
      note U = USE_STORED_HASH_ON_REHASH_imp[OF _ n, of cfg] 
      have st: "STORE_HASH cfg" using U(1) u assms by simp
      obtain f where f: "policy_mask (rh_policy cfg) = Some f" using U(2) u assms by auto
      have le: "n - 1 \<le> 0xFFFFFFFF" using U(3) u assms by simp
      have p: "policy_ok n (rh_pol t)" using Cons.prems(2,3) by (simp add: shape_def)
      have "h = ucast (ucast (rh_hash cfg (rh_key cfg ?x)) :: u32)"
        using u st B(7)[OF False st] by (simp add: h_def truncated_hash_def)
      moreover have "truncate_hash (ucast (ucast g :: u32) :: u64) = ucast g" for g :: u64
        unfolding truncate_hash_def by (rule bit_word_eqI) (simp add: bit_ucast_iff)
      ultimately show ?thesis using mask_of[OF p n f] truncated_mask[OF le] by simp
    qed (simp add: h_def truncate_hash_def)
    have sz: "size (elems t) \<le> 32766" using Cons.prems(6) v by simp
    obtain cs where cs: "insert_value_on_rehash cfg t (robin_bucket_for_hash cfg t h) 0 (truncate_hash h) ?x
          = Some (t\<lparr>m_buckets_data := cs\<rparr>)"
        "length cs = length (m_buckets_data t)" "buckets_ok cfg (rh_pol t) cs" "rvalues cs = add_mset ?x (elems t)"
      using insert_one[OF Cons.prems(2) Cons.prems(4)[OF ne] room sz conjunct1[OF h] conjunct2[OF h]] by blast
    have st: "rehash_bucket cfg use b t = ret (t\<lparr>m_buckets_data := cs\<rparr>)"
      using False cs(1) by (simp add: rehash_bucket_def h_def[symmetric] Let_def)
    have "\<exists>ds. run_fold (rehash_bucket cfg use) bs (t\<lparr>m_buckets_data := cs\<rparr>)
          = ret (t\<lparr>m_buckets_data := cs, m_buckets_data := ds\<rparr>)
        \<and> length ds = length (m_buckets_data (t\<lparr>m_buckets_data := cs\<rparr>))
        \<and> (ds \<noteq> [] \<longrightarrow> buckets_ok cfg (rh_pol (t\<lparr>m_buckets_data := cs\<rparr>)) ds)
        \<and> rvalues ds = elems (t\<lparr>m_buckets_data := cs\<rparr>) + rvalues bs"
      using Cons.prems v cs room by (intro Cons.IH shape_data) auto
    then show ?thesis using st v cs by auto
  qed
next
  case Nil
  then show ?case by (intro exI[of _ "m_buckets_data t"]) simp
qed

lemma robin_new_ok:
  "robin_new cfg n a b = abort Length_error \<or> (\<exists>t. robin_new cfg n a b = ret t \<and> shape policy_ok t
     \<and> n \<le> m_bucket_count t \<and> (n = 0 \<longrightarrow> m_bucket_count t = 0) \<and> m_bucket_count t \<le> robin_max_bucket_count cfg
     \<and> (m_buckets_data t \<noteq> [] \<longrightarrow> buckets_ok cfg (rh_pol t) (m_buckets_data t))
     \<and> elems t = {#} \<and> m_nb_elements t = 0
     \<and> m_max_load_factor t = rh_clamp b RH_MINIMUM_MAX_LOAD_FACTOR RH_MAXIMUM_MAX_LOAD_FACTOR
     \<and> m_min_load_factor t = rh_clamp a RH_MINIMUM_MIN_LOAD_FACTOR RH_MAXIMUM_MIN_LOAD_FACTOR
     \<and> m_load_threshold t = load_threshold (m_bucket_count t) (m_max_load_factor t)
     \<and> \<not> m_grow_on_next_insert t \<and> \<not> m_try_shrink_on_next_insert t)"
proof (cases rule: create_cases[of n])
  case fails
  then show ?thesis by (simp add: robin_new_def)
next
  case (ok m p)
  show ?thesis
  proof (cases "m > robin_max_bucket_count cfg")
    case True
    then show ?thesis using ok(1) by (simp add: robin_new_def)
  next
    case False
    define bs :: "'a bucket_entry list" where
      "bs = (if m > 0 then (replicate (unat m) (bucket_new False))[unat m - 1 := set_as_last_bucket (bucket_new False)] else [])"
    have m0: "0 < m \<longleftrightarrow> 0 < unat m" by (simp add: word_less_nat_alt)
    have r: "robin_new cfg n a b = ret (set_max_load_factor b (set_min_load_factor a
        \<lparr>rh_pol = p, m_buckets_data = bs, m_bucket_count = m, m_nb_elements = 0,
         m_load_threshold = 0, m_min_load_factor = 0, m_max_load_factor = 0,
         m_grow_on_next_insert = False, m_try_shrink_on_next_insert = False\<rparr>))"
      using ok(1) False m0 by (auto simp: robin_new_def bs_def Let_def)
    have len: "length bs = unat m" using m0 by (auto simp: bs_def)
    have "bs \<noteq> [] \<longrightarrow> buckets_ok cfg p bs" "rvalues bs = {#}"
      using fresh_buckets_ok(1)[of "unat m" cfg p] fresh_buckets_ok(2)[of "unat m"] m0 by (auto simp: bs_def)
    with r ok len False show ?thesis
      by (simp add: set_max_load_factor_def set_min_load_factor_def Let_def shape_def not_less)
  qed
qed

lemma rehash_impl_ok:
  assumes ok: "robin_ok policy_ok cfg t" and small: "unat (m_nb_elements t) \<le> 32767"
    and cnt: "m_nb_elements t < cnt \<or> m_nb_elements t = 0"
  shows "rehash_impl cfg cnt t = abort Length_error \<or> (\<exists>t'. rehash_impl cfg cnt t = ret t'
    \<and> robin_ok policy_ok cfg t' \<and> elems t' = elems t \<and> cnt \<le> m_bucket_count t'
    \<and> m_nb_elements t' = m_nb_elements t \<and> m_max_load_factor t' = m_max_load_factor t
    \<and> m_load_threshold t' = load_threshold (m_bucket_count t') (m_max_load_factor t)
    \<and> m_bucket_count t' \<le> robin_max_bucket_count cfg
    \<and> \<not> m_grow_on_next_insert t' \<and> \<not> m_try_shrink_on_next_insert t')"
proof -
  note R = robin_okD[OF ok]
  let ?a = "m_min_load_factor t" and ?b = "m_max_load_factor t" and ?n = "size (elems t)"
  consider (fail) "robin_new cfg cnt ?a ?b = abort Length_error"
    | (new) s where "robin_new cfg cnt ?a ?b = ret s" "shape policy_ok s" "cnt \<le> m_bucket_count s"
      "m_bucket_count s \<le> robin_max_bucket_count cfg"
      "m_buckets_data s \<noteq> [] \<longrightarrow> buckets_ok cfg (rh_pol s) (m_buckets_data s)" "elems s = {#}"
      "m_max_load_factor s = ?b" "m_load_threshold s = load_threshold (m_bucket_count s) ?b"
      "\<not> m_grow_on_next_insert s" "\<not> m_try_shrink_on_next_insert s"
    using robin_new_ok[of cnt ?a ?b] clamp_id[OF R(7)] by auto
  then show ?thesis
  proof cases
    case fail
    then show ?thesis by (simp add: rehash_impl_def)
  next
    case new
    have bo: "\<forall>b\<in>set (m_buckets_data t). \<exists>i. bucket_ok cfg (rh_pol t) (length (m_buckets_data t)) i b"
      using R(2) buckets_ok_nth by (fastforce simp: in_set_conv_nth)
    have len: "length (m_buckets_data s) = unat (m_bucket_count s)" using new(2) by (simp add: shape_def)
    have "m_nb_elements t < m_bucket_count s \<or> m_nb_elements t = 0" using cnt new(3) by auto
    then have room: "?n < length (m_buckets_data s) \<or> elems t = {#}"
      using R(6) len by (auto simp: word_less_nat_alt)
    have "rvalues (m_buckets_data t) = {#} \<or> size (elems s) + size (rvalues (m_buckets_data t)) \<le> length (m_buckets_data s)"
      using room new(6) by auto
    then obtain cs where cs: "run_fold (rehash_bucket cfg (USE_STORED_HASH_ON_REHASH cfg (m_bucket_count s)))
          (m_buckets_data t) s = ret (s\<lparr>m_buckets_data := cs\<rparr>)" "length cs = length (m_buckets_data s)"
        "cs \<noteq> [] \<longrightarrow> buckets_ok cfg (rh_pol s) cs" "rvalues cs = elems t"
      using rehash_fold[OF refl bo new(2) refl] new(5,6) R(6) small by auto
    let ?t = "s\<lparr>m_buckets_data := cs, m_nb_elements := m_nb_elements t\<rparr>"
    have r: "rehash_impl cfg cnt t = ret ?t" using new(1) cs(1) by (simp add: rehash_impl_def)
    have ne: "cs \<noteq> [] \<longleftrightarrow> 0 < m_bucket_count s"
      using cs(2) len by (auto simp: word_less_nat_alt simp flip: length_greater_0_conv)
    have "robin_ok policy_ok cfg ?t"
      unfolding robin_ok_def
    proof (intro conjI impI)
      show "shape policy_ok ?t" using new(2) cs(2) by (simp add: shape_def)
      show "unat (m_nb_elements ?t) < length (m_buckets_data ?t)" if "m_buckets_data ?t \<noteq> []"
        using that room R(6) cs(2) by auto
      show "m_load_threshold ?t < m_bucket_count ?t" if "m_buckets_data ?t \<noteq> []"
        using that ne new(8) load_threshold_less[OF R(7)] by simp
      show "m_load_threshold ?t = 0" if "m_buckets_data ?t = []"
        using that ne new(8) load_threshold_0[OF R(7)] by (simp add: word_gt_0)
    qed (use cs R(6,7,8) new(7) in auto)
    then show ?thesis using r cs new by auto
  qed
qed

end

end
