(* ===== verification/RobinInsert.thy ===== *)
theory RobinInsert
  imports RobinGrow
begin

text \<open>
  Insertion, lookup and deletion of a \<open>robin_hash\<close> against the multiset of its elements, for tables of at
  most 32765 elements. With more, a distance could pass the range of \<open>int16_t\<close> when a rehash places
  the elements, since no limit is checked there.
\<close>

lemma elems_small_dist:
  assumes "robin_ok ok cfg t" "m_buckets_data t \<noteq> []" "unat (m_nb_elements t) \<le> 32766"
  shows "dist_at (m_buckets_data t) v \<le> 32765"
  using dist_less_size[OF robin_okD(2)[OF assms(1,2)], of v] robin_okD(3)[OF assms(1,2)] robin_okD(6)[OF assms(1)] assms(3)
  by linarith

lemma robin_ok_flags [simp]:
  "robin_ok ok cfg (t\<lparr>m_grow_on_next_insert := g\<rparr>) = robin_ok ok cfg t"
  "robin_ok ok cfg (t\<lparr>m_try_shrink_on_next_insert := s\<rparr>) = robin_ok ok cfg t"
  by (simp_all add: robin_ok_def shape_def)

lemma robin_load_factor_flag [simp]:
  "robin_load_factor (t\<lparr>m_try_shrink_on_next_insert := s\<rparr>) = robin_load_factor t"
  by (simp add: robin_load_factor_def)

text \<open>Where a probe for the home of \<open>x\<close> stops.\<close>

definition stopped :: "('a, 'k, 'p) rh_config \<Rightarrow> ('a, 'p) robin_hash \<Rightarrow> 'a \<Rightarrow> u64 \<Rightarrow> int \<Rightarrow> bool" where
  "stopped cfg t x ibucket d \<longleftrightarrow> (\<exists>m. ibucket = vpos t (elem_home cfg (rh_pol t) x + m) \<and> d = int m
     \<and> (\<forall>i<m. int i \<le> dist_at (m_buckets_data t) (elem_home cfg (rh_pol t) x + i))
     \<and> dist_at (m_buckets_data t) (elem_home cfg (rh_pol t) x + m) < int m)"

lemma stopped_flags [simp]:
  "stopped cfg (t\<lparr>m_try_shrink_on_next_insert := s\<rparr>) x i d = stopped cfg t x i d"
  by (simp add: stopped_def)

context robin begin

lemma reload_cases:
  assumes ok: "robin_ok policy_ok cfg t" and small: "unat (m_nb_elements t) \<le> 32766"
  obtains (throws) "rehash_on_extreme_load cfg d t = abort Length_error"
  | (keeps) s where "rehash_on_extreme_load cfg d t = ret (False, t\<lparr>m_try_shrink_on_next_insert := s\<rparr>)"
      "\<not> m_grow_on_next_insert t" "d \<le> DIST_LIMIT" "m_nb_elements t < m_load_threshold t"
  | (rehashes) t' where "rehash_on_extreme_load cfg d t = ret (True, t')" "robin_ok policy_ok cfg t'"
      "elems t' = elems t" "m_nb_elements t' = m_nb_elements t" "m_bucket_count t' > 0"
      "\<not> m_try_shrink_on_next_insert t'" "m_try_shrink_on_next_insert t \<or> m_bucket_count t < m_bucket_count t'"
proof -
  note R = robin_okD[OF ok]
  have small': "unat (m_nb_elements t) \<le> 32767" using small by simp
  show ?thesis
  proof (cases "m_grow_on_next_insert t \<or> d > DIST_LIMIT \<or> m_nb_elements t \<ge> m_load_threshold t")
    case ext: True
    have p: "policy_ok (m_bucket_count t) (rh_pol t)" using R(1) by (simp add: shape_def)
    consider "policy_next_count (rh_policy cfg) (rh_pol t) = abort Length_error"
      | c where "policy_next_count (rh_policy cfg) (rh_pol t) = ret c" "m_bucket_count t < c"
      using next_count[OF p] by blast
    then show ?thesis
    proof cases
      case 1
      then show ?thesis using ext by (intro throws) (simp add: rehash_on_extreme_load_def)
    next
      case 2
      have "m_nb_elements t < c \<or> m_nb_elements t = 0"
      proof (cases "m_buckets_data t = []")
        case True
        then show ?thesis using R(6) by (simp add: unat_eq_zero)
      next
        case False
        then have lt: "m_nb_elements t < m_bucket_count t"
          using R(3)[OF False] R(1) by (simp add: shape_def word_less_nat_alt)
        then show ?thesis using less_trans[OF lt 2(2)] by simp
      qed
      note ri = rehash_impl_ok[OF ok small' this]
      have eq: "rehash_on_extreme_load cfg d t
          = run_bind (rehash_impl cfg c t) (\<lambda>t. ret (True, t\<lparr>m_grow_on_next_insert := False\<rparr>))"
        using ext 2(1) by (simp add: rehash_on_extreme_load_def)
      from ri show ?thesis
      proof (elim disjE exE conjE)
        assume "rehash_impl cfg c t = abort Length_error"
        then show ?thesis using eq by (intro throws) simp
      next
        fix t' assume t': "rehash_impl cfg c t = ret t'" "robin_ok policy_ok cfg t'" "elems t' = elems t"
          "c \<le> m_bucket_count t'" "m_nb_elements t' = m_nb_elements t" "\<not> m_try_shrink_on_next_insert t'"
        have lt: "m_bucket_count t < m_bucket_count t'" using 2(2) t'(4) by simp
        have "0 < m_bucket_count t'" using le_less_trans[OF word_zero_le lt] .
        then show ?thesis using eq t' lt by (intro rehashes[of "t'\<lparr>m_grow_on_next_insert := False\<rparr>"]) simp_all
      qed
    qed
  next
    case calm: False
    then have c: "\<not> m_grow_on_next_insert t" "d \<le> DIST_LIMIT" "m_nb_elements t < m_load_threshold t" by auto
    show ?thesis
    proof (cases "m_try_shrink_on_next_insert t \<and> m_min_load_factor t \<noteq> 0 \<and> robin_load_factor t < m_min_load_factor t")
      case False
      then have "\<exists>s. rehash_on_extreme_load cfg d t = ret (False, t\<lparr>m_try_shrink_on_next_insert := s\<rparr>)"
        using c by (cases "m_try_shrink_on_next_insert t")
          (auto simp: rehash_on_extreme_load_def Let_def intro: exI[of _ False])
      then show ?thesis using c keeps by blast
    next
      case True
      let ?t = "t\<lparr>m_try_shrink_on_next_insert := False\<rparr>"
      let ?c = "max (buckets_for (m_nb_elements t + 1) (m_max_load_factor t)) (buckets_for (m_nb_elements t) (m_max_load_factor t))"
      have n1: "unat (m_nb_elements t + 1) = unat (m_nb_elements t) + 1"
        using small by (intro unat_add_u64[THEN trans]) simp_all
      have "m_nb_elements t + 1 < buckets_for (m_nb_elements t + 1) (m_max_load_factor t)"
        using small n1 by (intro buckets_for_greater[OF R(7)]) simp_all
      then have gt: "m_nb_elements t + 1 < ?c" by (simp add: less_max_iff_disj)
      then have "m_nb_elements t < ?c \<or> m_nb_elements t = 0" using n1 by (auto simp: word_less_nat_alt)
      then have ri: "rehash_impl cfg ?c ?t = abort Length_error \<or> (\<exists>t'. rehash_impl cfg ?c ?t = ret t'
          \<and> robin_ok policy_ok cfg t' \<and> elems t' = elems ?t \<and> ?c \<le> m_bucket_count t'
          \<and> m_nb_elements t' = m_nb_elements ?t \<and> m_max_load_factor t' = m_max_load_factor ?t
          \<and> m_load_threshold t' = load_threshold (m_bucket_count t') (m_max_load_factor ?t)
          \<and> m_bucket_count t' \<le> robin_max_bucket_count cfg
          \<and> \<not> m_grow_on_next_insert t' \<and> \<not> m_try_shrink_on_next_insert t')"
        using ok small' by (intro rehash_impl_ok) simp_all
      have eq: "rehash_on_extreme_load cfg d t = run_bind (rehash_impl cfg ?c ?t) (\<lambda>t. ret (True, t))"
        using c(1,2) c(3)[unfolded not_le[symmetric]] True
        by (simp add: rehash_on_extreme_load_def Let_def robin_reserve_def robin_rehash_def)
      from ri show ?thesis
      proof (elim disjE exE conjE)
        assume "rehash_impl cfg ?c ?t = abort Length_error"
        then show ?thesis using eq by (intro throws) simp
      next
        fix t' assume t': "rehash_impl cfg ?c ?t = ret t'" "robin_ok policy_ok cfg t'" "elems t' = elems ?t"
          "?c \<le> m_bucket_count t'" "m_nb_elements t' = m_nb_elements ?t" "\<not> m_try_shrink_on_next_insert t'"
        have "0 < m_bucket_count t'" using less_le_trans[OF le_less_trans[OF word_zero_le gt] t'(4)] .
        then show ?thesis using eq t' True by (intro rehashes[of t']) simp_all
      qed
    qed
  qed
qed

text \<open>The loop around the rehash returns: every turn after the first one has no shrinking to do and
  doubles the table, until the policy throws.\<close>

lemma extreme_loop_ok:
  "robin_ok policy_ok cfg t \<Longrightarrow> unat (m_nb_elements t) \<le> 32766 \<Longrightarrow>
   (m_buckets_data t \<noteq> [] \<longrightarrow> stopped cfg t x ib d) \<Longrightarrow> h = rh_hash cfg (rh_key cfg x) \<Longrightarrow>
   extreme_loop cfg h ib d t = abort Length_error \<or> (\<exists>ib' d' t'. extreme_loop cfg h ib d t = ret (ib', d', t')
     \<and> robin_ok policy_ok cfg t' \<and> elems t' = elems t \<and> m_nb_elements t' = m_nb_elements t
     \<and> m_nb_elements t' < m_load_threshold t' \<and> stopped cfg t' x ib' d' \<and> d' \<le> DIST_LIMIT)"
proof (induction "(if m_try_shrink_on_next_insert t then 1 else 0 :: nat, 2 ^ 64 - unat (m_bucket_count t))"
    arbitrary: t ib d rule: wf_induct_rule[OF wf_lex_prod[OF wf_less_than wf_less_than]])
  case (1 t ib d)
  show ?case
  proof (cases rule: reload_cases[OF "1.prems"(1,2), of d])
    case 1
    then show ?thesis by (subst (1 2) extreme_loop.simps) simp
  next
    case (2 s)
    have ne: "m_buckets_data t \<noteq> []"
    proof
      assume "m_buckets_data t = []"
      then have "m_load_threshold t = 0" using robin_okD(5)[OF "1.prems"(1)] by simp
      with 2(4) show False by simp
    qed
    have "extreme_loop cfg h ib d t = ret (ib, d, t\<lparr>m_try_shrink_on_next_insert := s\<rparr>)"
      using 2(1) by (subst extreme_loop.simps) simp
    then show ?thesis using 2 "1.prems"(1) "1.prems"(3) ne by auto
  next
    case (3 t')
    note R = robin_okD[OF 3(2)]
    have ne: "m_buckets_data t' \<noteq> []" using 3(5) shape_empty[OF R(1)] by simp
    let ?hm = "elem_home cfg (rh_pol t') x"
    have small: "unat (m_nb_elements t') \<le> 32766" using 3(4) "1.prems"(2) by simp
    have le: "dist_at (m_buckets_data t') v \<le> 32766" for v
      using elems_small_dist[OF 3(2) ne small, of v] by simp
    have "\<exists>m. reseek_loop cfg t' (vpos t' (?hm + 0)) (int 0) = Some (vpos t' (?hm + m), int m)
        \<and> (\<forall>i<m. int i \<le> dist_at (m_buckets_data t') (?hm + i)) \<and> dist_at (m_buckets_data t') (?hm + m) < int m"
      by (rule reseek_loop_probes[OF R(1) R(2)[OF ne] ne le]) simp
    then obtain m where m: "reseek_loop cfg t' (vpos t' ?hm) 0 = Some (vpos t' (?hm + m), int m)"
      "\<forall>i<m. int i \<le> dist_at (m_buckets_data t') (?hm + i)" "dist_at (m_buckets_data t') (?hm + m) < int m" by auto
    have st: "m_buckets_data t' \<noteq> [] \<longrightarrow> stopped cfg t' x (vpos t' (?hm + m)) (int m)"
      using m unfolding stopped_def by blast
    have "robin_bucket_for_hash cfg t' h = vpos t' ?hm"
      using bucket_vpos[OF R(1) ne, of h] "1.prems"(4) by (simp add: elem_home_def)
    then have eq: "extreme_loop cfg h ib d t = extreme_loop cfg h (vpos t' (?hm + m)) (int m) t'"
      using 3(1) m(1) by (subst extreme_loop.simps) simp
    have "((if m_try_shrink_on_next_insert t' then 1 else 0 :: nat, 2 ^ 64 - unat (m_bucket_count t')),
        (if m_try_shrink_on_next_insert t then 1 else 0 :: nat, 2 ^ 64 - unat (m_bucket_count t))) \<in> less_than <*lex*> less_than"
      using 3(6,7) unat_lt_2p(2)[of "m_bucket_count t'"] by (auto simp: word_less_nat_alt)
    from "1.hyps"[OF this 3(2) small st "1.prems"(4)] show ?thesis
      unfolding eq using 3(3,4) by simp
  qed
qed

text \<open>A table below its threshold, without a request to grow or shrink, is not rehashed.\<close>

lemma extreme_loop_calm:
  assumes "\<not> m_grow_on_next_insert t" "d \<le> DIST_LIMIT" "m_nb_elements t < m_load_threshold t"
    "m_min_load_factor t = 0 \<or> \<not> m_try_shrink_on_next_insert t"
  shows "extreme_loop cfg h ib d t = ret (ib, d, t\<lparr>m_try_shrink_on_next_insert := False\<rparr>)"
  using assms by (subst extreme_loop.simps)
    (auto simp: rehash_on_extreme_load_def Let_def)

lemma place_value:
  assumes s: "shape policy_ok t" and c: "carry cfg (rh_pol t) M e (m_buckets_data t) j d h x" "M \<le> 32765"
    and gt: "dist_at (m_buckets_data t) (Suc j) < d"
  shows "\<exists>bs g. (if bucket_empty (bucket_at t (vpos t (Suc j)))
        then ret (upd_bucket (vpos t (Suc j)) (set_value_of_empty_bucket (STORE_HASH cfg) d h x) t)
        else of_loop (insert_value_impl cfg t (vpos t (Suc j)) d h x))
      = ret (t\<lparr>m_buckets_data := bs, m_grow_on_next_insert := g\<rparr>)
    \<and> walked cfg (rh_pol t) M j e x (m_buckets_data t) bs
    \<and> b_value (bs ! (Suc j mod length (m_buckets_data t))) = Some x"
proof -
  let ?bs = "m_buckets_data t" and ?i = "Suc j mod length (m_buckets_data t)"
  note D = carryD[OF c(1)]
  have i: "?i < length ?bs" using D(2) by simp
  note at = bucket_at_vpos[OF s D(2), of "Suc j"]
  note up = upd_vpos[OF s D(2), of "Suc j"]
  show ?thesis
  proof (cases "bucket_empty (?bs ! ?i)")
    case True
    then show ?thesis using walked_place[OF c(1) True] i
      by (intro exI[of _ "?bs[?i := set_value_of_empty_bucket (STORE_HASH cfg) d h x (?bs ! ?i)]"]
          exI[of _ "m_grow_on_next_insert t"]) (simp add: at up)
  next
    case full: False
    obtain d' h' x' where o: "swapped_out (STORE_HASH cfg) h (?bs ! ?i) = (d', h', x')"
      by (cases "swapped_out (STORE_HASH cfg) h (?bs ! ?i)")
    define bs' where "bs' = ?bs[?i := swap_with_value_in_bucket (STORE_HASH cfg) d h x (?bs ! ?i)]"
    note cs = carry_swap[OF c(1) gt full o, folded bs'_def]
    let ?t = "t\<lparr>m_buckets_data := bs'\<rparr>"
    have len: "length bs' = length ?bs" by (simp add: bs'_def)
    have sh: "shape policy_ok ?t" using s len by (rule shape_data)
    have ne: "m_buckets_data ?t \<noteq> []" using len D(2) by auto
    have d': "d' \<le> 32766" using carryD(4)[OF cs(1)] c(2) by simp
    have c': "carry cfg (rh_pol ?t) M e (m_buckets_data ?t) (Suc j) (d' + 1) h' x'" using cs(1) by simp
    obtain bs g where w: "insert_value_loop cfg ?t (vpos ?t (Suc (Suc j))) (d' + 1) h' x'
          = Some (?t\<lparr>m_buckets_data := bs, m_grow_on_next_insert := g\<rparr>)"
        "walked cfg (rh_pol ?t) M (Suc j) e x' (m_buckets_data ?t) bs"
      using insert_value_loop_walks[OF c(2) sh c'] by blast
    have "insert_value_impl cfg t (vpos t (Suc j)) d h x = insert_value_loop cfg ?t (vpos ?t (Suc (Suc j))) (d' + 1) h' x'"
      using o d' next_vpos[OF sh ne, of "Suc j"] len
      by (simp add: insert_value_impl_def at up bs'_def[symmetric])
    moreover have "walked cfg (rh_pol t) M j e x ?bs bs"
      by (rule walked_swap[OF _ bs'_def cs(2) D(8)]) (use w(2) in simp)
    moreover have "b_value (bs ! ?i) = Some x"
    proof -
      have "v mod length bs' \<noteq> Suc j mod length bs'" if "Suc j < v" "v \<le> e" for v
        using that apart[of j "Suc j" "length ?bs" v] D(2,10) len by auto
      then have "bs ! ?i = bs' ! ?i" using w(2) len by (auto simp: walked_def)
      then show ?thesis using i by (simp add: bs'_def)
    qed
    ultimately show ?thesis using w(1) full by (intro exI[of _ bs] exI[of _ g]) (simp add: at)
  qed
qed

lemma insert_new:
  assumes ok: "robin_ok policy_ok cfg t" and st: "stopped cfg t x ib d" and thr: "m_nb_elements t < m_load_threshold t"
    and small: "\<And>v. dist_at (m_buckets_data t) v \<le> 32765" and new: "rh_key cfg x \<notin> rh_key cfg ` set_mset (elems t)"
  shows "\<exists>t'. run_bind
        (if bucket_empty (bucket_at t ib)
         then ret (upd_bucket ib (set_value_of_empty_bucket (STORE_HASH cfg) d (truncate_hash (rh_hash cfg (rh_key cfg x))) x) t)
         else of_loop (insert_value_impl cfg t ib d (truncate_hash (rh_hash cfg (rh_key cfg x))) x))
        (\<lambda>t. ret (ib, True, t\<lparr>m_nb_elements := m_nb_elements t + 1\<rparr>)) = ret (ib, True, t')
     \<and> robin_ok policy_ok cfg t' \<and> elems t' = add_mset x (elems t) \<and> b_value (bucket_at t' ib) = Some x
     \<and> ib < m_bucket_count t' \<and> m_nb_elements t' = m_nb_elements t + 1
     \<and> m_bucket_count t' = m_bucket_count t \<and> m_load_threshold t' = m_load_threshold t
     \<and> m_min_load_factor t' = m_min_load_factor t \<and> m_max_load_factor t' = m_max_load_factor t"
proof -
  note R = robin_okD[OF ok]
  let ?bs = "m_buckets_data t" and ?hm = "elem_home cfg (rh_pol t) x" and ?h = "truncate_hash (rh_hash cfg (rh_key cfg x))"
  have ne: "?bs \<noteq> []" using R(5) thr by auto
  note B = R(2)[OF ne]
  have room: "size (elems t) < length ?bs" using R(3)[OF ne] R(6) by simp
  obtain m where m: "ib = vpos t (?hm + m)" "d = int m" "\<And>i. i < m \<Longrightarrow> int i \<le> dist_at ?bs (?hm + i)"
    "dist_at ?bs (?hm + m) < int m" using st by (auto simp: stopped_def)
  let ?j = "?hm + m + length ?bs - 1"
  obtain e where c: "carry cfg (rh_pol t) 32765 e ?bs ?j (int m) ?h x"
    using start_carry[OF B room m(3), of m 32765 ?h] small by (auto simp: truncate_hash_def)
  have sj: "Suc ?j = ?hm + m + length ?bs" using ne by (simp flip: length_greater_0_conv)
  have pos: "vpos t (Suc ?j) = ib" "Suc ?j mod length ?bs = (?hm + m) mod length ?bs"
    unfolding sj m(1) by simp_all
  have gt: "dist_at ?bs (Suc ?j) < int m" using m(4) unfolding sj by simp
  obtain bs g where w: "(if bucket_empty (bucket_at t ib)
        then ret (upd_bucket ib (set_value_of_empty_bucket (STORE_HASH cfg) (int m) ?h x) t)
        else of_loop (insert_value_impl cfg t ib (int m) ?h x))
      = ret (t\<lparr>m_buckets_data := bs, m_grow_on_next_insert := g\<rparr>)"
    "walked cfg (rh_pol t) 32765 ?j e x ?bs bs" "b_value (bs ! ((?hm + m) mod length ?bs)) = Some x"
    using place_value[OF R(1) c order_refl gt] unfolding pos(2) m(1)[symmetric] by blast
  let ?t = "t\<lparr>m_buckets_data := bs, m_grow_on_next_insert := g, m_nb_elements := m_nb_elements t + 1\<rparr>"
  have len: "length bs = length ?bs" using w(2) by (simp add: walked_def)
  have bne: "bs \<noteq> []" using len ne by auto
  have thr': "m_nb_elements t + 1 < m_bucket_count t" "unat (m_nb_elements t + 1) = unat (m_nb_elements t) + 1"
  proof -
    have l: "m_load_threshold t < m_bucket_count t" using R(4)[OF ne] .
    have "unat (m_nb_elements t) + 1 \<le> unat (m_load_threshold t)" using thr by (simp add: word_less_nat_alt)
    moreover have "unat (m_load_threshold t) < unat (m_bucket_count t)" using l by (simp add: word_less_nat_alt)
    ultimately have u: "unat (m_nb_elements t) + 1 < unat (m_bucket_count t)" by linarith
    then show v: "unat (m_nb_elements t + 1) = unat (m_nb_elements t) + 1"
      using unat_lt_2p(2)[of "m_bucket_count t"] by (intro unat_add_u64[THEN trans]) simp_all
    show "m_nb_elements t + 1 < m_bucket_count t" unfolding word_less_nat_alt v by (rule u)
  qed
  have lb: "length ?bs = unat (m_bucket_count t)" using R(1) by (simp add: shape_def)
  have "robin_ok policy_ok cfg ?t"
    unfolding robin_ok_def
  proof (intro conjI impI)
    show "shape policy_ok ?t" using R(1) len by (simp add: shape_def)
    show "buckets_ok cfg (rh_pol ?t) (m_buckets_data ?t)" using w(2) by (simp add: walked_def)
    show "unat (m_nb_elements ?t) < length (m_buckets_data ?t)"
      using thr'(1) len lb by (simp add: word_less_nat_alt)
    show "keys_distinct cfg (elems ?t)" using w(2) keys_distinct_add[OF R(8) new] by (simp add: walked_def)
    show "m_load_threshold ?t < m_bucket_count ?t" using R(4)[OF ne] by simp
    show "size (elems ?t) = unat (m_nb_elements ?t)" using w(2) thr'(2) R(6) by (simp add: walked_def)
  qed (use bne R(7) in auto)
  moreover have "b_value (bucket_at ?t ib) = Some x"
  proof -
    have "unat ib = (?hm + m) mod length ?bs" unfolding m(1) by (rule unat_vpos[OF R(1) ne])
    then show ?thesis using w(3) bne by (simp add: bucket_at_def m_buckets_def)
  qed
  moreover have "ib < m_bucket_count t"
    using unat_vpos[OF R(1) ne, of "?hm + m"] ne unfolding m(1) word_less_nat_alt lb[symmetric] by (simp del: unat_of_nat)
  moreover have "run_bind
        (if bucket_empty (bucket_at t ib)
         then ret (upd_bucket ib (set_value_of_empty_bucket (STORE_HASH cfg) d ?h x) t)
         else of_loop (insert_value_impl cfg t ib d ?h x))
        (\<lambda>t. ret (ib, True, t\<lparr>m_nb_elements := m_nb_elements t + 1\<rparr>)) = ret (ib, True, ?t)"
    unfolding m(2) w(1) by simp
  ultimately show ?thesis using w(2) by (intro exI[of _ ?t]) (simp add: walked_def)
qed

end

end
