(* ===== verification/RobinApi.thy ===== *)
theory RobinApi
  imports RobinInsert
begin

text \<open>
  What the operations of a \<open>robin_hash\<close> promise, over the multiset of its elements: lookup finds exactly
  the keys that are there, insertion adds one element, deletion removes one, iteration visits each once.
\<close>

lemma shift_fields:
  "b_value (bucket_at (t\<lparr>m_nb_elements := n\<rparr>) i) = b_value (bucket_at t i)"
  by (simp add: bucket_at_def m_buckets_def)

lemma elems_remove:
  assumes "robin_ok ok cfg t" "x \<in># elems t"
  shows "keys_distinct cfg (elems t - {#x#})"
proof -
  have "keys_distinct cfg (elems t - {#x#} + {#x#})" using assms robin_okD(8)[OF assms(1)] by simp
  then show ?thesis by (rule keys_distinct_less)
qed

lemma robin_ok_shrink_flag:
  "robin_ok ok cfg (t\<lparr>m_buckets_data := bs, m_nb_elements := n, m_try_shrink_on_next_insert := s\<rparr>)
    = robin_ok ok cfg (t\<lparr>m_buckets_data := bs, m_nb_elements := n\<rparr>)"
  by (simp add: robin_ok_def shape_def)

text \<open>No distance is at the end of the range of \<open>int16_t\<close>.\<close>

definition short :: "('a, 'p) robin_hash \<Rightarrow> bool" where
  "short t \<longleftrightarrow> (\<forall>v. m_buckets_data t \<noteq> [] \<longrightarrow> dist_at (m_buckets_data t) v \<le> 32766)"

lemma shortD: "short t \<Longrightarrow> m_buckets_data t \<noteq> [] \<Longrightarrow> dist_at (m_buckets_data t) v \<le> 32766"
  by (simp add: short_def)

lemma small_short: "robin_ok ok cfg t \<Longrightarrow> unat (m_nb_elements t) \<le> 32766 \<Longrightarrow> short t"
  unfolding short_def
proof (intro allI impI)
  fix v assume "robin_ok ok cfg t" "unat (m_nb_elements t) \<le> 32766" "m_buckets_data t \<noteq> []"
  then have "dist_at (m_buckets_data t) v \<le> 32765" by (intro elems_small_dist)
  then show "dist_at (m_buckets_data t) v \<le> 32766" by simp
qed

context robin begin

section \<open>Lookup\<close>

lemma find_loop_start:
  fixes key :: 'k
  assumes ok: "robin_ok policy_ok cfg t" "m_buckets_data t \<noteq> []" and small: "short t"
  defines "hm \<equiv> unat (policy_bucket (rh_policy cfg) (rh_pol t) (rh_hash cfg key))"
  obtains hit m where
    "find_loop cfg t key (rh_hash cfg key) (robin_bucket_for_hash cfg t (rh_hash cfg key)) 0
      = Some (hit, vpos t (hm + m), int m)" "probed cfg (m_buckets_data t) key hm hit m"
proof -
  note R = robin_okD[OF ok(1)]
  have "\<exists>hit m. find_loop cfg t key (rh_hash cfg key) (vpos t (hm + 0)) (int 0) = Some (hit, vpos t (hm + m), int m)
    \<and> probed cfg (m_buckets_data t) key hm hit m"
    by (rule find_loop_probes[OF R(1) R(2)[OF ok(2)] ok(2) shortD[OF small ok(2)] refl]) simp
  then show ?thesis using that bucket_vpos[OF R(1) ok(2), of "rh_hash cfg key"] by (auto simp: hm_def)
qed

lemma vpos_less:
  assumes "shape policy_ok t" "m_buckets_data t \<noteq> []"
  shows "vpos t v < m_bucket_count t"
proof -
  have "v mod length (m_buckets_data t) < length (m_buckets_data t)" using assms(2) by simp
  then show ?thesis
    unfolding word_less_nat_alt unat_vpos[OF assms] using assms(1) by (simp only: shape_def)
qed

lemma find_loop_empty:
  assumes "robin_ok policy_ok cfg t" "m_buckets_data t = []"
  shows "find_loop cfg t key h (robin_bucket_for_hash cfg t h) 0 = Some (False, 0, 0)"
proof -
  have "m_bucket_count t = 0" using assms robin_okD(1) shape_empty by blast
  then have "policy_ok 0 (rh_pol t)" using robin_okD(1)[OF assms(1)] by (simp add: shape_def)
  then have "robin_bucket_for_hash cfg t h = 0" by (simp add: robin_bucket_for_hash_def bucket_0)
  then show ?thesis using assms(2)
    by (subst find_loop.simps) (simp add: bucket_at_def m_buckets_def bucket_new_def EMPTY_MARKER_def)
qed

lemma find_impl_cases:
  assumes ok: "robin_ok policy_ok cfg t" and small: "short t"
  obtains (found) pos x where "find_impl cfg t key (rh_hash cfg key) = Some pos" "pos < m_bucket_count t"
      "b_value (bucket_at t pos) = Some x" "x \<in># elems t" "rh_key cfg x = key" "m_buckets_data t \<noteq> []"
  | (absent) "find_impl cfg t key (rh_hash cfg key) = Some (robin_end t)" "key \<notin> rh_key cfg ` set_mset (elems t)"
proof (cases "m_buckets_data t = []")
  case True
  then show ?thesis using find_loop_empty[OF ok True] robin_okD(1)[OF ok] shape_empty
    by (intro absent) (auto simp: find_impl_def robin_end_def)
next
  case False
  let ?bs = "m_buckets_data t" and ?hm = "unat (policy_bucket (rh_policy cfg) (rh_pol t) (rh_hash cfg key))"
  note R = robin_okD[OF ok]
  obtain hit m where f: "find_loop cfg t key (rh_hash cfg key) (robin_bucket_for_hash cfg t (rh_hash cfg key)) 0
      = Some (hit, vpos t (?hm + m), int m)" "probed cfg ?bs key ?hm hit m"
    using find_loop_start[OF ok False small] by blast
  show ?thesis
  proof (cases hit)
    case True
    then have f2: "probed cfg ?bs key ?hm True m" using f(2) by simp
    note H = probed_hit[OF R(2)[OF False] False f2]
    let ?b = "?bs ! ((?hm + m) mod length ?bs)"
    have "b_value ?b = Some (bucket_value ?b)" using bucket_okD(5)[OF buckets_ok_mod[OF R(2)[OF False] False] H(1)] .
    then show ?thesis using f(1) True H(2,3) False
      by (intro found[of "vpos t (?hm + m)" "bucket_value ?b"])
        (simp_all add: find_impl_def bucket_at_vpos[OF R(1) False] vpos_less[OF R(1) False])
  next
    case miss: False
    then have f2: "probed cfg ?bs key ?hm False m" using f(2) by simp
    have "rh_key cfg x \<noteq> key" if "x \<in># elems t" for x
    proof
      assume k: "rh_key cfg x = key"
      then have "elem_home cfg (rh_pol t) x = ?hm" by (simp add: elem_home_def)
      with probed_miss[OF R(2)[OF False] False f2 that] k miss show False by simp
    qed
    then show ?thesis using f(1) miss by (intro absent) (auto simp: find_impl_def)
  qed
qed

lemma contains_correct:
  assumes "robin_ok policy_ok cfg t" "short t"
  shows "robin_contains cfg t key = Some (key \<in> rh_key cfg ` set_mset (elems t))"
  by (cases rule: find_impl_cases[OF assms, of key])
    (auto simp: robin_contains_def robin_count_def robin_end_def)

section \<open>Insertion\<close>

lemma insert_impl_cases:
  assumes ok: "robin_ok policy_ok cfg t" and small: "unat (m_nb_elements t) \<le> 32766" and key: "key = rh_key cfg x"
  obtains (there) pos y where "insert_impl cfg key x t = ret (pos, False, t)" "pos < m_bucket_count t"
      "b_value (bucket_at t pos) = Some y" "y \<in># elems t" "rh_key cfg y = key" "m_buckets_data t \<noteq> []"
  | (throws) "insert_impl cfg key x t = abort Length_error" "key \<notin> rh_key cfg ` set_mset (elems t)"
  | (added) pos t' where "insert_impl cfg key x t = ret (pos, True, t')" "key \<notin> rh_key cfg ` set_mset (elems t)"
      "robin_ok policy_ok cfg t'" "elems t' = add_mset x (elems t)" "b_value (bucket_at t' pos) = Some x"
      "pos < m_bucket_count t'" "m_nb_elements t' = m_nb_elements t + 1"
proof -
  let ?h = "rh_hash cfg key" and ?bs = "m_buckets_data t" and ?hm = "elem_home cfg (rh_pol t) x"
  note R = robin_okD[OF ok]
  have hm: "unat (policy_bucket (rh_policy cfg) (rh_pol t) ?h) = ?hm" by (simp add: elem_home_def key)
  have rest: ?thesis
    if f: "find_loop cfg t key ?h (robin_bucket_for_hash cfg t ?h) 0 = Some (False, ib, dd)"
      and st: "?bs \<noteq> [] \<longrightarrow> stopped cfg t x ib dd" and new: "key \<notin> rh_key cfg ` set_mset (elems t)" for ib dd
  proof -
    have eq: "insert_impl cfg key x t = run_bind (extreme_loop cfg ?h ib dd t) (\<lambda>(ibucket, dst, t).
            run_bind
              (if bucket_empty (bucket_at t ibucket)
               then ret (upd_bucket ibucket
                      (set_value_of_empty_bucket (STORE_HASH cfg) dst (truncate_hash ?h) x) t)
               else of_loop (insert_value_impl cfg t ibucket dst (truncate_hash ?h) x)) (\<lambda>t.
              ret (ibucket, True, t\<lparr>m_nb_elements := m_nb_elements t + 1\<rparr>)))"
      using f by (simp add: insert_impl_def Let_def)
    have "?h = rh_hash cfg (rh_key cfg x)" by (simp add: key)
    from extreme_loop_ok[OF ok small st this] show ?thesis
    proof (elim disjE exE conjE)
      assume "extreme_loop cfg ?h ib dd t = abort Length_error"
      then show ?thesis using eq new by (intro throws) simp_all
    next
      fix ib' d' t'
      assume e: "extreme_loop cfg ?h ib dd t = ret (ib', d', t')" "robin_ok policy_ok cfg t'" "elems t' = elems t"
        "m_nb_elements t' = m_nb_elements t" "m_nb_elements t' < m_load_threshold t'" "stopped cfg t' x ib' d'"
      have ne: "m_buckets_data t' \<noteq> []" using robin_okD(5)[OF e(2)] e(5) by auto
      have sm: "dist_at (m_buckets_data t') v \<le> 32765" for v
        using elems_small_dist[OF e(2) ne, of v] small e(4) by simp
      have new': "rh_key cfg x \<notin> rh_key cfg ` set_mset (elems t')" using new e(3) by (simp add: key)
      from insert_new[OF e(2,6,5) sm new'] obtain t'' where t'': "run_bind
            (if bucket_empty (bucket_at t' ib')
             then ret (upd_bucket ib' (set_value_of_empty_bucket (STORE_HASH cfg) d' (truncate_hash ?h) x) t')
             else of_loop (insert_value_impl cfg t' ib' d' (truncate_hash ?h) x))
            (\<lambda>t. ret (ib', True, t\<lparr>m_nb_elements := m_nb_elements t + 1\<rparr>)) = ret (ib', True, t'')"
          "robin_ok policy_ok cfg t''" "elems t'' = add_mset x (elems t')" "b_value (bucket_at t'' ib') = Some x"
          "ib' < m_bucket_count t''" "m_nb_elements t'' = m_nb_elements t' + 1"
        unfolding key by blast
      then show ?thesis using eq e new by (intro added[of ib' t'']) simp_all
    qed
  qed
  show ?thesis
  proof (cases "?bs = []")
    case True
    then have "elems t = {#}" by simp
    then show ?thesis using rest[OF find_loop_empty[OF ok True]] True by simp
  next
    case False
    obtain hit m where f: "find_loop cfg t key ?h (robin_bucket_for_hash cfg t ?h) 0 = Some (hit, vpos t (?hm + m), int m)"
      "probed cfg ?bs key ?hm hit m"
      using find_loop_start[OF ok False small_short[OF ok small], of key] unfolding hm by blast
    show ?thesis
    proof (cases hit)
      case True
      then have f2: "probed cfg ?bs key ?hm True m" using f(2) by simp
      note H = probed_hit[OF R(2)[OF False] False f2]
      let ?b = "?bs ! ((?hm + m) mod length ?bs)"
      have "b_value ?b = Some (bucket_value ?b)" using bucket_okD(5)[OF buckets_ok_mod[OF R(2)[OF False] False] H(1)] .
      then show ?thesis using f(1) True H(2,3) False
        by (intro there[of "vpos t (?hm + m)" "bucket_value ?b"])
          (simp_all add: insert_impl_def Let_def bucket_at_vpos[OF R(1) False] vpos_less[OF R(1) False])
    next
      case miss: False
      then have f2: "probed cfg ?bs key ?hm False m" using f(2) by simp
      have st: "stopped cfg t x (vpos t (?hm + m)) (int m)"
        using f(2) miss unfolding stopped_def probed_def by (intro exI[of _ m]) auto
      have new: "key \<notin> rh_key cfg ` set_mset (elems t)"
      proof
        assume "key \<in> rh_key cfg ` set_mset (elems t)"
        then obtain y where y: "y \<in># elems t" "rh_key cfg y = key" by auto
        then have "elem_home cfg (rh_pol t) y = ?hm" by (simp add: elem_home_def key)
        from probed_miss[OF R(2)[OF False] False f2 y(1) this] y(2) show False by simp
      qed
      have "find_loop cfg t key ?h (robin_bucket_for_hash cfg t ?h) 0 = Some (False, vpos t (?hm + m), int m)"
        using f(1) miss by simp
      then show ?thesis by (rule rest[OF _ impI[OF st] new])
    qed
  qed
qed

text \<open>Tables of any size: without a request to grow or shrink, and with short probes, an insertion keeps
  the buckets and returns.\<close>

lemma insert_impl_calm:
  assumes ok: "robin_ok policy_ok cfg t" and key: "key = rh_key cfg x"
    and calm: "\<not> m_grow_on_next_insert t" "m_nb_elements t < m_load_threshold t"
      "m_min_load_factor t = 0 \<or> \<not> m_try_shrink_on_next_insert t"
    and probes: "\<And>v. dist_at (m_buckets_data t) v < DIST_LIMIT"
    and new: "key \<notin> rh_key cfg ` set_mset (elems t)"
  shows "\<exists>pos t'. insert_impl cfg key x t = ret (pos, True, t') \<and> robin_ok policy_ok cfg t'
    \<and> elems t' = add_mset x (elems t) \<and> b_value (bucket_at t' pos) = Some x
    \<and> m_bucket_count t' = m_bucket_count t \<and> m_nb_elements t' = m_nb_elements t + 1"
proof -
  let ?h = "rh_hash cfg key" and ?bs = "m_buckets_data t" and ?hm = "elem_home cfg (rh_pol t) x"
  note R = robin_okD[OF ok]
  have ne: "?bs \<noteq> []" using R(5) calm(2) by auto
  have "dist_at ?bs v \<le> 32766" for v using probes[of v] by (simp add: DIST_LIMIT_def)
  then have sh: "short t" by (simp add: short_def)
  have hm: "unat (policy_bucket (rh_policy cfg) (rh_pol t) ?h) = ?hm" by (simp add: elem_home_def key)
  obtain hit m where f: "find_loop cfg t key ?h (robin_bucket_for_hash cfg t ?h) 0 = Some (hit, vpos t (?hm + m), int m)"
    "probed cfg ?bs key ?hm hit m"
    using find_loop_start[OF ok ne sh, of key] unfolding hm by blast
  have miss: "\<not> hit" using probed_hit[OF R(2)[OF ne] ne, of key ?hm m] f(2) new by auto
  have "int m \<le> DIST_LIMIT"
  proof (cases m)
    case (Suc i)
    then have "int i \<le> dist_at ?bs (?hm + i)" using f(2) by (simp add: probed_def)
    then show ?thesis using probes[of "?hm + i"] Suc by simp
  qed (simp add: DIST_LIMIT_def)
  note ex = extreme_loop_calm[OF calm(1) this calm(2,3)]
  let ?t = "t\<lparr>m_try_shrink_on_next_insert := False\<rparr>"
  have st: "stopped cfg ?t x (vpos t (?hm + m)) (int m)"
    using f(2) miss unfolding stopped_flags stopped_def probed_def by (intro exI[of _ m]) auto
  have sm: "dist_at (m_buckets_data ?t) v \<le> 32765" for v using probes[of v] by (simp add: DIST_LIMIT_def)
  have "robin_ok policy_ok cfg ?t" "m_nb_elements ?t < m_load_threshold ?t"
    "rh_key cfg x \<notin> rh_key cfg ` set_mset (elems ?t)" using ok calm(2) new by (simp_all add: key)
  from insert_new[OF this(1) st this(2) sm this(3)] show ?thesis
    using f(1) miss ex by (auto simp: insert_impl_def Let_def key)
qed

section \<open>Deletion\<close>

lemma erase_from_bucket_ok:
  assumes ok: "robin_ok policy_ok cfg t" "m_buckets_data t \<noteq> []" and pos: "pos < m_bucket_count t"
    "b_value (bucket_at t pos) = Some x"
  shows "\<exists>t'. erase_from_bucket cfg pos t = Some t' \<and> robin_ok policy_ok cfg t' \<and> elems t' = elems t - {#x#}
    \<and> x \<in># elems t \<and> m_nb_elements t' = m_nb_elements t - 1 \<and> m_bucket_count t' = m_bucket_count t
    \<and> m_load_threshold t' = m_load_threshold t"
proof -
  let ?bs = "m_buckets_data t" and ?n = "length (m_buckets_data t)"
  note R = robin_okD[OF ok(1)]
  note B = R(2)[OF ok(2)]
  have lb: "?n = unat (m_bucket_count t)" using R(1) by (simp add: shape_def)
  have up: "unat pos < ?n" using pos(1) lb by (simp add: word_less_nat_alt)
  define w where "w = unat pos + ?n - 1"
  have "Suc w = unat pos + ?n" using up unfolding w_def by linarith
  then have sw: "Suc w mod ?n = unat pos" using up by simp
  have vp: "vpos t (Suc w) = pos" unfolding sw by simp
  have val: "b_value (?bs ! (Suc w mod ?n)) = Some x"
    using pos(2) ok(2) unfolding sw by (simp add: bucket_at_def m_buckets_def)
  define bs' where "bs' = ?bs[Suc w mod ?n := bucket_clear (?bs ! (Suc w mod ?n))]"
  have M: "dist_at ?bs v \<le> int ?n" for v using dist_at_bounds(2)[OF B ok(2), of v] by simp
  note g = gap_start[OF B ok(2) M of_nat_0_le_iff, of w, folded bs'_def]
  have el: "rvalues bs' + {#x#} = elems t" using g(2) val by simp
  let ?t = "t\<lparr>m_buckets_data := bs', m_nb_elements := m_nb_elements t - 1\<rparr>"
  have len: "length bs' = ?n" by (simp add: bs'_def)
  have u: "upd_bucket pos bucket_clear t = t\<lparr>m_buckets_data := bs'\<rparr>"
    using upd_vpos[OF R(1) ok(2), of "Suc w" bucket_clear] unfolding vp bs'_def .
  have sh: "shape policy_ok ?t" using R(1) len by (simp add: shape_def)
  have ne: "m_buckets_data ?t \<noteq> []" using len ok(2) by auto
  have g': "gap_ok cfg (rh_pol ?t) (int ?n) (m_buckets_data ?t) w" using g(1) by simp
  obtain bs where bs: "shift_loop cfg ?t (vpos ?t (Suc w)) (vpos ?t (Suc (Suc w))) = Some (?t\<lparr>m_buckets_data := bs\<rparr>)"
      "buckets_ok cfg (rh_pol t) bs" "length bs = ?n" "rvalues bs = rvalues bs'"
    using shift_loop_closes[OF sh g'] len by auto
  let ?t' = "t\<lparr>m_buckets_data := bs, m_nb_elements := m_nb_elements t - 1, m_try_shrink_on_next_insert := True\<rparr>"
  have "next_bucket cfg ?t pos = vpos ?t (Suc (Suc w))"
    using next_vpos[OF sh ne, of "Suc w"] len vp by simp
  then have er: "erase_from_bucket cfg pos t = Some ?t'"
    using bs(1) vp len by (simp add: erase_from_bucket_def u)
  have nb: "unat (m_nb_elements t - 1) = unat (m_nb_elements t) - 1" "0 < unat (m_nb_elements t)"
  proof -
    have sz: "size (elems t) = Suc (size (rvalues bs'))" using arg_cong[OF el, of size] by simp
    then show "0 < unat (m_nb_elements t)" using R(6) by simp
    then have "m_nb_elements t \<noteq> 0" by auto
    then show "unat (m_nb_elements t - 1) = unat (m_nb_elements t) - 1" by (simp add: unat_minus_one)
  qed
  have el': "rvalues bs = elems t - {#x#}" using bs(4) el by (metis add_diff_cancel_right')
  have xin: "x \<in># elems t" using el by (metis union_iff multi_member_this)
  have bne: "bs \<noteq> []" using bs(3) ok(2) by auto
  have "robin_ok policy_ok cfg ?t'"
    unfolding robin_ok_def
  proof (intro conjI impI)
    show "shape policy_ok ?t'" using R(1) bs(3) by (simp add: shape_def)
    show "unat (m_nb_elements ?t') < length (m_buckets_data ?t')" using nb R(3)[OF ok(2)] bs(3) by simp
    show "size (elems ?t') = unat (m_nb_elements ?t')"
      using el' xin nb R(6) by (simp add: size_Diff_singleton)
    show "keys_distinct cfg (elems ?t')" using el' elems_remove[OF ok(1) xin] by simp
  qed (use bs(2) bne R(4)[OF ok(2)] R(7) in auto)
  then show ?thesis using er el' xin by (intro exI[of _ ?t']) simp
qed

lemma erase_key_cases:
  assumes ok: "robin_ok policy_ok cfg t" and small: "short t"
  obtains (erased) x t' where "erase_key cfg key (rh_hash cfg key) t = Some (1, t')" "x \<in># elems t" "rh_key cfg x = key"
      "robin_ok policy_ok cfg t'" "elems t' = elems t - {#x#}" "m_nb_elements t' = m_nb_elements t - 1"
  | (absent) "erase_key cfg key (rh_hash cfg key) t = Some (0, t)" "key \<notin> rh_key cfg ` set_mset (elems t)"
proof (cases rule: find_impl_cases[OF ok small, of key])
  case (1 pos x)
  from erase_from_bucket_ok[OF ok 1(6,2,3)] obtain t' where "erase_from_bucket cfg pos t = Some t'"
    "robin_ok policy_ok cfg t'" "elems t' = elems t - {#x#}" "m_nb_elements t' = m_nb_elements t - 1" by blast
  then show ?thesis using 1 by (intro erased[of t' x]) (simp_all add: erase_key_def robin_end_def)
next
  case 2
  then show ?thesis by (intro absent) (simp_all add: erase_key_def)
qed

end

end
