(* ===== verification/RobinMore.thy ===== *)
theory RobinMore
  imports RobinApi
begin

text \<open>
  The other operations of \<open>robin_hash\<close>: iteration, clearing, copying, the public \<open>rehash\<close> and
  \<open>reserve\<close>, insertion of a range and the operations of \<open>robin_map\<close> on mapped values.
\<close>

section \<open>Iteration\<close>

definition value_list :: "'a bucket_entry list \<Rightarrow> 'a list" where
  "value_list bs = List.map_filter b_value bs"

lemma value_list_simps [simp]:
  "value_list [] = []" "b_value b = None \<Longrightarrow> value_list (b # bs) = value_list bs"
  "b_value b = Some x \<Longrightarrow> value_list (b # bs) = x # value_list bs"
  by (simp_all add: value_list_def List.map_filter_def)

lemma mset_value_list: "mset (value_list bs) = rvalues bs"
proof (induction bs)
  case (Cons b bs)
  then show ?case by (cases "b_value b") simp_all
qed simp

definition first_full :: "'a bucket_entry list \<Rightarrow> nat \<Rightarrow> nat" where
  "first_full bs i = i + length (takeWhile bucket_empty (drop i bs))"

lemma first_full_step:
  assumes "i < length bs"
  shows "first_full bs i = (if bucket_empty (bs ! i) then first_full bs (Suc i) else i)"
  using Cons_nth_drop_Suc[OF assms] by (auto simp: first_full_def simp flip: Cons_nth_drop_Suc[OF assms])

lemma first_full_end: "length bs \<le> i \<Longrightarrow> first_full bs i = i"
  by (simp add: first_full_def)

lemma first_full_bounds: "i \<le> first_full bs i" "i \<le> length bs \<Longrightarrow> first_full bs i \<le> length bs"
  using length_takeWhile_le[of bucket_empty "drop i bs"] by (auto simp: first_full_def)

lemma first_full_full: "first_full bs i < length bs \<Longrightarrow> \<not> bucket_empty (bs ! first_full bs i)"
  using nth_length_takeWhile[of bucket_empty "drop i bs"] by (simp add: first_full_def)


lemma value_list_first_full:
  assumes "\<And>k. k < length bs \<Longrightarrow> bucket_empty (bs ! k) \<Longrightarrow> b_value (bs ! k) = None"
  shows "i \<le> length bs \<Longrightarrow> value_list (drop (first_full bs i) bs) = value_list (drop i bs)"
proof (induction "length bs - i" arbitrary: i)
  case 0
  then show ?case by (simp add: first_full_end)
next
  case (Suc n)
  then have i: "i < length bs" by simp
  show ?case
  proof (cases "bucket_empty (bs ! i)")
    case True
    then have "value_list (drop i bs) = value_list (drop (Suc i) bs)"
      using assms[OF i] by (simp flip: Cons_nth_drop_Suc[OF i])
    then show ?thesis using Suc first_full_step[OF i] True by simp
  qed (simp add: first_full_step[OF i])
qed

lemma bucket_at_nat:
  assumes "shape ok t" "i < length (m_buckets_data t)"
  shows "bucket_at t (of_nat i) = m_buckets_data t ! i"
proof -
  have "m_buckets_data t \<noteq> []" using assms(2) by auto
  from bucket_at_vpos[OF assms(1) this, of i] assms(2) show ?thesis by simp
qed

lemma of_nat_eq_count:
  assumes "shape ok t" "i \<le> length (m_buckets_data t)"
  shows "of_nat i = m_bucket_count t \<longleftrightarrow> i = length (m_buckets_data t)"
proof -
  have l: "length (m_buckets_data t) = unat (m_bucket_count t)" using assms(1) by (simp add: shape_def)
  then have "i < 2 ^ 64" using assms(2) unat_lt_2p(2)[of "m_bucket_count t"] by simp
  then have "unat (of_nat i :: u64) = i" by (simp add: unat_of_nat)
  then show ?thesis using l by (metis unsigned_word_eqI)
qed

lemma first_full_position:
  assumes s: "shape ok t" and i: "i \<le> length (m_buckets_data t)"
  defines "j \<equiv> first_full (m_buckets_data t) i"
  shows "i \<le> unat (of_nat j :: u64)" "(of_nat j :: u64) \<le> m_bucket_count t"
    "\<forall>k. i \<le> k \<longrightarrow> k < unat (of_nat j :: u64) \<longrightarrow> bucket_empty (bucket_at t (of_nat k))"
    "(of_nat j :: u64) \<noteq> m_bucket_count t \<Longrightarrow> \<not> bucket_empty (bucket_at t (of_nat j))"
proof -
  have len: "length (m_buckets_data t) = unat (m_bucket_count t)" using s by (simp add: shape_def)
  have j: "i \<le> j" "j \<le> length (m_buckets_data t)" unfolding j_def using first_full_bounds i by blast+
  then have u: "unat (of_nat j :: u64) = j"
    using unat_lt_2p(2)[of "m_bucket_count t"] len by (simp only: unat_of_nat) simp
  show "i \<le> unat (of_nat j :: u64)" "(of_nat j :: u64) \<le> m_bucket_count t"
    using u j len by (simp_all add: word_le_nat_alt)
  show "\<forall>k. i \<le> k \<longrightarrow> k < unat (of_nat j :: u64) \<longrightarrow> bucket_empty (bucket_at t (of_nat k))"
  proof (intro allI impI)
    fix k assume k: "i \<le> k" "k < unat (of_nat j :: u64)"
    then have "k - i < length (takeWhile bucket_empty (drop i (m_buckets_data t)))"
      unfolding u by (simp add: j_def first_full_def)
    from nth_mem[OF this] takeWhile_nth[OF this] have "bucket_empty (drop i (m_buckets_data t) ! (k - i))"
      by (metis set_takeWhileD)
    then show "bucket_empty (bucket_at t (of_nat k))" using k j i bucket_at_nat[OF s, of k] u by simp
  qed
  assume "(of_nat j :: u64) \<noteq> m_bucket_count t"
  then have "j < length (m_buckets_data t)" using of_nat_eq_count[OF s j(2)] j(2) by simp
  then show "\<not> bucket_empty (bucket_at t (of_nat j))"
    using bucket_at_nat[OF s] first_full_full[of "m_buckets_data t" i] by (simp add: j_def)
qed

lemma robin_next_ok:
  assumes ok: "robin_ok ok cfg t"
  shows "i < length (m_buckets_data t) \<Longrightarrow>
    robin_next t (of_nat i) = Some (of_nat (first_full (m_buckets_data t) (Suc i)))"
proof (induction "length (m_buckets_data t) - i" arbitrary: i rule: less_induct)
  case less
  let ?bs = "m_buckets_data t"
  have ne: "?bs \<noteq> []" using less.prems by auto
  have la: "b_last (?bs ! i) \<longleftrightarrow> Suc i = length ?bs"
    using robin_okD(2)[OF ok ne] less.prems by (simp add: buckets_ok_def)
  note at = bucket_at_nat[OF robin_okD(1)[OF ok]]
  have suc: "(of_nat i + 1 :: u64) = of_nat (Suc i)" by simp
  show ?case
  proof (cases "Suc i = length ?bs")
    case True
    then show ?thesis using la at[OF less.prems] by (subst robin_next.simps) (simp add: first_full_end suc del: of_nat_Suc)
  next
    case False
    then have i: "Suc i < length ?bs" using less.prems by simp
    have "robin_next t (of_nat i) = (if \<not> bucket_empty (?bs ! Suc i) then Some (of_nat (Suc i)) else robin_next t (of_nat (Suc i)))"
      using la False at[OF less.prems] at[OF i] unfolding suc[symmetric]
      by (subst robin_next.simps) (simp add: Let_def)
    then show ?thesis using less.hyps[OF _ i] i by (simp add: first_full_step[OF i] del: of_nat_Suc)
  qed
qed

lemma robin_iterate_from:
  assumes ok: "robin_ok ok cfg t"
  shows "i \<le> length (m_buckets_data t) \<Longrightarrow> (i < length (m_buckets_data t) \<Longrightarrow> \<not> bucket_empty (m_buckets_data t ! i)) \<Longrightarrow>
    robin_iterate t (of_nat i) = Some (value_list (drop i (m_buckets_data t)))"
proof (induction "length (m_buckets_data t) - i" arbitrary: i rule: less_induct)
  case less
  let ?bs = "m_buckets_data t"
  show ?case
  proof (cases "i = length ?bs")
    case True
    then have "of_nat i = robin_end t" using of_nat_eq_count[OF robin_okD(1)[OF ok], of i] by (simp add: robin_end_def)
    then show ?thesis using True by (subst robin_iterate.simps) simp
  next
    case False
    then have i: "i < length ?bs" using less.prems by simp
    then have ne: "?bs \<noteq> []" by auto
    note B = bucket_okD[OF buckets_ok_nth[OF robin_okD(2)[OF ok ne]]]
    have v: "b_value (?bs ! i) = Some (bucket_value (?bs ! i))" using B(5)[OF i] less.prems(2)[OF i] by simp
    let ?j = "first_full ?bs (Suc i)"
    have "of_nat i \<noteq> robin_end t"
      using of_nat_eq_count[OF robin_okD(1)[OF ok], of i] i by (simp add: robin_end_def)
    moreover have "robin_iterate t (of_nat ?j) = Some (value_list (drop ?j ?bs))"
      using i first_full_bounds[of "Suc i" ?bs] first_full_bounds(2)[of "Suc i" ?bs] first_full_full[of ?bs "Suc i"]
      by (intro less.hyps) auto
    moreover have "value_list (drop ?j ?bs) = value_list (drop (Suc i) ?bs)"
      using B(1) i by (intro value_list_first_full) auto
    ultimately have "robin_iterate t (of_nat i) = Some (bucket_value (?bs ! i) # value_list (drop (Suc i) ?bs))"
      using robin_next_ok[OF ok i] bucket_at_nat[OF robin_okD(1)[OF ok] i]
      by (subst robin_iterate.simps) simp
    then show ?thesis using v by (simp flip: Cons_nth_drop_Suc[OF i])
  qed
qed

lemma robin_iterate_ok:
  assumes ok: "robin_ok ok cfg t"
  shows "robin_iterate t (robin_begin t) = Some (value_list (m_buckets_data t))"
proof (cases "m_buckets_data t = []")
  case True
  then have "m_bucket_count t = 0" using shape_empty[OF robin_okD(1)[OF ok]] by simp
  then show ?thesis using True by (subst robin_iterate.simps) (simp add: robin_begin_def robin_end_def)
next
  case False
  let ?bs = "m_buckets_data t"
  have l: "length ?bs = unat (m_bucket_count t)" using robin_okD(1)[OF ok] by (simp add: shape_def)
  have b: "robin_begin t = of_nat (first_full ?bs 0)"
    using False l by (simp add: robin_begin_def first_full_def m_buckets_def)
  note B = bucket_okD[OF buckets_ok_nth[OF robin_okD(2)[OF ok False]]]
  have "value_list (drop (first_full ?bs 0) ?bs) = value_list (drop 0 ?bs)"
    using B(1) by (intro value_list_first_full) auto
  then show ?thesis
    using robin_iterate_from[OF ok, of "first_full ?bs 0"] first_full_bounds(2)[of 0 ?bs] first_full_full[of ?bs 0]
    unfolding b by simp
qed

section \<open>Clearing and copying\<close>

lemma rvalues_clear: "buckets_ok cfg p bs \<Longrightarrow> rvalues (map bucket_clear bs) = {#}"
proof -
  assume "buckets_ok cfg p bs"
  then have "b_value (map bucket_clear bs ! i) = None" if "i < length bs" for i
    using that bucket_clear_value buckets_ok_nth by fastforce
  then have "x \<notin># rvalues (map bucket_clear bs)" for x by (auto simp: in_rvalues)
  then show ?thesis by (metis multiset_nonemptyE)
qed

lemma buckets_ok_clear:
  assumes "buckets_ok cfg p bs" "bs \<noteq> []"
  shows "buckets_ok cfg p (map bucket_clear bs)"
proof -
  have "dist_at (map bucket_clear bs) v = -1" for v
    using assms(2) by (simp add: dist_at_def)
  then show ?thesis
    using assms(1) bucket_clear_ok[OF buckets_ok_nth[OF assms(1)]] by (auto simp: buckets_ok_def)
qed

lemma bucket_copy_id: "bucket_ok cfg p n i b \<Longrightarrow> bucket_copy b = b"
  using bucket_okD(1,5)[of cfg p n i b]
  by (cases b) (auto simp: bucket_copy_def Let_def bucket_empty_def)

lemma robin_copy_id:
  assumes "robin_ok ok cfg t"
  shows "robin_copy t = t"
proof (cases "m_buckets_data t = []")
  case False
  have "map bucket_copy (m_buckets_data t) = m_buckets_data t"
    using bucket_copy_id[OF buckets_ok_nth[OF robin_okD(2)[OF assms False]]] by (intro nth_equalityI) auto
  then show ?thesis by (simp add: robin_copy_def)
qed (simp add: robin_copy_def)

lemma bucket_assign_value:
  "bucket_ok cfg p n i b \<Longrightarrow> bucket_ok cfg p' n' i' c \<Longrightarrow> bucket_assign b c = c"
  using bucket_okD(1,5)[of cfg p' n' i' c] bucket_clear_value[of cfg p n i b]
  by (cases c) (auto simp: bucket_assign_def Let_def bucket_empty_def)

context robin begin

lemma clear_and_shrink_ok:
  assumes "robin_ok policy_ok cfg t"
  shows "robin_ok policy_ok cfg (clear_and_shrink cfg t)" "elems (clear_and_shrink cfg t) = {#}"
  using clear_ok[of "m_bucket_count t" "rh_pol t"] assms
  by (auto simp: robin_ok_def clear_and_shrink_def shape_def keys_distinct_def)

lemma robin_clear_ok:
  assumes "robin_ok policy_ok cfg t"
  shows "robin_ok policy_ok cfg (robin_clear cfg t)" "elems (robin_clear cfg t) = {#}"
proof -
  have "robin_ok policy_ok cfg (robin_clear cfg t) \<and> elems (robin_clear cfg t) = {#}"
  proof (cases "m_min_load_factor t > 0")
    case True
    then show ?thesis using clear_and_shrink_ok[OF assms] by (simp add: robin_clear_def)
  next
    case False
    have "elems (robin_clear cfg t) = {#}"
      using False rvalues_clear[OF robin_okD(2)[OF assms]]
      by (cases "m_buckets_data t = []") (simp_all add: robin_clear_def)
    moreover have "robin_ok policy_ok cfg (robin_clear cfg t)"
      using False assms calculation buckets_ok_clear[OF robin_okD(2)[OF assms]]
      by (auto simp: robin_ok_def robin_clear_def shape_def keys_distinct_def)
    ultimately show ?thesis by simp
  qed
  then show "robin_ok policy_ok cfg (robin_clear cfg t)" "elems (robin_clear cfg t) = {#}" by auto
qed

end

section \<open>Erasing everything by a range\<close>

definition loose_ok :: "(u64 \<Rightarrow> 'p \<Rightarrow> bool) \<Rightarrow> ('a, 'k, 'p) rh_config \<Rightarrow> ('a, 'p) robin_hash \<Rightarrow> bool" where
  "loose_ok policy_ok cfg t \<longleftrightarrow> shape policy_ok t \<and> m_buckets_data t \<noteq> []
     \<and> (\<forall>i < length (m_buckets_data t). bucket_ok cfg (rh_pol t) (length (m_buckets_data t)) i (m_buckets_data t ! i)
          \<and> (b_last (m_buckets_data t ! i) \<longleftrightarrow> Suc i = length (m_buckets_data t)))
     \<and> size (elems t) = unat (m_nb_elements t)"

lemma clear_bucket_counted_loose:
  assumes lo: "loose_ok policy_ok cfg t" and i: "i < length (m_buckets_data t)"
  shows "loose_ok policy_ok cfg (clear_bucket_counted (of_nat i) t)
    \<and> m_buckets_data (clear_bucket_counted (of_nat i) t) = (m_buckets_data t)[i := bucket_clear (m_buckets_data t ! i)]
    \<and> (\<exists>n. clear_bucket_counted (of_nat i) t
        = t\<lparr>m_buckets_data := (m_buckets_data t)[i := bucket_clear (m_buckets_data t ! i)], m_nb_elements := n\<rparr>)"
proof -
  let ?bs = "m_buckets_data t" and ?b = "m_buckets_data t ! i"
  have sh: "shape policy_ok t" and ne: "?bs \<noteq> []" using lo by (auto simp: loose_ok_def)
  have B: "bucket_ok cfg (rh_pol t) (length ?bs) i ?b" using lo i by (simp add: loose_ok_def)
  note at = bucket_at_nat[OF sh i]
  show ?thesis
  proof (cases "bucket_empty ?b")
    case True
    then have "clear_bucket_counted (of_nat i) t = t" by (simp add: clear_bucket_counted_def at)
    moreover have "?bs[i := bucket_clear ?b] = ?bs" using bucket_clear_id[OF True] by simp
    ultimately show ?thesis using lo by (intro conjI exI[of _ "m_nb_elements t"]) simp_all
  next
    case False
    let ?bs' = "?bs[i := bucket_clear ?b]" and ?n = "m_nb_elements t - 1"
    have up: "upd_bucket (of_nat i) bucket_clear t = t\<lparr>m_buckets_data := ?bs'\<rparr>"
      using upd_vpos[OF sh ne, of i bucket_clear] i by simp
    have eq: "clear_bucket_counted (of_nat i) t = t\<lparr>m_buckets_data := ?bs', m_nb_elements := ?n\<rparr>"
      using False by (simp add: clear_bucket_counted_def at up)
    have v: "b_value ?b = Some (bucket_value ?b)" by (rule bucket_okD(5)[OF B False])
    have "rvalues ?bs' + {#bucket_value ?b#} = rvalues ?bs"
      using rvalues_update[OF i, of "bucket_clear ?b"] v bucket_clear_value[OF B] by simp
    then have sz: "size (rvalues ?bs) = Suc (size (rvalues ?bs'))" by (metis size_add_mset add_mset_add_single)
    then have "m_nb_elements t \<noteq> 0" using lo by (auto simp: loose_ok_def)
    then have "unat ?n = unat (m_nb_elements t) - 1" by (simp add: unat_minus_one)
    then have "loose_ok policy_ok cfg (t\<lparr>m_buckets_data := ?bs', m_nb_elements := ?n\<rparr>)"
      using lo sz i bucket_clear_ok[OF B] by (auto simp: loose_ok_def shape_def nth_list_update)
    then show ?thesis unfolding eq by auto
  qed
qed

lemma clear_buckets_loose:
  "loose_ok policy_ok cfg t \<Longrightarrow> i \<le> n \<Longrightarrow> n = length (m_buckets_data t) \<Longrightarrow>
   \<exists>bs c. fold clear_bucket_counted (map of_nat [i..<n]) t = t\<lparr>m_buckets_data := bs, m_nb_elements := c\<rparr>
     \<and> loose_ok policy_ok cfg (t\<lparr>m_buckets_data := bs, m_nb_elements := c\<rparr>) \<and> length bs = n
     \<and> (\<forall>k < n. bucket_empty (bs ! k) \<longleftrightarrow> i \<le> k \<or> bucket_empty (m_buckets_data t ! k))
     \<and> (\<forall>k < n. k < i \<longrightarrow> bs ! k = m_buckets_data t ! k)"
proof (induction "n - i" arbitrary: i t)
  case 0
  then show ?case by (intro exI[of _ "m_buckets_data t"] exI[of _ "m_nb_elements t"]) auto
next
  case (Suc d)
  then have i: "i < length (m_buckets_data t)" by simp
  let ?b = "bucket_clear (m_buckets_data t ! i)"
  from clear_bucket_counted_loose[OF Suc.prems(1) i] obtain c where
    c: "clear_bucket_counted (of_nat i) t = t\<lparr>m_buckets_data := (m_buckets_data t)[i := ?b], m_nb_elements := c\<rparr>"
      "loose_ok policy_ok cfg (t\<lparr>m_buckets_data := (m_buckets_data t)[i := ?b], m_nb_elements := c\<rparr>)" by metis
  let ?t = "t\<lparr>m_buckets_data := (m_buckets_data t)[i := ?b], m_nb_elements := c\<rparr>"
  have "\<exists>bs c'. fold clear_bucket_counted (map of_nat [Suc i..<n]) ?t = ?t\<lparr>m_buckets_data := bs, m_nb_elements := c'\<rparr>
      \<and> loose_ok policy_ok cfg (?t\<lparr>m_buckets_data := bs, m_nb_elements := c'\<rparr>) \<and> length bs = n
      \<and> (\<forall>k < n. bucket_empty (bs ! k) \<longleftrightarrow> Suc i \<le> k \<or> bucket_empty (m_buckets_data ?t ! k))
      \<and> (\<forall>k < n. k < Suc i \<longrightarrow> bs ! k = m_buckets_data ?t ! k)"
    by (rule Suc.hyps(1)) (use Suc.hyps(2) Suc.prems(2,3) i c(2) in simp_all)
  then obtain bs c' where
    r: "fold clear_bucket_counted (map of_nat [Suc i..<n]) ?t = t\<lparr>m_buckets_data := bs, m_nb_elements := c'\<rparr>"
      "loose_ok policy_ok cfg (t\<lparr>m_buckets_data := bs, m_nb_elements := c'\<rparr>)" "length bs = n"
      "\<forall>k < n. bucket_empty (bs ! k) \<longleftrightarrow> Suc i \<le> k \<or> bucket_empty ((m_buckets_data t)[i := ?b] ! k)"
      "\<forall>k < n. k < Suc i \<longrightarrow> bs ! k = (m_buckets_data t)[i := ?b] ! k" by auto
  have "[i..<n] = i # [Suc i..<n]" using i Suc.prems(3) by (simp add: upt_conv_Cons)
  moreover have "\<forall>k < n. bucket_empty (bs ! k) \<longleftrightarrow> i \<le> k \<or> bucket_empty (m_buckets_data t ! k)"
    using r(4) i Suc.prems(3) by (auto simp: nth_list_update Suc_le_eq)
  moreover have "\<forall>k < n. k < i \<longrightarrow> bs ! k = m_buckets_data t ! k" using r(5) by simp
  ultimately show ?case using c r(1-3) by (intro exI[of _ bs] exI[of _ c']) simp
qed

context robin begin

lemma erase_all_ok:
  assumes ok: "robin_ok policy_ok cfg t"
  shows "\<exists>t'. erase_range cfg (robin_begin t) (robin_end t) t = Some (robin_end t, t') \<and> robin_ok policy_ok cfg t'
    \<and> elems t' = {#} \<and> m_bucket_count t' = m_bucket_count t"
proof (cases "robin_begin t = robin_end t")
  case True
  have "value_list (m_buckets_data t) = []"
    using robin_iterate_ok[OF ok] True by (subst (asm) robin_iterate.simps) simp
  then have "elems t = {#}" using mset_value_list[of "m_buckets_data t"] by simp
  then show ?thesis using ok True by (simp add: erase_range_def)
next
  case False
  note R = robin_okD[OF ok]
  let ?bs = "m_buckets_data t" and ?n = "length (m_buckets_data t)"
  have len: "?n = unat (m_bucket_count t)" using R(1) by (simp add: shape_def)
  have ne: "?bs \<noteq> []"
  proof
    assume "?bs = []"
    then show False using False shape_empty[OF R(1)] by (simp add: robin_begin_def robin_end_def)
  qed
  note B = R(2)[OF ne]
  have b: "robin_begin t = of_nat (first_full ?bs 0)"
    using ne len by (simp add: robin_begin_def first_full_def m_buckets_def)
  let ?i = "first_full ?bs 0"
  have i: "?i \<le> ?n" by (rule first_full_bounds) simp
  have ui: "unat (robin_begin t) = ?i"
    using i len unat_lt_2p(2)[of "m_bucket_count t"] unfolding b by (simp only: unat_of_nat) simp
  have "loose_ok policy_ok cfg t"
    using R(1,6) ne B by (auto simp: loose_ok_def buckets_ok_def)
  from clear_buckets_loose[OF this i refl] obtain bs c where
    r: "fold clear_bucket_counted (map of_nat [?i..<?n]) t = t\<lparr>m_buckets_data := bs, m_nb_elements := c\<rparr>"
      "loose_ok policy_ok cfg (t\<lparr>m_buckets_data := bs, m_nb_elements := c\<rparr>)" "length bs = ?n"
      "\<And>k. k < ?n \<Longrightarrow> bucket_empty (bs ! k) \<longleftrightarrow> ?i \<le> k \<or> bucket_empty (?bs ! k)" by blast
  have "bucket_empty (?bs ! k)" if "k < ?i" for k
    using that nth_mem[of k "takeWhile bucket_empty ?bs"] takeWhile_nth[of k bucket_empty ?bs]
    by (auto simp: first_full_def dest: set_takeWhileD)
  then have em: "bucket_empty (bs ! k)" if "k < ?n" for k using r(4)[OF that] by (meson linorder_not_le)
  have bo: "bucket_ok cfg (rh_pol t) ?n k (bs ! k)" if "k < ?n" for k using r(2,3) that by (simp add: loose_ok_def)
  have "b_value (bs ! k) = None" if "k < ?n" for k using bucket_okD(1)[OF bo[OF that]] em[OF that] by simp
  then have "x \<notin># rvalues bs" for x using r(3) by (auto simp: in_rvalues)
  then have el: "rvalues bs = {#}" by (metis multiset_nonemptyE)
  then have c0: "c = 0" using r(2) by (simp add: loose_ok_def unat_eq_zero)
  have "dist_at bs v = -1" for v
    using em[of "v mod ?n"] ne r(3) by (simp add: dist_at_def bucket_empty_def EMPTY_MARKER_def)
  then have bok: "buckets_ok cfg (rh_pol t) bs" using r(2,3) by (auto simp: buckets_ok_def loose_ok_def)
  let ?t = "t\<lparr>m_buckets_data := bs, m_nb_elements := 0, m_try_shrink_on_next_insert := True\<rparr>"
  have "erase_range cfg (robin_begin t) (robin_end t) t = Some (robin_end t, ?t)"
    using False r(1) c0 ui len by (simp add: erase_range_def robin_end_def Let_def)
  moreover have "robin_ok policy_ok cfg ?t"
    using R(1,4,7) ne bok el r(3) by (auto simp: robin_ok_def shape_def keys_distinct_def simp flip: len)
  ultimately show ?thesis using el by (intro exI[of _ ?t]) simp
qed

section \<open>The public rehash and reserve\<close>

lemma robin_rehash_ok:
  assumes "robin_ok policy_ok cfg t" "unat (m_nb_elements t) \<le> 32767"
  shows "robin_rehash cfg n t = abort Length_error \<or> (\<exists>t'. robin_rehash cfg n t = ret t'
    \<and> robin_ok policy_ok cfg t' \<and> elems t' = elems t \<and> n \<le> m_bucket_count t')"
proof -
  let ?b = "buckets_for (m_nb_elements t) (m_max_load_factor t)"
  have "m_nb_elements t < max n ?b \<or> m_nb_elements t = 0"
  proof (cases "m_nb_elements t = 0")
    case False
    then have "0 < unat (m_nb_elements t)" by (simp add: unat_gt_0)
    then have "m_nb_elements t < ?b" using assms robin_okD(7)[OF assms(1)] by (intro buckets_for_greater) auto
    then show ?thesis by (simp add: less_max_iff_disj)
  qed simp
  from rehash_impl_ok[OF assms this] show ?thesis by (auto simp: robin_rehash_def)
qed

lemma robin_reserve_ok:
  assumes "robin_ok policy_ok cfg t" "unat (m_nb_elements t) \<le> 32767"
  shows "robin_reserve cfg n t = abort Length_error \<or> (\<exists>t'. robin_reserve cfg n t = ret t'
    \<and> robin_ok policy_ok cfg t' \<and> elems t' = elems t)"
  using robin_rehash_ok[OF assms] by (auto simp: robin_reserve_def)

section \<open>Positions\<close>

lemma erase_pos_ok:
  assumes ok: "robin_ok policy_ok cfg t" "m_buckets_data t \<noteq> []" and pos: "pos < m_bucket_count t"
    "b_value (bucket_at t pos) = Some x"
  shows "\<exists>nx t'. erase_pos cfg pos t = Some (nx, t') \<and> robin_ok policy_ok cfg t' \<and> elems t' = elems t - {#x#}
    \<and> nx = of_nat (first_full (m_buckets_data t') (unat pos)) \<and> m_bucket_count t' = m_bucket_count t"
proof -
  from erase_from_bucket_ok[OF ok pos] obtain t' where t': "erase_from_bucket cfg pos t = Some t'"
    "robin_ok policy_ok cfg t'" "elems t' = elems t - {#x#}" "m_bucket_count t' = m_bucket_count t" by blast
  let ?i = "unat pos"
  have sh: "shape policy_ok t'" "shape policy_ok t" using robin_okD(1) t'(2) ok(1) by blast+
  have i: "?i < length (m_buckets_data t')" using pos(1) sh t'(4) by (simp add: shape_def word_less_nat_alt)
  have p: "of_nat ?i = pos" by (simp only: of_nat_unat ucast_id)
  have at: "bucket_at t' pos = m_buckets_data t' ! ?i" using bucket_at_nat[OF sh(1) i] unfolding p .
  have nx: "robin_next t' pos = Some (of_nat (first_full (m_buckets_data t') (Suc ?i)))"
    using robin_next_ok[OF t'(2) i] unfolding p .
  have "erase_pos cfg pos t = Some (of_nat (first_full (m_buckets_data t') ?i), t')"
    using t'(1) nx at p first_full_step[OF i] by (auto simp: erase_pos_def)
  then show ?thesis using t' by blast
qed

end

end
