(* ===== verification/RobinMaps.thy ===== *)
theory RobinMaps
  imports RobinMore
begin

text \<open>
  \<open>tsl::robin_map\<close> and \<open>tsl::robin_set\<close> with their default parameters, and what they promise: a map
  behaves like a finite partial function and a set like a finite set. The locale \<open>robin\<close> is interpreted
  here for these classes, whatever the key, the hash function and the limits of the allocator are.
\<close>

section \<open>Mapped values\<close>

definition is_rmap :: "('k \<times> 'v, 'p) robin_hash \<Rightarrow> ('k \<rightharpoonup> 'v) \<Rightarrow> bool" where
  "is_rmap t m \<longleftrightarrow> (\<forall>k v. (k, v) \<in># elems t \<longleftrightarrow> m k = Some v)"

definition is_rset :: "('k, 'p) robin_hash \<Rightarrow> 'k set \<Rightarrow> bool" where
  "is_rset t S \<longleftrightarrow> set_mset (elems t) = S"

lemma is_rmap_dom: "is_rmap t m \<Longrightarrow> dom m = fst ` set_mset (elems t)"
  by (force simp: is_rmap_def)

lemma keys_distinct_absent:
  assumes "keys_distinct cfg E" "x \<in># E" "y \<in># E - {#x#}"
  shows "rh_key cfg y \<noteq> rh_key cfg x"
proof
  assume k: "rh_key cfg y = rh_key cfg x"
  obtain F where "E = add_mset x (add_mset y F)" using assms(2,3) by (metis insert_DiffM)
  then have "2 \<le> count (image_mset (rh_key cfg) E) (rh_key cfg x)" using k by simp
  then show False using assms(1) by (auto simp: keys_distinct_def dest!: spec[of _ "rh_key cfg x"])
qed

lemma keys_distinct_diff:
  assumes "keys_distinct cfg E" "x \<in># E"
  shows "y \<in># E - {#x#} \<longleftrightarrow> y \<in># E \<and> rh_key cfg y \<noteq> rh_key cfg x"
  using keys_distinct_absent[OF assms] in_diffD[of y E "{#x#}"]
  by (metis assms(2) insert_DiffM insert_noteq_member)

lemma is_rmap_remove:
  assumes "is_rmap t m" "keys_distinct cfg (elems t)" "rh_key cfg = fst" "(k, v) \<in># elems t" "elems t' = elems t - {#(k, v)#}"
  shows "is_rmap t' (m(k := None))"
  using assms keys_distinct_diff[OF assms(2,4)] by (auto simp: is_rmap_def)

lemma is_rmap_add: "is_rmap t m \<Longrightarrow> m k = None \<Longrightarrow> elems t' = add_mset (k, v) (elems t) \<Longrightarrow> is_rmap t' (m(k \<mapsto> v))"
  by (auto simp: is_rmap_def)

lemma set_mapped_ok:
  assumes ok: "robin_ok ok cfg t" "m_buckets_data t \<noteq> []" and key: "rh_key cfg = fst"
    and pos: "pos < m_bucket_count t" "b_value (bucket_at t pos) = Some (k, v0)" and m: "is_rmap t m"
  shows "robin_ok ok cfg (set_mapped pos v t)" "is_rmap (set_mapped pos v t) (m(k \<mapsto> v))"
    "m_nb_elements (set_mapped pos v t) = m_nb_elements t"
    "b_value (bucket_at (set_mapped pos v t) pos) = Some (k, v)"
proof -
  note R = robin_okD[OF ok(1)]
  note B = R(2)[OF ok(2)]
  let ?bs = "m_buckets_data t" and ?i = "unat pos"
  have i: "?i < length ?bs" using pos(1) R(1) by (simp add: shape_def word_less_nat_alt)
  have v: "b_value (?bs ! ?i) = Some (k, v0)" using pos(2) ok(2) by (simp add: bucket_at_def m_buckets_def)
  define b where "b = (?bs ! ?i)\<lparr>b_value := Some (k, v)\<rparr>"
  have bf: "b_dist b = b_dist (?bs ! ?i)" "b_last b = b_last (?bs ! ?i)" "b_value b = Some (k, v)"
    by (simp_all add: b_def)
  have t': "set_mapped pos v t = t\<lparr>m_buckets_data := ?bs[?i := b]\<rparr>"
    using v by (simp add: set_mapped_def upd_bucket_def b_def bucket_value_def)
  have d: "dist_at (?bs[?i := b]) u = dist_at ?bs u" for u
    using i by (auto simp: dist_at_def nth_list_update bf)
  have "bucket_ok cfg (rh_pol t) (length ?bs) ?i (?bs ! ?i)" using buckets_ok_nth[OF B i] .
  then have "bucket_ok cfg (rh_pol t) (length ?bs) ?i b"
    using v key by (simp add: bucket_ok_def b_def elem_home_def)
  then have bo: "buckets_ok cfg (rh_pol t) (?bs[?i := b])"
    using B i unfolding buckets_ok_def d by (auto simp: nth_list_update bf)
  have rv: "rvalues (?bs[?i := b]) + {#(k, v0)#} = elems t + {#(k, v)#}"
    using rvalues_update[OF i, of b] v bf(3) by simp
  have "(k, v0) \<in># elems t" using i v by (auto simp: in_rvalues)
  then obtain F where F: "elems t = add_mset (k, v0) F" by (metis insert_DiffM)
  then have el: "rvalues (?bs[?i := b]) = add_mset (k, v) F" using rv by simp
  have kd: "keys_distinct cfg (rvalues (?bs[?i := b]))"
    using R(8) unfolding el F by (simp add: keys_distinct_def key)
  have "?bs[?i := b] \<noteq> []" using ok(2) by simp
  then show "robin_ok ok cfg (set_mapped pos v t)"
    using R(1,3,4,6,7) ok(2) bo kd el F by (simp add: t' robin_ok_def shape_def)
  have "y \<in># F \<longleftrightarrow> y \<in># elems t \<and> fst y \<noteq> k" for y
    using keys_distinct_diff[OF R(8) \<open>(k, v0) \<in># elems t\<close>, of y] F by (simp add: key)
  then show "is_rmap (set_mapped pos v t) (m(k \<mapsto> v))"
    using m el by (auto simp: t' is_rmap_def)
  show "m_nb_elements (set_mapped pos v t) = m_nb_elements t" by (simp add: t')
  show "b_value (bucket_at (set_mapped pos v t) pos) = Some (k, v)"
    using i ok(2) by (simp add: t' bucket_at_def m_buckets_def bf)
qed

locale robin_maps = robin cfg policy_ok
  for cfg :: "('k \<times> 'v, 'k, 'p) rh_config" and policy_ok :: "u64 \<Rightarrow> 'p \<Rightarrow> bool" +
  assumes key_fst: "rh_key cfg = fst"
begin

lemma try_emplace_cases:
  assumes "robin_ok policy_ok cfg t" "unat (m_nb_elements t) \<le> 32766" "is_rmap t m"
  obtains (there) pos v0 where "try_emplace cfg k v t = ret (pos, False, t)" "m k = Some v0"
      "b_value (bucket_at t pos) = Some (k, v0)" "pos < m_bucket_count t" "m_buckets_data t \<noteq> []"
  | (throws) "try_emplace cfg k v t = abort Length_error" "m k = None"
  | (added) pos t' where "try_emplace cfg k v t = ret (pos, True, t')" "m k = None" "robin_ok policy_ok cfg t'"
      "is_rmap t' (m(k \<mapsto> v))" "b_value (bucket_at t' pos) = Some (k, v)" "m_nb_elements t' = m_nb_elements t + 1"
proof -
  have key: "k = rh_key cfg (k, v)" by (simp add: key_fst)
  have none: "m k = None" if "k \<notin> rh_key cfg ` set_mset (elems t)"
    using that is_rmap_dom[OF assms(3)] by (auto simp: key_fst domIff)
  show ?thesis
  proof (cases rule: insert_impl_cases[OF assms(1,2) key])
    case (1 pos y)
    then obtain v0 where "y = (k, v0)" by (cases y) (simp add: key_fst)
    then show ?thesis using 1 assms(3) by (intro there[of pos v0]) (simp_all add: try_emplace_def is_rmap_def)
  next
    case 2
    then show ?thesis using none by (intro throws) (simp_all add: try_emplace_def)
  next
    case (3 pos t')
    then show ?thesis using none is_rmap_add[OF assms(3)]
      by (intro added[of pos t']) (simp_all add: try_emplace_def)
  qed
qed

lemma insert_or_assign_ok:
  assumes "robin_ok policy_ok cfg t" "unat (m_nb_elements t) \<le> 32766" "is_rmap t m"
  shows "insert_or_assign cfg k v t = abort Length_error \<and> m k = None
    \<or> (\<exists>pos t'. insert_or_assign cfg k v t = ret (pos, m k = None, t') \<and> robin_ok policy_ok cfg t'
        \<and> is_rmap t' (m(k \<mapsto> v)) \<and> b_value (bucket_at t' pos) = Some (k, v))"
proof (cases rule: try_emplace_cases[OF assms, of k v])
  case (1 pos v0)
  note sm = set_mapped_ok[OF assms(1) 1(5) key_fst 1(4,3) assms(3), of v]
  have "insert_or_assign cfg k v t = ret (pos, False, set_mapped pos v t)"
    using 1(1) by (simp add: insert_or_assign_def)
  then show ?thesis using sm 1(2) by auto
next
  case 2
  then show ?thesis by (simp add: insert_or_assign_def)
next
  case (3 pos t')
  then show ?thesis by (simp add: insert_or_assign_def)
qed

lemma emplace_ok:
  assumes "robin_ok policy_ok cfg t" "unat (m_nb_elements t) \<le> 32766" "is_rmap t m"
  shows "robin_emplace cfg (k, v) t = abort Length_error \<and> m k = None
    \<or> (\<exists>pos t'. robin_emplace cfg (k, v) t = ret (pos, m k = None, t') \<and> robin_ok policy_ok cfg t'
        \<and> is_rmap t' (if m k = None then m(k \<mapsto> v) else m) \<and> (m k \<noteq> None \<longrightarrow> t' = t))"
proof -
  have eq: "robin_emplace cfg (k, v) t = try_emplace cfg k v t"
    by (simp add: robin_emplace_def robin_insert_def try_emplace_def key_fst)
  show ?thesis
  proof (cases rule: try_emplace_cases[OF assms, of k v])
    case (1 pos v0)
    then show ?thesis using assms by (simp add: eq)
  qed (simp_all add: eq)
qed

lemma at_ok:
  assumes "robin_ok policy_ok cfg t" "short t" "is_rmap t m"
  shows "robin_at cfg t k (rh_hash cfg k) = (case m k of Some v \<Rightarrow> ret (k, v) | None \<Rightarrow> abort Out_of_range)"
proof (cases rule: find_impl_cases[OF assms(1,2), of k])
  case (1 pos x)
  then have "x = (k, snd x)" by (cases x) (simp add: key_fst)
  then have "m k = Some (snd x)" using 1(4) assms(3) by (metis is_rmap_def)
  then show ?thesis using 1 \<open>x = (k, snd x)\<close> by (auto simp: robin_at_def robin_end_def bucket_value_def)
next
  case 2
  then have "m k = None" using is_rmap_dom[OF assms(3)] by (auto simp: key_fst domIff)
  then show ?thesis using 2 by (simp add: robin_at_def)
qed

lemma erase_ok:
  assumes "robin_ok policy_ok cfg t" "short t" "is_rmap t m"
  shows "\<exists>t'. erase_key cfg k (rh_hash cfg k) t = Some (if m k = None then 0 else 1, t')
    \<and> robin_ok policy_ok cfg t' \<and> is_rmap t' (m(k := None))"
proof (cases rule: erase_key_cases[OF assms(1,2), of k])
  case (1 x t')
  then have x: "x = (k, snd x)" by (cases x) (simp add: key_fst)
  then have "m k = Some (snd x)" using 1(2) assms(3) by (metis is_rmap_def)
  moreover have "is_rmap t' (m(k := None))"
    using 1(2,5) x is_rmap_remove[OF assms(3) robin_okD(8)[OF assms(1)] key_fst, of k "snd x" t'] by simp
  ultimately show ?thesis using 1 by auto
next
  case 2
  then have "m k = None" using is_rmap_dom[OF assms(3)] by (auto simp: key_fst domIff)
  moreover from this have "m(k := None) = m" by auto
  ultimately show ?thesis using 2 assms by auto
qed

lemma subscript_ok:
  assumes "robin_ok policy_ok cfg t" "unat (m_nb_elements t) \<le> 32766" "is_rmap t m"
  shows "robin_subscript cfg zero k t = abort Length_error \<and> m k = None
    \<or> (\<exists>t'. robin_subscript cfg zero k t = ret (case m k of Some v \<Rightarrow> v | None \<Rightarrow> zero, t')
        \<and> robin_ok policy_ok cfg t' \<and> is_rmap t' (if m k = None then m(k \<mapsto> zero) else m))"
proof (cases rule: try_emplace_cases[OF assms, of k zero])
  case (1 pos v0)
  then show ?thesis using assms by (simp add: robin_subscript_def bucket_value_def)
next
  case 2
  then show ?thesis by (simp add: robin_subscript_def)
next
  case (3 pos t')
  then show ?thesis by (simp add: robin_subscript_def bucket_value_def)
qed

end

section \<open>Sets\<close>

locale robin_sets = robin cfg policy_ok
  for cfg :: "('k, 'k, 'p) rh_config" and policy_ok :: "u64 \<Rightarrow> 'p \<Rightarrow> bool" +
  assumes key_id: "rh_key cfg = id"
begin

lemma set_emplace_ok:
  assumes "robin_ok policy_ok cfg t" "unat (m_nb_elements t) \<le> 32766" "is_rset t S"
  shows "robin_emplace cfg k t = abort Length_error \<and> k \<notin> S
    \<or> (\<exists>pos t'. robin_emplace cfg k t = ret (pos, k \<notin> S, t') \<and> robin_ok policy_ok cfg t'
        \<and> is_rset t' (insert k S) \<and> (k \<in> S \<longrightarrow> t' = t))"
  using assms(3)
  by (cases rule: insert_impl_cases[OF assms(1,2) refl, of k])
    (use assms(1) in \<open>auto simp: robin_emplace_def robin_insert_def is_rset_def key_id insert_absorb\<close>)

lemma set_erase_ok:
  assumes "robin_ok policy_ok cfg t" "short t" "is_rset t S"
  shows "\<exists>t'. erase_key cfg k (rh_hash cfg k) t = Some (if k \<in> S then 1 else 0, t')
    \<and> robin_ok policy_ok cfg t' \<and> is_rset t' (S - {k})"
proof (cases rule: erase_key_cases[OF assms(1,2), of k])
  case (1 x t')
  then have "x = k" by (simp add: key_id)
  moreover have "set_mset (elems t - {#x#}) = set_mset (elems t) - {x}"
    using keys_distinct_diff[OF robin_okD(8)[OF assms(1)] 1(2)] by (auto simp: key_id)
  ultimately show ?thesis using 1 assms(3) by (auto simp: is_rset_def)
next
  case 2
  then show ?thesis using assms by (auto simp: is_rset_def key_id)
qed

lemma set_contains_ok:
  assumes "robin_ok policy_ok cfg t" "short t" "is_rset t S"
  shows "robin_contains cfg t k = Some (k \<in> S)"
  using contains_correct[OF assms(1,2), of k] assms(3) by (simp add: is_rset_def key_id)

end

section \<open>The classes\<close>

text \<open>\<open>robin_map\<close> and \<open>robin_set\<close> with the growth policy \<open>power_of_two_growth_policy<2>\<close>, and the
  variants \<open>robin_pg_map\<close> and \<open>robin_pg_set\<close> with \<open>prime_growth_policy\<close>.\<close>

definition tsl_config ::
    "('a \<Rightarrow> 'k) \<Rightarrow> 'p policy_ops \<Rightarrow> bool \<Rightarrow> ('k \<Rightarrow> u64) \<Rightarrow> bool \<Rightarrow> bool \<Rightarrow> u64 \<Rightarrow> ('a, 'k, 'p) rh_config" where
  "tsl_config KeySelect GrowthPolicy StoreHash Hash same_size std_hash max_size =
     \<lparr>rh_hash = Hash, rh_key = KeySelect, rh_policy = GrowthPolicy, rh_StoreHash = StoreHash,
      rh_same_size = same_size, rh_std_hash = std_hash, rh_max_size = max_size\<rparr>"

definition robin_map_config :: "bool \<Rightarrow> ('k \<Rightarrow> u64) \<Rightarrow> bool \<Rightarrow> bool \<Rightarrow> u64 \<Rightarrow> ('k \<times> 'v, 'k, u64) rh_config" where
  "robin_map_config = tsl_config fst (power_of_two_growth_policy 2)"

definition robin_set_config :: "bool \<Rightarrow> ('k \<Rightarrow> u64) \<Rightarrow> bool \<Rightarrow> bool \<Rightarrow> u64 \<Rightarrow> ('k, 'k, u64) rh_config" where
  "robin_set_config = tsl_config id (power_of_two_growth_policy 2)"

definition robin_pg_map_config :: "bool \<Rightarrow> ('k \<Rightarrow> u64) \<Rightarrow> bool \<Rightarrow> bool \<Rightarrow> u64 \<Rightarrow> ('k \<times> 'v, 'k, nat) rh_config" where
  "robin_pg_map_config = tsl_config fst prime_growth_policy"

definition robin_pg_set_config :: "bool \<Rightarrow> ('k \<Rightarrow> u64) \<Rightarrow> bool \<Rightarrow> bool \<Rightarrow> u64 \<Rightarrow> ('k, 'k, nat) rh_config" where
  "robin_pg_set_config = tsl_config id prime_growth_policy"

interpretation rmap: robin_maps "robin_map_config st hash ss sd mx" pow2_ok for st hash ss sd mx
  by unfold_locales (simp_all add: robin_map_config_def tsl_config_def pow2.growth_policy_axioms[unfolded growth_policy_def])

interpretation rset: robin_sets "robin_set_config st hash ss sd mx" pow2_ok for st hash ss sd mx
  by unfold_locales (simp_all add: robin_set_config_def tsl_config_def pow2.growth_policy_axioms[unfolded growth_policy_def])

interpretation pgmap: robin_maps "robin_pg_map_config st hash ss sd mx" prime_ok for st hash ss sd mx
  by unfold_locales (simp_all add: robin_pg_map_config_def tsl_config_def prime.growth_policy_axioms[unfolded growth_policy_def])

interpretation pgset: robin_sets "robin_pg_set_config st hash ss sd mx" prime_ok for st hash ss sd mx
  by unfold_locales (simp_all add: robin_pg_set_config_def tsl_config_def prime.growth_policy_axioms[unfolded growth_policy_def])

end
