(* ===== verification/RobinSerial.thy ===== *)
theory RobinSerial
  imports RobinMaps
begin

text \<open>
  \<open>serialize\<close> and \<open>deserialize\<close> of \<open>robin_hash\<close>. The serializer and the deserializer are function
  objects of the caller; they are modelled as a list of the values written, each with its type, from
  which the deserializer reads the values back in order.
\<close>

datatype 'a slz = Slz_u64 u64 | Slz_i16 int | Slz_u32 u32 | Slz_float rat | Slz_value 'a

definition SERIALIZATION_PROTOCOL_VERSION :: u64 where "SERIALIZATION_PROTOCOL_VERSION = 1"

section \<open>Writing\<close>

definition serialize_bucket :: "('a, 'k, 'p) rh_config \<Rightarrow> 'a bucket_entry \<Rightarrow> 'a slz list" where
  "serialize_bucket cfg bucket =
     (if bucket_empty bucket then [Slz_i16 EMPTY_MARKER]
      else [Slz_i16 (b_dist bucket)]
        @ (if STORE_HASH cfg then [Slz_u32 (truncated_hash (STORE_HASH cfg) bucket)] else [])
        @ [Slz_value (bucket_value bucket)])"

definition serialize_impl :: "('a, 'k, 'p) rh_config \<Rightarrow> ('a, 'p) robin_hash \<Rightarrow> 'a slz list" where
  "serialize_impl cfg t =
     [Slz_u64 SERIALIZATION_PROTOCOL_VERSION, Slz_i16 (if STORE_HASH cfg then 1 else 0),
      Slz_u64 (m_nb_elements t), Slz_u64 (of_nat (length (m_buckets_data t))),
      Slz_float (m_min_load_factor t), Slz_float (m_max_load_factor t)]
     @ concat (map (serialize_bucket cfg) (m_buckets_data t))"

section \<open>Reading\<close>

fun read_u64 :: "'a slz list \<Rightarrow> (u64 \<times> 'a slz list) run" where
  "read_u64 (Slz_u64 v # s) = ret (v, s)" | "read_u64 _ = abort Bad_stream"

fun read_i16 :: "'a slz list \<Rightarrow> (int \<times> 'a slz list) run" where
  "read_i16 (Slz_i16 v # s) = ret (v, s)" | "read_i16 _ = abort Bad_stream"

fun read_u32 :: "'a slz list \<Rightarrow> (u32 \<times> 'a slz list) run" where
  "read_u32 (Slz_u32 v # s) = ret (v, s)" | "read_u32 _ = abort Bad_stream"

fun read_float :: "'a slz list \<Rightarrow> (rat \<times> 'a slz list) run" where
  "read_float (Slz_float v # s) = ret (v, s)" | "read_float _ = abort Bad_stream"

fun read_value :: "'a slz list \<Rightarrow> ('a \<times> 'a slz list) run" where
  "read_value (Slz_value v # s) = ret (v, s)" | "read_value _ = abort Bad_stream"

text \<open>One turn of the loop when the hashes are not compatible: the value is inserted again.\<close>

definition deserialize_insert ::
    "('a, 'k, 'p) rh_config \<Rightarrow> bool \<Rightarrow> ('a, 'p) robin_hash \<times> 'a slz list \<Rightarrow> (('a, 'p) robin_hash \<times> 'a slz list) run" where
  "deserialize_insert cfg hash_stored_for_bucket = (\<lambda>(t, s).
     run_bind (read_i16 s) (\<lambda>(dist_from_ideal_bucket, s).
       if dist_from_ideal_bucket \<noteq> EMPTY_MARKER then
         run_bind (if hash_stored_for_bucket then run_bind (read_u32 s) (\<lambda>(_, s). ret s) else ret s) (\<lambda>s.
           run_bind (read_value s) (\<lambda>(x, s).
             run_bind (robin_insert cfg x t) (\<lambda>(_, _, t). ret (t, s))))
       else ret (t, s)))"

text \<open>One turn of the loop when they are: the bucket is written in place.\<close>

definition deserialize_bucket ::
    "('a, 'k, 'p) rh_config \<Rightarrow> bool \<Rightarrow> nat \<Rightarrow> 'a bucket_entry list \<times> 'a slz list \<Rightarrow> ('a bucket_entry list \<times> 'a slz list) run" where
  "deserialize_bucket cfg hash_stored_for_bucket i = (\<lambda>(bs, s).
     run_bind (read_i16 s) (\<lambda>(dist_from_ideal_bucket, s).
       if dist_from_ideal_bucket \<noteq> EMPTY_MARKER then
         run_bind (if hash_stored_for_bucket then read_u32 s else ret (0, s)) (\<lambda>(h, s).
           run_bind (read_value s) (\<lambda>(x, s).
             ret (bs[i := set_value_of_empty_bucket (STORE_HASH cfg) dist_from_ideal_bucket h x (bs ! i)], s)))
       else ret (bs, s)))"

definition deserialize_impl ::
    "('a, 'k, 'p) rh_config \<Rightarrow> bool \<Rightarrow> ('a, 'p) robin_hash \<Rightarrow> 'a slz list \<Rightarrow> (('a, 'p) robin_hash \<times> 'a slz list) run" where
  "deserialize_impl cfg hash_compatible t s =
     run_bind (read_u64 s) (\<lambda>(version, s).
     if version \<noteq> SERIALIZATION_PROTOCOL_VERSION then abort Runtime_error
     else
     run_bind (read_i16 s) (\<lambda>(stored, s).
     let hash_stored_for_bucket = (stored \<noteq> 0) in
     if hash_compatible \<and> STORE_HASH cfg \<noteq> hash_stored_for_bucket then abort Runtime_error
     else
     run_bind (read_u64 s) (\<lambda>(nb_elements, s).
     run_bind (read_u64 s) (\<lambda>(bucket_count_ds, s).
     run_bind (read_float s) (\<lambda>(min_load_factor, s).
     run_bind (read_float s) (\<lambda>(max_load_factor, s).
     if min_load_factor < RH_MINIMUM_MIN_LOAD_FACTOR \<or> min_load_factor > RH_MAXIMUM_MIN_LOAD_FACTOR
     then abort Runtime_error
     else if max_load_factor < RH_MINIMUM_MAX_LOAD_FACTOR \<or> max_load_factor > RH_MAXIMUM_MAX_LOAD_FACTOR
     then abort Runtime_error
     else
       let t = set_max_load_factor max_load_factor (set_min_load_factor min_load_factor t) in
       if bucket_count_ds = 0 then ret (t, s)
       else if \<not> hash_compatible then
         run_bind (robin_reserve cfg nb_elements t) (\<lambda>t.
           run_fold (\<lambda>_. deserialize_insert cfg hash_stored_for_bucket) [0..<unat bucket_count_ds] (t, s))
       else
         run_bind (create_policy (rh_policy cfg) bucket_count_ds) (\<lambda>(bucket_count, p).
           if bucket_count \<noteq> bucket_count_ds then abort Runtime_error
           else if bucket_count > rh_max_size cfg then abort Length_error
           else
             run_bind (run_fold (deserialize_bucket cfg hash_stored_for_bucket) [0..<unat bucket_count]
                 (replicate (unat bucket_count) (bucket_new False), s)) (\<lambda>(bs, s).
               let bs = (if bs \<noteq> [] then bs[length bs - 1 := set_as_last_bucket (bs ! (length bs - 1))] else bs)
               in ret (t\<lparr>rh_pol := p, m_bucket_count := bucket_count, m_nb_elements := nb_elements,
                      m_buckets_data := bs\<rparr>, s)))))))))"

section \<open>The round trip\<close>

definition min_lf_ok :: "rat \<Rightarrow> bool" where
  "min_lf_ok ml \<longleftrightarrow> RH_MINIMUM_MIN_LOAD_FACTOR \<le> ml \<and> ml \<le> RH_MAXIMUM_MIN_LOAD_FACTOR"

lemma min_clamp_id:
  "min_lf_ok ml \<Longrightarrow> rh_clamp ml RH_MINIMUM_MIN_LOAD_FACTOR RH_MAXIMUM_MIN_LOAD_FACTOR = ml"
  by (auto simp: min_lf_ok_def rh_clamp_def min_def max_def)

text \<open>What can be read from a bucket: a stale hash of an empty bucket is not written.\<close>

definition bucket_view :: "bool \<Rightarrow> 'a bucket_entry \<Rightarrow> int \<times> bool \<times> u32 \<times> 'a option" where
  "bucket_view store b = (b_dist b, b_last b, if store \<and> \<not> bucket_empty b then b_hash b else 0, b_value b)"

lemma deserialize_bucket_serialized:
  assumes "bucket_ok cfg p n k b" "i < length bs" "bs ! i = bucket_new False"
  shows "\<exists>c. deserialize_bucket cfg (STORE_HASH cfg) i (bs, serialize_bucket cfg b @ s) = ret (bs[i := c], s)
    \<and> bucket_view (STORE_HASH cfg) c = bucket_view (STORE_HASH cfg) (b\<lparr>b_last := False\<rparr>)"
proof (cases "bucket_empty b")
  case True
  have "bucket_view (STORE_HASH cfg) (bucket_new False) = bucket_view (STORE_HASH cfg) (b\<lparr>b_last := False\<rparr>)"
    using True bucket_okD(1)[OF assms(1)] by (simp add: bucket_view_def bucket_new_def bucket_empty_def)
  moreover have "deserialize_bucket cfg (STORE_HASH cfg) i (bs, serialize_bucket cfg b @ s) = ret (bs, s)"
    using True by (simp add: deserialize_bucket_def serialize_bucket_def)
  moreover have "bs[i := bucket_new False] = bs" using assms(3) by (metis list_update_id)
  ultimately show ?thesis by metis
next
  case False
  then have d: "b_dist b \<noteq> EMPTY_MARKER" by (simp add: bucket_empty_def)
  let ?c = "set_value_of_empty_bucket (STORE_HASH cfg) (b_dist b) (if STORE_HASH cfg then b_hash b else 0) (bucket_value b) (bucket_new False)"
  have "bucket_view (STORE_HASH cfg) ?c = bucket_view (STORE_HASH cfg) (b\<lparr>b_last := False\<rparr>)"
    using bucket_okD(5)[OF assms(1) False] d
    by (simp add: bucket_view_def bucket_new_def bucket_empty_def)
  moreover have "deserialize_bucket cfg (STORE_HASH cfg) i (bs, serialize_bucket cfg b @ s) = ret (bs[i := ?c], s)"
    using False d assms(3) by (simp add: deserialize_bucket_def serialize_bucket_def truncated_hash_def)
  ultimately show ?thesis by blast
qed

lemma deserialize_buckets_serialized:
  assumes ok: "\<And>i. i < length ds \<Longrightarrow> bucket_ok cfg p n i (ds ! i)"
  shows "\<exists>bs. run_fold (deserialize_bucket cfg (STORE_HASH cfg)) [0..<length ds]
      (replicate (length ds) (bucket_new False), concat (map (serialize_bucket cfg) ds) @ s) = ret (bs, s)
    \<and> length bs = length ds
    \<and> (\<forall>i < length ds. bucket_view (STORE_HASH cfg) (bs ! i) = bucket_view (STORE_HASH cfg) ((ds ! i)\<lparr>b_last := False\<rparr>))"
proof -
  let ?I = "\<lambda>i (bs, r). length bs = length ds \<and> r = concat (map (serialize_bucket cfg) (drop i ds)) @ s
    \<and> (\<forall>k < i. bucket_view (STORE_HASH cfg) (bs ! k) = bucket_view (STORE_HASH cfg) ((ds ! k)\<lparr>b_last := False\<rparr>))
    \<and> (\<forall>k. i \<le> k \<and> k < length ds \<longrightarrow> bs ! k = bucket_new False)"
  have "\<exists>x. run_fold (deserialize_bucket cfg (STORE_HASH cfg)) [0..<length ds]
      (replicate (length ds) (bucket_new False), concat (map (serialize_bucket cfg) ds) @ s) = ret x \<and> ?I (length ds) x"
  proof (rule run_fold_upt[where I = ?I])
    fix i x assume i: "i < length ds" and I: "?I i x"
    obtain bs r where x: "x = (bs, r)" by (cases x)
    have r: "r = serialize_bucket cfg (ds ! i) @ concat (map (serialize_bucket cfg) (drop (Suc i) ds)) @ s"
      using I i by (simp add: x flip: Cons_nth_drop_Suc)
    have "i < length bs" "bs ! i = bucket_new False" using I i by (simp_all add: x)
    from deserialize_bucket_serialized[OF ok[OF i] this, of "concat (map (serialize_bucket cfg) (drop (Suc i) ds)) @ s"]
    obtain c where c: "deserialize_bucket cfg (STORE_HASH cfg) i x
          = ret (bs[i := c], concat (map (serialize_bucket cfg) (drop (Suc i) ds)) @ s)"
        "bucket_view (STORE_HASH cfg) c = bucket_view (STORE_HASH cfg) ((ds ! i)\<lparr>b_last := False\<rparr>)"
      unfolding x r by blast
    show "\<exists>x'. deserialize_bucket cfg (STORE_HASH cfg) i x = ret x' \<and> ?I (Suc i) x'"
      using c I i by (intro exI[of _ "(bs[i := c], concat (map (serialize_bucket cfg) (drop (Suc i) ds)) @ s)"])
        (auto simp: x nth_list_update less_Suc_eq)
  qed simp
  then show ?thesis by auto
qed

lemma rvalues_view:
  "length bs = length ds \<Longrightarrow> (\<And>i. i < length ds \<Longrightarrow> b_value (bs ! i) = b_value (ds ! i)) \<Longrightarrow> rvalues bs = rvalues ds"
  by (simp add: rvalues_def) (metis (mono_tags, lifting) map_equality_iff)

lemma keys_distinct_part: "keys_distinct cfg (A + B) \<Longrightarrow> keys_distinct cfg A"
  unfolding keys_distinct_def by simp (meson add_leD1)

context robin begin

lemma deserialize_serialized:
  assumes ok: "robin_ok policy_ok cfg t" and lf: "min_lf_ok (m_min_load_factor t)"
    and fresh: "m_bucket_count u = 0" "m_buckets_data u = []"
    and mx: "m_bucket_count t \<le> rh_max_size cfg" and bc: "0 < m_bucket_count t"
  shows "\<exists>t'. deserialize_impl cfg True u (serialize_impl cfg t @ s) = ret (t', s)
    \<and> rh_pol t' = rh_pol t \<and> m_bucket_count t' = m_bucket_count t \<and> m_nb_elements t' = m_nb_elements t
    \<and> m_min_load_factor t' = m_min_load_factor t \<and> m_max_load_factor t' = m_max_load_factor t
    \<and> map (bucket_view (STORE_HASH cfg)) (m_buckets_data t') = map (bucket_view (STORE_HASH cfg)) (m_buckets_data t)
    \<and> elems t' = elems t \<and> m_load_threshold t' = 0"
proof -
  note R = robin_okD[OF ok]
  let ?ds = "m_buckets_data t" and ?st = "STORE_HASH cfg"
  have len: "length ?ds = unat (m_bucket_count t)" using R(1) by (simp add: shape_def)
  have ne: "?ds \<noteq> []" using bc len by (auto simp: word_less_nat_alt simp flip: length_greater_0_conv)
  note B = R(2)[OF ne]
  have bo: "bucket_ok cfg (rh_pol t) (length ?ds) i (?ds ! i)" if "i < length ?ds" for i
    using that by (rule buckets_ok_nth[OF B])
  from deserialize_buckets_serialized[where ds = ?ds and s = s, OF bo] obtain bs where
    bs: "run_fold (deserialize_bucket cfg ?st) [0..<length ?ds]
      (replicate (length ?ds) (bucket_new False), concat (map (serialize_bucket cfg) ?ds) @ s) = ret (bs, s)"
    "length bs = length ?ds" "\<And>i. i < length ?ds \<Longrightarrow> bucket_view ?st (bs ! i) = bucket_view ?st ((?ds ! i)\<lparr>b_last := False\<rparr>)"
    by blast
  define cs where "cs = bs[length bs - 1 := set_as_last_bucket (bs ! (length bs - 1))]"
  have bne: "bs \<noteq> []" using bs(2) ne by auto
  have cv: "bucket_view ?st (cs ! i) = bucket_view ?st (?ds ! i)" if i: "i < length ?ds" for i
  proof -
    have l: "b_last (?ds ! i) \<longleftrightarrow> Suc i = length ?ds" using B i by (simp add: buckets_ok_def)
    show ?thesis
    proof (cases "i = length bs - 1")
      case True
      then have "cs ! i = set_as_last_bucket (bs ! i)" using bs(2) i by (simp add: cs_def)
      moreover have "b_last (?ds ! i)" using l True bs(2) i by simp
      ultimately show ?thesis using bs(3)[OF i]
        by (auto simp: bucket_view_def set_as_last_bucket_def bucket_empty_def split: if_splits)
    next
      case False
      then have "cs ! i = bs ! i" by (simp add: cs_def)
      moreover have "\<not> b_last (?ds ! i)" using l False bs(2) i by simp
      ultimately show ?thesis using bs(3)[OF i]
        by (auto simp: bucket_view_def bucket_empty_def split: if_splits)
    qed
  qed
  have lc: "length cs = length ?ds" using bs(2) by (simp add: cs_def)
  have pol: "create_policy (rh_policy cfg) (m_bucket_count t) = ret (m_bucket_count t, rh_pol t)"
    using R(1) bc by (intro create_again) (simp_all add: shape_def)
  let ?u = "set_max_load_factor (m_max_load_factor t) (set_min_load_factor (m_min_load_factor t) u)"
  let ?t = "?u\<lparr>rh_pol := rh_pol t, m_bucket_count := m_bucket_count t, m_nb_elements := m_nb_elements t, m_buckets_data := cs\<rparr>"
  have ofl: "of_nat (length ?ds) = m_bucket_count t" unfolding len by (simp only: of_nat_unat ucast_id)
  have st: "(if ?st then 1 else 0 :: int) \<noteq> 0 \<longleftrightarrow> ?st" by simp
  have lo: "\<not> m_min_load_factor t < RH_MINIMUM_MIN_LOAD_FACTOR" "\<not> RH_MAXIMUM_MIN_LOAD_FACTOR < m_min_load_factor t"
    "\<not> m_max_load_factor t < RH_MINIMUM_MAX_LOAD_FACTOR" "\<not> RH_MAXIMUM_MAX_LOAD_FACTOR < m_max_load_factor t"
    using lf R(7) by (simp_all add: min_lf_ok_def max_lf_ok_def not_less)
  have "deserialize_impl cfg True u (serialize_impl cfg t @ s) = ret (?t, s)"
    unfolding deserialize_impl_def serialize_impl_def
    using lo pol bs(1) bne bc[unfolded word_gt_0] mx[unfolded not_less[symmetric]]
    by (simp add: ofl len[symmetric] cs_def Let_def)
  moreover have "map (bucket_view ?st) cs = map (bucket_view ?st) ?ds"
    using cv lc by (intro nth_equalityI) auto
  moreover have "rvalues cs = elems t"
    using cv lc by (intro rvalues_view) (auto simp: bucket_view_def)
  moreover have "m_load_threshold ?t = 0"
    using fresh(1) load_threshold_0[OF R(7)] clamp_id[OF R(7)]
    by (simp add: set_max_load_factor_def set_min_load_factor_def Let_def)
  ultimately show ?thesis using clamp_id[OF R(7)] min_clamp_id[OF lf]
    by (intro exI[of _ ?t]) (simp add: set_max_load_factor_def set_min_load_factor_def Let_def)
qed

section \<open>The round trip by insertion\<close>

text \<open>When the hashes are not compatible, the values that are read are inserted into a table reserved for
  their number.\<close>

lemma deserialize_insert_serialized:
  assumes b: "bucket_ok cfg p n k b" and ok: "robin_ok policy_ok cfg t" "unat (m_nb_elements t) \<le> 32766"
    and new: "keys_distinct cfg (elems t + opt_mset (b_value b))"
  shows "deserialize_insert cfg (STORE_HASH cfg) (t, serialize_bucket cfg b @ s) = abort Length_error
    \<or> (\<exists>t'. deserialize_insert cfg (STORE_HASH cfg) (t, serialize_bucket cfg b @ s) = ret (t', s)
        \<and> robin_ok policy_ok cfg t' \<and> elems t' = elems t + opt_mset (b_value b))"
proof (cases "bucket_empty b")
  case True
  then show ?thesis using ok bucket_okD(1)[OF b] by (simp add: deserialize_insert_def serialize_bucket_def)
next
  case False
  let ?x = "bucket_value b"
  have v: "b_value b = Some ?x" by (rule bucket_okD(5)[OF b False])
  have "b_dist b \<noteq> EMPTY_MARKER" using False by (simp add: bucket_empty_def)
  then have eq: "deserialize_insert cfg (STORE_HASH cfg) (t, serialize_bucket cfg b @ s)
      = run_bind (insert_impl cfg (rh_key cfg ?x) ?x t) (\<lambda>(_, _, t). ret (t, s))"
    using False by (simp add: deserialize_insert_def serialize_bucket_def robin_insert_def)
  have absent: "rh_key cfg y \<noteq> rh_key cfg ?x" if "y \<in># elems t" for y
    using keys_distinct_absent[OF new, of ?x y] that v by simp
  show ?thesis
    by (cases rule: insert_impl_cases[OF ok refl, of ?x]) (use eq v absent in auto)
qed

lemma deserialize_inserts_serialized:
  "length is = length ds \<Longrightarrow> \<forall>b \<in> set ds. \<exists>k. bucket_ok cfg p n k b \<Longrightarrow> robin_ok policy_ok cfg t \<Longrightarrow>
   keys_distinct cfg (elems t + rvalues ds) \<Longrightarrow> size (elems t + rvalues ds) \<le> 32766 \<Longrightarrow>
   run_fold (\<lambda>_. deserialize_insert cfg (STORE_HASH cfg)) is (t, concat (map (serialize_bucket cfg) ds) @ s) = abort Length_error
    \<or> (\<exists>t'. run_fold (\<lambda>_. deserialize_insert cfg (STORE_HASH cfg)) is (t, concat (map (serialize_bucket cfg) ds) @ s) = ret (t', s)
        \<and> robin_ok policy_ok cfg t' \<and> elems t' = elems t + rvalues ds)"
proof (induction ds arbitrary: "is" t)
  case (Cons b ds)
  obtain i js where is_eq: "is = i # js" "length js = length ds" using Cons.prems(1) by (cases "is") auto
  obtain k where b: "bucket_ok cfg p n k b" using Cons.prems(2) by auto
  have small: "unat (m_nb_elements t) \<le> 32766" using Cons.prems(5) robin_okD(6)[OF Cons.prems(3)] by simp
  have "keys_distinct cfg (elems t + opt_mset (b_value b))"
    using keys_distinct_part[of cfg "elems t + opt_mset (b_value b)" "rvalues ds"] Cons.prems(4) by (simp add: add.assoc)
  from deserialize_insert_serialized[OF b Cons.prems(3) small this, of "concat (map (serialize_bucket cfg) ds) @ s"]
  show ?case
  proof (elim disjE exE conjE)
    fix t' assume t': "robin_ok policy_ok cfg t'" "elems t' = elems t + opt_mset (b_value b)"
      and run: "deserialize_insert cfg (STORE_HASH cfg) (t, serialize_bucket cfg b @ concat (map (serialize_bucket cfg) ds) @ s)
        = ret (t', concat (map (serialize_bucket cfg) ds) @ s)"
    have e: "elems t' + rvalues ds = elems t + rvalues (b # ds)" by (simp add: t'(2))
    have "run_fold (\<lambda>_. deserialize_insert cfg (STORE_HASH cfg)) js (t', concat (map (serialize_bucket cfg) ds) @ s) = abort Length_error
      \<or> (\<exists>t''. run_fold (\<lambda>_. deserialize_insert cfg (STORE_HASH cfg)) js (t', concat (map (serialize_bucket cfg) ds) @ s) = ret (t'', s)
        \<and> robin_ok policy_ok cfg t'' \<and> elems t'' = elems t' + rvalues ds)"
      using Cons.prems(2,4,5) t'(1) unfolding e[symmetric] by (intro Cons.IH[OF is_eq(2)]) auto
    then show ?thesis using run by (simp add: is_eq(1) t'(2) add.assoc)
  qed (simp add: is_eq(1))
qed simp

lemma deserialize_by_insertion:
  assumes ok: "robin_ok policy_ok cfg t" and lf: "min_lf_ok (m_min_load_factor t)"
    and fresh: "robin_ok policy_ok cfg u" "m_bucket_count u = 0"
    and bc: "0 < m_bucket_count t" and small: "unat (m_nb_elements t) \<le> 32766"
  shows "deserialize_impl cfg False u (serialize_impl cfg t @ s) = abort Length_error
    \<or> (\<exists>t'. deserialize_impl cfg False u (serialize_impl cfg t @ s) = ret (t', s)
        \<and> robin_ok policy_ok cfg t' \<and> elems t' = elems t)"
proof -
  note R = robin_okD[OF ok]
  let ?ds = "m_buckets_data t" and ?st = "STORE_HASH cfg"
  let ?u = "set_max_load_factor (m_max_load_factor t) (set_min_load_factor (m_min_load_factor t) u)"
  have len: "length ?ds = unat (m_bucket_count t)" using R(1) by (simp add: shape_def)
  have ne: "?ds \<noteq> []" using bc len by (auto simp: word_less_nat_alt simp flip: length_greater_0_conv)
  have bo: "\<forall>b \<in> set ?ds. \<exists>k. bucket_ok cfg (rh_pol t) (length ?ds) k b"
    using buckets_ok_nth[OF R(2)[OF ne]] by (fastforce simp: in_set_conv_nth)
  have e0: "m_buckets_data u = []" "elems u = {#}" "m_nb_elements u = 0"
  proof -
    show d: "m_buckets_data u = []" using fresh(2) shape_empty[OF robin_okD(1)[OF fresh(1)]] by simp
    then show "elems u = {#}" by simp
    then show "m_nb_elements u = 0" using robin_okD(6)[OF fresh(1)] by (simp add: unat_eq_zero)
  qed
  have u: "robin_ok policy_ok cfg ?u" "elems ?u = {#}" "m_nb_elements ?u = 0"
    using fresh e0 R(7) load_threshold_0[OF R(7)] clamp_id[OF R(7)]
    by (auto simp: robin_ok_def shape_def set_max_load_factor_def set_min_load_factor_def Let_def)
  have ofl: "of_nat (length ?ds) = m_bucket_count t" unfolding len by (simp only: of_nat_unat ucast_id)
  have lo: "\<not> m_min_load_factor t < RH_MINIMUM_MIN_LOAD_FACTOR" "\<not> RH_MAXIMUM_MIN_LOAD_FACTOR < m_min_load_factor t"
    "\<not> m_max_load_factor t < RH_MINIMUM_MAX_LOAD_FACTOR" "\<not> RH_MAXIMUM_MAX_LOAD_FACTOR < m_max_load_factor t"
    using lf R(7) by (simp_all add: min_lf_ok_def max_lf_ok_def not_less)
  have eq: "deserialize_impl cfg False u (serialize_impl cfg t @ s) = run_bind (robin_reserve cfg (m_nb_elements t) ?u) (\<lambda>v.
      run_fold (\<lambda>_. deserialize_insert cfg ?st) [0..<length ?ds] (v, concat (map (serialize_bucket cfg) ?ds) @ s))"
    unfolding deserialize_impl_def serialize_impl_def using lo bc[unfolded word_gt_0]
    by (simp add: ofl len[symmetric] Let_def)
  have "robin_reserve cfg (m_nb_elements t) ?u = abort Length_error \<or> (\<exists>v. robin_reserve cfg (m_nb_elements t) ?u = ret v
      \<and> robin_ok policy_ok cfg v \<and> elems v = {#})"
    using robin_rehash_ok[OF u(1), of "buckets_for (m_nb_elements t) (m_max_load_factor ?u)"] u(2,3)
    by (auto simp: robin_reserve_def)
  then show ?thesis
  proof (elim disjE exE conjE)
    fix v assume v: "robin_reserve cfg (m_nb_elements t) ?u = ret v" "robin_ok policy_ok cfg v" "elems v = {#}"
    have "keys_distinct cfg (elems v + elems t)" "size (elems v + elems t) \<le> 32766"
      using R(6,8) small v(3) by simp_all
    from deserialize_inserts_serialized[OF _ bo v(2) this, of "[0..<length ?ds]" s] show ?thesis
      unfolding eq v(1) by (simp add: v(3))
  qed (simp add: eq)
qed

text \<open>A table without buckets has nothing to read back but its load factors.\<close>

lemma deserialize_none:
  assumes "robin_ok policy_ok cfg t" "min_lf_ok (m_min_load_factor t)" "m_bucket_count t = 0"
  shows "deserialize_impl cfg hc u (serialize_impl cfg t @ s)
    = ret (set_max_load_factor (m_max_load_factor t) (set_min_load_factor (m_min_load_factor t) u), s)"
proof -
  note R = robin_okD[OF assms(1)]
  have d: "m_buckets_data t = []" using assms(3) shape_empty[OF R(1)] by simp
  have lo: "\<not> m_min_load_factor t < RH_MINIMUM_MIN_LOAD_FACTOR" "\<not> RH_MAXIMUM_MIN_LOAD_FACTOR < m_min_load_factor t"
    "\<not> m_max_load_factor t < RH_MINIMUM_MAX_LOAD_FACTOR" "\<not> RH_MAXIMUM_MAX_LOAD_FACTOR < m_max_load_factor t"
    using assms(2) R(7) by (simp_all add: min_lf_ok_def max_lf_ok_def not_less)
  then show ?thesis using d by (simp add: deserialize_impl_def serialize_impl_def Let_def)
qed

end

end
