(* ===== verification/RobinHistory.thy ===== *)
theory RobinHistory
  imports RobinSerial
begin

text \<open>
  Histories of a \<open>robin_map\<close>: a table made by the constructor and changed by any sequence of the public
  operations, next to the finite partial function the sequence describes.
\<close>

datatype ('k, 'v) map_op =
  Op_insert_or_assign 'k 'v | Op_emplace 'k 'v | Op_subscript 'k | Op_erase 'k
| Op_rehash u64 | Op_reserve u64 | Op_clear | Op_erase_all

fun map_op_step ::
    "('k \<times> 'v, 'k, 'p) rh_config \<Rightarrow> 'v \<Rightarrow> ('k, 'v) map_op \<Rightarrow> ('k \<times> 'v, 'p) robin_hash \<Rightarrow> ('k \<times> 'v, 'p) robin_hash run" where
  "map_op_step cfg zero (Op_insert_or_assign k v) t = run_bind (insert_or_assign cfg k v t) (\<lambda>(_, _, t). ret t)"
| "map_op_step cfg zero (Op_emplace k v) t = run_bind (robin_emplace cfg (k, v) t) (\<lambda>(_, _, t). ret t)"
| "map_op_step cfg zero (Op_subscript k) t = run_bind (robin_subscript cfg zero k t) (\<lambda>(_, t). ret t)"
| "map_op_step cfg zero (Op_erase k) t = of_loop (map_option snd (erase_key cfg k (rh_hash cfg k) t))"
| "map_op_step cfg zero (Op_rehash n) t = robin_rehash cfg n t"
| "map_op_step cfg zero (Op_reserve n) t = robin_reserve cfg n t"
| "map_op_step cfg zero Op_clear t = ret (robin_clear cfg t)"
| "map_op_step cfg zero Op_erase_all t = of_loop (map_option snd (erase_range cfg (robin_begin t) (robin_end t) t))"

text \<open>What the operation means for the partial function.\<close>

fun map_op_spec :: "'v \<Rightarrow> ('k, 'v) map_op \<Rightarrow> ('k \<rightharpoonup> 'v) \<Rightarrow> ('k \<rightharpoonup> 'v)" where
  "map_op_spec zero (Op_insert_or_assign k v) m = m(k \<mapsto> v)"
| "map_op_spec zero (Op_emplace k v) m = (if m k = None then m(k \<mapsto> v) else m)"
| "map_op_spec zero (Op_subscript k) m = (if m k = None then m(k \<mapsto> zero) else m)"
| "map_op_spec zero (Op_erase k) m = m(k := None)"
| "map_op_spec zero (Op_rehash n) m = m"
| "map_op_spec zero (Op_reserve n) m = m"
| "map_op_spec zero Op_clear m = Map.empty"
| "map_op_spec zero Op_erase_all m = Map.empty"

definition map_history ::
    "('k \<times> 'v, 'k, 'p) rh_config \<Rightarrow> 'v \<Rightarrow> u64 \<Rightarrow> rat \<Rightarrow> rat \<Rightarrow> ('k, 'v) map_op list \<Rightarrow> ('k \<times> 'v, 'p) robin_hash run" where
  "map_history cfg zero bucket_count min_lf max_lf ps =
     run_bind (robin_new cfg bucket_count min_lf max_lf) (run_fold (map_op_step cfg zero) ps)"

definition map_history_spec :: "'v \<Rightarrow> ('k, 'v) map_op list \<Rightarrow> ('k \<rightharpoonup> 'v)" where
  "map_history_spec zero ps = fold (map_op_spec zero) ps Map.empty"

lemma rmap_size:
  assumes ok: "robin_ok ok cfg t" and key: "rh_key cfg = fst" and m: "is_rmap t m"
  shows "finite (dom m)" "card (dom m) = unat (m_nb_elements t)"
proof -
  note R = robin_okD[OF ok]
  have d: "dom m = set_mset (image_mset fst (elems t))" using is_rmap_dom[OF m] by simp
  show "finite (dom m)" unfolding d by simp
  have "count (image_mset fst (elems t)) k = count (mset_set (dom m)) k" for k
  proof (cases "k \<in> dom m")
    case True
    then have "count (image_mset fst (elems t)) k \<noteq> 0" unfolding d by (simp add: count_eq_zero_iff)
    moreover have "count (image_mset fst (elems t)) k \<le> 1" using R(8) by (simp only: keys_distinct_def key)
    ultimately have "count (image_mset fst (elems t)) k = 1" by linarith
    then show ?thesis using True \<open>finite (dom m)\<close> by (metis count_mset_set(1))
  next
    case False
    then have "k \<notin># image_mset fst (elems t)" unfolding d .
    then have "count (image_mset fst (elems t)) k = 0" by (rule not_in_iff[THEN iffD1])
    then show ?thesis using False by simp
  qed
  then have "image_mset fst (elems t) = mset_set (dom m)" by (rule multiset_eqI)
  then have "size (elems t) = card (dom m)" by (metis size_image_mset size_mset_set)
  then show "card (dom m) = unat (m_nb_elements t)" using R(6) by simp
qed

lemma map_op_spec_card:
  "finite (dom m) \<Longrightarrow> finite (dom (map_op_spec z p m)) \<and> card (dom (map_op_spec z p m)) \<le> Suc (card (dom m))"
  by (cases p) (auto simp: card_insert_if intro: le_SucI card_mono diff_le_self[THEN le_trans] simp del: fun_upd_apply)

lemma map_op_spec_fold_card:
  "finite (dom (map_history_spec z ps)) \<and> card (dom (map_history_spec z ps)) \<le> length ps"
  unfolding map_history_spec_def
proof (induction ps rule: rev_induct)
  case (snoc p ps)
  then show ?case using map_op_spec_card[of "fold (map_op_spec z) ps Map.empty" z p] by simp
qed simp

lemma is_rmap_elems: "elems t' = elems t \<Longrightarrow> is_rmap t m \<Longrightarrow> is_rmap t' m"
  by (simp add: is_rmap_def)

lemma is_rmap_none: "elems t' = {#} \<Longrightarrow> is_rmap t' Map.empty"
  by (simp add: is_rmap_def)

definition op_done :: "(u64 \<Rightarrow> 'p \<Rightarrow> bool) \<Rightarrow> ('k \<times> 'v, 'k, 'p) rh_config \<Rightarrow> ('k \<rightharpoonup> 'v) \<Rightarrow> ('k \<times> 'v, 'p) robin_hash run \<Rightarrow> bool" where
  "op_done policy_ok cfg m r \<longleftrightarrow>
     r = abort Length_error \<or> (\<exists>t'. r = ret t' \<and> robin_ok policy_ok cfg t' \<and> is_rmap t' m)"

context robin_maps begin

lemma map_op_step_ok:
  assumes "robin_ok policy_ok cfg t" "unat (m_nb_elements t) \<le> 32766" "is_rmap t m"
  shows "op_done policy_ok cfg (map_op_spec zero p m) (map_op_step cfg zero p t)"
proof (cases p)
  case (Op_insert_or_assign k v)
  then show ?thesis using insert_or_assign_ok[OF assms, of k v] by (auto simp: op_done_def)
next
  case (Op_emplace k v)
  then show ?thesis using emplace_ok[OF assms, of k v] by (auto simp: op_done_def)
next
  case (Op_subscript k)
  then show ?thesis using subscript_ok[OF assms, of zero k] by (auto simp: op_done_def)
next
  case (Op_erase k)
  then show ?thesis using erase_ok[OF assms(1) small_short[OF assms(1,2)] assms(3), of k] by (auto simp: op_done_def)
next
  case (Op_rehash n)
  then show ?thesis using robin_rehash_ok[OF assms(1), of n] assms(2,3) is_rmap_elems by (fastforce simp: op_done_def)
next
  case (Op_reserve n)
  then show ?thesis using robin_reserve_ok[OF assms(1), of n] assms(2,3) is_rmap_elems by (fastforce simp: op_done_def)
next
  case Op_clear
  then show ?thesis using robin_clear_ok[OF assms(1)] by (auto simp: op_done_def is_rmap_none)
next
  case Op_erase_all
  then show ?thesis using erase_all_ok[OF assms(1)] by (auto simp: op_done_def is_rmap_none)
qed

lemma history_ok:
  "robin_ok policy_ok cfg t \<Longrightarrow> is_rmap t m \<Longrightarrow> unat (m_nb_elements t) + length ps \<le> 32767 \<Longrightarrow>
   op_done policy_ok cfg (fold (map_op_spec zero) ps m) (run_fold (map_op_step cfg zero) ps t)"
proof (induction ps arbitrary: t m)
  case Nil
  then show ?case by (auto simp: op_done_def)
next
  case (Cons p ps)
  have "unat (m_nb_elements t) \<le> 32766" using Cons.prems(3) by simp
  from map_op_step_ok[OF Cons.prems(1) this Cons.prems(2), of zero p] show ?case
    unfolding op_done_def[of _ _ "map_op_spec zero p m"]
  proof (elim disjE exE conjE)
    fix t' assume t': "map_op_step cfg zero p t = ret t'" "robin_ok policy_ok cfg t'" "is_rmap t' (map_op_spec zero p m)"
    have "unat (m_nb_elements t') \<le> Suc (unat (m_nb_elements t))"
      using map_op_spec_card[OF rmap_size(1)[OF Cons.prems(1) key_fst Cons.prems(2)], of zero p]
      by (simp add: rmap_size(2)[OF Cons.prems(1) key_fst Cons.prems(2)] rmap_size(2)[OF t'(2) key_fst t'(3)])
    then have "unat (m_nb_elements t') + length ps \<le> 32767" using Cons.prems(3) by simp
    from Cons.IH[OF t'(2,3) this] show ?thesis using t'(1) by simp
  qed (simp add: op_done_def)
qed

lemma robin_new_start:
  "op_done policy_ok cfg Map.empty (robin_new cfg n a b)"
proof (cases "robin_new cfg n a b = abort Length_error")
  case False
  then obtain t where t: "robin_new cfg n a b = ret t" "shape policy_ok t"
      "m_buckets_data t \<noteq> [] \<longrightarrow> buckets_ok cfg (rh_pol t) (m_buckets_data t)"
      "elems t = {#}" "m_nb_elements t = 0"
      "m_max_load_factor t = rh_clamp b RH_MINIMUM_MAX_LOAD_FACTOR RH_MAXIMUM_MAX_LOAD_FACTOR"
      "m_load_threshold t = load_threshold (m_bucket_count t) (m_max_load_factor t)"
    using robin_new_ok[of n a b] by blast
  have lf: "max_lf_ok (m_max_load_factor t)" unfolding t(6) by (rule clamp_ok)
  have e: "m_buckets_data t = [] \<longleftrightarrow> m_bucket_count t = 0" by (rule shape_empty[OF t(2)])
  have "robin_ok policy_ok cfg t"
    using t(2-5,7) lf e load_threshold_less[OF lf, of "m_bucket_count t"] load_threshold_0[OF lf]
    by (auto simp: robin_ok_def keys_distinct_def word_gt_0)
  then show ?thesis using t(1,4) by (auto simp: op_done_def is_rmap_none)
qed (simp add: op_done_def)

end

end
