(* ===== verification/BenchRobin.thy ===== *)
theory BenchRobin
  imports BenchFailures RobinHistory
begin

text \<open>
  \<open>tsl::robin_map\<close> as a table of the benchmark: it keeps the contract up to 32766 keys, where no probe
  distance can reach the limit, except that it may throw \<open>std::length_error\<close>.
\<close>

type_synonym ('w, 'p) rtable = "('w word \<times> 'w word, 'p) robin_hash"

definition RobinMap_class ::
    "('w::len word \<times> 'w word, 'w word, 'p) rh_config \<Rightarrow> ('w word, ('w, 'p) rtable) table_class" where
  "RobinMap_class cfg = Std
     \<lparr>Std_new = robin_new cfg 0 RH_DEFAULT_MIN_LOAD_FACTOR RH_DEFAULT_MAX_LOAD_FACTOR,
      Std_max_load_factor = set_max_load_factor, Std_reserve = robin_reserve cfg,
      Std_clear = (\<lambda>t. ret (robin_clear cfg t)),
      Std_erase_all = (\<lambda>t. of_loop (map_option snd (erase_range cfg (robin_begin t) (robin_end t) t))),
      Std_bucket_count = m_bucket_count, Std_size = m_nb_elements, Std_load_factor = robin_load_factor,
      Std_contains = (\<lambda>k t. of_loop (robin_contains cfg t k)),
      Std_erase = (\<lambda>k t. of_loop (erase_key cfg k (rh_hash cfg k) t)),
      Std_elements = As_map (\<lambda>_ k v t. run_bind (robin_emplace cfg (k, v) t) (\<lambda>(_, b, t). ret (b, t)))
        (\<lambda>t. of_loop (robin_iterate t (robin_begin t)))\<rparr>"

definition robin_bound :: nat where "robin_bound = 32766"

definition robin_holds ::
    "(u64 \<Rightarrow> 'p \<Rightarrow> bool) \<Rightarrow> ('k \<times> 'v, 'k, 'p) rh_config \<Rightarrow> ('k \<times> 'v, 'p) robin_hash \<Rightarrow> 'k set \<Rightarrow> 'k set \<Rightarrow> nat \<Rightarrow> nat \<Rightarrow> bool" where
  "robin_holds policy_ok cfg t S V r M \<longleftrightarrow>
     robin_ok policy_ok cfg t \<and> (\<exists>m. is_rmap t m \<and> dom m = S) \<and> V \<subseteq> S \<and> card S \<le> M \<and> M \<le> robin_bound"

lemma set_max_load_factor_ok:
  assumes "robin_ok policy_ok cfg t"
  shows "robin_ok policy_ok cfg (set_max_load_factor ml t)" "elems (set_max_load_factor ml t) = elems t"
    "m_nb_elements (set_max_load_factor ml t) = m_nb_elements t"
proof -
  let ?ml = "rh_clamp ml RH_MINIMUM_MAX_LOAD_FACTOR RH_MAXIMUM_MAX_LOAD_FACTOR"
  note R = robin_okD[OF assms]
  have ml: "max_lf_ok ?ml" by (rule clamp_ok)
  have "m_buckets_data t = [] \<longleftrightarrow> m_bucket_count t = 0" by (rule shape_empty[OF R(1)])
  then show "robin_ok policy_ok cfg (set_max_load_factor ml t)"
    using assms ml load_threshold_less[OF ml, of "m_bucket_count t"] load_threshold_0[OF ml]
    by (auto simp: robin_ok_def set_max_load_factor_def Let_def shape_def word_gt_0)
qed (simp_all add: set_max_load_factor_def Let_def)

lemma robin_holds_size:
  assumes key: "rh_key cfg = fst" and h: "robin_holds policy_ok cfg t S V q M"
  shows "unat (m_nb_elements t) = card S" "finite S" "fst ` set_mset (elems t) = S"
proof -
  obtain m where m: "robin_ok policy_ok cfg t" "is_rmap t m" "dom m = S" using h by (auto simp: robin_holds_def)
  show "unat (m_nb_elements t) = card S" "finite S" using rmap_size[OF m(1) key m(2)] m(3) by simp_all
  show "fst ` set_mset (elems t) = S" using is_rmap_dom[OF m(2)] m(3) by simp
qed

lemma robin_holds_empty:
  "robin_ok policy_ok cfg t \<Longrightarrow> elems t = {#} \<Longrightarrow> robin_holds policy_ok cfg t {} {} 0 0"
  using is_rmap_none[of t] by (auto simp: robin_holds_def intro!: exI[of _ Map.empty])

lemma robin_start:
  fixes cfg :: "('w::len word \<times> 'w word, 'w word, 'p) rh_config"
  assumes rm: "robin_maps cfg policy_ok"
  shows "ends True (Init_new (RobinMap_class cfg) n) (\<lambda>t. robin_holds policy_ok cfg t {} {} 0 0)"
proof -
  have r: "robin cfg policy_ok" using rm by (rule robin_maps.axioms)
  have "op_done policy_ok cfg Map.empty (robin_new cfg 0 RH_DEFAULT_MIN_LOAD_FACTOR RH_DEFAULT_MAX_LOAD_FACTOR)"
    by (rule robin_maps.robin_new_start[OF rm])
  then have new: "ends True (robin_new cfg 0 RH_DEFAULT_MIN_LOAD_FACTOR RH_DEFAULT_MAX_LOAD_FACTOR)
      (\<lambda>t. robin_ok policy_ok cfg t \<and> is_rmap t Map.empty)"
    by (auto simp: op_done_def ends_def)
  have "ends True (if n > 0 then robin_reserve cfg m (set_max_load_factor bench_max_load_factor t)
      else ret (set_max_load_factor bench_max_load_factor t)) (\<lambda>t. robin_holds policy_ok cfg t {} {} 0 0)"
    if t: "robin_ok policy_ok cfg t" "is_rmap t Map.empty" for t m
  proof -
    let ?t = "set_max_load_factor bench_max_load_factor t"
    have e: "elems ?t = {#}"
      using t(2) set_max_load_factor_ok(2)[OF t(1)] by (auto simp: is_rmap_def multiset_eq_iff) (metis not_in_iff prod.collapse)
    note ok = set_max_load_factor_ok(1)[OF t(1), of bench_max_load_factor]
    have "unat (m_nb_elements ?t) \<le> 32767" using robin_okD(6)[OF ok] e by simp
    from robin.robin_reserve_ok[OF r ok this, of m] robin_holds_empty[OF ok e] show ?thesis
      using robin_holds_empty e by (auto simp: ends_def)
  qed
  then show ?thesis
    by (auto simp: Init_new_def RobinMap_class_def Let_def intro!: ends_bind[OF new])
qed

lemma robin_reset:
  fixes cfg :: "('w::len word \<times> 'w word, 'w word, 'p) rh_config"
  assumes rm: "robin_maps cfg policy_ok" and h: "robin_holds policy_ok cfg t S V q M"
  shows "\<exists>t'. Object_Init (RobinMap_class cfg) n True TEST1 (Some t) = ret t' \<and> robin_holds policy_ok cfg t' {} {} 0 0"
proof -
  have "robin_ok policy_ok cfg t" using h by (simp add: robin_holds_def)
  from robin.erase_all_ok[OF robin_maps.axioms(1)[OF rm] this] show ?thesis
    using robin_holds_empty by (auto simp: Object_Init_def RobinMap_class_def)
qed

lemma robin_add_new:
  fixes cfg :: "('w::len word \<times> 'w word, 'w word, 'p) rh_config"
  assumes rm: "robin_maps cfg policy_ok" and h: "robin_holds policy_ok cfg t S V q M" and k: "k \<notin> S" "card S < robin_bound"
  shows "ends True (robin_emplace cfg (k, v) t)
    (\<lambda>(_, b, t'). b \<and> robin_holds policy_ok cfg t' (insert k S) (insert k V) q (max M (Suc (card S))))"
proof -
  note sz = robin_holds_size[OF robin_maps.key_fst[OF rm] h]
  obtain m where m: "robin_ok policy_ok cfg t" "is_rmap t m" "dom m = S" using h by (auto simp: robin_holds_def)
  have none: "m k = None" using k(1) m(3) by auto
  have "robin_holds policy_ok cfg t' (insert k S) (insert k V) q (max M (Suc (card S)))"
    if "robin_ok policy_ok cfg t'" "is_rmap t' (m(k \<mapsto> v))" for t'
    using that h m(3) sz(2) k unfolding robin_holds_def by (auto intro!: exI[of _ "m(k \<mapsto> v)"])
  then show ?thesis
    using robin_maps.emplace_ok[OF rm m(1) _ m(2), of k v] sz(1) k(2) none by (auto simp: ends_def robin_bound_def)
qed

lemma robin_add_seen:
  fixes cfg :: "('w::len word \<times> 'w word, 'w word, 'p) rh_config"
  assumes rm: "robin_maps cfg policy_ok" and h: "robin_holds policy_ok cfg t S V q M" and k: "k \<in> S" "card S \<le> 32766"
  shows "\<exists>pos. robin_emplace cfg (k, v) t = ret (pos, False, t)"
proof -
  note sz = robin_holds_size[OF robin_maps.key_fst[OF rm] h]
  obtain m where m: "robin_ok policy_ok cfg t" "is_rmap t m" "dom m = S" using h by (auto simp: robin_holds_def)
  have "m k \<noteq> None" using k(1) m(3) by auto
  then show ?thesis using robin_maps.emplace_ok[OF rm m(1) _ m(2), of k v] sz(1) k(2) by auto
qed

lemma robin_remove:
  fixes cfg :: "('w::len word \<times> 'w word, 'w word, 'p) rh_config"
  assumes rm: "robin_maps cfg policy_ok" and h: "robin_holds policy_ok cfg t S V q M" and n: "card S \<le> 32766"
  shows "\<exists>t'. erase_key cfg k (rh_hash cfg k) t = Some (if k \<in> S then 1 else 0, t')
    \<and> (if k \<in> S then robin_holds policy_ok cfg t' (S - {k}) {} (Suc q) M else t' = t)"
proof -
  note key = robin_maps.key_fst[OF rm]
  note sz = robin_holds_size[OF key h]
  obtain m where m: "robin_ok policy_ok cfg t" "is_rmap t m" "dom m = S" using h by (auto simp: robin_holds_def)
  have sh: "short t" by (rule small_short[OF m(1)]) (use sz(1) n in simp)
  show ?thesis
  proof (cases "k \<in> S")
    case False
    show ?thesis
    proof (cases rule: robin.erase_key_cases[OF robin_maps.axioms(1)[OF rm] m(1) sh, of k])
      case (1 x t')
      then have "k \<in> S" using sz(3) key by force
      with False show ?thesis by simp
    next
      case 2
      then show ?thesis using False by simp
    qed
  next
    case True
    obtain t' where t': "erase_key cfg k (rh_hash cfg k) t = Some (1, t')" "robin_ok policy_ok cfg t'" "is_rmap t' (m(k := None))"
      using robin_maps.erase_ok[OF rm m(1) sh m(2), of k] True m(3) by (auto simp: domIff split: if_splits)
    have "card (S - {k}) \<le> M" using h card_Diff1_le[of S k] by (auto simp: robin_holds_def)
    moreover have "dom (m(k := None)) = S - {k}" using m(3) by auto
    moreover have "M \<le> robin_bound" using h by (simp add: robin_holds_def)
    ultimately have "robin_holds policy_ok cfg t' (S - {k}) {} (Suc q) M"
      using t'(2,3) unfolding robin_holds_def by blast
    then show ?thesis using t'(1) True by simp
  qed
qed


lemma robin_lists:
  assumes h: "robin_holds policy_ok cfg t S V q M" and key: "rh_key cfg = fst"
  shows "\<exists>xs. robin_iterate t (robin_begin t) = Some xs \<and> mset (map fst xs) = mset_set S \<and> length xs = card S"
proof -
  note sz = robin_holds_size[OF key h]
  have ok: "robin_ok policy_ok cfg t" using h by (simp add: robin_holds_def)
  let ?xs = "value_list (m_buckets_data t)"
  have m: "mset ?xs = elems t" by (simp add: mset_value_list)
  have "length ?xs = card S" using sz(1) robin_okD(6)[OF ok] m by (metis size_mset)
  moreover have s: "set (map fst ?xs) = S" using sz(3) m by (metis list.set_map set_mset_mset)
  ultimately have "distinct (map fst ?xs)" by (intro card_distinct) (simp only: length_map)
  then have "mset (map fst ?xs) = mset_set S" using s by (metis mset_set_set)
  then show ?thesis using robin_iterate_ok[OF ok] \<open>length ?xs = card S\<close> by blast
qed

section \<open>The contract\<close>

lemma RobinMap_methods:
  "Object_contains (RobinMap_class cfg) k t = of_loop (robin_contains cfg t k)"
  "Object_Count (RobinMap_class cfg) t = ucast (m_nb_elements t)"
  "Object_remove (RobinMap_class cfg) k t = run_bind (of_loop (erase_key cfg k (rh_hash cfg k) t)) (\<lambda>(n, t). ret (n = 1, t))"
  "Object_keys (RobinMap_class cfg) t = run_bind (of_loop (robin_iterate t (robin_begin t))) (\<lambda>xs. ret (map fst xs))"
  "Object_addends (RobinMap_class cfg) t = run_bind (of_loop (robin_iterate t (robin_begin t))) (\<lambda>xs. ret (map snd xs))"
  "Object_add (RobinMap_class cfg) u k i t
    = run_bind (robin_emplace cfg (k, of_nat i) t) (\<lambda>(_, b, t). ret (b, t))"
  by (auto simp: RobinMap_class_def Object_contains_def Object_Count_def Object_remove_def Object_keys_def
    Object_addends_def Object_add_def Let_def)

theorem RobinMap_table:
  fixes cfg :: "('w::len word \<times> 'w word, 'w word, 'p) rh_config"
  assumes rm: "robin_maps cfg policy_ok"
  shows "removal_table (RobinMap_class cfg) (robin_holds policy_ok cfg) robin_bound True"
proof -
  note key = robin_maps.key_fst[OF rm]
  note r = robin_maps.axioms(1)[OF rm]
  have "key_table (RobinMap_class cfg) (robin_holds policy_ok cfg) robin_bound True"
  proof (unfold_locales, goal_cases)
    case 1
    show ?case by (simp add: robin_bound_def)
  next
    case (2 t S V q M)
    then show ?case using robin_holds_size(2)[OF key 2] by (simp add: robin_holds_def)
  next
    case (3 n)
    show ?case by (rule robin_start[OF rm])
  next
    case (4 t S V q M n)
    then show ?case using robin_reset[OF rm, of t S V q M n] by (auto simp: ends_def)
  next
    case (5 t S V q M k u i)
    then have "ends True (robin_emplace cfg (k, of_nat i) t)
        (\<lambda>(_, b, t'). b \<and> robin_holds policy_ok cfg t' (insert k S) (insert k V) q (max M (Suc (card S))))"
      by (intro robin_add_new[OF rm]) (simp_all add: robin_bound_def)
    then show ?case unfolding RobinMap_methods by (rule ends_bind) auto
  next
    case (6 t S V q M k i)
    then have "k \<in> S" by (auto simp: robin_holds_def)
    then show ?case
      using robin_add_seen[OF rm 6(1), of k "of_nat i"] 6(3) by (auto simp: RobinMap_methods robin_bound_def)
  next
    case (7 t S V q M k)
    have ok: "robin_ok policy_ok cfg t" using 7(1) by (simp add: robin_holds_def)
    have "short t"
      by (rule small_short[OF ok]) (use robin_holds_size(1)[OF key 7(1)] 7(3) in \<open>simp add: robin_bound_def\<close>)
    from robin.contains_correct[OF r ok this, of k] show ?case
      using robin_holds_size(3)[OF key 7(1)] by (simp add: RobinMap_methods key)
  next
    case (8 t S V q M)
    have "card S \<le> 32766" using 8 by (simp add: robin_holds_def robin_bound_def)
    then have "unat (m_nb_elements t) mod 2 ^ 32 = card S" using robin_holds_size(1)[OF key 8] by simp
    then show ?case by (simp add: RobinMap_methods unsigned_ucast_eq take_bit_eq_mod)
  next
    case (9 t S V q M)
    then show ?case using robin_lists[OF 9 key] by (auto simp: RobinMap_methods)
  next
    case (10 t S V q M)
    then show ?case using robin_lists[OF 10 key] by (auto simp: RobinMap_methods)
  qed
  moreover have "removal_table_axioms (RobinMap_class cfg) (robin_holds policy_ok cfg) robin_bound"
  proof (unfold_locales, goal_cases)
    case 1
    show ?case by (simp add: RobinMap_class_def isIndex_def)
  next
    case (2 t S V q M k)
    have "card S \<le> 32766" using 2 by (simp add: robin_holds_def robin_bound_def)
    from robin_remove[OF rm 2(1) this, of k] show ?case by (auto simp: RobinMap_methods)
  qed
  ultimately show ?thesis by (rule removal_table.intro)
qed

interpretation robin_map: removal_table "RobinMap_class (robin_map_config st hash ss sd mx)"
  "robin_holds pow2_ok (robin_map_config st hash ss sd mx)" robin_bound True for st hash ss sd mx
  by (rule RobinMap_table) unfold_locales

end
