(* ===== verification/BenchProps.thy ===== *)
theory BenchProps
  imports BenchSimd BenchRobin Demo
begin

text \<open>
  Properties of the benchmark: what \<open>Bench\<close> prints on the classes of \<^verbatim>\<open>SimdHash.h\<close>
  and on \<open>tsl::robin_map\<close>, and the arguments with which it fails.
\<close>

section \<open>The first load\<close>

context bench_table begin

text \<open>A benchmark stops with the failure of its first load.\<close>

lemma Bench_first_load_fails:
  assumes le: "startLoad a \<le> maxLoad a"
    and fails: "\<And>t. holds t {} {} 0 0 \<Longrightarrow>
      stops throws (Object_Bench cls sample seed (BenchFlags a) data_set (startLoad a) (test_type (BenchFlags a)) t) e"
  shows "stops throws (Bench cls sample seed a data_set) e"
proof -
  have ty: "test_type (BenchFlags a) \<noteq> UNKNOWN" by (simp add: test_type_def)
  have init: "ends throws (Object_Init cls n (flag_reuse (BenchFlags a)) tt None) (\<lambda>t. holds t {} {} 0 0)" for n tt
    using start by (simp add: Object_Init_def)
  have "stops throws (run_bind m f) e" if "stops throws m e" for m f
    using that by (auto simp: stops_def)
  then have "stops throws (Bench_loads cls sample seed a data_set (startLoad a) [] None) e"
    using le by (subst Bench_loads.simps) (auto intro!: stops_bind[OF init] fails)
  then show ?thesis using ty by (auto simp: Bench_def stops_def)
qed

end

section \<open>For the witnesses\<close>

text \<open>A sampler that takes the last elements, and keys in order.\<close>

definition last_sample :: "unit sampler" where
  "last_sample g xs n = (drop (length xs - n) xs, g)"

definition small_set :: "nat \<Rightarrow> u64 list" where
  "small_set n = map of_nat [0..<n]"

lemma last_sample_ok: "sampler_ok last_sample"
  by (auto simp: sampler_ok_def last_sample_def min_def intro: suffix_drop suffix_imp_subseq)

lemma small_set_distinct: "n < 2 ^ 64 \<Longrightarrow> distinct (vec_keys (small_set n) :: u64 list)"
  by (auto simp: vec_keys_def small_set_def distinct_map inj_on_def take_bit_nat_eq_self
    of_nat_inverse[where 'a = 64] simp del: unsigned_of_nat dest!: arg_cong[where f = "unat :: u64 \<Rightarrow> nat"])

lemma small_set_length [simp]: "length (small_set n) = n"
  by (simp add: small_set_def)

lemma last_sample_unknown:
  assumes m: "m < 2 ^ 32" "unat load < m" "2 * (unat load div 100) \<le> m" "0 < unat load div 100"
  shows "unknown_drawn TYPE(64) last_sample () (small_set m) load"
  unfolding unknown_drawn_def
proof (intro allI impI notI)
  fix v assume v: "MakeTestVector last_sample () (small_set m) load (load div 100) = ret v"
    and sub: "set (vec_keys (unknown_vector v) :: u64 list) \<subseteq> set (take (unat load) (vec_keys (small_set m)))"
  let ?n = "unat load div 100"
  have "unknown_vector v = drop (m - ?n - ?n) (drop ?n (small_set m))"
    using v m(2) by (auto simp: MakeTestVector_def last_sample_def Let_def unat_div check_def split: if_splits)
  then have "unknown_vector v = map of_nat [m - ?n..<m]" using m(3) by (simp add: small_set_def drop_map)
  moreover have "m - 1 \<in> set [m - ?n..<m]" using m(2-4) by simp
  ultimately have "of_nat (m - 1) \<in> set (vec_keys (unknown_vector v) :: u64 list)"
    unfolding vec_keys_def by (simp only: ucast_id map_ident set_map id_apply image_eqI)
  with sub have "(of_nat (m - 1) :: u64) \<in> of_nat ` {..<unat load}"
    using m(2) by (auto simp: vec_keys_def small_set_def take_map)
  then obtain j where j: "j < unat load" "(of_nat (m - 1) :: u64) = of_nat j" by auto
  have "(m - 1) mod 2 ^ 64 = j mod 2 ^ 64" using arg_cong[OF j(2), of unat] by (simp add: unat_of_nat)
  then show False using j(1) m(1,2) by simp
qed

section \<open>The classes of SimdHash.h\<close>

text \<open>C7. The benchmark of a map, a set or an index of \<^verbatim>\<open>SimdHash.h\<close> runs to its end, in every mode whose
  capacities are powers of two and without the fix of \<open>TrailingZeroCount\<close>, for every hash function: no assertion fails, no
  operation runs forever, and there is one line for every load from the first one in steps to the largest, which tells
  a table of that many elements and the number of operations of the test. This holds for different keys, loads
  within the data set and \<open>2 ^ 30\<close>, percentages that are not 0, and test vectors that fit; for \<open>TEST2\<close> if
  the sample of unknown keys has one that is unknown and the object is not used again.\<close>

theorem bench_simd_completes:
  fixes cfg :: "('w::len word, 'w word) config"
  assumes "pow2_mode (cfg_mode cfg)" "\<not> cfg_fix cfg" "vector_ok sz TYPE('m::len)"
    and "sampler_ok sample" "distinct (vec_keys data_set :: 'w word list)"
    and "stepLoad a \<noteq> 0" "unat (maxLoad a) + unat (stepLoad a) < 2 ^ 64"
    and "flag_reuse (BenchFlags a) \<longrightarrow> test_type (BenchFlags a) \<noteq> TEST2"
    and "\<forall>l \<in> set (loads_from a (startLoad a)).
      good_load TYPE('w) simd_bound sample seed data_set (test_type (BenchFlags a)) l"
  shows "\<exists>rows. Bench (simd_class_of TYPE('m) sz cfg c0) sample seed a data_set = ret rows
    \<and> map row_Count rows = map ucast (loads_from a (startLoad a))
    \<and> map row_opCounter rows = map (counted_operations (simd_class_of TYPE('m) sz cfg c0)
        (test_type (BenchFlags a))) (loads_from a (startLoad a))"
  using bench_table.Bench_ok[OF simd_bench_table[OF assms(1-3)] assms(4-9), of c0] by (auto simp: ends_def)

definition demo_args :: "u64 \<Rightarrow> bench_args" where
  "demo_args flags = \<lparr>BenchFlags = flags, startLoad = 200, maxLoad = 240, stepLoad = 25\<rparr>"

lemma demo_loads: "loads_from (demo_args flags) 200 = [200, 225]"
  by (simp add: loads_from_def loads_left_def demo_args_def upt_rec)

lemma demo_good:
  assumes "load \<in> {200, 225}" "250 \<le> bound"
  shows "good_load TYPE(64) bound last_sample () (small_set 250) tt load"
  using assms last_sample_unknown[of 250 load]
  by (auto simp: good_load_def test_vector_size_def unat_div)

lemma bench_simd_completes_witness:
  "\<exists>rows. Bench (simd_class_of TYPE(16) 16 (demo_cfg Type_Map Fast) demo_blank) last_sample ()
      (demo_args 0x0000010000000000) (small_set 250) = ret rows
    \<and> map row_Count rows = [200, 225] \<and> map row_opCounter rows = [32, 32]"
proof -
  let ?a = "demo_args 0x0000010000000000"
  have tt: "test_type (BenchFlags ?a) = TEST2" "\<not> flag_reuse (BenchFlags ?a)"
    by (simp_all add: demo_args_def test_type_def flag_reuse_def)
  have f: "startLoad ?a = 200" "stepLoad ?a = 25" "maxLoad ?a = 240" by (simp_all add: demo_args_def)
  have "\<forall>l \<in> set (loads_from ?a 200). good_load TYPE(64) simd_bound last_sample () (small_set 250) TEST2 l"
    unfolding demo_loads using demo_good[of _ simd_bound TEST2] by (simp add: simd_bound_def)
  moreover have "\<not> isIndex (simd_class_of TYPE(16) 16 (demo_cfg Type_Map Fast) demo_blank)"
    by (simp add: simd_class_of_def SimdMap_class_def simd_methods_def isIndex_def)
  ultimately show ?thesis
    using bench_simd_completes[where ?c0.0 = demo_blank and cfg = "demo_cfg Type_Map Fast" and 'm = 16 and sz = 16 and sample = last_sample
        and data_set = "small_set 250" and a = ?a and seed = "()"]
      last_sample_ok small_set_distinct[of 250]
    by (simp add: tt f demo_loads counted_operations_def pow2_mode_def vector_ok_def del: One_nat_def)
qed

section \<open>tsl::robin_map\<close>

text \<open>C35. The benchmark of \<open>tsl::robin_map\<close> with up to 32766 keys, for which no probe distance can reach the
  limit of 16 bits, runs to its end like that of the classes of \<^verbatim>\<open>SimdHash.h\<close>, unless a growing table
  throws \<open>std::length_error\<close>: for every hash function, with or without stored hashes.\<close>

theorem bench_robin_completes:
  fixes hash :: "'w::len word \<Rightarrow> u64"
  assumes "sampler_ok sample" "distinct (vec_keys data_set :: 'w word list)"
    and "stepLoad a \<noteq> 0" "unat (maxLoad a) + unat (stepLoad a) < 2 ^ 64"
    and "flag_reuse (BenchFlags a) \<longrightarrow> test_type (BenchFlags a) \<noteq> TEST2"
    and "\<forall>l \<in> set (loads_from a (startLoad a)).
      good_load TYPE('w) robin_bound sample seed data_set (test_type (BenchFlags a)) l"
  shows "Bench (RobinMap_class (robin_map_config st hash ss sd mx)) sample seed a data_set = abort Length_error
    \<or> (\<exists>rows. Bench (RobinMap_class (robin_map_config st hash ss sd mx)) sample seed a data_set = ret rows
      \<and> map row_Count rows = map ucast (loads_from a (startLoad a))
      \<and> map row_opCounter rows
        = map (counted_operations (RobinMap_class (robin_map_config st hash ss sd mx)) (test_type (BenchFlags a)))
            (loads_from a (startLoad a)))"
  using robin_map.Bench_ok[OF assms, of st hash ss sd mx] by (auto simp: ends_def)

lemma bench_robin_completes_witness:
  "\<exists>rows. Bench (RobinMap_class (robin_map_config False (\<lambda>k :: u64. k) True True 0x1000000)) last_sample ()
      \<lparr>BenchFlags = 0, startLoad = 1, maxLoad = 1, stepLoad = 1\<rparr> (small_set 2) = ret rows
    \<and> map row_Count rows = [1] \<and> map row_opCounter rows = [1]"
proof -
  let ?cls = "RobinMap_class (robin_map_config False (\<lambda>k :: u64. k) True True 0x1000000)"
  let ?a = "\<lparr>BenchFlags = 0, startLoad = 1, maxLoad = 1, stepLoad = 1\<rparr>"
  have "Bench ?cls last_sample () ?a (small_set 2) \<noteq> abort Length_error" by code_simp
  moreover have l: "loads_from ?a 1 = [1]" by (simp add: loads_from_def loads_left_def upt_rec)
  moreover have "\<forall>l \<in> set (loads_from ?a 1). good_load TYPE(64) robin_bound last_sample () (small_set 2) TEST1 l"
    by (simp add: l good_load_def robin_bound_def test_vector_size_def)
  moreover have tt: "test_type 0 = TEST1" "\<not> flag_reuse 0" by (simp_all add: test_type_def flag_reuse_def)
  ultimately show ?thesis
    using bench_robin_completes[where hash = "\<lambda>k :: u64. k" and sample = last_sample and seed = "()" and a = ?a
        and data_set = "small_set 2" and st = False and ss = True and sd = True and mx = "0x1000000"]
      last_sample_ok small_set_distinct[of 2]
    by (simp add: counted_operations_def)
qed

section \<open>Arguments with which the benchmark fails\<close>

text \<open>C36. On the same classes a benchmark whose first load is so small that a percentage of it is 0 ends in a
  failed assertion (\<open>TEST2\<close> below 100), in a division by 0 (\<open>TEST3\<close> below 20) or in reads far outside
  of the data set (\<open>TEST4\<close> below 20, where the index \<open>load - 1\<close> wraps); one whose first load is above
  209715299 in a failed assertion, since the test vectors are too short; with the step 0 a benchmark never ends; with a
  first load above the largest it prints nothing.\<close>

theorem bench_failures:
  fixes cfg :: "('w::len word, 'w word) config"
  assumes cls: "cls = simd_class_of TYPE('m::len) sz cfg c0"
    and cfg: "pow2_mode (cfg_mode cfg)" "\<not> cfg_fix cfg" "vector_ok sz TYPE('m)"
    and s: "sampler_ok sample" and d: "distinct (vec_keys data_set :: 'w word list)"
  shows "(startLoad a \<le> maxLoad a \<and> unat (startLoad a) \<le> length data_set \<and> length data_set < 2 ^ 32
        \<and> \<not> flag_reuse (BenchFlags a) \<longrightarrow>
      (test_type (BenchFlags a) = TEST2 \<and> startLoad a < 100 \<longrightarrow> Bench cls sample seed a data_set = abort Bench_assert)
      \<and> (test_type (BenchFlags a) = TEST3 \<and> startLoad a < 20 \<longrightarrow>
          Bench cls sample seed a data_set = abort Division_by_zero)
      \<and> (test_type (BenchFlags a) = TEST4 \<and> startLoad a < 20 \<longrightarrow>
          Bench cls sample seed a data_set = abort Out_of_bounds))
    \<and> (startLoad a \<le> maxLoad a \<and> 209715299 < startLoad a \<longrightarrow>
        Bench cls sample seed a data_set = abort Bench_assert)
    \<and> (stepLoad a = 0 \<and> startLoad a \<le> maxLoad a \<and> \<not> flag_reuse (BenchFlags a)
        \<and> good_load TYPE('w) simd_bound sample seed data_set (test_type (BenchFlags a)) (startLoad a) \<longrightarrow>
        Bench cls sample seed a data_set = diverge)
    \<and> (maxLoad a < startLoad a \<longrightarrow> Bench cls sample seed a data_set = ret [])"
proof (intro conjI impI; (elim conjE)?)
  note bt = simd_bench_table[OF cfg, of c0, folded cls]
  note first = bench_table.Bench_first_load_fails[OF bt, of a sample seed data_set]
  have stop: "m = abort e" if "stops False m e" for m :: "row list run" and e using that by (simp add: stops_def)
  assume le: "startLoad a \<le> maxLoad a"
  { assume len: "unat (startLoad a) \<le> length data_set" "length data_set < 2 ^ 32" and r: "\<not> flag_reuse (BenchFlags a)"
    have small: "Bench cls sample seed a data_set = abort e"
      if "test_type (BenchFlags a) = TEST2 \<and> startLoad a < 100 \<and> e = Bench_assert
        \<or> test_type (BenchFlags a) = TEST3 \<and> startLoad a < 20 \<and> e = Division_by_zero
        \<or> test_type (BenchFlags a) = TEST4 \<and> startLoad a < 20 \<and> e = Out_of_bounds" for e
    proof (rule stop, rule first[OF le])
      have "unat (startLoad a) \<le> simd_bound" using that by (auto simp: simd_bound_def word_less_nat_alt)
      then show "stops False (Object_Bench cls sample seed (BenchFlags a) data_set (startLoad a)
          (test_type (BenchFlags a)) t) e" if "simd_holds cfg t {} {} 0 0" for t
        using bench_table.small_load_fails[OF bt s d that r len(1), of "test_type (BenchFlags a)" e seed] len(2)
          \<open>test_type (BenchFlags a) = TEST2 \<and> startLoad a < 100 \<and> e = Bench_assert
            \<or> test_type (BenchFlags a) = TEST3 \<and> startLoad a < 20 \<and> e = Division_by_zero
            \<or> test_type (BenchFlags a) = TEST4 \<and> startLoad a < 20 \<and> e = Out_of_bounds\<close> by simp
    qed
    show "Bench cls sample seed a data_set = abort Bench_assert" if "test_type (BenchFlags a) = TEST2" "startLoad a < 100"
      using small that by blast
    show "Bench cls sample seed a data_set = abort Division_by_zero" if "test_type (BenchFlags a) = TEST3" "startLoad a < 20"
      using small that by blast
    show "Bench cls sample seed a data_set = abort Out_of_bounds" if "test_type (BenchFlags a) = TEST4" "startLoad a < 20"
      using small that by blast }
  show "Bench cls sample seed a data_set = abort Bench_assert" if "209715299 < startLoad a"
  proof (rule stop, rule first[OF le])
    have "test_vector_size < startLoad a div 100"
      using that by (simp add: word_less_nat_alt unat_div test_vector_size_def)
    then show "stops False (Object_Bench cls sample seed (BenchFlags a) data_set (startLoad a)
        (test_type (BenchFlags a)) t) Bench_assert" for t by (simp add: MakeTestVector_too_large)
  qed
  show "Bench cls sample seed a data_set = diverge" if "stepLoad a = 0" "\<not> flag_reuse (BenchFlags a)"
    "good_load TYPE('w) simd_bound sample seed data_set (test_type (BenchFlags a)) (startLoad a)"
    using bench_table.Bench_loads_diverges[OF bt s d _ that(1) le _ that(3), of "[]"] that(2)
    by (simp add: Bench_def test_type_def)
next
  assume "maxLoad a < startLoad a"
  then show "Bench cls sample seed a data_set = ret []"
    by (subst Bench_def, subst Bench_loads.simps) (simp add: test_type_def not_le[symmetric])
qed

lemma bench_failures_witness:
  "let cls = simd_class_of TYPE(16) 16 (demo_cfg Type_Set Fast) demo_blank;
       run = (\<lambda>flags l st. Bench cls last_sample () \<lparr>BenchFlags = flags, startLoad = l, maxLoad = 50, stepLoad = st\<rparr> (small_set 90))
   in run 0x0000010000000000 50 1 = abort Bench_assert \<and> run 0x0000001000000000 19 1 = abort Division_by_zero
    \<and> run 0x0000000100000000 19 1 = abort Out_of_bounds \<and> run 0 50 0 = diverge \<and> run 0 51 1 = ret []"
proof -
  define cls where "cls = simd_class_of TYPE(16) 16 (demo_cfg Type_Set Fast) demo_blank"
  let ?a = "\<lambda>flags l st. \<lparr>BenchFlags = flags, startLoad = l, maxLoad = 50, stepLoad = st\<rparr>"
  note f = bench_failures[OF cls_def, where sample = last_sample and seed = "()" and data_set = "small_set 90",
      OF _ _ _ last_sample_ok small_set_distinct, simplified]
  have c: "pow2_mode Fast" "vector_ok 16 TYPE(16)" by (simp_all add: pow2_mode_def vector_ok_def)
  have g: "good_load TYPE(64) simd_bound last_sample () (small_set 90) TEST1 50"
    by (simp add: good_load_def simd_bound_def test_vector_size_def)
  have "Bench cls last_sample () (?a 0x0000010000000000 50 1) (small_set 90) = abort Bench_assert"
    "Bench cls last_sample () (?a 0x0000001000000000 19 1) (small_set 90) = abort Division_by_zero"
    "Bench cls last_sample () (?a 0x0000000100000000 19 1) (small_set 90) = abort Out_of_bounds"
    "Bench cls last_sample () (?a 0 50 0) (small_set 90) = diverge"
    "Bench cls last_sample () (?a 0 51 1) (small_set 90) = ret []"
    using f[OF c, of "?a 0x0000010000000000 50 1"] f[OF c, of "?a 0x0000001000000000 19 1"]
      f[OF c, of "?a 0x0000000100000000 19 1"] f[OF c, of "?a 0 50 0"] f[OF c, of "?a 0 51 1"] g
    by (simp_all add: test_type_def flag_reuse_def)
  then show ?thesis by (simp add: cls_def Let_def)
qed

end
