(* ===== verification/AnkerlProps.thy ===== *)
theory AnkerlProps
  imports AnkerlBench BenchProps
begin

text \<open>
  The properties of \<open>ankerl::unordered_dense\<close>: its hash functions, histories of a map, the index that the buckets
  are, the searches, the erasures of several values, \<open>replace\<close>, and the benchmark.
\<close>

section \<open>Hash functions\<close>

text \<open>C29. The multiplication of \<open>wyhash\<close> without 128-bit integers, from four products of halves, gives the
  same two words as the one with them; and the hash of a string never reads outside of it, however long it
  is: neither in the loops over blocks of 48 and 16 bytes nor in the reads that overlap at the end.\<close>

theorem wyhash_exact_and_safe:
  "mum_portable a b = mum a b \<and> (\<exists>h. wyhash_bytes key = ret h)"
  using mum_portable_eq[of a b] wyhash_bytes_ok[of key] by simp

section \<open>Histories\<close>

text \<open>C11. A map that is made by the default constructor and changed by at most 16777214 operations
  (\<open>insert_or_assign\<close>, \<open>emplace\<close>, \<open>operator[]\<close>, erasures by key, by a predicate and of everything, \<open>clear\<close>,
  \<open>reserve\<close>, \<open>rehash\<close>, new load factors, copies) holds exactly the finite partial function that the operations
  describe, for every hash function: every operation returns without an exception, and \<open>contains\<close>, \<open>count\<close>,
  \<open>at\<close>, \<open>size\<close> and the sequence of values agree with the function. The arguments of \<open>reserve\<close> and \<open>rehash\<close> are at most \<open>2 ^ 30\<close>, load
  factors between 1/2 and 125/128.\<close>

theorem ankerl_map_history:
  fixes hash :: "'k \<Rightarrow> u64" and zero :: 'v
  assumes "length ps \<le> dense_bound" "list_all dense_op_valid ps"
  shows "\<exists>t. dense_history (ankerl_map_config hash av nw) zero ps = ret t
    \<and> map_of (ud_values t) = dense_history_spec zero ps \<and> distinct (map fst (ud_values t))
    \<and> unat (ud_size t) = card (dom (dense_history_spec zero ps))
    \<and> (\<forall>k. ud_contains (ankerl_map_config hash av nw) t k = Some (dense_history_spec zero ps k \<noteq> None)
        \<and> ud_count (ankerl_map_config hash av nw) t k = Some (if dense_history_spec zero ps k = None then 0 else 1)
        \<and> do_at (ankerl_map_config hash av nw) t k
          = (case dense_history_spec zero ps k of Some v \<Rightarrow> ret v | None \<Rightarrow> abort Out_of_range))"
proof -
  let ?cfg = "ankerl_map_config hash av nw :: ('k \<times> 'v, 'k) ud_config"
  have key: "ud_key ?cfg = fst" by simp
  obtain t where t: "dense_history ?cfg zero ps = ret t" "dmap_ok ?cfg t (dense_history_spec zero ps)"
    using dense_history_ok[OF key assms, of zero] by blast
  note D = dmap_okD[OF t(2) key]
  have "unat (ud_size t) = card (dom (dense_history_spec zero ps))"
    using dense_okD(6)[OF D(1)] D(6) by (simp add: unat_ud_size)
  moreover have "ud_contains ?cfg t k = Some (dense_history_spec zero ps k \<noteq> None)" for k
    unfolding contains_ok[OF D(1)] D(5)[symmetric] by auto
  moreover have "ud_count ?cfg t k = Some (if dense_history_spec zero ps k = None then 0 else 1)" for k
    unfolding count_ok[OF D(1)] D(5)[symmetric] by auto
  ultimately show ?thesis using t(1) D(3,4) dense_at_ok[OF D(1) key] by auto
qed

text \<open>The tables of a history.\<close>

lemma history_dense_ok:
  fixes hash :: "'k \<Rightarrow> u64"
  assumes "length ps \<le> dense_bound" "list_all dense_op_valid ps" "dense_history (ankerl_map_config hash av nw) zero ps = ret t"
  shows "dense_ok (ankerl_map_config hash av nw) t"
  using dense_history_ok[OF _ assms(1,2), of "ankerl_map_config hash av nw" zero] assms(3) by (auto simp: dmap_ok_def)

text \<open>C25. In a table that a history makes the buckets are an exact index of the values: their number is a power
  of two larger than the number of values, every value has exactly one bucket, which lies at the distance from
  the home of its hash that the bucket tells, and no bucket on the way from the home is empty or nearer to its own
  home, so that a search that starts at the home and stops at a nearer one finds it.\<close>

theorem ankerl_index_exact:
  fixes hash :: "'k \<Rightarrow> u64" and t :: "('k \<times> 'v) dense"
  assumes "length ps \<le> dense_bound" "list_all dense_op_valid ps" "dense_history (ankerl_map_config hash av nw) zero ps = ret t"
  shows "length (ud_values t) < length (ud_buckets t) \<and> length (ud_buckets t) = 2 ^ (64 - unat (ud_shifts t))
    \<and> (\<forall>v < length (ud_values t).
        (\<exists>!i. i < length (ud_buckets t) \<and> dist_and_fingerprint (ud_buckets t ! i) \<noteq> 0
            \<and> value_idx (ud_buckets t ! i) = of_nat v)
      \<and> (\<exists>j < length (ud_values t).
          let h = mixed_hash (ankerl_map_config hash av nw :: ('k \<times> 'v, 'k) ud_config) (fst (ud_values t ! v)); home = dense_home (ud_shifts t) h in
          bucket_idx_at (ud_buckets t) (home + j) = of_nat v \<and> dval (ud_buckets t) (home + j) = dprobe h j
          \<and> (\<forall>i \<le> j. dprobe h i \<le> dval (ud_buckets t) (home + i))))"
proof -
  note ok = history_dense_ok[OF assms]
  note D = dense_okD[OF ok] and I = dense_indexD[OF dense_okD(1)[OF ok]]
  have "\<exists>!i. i < length (ud_buckets t) \<and> dist_and_fingerprint (ud_buckets t ! i) \<noteq> 0
      \<and> value_idx (ud_buckets t ! i) = of_nat v" if v: "v < length (ud_values t)" for v
  proof (rule ex_ex1I)
    have "of_nat v \<in># idxs (ud_buckets t)" using I(3) v by simp
    then show "\<exists>i. i < length (ud_buckets t) \<and> dist_and_fingerprint (ud_buckets t ! i) \<noteq> 0
      \<and> value_idx (ud_buckets t ! i) = of_nat v" by (auto simp: in_idxs)
  qed (use idxs_unique[OF dense_index_count[OF D(1)]] in blast)
  moreover have "\<exists>j < length (ud_values t).
      let h = mixed_hash (ankerl_map_config hash av nw :: ('k \<times> 'v, 'k) ud_config) (fst (ud_values t ! v)); home = dense_home (ud_shifts t) h in
      bucket_idx_at (ud_buckets t) (home + j) = of_nat v \<and> dval (ud_buckets t) (home + j) = dprobe h j
      \<and> (\<forall>i \<le> j. dprobe h i \<le> dval (ud_buckets t) (home + i))" if v: "v < length (ud_values t)" for v
  proof -
    let ?h = "mixed_hash (ankerl_map_config hash av nw :: ('k \<times> 'v, 'k) ud_config) (fst (ud_values t ! v))"
    obtain j where "j < length (ud_values t)" "dval (ud_buckets t) (dense_home (ud_shifts t) ?h + j) = dprobe ?h j"
      "bucket_idx_at (ud_buckets t) (dense_home (ud_shifts t) ?h + j) = of_nat v"
      "\<And>i. i \<le> j \<Longrightarrow> dprobe ?h i \<le> dval (ud_buckets t) (dense_home (ud_shifts t) ?h + i)"
      using dense_located[OF D(1) v, unfolded value_hash_def ankerl_config_simps] by metis
    then show ?thesis unfolding Let_def by blast
  qed
  ultimately show ?thesis using D(4,7) by (simp add: dense_shape_def)
qed

section \<open>Searches\<close>

text \<open>A loop with one of the tests, from the home of the key.\<close>

definition ankerl_search ::
    "('a, 'k) ud_config \<Rightarrow> 'a dense \<Rightarrow> 'k \<Rightarrow> (('a, 'k) ud_config \<Rightarrow> 'a dense \<Rightarrow> 'k \<Rightarrow> u32 \<Rightarrow> u32 \<Rightarrow> 'r option) \<Rightarrow> 'r option" where
  "ankerl_search cfg t key stop = dense_probe (stop cfg t key) (ud_bucket_count t)
     (dist_and_fingerprint_from_hash (mixed_hash cfg key)) (bucket_idx_from_hash t (mixed_hash cfg key))"

text \<open>C26. The five searches find the same: the lookup with its two unrolled steps, the loops of \<open>emplace\<close>, of
  \<open>try_emplace\<close> and of \<open>replace\<close>, which test the distance and the key in different orders, and the two loops of
  the erasure by key. For a key that is there they give the position of its value; for another one the lookup
  gives \<open>end()\<close>, the three loops stop at the same bucket with the same distance, and nothing is erased.\<close>

theorem ankerl_searches_agree:
  fixes hash :: "'k \<Rightarrow> u64" and t :: "('k \<times> 'v) dense"
  assumes "length ps \<le> dense_bound" "list_all dense_op_valid ps" "dense_history (ankerl_map_config hash av nw) zero ps = ret t"
    and cfg: "cfg = ankerl_map_config hash av nw"
  shows "(\<exists>v < length (ud_values t). fst (ud_values t ! v) = key \<and> do_find cfg t key = Some (of_nat v)
        \<and> ankerl_search cfg t key emplace_stop = Some (Inl (of_nat v))
        \<and> ankerl_search cfg t key try_emplace_stop = Some (Inl (of_nat v))
        \<and> ankerl_search cfg t key replace_stop = Some (Inl (of_nat v))
        \<and> (\<exists>t'. do_erase_key cfg key t = Some (Some (ud_values t ! v), t') \<and> ud_values t' = taken_out v (ud_values t)))
    \<or> (key \<notin> fst ` set (ud_values t) \<and> do_find cfg t key = Some (ud_size t) \<and> do_erase_key cfg key t = Some (None, t)
        \<and> (\<exists>daf i. ankerl_search cfg t key emplace_stop = Some (Inr (daf, i))
          \<and> ankerl_search cfg t key try_emplace_stop = Some (Inr (daf, i))
          \<and> ankerl_search cfg t key replace_stop = Some (Inr (daf, i))))"
proof -
  have ok: "dense_ok cfg t" unfolding cfg by (rule history_dense_ok[OF assms(1-3)])
  have key: "ud_key cfg = fst" by (simp add: cfg)
  note D = dense_okD[OF ok]
  show ?thesis
  proof (cases "key \<in> dkeys cfg t")
    case True
    then obtain v where v: "v < length (ud_values t)" "ud_key cfg (ud_values t ! v) = key" by (auto simp: in_set_conv_nth)
    show ?thesis
      using emplace_search_found[OF D(1) v] do_find_found[OF D(1) v] erase_key_found[OF ok v] v key
      by (auto simp: ankerl_search_def emplace_stops_equal erased_def)
  next
    case False
    then have "key \<notin> set (map (ud_key cfg) (take (length (ud_values t)) (ud_values t)))" by simp
    from emplace_search_absent[OF D(1) this] obtain daf i where "ankerl_search cfg t key emplace_stop = Some (Inr (daf, i))"
      unfolding ankerl_search_def by metis
    then show ?thesis
      using do_find_absent[OF D(1), of key] erase_key_absent[OF ok False] False key by (auto simp: ankerl_search_def emplace_stops_equal)
  qed
qed

section \<open>Erasing several values\<close>

text \<open>C27. \<open>erase(first, last)\<close>, which first moves values from the end into the gap and then removes from the
  back, removes exactly the values of the range, and \<open>std::erase_if\<close> exactly those for which the predicate holds;
  both keep the others and a table in order, and \<open>erase_if\<close> returns the number of values that it removed.\<close>

theorem ankerl_erasures:
  assumes "dense_ok cfg t" "idx_first \<le> idx_last" "idx_last \<le> length (ud_values t)"
  shows "(\<exists>t'. ud_erase_range cfg idx_first idx_last t = Some t' \<and> dense_ok cfg t'
      \<and> mset (ud_values t') = mset (take idx_first (ud_values t)) + mset (drop idx_last (ud_values t)))
    \<and> (\<exists>t'. ud_erase_if cfg pred t = Some (of_nat (length (filter pred (ud_values t))), t') \<and> dense_ok cfg t'
      \<and> mset (ud_values t') = mset (filter (\<lambda>x. \<not> pred x) (ud_values t)))"
proof -
  let ?xs = "ud_values t"
  obtain t' where t': "ud_erase_range cfg idx_first idx_last t = Some t'" "dense_ok cfg t'"
    "mset (ud_values t') + mset (take (idx_last - idx_first) (drop idx_first ?xs)) = mset ?xs"
    using erase_range_ok[OF assms] by blast
  have "?xs = take idx_first ?xs @ take (idx_last - idx_first) (drop idx_first ?xs) @ drop idx_last ?xs"
    using assms(2) by (metis append_take_drop_id drop_drop le_add_diff_inverse2)
  then have "mset ?xs = mset (take idx_first ?xs) + mset (drop idx_last ?xs) + mset (take (idx_last - idx_first) (drop idx_first ?xs))"
    by (metis add.assoc add.commute mset_append)
  then have "mset (ud_values t') = mset (take idx_first ?xs) + mset (drop idx_last ?xs)" using t'(3) by simp
  then show ?thesis using t'(1,2) erase_if_ok[OF assms(1), of pred] by blast
qed

section \<open>Replacing the values\<close>

text \<open>C28. \<open>replace\<close> with a container of at most 16777214 values returns a table in order with one value for each key of the
  container, whatever the table held before and however often a key occurs.\<close>

theorem ankerl_replace:
  assumes "dense_ok cfg t" "1 / 2 \<le> ud_max_load_factor t" "length container \<le> dense_bound"
  shows "\<exists>t'. ud_replace cfg container t = ret t' \<and> dense_ok cfg t' \<and> distinct (map (ud_key cfg) (ud_values t'))
    \<and> set (ud_values t') \<subseteq> set container \<and> ud_key cfg ` set (ud_values t') = ud_key cfg ` set container"
  using ud_replace_ok[OF assms] dense_okD(5) by (fastforce simp: same_keys_def)

section \<open>The benchmark\<close>

text \<open>C8. The benchmark of \<open>ankerl::unordered_dense::map\<close> with loads of up to 16777214 keys runs to its end for every hash
  function, without an exception, with one line for every load, which tells a table of that many elements and the
  number of operations of the test, under the conditions for the classes of \<^verbatim>\<open>SimdHash.h\<close>.\<close>

theorem bench_ankerl_completes:
  fixes hash :: "'w::len word \<Rightarrow> u64"
  assumes "sampler_ok sample" "distinct (vec_keys data_set :: 'w word list)"
    and "stepLoad a \<noteq> 0" "unat (maxLoad a) + unat (stepLoad a) < 2 ^ 64"
    and "flag_reuse (BenchFlags a) \<longrightarrow> test_type (BenchFlags a) \<noteq> TEST2"
    and "\<forall>l \<in> set (loads_from a (startLoad a)).
      good_load TYPE('w) dense_bound sample seed data_set (test_type (BenchFlags a)) l"
  shows "\<exists>rows. Bench (AnkerlMap_class (ankerl_map_config hash av nw)) sample seed a data_set = ret rows
    \<and> map row_Count rows = map ucast (loads_from a (startLoad a))
    \<and> map row_opCounter rows
      = map (counted_operations (AnkerlMap_class (ankerl_map_config hash av nw)) (test_type (BenchFlags a)))
          (loads_from a (startLoad a))"
  using ankerl_map.Bench_ok[OF assms, of hash av nw] by (auto simp: ends_def)

section \<open>Witnesses\<close>

abbreviation demo_dense :: "(u64 \<times> u64, u64) ud_config" where
  "demo_dense \<equiv> ankerl_map_config ankerl_hash True False"

lemma demo_dense_table:
  "\<exists>t. dense_history demo_dense 0 [Dense_emplace 3 4] = ret t \<and> ud_values t = [(3, 4)] \<and> dense_ok demo_dense t
    \<and> 1 / 2 \<le> ud_max_load_factor t"
proof -
  have n: "length [Dense_emplace (3 :: u64) (4 :: u64)] \<le> dense_bound" by (simp add: dense_bound_def)
  obtain t where t: "dense_history demo_dense 0 [Dense_emplace 3 4] = ret t"
    "dmap_ok demo_dense t (dense_history_spec 0 [Dense_emplace 3 4])"
    using dense_history_ok[OF _ n, of demo_dense 0] by auto
  note D = dmap_okD[OF t(2)]
  have m: "map_of (ud_values t) = [3 \<mapsto> 4]" using D(3) by (simp add: dense_history_spec_def)
  moreover have "length (ud_values t) = 1" using D(3,6) m by simp
  ultimately have "ud_values t = [(3, 4)]"
    by (auto simp: length_Suc_conv fun_eq_iff split: if_splits prod.splits)
  then show ?thesis using t D(1,2) by auto
qed

lemma ankerl_map_history_witness:
  "\<exists>t. dense_history demo_dense 0 [Dense_emplace 3 4, Dense_insert_or_assign 5 6, Dense_emplace 3 9, Dense_copy, Dense_erase 5] = ret t
    \<and> map_of (ud_values t) = [3 \<mapsto> 4] \<and> unat (ud_size t) = 1 \<and> ud_contains demo_dense t 5 = Some False
    \<and> do_at demo_dense t 3 = ret 4"
proof -
  let ?ps = "[Dense_emplace 3 4, Dense_insert_or_assign 5 6, Dense_emplace 3 9, Dense_copy, Dense_erase 5] :: (u64, u64) dense_op list"
  have "dense_history_spec 0 ?ps = [3 \<mapsto> 4]" by (simp add: dense_history_spec_def fun_eq_iff)
  moreover have "length ?ps \<le> dense_bound" by (simp add: dense_bound_def)
  ultimately show ?thesis using ankerl_map_history[of ?ps ankerl_hash True False 0] by auto
qed

lemma ankerl_index_exact_witness:
  "\<exists>t. dense_history demo_dense 0 [Dense_emplace 3 4] = ret t
    \<and> (\<exists>!i. i < length (ud_buckets t) \<and> dist_and_fingerprint (ud_buckets t ! i) \<noteq> 0 \<and> value_idx (ud_buckets t ! i) = 0)"
proof -
  obtain t where t: "dense_history demo_dense 0 [Dense_emplace 3 4] = ret t" "ud_values t = [(3, 4)]"
    using demo_dense_table by blast
  have "length [Dense_emplace (3 :: u64) (4 :: u64)] \<le> dense_bound" by (simp add: dense_bound_def)
  from ankerl_index_exact[OF this _ t(1)] show ?thesis using t by auto
qed

lemma ankerl_searches_agree_witness:
  "\<exists>t. dense_history demo_dense 0 [Dense_emplace 3 4] = ret t \<and> do_find demo_dense t 3 = Some 0
    \<and> do_find demo_dense t 5 = Some 1"
proof -
  obtain t where t: "dense_history demo_dense 0 [Dense_emplace 3 4] = ret t" "ud_values t = [(3, 4)]"
    using demo_dense_table by blast
  have n: "length [Dense_emplace (3 :: u64) (4 :: u64)] \<le> dense_bound" by (simp add: dense_bound_def)
  show ?thesis
    using ankerl_searches_agree[OF n _ t(1) refl, of 3] ankerl_searches_agree[OF n _ t(1) refl, of 5] t
    by (auto simp: ud_size_def)
qed

lemma ankerl_erasures_witness:
  "\<exists>t t'. dense_history demo_dense 0 [Dense_emplace 3 4] = ret t \<and> ud_erase_range demo_dense 0 1 t = Some t' \<and> ud_values t' = []"
proof -
  obtain t where t: "dense_history demo_dense 0 [Dense_emplace 3 4] = ret t" "ud_values t = [(3, 4)]" "dense_ok demo_dense t"
    using demo_dense_table by blast
  from ankerl_erasures[OF t(3), of 0 1] show ?thesis using t by auto
qed

lemma ankerl_replace_witness:
  "\<exists>t t'. dense_history demo_dense 0 [Dense_emplace 3 4] = ret t \<and> ud_replace demo_dense [(1, 2), (1, 3), (7, 7)] t = ret t'
    \<and> fst ` set (ud_values t') = {1, 7}"
proof -
  obtain t where t: "dense_history demo_dense 0 [Dense_emplace 3 4] = ret t" "dense_ok demo_dense t" "1 / 2 \<le> ud_max_load_factor t"
    using demo_dense_table by blast
  have "length [(1, 2), (1, 3), (7 :: u64, 7 :: u64)] \<le> dense_bound" by (simp add: dense_bound_def)
  from ankerl_replace[OF t(2,3) this] show ?thesis using t(1) by auto
qed

lemma bench_ankerl_completes_witness:
  "\<exists>rows. Bench (AnkerlMap_class (ankerl_map_config (ankerl_hash :: u64 \<Rightarrow> u64) True False)) last_sample ()
      (demo_args 0x0000010000000000) (small_set 250) = ret rows
    \<and> map row_Count rows = [200, 225] \<and> map row_opCounter rows = [32, 32]"
proof -
  let ?a = "demo_args 0x0000010000000000" and ?cls = "AnkerlMap_class (ankerl_map_config (ankerl_hash :: u64 \<Rightarrow> u64) True False)"
  have tt: "test_type (BenchFlags ?a) = TEST2" "\<not> flag_reuse (BenchFlags ?a)"
    by (simp_all add: demo_args_def test_type_def flag_reuse_def)
  have f: "startLoad ?a = 200" "stepLoad ?a = 25" "maxLoad ?a = 240" by (simp_all add: demo_args_def)
  have "\<forall>l \<in> set (loads_from ?a 200). good_load TYPE(64) dense_bound last_sample () (small_set 250) TEST2 l"
    unfolding demo_loads using demo_good[of _ dense_bound TEST2] by (simp add: dense_bound_def)
  moreover have "\<not> isIndex ?cls" by (simp add: AnkerlMap_class_def isIndex_def)
  ultimately show ?thesis
    using bench_ankerl_completes[where hash = "ankerl_hash :: u64 \<Rightarrow> u64" and av = True and nw = False and sample = last_sample
        and data_set = "small_set 250" and a = ?a and seed = "()"] last_sample_ok small_set_distinct[of 250]
    by (simp add: tt f demo_loads counted_operations_def del: One_nat_def)
qed

end
