(* ===== verification/Foundations.thy ===== *)
theory Foundations
  imports Demo
begin

text \<open>
  The properties of the parts below the table: sizes, index computation, masks, tag and entry
  arrays, probing.
\<close>

section \<open>Numbers\<close>

text \<open>\<open>RoundUpToPowerOf2\<close> gives the least power of two that is not below its argument, for every
  argument up to \<open>2^31\<close>; above that it wraps around to 0, which the callers exclude.\<close>

theorem RoundUpToPowerOf2_least:
  assumes "0 < unat v"
  shows "if unat v \<le> 2 ^ 31
    then \<exists>k. unat (RoundUpToPowerOf2 v) = 2 ^ k \<and> unat v \<le> 2 ^ k \<and> (\<forall>j. unat v \<le> 2 ^ j \<longrightarrow> (2::nat) ^ k \<le> 2 ^ j)
    else RoundUpToPowerOf2 v = 0"
proof (cases "unat v \<le> 2 ^ 31")
  case True
  from RoundUpToPowerOf2_spec[OF assms True] obtain k where
    k: "unat (RoundUpToPowerOf2 v) = 2 ^ k" "unat v \<le> 2 ^ k" "2 ^ k < 2 * unat v" by blast
  have "(2::nat) ^ k \<le> 2 ^ j" if "unat v \<le> 2 ^ j" for j
  proof (rule ccontr)
    assume "\<not> ?thesis"
    then have "j < k" by (metis linorder_not_less one_less_numeral_iff power_increasing_iff semiring_norm(76))
    then have "(2::nat) ^ Suc j \<le> 2 ^ k" by (intro power_increasing) auto
    with k(3) that show False by simp
  qed
  with k True show ?thesis by auto
next
  case False
  then show ?thesis using RoundUpToPowerOf2_overflow[of v] by simp
qed

theorem RoundUpToPowerOf2_least_witness:
  "\<exists>k. unat (RoundUpToPowerOf2 5000) = 2 ^ k \<and> (5000::nat) \<le> 2 ^ k"
  using RoundUpToPowerOf2_least[of 5000] by auto

text \<open>The default hash is a bijection of the 64-bit words: the inverse is computed, so two integer
  keys never have the same hash.\<close>

theorem Hash_hash_bij: "bij (Hash_hash type)"
proof (rule bijI)
  show "inj (Hash_hash type)" by (rule inj_on_inverseI[of _ "Hash_unhash type"]) (rule Hash_unhash_hash)
  then show "surj (Hash_hash type)" by (rule finite_UNIV_inj_surj[OF finite_class.finite_UNIV])
qed

text \<open>C22. The count of trailing zeros that replaces the CPU's instruction when \<open>bFix\<close> is set agrees with
  it except in one case: when bit 12 is the lowest bit set it gives the next set bit, or 12 if there is
  none among bits 13 to 15.\<close>

theorem TrailingZeroCount_bFix:
  fixes m :: u32
  assumes "m \<noteq> 0"
  shows "TrailingZeroCount True m =
    (if lowest_bit m = 12 \<and> bit m 13 then 13 else if lowest_bit m = 12 \<and> bit m 14 then 14
     else if lowest_bit m = 12 \<and> bit m 15 then 15 else TrailingZeroCount False m)"
  using TrailingZeroCount_fix[OF assms] by (auto simp: TrailingZeroCount_nofix)

theorem TrailingZeroCount_bFix_witness:
  "TrailingZeroCount True (0x3000 :: u32) = 13 \<and> TrailingZeroCount False (0x3000 :: u32) = 12"
proof -
  have l: "lowest_bit (0x3000 :: u32) = 12"
    by (rule lowest_bit_eqI) (auto simp: less_Suc_eq eval_nat_numeral)
  then show ?thesis using TrailingZeroCount_bFix[of "0x3000"] by (simp add: TrailingZeroCount_nofix)
qed

section \<open>Sizes\<close>

text \<open>C21. Every capacity the table computes lies between 4096 and \<open>2^31\<close>, is a whole number of pages, is
  no less than the size asked for, and in the two modes that need it is a power of two; the
  \<open>SaveMemory\<close> modes never take more than the next power of two.\<close>

theorem AdjustCapacity_range:
  "4096 \<le> unat (AdjustCapacity mode sz) \<and> unat (AdjustCapacity mode sz) \<le> 2 ^ 31
   \<and> 4096 dvd unat (AdjustCapacity mode sz)
   \<and> (pow2_mode mode \<longrightarrow> (\<exists>k. unat (AdjustCapacity mode sz) = 2 ^ k))
   \<and> (unat sz \<le> 2 ^ 31 \<longrightarrow> unat sz \<le> unat (AdjustCapacity mode sz))
   \<and> (mode \<noteq> ResizeOnlyEmpty \<and> 4096 < unat sz \<and> unat sz < 2 ^ 31
       \<longrightarrow> unat (AdjustCapacity mode sz) \<le> unat (RoundUpToPowerOf2 sz))"
proof (intro conjI impI)
  show "4096 \<le> unat (AdjustCapacity mode sz)" "unat (AdjustCapacity mode sz) \<le> 2 ^ 31"
    "4096 dvd unat (AdjustCapacity mode sz)"
    "pow2_mode mode \<Longrightarrow> \<exists>k. unat (AdjustCapacity mode sz) = 2 ^ k"
    using AdjustCapacity_cap_ok[of mode sz] by (auto simp: cap_ok_def)
  show "unat sz \<le> 2 ^ 31 \<Longrightarrow> unat sz \<le> unat (AdjustCapacity mode sz)"
    by (rule AdjustCapacity_ge) (simp add: word_le_nat_alt size_consts)
  assume a: "mode \<noteq> ResizeOnlyEmpty \<and> 4096 < unat sz \<and> unat sz < 2 ^ 31"
  then have "MIN_SIZE < sz" "sz < MAX_SIZE" by (simp_all add: word_less_nat_alt size_consts)
  with a show "unat (AdjustCapacity mode sz) \<le> unat (RoundUpToPowerOf2 sz)"
    using AdjustCapacity_pow2[of mode sz] AdjustCapacity_save[of mode sz]
    by (cases mode) (auto simp: pow2_mode_def)
qed

theorem AdjustCapacity_range_witness:
  "(5000::nat) \<le> unat (AdjustCapacity SaveMemoryMax 5000)"
  using AdjustCapacity_range[of SaveMemoryMax 5000] by simp

text \<open>The growth limit leaves at least 40 slots unused below the largest capacity, whatever load
  factor was asked for, and a larger capacity has a larger limit; so a table that grows at its limit
  always has an empty slot to end a search.\<close>

theorem growth_limit_leaves_room:
  assumes "sizes_ok mode s" "Capacity s < MAX_SIZE"
  shows "unat (CountGrowthLimit (max_load_factor mlf s)) + 40 \<le> unat (Capacity s)
    \<and> 3000 \<le> unat (CountGrowthLimit (max_load_factor mlf s))
    \<and> (\<forall>sz. Capacity s < AdjustCapacity mode sz \<longrightarrow>
        CountGrowthLimit s < CountGrowthLimit (InitCapacity mode sz s))"
proof -
  let ?s = "max_load_factor mlf s"
  have ok: "sizes_ok mode ?s" using assms(1) by (rule sizes_ok_max_load_factor)
  then have b: "cap_ok mode (unat (Capacity s))" "CountGrowthLimit ?s = growth_limit (Capacity s) (load_limit ?s)"
    "MIN_LOAD_FACTOR \<le> load_limit ?s" "load_limit ?s \<le> MAX_LOAD_FACTOR"
    by (auto simp: sizes_ok_def limit_ok_def)
  have "CountGrowthLimit s < CountGrowthLimit (InitCapacity mode sz s)"
    if lt: "Capacity s < AdjustCapacity mode sz" for sz
  proof -
    have l: "MIN_LOAD_FACTOR \<le> load_limit s" "load_limit s \<le> MAX_LOAD_FACTOR"
      "CountGrowthLimit s = growth_limit (Capacity s) (load_limit s)"
      using assms(1) by (auto simp: sizes_ok_def limit_ok_def)
    have "sizes_ok mode (InitCapacity mode sz s)" using l by (intro InitCapacity_sizes_ok)
    then have "CountGrowthLimit (InitCapacity mode sz s) = growth_limit (AdjustCapacity mode sz) (load_limit s)"
      using l by (simp add: sizes_ok_def limit_ok_def InitCapacity_def max_load_factor_def Let_def)
    then show ?thesis
      using growth_limit_less[OF b(1) AdjustCapacity_cap_ok lt l(1,2)] l(3) by simp
  qed
  with growth_limit_bounds[OF b(1) assms(2) b(3,4)] show ?thesis unfolding b(2) by blast
qed

theorem growth_limit_leaves_room_witness:
  "unat (CountGrowthLimit (max_load_factor 1 (demo_new Type_Map Fast))) + 40 \<le> (4096::nat)"
proof -
  note d = demo_new_facts[of Type_Map Fast]
  have "sizes_ok Fast (demo_new Type_Map Fast)" using slots_ok_tags(3)[OF core_okD(1)[OF d(2)]] by simp
  moreover have "Capacity (demo_new Type_Map Fast) < MAX_SIZE" by (simp add: d size_consts)
  ultimately show ?thesis
    using growth_limit_leaves_room[of Fast "demo_new Type_Map Fast" 1] d(5) by (simp add: size_consts)
qed

text \<open>C20. \<open>AdjustTupleIndex\<close> gives a slot for every hash, and for the sums the probing forms, which fit in
  32 bits, it is the remainder modulo the capacity: the multiplication by a precomputed inverse
  replaces the division exactly.\<close>

theorem AdjustTupleIndex_remainder:
  assumes "sizes_ok mode s"
  shows "unat (AdjustTupleIndex mode s x) < unat (Capacity s)
    \<and> (unat x < 2 ^ 32 \<longrightarrow> unat (AdjustTupleIndex mode s x) = unat x mod unat (Capacity s))"
  using AdjustTupleIndex_less[OF assms] AdjustTupleIndex_mod[OF assms] by blast

theorem AdjustTupleIndex_remainder_witness:
  "unat (AdjustTupleIndex FastDivMod (demo_new Type_Map FastDivMod) 5000) = (904::nat)"
proof -
  note d = demo_new_facts[of Type_Map FastDivMod]
  have "sizes_ok FastDivMod (demo_new Type_Map FastDivMod)"
    using slots_ok_tags(3)[OF core_okD(1)[OF d(2)]] by simp
  then show ?thesis
    using AdjustTupleIndex_remainder[of FastDivMod "demo_new Type_Map FastDivMod" 5000] d(5)
    by (simp add: size_consts)
qed

section \<open>Masks and arrays\<close>

text \<open>C23. The masks of a register of any of the three widths: bit \<open>j\<close> tells whether byte \<open>j\<close> is the tag
  looked for, is empty, is empty or a tombstone, or belongs to an entry. The \<open>AND\<close> with 0x82 that
  takes tombstones for empty does not take the tail bytes for empty.\<close>

theorem mask_semantics:
  assumes "length xmm = sz" "sz \<le> LENGTH('m)" "\<forall>j < sz. valid_tag (xmm ! j) \<or> xmm ! j = FORBIDDEN"
  shows "(bit (GetCmpMask sz (set1_epi8 sz t) xmm :: 'm::len word) j \<longleftrightarrow> j < sz \<and> xmm ! j = t)
    \<and> (bit (GetEmptyMask sz xmm :: 'm word) j \<longleftrightarrow> j < sz \<and> xmm ! j = EMPTY)
    \<and> (bit (GetEmptyOrTomeStoneMask sz xmm :: 'm word) j
        \<longleftrightarrow> j < sz \<and> (xmm ! j = EMPTY \<or> xmm ! j = TOMBSTONE))
    \<and> (bit (GetNonEmptyMask sz xmm :: 'm word) j \<longleftrightarrow> j < sz \<and> is_full (xmm ! j))"
proof (intro conjI)
  show "bit (GetCmpMask sz (set1_epi8 sz t) xmm :: 'm::len word) j \<longleftrightarrow> j < sz \<and> xmm ! j = t"
    using assms by (auto simp: bit_GetCmpMask)
  show "bit (GetEmptyMask sz xmm :: 'm word) j \<longleftrightarrow> j < sz \<and> xmm ! j = EMPTY"
    using assms by (simp add: bit_GetEmptyMask)
  show "bit (GetNonEmptyMask sz xmm :: 'm word) j \<longleftrightarrow> j < sz \<and> is_full (xmm ! j)"
    using assms by (simp add: bit_GetNonEmptyMask is_full_def)
  have "j < sz \<Longrightarrow> bit (xmm ! j) 7 \<and> \<not> bit (xmm ! j) 1 \<longleftrightarrow> is_free (xmm ! j)"
    using assms(3) by (intro free_mask_bit) simp
  then show "bit (GetEmptyOrTomeStoneMask sz xmm :: 'm word) j
      \<longleftrightarrow> j < sz \<and> (xmm ! j = EMPTY \<or> xmm ! j = TOMBSTONE)"
    using bit_GetEmptyOrTomeStoneMask[OF assms(1,2), of j] unfolding is_free_def by blast
qed

theorem mask_semantics_witness:
  "bit (GetEmptyOrTomeStoneMask 32 (replicate 32 TOMBSTONE) :: u32) 31"
  using mask_semantics[of "replicate 32 TOMBSTONE" 32, where 'm = 32 and j = 31] by simp

text \<open>The portable and the vectorised branch of \<open>TagArray::Init\<close> write the same bytes: empty slots and
  a tail that no search takes for a slot.\<close>

theorem TagArray_Init_branches_agree:
  assumes "ta_ptr a \<noteq> None" "unat (ta_size a) mod SIZE = 0" "length (ta_bytes a) = unat (ta_size a) + SIZE"
  shows "TagArray_Init True a = TagArray_Init False a
    \<and> TagArray_Init False a = ret (a\<lparr>ta_ptr := Some (replicate (unat (ta_size a)) EMPTY @ replicate SIZE FORBIDDEN)\<rparr>)"
  using Init_std_eq_simd[OF assms] Init_bytes[OF assms] by (simp add: fresh_bytes_def)

theorem TagArray_Init_branches_agree_witness:
  "TagArray_Init True \<lparr>ta_ptr = Some (replicate 48 7), ta_size = 32\<rparr>
    = TagArray_Init False \<lparr>ta_ptr = Some (replicate 48 7), ta_size = 32\<rparr>"
  using TagArray_Init_branches_agree[of "\<lparr>ta_ptr = Some (replicate 48 7), ta_size = 32\<rparr>"]
  by (simp add: SIZE_def)

text \<open>The paged entry array: a write changes its own cell only, and growing rounds up to whole pages and
  keeps every cell; asking for no more pages than there are aborts.\<close>

theorem EntryArray_laws:
  assumes "entries_ok a" "unat n \<le> 2 ^ 31"
  shows "(\<forall>i j. unat i < ea_len a \<and> unat j < ea_len a \<longrightarrow>
      EntryArray_get (EntryArray_set a i e) j = (if i = j then e else EntryArray_get a j))
    \<and> (ea_len a < unat n \<longrightarrow> (\<exists>b. EntryArray_AdjustSize True raw n a = ret b \<and> entries_ok b
        \<and> ea_len b = page_round (unat n)
        \<and> (\<forall>j. unat j < ea_len a \<longrightarrow> EntryArray_get b j = EntryArray_get a j)))
    \<and> (page_round (unat n) \<le> ea_len a \<longrightarrow> EntryArray_AdjustSize True raw n a = abort Entry_size_grows)"
proof (intro conjI impI allI)
  fix i j :: u64
  assume "unat i < ea_len a \<and> unat j < ea_len a"
  then show "EntryArray_get (EntryArray_set a i e) j = (if i = j then e else EntryArray_get a j)"
    using ea.get_set[OF assms(1)] by blast
next
  assume "ea_len a < unat n"
  then show "\<exists>b. EntryArray_AdjustSize True raw n a = ret b \<and> entries_ok b
      \<and> ea_len b = page_round (unat n) \<and> (\<forall>j. unat j < ea_len a \<longrightarrow> EntryArray_get b j = EntryArray_get a j)"
    using AdjustSize_entries[OF assms(1) _ assms(2), of raw] by metis
next
  assume "page_round (unat n) \<le> ea_len a"
  then show "EntryArray_AdjustSize True raw n a = abort Entry_size_grows"
    by (rule AdjustSize_shrink_entries[OF assms(2)])
qed

theorem EntryArray_laws_witness:
  "\<exists>b. EntryArray_AdjustSize True (\<lambda>_. 0) 4096 (EntryArray_new :: nat entry_array) = ret b \<and> ea_len b = 4096"
  using EntryArray_laws[of "EntryArray_new :: nat entry_array" 4096 0 "\<lambda>_. 0"] by (auto simp: page_round_def)

section \<open>Probing\<close>

text \<open>C19. When 15 and the capacity have no common factor, as with a power of two, the probe sequence comes
  past every slot from the fifteenth on, within as many groups as there are slots, from wherever it
  starts.\<close>

theorem probing_reaches:
  assumes "table_ok cfg c" "coprime 15 (cap c)" "15 \<le> i" "i < cap c"
  shows "\<exists>n < cap c. i \<in> group_at cfg c h n"
proof -
  obtain n where "n < cap c" "hash_path cfg c h n \<le> i" "i < hash_path cfg c h n + 16"
    using pr.path_reaches[OF table_ok_sizes[OF assms(1)], of i h] assms(2-4)
    by (auto simp: hash_path_def cap_def)
  then show ?thesis using assms(4) by (auto simp: group_at_def group_def SIZE_def)
qed

theorem probing_reaches_witness:
  "\<exists>n < 4096. (4095::nat) \<in> group_at (demo_cfg Type_Map Fast) (demo_new Type_Map Fast) 0 n"
proof -
  note d = demo_new_facts[of Type_Map Fast]
  have c: "cap (demo_new Type_Map Fast) = 4096" by (simp add: cap_def d size_consts)
  show ?thesis
    using probing_reaches[of "demo_cfg Type_Map Fast" "demo_new Type_Map Fast" 4095 0]
      slots_okD(1)[OF core_okD(1)[OF d(2)]] coprime_15_4096 by (simp add: c)
qed

text \<open>C18. A search for a key that is not there never returns once no slot is empty: tombstones do not end
  it. \<open>Contains\<close> and \<open>Remove\<close> then run forever.\<close>

theorem search_without_empty_slot:
  assumes "slots_ok cfg c" "\<forall>i < cap c. tag_at c i \<noteq> EMPTY" "k \<notin># keys_of cfg c"
  shows "Contains cfg c k = None \<and> Remove cfg c k = None"
proof -
  have "FindSlot cfg c k = None"
    using FindSlot_endless[OF slots_okD(1)[OF assms(1)] assms(2)] assms(3) in_keys_key_slot[OF assms(1)] by blast
  then show ?thesis by (simp add: Contains_FindSlot Remove_def FindEntry_def)
qed

definition demo_buried :: "(u64, u64) core" where
  "demo_buried = (demo_new Type_Map Fast)
     \<lparr>tags := \<lparr>ta_ptr = Some (replicate 4096 TOMBSTONE @ replicate SIZE FORBIDDEN), ta_size = 4096\<rparr>\<rparr>"

lemma demo_buried:
  "slots_ok (demo_cfg Type_Map Fast) demo_buried" "\<forall>i < cap demo_buried. tag_at demo_buried i \<noteq> EMPTY"
  "keys_of (demo_cfg Type_Map Fast) demo_buried = {#}"
proof -
  note d = demo_new_facts[of Type_Map Fast]
  have cap: "cap demo_buried = 4096" by (simp add: cap_def demo_buried_def d size_consts)
  have tag: "tag_at demo_buried i = TOMBSTONE" if "i < 4096" for i
    using that by (simp add: tag_at_def demo_buried_def nth_append)
  then show "\<forall>i < cap demo_buried. tag_at demo_buried i \<noteq> EMPTY" by (simp add: cap)
  have live: "live demo_buried = {}" using tag by (auto simp: live_def cap)
  then show "keys_of (demo_cfg Type_Map Fast) demo_buried = {#}" by (simp add: keys_of_def contents_def)
  have "sizes_ok Fast (demo_new Type_Map Fast)" using slots_ok_tags(3)[OF core_okD(1)[OF d(2)]] by simp
  moreover have "tags_ok (tags demo_buried)"
    by (auto simp: tags_ok_def demo_buried_def SIZE_def nth_append)
  ultimately have "table_ok (demo_cfg Type_Map Fast) demo_buried"
    by (simp add: table_ok_def) (simp add: demo_buried_def d size_consts)
  then show "slots_ok (demo_cfg Type_Map Fast) demo_buried"
    using live d(4) by (simp add: slots_ok_def) (simp add: demo_buried_def)
qed

theorem search_without_empty_slot_witness: "Contains (demo_cfg Type_Map Fast) demo_buried 5 = None"
  using search_without_empty_slot[OF demo_buried(1,2), of 5] demo_buried(3) by simp

end
