(* ===== verification/SelfTest.thy ===== *)
theory SelfTest
  imports BenchSimd
begin

text \<open>
  The self test of \<^verbatim>\<open>Application.cpp\<close>, the function template \<open>TEST\<close>: a sequence of
  operations on a map, an index and a set, whose results are asserted, and loops over the three tables. It is
  proved to pass by one rule for every kind of statement, over a description of the table.
\<close>

section \<open>Statements\<close>

text \<open>\<open>RUN_TEST\<close> of an expression, or of its negation, in a state of the test.\<close>

definition RUN_TEST :: "bool \<Rightarrow> ('s \<Rightarrow> (bool \<times> 's) run) \<Rightarrow> 's \<Rightarrow> 's run" where
  "RUN_TEST expected expression s =
     run_bind (expression s) (\<lambda>(b, s). run_bind (check (b = expected) Bench_assert) (\<lambda>_. ret s))"

definition statement :: "('s \<Rightarrow> (bool \<times> 's) run) \<Rightarrow> 's \<Rightarrow> 's run" where
  "statement expression s = run_bind (expression s) (\<lambda>(_, s). ret s)"

text \<open>The state has a variable, \<open>value\<close> or \<open>index\<close>, that some calls write, and the table.\<close>

definition on_table :: "('t \<Rightarrow> (bool \<times> 't) run) \<Rightarrow> 'x \<times> 't \<Rightarrow> (bool \<times> 'x \<times> 't) run" where
  "on_table operation = (\<lambda>(x, t). run_bind (operation t) (\<lambda>(b, t). ret (b, x, t)))"

definition on_const :: "('t \<Rightarrow> bool option) \<Rightarrow> 'x \<times> 't \<Rightarrow> (bool \<times> 'x \<times> 't) run" where
  "on_const operation = (\<lambda>(x, t). run_bind (of_loop (operation t)) (\<lambda>b. ret (b, x, t)))"

text \<open>A lookup that writes the variable when it succeeds, and the comparison of the variable.\<close>

definition on_lookup :: "('t \<Rightarrow> 'x option option) \<Rightarrow> 'x \<times> 't \<Rightarrow> (bool \<times> 'x \<times> 't) run" where
  "on_lookup operation = (\<lambda>(x, t). run_bind (of_loop (operation t)) (\<lambda>r.
     case r of None \<Rightarrow> ret (False, x, t) | Some y \<Rightarrow> ret (True, y, t)))"

definition and_is :: "'x \<Rightarrow> ('x \<times> 't \<Rightarrow> (bool \<times> 'x \<times> 't) run) \<Rightarrow> 'x \<times> 't \<Rightarrow> (bool \<times> 'x \<times> 't) run" where
  "and_is y expression s = run_bind (expression s) (\<lambda>(b, x, t). ret (b \<and> x = y, x, t))"

definition try_add :: "('k, 'v) config \<Rightarrow> 'k \<Rightarrow> u32 \<times> ('k, 'v) core \<Rightarrow> (bool \<times> u32 \<times> ('k, 'v) core) run" where
  "try_add cfg k = (\<lambda>(index, t). run_bind (Index_TryAdd cfg k t) (\<lambda>(b, out, t).
     ret (b, case out of None \<Rightarrow> index | Some p \<Rightarrow> p, t)))"

text \<open>\<open>!TryAdd(key, index) && index == p\<close>\<close>

definition not_and_is :: "'x \<Rightarrow> ('x \<times> 't \<Rightarrow> (bool \<times> 'x \<times> 't) run) \<Rightarrow> 'x \<times> 't \<Rightarrow> (bool \<times> 'x \<times> 't) run" where
  "not_and_is y expression s = run_bind (expression s) (\<lambda>(b, x, t). ret (\<not> b \<and> x = y, x, t))"

section \<open>TEST\<close>

text \<open>The three parts give the number of elements and the elements that their loops print.\<close>

definition print_table :: "'m::len itself \<Rightarrow> nat \<Rightarrow> ('k, 'v) config \<Rightarrow> 'x \<times> ('k, 'v) core \<Rightarrow> (u32 \<times> ('k, 'v) entry list) run" where
  "print_table M sz cfg = (\<lambda>(x, t). run_bind (simd_entries M cfg sz t) (\<lambda>es. ret (Count t, es)))"

definition TEST_map ::
    "'m::len itself \<Rightarrow> nat \<Rightarrow> ('w::len word, 'w word) config \<Rightarrow> 'w table \<Rightarrow> (u32 \<times> ('w word, 'w word) entry list) run" where
  "TEST_map M sz cfg c0 =
     (let Add = (\<lambda>k v. on_table (Map_Add cfg False k v)); Contains = (\<lambda>k. on_const (\<lambda>t. Contains cfg t k));
          TryGetValue = (\<lambda>k. on_lookup (\<lambda>t. Map_TryGetValue cfg t k));
          AddOrUpdate = (\<lambda>k v. on_table (Map_AddOrUpdate cfg k v));
          Remove = (\<lambda>k. on_table (\<lambda>t. of_loop (Remove cfg t k)))
      in run_bind (Core_new cfg c0) (\<lambda>hm. run_bind (run_steps
        [RUN_TEST True (Add 1 1), RUN_TEST False (Add 1 1),
         RUN_TEST True (Contains 1), RUN_TEST True (and_is 1 (TryGetValue 1)),
         RUN_TEST True (Add 2 2), RUN_TEST True (Contains 2), RUN_TEST True (and_is 2 (TryGetValue 2)),
         RUN_TEST False (Add 2 2),
         RUN_TEST True (AddOrUpdate 3 3), RUN_TEST True (Contains 3), RUN_TEST True (and_is 3 (TryGetValue 3)),
         RUN_TEST False (AddOrUpdate 3 33), RUN_TEST True (Contains 3), RUN_TEST True (and_is 33 (TryGetValue 3)),
         RUN_TEST True (Remove 1), RUN_TEST False (Contains 1), RUN_TEST False (TryGetValue 1),
         RUN_TEST False (Remove 1), RUN_TEST False (Contains 1), RUN_TEST True (Add 1 1), RUN_TEST True (Contains 1),
         statement (on_table (Map_Add cfg True 11 11)),
         RUN_TEST True (Contains 11), RUN_TEST True (and_is 11 (TryGetValue 11))] (0, hm)) (print_table M sz cfg)))"

definition TEST_index ::
    "'m::len itself \<Rightarrow> nat \<Rightarrow> ('w::len word, 'w word) config \<Rightarrow> 'w table \<Rightarrow> u32 \<Rightarrow> (u32 \<times> ('w word, 'w word) entry list) run" where
  "TEST_index M sz cfg c0 index =
     (let Add = (\<lambda>k. on_table (Index_Add cfg False k)); Contains = (\<lambda>k. on_const (\<lambda>t. Contains cfg t k));
          TryGetIndex = (\<lambda>k. on_lookup (\<lambda>t. Index_TryGetIndex cfg t k)); TryAdd = try_add cfg
      in run_bind (Core_new cfg c0) (\<lambda>hi. run_bind (run_steps
        [RUN_TEST True (Add 1), RUN_TEST True (Contains 1), RUN_TEST True (and_is 0 (TryGetIndex 1)),
         RUN_TEST True (Add 2), RUN_TEST True (Contains 1), RUN_TEST True (and_is 1 (TryGetIndex 2)),
         RUN_TEST False (Add 2),
         statement (on_table (Index_Add cfg True 3)),
         RUN_TEST True (Contains 3), RUN_TEST True (and_is 2 (TryGetIndex 3)),
         RUN_TEST True (and_is 3 (TryAdd 4)), RUN_TEST True (and_is 3 (TryGetIndex 4)), RUN_TEST True (Contains 4),
         RUN_TEST True (not_and_is 3 (TryAdd 4)), RUN_TEST False (Contains 5)] (index, hi)) (print_table M sz cfg)))"

definition TEST_set ::
    "'m::len itself \<Rightarrow> nat \<Rightarrow> ('w::len word, 'w word) config \<Rightarrow> 'w table \<Rightarrow> (u32 \<times> ('w word, 'w word) entry list) run" where
  "TEST_set M sz cfg c0 =
     (let Add = (\<lambda>k. on_table (Set_Add cfg False k)); Contains = (\<lambda>k. on_const (\<lambda>t. Contains cfg t k));
          Remove = (\<lambda>k. on_table (\<lambda>t. of_loop (Remove cfg t k)))
      in run_bind (Core_new cfg c0) (\<lambda>hs. run_bind (run_steps
        [RUN_TEST True (Add 1), RUN_TEST True (Contains 1), RUN_TEST True (Add 2), RUN_TEST True (Contains 2),
         RUN_TEST True (Add 2222), RUN_TEST False (Add 2222),
         RUN_TEST False (Contains 2002), RUN_TEST True (Add 2002), RUN_TEST True (Contains 2002),
         statement (on_table (Set_Add cfg True 3)), RUN_TEST True (Contains 3),
         RUN_TEST True (Remove 3), RUN_TEST False (Contains 3), RUN_TEST True (Add 3), RUN_TEST True (Contains 3)]
        ((), hs)) (print_table M sz cfg)))"

text \<open>The memory of each of the three tables before its initialization is arbitrary.\<close>

record ('k, 'v) memory =
  mem_fill :: "nat \<Rightarrow> u8"
  mem_entries :: "nat \<Rightarrow> ('k, 'v) entry"
  mem_index :: "nat \<Rightarrow> u32"
  mem_core :: "('k, 'v) core"

definition table_config :: "core_type \<Rightarrow> mode \<Rightarrow> bool \<Rightarrow> ('k \<Rightarrow> u64) \<Rightarrow> ('k, 'v) memory \<Rightarrow> ('k, 'v) config" where
  "table_config ty mode bFix hash mem =
     \<lparr>cfg_type = ty, cfg_mode = mode, cfg_fix = bFix, cfg_hash = hash, cfg_fill = mem_fill mem,
      cfg_raw = mem_entries mem, cfg_raw_index = mem_index mem\<rparr>"

lemma table_config_simps [simp]:
  "cfg_type (table_config ty mode bFix hash mem) = ty" "cfg_mode (table_config ty mode bFix hash mem) = mode"
  "cfg_fix (table_config ty mode bFix hash mem) = bFix"
  by (simp_all add: table_config_def)

record ('k, 'v) printed =
  printed_map :: "u32 \<times> ('k, 'v) entry list"
  printed_index :: "u32 \<times> ('k, 'v) entry list"
  printed_set :: "u32 \<times> ('k, 'v) entry list"

definition TEST ::
    "'m::len itself \<Rightarrow> nat \<Rightarrow> ('w::len word \<Rightarrow> u64) \<Rightarrow> (core_type \<Rightarrow> ('w word, 'w word) memory) \<Rightarrow> u32 \<Rightarrow>
      ('w word, 'w word) printed run" where
  "TEST M sz Hash mem index =
     (let cfg = (\<lambda>ty. table_config ty Fast False Hash (mem ty)); junk = (\<lambda>ty. mem_core (mem ty))
      in run_bind (TEST_map M sz (cfg Type_Map) (junk Type_Map)) (\<lambda>hm.
         run_bind (TEST_index M sz (cfg Type_Index) (junk Type_Index) index) (\<lambda>hi.
         run_bind (TEST_set M sz (cfg Type_Set) (junk Type_Set)) (\<lambda>hs.
           ret \<lparr>printed_map = hm, printed_index = hi, printed_set = hs\<rparr>))))"

section \<open>Rules for the statements\<close>

text \<open>\<open>leads f P Q\<close>: from a state with \<open>P\<close> the statement \<open>f\<close> passes and leads to a state with \<open>Q\<close>.\<close>

definition leads :: "('s \<Rightarrow> 's run) \<Rightarrow> ('s \<Rightarrow> bool) \<Rightarrow> ('s \<Rightarrow> bool) \<Rightarrow> bool" where
  "leads f P Q \<longleftrightarrow> (\<forall>s. P s \<longrightarrow> (\<exists>s'. f s = ret s' \<and> Q s'))"

named_theorems statement_rules

lemma leads_Cons: "leads f P Q \<Longrightarrow> leads (run_steps fs) Q R \<Longrightarrow> leads (run_steps (f # fs)) P R"
  unfolding leads_def by fastforce

lemma leads_Nil: "leads (run_steps []) P P"
  by (simp add: leads_def)

lemma leads_run: "leads F P Q \<Longrightarrow> P s \<Longrightarrow> (\<And>s'. Q s' \<Longrightarrow> ends False (f s') R) \<Longrightarrow> ends False (run_bind (F s) f) R"
  unfolding leads_def ends_def by fastforce

text \<open>A table with at most \<open>n\<close> elements and \<open>r\<close> tombstones.\<close>

definition small :: "('k, 'v) config \<Rightarrow> nat \<Rightarrow> nat \<Rightarrow> ('k, 'v) core \<Rightarrow> bool" where
  "small cfg r n t \<longleftrightarrow> ready cfg t \<and> card (tombstones t) \<le> r \<and> r \<le> 100 \<and> unat (Count t) \<le> n \<and> n \<le> 100"

definition small_config :: "('k, 'v) config \<Rightarrow> bool" where
  "small_config cfg \<longleftrightarrow> pow2_mode (cfg_mode cfg) \<and> \<not> cfg_fix cfg"

lemma smallD:
  assumes "small_config cfg" "small cfg r n t"
  shows "\<not> cfg_fix cfg" "ready cfg t" "core_ok cfg t" "growable cfg t" "searchable t" "card (tombstones t) \<le> r"
    "r = 0 \<Longrightarrow> \<not> hidden cfg t k"
proof -
  have s: "ready cfg t" "card (tombstones t) \<le> r" "r \<le> 100" "unat (Count t) \<le> 100" "pow2_mode (cfg_mode cfg)"
    using assms by (auto simp: small_def small_config_def)
  note R = readyD[OF s(1)]
  show "\<not> cfg_fix cfg" "ready cfg t" "core_ok cfg t" "card (tombstones t) \<le> r"
    using assms(1) s R(1) by (simp_all add: small_config_def)
  show "growable cfg t" using s(4) by (intro growable_pow2[OF s(5)]) simp
  have "4096 \<le> cap t" using R(3) by (simp add: sizes_ok_def cap_ok_def cap_def)
  then show "searchable t" using s(2-4) R(4) slots_okD(2)[OF R(2)] by (simp add: searchable_def)
  assume "r = 0"
  moreover have "finite (tombstones t)" by (simp add: tombstones_def)
  ultimately show "\<not> hidden cfg t k" using s(2) no_tombstones_not_hidden[OF R(2)] by simp
qed

lemma count_live: "ready cfg t \<Longrightarrow> unat (Count t) = card (live t)"
  by (rule slots_okD(2)[OF readyD(2)])

lemma small_new:
  assumes "small_config cfg"
  shows "\<exists>t. Core_new cfg c0 = ret t \<and> small cfg 0 0 t \<and> contents cfg t = {#}
    \<and> (cfg_type cfg = Type_Index \<longrightarrow> is_index cfg t [])"
proof -
  obtain t where t: "Core_new cfg c0 = ret t" "core_ok cfg t" "empty_table cfg t" "Count t = 0" using Core_new_ok by blast
  have "sizes_ok (cfg_mode cfg) t" using core_okD(1)[OF t(2)] by (rule slots_ok_tags)
  then have r: "ready cfg t" using empty_ready[OF t(2,4)] cap_coprime assms by (auto simp: small_config_def)
  have c: "contents cfg t = {#}" using count_live[OF r] t(4) by (simp add: contents_def)
  have "store_ok cfg t" using t(2) by (simp add: core_ok_def)
  then have "cfg_type cfg = Type_Index \<longrightarrow> is_index cfg t []"
    using c t(4) by (simp add: is_index_def index_entries_def)
  moreover have "small cfg 0 0 t" using r t(4) empty_table_facts[OF t(3)] by (simp add: small_def)
  ultimately show ?thesis using t(1) c by blast
qed

text \<open>The state of a test whose table satisfies \<open>Q\<close>.\<close>

definition test_state ::
    "('k, 'v) config \<Rightarrow> (('k, 'v) core \<Rightarrow> bool) \<Rightarrow> nat \<Rightarrow> nat \<Rightarrow> 'x \<times> ('k, 'v) core \<Rightarrow> bool" where
  "test_state cfg Q r n = (\<lambda>(x, t). small_config cfg \<and> small cfg r n t \<and> Q t)"

lemma on_table_leads:
  assumes op: "\<And>t. small_config cfg \<Longrightarrow> small cfg r n t \<Longrightarrow> Q t \<Longrightarrow> \<exists>t'. operation t = ret (b, t') \<and> ready cfg t'
      \<and> Q' t' \<and> card (tombstones t') \<le> card (tombstones t) + d"
    and size: "\<And>t t'. Q t \<Longrightarrow> Q' t' \<Longrightarrow> card (live t') \<le> card (live t) + e"
    and bounds: "r + d \<le> 100 \<and> n + e \<le> 100"
  shows "leads (RUN_TEST b (on_table operation)) (test_state cfg Q r n) (test_state cfg Q' (r + d) (n + e))"
    "leads (statement (on_table operation)) (test_state cfg Q r n) (test_state cfg Q' (r + d) (n + e))"
proof -
  have "\<exists>t'. operation t = ret (b, t') \<and> test_state cfg Q' (r + d) (n + e) (x, t')"
    if s: "test_state cfg Q r n (x, t)" for x t
  proof -
    have S: "small_config cfg" "small cfg r n t" "Q t" using s by (auto simp: test_state_def)
    then obtain t' where t': "operation t = ret (b, t')" "ready cfg t'" "Q' t'"
      "card (tombstones t') \<le> card (tombstones t) + d" using op by blast
    have "ready cfg t" "unat (Count t) \<le> n" "card (tombstones t) \<le> r" using S(2) by (auto simp: small_def)
    then have "small cfg (r + d) (n + e) t'"
      using size[OF S(3) t'(3)] bounds t' by (simp add: small_def count_live)
    then show ?thesis using t'(1,3) S(1) by (simp add: test_state_def)
  qed
  then show "leads (RUN_TEST b (on_table operation)) (test_state cfg Q r n) (test_state cfg Q' (r + d) (n + e))"
    "leads (statement (on_table operation)) (test_state cfg Q r n) (test_state cfg Q' (r + d) (n + e))"
    unfolding leads_def RUN_TEST_def statement_def on_table_def by fastforce+
qed

lemma on_const_leads:
  assumes "\<And>t. small_config cfg \<Longrightarrow> small cfg r n t \<Longrightarrow> Q t \<Longrightarrow> operation t = Some b"
  shows "leads (RUN_TEST b (on_const operation)) (test_state cfg Q r n) (test_state cfg Q r n)"
  using assms by (auto simp: leads_def test_state_def RUN_TEST_def on_const_def)

lemma on_lookup_leads:
  assumes "\<And>t. small_config cfg \<Longrightarrow> small cfg r n t \<Longrightarrow> Q t \<Longrightarrow> operation t = Some r'"
  shows "r' = Some y \<Longrightarrow> leads (RUN_TEST True (and_is y (on_lookup operation))) (test_state cfg Q r n) (test_state cfg Q r n)"
    "r' = None \<Longrightarrow> leads (RUN_TEST False (on_lookup operation)) (test_state cfg Q r n) (test_state cfg Q r n)"
  using assms by (auto simp: leads_def test_state_def RUN_TEST_def on_lookup_def and_is_def)

lemma print_table_ok:
  assumes "test_state cfg Q r n s" "vector_ok sz TYPE('m::len)"
  shows "ends False (print_table TYPE('m) sz cfg s) (\<lambda>(c, es). c = of_nat (length es) \<and> mset es = contents cfg (snd s)
    \<and> Q (snd s) \<and> (cfg_type cfg = Type_Index \<longrightarrow> es = index_entries (snd s)))"
proof -
  obtain x t where s: "s = (x, t)" "small cfg r n t" "Q t" "small_config cfg" using assms(1) by (cases s) (auto simp: test_state_def)
  note S = smallD[OF s(4,2)]
  let ?es = "slot_list cfg t"
  have m: "mset ?es = contents cfg t" by (rule slot_list_contents[OF S(3)])
  then have "length ?es = unat (Count t)" using count_live[OF S(2)] by (metis size_mset contents_def size_image_mset size_mset_set)
  then have "Count t = of_nat (length ?es)" by simp
  moreover have "cfg_type cfg = Type_Index \<longrightarrow> ?es = index_entries t" by (simp add: slot_list_def)
  ultimately show ?thesis using m s(1,3) iterate_slots[OF S(3) assms(2)] by (simp add: print_table_def simd_entries_def)
qed

section \<open>Maps\<close>

definition map_state :: "('k, 'v) config \<Rightarrow> ('k \<rightharpoonup> 'v) \<Rightarrow> nat \<Rightarrow> nat \<Rightarrow> 'v \<times> ('k, 'v) core \<Rightarrow> bool" where
  "map_state cfg m = test_state cfg (\<lambda>t. cfg_type cfg = Type_Map \<and> is_map cfg t m)"

lemma is_map_live: "is_map cfg t m \<Longrightarrow> card (live t) = card (dom m)"
  unfolding is_map_def contents_def by (metis size_image_mset size_mset_set)

lemma is_map_live_upd:
  assumes "is_map cfg t m" "is_map cfg t' (m(k \<mapsto> v))"
  shows "card (live t') \<le> card (live t) + 1"
  using is_map_live[OF assms(1)] is_map_live[OF assms(2)] assms(1) by (simp add: is_map_def card_insert_if)

lemma is_map_live_del:
  assumes "is_map cfg t m" "is_map cfg t' (m(k := None))"
  shows "card (live t') \<le> card (live t) + 0"
  using is_map_live[OF assms(1)] is_map_live[OF assms(2)] assms(1) by (simp add: is_map_def card_Diff1_le)

lemma not_hidden_absent: "is_map cfg t m \<Longrightarrow> m k = None \<Longrightarrow> \<not> hidden cfg t k"
  using is_map_keys[of cfg t m k] by (auto simp: hidden_def)

lemma map_add [statement_rules]:
  assumes "m k = None \<and> r \<le> 100 \<and> n + 1 \<le> 100"
  shows "leads (RUN_TEST True (on_table (Map_Add cfg False k v))) (map_state cfg m r n)
    (map_state cfg (m(k \<mapsto> v)) (r + 0) (n + 1))"
  unfolding map_state_def
proof (rule on_table_leads(1))
  fix t assume a: "small_config cfg" "small cfg r n t" "cfg_type cfg = Type_Map \<and> is_map cfg t m"
  show "\<exists>t'. Map_Add cfg False k v t = ret (True, t') \<and> ready cfg t' \<and> (cfg_type cfg = Type_Map \<and> is_map cfg t' (m(k \<mapsto> v)))
      \<and> card (tombstones t') \<le> card (tombstones t) + 0"
    using Map_Add_ok[OF _ smallD(1,2,4)[OF a(1,2)], of m False k v] not_hidden_absent[of cfg t m k] a(3) assms by (auto split: if_splits)
qed (use assms is_map_live_upd[of cfg] in auto)

lemma map_add_unique [statement_rules]:
  assumes "m k = None \<and> r \<le> 100 \<and> n + 1 \<le> 100"
  shows "leads (statement (on_table (Map_Add cfg True k v))) (map_state cfg m r n)
    (map_state cfg (m(k \<mapsto> v)) (r + 0) (n + 1))"
  unfolding map_state_def
proof (rule on_table_leads(2))
  fix t assume a: "small_config cfg" "small cfg r n t" "cfg_type cfg = Type_Map \<and> is_map cfg t m"
  show "\<exists>t'. Map_Add cfg True k v t = ret (True, t') \<and> ready cfg t' \<and> (cfg_type cfg = Type_Map \<and> is_map cfg t' (m(k \<mapsto> v)))
      \<and> card (tombstones t') \<le> card (tombstones t) + 0"
    using Map_Add_ok[OF _ smallD(1,2,4)[OF a(1,2)], of m True k v] a(3) assms by (auto simp: domIff split: if_splits)
qed (use assms is_map_live_upd[of cfg] in auto)

lemma map_add_again [statement_rules]:
  assumes "m k \<noteq> None \<and> r = 0 \<and> n \<le> 100"
  shows "leads (RUN_TEST False (on_table (Map_Add cfg False k v))) (map_state cfg m r n)
    (map_state cfg (m) (r + 0) (n + 0))"
  unfolding map_state_def
proof (rule on_table_leads(1))
  fix t assume a: "small_config cfg" "small cfg r n t" "cfg_type cfg = Type_Map \<and> is_map cfg t m"
  show "\<exists>t'. Map_Add cfg False k v t = ret (False, t') \<and> ready cfg t' \<and> (cfg_type cfg = Type_Map \<and> is_map cfg t' (m))
      \<and> card (tombstones t') \<le> card (tombstones t) + 0"
    using Map_Add_ok[OF _ smallD(1,2,4)[OF a(1,2)], of m False k v] smallD(7)[OF a(1,2), of k] a(3) assms by (auto split: if_splits)
qed (use assms is_map_live[of cfg] in auto)

lemma map_add_or_update [statement_rules]:
  assumes "(b \<longleftrightarrow> m k = None) \<and> r = 0 \<and> n + 1 \<le> 100"
  shows "leads (RUN_TEST b (on_table (Map_AddOrUpdate cfg k v))) (map_state cfg m r n)
    (map_state cfg (m(k \<mapsto> v)) (r + 0) (n + 1))"
  unfolding map_state_def
proof (rule on_table_leads(1))
  fix t assume a: "small_config cfg" "small cfg r n t" "cfg_type cfg = Type_Map \<and> is_map cfg t m"
  show "\<exists>t'. Map_AddOrUpdate cfg k v t = ret (b, t') \<and> ready cfg t' \<and> (cfg_type cfg = Type_Map \<and> is_map cfg t' (m(k \<mapsto> v)))
      \<and> card (tombstones t') \<le> card (tombstones t) + 0"
    using Map_AddOrUpdate_ok[OF _ smallD(1,2,4)[OF a(1,2)], of m k v] smallD(7)[OF a(1,2), of k] a(3) assms by (auto split: if_splits)
qed (use assms is_map_live_upd[of cfg] in auto)

lemma map_remove [statement_rules]:
  assumes "(b \<longleftrightarrow> m k \<noteq> None) \<and> r + 1 \<le> 100 \<and> n \<le> 100"
  shows "leads (RUN_TEST b (on_table (\<lambda>t. of_loop (Remove cfg t k)))) (map_state cfg m r n)
    (map_state cfg (m(k := None)) (r + 1) (n + 0))"
  unfolding map_state_def
proof (rule on_table_leads(1))
  fix t assume a: "small_config cfg" "small cfg r n t" "cfg_type cfg = Type_Map \<and> is_map cfg t m"
  show "\<exists>t'. of_loop (Remove cfg t k) = ret (b, t') \<and> ready cfg t' \<and> (cfg_type cfg = Type_Map \<and> is_map cfg t' (m(k := None)))
      \<and> card (tombstones t') \<le> card (tombstones t) + 1"
    using Map_Remove_ok[OF _ smallD(1,3,5)[OF a(1,2)], of m k] smallD(2)[OF a(1,2)] a(3) assms by (auto split: if_splits)
qed (use assms is_map_live_del[of cfg] in auto)

lemma map_contains [statement_rules]:
  assumes "b \<longleftrightarrow> m k \<noteq> None"
  shows "leads (RUN_TEST b (on_const (\<lambda>t. Contains cfg t k))) (map_state cfg m r n) (map_state cfg m r n)"
  unfolding map_state_def
proof (rule on_const_leads)
  fix t assume a: "small_config cfg" "small cfg r n t" "cfg_type cfg = Type_Map \<and> is_map cfg t m"
  show "Contains cfg t k = Some b" using Map_lookup[OF _ smallD(1,3,5)[OF a(1,2)], of m k] a(3) assms by auto
qed

lemma map_lookup_small:
  assumes "small_config cfg" "small cfg r n t" "cfg_type cfg = Type_Map \<and> is_map cfg t m"
  shows "Map_TryGetValue cfg t k = Some (m k)"
  using Map_lookup[OF _ smallD(1,3,5)[OF assms(1,2)], of m k] assms(3) by simp

lemma map_value [statement_rules]:
  "m k = Some v \<Longrightarrow>
    leads (RUN_TEST True (and_is v (on_lookup (\<lambda>t. Map_TryGetValue cfg t k)))) (map_state cfg m r n) (map_state cfg m r n)"
  unfolding map_state_def by (rule on_lookup_leads(1)[OF map_lookup_small])

lemma map_no_value [statement_rules]:
  "m k = None \<Longrightarrow>
    leads (RUN_TEST False (on_lookup (\<lambda>t. Map_TryGetValue cfg t k))) (map_state cfg m r n) (map_state cfg m r n)"
  unfolding map_state_def by (rule on_lookup_leads(2)[OF map_lookup_small])

lemma print_map:
  assumes s: "map_state cfg m r n s" and v: "vector_ok sz TYPE('m::len)"
    and E: "image_mset (entry_of m) (mset_set (dom m)) = E"
  shows "ends False (print_table TYPE('m) sz cfg s) (\<lambda>(c, es). c = of_nat (size E) \<and> mset es = E)"
  by (rule ends_mono[OF print_table_ok[OF s[unfolded map_state_def] v]]) (auto simp: is_map_def E size_mset[symmetric] simp del: size_mset)

lemma map_statements_pass:
  fixes cfg :: "('w::len word, 'w word) config"
  assumes w: "LENGTH('w) = 32 \<or> LENGTH('w) = 64" and cfg: "small_config cfg" "cfg_type cfg = Type_Map"
    and v: "vector_ok sz TYPE('m::len)"
  shows "ends False (TEST_map TYPE('m) sz cfg c0)
    (\<lambda>(c, es). c = 4 \<and> mset es = {#Entry 1 1, Entry 2 2, Entry 3 33, Entry 11 11#})"
proof -
  obtain t where t: "Core_new cfg c0 = ret t" "small cfg 0 0 t" "contents cfg t = {#}" using small_new[OF cfg(1)] by blast
  have start: "map_state cfg Map.empty 0 0 (0, t)"
    using cfg t by (simp add: map_state_def test_state_def is_map_def)
  show ?thesis
    unfolding TEST_map_def Let_def t(1) run_bind_simps
    by (rule leads_run[where P = "map_state cfg Map.empty 0 0" and s = "(0, t)"],
        (rule leads_Cons, rule statement_rules, (use w in \<open>auto\<close>)[1])+, rule leads_Nil, rule start,
        rule ends_mono[OF print_map[OF _ v refl]], assumption)
      (use w in \<open>auto simp: entry_of_def\<close>)
qed

section \<open>Sets\<close>

definition set_state :: "('k, 'v) config \<Rightarrow> 'k set \<Rightarrow> nat \<Rightarrow> nat \<Rightarrow> 'x \<times> ('k, 'v) core \<Rightarrow> bool" where
  "set_state cfg S = test_state cfg (\<lambda>t. cfg_type cfg = Type_Set \<and> is_set cfg t S)"

lemma is_set_live: "is_set cfg t S \<Longrightarrow> card (live t) = card S"
  unfolding is_set_def keys_of_def contents_def by (metis size_image_mset size_mset_set)

lemma is_set_live_insert:
  assumes "is_set cfg t S" "is_set cfg t' (insert k S)"
  shows "card (live t') \<le> card (live t) + 1"
  using is_set_live[OF assms(1)] is_set_live[OF assms(2)] assms(1) by (simp add: is_set_def card_insert_if)

lemma is_set_live_remove:
  assumes "is_set cfg t S" "is_set cfg t' (S - {k})"
  shows "card (live t') \<le> card (live t) + 0"
  using is_set_live[OF assms(1)] is_set_live[OF assms(2)] by (simp add: card_Diff1_le)

lemma not_hidden_other: "is_set cfg t S \<Longrightarrow> k \<notin> S \<Longrightarrow> \<not> hidden cfg t k"
  by (auto simp: hidden_def is_set_def)

lemma set_add [statement_rules]:
  assumes "k \<notin> S \<and> r \<le> 100 \<and> n + 1 \<le> 100"
  shows "leads (RUN_TEST True (on_table (Set_Add cfg False k))) (set_state cfg S r n)
    (set_state cfg (insert k S) (r + 0) (n + 1))"
  unfolding set_state_def
proof (rule on_table_leads(1))
  fix t assume a: "small_config cfg" "small cfg r n t" "cfg_type cfg = Type_Set \<and> is_set cfg t S"
  show "\<exists>t'. Set_Add cfg False k t = ret (True, t') \<and> ready cfg t' \<and> (cfg_type cfg = Type_Set \<and> is_set cfg t' (insert k S))
      \<and> card (tombstones t') \<le> card (tombstones t) + 0"
    using Set_Add_ok[OF _ smallD(1,2,4)[OF a(1,2)], of S False k] not_hidden_other[of cfg t S k] a(3) assms by (auto simp: insert_absorb split: if_splits)
qed (use assms is_set_live_insert[of cfg] in auto)

lemma set_add_unique [statement_rules]:
  assumes "k \<notin> S \<and> r \<le> 100 \<and> n + 1 \<le> 100"
  shows "leads (statement (on_table (Set_Add cfg True k))) (set_state cfg S r n)
    (set_state cfg (insert k S) (r + 0) (n + 1))"
  unfolding set_state_def
proof (rule on_table_leads(2))
  fix t assume a: "small_config cfg" "small cfg r n t" "cfg_type cfg = Type_Set \<and> is_set cfg t S"
  show "\<exists>t'. Set_Add cfg True k t = ret (True, t') \<and> ready cfg t' \<and> (cfg_type cfg = Type_Set \<and> is_set cfg t' (insert k S))
      \<and> card (tombstones t') \<le> card (tombstones t) + 0"
    using Set_Add_ok[OF _ smallD(1,2,4)[OF a(1,2)], of S True k] a(3) assms by (auto simp: insert_absorb split: if_splits)
qed (use assms is_set_live_insert[of cfg] in auto)

lemma set_add_again [statement_rules]:
  assumes "k \<in> S \<and> r = 0 \<and> n \<le> 100"
  shows "leads (RUN_TEST False (on_table (Set_Add cfg False k))) (set_state cfg S r n)
    (set_state cfg (S) (r + 0) (n + 0))"
  unfolding set_state_def
proof (rule on_table_leads(1))
  fix t assume a: "small_config cfg" "small cfg r n t" "cfg_type cfg = Type_Set \<and> is_set cfg t S"
  show "\<exists>t'. Set_Add cfg False k t = ret (False, t') \<and> ready cfg t' \<and> (cfg_type cfg = Type_Set \<and> is_set cfg t' (S))
      \<and> card (tombstones t') \<le> card (tombstones t) + 0"
    using Set_Add_ok[OF _ smallD(1,2,4)[OF a(1,2)], of S False k] smallD(7)[OF a(1,2), of k] a(3) assms by (auto simp: insert_absorb split: if_splits)
qed (use assms is_set_live[of cfg] in auto)

lemma set_remove [statement_rules]:
  assumes "(b \<longleftrightarrow> k \<in> S) \<and> r + 1 \<le> 100 \<and> n \<le> 100"
  shows "leads (RUN_TEST b (on_table (\<lambda>t. of_loop (Remove cfg t k)))) (set_state cfg S r n)
    (set_state cfg (S - {k}) (r + 1) (n + 0))"
  unfolding set_state_def
proof (rule on_table_leads(1))
  fix t assume a: "small_config cfg" "small cfg r n t" "cfg_type cfg = Type_Set \<and> is_set cfg t S"
  show "\<exists>t'. of_loop (Remove cfg t k) = ret (b, t') \<and> ready cfg t' \<and> (cfg_type cfg = Type_Set \<and> is_set cfg t' (S - {k}))
      \<and> card (tombstones t') \<le> card (tombstones t) + 1"
    using Set_Remove_ok[OF _ smallD(1,3,5)[OF a(1,2)], of S k] smallD(2)[OF a(1,2)] a(3) assms by (auto simp: insert_absorb split: if_splits)
qed (use assms is_set_live_remove[of cfg] in auto)

lemma set_contains [statement_rules]:
  assumes "b \<longleftrightarrow> k \<in> S"
  shows "leads (RUN_TEST b (on_const (\<lambda>t. Contains cfg t k))) (set_state cfg S r n) (set_state cfg S r n)"
  unfolding set_state_def
proof (rule on_const_leads)
  fix t assume a: "small_config cfg" "small cfg r n t" "cfg_type cfg = Type_Set \<and> is_set cfg t S"
  show "Contains cfg t k = Some b" using Set_Remove_ok[OF _ smallD(1,3,5)[OF a(1,2)], of S k] a(3) assms by auto
qed

lemma print_set:
  assumes s: "set_state cfg S r n s" and v: "vector_ok sz TYPE('m::len)"
  shows "ends False (print_table TYPE('m) sz cfg s) (\<lambda>(c, es). c = of_nat (card S) \<and> mset (map ekey es) = mset_set S)"
proof (rule ends_mono[OF print_table_ok[OF s[unfolded set_state_def] v]])
  fix x :: "u32 \<times> ('a, 'b) entry list"
  obtain c es where x: "x = (c, es)" by (cases x)
  assume "case x of (c, es) \<Rightarrow> c = of_nat (length es) \<and> mset es = contents cfg (snd s)
    \<and> (cfg_type cfg = Type_Set \<and> is_set cfg (snd s) S) \<and> (cfg_type cfg = Type_Index \<longrightarrow> es = index_entries (snd s))"
  then have p: "c = of_nat (length es)" "mset (map ekey es) = mset_set S"
    by (simp_all add: x is_set_def keys_of_def)
  then have "length es = card S" by (metis length_map size_mset size_mset_set)
  then show "case x of (c, es) \<Rightarrow> c = of_nat (card S) \<and> mset (map ekey es) = mset_set S" using p x by simp
qed

lemma set_statements_pass:
  fixes cfg :: "('w::len word, 'w word) config"
  assumes w: "LENGTH('w) = 32 \<or> LENGTH('w) = 64" and cfg: "small_config cfg" "cfg_type cfg = Type_Set"
    and v: "vector_ok sz TYPE('m::len)"
  shows "ends False (TEST_set TYPE('m) sz cfg c0) (\<lambda>(c, es). c = 5 \<and> mset (map ekey es) = {#1, 2, 3, 2002, 2222#})"
proof -
  obtain t where t: "Core_new cfg c0 = ret t" "small cfg 0 0 t" "contents cfg t = {#}" using small_new[OF cfg(1)] by blast
  have start: "set_state cfg {} 0 0 ((), t)"
    using cfg t by (simp add: set_state_def test_state_def is_set_def keys_of_def)
  show ?thesis
    unfolding TEST_set_def Let_def t(1) run_bind_simps
    by (rule leads_run[where P = "set_state cfg {} 0 0" and s = "((), t)"],
        (rule leads_Cons, rule statement_rules, (use w in \<open>auto\<close>)[1])+, rule leads_Nil, rule start,
        rule ends_mono[OF print_set[OF _ v]], assumption)
      (use w in \<open>auto\<close>)
qed

section \<open>Indices\<close>

definition index_state :: "('k, 'v) config \<Rightarrow> 'k list \<Rightarrow> nat \<Rightarrow> u32 \<times> ('k, 'v) core \<Rightarrow> bool" where
  "index_state cfg ks n = test_state cfg (\<lambda>t. cfg_type cfg = Type_Index \<and> is_index cfg t ks) 0 n"

lemma Index_Add_ok:
  assumes ty: "cfg_type cfg = Type_Index" and nofix: "\<not> cfg_fix cfg"
    and r: "ready cfg c" "growable cfg c" and i: "is_index cfg c ks"
    and seen: "if bUnique then k \<notin> set ks else \<not> hidden cfg c k"
  shows "\<exists>b c'. Index_Add cfg bUnique k c = ret (b, c') \<and> (b \<longleftrightarrow> k \<notin> set ks)
    \<and> is_index cfg c' (if b then ks @ [k] else ks) \<and> ready cfg c' \<and> card (tombstones c') \<le> card (tombstones c)"
proof -
  have key: "k \<in># keys_of cfg c \<longleftrightarrow> k \<in> set ks" using is_index_keys(1)[OF i] by simp
  show ?thesis
  proof (rule Add_cases[OF r nofix, of bUnique False id k])
    fix out c'
    assume a: "Add cfg bUnique False id k c = ret (False, out, c')" "visible cfg c k"
      "if cfg_type cfg = Type_Map \<and> False then updated cfg k id c c' else c' = c"
    have "k \<in> set ks" using visible_in_keys[OF readyD(2)[OF r(1)] a(2)] key by simp
    then show ?thesis using a(1,3) i r(1) by (auto simp: Index_Add_def drop_out_def)
  next
    fix w out c'
    assume a: "Add cfg bUnique False id k c = ret (True, out, c')" "bUnique \<or> \<not> visible cfg c k"
      "added cfg (new_entry cfg id k w) c c'" "ready cfg c'"
    have k: "k \<notin> set ks" using a(2) seen key by (auto simp: hidden_def split: if_splits)
    moreover have "card (tombstones c') \<le> card (tombstones c)" using a(3) by (simp add: added_def)
    ultimately show ?thesis using a(1,4) added_index[OF i k a(3)] by (auto simp: Index_Add_def drop_out_def)
  qed
qed

lemma is_index_live:
  assumes "cfg_type cfg = Type_Index" "is_index cfg t ks"
  shows "card (live t) = length ks"
proof -
  have "size (keys_of cfg t) = length ks" using is_index_keys(1)[OF assms(2)] by simp
  then show ?thesis by (simp add: keys_of_def contents_def)
qed

lemma index_add [statement_rules]:
  assumes "k \<notin> set ks \<and> n + 1 \<le> 100"
  shows "leads (RUN_TEST True (on_table (Index_Add cfg False k))) (index_state cfg ks n)
    (index_state cfg (ks @ [k]) (n + 1))"
proof -
  have "leads (RUN_TEST True (on_table (Index_Add cfg False k))) (test_state cfg (\<lambda>t. cfg_type cfg = Type_Index \<and> is_index cfg t ks) 0 n)
    (test_state cfg (\<lambda>t. cfg_type cfg = Type_Index \<and> is_index cfg t (ks @ [k])) (0 + 0) (n + 1))"
  proof (rule on_table_leads(1))
    fix t assume a: "small_config cfg" "small cfg 0 n t" "cfg_type cfg = Type_Index \<and> is_index cfg t ks"
    show "\<exists>t'. Index_Add cfg False k t = ret (True, t') \<and> ready cfg t' \<and> (cfg_type cfg = Type_Index \<and> is_index cfg t' (ks @ [k]))
        \<and> card (tombstones t') \<le> card (tombstones t) + 0"
      using Index_Add_ok[OF _ smallD(1,2,4)[OF a(1,2)], of ks False k] smallD(7)[OF a(1,2), of k] a(3) assms by (auto split: if_splits)
  qed (use assms is_index_live[of cfg] in auto)
  then show ?thesis by (simp add: index_state_def)
qed

lemma index_add_unique [statement_rules]:
  assumes "k \<notin> set ks \<and> n + 1 \<le> 100"
  shows "leads (statement (on_table (Index_Add cfg True k))) (index_state cfg ks n)
    (index_state cfg (ks @ [k]) (n + 1))"
proof -
  have "leads (statement (on_table (Index_Add cfg True k))) (test_state cfg (\<lambda>t. cfg_type cfg = Type_Index \<and> is_index cfg t ks) 0 n)
    (test_state cfg (\<lambda>t. cfg_type cfg = Type_Index \<and> is_index cfg t (ks @ [k])) (0 + 0) (n + 1))"
  proof (rule on_table_leads(2))
    fix t assume a: "small_config cfg" "small cfg 0 n t" "cfg_type cfg = Type_Index \<and> is_index cfg t ks"
    show "\<exists>t'. Index_Add cfg True k t = ret (True, t') \<and> ready cfg t' \<and> (cfg_type cfg = Type_Index \<and> is_index cfg t' (ks @ [k]))
        \<and> card (tombstones t') \<le> card (tombstones t) + 0"
      using Index_Add_ok[OF _ smallD(1,2,4)[OF a(1,2)], of ks True k] a(3) assms by (auto split: if_splits)
  qed (use assms is_index_live[of cfg] in auto)
  then show ?thesis by (simp add: index_state_def)
qed

lemma index_add_again [statement_rules]:
  assumes "k \<in> set ks \<and> n \<le> 100"
  shows "leads (RUN_TEST False (on_table (Index_Add cfg False k))) (index_state cfg ks n)
    (index_state cfg (ks) (n + 0))"
proof -
  have "leads (RUN_TEST False (on_table (Index_Add cfg False k))) (test_state cfg (\<lambda>t. cfg_type cfg = Type_Index \<and> is_index cfg t ks) 0 n)
    (test_state cfg (\<lambda>t. cfg_type cfg = Type_Index \<and> is_index cfg t (ks)) (0 + 0) (n + 0))"
  proof (rule on_table_leads(1))
    fix t assume a: "small_config cfg" "small cfg 0 n t" "cfg_type cfg = Type_Index \<and> is_index cfg t ks"
    show "\<exists>t'. Index_Add cfg False k t = ret (False, t') \<and> ready cfg t' \<and> (cfg_type cfg = Type_Index \<and> is_index cfg t' (ks))
        \<and> card (tombstones t') \<le> card (tombstones t) + 0"
      using Index_Add_ok[OF _ smallD(1,2,4)[OF a(1,2)], of ks False k] smallD(7)[OF a(1,2), of k] a(3) assms by (auto split: if_splits)
  qed (use assms is_index_live[of cfg] in auto)
  then show ?thesis by (simp add: index_state_def)
qed

lemma index_contains [statement_rules]:
  assumes "b \<longleftrightarrow> k \<in> set ks"
  shows "leads (RUN_TEST b (on_const (\<lambda>t. Contains cfg t k))) (index_state cfg ks n) (index_state cfg ks n)"
  unfolding index_state_def
proof (rule on_const_leads)
  fix t assume a: "small_config cfg" "small cfg 0 n t" "cfg_type cfg = Type_Index \<and> is_index cfg t ks"
  show "Contains cfg t k = Some b" using Index_lookup[OF _ smallD(1,3,5)[OF a(1,2)], of ks k] a(3) assms by auto
qed

lemma index_unique:
  "is_index cfg t ks \<Longrightarrow> unat p < length ks \<Longrightarrow> ks ! unat p = k \<Longrightarrow> unat y < length ks \<Longrightarrow> ks ! unat y = k \<Longrightarrow> p = (y :: u32)"
  using nth_eq_iff_index_eq[of ks "unat p" "unat y"] by (simp add: is_index_def word_unat_eq_iff)

lemma index_value [statement_rules]:
  assumes "unat y < length ks \<and> ks ! unat y = k"
  shows "leads (RUN_TEST True (and_is y (on_lookup (\<lambda>t. Index_TryGetIndex cfg t k)))) (index_state cfg ks n) (index_state cfg ks n)"
  unfolding index_state_def
proof (rule on_lookup_leads(1)[OF _ refl])
  fix t assume a: "small_config cfg" "small cfg 0 n t" "cfg_type cfg = Type_Index \<and> is_index cfg t ks"
  obtain p where "Index_TryGetIndex cfg t k = Some (Some p)" "unat p < length ks" "ks ! unat p = k"
    using Index_lookup[OF _ smallD(1,3,5)[OF a(1,2)], of ks k] a(3) assms nth_mem by fastforce
  then show "Index_TryGetIndex cfg t k = Some (Some y)" using index_unique[of cfg t ks p k y] a(3) assms by simp
qed

lemma index_try_add:
  assumes "n + 1 \<le> 100" "index_state cfg ks n (x, t)"
  shows "\<exists>b p t'. Index_TryAdd cfg k t = ret (b, Some p, t') \<and> (b \<longleftrightarrow> k \<notin> set ks)
    \<and> (if b then unat p = length ks else unat p < length ks \<and> ks ! unat p = k)
    \<and> index_state cfg (if b then ks @ [k] else ks) (n + 1) (y, t') \<and> is_index cfg t ks"
proof -
  have a: "small_config cfg" "small cfg 0 n t" "cfg_type cfg = Type_Index" "is_index cfg t ks"
    using assms(2) by (auto simp: index_state_def test_state_def)
  obtain b p t' where t': "Index_TryAdd cfg k t = ret (b, Some p, t')" "b \<longleftrightarrow> k \<notin> set ks"
    "is_index cfg t' (if b then ks @ [k] else ks)"
    "if b then unat p = length ks else unat p < length ks \<and> ks ! unat p = k" "ready cfg t'"
    "card (tombstones t') \<le> card (tombstones t)"
    using Index_TryAdd_ok[OF a(3) smallD(1,2,4)[OF a(1,2)] a(4) smallD(7)[OF a(1,2) refl], of k] by blast
  have "ready cfg t" "unat (Count t) \<le> n" "card (tombstones t) \<le> 0" using a(2) by (auto simp: small_def)
  then have "small cfg 0 (n + 1) t'"
    using t'(5,6) is_index_live[OF a(3) t'(3)] is_index_live[OF a(3,4)] assms(1) by (auto simp: small_def count_live split: if_splits)
  then have "index_state cfg (if b then ks @ [k] else ks) (n + 1) (y, t')"
    using a(1,3) t'(3) by (auto simp: index_state_def test_state_def)
  then show ?thesis using t'(1,2,4) a(4) by blast
qed

lemma index_try_add_new [statement_rules]:
  assumes "k \<notin> set ks \<and> unat y = length ks \<and> n + 1 \<le> 100"
  shows "leads (RUN_TEST True (and_is y (try_add cfg k))) (index_state cfg ks n) (index_state cfg (ks @ [k]) (n + 1))"
  unfolding leads_def
proof (clarify)
  fix x t assume s: "index_state cfg ks n (x, t)"
  obtain p t' where "Index_TryAdd cfg k t = ret (True, Some p, t')" "unat p = length ks" "index_state cfg (ks @ [k]) (n + 1) (y, t')"
    using index_try_add[OF _ s, of k y] assms by auto
  moreover from this(2) have "p = y" using assms by (simp add: word_unat_eq_iff)
  ultimately show "\<exists>s'. RUN_TEST True (and_is y (try_add cfg k)) (x, t) = ret s' \<and> index_state cfg (ks @ [k]) (n + 1) s'"
    by (simp add: RUN_TEST_def and_is_def try_add_def)
qed

lemma index_try_add_again [statement_rules]:
  assumes "unat y < length ks \<and> ks ! unat y = k \<and> n + 1 \<le> 100"
  shows "leads (RUN_TEST True (not_and_is y (try_add cfg k))) (index_state cfg ks n) (index_state cfg ks (n + 1))"
  unfolding leads_def
proof (clarify)
  fix x t assume s: "index_state cfg ks n (x, t)"
  have "k \<in> set ks" using assms nth_mem by blast
  then obtain p t' where "Index_TryAdd cfg k t = ret (False, Some p, t')" "unat p < length ks" "ks ! unat p = k"
    "index_state cfg ks (n + 1) (y, t')" "is_index cfg t ks"
    using index_try_add[OF _ s, of k y] assms by force
  moreover have "p = y" by (rule index_unique[OF calculation(5,2,3)]) (use assms in simp_all)
  ultimately show "\<exists>s'. RUN_TEST True (not_and_is y (try_add cfg k)) (x, t) = ret s' \<and> index_state cfg ks (n + 1) s'"
    by (simp add: RUN_TEST_def not_and_is_def try_add_def)
qed

lemma print_index:
  assumes s: "index_state cfg ks n s" and v: "vector_ok sz TYPE('m::len)"
  shows "ends False (print_table TYPE('m) sz cfg s) (\<lambda>(c, es). c = of_nat (length ks) \<and> map ekey es = ks)"
  by (rule ends_mono[OF print_table_ok[OF s[unfolded index_state_def] v]]) (auto simp: is_index_def)

lemma index_statements_pass:
  fixes cfg :: "('w::len word, 'w word) config"
  assumes w: "LENGTH('w) = 32 \<or> LENGTH('w) = 64" and cfg: "small_config cfg" "cfg_type cfg = Type_Index"
    and v: "vector_ok sz TYPE('m::len)"
  shows "ends False (TEST_index TYPE('m) sz cfg c0 index) (\<lambda>(c, es). c = 4 \<and> map ekey es = [1, 2, 3, 4])"
proof -
  obtain t where t: "Core_new cfg c0 = ret t" "small cfg 0 0 t" "is_index cfg t []" using small_new[OF cfg(1)] cfg(2) by blast
  have start: "index_state cfg [] 0 (index, t)"
    using cfg t by (simp add: index_state_def test_state_def)
  show ?thesis
    unfolding TEST_index_def Let_def t(1) run_bind_simps
    by (rule leads_run[where P = "index_state cfg [] 0" and s = "(index, t)"],
        (rule leads_Cons, rule statement_rules, (use w in \<open>auto\<close>)[1])+, rule leads_Nil, rule start,
        rule ends_mono[OF print_index[OF _ v]], assumption)
      (use w in \<open>auto\<close>)
qed

section \<open>The self test passes\<close>

definition passed :: "('w::len word, 'w word) printed run \<Rightarrow> bool" where
  "passed r \<longleftrightarrow> (\<exists>hm hi hs. r = ret \<lparr>printed_map = (4, hm), printed_index = (4, hi), printed_set = (5, hs)\<rparr>
     \<and> mset hm = {#Entry 1 1, Entry 2 2, Entry 3 33, Entry 11 11#} \<and> map ekey hi = [1, 2, 3, 4]
     \<and> mset (map ekey hs) = {#1, 2, 3, 2002, 2222#})"

lemma TEST_passes:
  fixes Hash :: "'w::len word \<Rightarrow> u64"
  assumes "LENGTH('w) = 32 \<or> LENGTH('w) = 64" "vector_ok sz TYPE('m::len)"
  shows "passed (TEST TYPE('m) sz Hash mem index)"
proof -
  have c: "small_config (table_config ty Fast False Hash (mem ty))" "cfg_type (table_config ty Fast False Hash (mem ty)) = ty" for ty
    by (simp_all add: small_config_def pow2_mode_def)
  show ?thesis
    using map_statements_pass[OF assms(1) c(1)[of Type_Map] c(2) assms(2), of "mem_core (mem Type_Map)"]
      index_statements_pass[OF assms(1) c(1)[of Type_Index] c(2) assms(2), of "mem_core (mem Type_Index)" index]
      set_statements_pass[OF assms(1) c(1)[of Type_Set] c(2) assms(2), of "mem_core (mem Type_Set)"]
    by (auto simp: ends_def TEST_def Let_def passed_def)
qed

end
