(* ===== verification/SelfTest1.thy ===== *)
theory SelfTest1
  imports Demo
begin

text \<open>
  The second self test of \<^verbatim>\<open>Application.cpp\<close>, the function template \<open>TEST1\<close>: an index in
  the mode \<open>ResizeOnlyEmpty\<close> is given room for 120 million keys and is then filled 64 times with more and more
  keys, up to 640 million. The number of keys and the capacity are printed after each time.
\<close>

definition TEST1_step :: u32 where "TEST1_step = 10000000"

definition TEST1_turn ::
    "(u64, 'v) config \<Rightarrow> nat \<Rightarrow> (u32 \<times> u32) list \<times> (u64, 'v) core \<Rightarrow> ((u32 \<times> u32) list \<times> (u64, 'v) core) run" where
  "TEST1_turn cfg i = (\<lambda>(printed, sh).
     run_bind (Clear cfg 0 sh) (\<lambda>sh.
     run_bind (run_fold (\<lambda>j sh. run_bind (Index_Add cfg True (of_nat j) sh) (\<lambda>(_, sh). ret sh))
       [0..<unat ((of_nat i + 1) * TEST1_step)] sh) (\<lambda>sh.
     ret (printed @ [(Count sh, Capacity sh)], sh))))"

definition TEST1_function :: "(u64, 'v) config \<Rightarrow> (u64, 'v) core \<Rightarrow> ((u32 \<times> u32) list \<times> (u64, 'v) core) run" where
  "TEST1_function cfg c0 =
     run_bind (Core_new cfg c0) (\<lambda>sh.
     run_bind (Resize cfg 120000000 sh) (\<lambda>sh.
     run_fold (TEST1_turn cfg) [0..<64] ([], sh)))"

section \<open>Additions around the growth limit\<close>

lemma Add_at_slot:
  assumes r: "ready cfg c" and ty: "cfg_type cfg = Type_Index" and nofix: "\<not> cfg_fix cfg"
  shows "\<exists>d v. Index_Add cfg True k c = run_bind (finish_add cfg d) (\<lambda>c. ret (True, c))
    \<and> added cfg (new_entry cfg id k v) c d \<and> same_sizes c d"
proof -
  note rd = readyD[OF r]
  obtain q where q: "AddSlot cfg True c k = Some q" by (rule AddSlot_total[OF r])
  note kind = AddSlot_kind[OF rd(2) nofix q]
  obtain s where s: "q = Inr s" using kind(1) by (cases q) auto
  obtain c2 v where c2: "add_entry cfg False id k (set_tag s (HashToTag (cfg_hash cfg k)) c) s = ret (None, c2)"
    "added cfg (new_entry cfg id k v) c (c2\<lparr>Count := Count c2 + 1\<rparr>)" "same_sizes c c2"
    using add_entry_index[OF ty rd(1) kind(2)[OF s], of False id] by auto
  let ?d = "c2\<lparr>Count := Count c2 + 1\<rparr>"
  have "Index_Add cfg True k c = run_bind (finish_add cfg ?d) (\<lambda>c. ret (True, c))"
    by (simp add: Index_Add_def drop_out_def Add_def q s c2(1) finish_add_def Let_def run_bind_assoc)
  moreover have "same_sizes c ?d" using c2(3) by (simp add: same_sizes_def)
  ultimately show ?thesis using c2(2) by blast
qed

lemma Index_Add_below:
  assumes "ready cfg c" "cfg_type cfg = Type_Index" "\<not> cfg_fix cfg" "Count c + 1 \<noteq> CountGrowthLimit c"
  shows "\<exists>d. Index_Add cfg True k c = ret (True, d) \<and> core_ok cfg d \<and> same_sizes c d \<and> Count d = Count c + 1"
proof -
  obtain d v where d: "Index_Add cfg True k c = run_bind (finish_add cfg d) (\<lambda>c. ret (True, c))"
    "added cfg (new_entry cfg id k v) c d" "same_sizes c d" using Add_at_slot[OF assms(1-3)] by blast
  have "Count d = Count c + 1" "core_ok cfg d" using d(2) by (auto simp: added_def)
  moreover from this d(3) assms(4) have "finish_add cfg d = ret d" by (simp add: finish_add_def same_sizes_def)
  ultimately show ?thesis using d(1,3) by simp
qed

lemma Index_Add_at_limit:
  assumes "ready cfg c" "cfg_type cfg = Type_Index" "\<not> cfg_fix cfg" "Count c + 1 = CountGrowthLimit c"
    "cfg_mode cfg = ResizeOnlyEmpty" "Capacity c < MAX_SIZE"
  shows "Index_Add cfg True k c = abort Resize_only_empty"
proof -
  obtain d v where d: "Index_Add cfg True k c = run_bind (finish_add cfg d) (\<lambda>c. ret (True, c))"
    "added cfg (new_entry cfg id k v) c d" "same_sizes c d" using Add_at_slot[OF assms(1-3)] by blast
  note R = readyD[OF assms(1)]
  have S: "Capacity d = Capacity c" "CountGrowthLimit d = CountGrowthLimit c" using d(3) by (simp_all add: same_sizes_def)
  have c: "Count d = CountGrowthLimit c" using d(2) assms(4) by (simp add: added_def)
  then have nz: "Count d \<noteq> 0" using R(6) by auto
  have "Capacity c < AdjustCapacity (cfg_mode cfg) (Capacity c + 1)"
    using next_capacity[OF R(3) assms(6)] by (simp add: cap_def word_less_nat_alt)
  then have "Resize cfg (Capacity d + 1) d = abort Resize_only_empty"
    using nz assms(5) by (simp add: Resize_def S)
  then show ?thesis using d(1) c S by (simp add: finish_add_def)
qed

section \<open>The capacity\<close>

definition TEST1_capacity :: u32 where "TEST1_capacity = 121212928"
definition TEST1_limit :: u32 where "TEST1_limit = 118376544"

lemma TEST1_capacity_value: "AdjustCapacity ResizeOnlyEmpty 120000000 = TEST1_capacity"
proof -
  have a: "to_float 120000000 = of_int 15000000 * 8"
    by (rule fl_round_eval[where k = 26]) (simp_all add: power_int_def)
  have b: "to_float (of_int 15000000 * 8 / MAX_LOAD_FACTOR) = of_int 15151515 * 8"
    unfolding load_factor_values(1) by (rule fl_round_eval[where k = 26]) (simp_all add: power_int_def)
  have "trunc_u64 (to_float (to_float (of_nat (unat (120000000 :: u32))) / MAX_LOAD_FACTOR)) = 121212120"
    using a b by (simp add: trunc_u64_def)
  then show ?thesis
    by (simp add: AdjustCapacity_def size_consts PageSize_def Shift_def TEST1_capacity_def Let_def)
qed

lemma TEST1_limit_value: "growth_limit TEST1_capacity DEF_LOAD_FACTOR = TEST1_limit"
proof -
  have u: "of_nat (unat TEST1_capacity) * DEF_LOAD_FACTOR = 121212928 * (16384629 / 2 ^ 24)"
    by (simp add: load_factor_values(2) TEST1_capacity_def)
  have "to_double (121212928 * (16384629 / 2 ^ 24)) = of_int 7944115421134848 * (1 / 67108864)"
    by (rule fl_round_eval[where k = 26]) (simp_all add: power_int_def power_one_over)
  also have "\<dots> = 484870325997 / 4096" by simp
  finally have "\<lfloor>to_double (of_nat (unat TEST1_capacity) * DEF_LOAD_FACTOR)\<rfloor> = 118376544"
    unfolding u by (simp add: floor_eq_iff)
  moreover have "TEST1_capacity < MAX_SIZE" by (simp add: TEST1_capacity_def size_consts)
  ultimately show ?thesis by (simp only: growth_limit_def trunc_u32_def TEST1_limit_def of_int_numeral if_True)
qed

section \<open>The loops\<close>

definition TEST1_table :: "(u64, 'v) config \<Rightarrow> nat \<Rightarrow> (u64, 'v) core \<Rightarrow> bool" where
  "TEST1_table cfg n sh \<longleftrightarrow> core_ok cfg sh \<and> Count sh = of_nat n \<and> Capacity sh = TEST1_capacity \<and> load_limit sh = DEF_LOAD_FACTOR"

lemma TEST1_ready:
  assumes "TEST1_table cfg n sh" "n < 118376544"
  shows "ready cfg sh" "CountGrowthLimit sh = TEST1_limit" "unat (Count sh) = n"
proof -
  have t: "core_ok cfg sh" "Count sh = of_nat n" "Capacity sh = TEST1_capacity" "load_limit sh = DEF_LOAD_FACTOR"
    using assms(1) by (auto simp: TEST1_table_def)
  have "sizes_ok (cfg_mode cfg) sh" using core_okD(1)[OF t(1)] by (rule slots_ok_tags)
  then show l: "CountGrowthLimit sh = TEST1_limit" using limit_of t(3,4) TEST1_limit_value by metis
  show u: "unat (Count sh) = n" using assms(2) by (simp add: t(2) unat_of_nat)
  have "coprime 15 (121212928 :: nat)" by (simp add: coprime_iff_gcd_eq_1 gcd_nat.simps)
  then show "ready cfg sh"
    using t(1) l u assms(2) by (simp add: ready_def t(3) TEST1_limit_def TEST1_capacity_def cap_def word_less_nat_alt)
qed

lemma TEST1_adds:
  assumes ty: "cfg_type cfg = Type_Index" and nofix: "\<not> cfg_fix cfg" and t: "TEST1_table cfg 0 sh"
  shows "n < 118376544 \<Longrightarrow> \<exists>d. run_fold (\<lambda>j sh. run_bind (Index_Add cfg True (of_nat j) sh) (\<lambda>(_, sh). ret sh)) [0..<n] sh = ret d
    \<and> TEST1_table cfg n d"
proof (induction n)
  case 0
  with t show ?case by simp
next
  case (Suc n)
  then obtain d where d: "run_fold (\<lambda>j sh. run_bind (Index_Add cfg True (of_nat j) sh) (\<lambda>(_, sh). ret sh)) [0..<n] sh = ret d"
    "TEST1_table cfg n d" by auto
  have n: "n < 118376544" using Suc.prems by simp
  note R = TEST1_ready[OF d(2) n]
  have "unat (Count d + 1) = Suc n" using R(3) n by (simp add: unat_add_u32)
  then have "Count d + 1 \<noteq> CountGrowthLimit d" using R(2) Suc.prems by (auto simp: TEST1_limit_def)
  from Index_Add_below[OF R(1) ty nofix this, of "of_nat n"] obtain e where
    e: "Index_Add cfg True (of_nat n) d = ret (True, e)" "core_ok cfg e" "same_sizes d e" "Count e = Count d + 1" by blast
  have "TEST1_table cfg (Suc n) e" using d(2) e(2-4) by (simp add: TEST1_table_def same_sizes_def add.commute)
  then show ?case using d(1) e(1) by (simp add: run_fold_append)
qed

lemma TEST1_adds_overflow:
  assumes ty: "cfg_type cfg = Type_Index" and nofix: "\<not> cfg_fix cfg" and mode: "cfg_mode cfg = ResizeOnlyEmpty"
    and t: "TEST1_table cfg 0 sh" and n: "118376544 \<le> n"
  shows "run_fold (\<lambda>j sh. run_bind (Index_Add cfg True (of_nat j) sh) (\<lambda>(_, sh). ret sh)) [0..<n] sh = abort Resize_only_empty"
proof -
  let ?f = "\<lambda>j sh. run_bind (Index_Add cfg True (of_nat j) sh) (\<lambda>(_, sh). ret sh)" and ?n = "118376543 :: nat"
  obtain d where d: "run_fold ?f [0..<?n] sh = ret d" "TEST1_table cfg ?n d" using TEST1_adds[OF ty nofix t, of ?n] by auto
  note R = TEST1_ready[OF d(2), simplified]
  have "Count d + 1 = CountGrowthLimit d" using d(2) R(2) by (simp add: TEST1_table_def TEST1_limit_def)
  moreover have "Capacity d < MAX_SIZE" using d(2) by (simp add: TEST1_table_def TEST1_capacity_def size_consts)
  ultimately have a: "Index_Add cfg True k d = abort Resize_only_empty" for k
    by (intro Index_Add_at_limit[OF R(1) ty nofix _ mode])
  have "[0..<n] = [0..<?n] @ ?n # [Suc ?n..<n]"
    using n upt_add_eq_append[of 0 ?n "n - ?n"] upt_conv_Cons[of ?n n] by simp
  then show ?thesis by (simp add: run_fold_append d(1) a del: upt_Suc)
qed

text \<open>The turns that pass.\<close>

lemma TEST1_turn_ok:
  assumes ty: "cfg_type cfg = Type_Index" and nofix: "\<not> cfg_fix cfg" and t: "TEST1_table cfg m sh" and i: "i < 11"
  shows "\<exists>d. TEST1_turn cfg i (printed, sh) = ret (printed @ [(of_nat (10000000 * Suc i), TEST1_capacity)], d)
    \<and> TEST1_table cfg (10000000 * Suc i) d"
proof -
  obtain e where e: "Clear cfg 0 sh = ret e" "TEST1_table cfg 0 e"
    using Clear_same[of cfg sh 0] t by (auto simp: TEST1_table_def)
  have "unat ((of_nat i + 1) * TEST1_step) = 10000000 * Suc i"
  proof -
    have "(of_nat i + 1) * TEST1_step = of_nat (10000000 * Suc i)" by (simp add: TEST1_step_def algebra_simps)
    moreover have "10000000 * Suc i < 2 ^ 32" using i by simp
    ultimately show ?thesis using unat_of_nat[of "10000000 * Suc i", where 'a = 32] by simp
  qed
  moreover obtain d where "run_fold (\<lambda>j sh. run_bind (Index_Add cfg True (of_nat j) sh) (\<lambda>(_, sh). ret sh))
      [0..<10000000 * Suc i] e = ret d" "TEST1_table cfg (10000000 * Suc i) d"
    using TEST1_adds[OF ty nofix e(2), of "10000000 * Suc i"] i by auto
  ultimately show ?thesis using e(1) by (simp add: TEST1_turn_def TEST1_table_def del: upt_Suc)
qed

lemma TEST1_turns:
  assumes ty: "cfg_type cfg = Type_Index" and nofix: "\<not> cfg_fix cfg" and t: "TEST1_table cfg 0 sh"
  shows "n \<le> 11 \<Longrightarrow> \<exists>d m. run_fold (TEST1_turn cfg) [0..<n] ([], sh)
      = ret (map (\<lambda>i. (of_nat (10000000 * Suc i), TEST1_capacity)) [0..<n], d) \<and> TEST1_table cfg m d"
proof (induction n)
  case 0
  with t show ?case by auto
next
  case (Suc n)
  then obtain d m where d: "run_fold (TEST1_turn cfg) [0..<n] ([], sh)
      = ret (map (\<lambda>i. (of_nat (10000000 * Suc i), TEST1_capacity)) [0..<n], d)" "TEST1_table cfg m d" by auto
  from Suc.prems have "n < 11" by simp
  from TEST1_turn_ok[OF ty nofix d(2) this] obtain e where
    "TEST1_turn cfg n (map (\<lambda>i. (of_nat (10000000 * Suc i), TEST1_capacity)) [0..<n], d)
      = ret (map (\<lambda>i. (of_nat (10000000 * Suc i), TEST1_capacity)) [0..<Suc n], e)" "TEST1_table cfg (10000000 * Suc n) e"
    by auto
  moreover have "run_fold (TEST1_turn cfg) [] = ret" by (rule ext) simp
  then have "run_fold (TEST1_turn cfg) [n] = (\<lambda>s. run_bind (TEST1_turn cfg n s) (\<lambda>s. ret s))" by (intro ext) simp
  then have "run_fold (TEST1_turn cfg) [0..<Suc n] ([], sh)
      = run_bind (run_fold (TEST1_turn cfg) [0..<n] ([], sh)) (\<lambda>s. run_bind (TEST1_turn cfg n s) (\<lambda>s. ret s))"
    by (simp add: run_fold_append)
  ultimately show ?case using d(1) by (auto simp del: of_nat_mult of_nat_Suc mult_Suc_right upt_Suc)
qed

lemma TEST1_stops:
  assumes "cfg_type cfg = Type_Index" "cfg_mode cfg = ResizeOnlyEmpty" "\<not> cfg_fix cfg"
  shows "TEST1_function cfg c0 = abort Resize_only_empty
    \<and> (\<exists>sh d. run_bind (Core_new cfg c0) (Resize cfg 120000000) = ret sh
      \<and> run_fold (TEST1_turn cfg) [0..<11] ([], sh)
        = ret (map (\<lambda>i. (of_nat (10000000 * Suc i), TEST1_capacity)) [0..<11], d))"
proof -
  obtain c where c: "Core_new cfg c0 = ret c" "core_ok cfg c" "Count c = 0" "Capacity c = MIN_SIZE"
    "load_limit c = DEF_LOAD_FACTOR" using Core_new_ok by blast
  have cap: "AdjustCapacity (cfg_mode cfg) 120000000 = TEST1_capacity" using TEST1_capacity_value assms(2) by simp
  then have "Capacity c < AdjustCapacity (cfg_mode cfg) 120000000"
    by (simp add: c(4) size_consts TEST1_capacity_def)
  then obtain sh where sh: "Resize cfg 120000000 c = ret sh" "TEST1_table cfg 0 sh"
    using Resize_grows[OF c(2), of 120000000] c(3,5) cap by (auto simp: TEST1_table_def same_entries_def)
  let ?out = "map (\<lambda>i. (of_nat (10000000 * Suc i) :: u32, TEST1_capacity)) [0..<11]"
  obtain d m where d: "run_fold (TEST1_turn cfg) [0..<11] ([], sh) = ret (?out, d)" "TEST1_table cfg m d"
    using TEST1_turns[OF assms(1,3) sh(2), of 11] by blast
  obtain e where e: "Clear cfg 0 d = ret e" "TEST1_table cfg 0 e"
    using Clear_same[of cfg d 0] d(2) by (auto simp: TEST1_table_def)
  have "unat ((of_nat 11 + 1) * TEST1_step) = 120000000" by (simp add: TEST1_step_def)
  then have "TEST1_turn cfg 11 (?out, d) = abort Resize_only_empty"
    using TEST1_adds_overflow[OF assms(1,3,2) e(2), of 120000000] e(1) by (simp add: TEST1_turn_def del: upt_Suc)
  moreover have "[0..<64] = [0..<11] @ 11 # [12..<64 :: nat]"
    using upt_add_eq_append[of 0 11 53] upt_conv_Cons[of 11 64] by simp
  ultimately have "run_fold (TEST1_turn cfg) [0..<64] ([], sh) = abort Resize_only_empty"
    by (simp only: run_fold_append d(1) run_bind_simps run_fold.simps)
  then show ?thesis using c(1) sh(1) d(1) by (auto simp: TEST1_function_def)
qed

end
