(* ===== verification/Arguments.thy ===== *)
theory Arguments
  imports Dispatch
begin

text \<open>
  \<^verbatim>\<open>main\<close> of \<^verbatim>\<open>Application.cpp\<close>, first part: the functions of the C library that read
  numbers, and the options that the command line sets.
\<close>

section \<open>Numbers in strings\<close>

definition is_digit :: "char \<Rightarrow> bool" where
  "is_digit c \<longleftrightarrow> 48 \<le> (of_char c :: nat) \<and> (of_char c :: nat) \<le> 57"

definition is_space :: "char \<Rightarrow> bool" where
  "is_space c \<longleftrightarrow> (of_char c :: nat) = 32 \<or> 9 \<le> (of_char c :: nat) \<and> (of_char c :: nat) \<le> 13"

fun read_digits :: "int \<Rightarrow> string \<Rightarrow> int \<times> string" where
  "read_digits n [] = (n, [])"
| "read_digits n (c # s) = (if is_digit c then read_digits (10 * n + (of_char c - 48)) s else (n, c # s))"

text \<open>An optional sign: its factor and the rest.\<close>

fun read_sign :: "string \<Rightarrow> int \<times> string" where
  "read_sign [] = (1, [])"
| "read_sign (c # s) = (if c = CHR ''-'' then (- 1, s) else if c = CHR ''+'' then (1, s) else (1, c # s))"

text \<open>\<open>atoi\<close>: a number that is no \<open>int\<close> is undefined behaviour and does not occur.\<close>

definition atoi :: "string \<Rightarrow> int" where
  "atoi s = (let (sign, s) = read_sign (dropWhile is_space s) in sign * fst (read_digits 0 s))"

text \<open>\<open>atof\<close> for decimal numbers: digits, a fraction, an exponent.\<close>

definition atof :: "string \<Rightarrow> rat" where
  "atof s =
     (let (sign, s) = read_sign (dropWhile is_space s);
          (whole, s1) = read_digits 0 s;
          (frac, s2) = (case s1 of c # s' \<Rightarrow> if c = CHR ''.'' then read_digits 0 s' else (0, s1) | [] \<Rightarrow> (0, []));
          scale = (case s1 of c # s' \<Rightarrow> if c = CHR ''.'' then length s' - length s2 else 0 | [] \<Rightarrow> 0);
          expo = (case s2 of c # s' \<Rightarrow>
              if c = CHR ''e'' \<or> c = CHR ''E''
              then (let (esign, s3) = read_sign s' in esign * fst (read_digits 0 s3)) else 0
            | [] \<Rightarrow> 0)
      in to_double (of_int sign * (of_int whole + of_int frac / 10 ^ scale) * 10 powi expo))"

text \<open>\<open>check.find(t) != npos\<close>\<close>

fun contains_string :: "string \<Rightarrow> string \<Rightarrow> bool" where
  "contains_string [] t = (t = [])"
| "contains_string (c # s) t = (take (length t) (c # s) = t \<or> contains_string s t)"

section \<open>Options\<close>

record options =
  TypeMask :: u32
  FlagMask :: u32
  TypeSequential :: u32
  SimdHashMemoryMode :: mode
  bShuffle :: bool
  opt_flags :: u64             \<comment> \<open>\<open>BenchFlags\<close>\<close>
  generate_python_data :: int

definition default_options :: options where
  "default_options = \<lparr>TypeMask = 0, FlagMask = 0, TypeSequential = 0, SimdHashMemoryMode = Fast,
     bShuffle = False, opt_flags = 0, generate_python_data = 0\<rparr>"

text \<open>The tests at the beginning of the loop, which fall through.\<close>

definition parse_mode :: "string \<Rightarrow> options \<Rightarrow> options" where
  "parse_mode arg o1 =
     (let o2 = (if arg = ''-fast'' then o1\<lparr>SimdHashMemoryMode := Fast\<rparr> else o1);
          o3 = (if arg = ''-fastdivmod'' then o2\<lparr>SimdHashMemoryMode := FastDivMod\<rparr> else o2);
          o4 = (if arg = ''-savememoryfast'' then o3\<lparr>SimdHashMemoryMode := SaveMemoryFast\<rparr> else o3);
          o5 = (if arg = ''-savememoryopt'' then o4\<lparr>SimdHashMemoryMode := SaveMemoryOpt\<rparr> else o4)
      in if arg = ''-savememorymax'' then o5\<lparr>SimdHashMemoryMode := SaveMemoryMax\<rparr> else o5)"

definition set_flag :: "u64 \<Rightarrow> options \<Rightarrow> options" where
  "set_flag f o1 = o1\<lparr>opt_flags := opt_flags o1 OR f\<rparr>"

definition set_type :: "u32 \<Rightarrow> options \<Rightarrow> options" where
  "set_type t o1 = o1\<lparr>TypeMask := TypeMask o1 OR t\<rparr>"

definition parse_hash :: "string \<Rightarrow> options \<Rightarrow> options" where
  "parse_hash arg o1 =
     (let o2 = (if arg = ''-ankerlhash'' then set_flag 8 o1 else o1);
          o3 = (if arg = ''-abslhash'' then set_flag 4 o2 else o2);
          o4 = (if arg = ''-stdhash'' then set_flag 2 o3 else o3)
      in if arg = ''-simdhash'' then set_flag 1 o4 else o4)"

definition parse_presult :: "string \<Rightarrow> options \<Rightarrow> options" where
  "parse_presult arg o1 =
     (if contains_string arg ''-presult''
      then if arg = ''-presult'' then o1\<lparr>generate_python_data := 1\<rparr>
           else o1\<lparr>generate_python_data := atoi (drop 8 arg)\<rparr>
      else o1)"

text \<open>The tests that end with \<open>continue\<close>.\<close>

definition parse_type :: "string \<Rightarrow> options \<Rightarrow> options" where
  "parse_type arg o1 =
     (if arg = ''-simdhm'' then set_type 1 o1
      else if arg = ''-simdhi'' then set_type 2 o1
      else if arg = ''-simdhs'' then set_type 4 o1
      else if arg = ''-tslrm'' then set_type 8 o1
      else if arg = ''-abslfhm'' then set_type 16 o1
      else if arg = ''-em7hm'' then set_type 32 o1
      else if arg = ''-ankerlhm'' then set_type 64 o1
      else if arg = ''-em8hm'' then set_type 128 o1
      else if arg = ''-simdhmfix'' then set_type 2048 o1
      else if arg = ''-all'' then o1\<lparr>TypeMask := 4096 - 1\<rparr>
      else o1)"

definition parse_keys :: "string \<Rightarrow> options \<Rightarrow> options" where
  "parse_keys arg o1 =
     (if arg = ''-32'' then o1\<lparr>FlagMask := FlagMask o1 OR 0x1000\<rparr>
      else if arg = ''-fix'' then o1\<lparr>FlagMask := FlagMask o1 OR 0x2000\<rparr>
      else if arg = ''-seq'' then o1\<lparr>TypeSequential := 1\<rparr>
      else if arg = ''-rseq'' then o1\<lparr>TypeSequential := 2\<rparr>
      else if arg = ''-mseq'' then o1\<lparr>TypeSequential := 3\<rparr>
      else if arg = ''-shuffle'' then o1\<lparr>bShuffle := True\<rparr>
      else o1)"

definition parse_test :: "string \<Rightarrow> options \<Rightarrow> options" where
  "parse_test arg o1 =
     (if arg = ''-unique'' then set_flag 0x1000000000000000 o1
      else if arg = ''-rmax'' then set_flag 0x0100000000000000 o1
      else if arg = ''-rmin'' then set_flag 0x0010000000000000 o1
      else if arg = ''-ravg'' then set_flag 0x0001000000000000 o1
      else if arg = ''-reuse'' then set_flag 0x0000100000000000 o1
      else if arg = ''-test2'' then set_flag 0x0000010000000000 o1
      else if arg = ''-test3'' then set_flag 0x0000001000000000 o1
      else if arg = ''-test4'' then set_flag 0x0000000100000000 o1
      else if arg = ''-test5'' then set_flag 0x0000000010000000 o1
      else o1)"

text \<open>One turn of the loop. The strings of the three groups that end with \<open>continue\<close> are different, so
  that the later tests do nothing after an earlier one has succeeded.\<close>

definition parse_arg :: "string \<Rightarrow> options \<Rightarrow> options" where
  "parse_arg arg o1 = parse_test arg (parse_keys arg (parse_type arg (parse_presult arg (parse_hash arg (parse_mode arg o1)))))"

text \<open>The loop, and the default hash after it.\<close>

definition parse_options :: "string list \<Rightarrow> options" where
  "parse_options argv =
     (let o1 = fold parse_arg argv default_options
      in if opt_flags o1 AND 0xFF = 0 then set_flag 4 o1 else o1)"

definition python_data_mode :: "options \<Rightarrow> string run" where
  "python_data_mode o1 =
     run_bind
       (if TypeSequential o1 = 0 then ret ''rnd''
        else if TypeSequential o1 = 1 then ret ''seq''
        else if TypeSequential o1 = 2 then ret ''rseq''
        else if TypeSequential o1 = 3 then ret ''mseq''
        else abort Bench_assert) (\<lambda>m.
     ret (if bShuffle o1 then m @ ''/shuffle'' else m))"

section \<open>What the options can be\<close>

lemma parse_fields [simp]:
  "FlagMask (parse_mode a o1) = FlagMask o1" "FlagMask (parse_hash a o1) = FlagMask o1"
  "FlagMask (parse_presult a o1) = FlagMask o1" "FlagMask (parse_type a o1) = FlagMask o1"
  "FlagMask (parse_test a o1) = FlagMask o1"
  "TypeSequential (parse_mode a o1) = TypeSequential o1" "TypeSequential (parse_hash a o1) = TypeSequential o1"
  "TypeSequential (parse_presult a o1) = TypeSequential o1" "TypeSequential (parse_type a o1) = TypeSequential o1"
  "TypeSequential (parse_test a o1) = TypeSequential o1"
  "TypeMask (parse_mode a o1) = TypeMask o1" "TypeMask (parse_hash a o1) = TypeMask o1"
  "TypeMask (parse_presult a o1) = TypeMask o1" "TypeMask (parse_keys a o1) = TypeMask o1"
  "TypeMask (parse_test a o1) = TypeMask o1"
  by (simp_all add: parse_mode_def parse_hash_def parse_presult_def parse_type_def parse_keys_def
      parse_test_def set_flag_def set_type_def Let_def)

definition options_ok :: "options \<Rightarrow> bool" where
  "options_ok o1 \<longleftrightarrow> FlagMask o1 \<in> {0, 0x1000, 0x2000, 0x3000} \<and> TypeSequential o1 \<in> {0, 1, 2, 3}
     \<and> TypeMask o1 AND 0xFFFFF000 = 0"

lemma parse_keys_flags:
  assumes "FlagMask o1 \<in> {0, 0x1000, 0x2000, 0x3000}"
  shows "FlagMask (parse_keys a o1) \<in> {0, 0x1000, 0x2000, 0x3000}"
  using assms by (elim insertE) (simp_all add: parse_keys_def)

lemma parse_keys_sequential:
  "TypeSequential o1 \<in> {0, 1, 2, 3} \<Longrightarrow> TypeSequential (parse_keys a o1) \<in> {0, 1, 2, 3}"
  by (simp add: parse_keys_def)

lemma or_outside: "(x OR y) AND m = 0 \<longleftrightarrow> x AND m = 0 \<and> y AND m = 0" for x y m :: "'a::len word"
  by (auto simp: bit_eq_iff bit_simps)

lemma parse_type_mask:
  "TypeMask o1 AND 0xFFFFF000 = 0 \<Longrightarrow> TypeMask (parse_type a o1) AND 0xFFFFF000 = 0"
  by (simp add: parse_type_def set_type_def or_outside)

lemma parse_arg_ok: "options_ok o1 \<Longrightarrow> options_ok (parse_arg a o1)"
  unfolding options_ok_def parse_arg_def parse_fields
  by (intro conjI parse_keys_flags parse_keys_sequential parse_type_mask) (simp_all only: parse_fields)

lemma parse_options_ok: "options_ok (parse_options argv)"
proof -
  have "options_ok o1 \<Longrightarrow> options_ok (fold parse_arg argv o1)" for o1
    by (induction argv arbitrary: o1) (auto intro: parse_arg_ok)
  then have "options_ok (fold parse_arg argv default_options)"
    by (simp add: options_ok_def default_options_def)
  then show ?thesis by (simp add: parse_options_def options_ok_def set_flag_def Let_def)
qed

end
