(* ===== verification/MainProgram.thy ===== *)
theory MainProgram
  imports Arguments
begin

text \<open>
  \<^verbatim>\<open>main\<close> of \<^verbatim>\<open>Application.cpp\<close>: the commands, the loads of the benchmarks
  and the choice of the table classes. What the commands call is a parameter, a record of functions that
  change the state of the program; the other theories model them.
\<close>

record 's callees =
  call_GenerateDataSet :: "u64 \<Rightarrow> 's \<Rightarrow> 's run"
  call_GetDataSet :: "u32 \<Rightarrow> bool \<Rightarrow> 's \<Rightarrow> (u64 \<times> 's) run"   \<comment> \<open>also gives \<open>data_set.size()\<close>\<close>
  call_TEST :: "key_type \<Rightarrow> 's \<Rightarrow> 's run"
  call_TEST1 :: "bool \<Rightarrow> 's \<Rightarrow> 's run"
  call_Bench :: "'s bench"

definition cmds :: "string list" where
  "cmds = [''help'', ''run'', ''rnd'', ''selftest'', ''selftest1'']"

definition vector_data_set_size :: "int list" where
  "vector_data_set_size = [32, 64, 128, 256]"

section \<open>The command and the sizes\<close>

definition command :: "string list \<Rightarrow> string" where
  "command argv =
     (let arg = (if length argv > 1 then argv ! 1 else cmds ! 0) in if arg \<in> set cmds then arg else cmds ! 0)"

definition table_size :: "string list \<Rightarrow> int option" where
  "table_size argv =
     (let n = (if length argv < 3 then 128 else atoi (argv ! 2))
      in if n \<in> set vector_data_set_size then Some n else None)"

definition shows_help :: "string \<Rightarrow> options \<Rightarrow> bool" where
  "shows_help cmd o1 \<longleftrightarrow> cmd = ''help''
     \<or> (TypeMask o1 = 0 \<and> cmd \<noteq> ''rnd'' \<and> \<not> contains_string cmd ''selftest'')"

text \<open>The size that \<open>rnd\<close> generates, an \<open>int\<close> converted to \<open>uint64_t\<close>.\<close>

definition rnd_size :: "string list \<Rightarrow> u64" where
  "rnd_size argv =
     of_int (case table_size argv of None \<Rightarrow> 128 * 1024 * 1024 | Some n \<Rightarrow> n * 1024 * 1024)"

definition no_dash :: "string \<Rightarrow> bool" where
  "no_dash s \<longleftrightarrow> take 1 s \<noteq> ''-''"

text \<open>The largest load in millions, the first load and the step.\<close>

definition max_millions :: "string list \<Rightarrow> u64 \<Rightarrow> u64" where
  "max_millions argv data_set_size =
     (let m = (data_set_size - test_vector_size) div 1024 div 1024
      in if length argv > 2 \<and> no_dash (argv ! 2) \<and> atoi (argv ! 2) \<ge> 1 \<and> of_int (atoi (argv ! 2)) \<le> m
         then of_int (atoi (argv ! 2)) else m)"

definition start_load :: "string list \<Rightarrow> u64 \<Rightarrow> u64" where
  "start_load argv m =
     (if length argv > 3 \<and> no_dash (argv ! 3) \<and> atof (argv ! 3) > 0 \<and> of_int (atoi (argv ! 3)) \<le> m
      then trunc_u64 (to_double (atof (argv ! 3) * 1000000)) else 1000000)"

definition step_load :: "string list \<Rightarrow> u64" where
  "step_load argv =
     (if length argv > 4 \<and> no_dash (argv ! 4) \<and> atof (argv ! 4) > 0 \<and> atof (argv ! 4) \<le> 10
      then trunc_u64 (to_double (atof (argv ! 4) * 1000000)) else 1000000)"

definition main_args :: "string list \<Rightarrow> options \<Rightarrow> u64 \<Rightarrow> bench_args" where
  "main_args argv o1 data_set_size =
     (let m = max_millions argv data_set_size
      in \<lparr>BenchFlags = opt_flags o1, startLoad = start_load argv m, maxLoad = m * 1000000,
          stepLoad = step_load argv\<rparr>)"

section \<open>The table classes\<close>

definition dispatch_Map :: "'s bench \<Rightarrow> mode \<Rightarrow> bool \<Rightarrow> bench_args \<Rightarrow> 's \<Rightarrow> 's run" where
  "dispatch_Map bench m bFix a =
     (case m of
        FastDivMod \<Rightarrow> BenchSimdHashMap bench Key64 FastDivMod bFix a
      | SaveMemoryFast \<Rightarrow> BenchSimdHashMap bench Key64 SaveMemoryFast bFix a
      | SaveMemoryOpt \<Rightarrow> BenchSimdHashMap bench Key64 SaveMemoryOpt bFix a
      | SaveMemoryMax \<Rightarrow> BenchSimdHashMap bench Key64 SaveMemoryMax bFix a
      | _ \<Rightarrow> BenchSimdHashMap bench Key64 Fast bFix a)"

definition dispatch :: "'s bench \<Rightarrow> mode \<Rightarrow> bench_args \<Rightarrow> u32 \<Rightarrow> 's \<Rightarrow> 's run" where
  "dispatch bench m a v =
     (if v = 0x0001 then dispatch_Map bench m False a
      else if v = 0x2001 then dispatch_Map bench m True a
      else if v = 0x1001 then BenchSimdHashMap bench Key32 Fast False a
      else if v = 0x3001 then BenchSimdHashMap bench Key32 Fast True a
      else if v = 0x0002 then BenchSimdHashIndex bench Key64 False a
      else if v = 0x2002 then BenchSimdHashIndex bench Key64 True a
      else if v = 0x1002 then BenchSimdHashIndex bench Key32 False a
      else if v = 0x3002 then BenchSimdHashIndex bench Key32 True a
      else if v = 0x0004 then BenchSimdHashSet bench Key64 False a
      else if v = 0x2004 then BenchSimdHashSet bench Key64 True a
      else if v = 0x1004 then BenchSimdHashSet bench Key32 False a
      else if v = 0x3004 then BenchSimdHashSet bench Key32 True a
      else if v = 0x0008 \<or> v = 0x2008 then BenchTslRobinMap bench Key64 a
      else if v = 0x1008 \<or> v = 0x3008 then BenchTslRobinMap bench Key32 a
      else if v = 0x0010 \<or> v = 0x2010 then BenchAbslFlatHashMap bench Key64 a
      else if v = 0x1010 \<or> v = 0x3010 then BenchAbslFlatHashMap bench Key32 a
      else if v = 0x0020 \<or> v = 0x2020 then BenchEm7HashMap bench Key64 a
      else if v = 0x1020 \<or> v = 0x3020 then BenchEm7HashMap bench Key32 a
      else if v = 0x0040 \<or> v = 0x2040 then BenchAnkerlHashMap bench Key64 a
      else if v = 0x1040 \<or> v = 0x3040 then BenchAnkerlHashMap bench Key32 a
      else if v = 0x0080 \<or> v = 0x2080 then BenchEm8HashMap bench Key64 a
      else if v = 0x1080 \<or> v = 0x3080 then BenchEm8HashMap bench Key32 a
      else if v = 0x0800 \<or> v = 0x2800 then BenchSimdHashMap bench Key64 Fast True a
      else if v = 0x1800 \<or> v = 0x3800 then BenchSimdHashMap bench Key32 Fast True a
      else ret)"

text \<open>\<open>for (uint32_t iType = 1; iType <= 4096; iType <<= 1)\<close>\<close>

definition bench_loop :: "'s bench \<Rightarrow> options \<Rightarrow> bench_args \<Rightarrow> 's \<Rightarrow> 's run" where
  "bench_loop bench o1 a =
     run_fold (\<lambda>iType s.
         if iType AND TypeMask o1 = 0 then ret s
         else dispatch bench (SimdHashMemoryMode o1) a ((iType AND TypeMask o1) OR FlagMask o1) s)
       (map (\<lambda>i. push_bit i 1) [0..<13])"

definition main :: "'s callees \<Rightarrow> string list \<Rightarrow> 's \<Rightarrow> 's run" where
  "main env argv s =
     (let cmd = command argv; o1 = parse_options argv in
      run_bind (python_data_mode o1) (\<lambda>_.
        if shows_help cmd o1 then ret s
        else if cmd = ''rnd'' then call_GenerateDataSet env (rnd_size argv) s
        else if cmd = ''selftest'' then run_bind (call_TEST env Key64 s) (call_TEST env Key32)
        else
          run_bind (call_GetDataSet env (TypeSequential o1) (bShuffle o1) s) (\<lambda>(data_set_size, s).
            if cmd = ''selftest1'' then call_TEST1 env (FlagMask o1 AND 0x2000 \<noteq> 0) s
            else bench_loop (call_Bench env) o1 (main_args argv o1 data_set_size) s)))"

section \<open>The objects that are run\<close>

definition opt_key :: "options \<Rightarrow> key_type" where
  "opt_key o1 = (if FlagMask o1 AND 0x1000 = 0 then Key64 else Key32)"

definition opt_fix :: "options \<Rightarrow> bool" where
  "opt_fix o1 \<longleftrightarrow> FlagMask o1 AND 0x2000 \<noteq> 0"

definition map_mode :: "options \<Rightarrow> mode" where
  "map_mode o1 = (if opt_key o1 = Key32 \<or> SimdHashMemoryMode o1 = ResizeOnlyEmpty then Fast
     else SimdHashMemoryMode o1)"

text \<open>The classes by their bits.\<close>

definition class_table :: "options \<Rightarrow> (u32 \<times> (hash_fn \<Rightarrow> object_type)) list" where
  "class_table o1 = (let k = opt_key o1; fx = opt_fix o1 in
     [(1, \<lambda>h. Simd_Map k h (map_mode o1) fx), (2, \<lambda>h. Simd_Index k h Fast fx), (4, \<lambda>h. Simd_Set k h Fast fx),
      (8, Robin_map k), (16, Absl_map k), (32, Em7_map k), (64, Ankerl_map k), (128, Em8_map k),
      (2048, \<lambda>h. Simd_Map k h Fast True)])"

definition selected_objects :: "options \<Rightarrow> object_type list" where
  "selected_objects o1 =
     concat (map (\<lambda>(t, mk). if TypeMask o1 AND t = 0 then [] else map mk (chosen_hashes (opt_flags o1)))
       (class_table o1))"

lemma flag_mask_cases:
  assumes "options_ok o1"
  obtains "FlagMask o1 = 0" "opt_key o1 = Key64" "\<not> opt_fix o1"
  | "FlagMask o1 = 0x1000" "opt_key o1 = Key32" "\<not> opt_fix o1"
  | "FlagMask o1 = 0x2000" "opt_key o1 = Key64" "opt_fix o1"
  | "FlagMask o1 = 0x3000" "opt_key o1 = Key32" "opt_fix o1"
  using assms by (auto simp: options_ok_def opt_key_def opt_fix_def)

lemma single_bit_and: "push_bit i (1 :: 'a::len word) AND m = (if bit m i then push_bit i 1 else 0)"
  by (rule bit_word_eqI) (auto simp: bit_simps)

text \<open>One turn of the loop runs the objects of the classes with its bit.\<close>

definition turn :: "'s bench \<Rightarrow> options \<Rightarrow> bench_args \<Rightarrow> u32 \<Rightarrow> 's \<Rightarrow> 's run" where
  "turn bench o1 a v = (if v AND TypeMask o1 = 0 then ret
     else dispatch bench (SimdHashMemoryMode o1) a ((v AND TypeMask o1) OR FlagMask o1))"

lemma dispatch_Map_objects:
  "dispatch_Map bench m fx a = BenchSimdHashMap bench Key64 (if m = ResizeOnlyEmpty then Fast else m) fx a"
  by (cases m) (simp_all add: dispatch_Map_def)

lemma dispatch_values:
  "dispatch bench m a 1 = dispatch_Map bench m False a"
  "dispatch bench m a 4097 = BenchSimdHashMap bench Key32 Fast False a"
  "dispatch bench m a 8193 = dispatch_Map bench m True a"
  "dispatch bench m a 12289 = BenchSimdHashMap bench Key32 Fast True a"
  "dispatch bench m a 2 = BenchSimdHashIndex bench Key64 False a"
  "dispatch bench m a 4098 = BenchSimdHashIndex bench Key32 False a"
  "dispatch bench m a 8194 = BenchSimdHashIndex bench Key64 True a"
  "dispatch bench m a 12290 = BenchSimdHashIndex bench Key32 True a"
  "dispatch bench m a 4 = BenchSimdHashSet bench Key64 False a"
  "dispatch bench m a 4100 = BenchSimdHashSet bench Key32 False a"
  "dispatch bench m a 8196 = BenchSimdHashSet bench Key64 True a"
  "dispatch bench m a 12292 = BenchSimdHashSet bench Key32 True a"
  "dispatch bench m a 8 = BenchTslRobinMap bench Key64 a"
  "dispatch bench m a 4104 = BenchTslRobinMap bench Key32 a"
  "dispatch bench m a 8200 = BenchTslRobinMap bench Key64 a"
  "dispatch bench m a 12296 = BenchTslRobinMap bench Key32 a"
  "dispatch bench m a 16 = BenchAbslFlatHashMap bench Key64 a"
  "dispatch bench m a 4112 = BenchAbslFlatHashMap bench Key32 a"
  "dispatch bench m a 8208 = BenchAbslFlatHashMap bench Key64 a"
  "dispatch bench m a 12304 = BenchAbslFlatHashMap bench Key32 a"
  "dispatch bench m a 32 = BenchEm7HashMap bench Key64 a"
  "dispatch bench m a 4128 = BenchEm7HashMap bench Key32 a"
  "dispatch bench m a 8224 = BenchEm7HashMap bench Key64 a"
  "dispatch bench m a 12320 = BenchEm7HashMap bench Key32 a"
  "dispatch bench m a 64 = BenchAnkerlHashMap bench Key64 a"
  "dispatch bench m a 4160 = BenchAnkerlHashMap bench Key32 a"
  "dispatch bench m a 8256 = BenchAnkerlHashMap bench Key64 a"
  "dispatch bench m a 12352 = BenchAnkerlHashMap bench Key32 a"
  "dispatch bench m a 128 = BenchEm8HashMap bench Key64 a"
  "dispatch bench m a 4224 = BenchEm8HashMap bench Key32 a"
  "dispatch bench m a 8320 = BenchEm8HashMap bench Key64 a"
  "dispatch bench m a 12416 = BenchEm8HashMap bench Key32 a"
  "dispatch bench m a 2048 = BenchSimdHashMap bench Key64 Fast True a"
  "dispatch bench m a 6144 = BenchSimdHashMap bench Key32 Fast True a"
  "dispatch bench m a 10240 = BenchSimdHashMap bench Key64 Fast True a"
  "dispatch bench m a 14336 = BenchSimdHashMap bench Key32 Fast True a"
  "dispatch bench m a 256 = ret"
  "dispatch bench m a 4352 = ret"
  "dispatch bench m a 8448 = ret"
  "dispatch bench m a 12544 = ret"
  "dispatch bench m a 512 = ret"
  "dispatch bench m a 4608 = ret"
  "dispatch bench m a 8704 = ret"
  "dispatch bench m a 12800 = ret"
  "dispatch bench m a 1024 = ret"
  "dispatch bench m a 5120 = ret"
  "dispatch bench m a 9216 = ret"
  "dispatch bench m a 13312 = ret"
  by (simp_all add: dispatch_def)

lemma single_bits:
  "1 AND m = (if bit m 0 then 1 else 0)" "2 AND m = (if bit m 1 then 2 else 0)"
  "4 AND m = (if bit m 2 then 4 else 0)" "8 AND m = (if bit m 3 then 8 else 0)"
  "16 AND m = (if bit m 4 then 16 else 0)" "32 AND m = (if bit m 5 then 32 else 0)"
  "64 AND m = (if bit m 6 then 64 else 0)" "128 AND m = (if bit m 7 then 128 else 0)"
  "256 AND m = (if bit m 8 then 256 else 0)" "512 AND m = (if bit m 9 then 512 else 0)"
  "1024 AND m = (if bit m 10 then 1024 else 0)" "2048 AND m = (if bit m 11 then 2048 else 0)"
  "4096 AND m = (if bit m 12 then 4096 else 0)" for m :: u32
  using single_bit_and[of 0 m] single_bit_and[of 1 m] single_bit_and[of 2 m] single_bit_and[of 3 m]
    single_bit_and[of 4 m] single_bit_and[of 5 m] single_bit_and[of 6 m] single_bit_and[of 7 m]
    single_bit_and[of 8 m] single_bit_and[of 9 m] single_bit_and[of 10 m] single_bit_and[of 11 m]
    single_bit_and[of 12 m]
  by (simp_all add: push_bit_of_1)

lemma turn_bit:
  assumes t: "t \<in> {1, 2, 4, 8, 16, 32, 64, 128, 256, 512, 1024, 2048}"
    and d: "dispatch bench (SimdHashMemoryMode o1) a (t OR FlagMask o1) = r"
  shows "turn bench o1 a t = (if TypeMask o1 AND t = 0 then ret else r)"
proof -
  have "t AND TypeMask o1 = t \<or> t AND TypeMask o1 = 0" using t by (elim insertE) (simp_all add: single_bits)
  then show ?thesis using d by (auto simp: turn_def and.commute[of "TypeMask o1"])
qed

lemma dispatch_class:
  assumes ok: "options_ok o1" and fl: "BenchFlags a = opt_flags o1"
  shows "\<forall>(t, mk) \<in> set (class_table o1). dispatch bench (SimdHashMemoryMode o1) a (t OR FlagMask o1)
      = run_objects bench a (map mk (chosen_hashes (opt_flags o1)))"
    "dispatch bench (SimdHashMemoryMode o1) a (256 OR FlagMask o1) = ret"
    "dispatch bench (SimdHashMemoryMode o1) a (512 OR FlagMask o1) = ret"
    "dispatch bench (SimdHashMemoryMode o1) a (1024 OR FlagMask o1) = ret"
  by (cases rule: flag_mask_cases[OF ok];
      simp add: class_table_def Let_def dispatch_values dispatch_Map_objects Bench_objects fl map_mode_def)+

lemma turn_objects:
  assumes ok: "options_ok o1" and fl: "BenchFlags a = opt_flags o1"
  shows "\<forall>(t, mk) \<in> set (class_table o1). turn bench o1 a t
      = run_objects bench a (if TypeMask o1 AND t = 0 then [] else map mk (chosen_hashes (opt_flags o1)))"
    "turn bench o1 a 256 = ret" "turn bench o1 a 512 = ret" "turn bench o1 a 1024 = ret" "turn bench o1 a 4096 = ret"
proof -
  have nil: "run_objects bench a [] = ret" by (simp add: run_objects_def run_fold_fun)
  have tb: "\<not> bit (TypeMask o1) 12"
  proof
    assume "bit (TypeMask o1) 12"
    then have "bit (TypeMask o1 AND 0xFFFFF000) 12" by (simp add: bit_and_iff bit_numeral_rec)
    then show False using ok by (simp add: options_ok_def)
  qed
  show "turn bench o1 a 4096 = ret" using tb by (simp add: turn_def single_bits)
  note D = dispatch_class[OF ok fl, of bench]
  show "turn bench o1 a 256 = ret" using turn_bit[OF _ D(2)] by simp
  show "turn bench o1 a 512 = ret" using turn_bit[OF _ D(3)] by simp
  show "turn bench o1 a 1024 = ret" using turn_bit[OF _ D(4)] by simp
  show "\<forall>(t, mk) \<in> set (class_table o1). turn bench o1 a t
      = run_objects bench a (if TypeMask o1 AND t = 0 then [] else map mk (chosen_hashes (opt_flags o1)))"
  proof (intro ballI case_prodI2)
    fix t mk x assume x: "x \<in> set (class_table o1)" "x = (t, mk)"
    then have t: "t \<in> {1, 2, 4, 8, 16, 32, 64, 128, 256, 512, 1024, 2048}"
      by (auto simp: class_table_def Let_def)
    have "dispatch bench (SimdHashMemoryMode o1) a (t OR FlagMask o1)
        = run_objects bench a (map mk (chosen_hashes (opt_flags o1)))" using D(1) x by auto
    from turn_bit[OF t this] show "turn bench o1 a t
      = run_objects bench a (if TypeMask o1 AND t = 0 then [] else map mk (chosen_hashes (opt_flags o1)))"
      by (simp only: nil split: if_split) simp
  qed
qed

lemma bench_loop_objects:
  assumes ok: "options_ok o1" and fl: "BenchFlags a = opt_flags o1"
  shows "bench_loop bench o1 a = run_objects bench a (selected_objects o1)"
proof -
  have app: "run_objects bench a (xs @ ys) = (\<lambda>s. run_bind (run_objects bench a xs s) (run_objects bench a ys))" for xs ys
    by (rule ext) (rule run_objects_append)
  have list: "map (\<lambda>i. push_bit i (1 :: u32)) [0..<13] = [1, 2, 4, 8, 16, 32, 64, 128, 256, 512, 1024, 2048, 4096]"
    by (simp add: upt_rec push_bit_of_1)
  have t: "bench_loop bench o1 a = run_fold (turn bench o1 a) [1, 2, 4, 8, 16, 32, 64, 128, 256, 512, 1024, 2048, 4096]"
    unfolding bench_loop_def list by (rule arg_cong[where f = "\<lambda>f. run_fold f _"]) (auto simp: turn_def fun_eq_iff)
  note T = turn_objects[OF ok fl, of bench]
  have "\<forall>(t, mk) \<in> set (class_table o1). turn bench o1 a t
      = run_objects bench a (if TypeMask o1 AND t = 0 then [] else map mk (chosen_hashes (opt_flags o1)))" by (rule T(1))
  then show ?thesis unfolding t selected_objects_def
    by (simp add: class_table_def Let_def app run_fold_fun T(2-5) run_bind_assoc
        del: run_fold.simps)
qed

end
