(* ===== verification/DataSet.thy ===== *)
theory DataSet
  imports MainProgram
begin

text \<open>
  \<^verbatim>\<open>DataSet.cpp\<close>: the file of random numbers, how it is generated and how it is read. A file
  is the list of its 8-byte words. The random number engine and its distribution are an argument \<open>draw\<close>
  that gives a number and the next state of the engine, \<open>std::shuffle\<close> with its seeded engine a function
  of lists, and the sets of the Judy library, which is not part of the sources, an argument \<open>J1S\<close>.
\<close>

section \<open>Reading\<close>

definition read_buffer_size :: nat where "read_buffer_size = 128 * 1024 div 8"

text \<open>\<open>inFile.read\<close> into the vector at index \<open>i\<close>: the words that are left are written, and a short read
  fails.\<close>

definition read_chunk :: "nat \<Rightarrow> u64 list \<times> u64 list \<Rightarrow> (u64 list \<times> u64 list) run" where
  "read_chunk i = (\<lambda>(data_set, stream).
     let words = take read_buffer_size stream in
     if i + length words > length data_set then abort Out_of_bounds
     else if length words < read_buffer_size then abort Exit_failure
     else ret (take i data_set @ words @ drop (i + length words) data_set, drop read_buffer_size stream))"

text \<open>\<open>for (i = 0; i < data_set_size; i += bufferSize)\<close>\<close>

definition read_file :: "u64 list \<Rightarrow> u64 list \<Rightarrow> u64 list run" where
  "read_file data_set stream =
     run_bind (run_fold (\<lambda>k. read_chunk (k * read_buffer_size))
         [0..<(length data_set + read_buffer_size - 1) div read_buffer_size] (data_set, stream))
       (\<lambda>(data_set, _). ret data_set)"

definition iota :: "u64 \<Rightarrow> nat \<Rightarrow> u64 list" where
  "iota start n = map (\<lambda>i. start + of_nat i) [0..<n]"

definition generate_down :: "u64 \<Rightarrow> nat \<Rightarrow> u64 list" where
  "generate_down start n = map (\<lambda>i. start - of_nat i) [0..<n]"

definition sequential_set :: "u32 \<Rightarrow> u64 \<Rightarrow> u64 list" where
  "sequential_set ts data_set_size =
     (let n = unat data_set_size in
      if ts = 2 then generate_down (- 1) n
      else if ts = 3 then iota ((- 1) div 2 - data_set_size div 2 - 1) n
      else iota 0 n)"

definition resize :: "nat \<Rightarrow> u64 list \<Rightarrow> u64 list" where
  "resize n xs = take n xs @ replicate (n - length xs) 0"

definition size_accepted :: "u64 \<Rightarrow> bool" where
  "size_accepted data_set_size \<longleftrightarrow>
     (data_set_size - 1024 * 1024 * 2) div 1024 div 1024 \<in> set (map of_int vector_data_set_size)
     \<and> (data_set_size - 1024 * 1024) mod 1024 = 0"

text \<open>An empty file leaves \<open>data_set_size\<close> as it was, some \<open>junk\<close>.\<close>

definition GetDataSet ::
    "(u64 list \<Rightarrow> u64 list) \<Rightarrow> u64 \<Rightarrow> u64 list option \<Rightarrow> u32 \<Rightarrow> bool \<Rightarrow> u64 list \<Rightarrow> u64 list run" where
  "GetDataSet shuffle junk file ts shuffled data_set =
     (case file of
        None \<Rightarrow> abort Exit_failure
      | Some ws \<Rightarrow>
          let data_set_size = (case ws of [] \<Rightarrow> junk | w # _ \<Rightarrow> w) in
          if \<not> size_accepted data_set_size then abort Exit_failure
          else
            let data_set = resize (unat data_set_size) data_set in
            run_bind
              (if ts > 0 then ret (sequential_set ts data_set_size)
               else read_file data_set (drop 1 ws)) (\<lambda>data_set.
            ret (if shuffled then shuffle data_set else data_set)))"

section \<open>Generating\<close>

definition judyMask :: u64 where "judyMask = 0x00000000FFFFFFFF"

text \<open>The \<open>while\<close> loop. The result is what has been written and what is left in the buffer, whose capacity
  is \<open>capacity\<close>.\<close>

partial_function (option) generate_loop ::
    "('g \<Rightarrow> u64 \<times> 'g) \<Rightarrow> (u64 \<Rightarrow> 'j \<Rightarrow> int \<times> 'j) \<Rightarrow> nat \<Rightarrow> u64 \<Rightarrow> u32 \<Rightarrow> u64 list \<Rightarrow> u64 list \<Rightarrow> 'j \<Rightarrow> 'g \<Rightarrow>
     (u64 list \<times> u64 list) option" where
  "generate_loop draw J1S capacity data_set_size cnt buffer out jarray g =
     (if ucast cnt < data_set_size then
        let rnd = fst (draw g); g = snd (draw g);
            rc = fst (J1S (rnd AND judyMask) jarray); jarray = snd (J1S (rnd AND judyMask) jarray)
        in if rc \<noteq> 1 then generate_loop draw J1S capacity data_set_size cnt buffer out jarray g
           else
             let rc = fst (J1S (drop_bit 32 rnd) jarray); jarray = snd (J1S (drop_bit 32 rnd) jarray)
             in if rc \<noteq> 1 then generate_loop draw J1S capacity data_set_size cnt buffer out jarray g
                else
                  let cnt = cnt + 1; buffer = buffer @ [rnd]
                  in if length buffer = capacity
                     then generate_loop draw J1S capacity data_set_size cnt [] (out @ buffer) jarray g
                     else generate_loop draw J1S capacity data_set_size cnt buffer out jarray g
      else Some (out, buffer))"

declare generate_loop.simps [code]

text \<open>The new contents of the file, or the old ones when it cannot be opened.\<close>

definition GenerateDataSet ::
    "('g \<Rightarrow> u64 \<times> 'g) \<Rightarrow> (u64 \<Rightarrow> 'j \<Rightarrow> int \<times> 'j) \<Rightarrow> 'j \<Rightarrow> nat \<Rightarrow> bool \<Rightarrow> u64 \<Rightarrow> 'g \<Rightarrow> u64 list option \<Rightarrow>
     u64 list option option" where
  "GenerateDataSet draw J1S jempty capacity is_open data_set_size g file =
     (let data_set_size = data_set_size + 1024 * 1024 * 2 in
      if \<not> is_open then Some file
      else map_option (\<lambda>(out, buffer). Some (out @ buffer))
             (generate_loop draw J1S capacity data_set_size 0 [data_set_size] [] jempty g))"

section \<open>The numbers that are accepted\<close>

text \<open>Of a list of draws, those whose halves are both new.\<close>

fun accepted :: "u64 list \<Rightarrow> u64 set \<Rightarrow> u64 list" where
  "accepted [] S = []"
| "accepted (x # xs) S =
     (if x AND judyMask \<in> S then accepted xs S
      else if drop_bit 32 x \<in> insert (x AND judyMask) S then accepted xs (insert (x AND judyMask) S)
      else x # accepted xs (insert (drop_bit 32 x) (insert (x AND judyMask) S)))"

text \<open>The first draws of an engine in the state \<open>g\<close>.\<close>

fun draws :: "('g \<Rightarrow> u64 \<times> 'g) \<Rightarrow> nat \<Rightarrow> 'g \<Rightarrow> u64 list" where
  "draws draw 0 g = []"
| "draws draw (Suc n) g = fst (draw g) # draws draw n (snd (draw g))"

text \<open>What the documentation of \<open>Judy1Set\<close> promises: 1 for a new index and 0 for one that is set.\<close>

definition judy_ok :: "(u64 \<Rightarrow> 'j \<Rightarrow> int \<times> 'j) \<Rightarrow> ('j \<Rightarrow> u64 set) \<Rightarrow> bool" where
  "judy_ok J1S members \<longleftrightarrow> (\<forall>x j. fst (J1S x j) = (if x \<in> members j then 0 else 1)
     \<and> members (snd (J1S x j)) = insert x (members j))"

lemma accepted_distinct:
  "distinct (map (\<lambda>x. x AND judyMask) (accepted xs S)) \<and> (\<lambda>x. x AND judyMask) ` set (accepted xs S) \<inter> S = {}"
proof (induction xs S rule: accepted.induct)
  case (2 x xs S)
  then show ?case by (auto split: if_splits)
qed simp

lemma unat_Suc_u32: "unat cnt < 2 ^ 32 - 1 \<Longrightarrow> unat (cnt + 1) = unat cnt + 1" for cnt :: u32
  by (simp add: unat_word_ariths)

lemma generate_loop_accepts:
  assumes judy: "judy_ok J1S members" and cap: "0 < capacity" and small: "unat sz < 2 ^ 32"
  shows "unat cnt + length (accepted (draws draw n g) (members j)) \<ge> unat sz \<Longrightarrow> unat cnt \<le> unat sz \<Longrightarrow>
    length buffer < capacity \<Longrightarrow>
    \<exists>out' buffer'. generate_loop draw J1S capacity sz cnt buffer out j g = Some (out', buffer')
      \<and> out' @ buffer' = out @ buffer @ take (unat sz - unat cnt) (accepted (draws draw n g) (members j))"
proof (induction n arbitrary: cnt buffer out j g)
  case 0
  then have "\<not> (ucast cnt :: u64) < sz" by (simp add: word_less_nat_alt)
  then show ?case using 0 by (subst generate_loop.simps) simp
next
  case (Suc n)
  let ?x = "fst (draw g)" and ?g = "snd (draw g)"
  let ?lo = "?x AND judyMask" and ?hi = "drop_bit 32 ?x"
  let ?j = "snd (J1S ?lo j)" and ?j2 = "snd (J1S ?hi (snd (J1S ?lo j)))"
  have rc: "fst (J1S x j) = (if x \<in> members j then 0 else 1)" "members (snd (J1S x j)) = insert x (members j)" for x j
    using judy by (auto simp: judy_ok_def)
  have lt: "(ucast cnt :: u64) < sz \<longleftrightarrow> unat cnt < unat sz"
    by (simp add: word_less_nat_alt)
  show ?case
  proof (cases "unat cnt < unat sz")
    case False
    then show ?thesis using Suc.prems(2) lt by (subst generate_loop.simps) simp
  next
    case less: True
    consider "?lo \<in> members j" | "?lo \<notin> members j" "?hi \<in> insert ?lo (members j)"
      | "?lo \<notin> members j" "?hi \<notin> insert ?lo (members j)" by blast
    then show ?thesis
    proof cases
      case 1
      then have "members ?j = members j" by (simp add: rc insert_absorb)
      moreover have "generate_loop draw J1S capacity sz cnt buffer out j g
          = generate_loop draw J1S capacity sz cnt buffer out ?j ?g"
        using 1 less lt by (subst generate_loop.simps) (simp add: rc(1) Let_def)
      ultimately show ?thesis using Suc.IH[where cnt = cnt and j = ?j and g = ?g] Suc.prems 1 by simp
    next
      case 2
      then have m: "members ?j2 = insert ?lo (members j)" by (auto simp: rc)
      moreover have "generate_loop draw J1S capacity sz cnt buffer out j g
          = generate_loop draw J1S capacity sz cnt buffer out ?j2 ?g"
        using 2 less lt by (subst generate_loop.simps) (auto simp add: rc Let_def)
      ultimately show ?thesis using Suc.IH[where cnt = cnt and j = ?j2 and g = ?g] Suc.prems 2 by simp
    next
      case 3
      have m: "members ?j2 = insert ?hi (insert ?lo (members j))" by (simp add: rc)
      have c1: "unat (cnt + 1) = unat cnt + 1"
        using less small unat_Suc_u32[of cnt] by simp
      let ?full = "Suc (length buffer) = capacity"
      let ?buf = "if ?full then [] else buffer @ [?x]" and ?out = "if ?full then out @ buffer @ [?x] else out"
      have st: "generate_loop draw J1S capacity sz cnt buffer out j g
          = generate_loop draw J1S capacity sz (cnt + 1) ?buf ?out ?j2 ?g"
        using 3 less lt by (subst generate_loop.simps) (simp add: rc Let_def)
      have "length ?buf < capacity" using Suc.prems(3) cap by auto
      moreover have "unat (cnt + 1) \<le> unat sz" using c1 less by simp
      moreover have "unat sz \<le> unat (cnt + 1) + length (accepted (draws draw n ?g) (members ?j2))"
        using Suc.prems(1) 3 c1 by (simp add: m)
      ultimately obtain out' buffer' where r:
        "generate_loop draw J1S capacity sz (cnt + 1) ?buf ?out ?j2 ?g = Some (out', buffer')"
        "out' @ buffer' = ?out @ ?buf @ take (unat sz - unat (cnt + 1)) (accepted (draws draw n ?g) (members ?j2))"
        using Suc.IH by blast
      have "unat sz - unat cnt = Suc (unat sz - unat (cnt + 1))" using c1 less by simp
      then show ?thesis using st r 3 by (auto simp: m)
    qed
  qed
qed

end
