(* ===== verification/DataProps.thy ===== *)
theory DataProps
  imports DataSet
begin

text \<open>
  Properties of the data sets: what is generated is read back, the keys are different even when they are
  cut to 32 bits, and which damaged files overrun the vector.
\<close>

section \<open>Reading\<close>

lemma read_chunk_ok:
  assumes i: "i + read_buffer_size \<le> length data_set" "i + read_buffer_size \<le> length stream"
  shows "read_chunk i (take i stream @ drop i data_set, drop i stream)
    = ret (take (i + read_buffer_size) stream @ drop (i + read_buffer_size) data_set, drop (i + read_buffer_size) stream)"
proof -
  have "take (i + read_buffer_size) stream = take i stream @ take read_buffer_size (drop i stream)"
    by (rule take_add)
  moreover have "length (take read_buffer_size (drop i stream)) = read_buffer_size"
    "length (take i stream @ drop i data_set) = length data_set"
    "take i (take i stream @ drop i data_set) = take i stream"
    "drop (i + read_buffer_size) (take i stream @ drop i data_set) = drop (i + read_buffer_size) data_set"
    using i by (simp_all add: add.commute)
  ultimately show ?thesis using i unfolding read_chunk_def by (simp add: Let_def add.commute del: length_append length_take take_append drop_append)
qed

lemma read_chunks_ok:
  assumes "k * read_buffer_size \<le> length data_set" "k * read_buffer_size \<le> length stream"
  shows "run_fold (\<lambda>k. read_chunk (k * read_buffer_size)) [0..<k] (data_set, stream)
    = ret (take (k * read_buffer_size) stream @ drop (k * read_buffer_size) data_set, drop (k * read_buffer_size) stream)"
  using assms
proof (induction k)
  case (Suc k)
  then have "k * read_buffer_size + read_buffer_size \<le> length data_set"
    "k * read_buffer_size + read_buffer_size \<le> length stream" by simp_all
  from read_chunk_ok[OF this] Suc show ?case by (simp add: run_fold_append add.commute)
qed simp

lemma read_file_ok:
  assumes "length data_set = length stream" "read_buffer_size dvd length stream"
  shows "read_file data_set stream = ret stream"
proof -
  obtain k where k: "length stream = k * read_buffer_size" using assms(2) by (metis dvd_def mult.commute)
  have "(k * read_buffer_size + read_buffer_size - 1) div read_buffer_size = k"
    by (simp add: read_buffer_size_def)
  then show ?thesis using assms(1) read_chunks_ok[of k data_set stream] k by (simp add: read_file_def)
qed

lemma read_file_overrun:
  assumes "\<not> read_buffer_size dvd length data_set"
    and "(length data_set div read_buffer_size + 1) * read_buffer_size \<le> length stream"
  shows "read_file data_set stream = abort Out_of_bounds"
proof -
  let ?B = read_buffer_size and ?n = "length data_set"
  define k where "k = ?n div ?B"
  have m: "0 < ?n mod ?B" "?n mod ?B < ?B"
    using assms(1) by (simp_all add: dvd_eq_mod_eq_0 read_buffer_size_def)
  have n: "?n = k * ?B + ?n mod ?B" by (simp add: k_def)
  have r: "?n < k * ?B + ?B" "k * ?B \<le> ?n" using m n by linarith+
  have "Suc k * ?B \<le> ?n + ?B - 1" "?n + ?B - 1 < Suc (Suc k) * ?B" using m n by simp_all
  then have up: "(?n + ?B - 1) div ?B = Suc k" by (intro div_nat_eqI) (simp_all add: mult.commute)
  have s: "k * ?B + ?B \<le> length stream" using assms(2) by (simp add: k_def)
  have "read_chunk (k * ?B) (take (k * ?B) stream @ drop (k * ?B) data_set, drop (k * ?B) stream) = abort Out_of_bounds"
    using s r by (simp add: read_chunk_def Let_def min_def)
  moreover have "[0..<Suc k] = [0..<k] @ [k]" by simp
  ultimately show ?thesis
    using s read_chunks_ok[OF r(2), of stream] unfolding read_file_def up by (simp add: run_fold_append del: upt_Suc)
qed

lemma read_file_short:
  assumes "read_buffer_size dvd length data_set" "length stream < length data_set"
  shows "read_file data_set stream = abort Exit_failure"
proof -
  let ?B = read_buffer_size
  define k where "k = length stream div ?B"
  have B: "0 < ?B" by (simp add: read_buffer_size_def)
  obtain m where m: "length data_set = m * ?B" using assms(1) by (metis dvd_def mult.commute)
  have up: "(length data_set + ?B - 1) div ?B = m" unfolding m by (simp add: read_buffer_size_def)
  have s: "k * ?B \<le> length stream" "length stream < k * ?B + ?B"
    using B by (simp_all add: k_def dividend_less_div_times add.commute)
  then have "length stream - k * ?B < ?B" by arith
  have "k < m" using s assms(2) m by (metis div_less_iff_less_mult B k_def)
  then have km: "k * ?B + ?B \<le> length data_set" unfolding m using mult_le_mono1[of "Suc k" m ?B] by simp
  have "[0..<m] = [0..<k] @ k # [Suc k..<m]" using \<open>k < m\<close> upt_add_eq_append[of 0 k "m - k"] by (simp add: upt_conv_Cons)
  moreover have "read_chunk (k * ?B) (take (k * ?B) stream @ drop (k * ?B) data_set, drop (k * ?B) stream) = abort Exit_failure"
    using s km \<open>length stream - k * ?B < ?B\<close> by (simp add: read_chunk_def Let_def min_def)
  ultimately show ?thesis
    using s km read_chunks_ok[of k data_set stream] unfolding read_file_def up by (simp add: run_fold_append)
qed

section \<open>Sizes\<close>

lemma dvd_megabytes: "read_buffer_size dvd n * 1048576 + 2097152"
proof -
  have "n * 1048576 + 2097152 = read_buffer_size * (n * 64 + 128)" by (simp add: read_buffer_size_def)
  then show ?thesis by (metis dvd_triv_left)
qed

lemma unat_megabytes:
  assumes "int n \<in> set vector_data_set_size"
  shows "unat (of_nat n * 1024 * 1024 + 1024 * 1024 * 2 :: u64) = n * 1048576 + 2097152"
    "size_accepted (of_nat n * 1024 * 1024 + 1024 * 1024 * 2)"
proof -
  have "n \<in> {32, 64, 128, 256}" using assms by (auto simp: vector_data_set_size_def)
  then show "unat (of_nat n * 1024 * 1024 + 1024 * 1024 * 2 :: u64) = n * 1048576 + 2097152"
    "size_accepted (of_nat n * 1024 * 1024 + 1024 * 1024 * 2)"
    by (auto simp: size_accepted_def vector_data_set_size_def)
qed

lemma length_resize [simp]: "length (resize n xs) = n"
  by (simp add: resize_def)

section \<open>Keys\<close>

lemma judyMask_ucast: "x AND judyMask = ucast (ucast x :: u32)"
proof -
  have m: "judyMask = mask 32" by (simp add: judyMask_def mask_eq_exp_minus_1)
  show ?thesis unfolding m by (rule bit_word_eqI) (auto simp: bit_and_iff bit_ucast_iff bit_mask_iff)
qed

lemma distinct_ucast: "distinct (map (\<lambda>x. x AND judyMask) xs) \<Longrightarrow> distinct (map ucast xs :: u32 list)"
proof -
  have "map (\<lambda>x. x AND judyMask) xs = map ucast (map ucast xs :: u32 list)" by (simp add: judyMask_ucast)
  then show "distinct (map (\<lambda>x. x AND judyMask) xs) \<Longrightarrow> distinct (map ucast xs :: u32 list)"
    by (metis distinct_map)
qed

lemma ucast_add: "(ucast (a + b) :: u32) = ucast a + ucast b" for a b :: u64
proof transfer
  fix a b :: int
  have "take_bit 32 (take_bit 64 a + take_bit 64 b) = take_bit 32 (take_bit 32 (take_bit 64 a) + take_bit 32 (take_bit 64 b))"
    by (rule take_bit_add[symmetric])
  also have "\<dots> = take_bit 32 (a + b)" by (simp add: take_bit_add)
  finally show "take_bit LENGTH(32) (take_bit LENGTH(64) (a + b))
      = take_bit LENGTH(32) (take_bit LENGTH(64) a + take_bit LENGTH(64) b)" by simp
qed

lemma distinct_steps:
  assumes "\<And>i. i < n \<Longrightarrow> f i = (start :: u64) + of_nat i" "n \<le> 2 ^ 32"
  shows "distinct (map (\<lambda>i. ucast (f i) :: u32) [0..<n])"
proof -
  have "i = j" if "i < n" "j < n" "(ucast (f i) :: u32) = ucast (f j)" for i j
  proof -
    have u: "(ucast (of_nat k :: u64) :: u32) = of_nat k" if "k < n" for k
      using that assms(2) by (simp add: unsigned_of_nat take_bit_nat_eq_self)
    have "(ucast start + ucast (of_nat i :: u64) :: u32) = ucast start + ucast (of_nat j :: u64)"
      using that assms(1) by (simp add: ucast_add)
    then have "(of_nat i :: u32) = of_nat j" using that(1,2) by (simp add: u)
    then have "unat (of_nat i :: u32) = unat (of_nat j :: u32)" by simp
    then show ?thesis using that(1,2) assms(2) by (simp add: unat_of_nat)
  qed
  then show ?thesis by (auto simp: distinct_map inj_on_def)
qed

lemma iota_keys: "n \<le> 2 ^ 32 \<Longrightarrow> distinct (map ucast (iota start n) :: u32 list)"
  using distinct_steps[of n "\<lambda>i. start + of_nat i" start] by (simp add: iota_def comp_def)

lemma generate_down_rev: "generate_down start (Suc n) = rev (iota (start - of_nat n) (Suc n))"
  by (intro nth_equalityI) (auto simp: generate_down_def iota_def rev_nth simp del: upt_Suc simp flip: of_nat_Suc)

lemma generate_down_keys: "n \<le> 2 ^ 32 \<Longrightarrow> distinct (map ucast (generate_down start n) :: u32 list)"
proof (cases n)
  case (Suc m)
  then show "n \<le> 2 ^ 32 \<Longrightarrow> ?thesis"
    using iota_keys[of n "start - of_nat m"] by (simp only: generate_down_rev rev_map[symmetric] distinct_rev)
qed (simp add: generate_down_def)

lemma sequential_keys:
  "unat sz \<le> 2 ^ 32 \<Longrightarrow> distinct (map ucast (sequential_set ts sz) :: u32 list) \<and> length (sequential_set ts sz) = unat sz"
  using iota_keys generate_down_keys by (simp add: sequential_set_def Let_def) (simp add: iota_def generate_down_def)

lemma size_accepted_bound:
  assumes "size_accepted sz"
  shows "unat sz < 2 ^ 29" "3 * 2 ^ 20 \<le> unat sz"
proof -
  let ?m = "sz - 2097152"
  have d: "?m div 1024 div 1024 \<in> {32, 64, 128, 256}"
    using assms by (auto simp: size_accepted_def vector_data_set_size_def)
  then have "unat (?m div 1024 div 1024) \<in> {32, 64, 128, 256}" by auto
  then have m: "unat ?m div 1024 div 1024 \<in> {32, 64, 128, 256}" by (simp add: unat_div)
  then have lo: "32 * 1048576 \<le> unat ?m" and hi: "unat ?m < 257 * 1048576" by (auto simp: div_mult2_eq[symmetric])
  have "sz = ?m + 2097152" by simp
  then have "unat sz = unat (?m + 2097152)" by simp
  also have "\<dots> = unat ?m + 2097152" using hi by (subst unat_word_ariths) simp
  finally show "unat sz < 2 ^ 29" "3 * 2 ^ 20 \<le> unat sz" using lo hi by simp_all
qed

section \<open>What is generated is read back\<close>

text \<open>C39. A data set that \<open>GenerateDataSet\<close> writes for one of the sizes of the list is read back by
  \<open>GetDataSet\<close>: when the engine draws enough numbers whose halves are new, the generation ends, the file
  is accepted, all its chunks are full, and the vector holds exactly the accepted numbers in order. The
  keys of the data set are different, also when they are cut to 32 bits.\<close>

theorem data_set_round_trip:
  assumes judy: "judy_ok J1S members" "members jempty = {}" and cap: "1 < capacity"
    and n: "int n \<in> set vector_data_set_size"
    and enough: "n * 1048576 + 2097152 \<le> length (accepted (draws draw N g) {})"
  shows "\<exists>ws. GenerateDataSet draw J1S jempty capacity True (of_nat n * 1024 * 1024) g file = Some (Some ws)
    \<and> GetDataSet shuffle junk (Some ws) 0 False []
        = ret (take (n * 1048576 + 2097152) (accepted (draws draw N g) {}))
    \<and> distinct (map ucast (take (n * 1048576 + 2097152) (accepted (draws draw N g) {})) :: u32 list)"
proof -
  define sz :: u64 where "sz = of_nat n * 1024 * 1024 + 1024 * 1024 * 2"
  define k where "k = n * 1048576 + 2097152"
  define xs where "xs = accepted (draws draw N g) {}"
  have sz: "unat sz = k" "size_accepted sz" unfolding sz_def k_def by (rule unat_megabytes[OF n])+
  have dv: "read_buffer_size dvd k" unfolding k_def by (rule dvd_megabytes)
  have enough: "k \<le> length xs" unfolding k_def xs_def by (rule assms(5))
  have small: "unat sz < 2 ^ 32" using size_accepted_bound(1)[OF sz(2)] by simp
  have xs: "accepted (draws draw N g) (members jempty) = xs" by (simp add: judy(2) xs_def)
  have "\<exists>out' buffer'. generate_loop draw J1S capacity sz 0 [sz] [] jempty g = Some (out', buffer')
      \<and> out' @ buffer' = [] @ [sz] @ take (unat sz - unat (0 :: u32)) (accepted (draws draw N g) (members jempty))"
    by (rule generate_loop_accepts[OF judy(1) _ small]) (use cap enough sz(1) xs in simp_all)
  then obtain out' buffer' where r: "generate_loop draw J1S capacity sz 0 [sz] [] jempty g = Some (out', buffer')"
    "out' @ buffer' = sz # take k xs" unfolding xs sz(1) by auto
  have gen: "GenerateDataSet draw J1S jempty capacity True (of_nat n * 1024 * 1024) g file = Some (Some (sz # take k xs))"
    using r unfolding GenerateDataSet_def Let_def sz_def[symmetric] by simp
  have lk: "length (take k xs) = k" using enough by simp
  have "read_file (resize k []) (take k xs) = ret (take k xs)"
    by (rule read_file_ok) (simp_all only: lk length_resize dv)
  then have get: "GetDataSet shuffle junk (Some (sz # take k xs)) 0 False [] = ret (take k xs)"
    using sz unfolding GetDataSet_def by (simp add: Let_def)
  have "distinct (map (\<lambda>x. x AND judyMask) (take k xs))"
    using accepted_distinct[of "draws draw N g" "{}"] unfolding xs_def take_map[symmetric] by (intro distinct_take) (rule conjunct1)
  then have "distinct (map ucast (take k xs) :: u32 list)" by (rule distinct_ucast)
  with gen get show ?thesis unfolding k_def[symmetric] xs_def[symmetric] by blast
qed

text \<open>An engine for the witness: it counts, and puts an even number in the low half and the next one in the
  high half.\<close>

definition counter_draw :: "nat \<Rightarrow> u64 \<times> nat" where
  "counter_draw i = (push_bit 32 (of_nat (2 * i + 1)) OR of_nat (2 * i), Suc i)"

definition set_J1S :: "u64 \<Rightarrow> u64 set \<Rightarrow> int \<times> u64 set" where
  "set_J1S x S = (if x \<in> S then 0 else 1, insert x S)"

lemma counter_draw_halves:
  assumes "i < 2 ^ 31"
  shows "fst (counter_draw i) AND judyMask = of_nat (2 * i)" "drop_bit 32 (fst (counter_draw i)) = of_nat (2 * i + 1)"
proof -
  have m: "judyMask = mask 32" by (simp add: judyMask_def mask_eq_exp_minus_1)
  have b: "take_bit 32 (of_nat k :: u64) = of_nat k" if "k < 2 ^ 32" for k
    using that by (simp add: take_bit_of_nat take_bit_nat_eq_self)
  have "take_bit 32 (fst (counter_draw i)) = take_bit 32 (of_nat (2 * i))"
    by (rule bit_word_eqI) (auto simp: counter_draw_def bit_simps)
  then show "fst (counter_draw i) AND judyMask = of_nat (2 * i)"
    using b[of "2 * i"] assms by (simp add: m take_bit_eq_mask)
  have "drop_bit 32 (fst (counter_draw i)) = take_bit 32 (of_nat (2 * i + 1)) OR drop_bit 32 (of_nat (2 * i))"
    by (rule bit_word_eqI) (auto simp: counter_draw_def bit_simps)
  moreover have "drop_bit 32 (of_nat (2 * i) :: u64) = 0"
  proof -
    have "2 * i < 2 ^ 32" using assms by simp
    then have "unat (of_nat (2 * i) :: u64) < 2 ^ 32" by (simp add: unat_of_nat del: of_nat_mult)
    then have "unat (drop_bit 32 (of_nat (2 * i) :: u64)) = 0"
      by (simp add: drop_bit_eq_div unat_div del: of_nat_mult)
    then show ?thesis by (simp only: unat_eq_zero)
  qed
  ultimately show "drop_bit 32 (fst (counter_draw i)) = of_nat (2 * i + 1)"
    using b[of "2 * i + 1"] assms by simp
qed

lemma snd_counter_draw: "snd (counter_draw i) = Suc i"
  by (simp add: counter_draw_def)

lemma counter_accepted:
  "i + m \<le> 2 ^ 31 \<Longrightarrow> S \<subseteq> of_nat ` {..<2 * i} \<Longrightarrow> length (accepted (draws counter_draw m i) S) = m"
proof (induction m arbitrary: i S)
  case (Suc m)
  let ?x = "fst (counter_draw i)"
  have i: "i < 2 ^ 31" using Suc.prems(1) by simp
  note h = counter_draw_halves[OF i]
  have inj: "(of_nat a :: u64) = of_nat b \<longleftrightarrow> a = b" if "a < 2 ^ 32" "b < 2 ^ 32" for a b
  proof
    assume "(of_nat a :: u64) = of_nat b"
    then have "unat (of_nat a :: u64) = unat (of_nat b :: u64)" by simp
    then show "a = b" using that by (simp add: unat_of_nat)
  qed simp
  have notin: "(of_nat a :: u64) \<notin> S" if a: "2 * i \<le> a" "a < 2 ^ 32" for a
  proof
    assume "(of_nat a :: u64) \<in> S"
    then obtain b where b: "b < 2 * i" "(of_nat a :: u64) = of_nat b" using Suc.prems(2) by blast
    have "b < 2 ^ 32" using b(1) a by linarith
    from inj[OF a(2) this] b a(1) show False by simp
  qed
  have i2: "2 * i + 1 < 2 ^ 32" "2 * i < 2 ^ 32" using i by simp_all
  have lo: "(of_nat (2 * i) :: u64) \<notin> S" and hi: "(of_nat (2 * i + 1) :: u64) \<notin> S"
    using i2 by (intro notin; simp)+
  have ne: "(of_nat (2 * i + 1) :: u64) \<noteq> of_nat (2 * i)" using inj[OF i2] by simp
  have acc: "accepted (draws counter_draw (Suc m) i) S
      = ?x # accepted (draws counter_draw m (Suc i)) (insert (of_nat (2 * i + 1)) (insert (of_nat (2 * i)) S))"
    using lo hi ne unfolding draws.simps accepted.simps h by (simp only: snd_counter_draw insert_iff if_False simp_thms)
  have "{..<2 * Suc i} = insert (2 * i + 1) (insert (2 * i) {..<2 * i})" by auto
  then have "insert (of_nat (2 * i + 1)) (insert (of_nat (2 * i)) S) \<subseteq> (of_nat ` {..<2 * Suc i} :: u64 set)"
    using Suc.prems(2) by auto
  from Suc.IH[OF _ this] Suc.prems(1) show ?case unfolding acc by simp
qed simp

lemma data_set_round_trip_witness:
  "\<exists>ws xs. GenerateDataSet counter_draw set_J1S {} 131072 True (32 * 1024 * 1024) 0 None = Some (Some ws)
    \<and> GetDataSet id 0 (Some ws) 0 False [] = ret xs \<and> distinct (map ucast xs :: u32 list)"
proof -
  have "judy_ok set_J1S id" by (simp add: judy_ok_def set_J1S_def)
  moreover have "id {} = ({} :: u64 set)" "(1 :: nat) < 131072" by simp_all
  moreover have "int 32 \<in> set vector_data_set_size" by (simp add: vector_data_set_size_def)
  moreover have "32 * 1048576 + 2097152 \<le> length (accepted (draws counter_draw 35651584 0) {})"
    using counter_accepted[of 0 35651584 "{}"] by simp
  ultimately show ?thesis using data_set_round_trip[of set_J1S id "{}" 131072 32 counter_draw 35651584 0 None id 0]
    by auto
qed

section \<open>Damaged files\<close>

text \<open>C40. \<open>GetDataSet\<close> ends the program when the file is missing, when the size in its first word is not one
  of the list with 2 MB added (in units of 1 MB), or when the file is shorter than that size. The size is not
  checked to be a multiple of the chunks that are read: a file whose first word says 34 MB and 1024 numbers
  passes the test, and if it is long enough the last chunk is written past the end of the vector.\<close>

theorem GetDataSet_failures:
  "GetDataSet shuffle junk None ts shuffled data_set = abort Exit_failure
    \<and> (\<not> size_accepted sz \<longrightarrow> GetDataSet shuffle junk (Some (sz # ws)) ts shuffled data_set = abort Exit_failure)
    \<and> (size_accepted sz \<and> read_buffer_size dvd unat sz \<and> length ws < unat sz \<longrightarrow>
        GetDataSet shuffle junk (Some (sz # ws)) 0 shuffled data_set = abort Exit_failure)
    \<and> (size_accepted sz \<and> \<not> read_buffer_size dvd unat sz
        \<and> (unat sz div read_buffer_size + 1) * read_buffer_size \<le> length ws \<longrightarrow>
        GetDataSet shuffle junk (Some (sz # ws)) 0 shuffled data_set = abort Out_of_bounds)
    \<and> size_accepted 35652608 \<and> \<not> read_buffer_size dvd unat (35652608 :: u64)"
proof (intro conjI impI)
  assume sz: "size_accepted sz \<and> read_buffer_size dvd unat sz \<and> length ws < unat sz"
  then have "read_file (resize (unat sz) data_set) ws = abort Exit_failure" by (intro read_file_short) auto
  then show "GetDataSet shuffle junk (Some (sz # ws)) 0 shuffled data_set = abort Exit_failure"
    using sz by (simp add: GetDataSet_def Let_def)
next
  assume sz: "size_accepted sz \<and> \<not> read_buffer_size dvd unat sz
    \<and> (unat sz div read_buffer_size + 1) * read_buffer_size \<le> length ws"
  then have "read_file (resize (unat sz) data_set) ws = abort Out_of_bounds" by (intro read_file_overrun) auto
  then show "GetDataSet shuffle junk (Some (sz # ws)) 0 shuffled data_set = abort Out_of_bounds"
    using sz by (simp add: GetDataSet_def Let_def)
qed (simp_all add: GetDataSet_def Let_def size_accepted_def vector_data_set_size_def read_buffer_size_def dvd_eq_mod_eq_0)

lemma GetDataSet_failures_witness:
  "GetDataSet id 0 (Some [5]) 0 False [] = abort Exit_failure
    \<and> GetDataSet id 0 (Some (35652608 # replicate 35667968 7)) 0 False [] = abort Out_of_bounds"
proof -
  have "\<not> size_accepted 5" by (simp add: size_accepted_def vector_data_set_size_def)
  moreover have "(unat (35652608 :: u64) div read_buffer_size + 1) * read_buffer_size \<le> length (replicate 35667968 (7 :: u64))"
    by (simp add: read_buffer_size_def)
  ultimately show ?thesis
    using GetDataSet_failures[of id 0 1 False "[]" 5 "[]"]
      GetDataSet_failures[of id 0 0 False "[]" 35652608 "replicate 35667968 7"]
      GetDataSet_failures[of id 0 0 False "[]" 5 "[]"] by blast
qed

end
