(* ===== verification/MainProps.thy ===== *)
theory MainProps
  imports MainProgram DataProps
begin

text \<open>
  Properties of \<^verbatim>\<open>main\<close>: what each command does, which objects a benchmark runs, and the
  loads it runs them with.
\<close>

section \<open>The hash functions that are chosen\<close>

lemma opt_flags_fields [simp]:
  "opt_flags (parse_mode a o1) = opt_flags o1" "opt_flags (parse_presult a o1) = opt_flags o1"
  "opt_flags (parse_type a o1) = opt_flags o1" "opt_flags (parse_keys a o1) = opt_flags o1"
  by (simp_all add: parse_mode_def parse_presult_def parse_type_def parse_keys_def set_type_def Let_def)

lemma parse_arg_flags: "opt_flags o1 AND 0xF0 = 0 \<Longrightarrow> opt_flags (parse_arg a o1) AND 0xF0 = 0"
proof -
  have h: "opt_flags o2 AND 0xF0 = 0 \<Longrightarrow> opt_flags (parse_hash a o2) AND 0xF0 = 0" for o2
    by (simp add: parse_hash_def set_flag_def or_outside Let_def)
  have t: "opt_flags o2 AND 0xF0 = 0 \<Longrightarrow> opt_flags (parse_test a o2) AND 0xF0 = 0" for o2
    by (simp add: parse_test_def set_flag_def or_outside)
  assume "opt_flags o1 AND 0xF0 = 0"
  then show ?thesis unfolding parse_arg_def by (intro t) (simp add: h)
qed

lemma parse_options_flags: "opt_flags (parse_options argv) AND 0xF0 = 0" "opt_flags (parse_options argv) AND 0xFF \<noteq> 0"
proof -
  have "opt_flags o1 AND 0xF0 = 0 \<Longrightarrow> opt_flags (fold parse_arg argv o1) AND 0xF0 = 0" for o1
    by (induction argv arbitrary: o1) (auto intro: parse_arg_flags)
  then have f: "opt_flags (fold parse_arg argv default_options) AND 0xF0 = 0" by (simp add: default_options_def)
  then show "opt_flags (parse_options argv) AND 0xF0 = 0"
    by (simp add: parse_options_def set_flag_def or_outside Let_def)
  have "(x OR 4) AND 0xFF \<noteq> 0" for x :: u64
  proof
    assume "(x OR 4) AND 0xFF = 0"
    then have "(4 :: u64) AND 0xFF = 0" unfolding or_outside by blast
    then show False by simp
  qed
  then show "opt_flags (parse_options argv) AND 0xFF \<noteq> 0"
    by (simp add: parse_options_def set_flag_def Let_def)
qed

lemma chosen_hashes_nonempty:
  assumes "f AND 0xF0 = 0" "f AND 0xFF \<noteq> 0"
  shows "chosen_hashes f \<noteq> []"
proof
  assume "chosen_hashes f = []"
  then have "f AND 8 = 0" "f AND 2 = 0" "f AND 4 = 0" "f AND 1 = 0"
    by (simp_all add: chosen_hashes_def split: if_splits)
  then have "(8 OR 2 OR 4 OR 1 OR 0xF0) AND f = 0"
    using assms(1) unfolding or_outside by (simp only: and.commute[of f] simp_thms)
  then show False using assms(2) by (simp add: and.commute)
qed

lemma chosen_hashes_distinct: "distinct (chosen_hashes f)"
  by (simp add: chosen_hashes_def)

section \<open>Options\<close>

lemma python_data_mode_total: "\<exists>m. python_data_mode (parse_options argv) = ret m"
  using parse_options_ok[of argv] by (auto simp: options_ok_def python_data_mode_def)

text \<open>C37. Whatever the arguments are, the options are well-formed: the flags of the key type and of the fix are the only
  bits of \<open>FlagMask\<close>, there are four kinds of data, only the twelve bits of the table classes are set in
  \<open>TypeMask\<close>, at least one of the four bits of the hash functions and no other bit is set in the low byte of
  the flags, and the kind of data has a name, so that the assertion about it holds.\<close>

theorem options_well_formed:
  "FlagMask (parse_options argv) \<in> {0, 0x1000, 0x2000, 0x3000} \<and> TypeSequential (parse_options argv) \<in> {0, 1, 2, 3}
    \<and> TypeMask (parse_options argv) AND 0xFFFFF000 = 0
    \<and> opt_flags (parse_options argv) AND 0xF0 = 0 \<and> opt_flags (parse_options argv) AND 0xFF \<noteq> 0
    \<and> (\<exists>m. python_data_mode (parse_options argv) = ret m)"
  using parse_options_ok[of argv] parse_options_flags[of argv] python_data_mode_total[of argv]
  by (simp add: options_ok_def)

section \<open>What a run does\<close>

lemma main_run:
  assumes "command argv = ''run''" "TypeMask (parse_options argv) \<noteq> 0"
  shows "main env argv s
      = run_bind (call_GetDataSet env (TypeSequential (parse_options argv)) (bShuffle (parse_options argv)) s)
          (\<lambda>(data_set_size, s).
            run_objects (call_Bench env) (main_args argv (parse_options argv) data_set_size)
              (selected_objects (parse_options argv)) s)"
proof -
  let ?o = "parse_options argv"
  have ok: "options_ok ?o" by (rule parse_options_ok)
  then obtain m where m: "python_data_mode ?o = ret m"
    by (auto simp: options_ok_def python_data_mode_def)
  have "\<not> shows_help ''run'' ?o" using assms(2) by (simp add: shows_help_def)
  moreover have "bench_loop (call_Bench env) ?o (main_args argv ?o n)
      = run_objects (call_Bench env) (main_args argv ?o n) (selected_objects ?o)" for n
    by (rule bench_loop_objects[OF ok]) (simp add: main_args_def Let_def)
  ultimately show ?thesis using m assms(1) by (simp add: main_def Let_def)
qed

lemma main_selftest:
  assumes "command argv = ''selftest''"
  shows "main env argv s = run_bind (call_TEST env Key64 s) (call_TEST env Key32)"
  using python_data_mode_total[of argv] assms by (auto simp: main_def shows_help_def)

lemma main_selftest1:
  assumes "command argv = ''selftest1''"
  shows "main env argv s
        = run_bind (call_GetDataSet env (TypeSequential (parse_options argv)) (bShuffle (parse_options argv)) s)
            (\<lambda>(_, s). call_TEST1 env (opt_fix (parse_options argv)) s)"
  using python_data_mode_total[of argv] assms by (auto simp: main_def shows_help_def opt_fix_def Let_def)

text \<open>C38. A run with at least one table class reads the data set and then runs exactly the selected objects,
  in the order of the classes' bits and within a class in the order of the hash functions; at least one hash
  function is always chosen, none twice, and a default never has to be reported: the fallback branches
  of the two switches on the kind of data and on the class are not reached.\<close>

theorem main_runs_selected:
  assumes "command argv = ''run''" "TypeMask (parse_options argv) \<noteq> 0"
  shows "main env argv s
      = run_bind (call_GetDataSet env (TypeSequential (parse_options argv)) (bShuffle (parse_options argv)) s)
          (\<lambda>(data_set_size, s).
            run_objects (call_Bench env) (main_args argv (parse_options argv) data_set_size)
              (selected_objects (parse_options argv)) s)
    \<and> chosen_hashes (opt_flags (parse_options argv)) \<noteq> []
    \<and> distinct (chosen_hashes (opt_flags (parse_options argv)))
    \<and> (\<exists>m. python_data_mode (parse_options argv) = ret m)"
  using main_run[OF assms, of env s] python_data_mode_total[of argv] chosen_hashes_nonempty[OF parse_options_flags]
    chosen_hashes_distinct by blast

text \<open>For the witnesses: a data set of 34 MB of numbers, and a benchmark that records what it is asked to
  run.\<close>

definition record_env :: "(object_type \<times> bench_args) list callees" where
  "record_env = \<lparr>call_GenerateDataSet = \<lambda>n s. ret s, call_GetDataSet = \<lambda>ts sh s. ret (35651584, s),
     call_TEST = \<lambda>k s. ret s, call_TEST1 = \<lambda>fx s. ret s, call_Bench = \<lambda>obj a s. ret (s @ [(obj, a)])\<rparr>"

lemma main_runs_selected_witness:
  "\<exists>a. main record_env [''SimdHash'', ''run'', ''-simdhm'', ''-tslrm'', ''-32'', ''-simdhash''] []
    = ret [(Simd_Map Key32 Simd_hash Fast False, a), (Robin_map Key32 Simd_hash, a)]"
proof -
  let ?argv = "[''SimdHash'', ''run'', ''-simdhm'', ''-tslrm'', ''-32'', ''-simdhash'']"
  have "command ?argv = ''run''" by (simp add: command_def cmds_def)
  moreover have "TypeMask (parse_options ?argv) \<noteq> 0" by code_simp
  moreover have "selected_objects (parse_options ?argv)
      = [Simd_Map Key32 Simd_hash Fast False, Robin_map Key32 Simd_hash]" by code_simp
  ultimately show ?thesis
    using main_runs_selected[of ?argv record_env "[]"] by (simp add: record_env_def run_objects_def)
qed

text \<open>The other commands: without a known command, without a table class in a run, or for \<open>help\<close>,
  nothing is read or run; \<open>rnd\<close> generates as many MB of numbers as its argument says when it is one of the
  sizes of the list, and 128 MB otherwise; \<open>selftest\<close> runs the self test for both key types and
  \<open>selftest1\<close> reads the data set first.\<close>

theorem main_commands:
  "(command argv = ''help'' \<or> command argv = ''run'' \<and> TypeMask (parse_options argv) = 0 \<longrightarrow>
      main env argv s = ret s)
    \<and> (length argv > 1 \<and> argv ! 1 \<notin> set cmds \<longrightarrow> main env argv s = ret s)
    \<and> (command argv = ''rnd'' \<longrightarrow>
        (\<exists>n. main env argv s = call_GenerateDataSet env n s
          \<and> unat n = (case table_size argv of None \<Rightarrow> 128 | Some k \<Rightarrow> nat k) * 1024 * 1024
          \<and> size_accepted (n + 1024 * 1024 * 2)))
    \<and> (command argv = ''selftest'' \<longrightarrow> main env argv s = run_bind (call_TEST env Key64 s) (call_TEST env Key32))
    \<and> (command argv = ''selftest1'' \<longrightarrow> main env argv s
        = run_bind (call_GetDataSet env (TypeSequential (parse_options argv)) (bShuffle (parse_options argv)) s)
            (\<lambda>(_, s). call_TEST1 env (opt_fix (parse_options argv)) s))"
proof -
  let ?o = "parse_options argv"
  obtain m where m: "python_data_mode ?o = ret m" using python_data_mode_total by blast
  have h: "main env argv s = ret s" if "shows_help (command argv) ?o" using m that by (simp add: main_def Let_def)
  have c: "command argv = ''help''" if "length argv > 1 \<and> argv ! 1 \<notin> set cmds"
    using that by (simp add: command_def cmds_def Let_def)
  have ts: "table_size argv = Some k \<Longrightarrow> k \<in> {32, 64, 128, 256}" for k
    by (auto simp: table_size_def vector_data_set_size_def Let_def split: if_splits)
  have r: "unat (rnd_size argv) = (case table_size argv of None \<Rightarrow> 128 | Some k \<Rightarrow> nat k) * 1024 * 1024
      \<and> size_accepted (rnd_size argv + 1024 * 1024 * 2)"
  proof (cases "table_size argv")
    case None
    then show ?thesis by (simp add: rnd_size_def size_accepted_def vector_data_set_size_def)
  next
    case (Some k)
    then show ?thesis using ts[OF Some]
      by (elim insertE) (simp_all add: rnd_size_def size_accepted_def vector_data_set_size_def)
  qed
  have nh: "\<not> shows_help ''rnd'' ?o" by (simp add: shows_help_def)
  show ?thesis
  proof (intro conjI impI)
    show "main env argv s = ret s" if "command argv = ''help'' \<or> command argv = ''run'' \<and> TypeMask ?o = 0"
      using that by (intro h) (auto simp: shows_help_def)
    show "main env argv s = ret s" if "length argv > 1 \<and> argv ! 1 \<notin> set cmds"
      using c[OF that] by (intro h) (simp add: shows_help_def)
    show "\<exists>n. main env argv s = call_GenerateDataSet env n s
          \<and> unat n = (case table_size argv of None \<Rightarrow> 128 | Some k \<Rightarrow> nat k) * 1024 * 1024
          \<and> size_accepted (n + 1024 * 1024 * 2)" if "command argv = ''rnd''"
      using that m nh r by (intro exI[of _ "rnd_size argv"]) (simp add: main_def)
    show "main env argv s = run_bind (call_TEST env Key64 s) (call_TEST env Key32)" if "command argv = ''selftest''"
      using that by (rule main_selftest)
    show "main env argv s = run_bind (call_GetDataSet env (TypeSequential ?o) (bShuffle ?o) s)
            (\<lambda>(_, s). call_TEST1 env (opt_fix ?o) s)" if "command argv = ''selftest1''"
      using that by (rule main_selftest1)
  qed
qed

lemma main_commands_witness:
  "main record_env [''SimdHash'', ''run''] [] = ret [] \<and> main record_env [''SimdHash'', ''runn''] [] = ret []
    \<and> main record_env [''SimdHash'', ''selftest''] [] = ret []"
proof -
  have "TypeMask (parse_options [''SimdHash'', ''run'']) = 0" by code_simp
  moreover have "command [''SimdHash'', ''run''] = ''run''" "command [''SimdHash'', ''selftest''] = ''selftest''"
    "''runn'' \<notin> set cmds" by (simp_all add: command_def cmds_def)
  ultimately show ?thesis
    using main_commands[of "[''SimdHash'', ''run'']" record_env "[]"]
      main_commands[of "[''SimdHash'', ''runn'']" record_env "[]"]
      main_commands[of "[''SimdHash'', ''selftest'']" record_env "[]"] by (simp add: record_env_def)
qed

section \<open>Loads\<close>

lemma main_args_bounds:
  assumes "size_accepted sz"
  shows "unat (max_millions argv sz) \<le> 256" "unat (max_millions argv sz) * 1048576 + 2097152 \<le> unat sz"
    "unat (maxLoad (main_args argv o1 sz)) = unat (max_millions argv sz) * 1000000"
    "unat (maxLoad (main_args argv o1 sz)) + 2097152 \<le> unat sz"
proof -
  let ?m = "(sz - test_vector_size) div 1024 div 1024"
  have tv: "test_vector_size = 2097152" by (simp add: test_vector_size_def)
  have d: "unat ?m \<in> {32, 64, 128, 256}"
    using assms by (auto simp: size_accepted_def vector_data_set_size_def tv)
  have le: "max_millions argv sz \<le> ?m" by (simp add: max_millions_def Let_def)
  then have le: "unat (max_millions argv sz) \<le> unat ?m" by (simp add: word_le_nat_alt)
  with d show b: "unat (max_millions argv sz) \<le> 256" by auto
  have "unat sz = unat (sz - test_vector_size) + 2097152"
    using size_accepted_bound(2)[OF assms] by (simp add: tv unat_sub word_le_nat_alt)
  moreover have "unat ?m * 1048576 \<le> unat (sz - test_vector_size)"
    by (simp add: unat_div div_mult2_eq[symmetric])
  ultimately show s: "unat (max_millions argv sz) * 1048576 + 2097152 \<le> unat sz" using le by linarith
  have "unat (max_millions argv sz * 1000000) = unat (max_millions argv sz) * 1000000"
    using b by (subst unat_word_ariths) simp
  then show l: "unat (maxLoad (main_args argv o1 sz)) = unat (max_millions argv sz) * 1000000"
    by (simp add: main_args_def Let_def)
  show "unat (maxLoad (main_args argv o1 sz)) + 2097152 \<le> unat sz" unfolding l using s by linarith
qed

end
