(* ===== verification/Program.thy ===== *)
theory Program
  imports SelfTest SelfTest1 BenchRobin AnkerlBench MainProps
begin

text \<open>
  The program as a whole: \<open>main\<close> with the functions that it calls, the data set, the self test and the
  benchmarks of the modelled table classes. What is not under the sources of the program, and the table classes
  that are not modelled, are fields of an environment.
\<close>

section \<open>State and environment\<close>

text \<open>The global vector \<open>data_set\<close>, the file, and what is printed: the lines of each benchmark and the outcomes
  of the self tests.\<close>

record program =
  data_set :: "u64 list"
  data_file :: "u64 list option"
  results :: "(object_type \<times> row list) list"
  tests64 :: "(u64, u64) printed list"
  tests32 :: "(u32, u32) printed list"
  tests1 :: "(u32 \<times> u32) list"

record ('g, 'r, 'j) environment =
  env_draw :: "'r \<Rightarrow> u64 \<times> 'r"                              \<comment> \<open>\<open>std::mt19937_64\<close> and its distribution\<close>
  env_engine :: 'r
  env_J1S :: "u64 \<Rightarrow> 'j \<Rightarrow> int \<times> 'j"                       \<comment> \<open>the Judy library\<close>
  env_Judy :: 'j
  env_capacity :: nat                                     \<comment> \<open>the capacity of the vector that is written\<close>
  env_opens :: bool
  env_shuffle :: "u64 list \<Rightarrow> u64 list"
  env_junk :: u64
  env_sample :: "'g sampler"
  env_seed :: 'g
  env_hash64 :: "hash_fn \<Rightarrow> u64 \<Rightarrow> u64"
  env_hash32 :: "hash_fn \<Rightarrow> u32 \<Rightarrow> u64"
  env_memory64 :: "core_type \<Rightarrow> (u64, u64) memory"
  env_memory32 :: "core_type \<Rightarrow> (u32, u32) memory"
  env_memory1 :: "(u64, u64) memory"                      \<comment> \<open>of the index of \<open>selftest1\<close>\<close>
  env_index :: u32                                        \<comment> \<open>the variable \<open>index\<close> of the self test\<close>
  env_robin :: "bool \<times> bool \<times> u64"                        \<comment> \<open>properties of the types of \<open>robin_map\<close>\<close>
  env_other :: "object_type \<Rightarrow> bench_args \<Rightarrow> u64 list \<Rightarrow> row list run"

text \<open>The hash functions: \<open>MZ::SimdHash::Hash\<close>, \<open>ankerl::unordered_dense::hash\<close> and those of the environment.\<close>

definition hash_for :: "(hash_fn \<Rightarrow> 'w::len word \<Rightarrow> u64) \<Rightarrow> hash_fn \<Rightarrow> 'w word \<Rightarrow> u64" where
  "hash_for ext h key =
     (if h = Simd_hash then Hash_operator Absl (\<lambda>_ :: 'w word. 0) (Integral (ucast key))
      else if h = Ankerl_hash then ankerl_hash key else ext h key)"

section \<open>The functions that main calls\<close>

definition run_GetDataSet ::
    "('g, 'r, 'j) environment \<Rightarrow> u32 \<Rightarrow> bool \<Rightarrow> program \<Rightarrow> (u64 \<times> program) run" where
  "run_GetDataSet env ts shuffled s =
     run_bind (GetDataSet (env_shuffle env) (env_junk env) (data_file s) ts shuffled (data_set s))
       (\<lambda>ds. ret (of_nat (length ds), s\<lparr>data_set := ds\<rparr>))"

definition run_GenerateDataSet :: "('g, 'r, 'j) environment \<Rightarrow> u64 \<Rightarrow> program \<Rightarrow> program run" where
  "run_GenerateDataSet env n s =
     run_bind (of_loop (GenerateDataSet (env_draw env) (env_J1S env) (env_Judy env) (env_capacity env)
         (env_opens env) n (env_engine env) (data_file s)))
       (\<lambda>f. ret (s\<lparr>data_file := f\<rparr>))"

definition run_TEST :: "'m::len itself \<Rightarrow> nat \<Rightarrow> ('g, 'r, 'j) environment \<Rightarrow> key_type \<Rightarrow> program \<Rightarrow> program run" where
  "run_TEST M sz env k s =
     (case k of
        Key64 \<Rightarrow> run_bind (TEST M sz (hash_for (env_hash64 env) Simd_hash) (env_memory64 env) (env_index env))
          (\<lambda>p. ret (s\<lparr>tests64 := tests64 s @ [p]\<rparr>))
      | Key32 \<Rightarrow> run_bind (TEST M sz (hash_for (env_hash32 env) Simd_hash) (env_memory32 env) (env_index env))
          (\<lambda>p. ret (s\<lparr>tests32 := tests32 s @ [p]\<rparr>)))"

definition run_TEST1 :: "('g, 'r, 'j) environment \<Rightarrow> bool \<Rightarrow> program \<Rightarrow> program run" where
  "run_TEST1 env bFix s =
     (let cfg = table_config Type_Index ResizeOnlyEmpty bFix (hash_for (env_hash64 env) Absl_hash) (env_memory1 env)
      in run_bind (TEST1_function cfg (mem_core (env_memory1 env))) (\<lambda>(printed, _). ret (s\<lparr>tests1 := tests1 s @ printed\<rparr>)))"

text \<open>\<open>Bench\<close> at one type of object. The classes without a model are left to the environment.\<close>

definition bench_simd ::
    "'m::len itself \<Rightarrow> nat \<Rightarrow> ('g, 'r, 'j) environment \<Rightarrow> (hash_fn \<Rightarrow> 'w::len word \<Rightarrow> u64) \<Rightarrow> (core_type \<Rightarrow> ('w word, 'w word) memory) \<Rightarrow>
      core_type \<Rightarrow> hash_fn \<Rightarrow> mode \<Rightarrow> bool \<Rightarrow> bench_args \<Rightarrow> u64 list \<Rightarrow> row list run" where
  "bench_simd M sz env ext mem ty h mode bFix a =
     Bench (simd_class_of M sz (table_config ty mode bFix (hash_for ext h) (mem ty)) (mem_core (mem ty)))
       (env_sample env) (env_seed env) a"

definition bench_robin_map ::
    "('g, 'r, 'j) environment \<Rightarrow> (hash_fn \<Rightarrow> 'w::len word \<Rightarrow> u64) \<Rightarrow> hash_fn \<Rightarrow> bench_args \<Rightarrow> u64 list \<Rightarrow> row list run" where
  "bench_robin_map env ext h a =
     (case env_robin env of (ss, sd, mx) \<Rightarrow>
       Bench (RobinMap_class (robin_map_config False (hash_for ext h) ss sd mx)) (env_sample env) (env_seed env) a)"

text \<open>Of the hash functors only \<open>ankerl::unordered_dense::hash\<close> declares \<open>is_avalanching\<close>.\<close>

definition bench_ankerl_map ::
    "('g, 'r, 'j) environment \<Rightarrow> (hash_fn \<Rightarrow> 'w::len word \<Rightarrow> u64) \<Rightarrow> hash_fn \<Rightarrow> bench_args \<Rightarrow> u64 list \<Rightarrow> row list run" where
  "bench_ankerl_map env ext h a =
     Bench (AnkerlMap_class (ankerl_map_config (hash_for ext h) (h = Ankerl_hash) False)) (env_sample env) (env_seed env) a"

definition bench_object ::
    "'m::len itself \<Rightarrow> nat \<Rightarrow> ('g, 'r, 'j) environment \<Rightarrow> object_type \<Rightarrow> bench_args \<Rightarrow> u64 list \<Rightarrow> row list run" where
  "bench_object M sz env obj =
     (case obj of
        Simd_Map Key64 h mode bFix \<Rightarrow> bench_simd M sz env (env_hash64 env) (env_memory64 env) Type_Map h mode bFix
      | Simd_Map Key32 h mode bFix \<Rightarrow> bench_simd M sz env (env_hash32 env) (env_memory32 env) Type_Map h mode bFix
      | Simd_Set Key64 h mode bFix \<Rightarrow> bench_simd M sz env (env_hash64 env) (env_memory64 env) Type_Set h mode bFix
      | Simd_Set Key32 h mode bFix \<Rightarrow> bench_simd M sz env (env_hash32 env) (env_memory32 env) Type_Set h mode bFix
      | Simd_Index Key64 h mode bFix \<Rightarrow> bench_simd M sz env (env_hash64 env) (env_memory64 env) Type_Index h mode bFix
      | Simd_Index Key32 h mode bFix \<Rightarrow> bench_simd M sz env (env_hash32 env) (env_memory32 env) Type_Index h mode bFix
      | Robin_map Key64 h \<Rightarrow> bench_robin_map env (env_hash64 env) h
      | Robin_map Key32 h \<Rightarrow> bench_robin_map env (env_hash32 env) h
      | Ankerl_map Key64 h \<Rightarrow> bench_ankerl_map env (env_hash64 env) h
      | Ankerl_map Key32 h \<Rightarrow> bench_ankerl_map env (env_hash32 env) h
      | _ \<Rightarrow> env_other env obj)"

definition run_Bench :: "'m::len itself \<Rightarrow> nat \<Rightarrow> ('g, 'r, 'j) environment \<Rightarrow> program bench" where
  "run_Bench M sz env obj a s =
     run_bind (bench_object M sz env obj a (data_set s)) (\<lambda>rows. ret (s\<lparr>results := results s @ [(obj, rows)]\<rparr>))"

definition program_calls :: "'m::len itself \<Rightarrow> nat \<Rightarrow> ('g, 'r, 'j) environment \<Rightarrow> program callees" where
  "program_calls M sz env =
     \<lparr>call_GenerateDataSet = run_GenerateDataSet env, call_GetDataSet = run_GetDataSet env,
      call_TEST = run_TEST M sz env, call_TEST1 = run_TEST1 env, call_Bench = run_Bench M sz env\<rparr>"

section \<open>The loads of a run\<close>

lemma loads_from_range:
  assumes "l \<in> set (loads_from a x)" "unat (maxLoad a) + unat (stepLoad a) < 2 ^ 64"
  shows "x \<le> l" "l \<le> maxLoad a"
proof -
  obtain i where i: "l = x + of_nat i * stepLoad a" "i < loads_left a x" using assms(1) by (auto simp: loads_from_def)
  let ?s = "unat (stepLoad a)" and ?m = "unat (maxLoad a)" and ?x = "unat x"
  have le: "x \<le> maxLoad a" "i \<le> (?m - ?x) div ?s" using i(2) by (auto simp: loads_left_def split: if_splits)
  have "i * ?s \<le> (?m - ?x) div ?s * ?s" by (rule mult_le_mono1[OF le(2)])
  also have "\<dots> \<le> ?m - ?x" by (rule div_times_less_eq_dividend)
  finally have b: "?x + i * ?s \<le> ?m" using le(1) unfolding word_le_nat_alt by linarith
  have "l = of_nat (?x + i * ?s)" by (simp add: i(1))
  then have "unat l = (?x + i * ?s) mod 2 ^ 64" using unat_of_nat[of "?x + i * ?s", where 'a = 64] by simp
  moreover have "?x + i * ?s < 2 ^ 64" using b assms(2) by linarith
  ultimately have "unat l = ?x + i * ?s" by (metis mod_less)
  then show "x \<le> l" "l \<le> maxLoad a" using b by (simp_all add: word_le_nat_alt)
qed

lemma step_load_small: "unat (step_load argv) \<le> 2 ^ 24"
proof -
  have "unat (trunc_u64 (to_double (x * 1000000))) \<le> 2 ^ 24" if x: "0 < x" "x \<le> 10" for x
  proof -
    let ?y = "to_double (x * 1000000)"
    have "?y \<le> x * 1000000 * (1 + 1 / 2 ^ 53)" using x(1) by (intro fl_round_bounds(2)) simp_all
    also have "\<dots> \<le> 10000000 * (1 + 1 / 2 ^ 53)" using x by (intro mult_right_mono) simp_all
    also have "\<dots> \<le> 2 ^ 24" by simp
    finally have le: "?y \<le> 2 ^ 24" .
    have nn: "0 \<le> ?y" using x(1) by (intro fl_round_nonneg) simp_all
    have "\<lfloor>?y\<rfloor> \<le> 2 ^ 24" using floor_mono[OF le] by simp
    moreover have "unat (trunc_u64 ?y) = nat \<lfloor>?y\<rfloor>" using le by (intro unat_trunc_u64[OF nn]) simp
    ultimately show ?thesis by (simp add: nat_le_iff)
  qed
  then show ?thesis by (auto simp: step_load_def)
qed

section \<open>The benchmarks of a run\<close>

text \<open>The objects whose tables are modelled, have capacities that are powers of two and take any hash function, and
  the number of elements that they are proved for.\<close>

definition fast_object :: "object_type \<Rightarrow> bool" where
  "fast_object obj \<longleftrightarrow> (case obj of
      Simd_Map k h mode bFix \<Rightarrow> pow2_mode mode \<and> \<not> bFix
    | Simd_Set k h mode bFix \<Rightarrow> pow2_mode mode \<and> \<not> bFix
    | Simd_Index k h mode bFix \<Rightarrow> pow2_mode mode \<and> \<not> bFix
    | Ankerl_map k h \<Rightarrow> True
    | _ \<Rightarrow> False)"

definition object_limit :: "object_type \<Rightarrow> u64" where
  "object_limit obj = (case obj of Ankerl_map k h \<Rightarrow> 16777214 | _ \<Rightarrow> 209715299)"

text \<open>Loads for which no test fails, whatever is sampled.\<close>

definition sound_loads :: "u64 list \<Rightarrow> bench_args \<Rightarrow> bool" where
  "sound_loads ds a \<longleftrightarrow> test_type (BenchFlags a) \<noteq> TEST2 \<and> 20 \<le> startLoad a \<and> stepLoad a \<noteq> 0
     \<and> unat (maxLoad a) \<le> length ds \<and> maxLoad a \<le> 209715299 \<and> unat (stepLoad a) \<le> 2 ^ 24"

lemma sound_loads_good:
  assumes "sound_loads ds a"
  shows "unat (maxLoad a) + unat (stepLoad a) < 2 ^ 64"
    "unat (maxLoad a) \<le> bound \<Longrightarrow>
      \<forall>l \<in> set (loads_from a (startLoad a)). good_load TYPE('w::len) bound sample seed ds (test_type (BenchFlags a)) l"
proof -
  have m: "unat (maxLoad a) \<le> 209715299" using assms by (simp add: sound_loads_def word_le_nat_alt)
  then show lt: "unat (maxLoad a) + unat (stepLoad a) < 2 ^ 64" using assms by (simp add: sound_loads_def)
  assume b: "unat (maxLoad a) \<le> bound"
  show "\<forall>l \<in> set (loads_from a (startLoad a)). good_load TYPE('w) bound sample seed ds (test_type (BenchFlags a)) l"
  proof
    fix l assume "l \<in> set (loads_from a (startLoad a))"
    from loads_from_range[OF this lt] have "20 \<le> unat l" "unat l \<le> unat (maxLoad a)"
      using assms by (simp_all add: sound_loads_def word_le_nat_alt)
    then show "good_load TYPE('w) bound sample seed ds (test_type (BenchFlags a)) l"
      using assms m b by (auto simp: good_load_def sound_loads_def test_vector_size_def
          word_le_nat_alt unat_div unat_eq_0[symmetric])
  qed
qed

lemma bench_simd_ok:
  fixes ext :: "hash_fn \<Rightarrow> 'w::len word \<Rightarrow> u64"
  assumes "vector_ok sz TYPE('m::len)" "sampler_ok (env_sample env)" "pow2_mode mode" "\<not> bFix"
    and "distinct (vec_keys ds :: 'w word list)" "sound_loads ds a"
  shows "\<exists>rows. bench_simd TYPE('m) sz env ext mem ty h mode bFix a ds = ret rows
    \<and> map row_Count rows = map ucast (loads_from a (startLoad a))"
proof -
  let ?cfg = "table_config ty mode bFix (hash_for ext h) (mem ty)"
  have "bench_table (simd_class_of TYPE('m) sz ?cfg (mem_core (mem ty))) (simd_holds ?cfg) simd_bound False"
    using assms(3,4) by (intro simd_bench_table assms(1)) simp_all
  from bench_table.Bench_ok[OF this assms(2,5), of a "env_seed env"] show ?thesis
    using assms(6) sound_loads_good(1)[OF assms(6)]
      sound_loads_good(2)[OF assms(6), where 'w = 'w and bound = simd_bound and sample = "env_sample env" and seed = "env_seed env"]
    by (auto simp: ends_def bench_simd_def sound_loads_def simd_bound_def word_le_nat_alt)
qed

lemma bench_ankerl_map_ok:
  fixes ext :: "hash_fn \<Rightarrow> 'w::len word \<Rightarrow> u64"
  assumes "sampler_ok (env_sample env)" "distinct (vec_keys ds :: 'w word list)" "sound_loads ds a" "maxLoad a \<le> 16777214"
  shows "\<exists>rows. bench_ankerl_map env ext h a ds = ret rows \<and> map row_Count rows = map ucast (loads_from a (startLoad a))"
proof -
  have "unat (maxLoad a) \<le> dense_bound" using assms(4) by (simp add: word_le_nat_alt dense_bound_def)
  from sound_loads_good(2)[OF assms(3) this, where 'w = 'w and sample = "env_sample env" and seed = "env_seed env"] show ?thesis
    using ankerl_map.Bench_ok[OF assms(1,2), of a "env_seed env" "hash_for ext h" "h = Ankerl_hash" False] assms(3)
      sound_loads_good(1)[OF assms(3)]
    by (auto simp: ends_def bench_ankerl_map_def sound_loads_def)
qed

lemma bench_object_ok:
  assumes "vector_ok sz TYPE('m::len)" "sampler_ok (env_sample env)" "fast_object obj"
    and d: "distinct (map ucast ds :: u32 list)" and "sound_loads ds a" "maxLoad a \<le> object_limit obj"
  shows "\<exists>rows. bench_object TYPE('m) sz env obj a ds = ret rows
    \<and> map row_Count rows = map ucast (loads_from a (startLoad a))"
proof -
  have "distinct ds" using d by (simp add: distinct_map)
  then have k: "distinct (vec_keys ds :: u64 list)" by (simp add: vec_keys_def distinct_map inj_on_def)
  have k2: "distinct (vec_keys ds :: u32 list)" using d by (simp add: vec_keys_def)
  show ?thesis
    using assms(3) bench_simd_ok[OF assms(1,2) _ _ k assms(5)] bench_simd_ok[OF assms(1,2) _ _ k2 assms(5)]
      bench_ankerl_map_ok[OF assms(2) k assms(5)] bench_ankerl_map_ok[OF assms(2) k2 assms(5)] assms(6)
    by (auto simp: bench_object_def fast_object_def object_limit_def split: object_type.splits key_type.splits)
qed

lemma run_objects_ok:
  assumes "\<And>obj. obj \<in> set objs \<Longrightarrow> \<exists>rows. bench_object TYPE('m::len) sz env obj a ds = ret rows \<and> P rows" "data_set s = ds"
  shows "\<exists>rss. run_objects (run_Bench TYPE('m) sz env) a objs s = ret (s\<lparr>results := results s @ zip objs rss\<rparr>)
    \<and> length rss = length objs \<and> (\<forall>rows \<in> set rss. P rows)"
  using assms
proof (induction objs arbitrary: s)
  case Nil
  then show ?case by (simp add: run_objects_def)
next
  case (Cons obj objs)
  obtain rows where r: "bench_object TYPE('m) sz env obj a ds = ret rows" "P rows" using Cons.prems(1) by auto
  let ?s = "s\<lparr>results := results s @ [(obj, rows)]\<rparr>"
  obtain rss where "run_objects (run_Bench TYPE('m) sz env) a objs ?s = ret (?s\<lparr>results := results ?s @ zip objs rss\<rparr>)"
    "length rss = length objs" "\<forall>rows \<in> set rss. P rows"
    using Cons.IH[of ?s] Cons.prems by auto
  moreover have "run_Bench TYPE('m) sz env obj a s = ret ?s" using r(1) Cons.prems(2) by (simp add: run_Bench_def)
  ultimately show ?case using r(2) by (intro exI[of _ "rows # rss"]) (simp add: run_objects_def)
qed

section \<open>The commands\<close>

text \<open>C9. The command \<open>selftest\<close> passes for both key types, whatever the memory of the tables holds before:
  all assertions on the map, the index and the set hold, and the loops print the four entries of the map, the four
  keys of the index in the order of their insertion, and the five keys of the set. The command \<open>selftest1\<close>
  ends in a failed assertion after the data set has been read.\<close>

theorem program_selftests:
  assumes "vector_ok sz TYPE('m::len)"
  shows "(command argv = ''selftest'' \<longrightarrow>
      (\<exists>p64 p32. main (program_calls TYPE('m) sz env) argv s
          = ret (s\<lparr>tests64 := tests64 s @ [p64], tests32 := tests32 s @ [p32]\<rparr>)
        \<and> passed (ret p64) \<and> passed (ret p32)))
    \<and> (command argv = ''selftest1'' \<and> \<not> opt_fix (parse_options argv)
        \<and> GetDataSet (env_shuffle env) (env_junk env) (data_file s) (TypeSequential (parse_options argv))
            (bShuffle (parse_options argv)) (data_set s) = ret ds \<longrightarrow>
      main (program_calls TYPE('m) sz env) argv s = abort Resize_only_empty)"
proof (intro conjI impI; (elim conjE)?)
  assume cmd: "command argv = ''selftest''"
  have "passed (TEST TYPE('m) sz (hash_for (env_hash64 env) Simd_hash) (env_memory64 env) (env_index env))"
    "passed (TEST TYPE('m) sz (hash_for (env_hash32 env) Simd_hash) (env_memory32 env) (env_index env))"
    by (rule TEST_passes[OF _ assms], simp)+
  then obtain p64 p32 where
    "TEST TYPE('m) sz (hash_for (env_hash64 env) Simd_hash) (env_memory64 env) (env_index env) = ret p64"
    "TEST TYPE('m) sz (hash_for (env_hash32 env) Simd_hash) (env_memory32 env) (env_index env) = ret p32"
    "passed (ret p64)" "passed (ret p32)"
    by (auto simp: passed_def)
  then show "\<exists>p64 p32. main (program_calls TYPE('m) sz env) argv s
          = ret (s\<lparr>tests64 := tests64 s @ [p64], tests32 := tests32 s @ [p32]\<rparr>)
        \<and> passed (ret p64) \<and> passed (ret p32)"
    by (intro exI[of _ p64] exI[of _ p32]) (simp add: main_selftest[OF cmd] program_calls_def run_TEST_def)
next
  assume cmd: "command argv = ''selftest1''" "\<not> opt_fix (parse_options argv)"
    and ds: "GetDataSet (env_shuffle env) (env_junk env) (data_file s) (TypeSequential (parse_options argv))
            (bShuffle (parse_options argv)) (data_set s) = ret ds"
  show "main (program_calls TYPE('m) sz env) argv s = abort Resize_only_empty"
    using cmd(2) by (simp add: TEST1_stops[THEN conjunct1] main_selftest1[OF cmd(1)] program_calls_def run_GetDataSet_def ds run_TEST1_def)
qed

text \<open>C6. The command \<open>run\<close>, from the arguments to the lines that are printed: when the selected objects are the
  maps, sets and indices of \<^verbatim>\<open>SimdHash.h\<close> whose capacities are powers of two and the maps of
  \<open>ankerl::unordered_dense\<close>, the data set is read, its
  keys are different also when cut to 32 bits, and the loads are between 20 and 209715299, for \<open>ankerl\<close>
  16777214, with a step that is not 0,
  then every selected benchmark of \<open>TEST1\<close>, \<open>TEST3\<close>, \<open>TEST4\<close> or \<open>TEST5\<close> runs to its
  end, in the order of the classes, and prints one line per load, each after a table of exactly that many elements
  has been filled and checked.\<close>

theorem program_run_completes:
  fixes env :: "('g, 'r, 'j) environment"
  assumes vec: "vector_ok sz TYPE('m::len)" and smp: "sampler_ok (env_sample env)"
    and cmd: "command argv = ''run''" "TypeMask (parse_options argv) \<noteq> 0"
    and objs: "\<forall>obj \<in> set (selected_objects (parse_options argv)). fast_object obj \<and> maxLoad a \<le> object_limit obj"
    and ds: "GetDataSet (env_shuffle env) (env_junk env) (data_file s) (TypeSequential (parse_options argv))
        (bShuffle (parse_options argv)) (data_set s) = ret ds"
      "distinct (map ucast ds :: u32 list)" "size_accepted (of_nat (length ds))" "length ds < 2 ^ 64"
    and a: "a = main_args argv (parse_options argv) (of_nat (length ds))"
      "test_type (BenchFlags a) \<noteq> TEST2" "20 \<le> startLoad a" "stepLoad a \<noteq> 0" "maxLoad a \<le> 209715299"
  shows "\<exists>rss. main (program_calls TYPE('m) sz env) argv s
      = ret (s\<lparr>data_set := ds, results := results s @ zip (selected_objects (parse_options argv)) rss\<rparr>)
    \<and> length rss = length (selected_objects (parse_options argv))
    \<and> (\<forall>rows \<in> set rss. map row_Count rows = map ucast (loads_from a (startLoad a)))"
proof -
  have len: "unat (of_nat (length ds) :: u64) = length ds" using ds(4) by (simp add: unat_of_nat)
  have "unat (maxLoad a) \<le> length ds" using main_args_bounds(4)[OF ds(3), of argv "parse_options argv"] len by (simp add: a(1))
  moreover have "stepLoad a = step_load argv" by (simp add: a(1) main_args_def Let_def)
  ultimately have "sound_loads ds a" using a(2-5) step_load_small[of argv] by (simp add: sound_loads_def)
  then have "\<exists>rows. bench_object TYPE('m) sz env obj a ds = ret rows \<and> map row_Count rows = map ucast (loads_from a (startLoad a))"
    if "obj \<in> set (selected_objects (parse_options argv))" for obj
    using that objs by (intro bench_object_ok[OF vec smp _ ds(2)]) auto
  from run_objects_ok[OF this, where s = "s\<lparr>data_set := ds\<rparr>"] show ?thesis
    by (simp add: main_run[OF cmd] program_calls_def run_GetDataSet_def ds(1) a(1)[symmetric])
qed

section \<open>Witnesses\<close>

definition demo_memory :: "('w::len word, 'w word) memory" where
  "demo_memory = \<lparr>mem_fill = (\<lambda>_. 7), mem_entries = (\<lambda>_. Entry 0 0), mem_index = (\<lambda>_. 0),
     mem_core = \<lparr>Capacity = 0, CapacityMask = 0, CapacityMultiplier = 0, CountGrowthLimit = 0, load_limit = 0,
       tags = TagArray_new, entries = EntryArray_new, realIndex = EntryArray_new, Count = 0\<rparr>\<rparr>"

definition demo_env :: "(unit, unit, unit) environment" where
  "demo_env =
     \<lparr>env_draw = (\<lambda>g. (0, g)), env_engine = (), env_J1S = (\<lambda>_ j. (1, j)), env_Judy = (), env_capacity = 16,
      env_opens = True, env_shuffle = id, env_junk = 0, env_sample = (\<lambda>g xs n. (take n xs, g)), env_seed = (),
      env_hash64 = (\<lambda>_ k. k), env_hash32 = (\<lambda>_ k. ucast k), env_memory64 = (\<lambda>_. demo_memory),
      env_memory32 = (\<lambda>_. demo_memory), env_memory1 = demo_memory, env_index = 0, env_robin = (True, True, 2 ^ 32),
      env_other = (\<lambda>_ _ _. ret [])\<rparr>"

definition demo_program :: program where
  "demo_program = \<lparr>data_set = [], data_file = Some [35651584], results = [], tests64 = [], tests32 = [], tests1 = []\<rparr>"

lemma program_selftests_witness:
  "\<exists>p64 p32. main (program_calls TYPE(16) 16 demo_env) [''SimdHash'', ''selftest''] demo_program
      = ret (demo_program\<lparr>tests64 := [p64], tests32 := [p32]\<rparr>)
    \<and> passed (ret p64) \<and> passed (ret p32)"
proof -
  have "vector_ok 16 TYPE(16)" by (simp add: vector_ok_def)
  moreover have "command [''SimdHash'', ''selftest''] = ''selftest''" by (simp add: command_def cmds_def)
  ultimately show ?thesis
    using program_selftests[where 'm = 16 and sz = 16 and argv = "[''SimdHash'', ''selftest'']" and env = demo_env
        and s = demo_program] by (simp add: demo_program_def)
qed

text \<open>A run on the sequential data set of 34 MB of numbers, from 1 to 16 million elements.\<close>

lemma program_run_completes_witness:
  "\<exists>rss. main (program_calls TYPE(16) 16 demo_env) [''SimdHash'', ''run'', ''16'', ''-simdhm'', ''-ankerlhm'', ''-seq''] demo_program
      = ret (demo_program\<lparr>data_set := iota 0 35651584,
          results := zip [Simd_Map Key64 Absl_hash Fast False, Ankerl_map Key64 Absl_hash] rss\<rparr>)
    \<and> length rss = 2 \<and> (\<forall>rows \<in> set rss. map row_Count rows = map (\<lambda>i. of_nat (1000000 * Suc i)) [0..<16])"
proof -
  let ?argv = "[''SimdHash'', ''run'', ''16'', ''-simdhm'', ''-ankerlhm'', ''-seq'']"
  let ?o = "parse_options ?argv" and ?ds = "iota 0 35651584"
  have o: "TypeMask ?o \<noteq> 0" "TypeSequential ?o = 1" "\<not> bShuffle ?o"
    "selected_objects ?o = [Simd_Map Key64 Absl_hash Fast False, Ankerl_map Key64 Absl_hash]"
    "test_type (opt_flags ?o) = TEST1" "atoi ''16'' = 16"
    by code_simp+
  have cmd: "command ?argv = ''run''" by (simp add: command_def cmds_def)
  have sz: "size_accepted 35651584" by (simp add: size_accepted_def vector_data_set_size_def)
  let ?a = "main_args ?argv ?o (of_nat (length ?ds))"
  have len: "length ?ds = 35651584" by (simp add: iota_def)
  have a: "startLoad ?a = 1000000" "stepLoad ?a = 1000000" "maxLoad ?a = 16000000" "BenchFlags ?a = opt_flags ?o"
    unfolding len by (simp_all add: main_args_def Let_def max_millions_def start_load_def step_load_def no_dash_def test_vector_size_def o(6))
  have ds: "GetDataSet (env_shuffle demo_env) (env_junk demo_env) (data_file demo_program) (TypeSequential ?o) (bShuffle ?o)
      (data_set demo_program) = ret ?ds"
    using o(2,3) sz by (simp add: GetDataSet_def demo_program_def Let_def sequential_set_def)
  have cut: "(ucast (of_nat n :: u64) :: u32) = of_nat n" for n
    by (rule bit_word_eqI) (simp add: bit_simps)
  have d: "distinct (map ucast ?ds :: u32 list)" by (rule iota_keys) simp
  have "loads_left ?a 1000000 = 16" by (simp add: loads_left_def a)
  moreover have "1000000 + of_nat i * 1000000 = (of_nat (1000000 * Suc i) :: u64)" for i by (simp add: mult.commute)
  ultimately have "loads_from ?a (startLoad ?a) = map (\<lambda>i. of_nat (1000000 * Suc i)) [0..<16]"
    by (simp only: loads_from_def a)
  then have loads: "map ucast (loads_from ?a (startLoad ?a)) = (map (\<lambda>i. of_nat (1000000 * Suc i)) [0..<16] :: u32 list)"
    using cut by (simp only: map_map comp_def)
  have smp: "sampler_ok (env_sample demo_env)" by (auto simp: sampler_ok_def demo_env_def take_is_prefix prefix_imp_subseq)
  have v: "vector_ok 16 TYPE(16)" by (simp add: vector_ok_def)
  have objs: "\<forall>obj \<in> set (selected_objects ?o). fast_object obj \<and> maxLoad ?a \<le> object_limit obj"
    using o(4) a(3) by (simp add: fast_object_def object_limit_def pow2_mode_def)
  have sz2: "size_accepted (of_nat (length ?ds))" "length ?ds < 2 ^ 64" using sz len by simp_all
  note p = program_run_completes[OF v smp cmd o(1) objs ds d sz2 refl]
  have "\<exists>rss. main (program_calls TYPE(16) 16 demo_env) ?argv demo_program
      = ret (demo_program\<lparr>data_set := ?ds, results := results demo_program @ zip (selected_objects ?o) rss\<rparr>)
    \<and> length rss = length (selected_objects ?o) \<and> (\<forall>rows \<in> set rss. map row_Count rows = map ucast (loads_from ?a (startLoad ?a)))"
    by (rule p) (use a o(5) in simp_all)
  then show ?thesis unfolding loads o(4) by (simp add: demo_program_def numeral_2_eq_2)
qed

end
