(* ===== verification/RobinErase.thy ===== *)
theory RobinErase
  imports RobinMaps
begin

text \<open>
  \<open>erase(first, end())\<close> of a \<open>robin_hash\<close>: it clears the buckets from \<open>first\<close> on and returns without closing
  the gap for the values that have wrapped around to the front. What is left is not a table that satisfies
  the invariant; the lemmas say exactly which keys a lookup still finds.
\<close>

text \<open>The buckets from \<open>f\<close> on are cleared, the others are as they were.\<close>

definition cut :: "nat \<Rightarrow> 'a bucket_entry list \<Rightarrow> 'a bucket_entry list \<Rightarrow> bool" where
  "cut f bs bs' \<longleftrightarrow> length bs' = length bs
     \<and> (\<forall>k < length bs. bucket_empty (bs' ! k) \<longleftrightarrow> f \<le> k \<or> bucket_empty (bs ! k))
     \<and> (\<forall>k < length bs. k < f \<longrightarrow> bs' ! k = bs ! k)"

lemma cutD:
  assumes "cut f bs bs'"
  shows "length bs' = length bs" "k < length bs \<Longrightarrow> f \<le> k \<Longrightarrow> bucket_empty (bs' ! k)"
    "k < length bs \<Longrightarrow> k < f \<Longrightarrow> bs' ! k = bs ! k" "k < length bs \<Longrightarrow> \<not> bucket_empty (bs' ! k) \<Longrightarrow> k < f"
  using assms by (auto simp: cut_def not_le)

lemma dist_cut:
  assumes "cut f bs bs'" "v < length bs"
  shows "v < f \<Longrightarrow> dist_at bs' v = dist_at bs v" "f \<le> v \<Longrightarrow> dist_at bs' v = -1"
  using cutD[OF assms(1)] assms(2) by (auto simp: dist_at_def bucket_empty_def EMPTY_MARKER_def)

lemma rvalues_cut:
  assumes "cut f bs bs'" "f \<le> length bs" "\<And>i. i < length bs' \<Longrightarrow> bucket_ok cfg p (length bs') i (bs' ! i)"
  shows "rvalues bs' = rvalues (take f bs)"
proof -
  note C = cutD[OF assms(1)]
  have "take f bs' = take f bs" using C(1,3) assms(2) by (intro nth_equalityI) auto
  moreover have "b_value (drop f bs' ! i) = None" if "i < length (drop f bs')" for i
    using that C(1) C(2)[of "f + i"] bucket_okD(1)[OF assms(3), of "f + i"] by simp
  then have "x \<notin># rvalues (drop f bs')" for x by (auto simp: in_rvalues)
  then have "rvalues (drop f bs') = {#}" by (metis multiset_nonemptyE)
  ultimately show ?thesis by (metis append_take_drop_id rvalues_simps(3) add.right_neutral)
qed

lemma loose_ok_flag [simp]:
  "loose_ok ok cfg (t\<lparr>m_try_shrink_on_next_insert := s\<rparr>) = loose_ok ok cfg t"
  by (simp add: loose_ok_def shape_def)

text \<open>A probe of the cut buckets does not get past the cut, and before it it sees what it saw.\<close>

lemma probed_below_cut:
  assumes c: "cut f bs bs'" and f: "f < length bs" and hm: "hm < length bs"
    and pr: "\<forall>i<m. int i \<le> dist_at bs' (hm + i)" and i: "i < m"
  shows "hm + i < f"
proof (rule ccontr)
  assume "\<not> hm + i < f"
  define v where "v = max hm f"
  have v: "f \<le> v" "v < length bs" "hm \<le> v" using f hm by (auto simp: v_def)
  moreover have "v \<le> hm + i" using \<open>\<not> hm + i < f\<close> by (simp add: v_def)
  ultimately have "int (v - hm) \<le> dist_at bs' v" using pr[rule_format, of "v - hm"] i by simp
  with dist_cut(2)[OF c v(2,1)] show False by simp
qed

lemma probed_cut_hit:
  assumes c: "cut f bs bs'" and f: "f < length bs" and hm: "hm < length bs"
    and bo: "\<And>i. i < length bs' \<Longrightarrow> bucket_ok cfg p (length bs') i (bs' ! i)"
    and pr: "probed cfg bs' key hm True m"
  shows "\<exists>i<f. \<exists>x. b_value (bs ! i) = Some x \<and> rh_key cfg x = key \<and> hm \<le> i"
proof -
  note C = cutD[OF c]
  have d: "\<forall>i<Suc m. int i \<le> dist_at bs' (hm + i)" using pr by (auto simp: probed_def less_Suc_eq)
  have lt: "hm + m < f" using probed_below_cut[OF c f hm d] by simp
  then have n: "hm + m < length bs" using f by simp
  have "\<not> bucket_empty (bs' ! (hm + m))"
    using pr n C(1) by (auto simp: probed_def dist_at_def bucket_empty_def EMPTY_MARKER_def)
  then have "b_value (bs' ! (hm + m)) = Some (bucket_value (bs' ! (hm + m)))"
    using bucket_okD(5)[OF bo] n C(1) by simp
  moreover have "rh_key cfg (bucket_value (bs' ! (hm + m))) = key"
    using pr n C(1) by (simp add: probed_def key_at_pos_def)
  ultimately show ?thesis using lt C(3)[OF n lt] by (intro exI[of _ "hm + m"]) auto
qed

lemma probed_cut_miss:
  assumes c: "cut f bs bs'" and ok: "buckets_ok cfg p bs" and f: "f < length bs" and hm: "hm < length bs"
    and pr: "probed cfg bs' (rh_key cfg x) hm False m"
    and x: "i < f" "b_value (bs ! i) = Some x" "elem_home cfg p x = hm"
  shows "i < hm"
proof (rule ccontr)
  assume le: "\<not> i < hm"
  note C = cutD[OF c]
  have i: "i < length bs" using x(1) f by simp
  note B = bucket_okD[OF buckets_ok_nth[OF ok i]]
  have full: "\<not> bucket_empty (bs ! i)" using B(1) x(2) by simp
  have bv: "bucket_value (bs ! i) = x" using x(2) by (simp add: bucket_value_def)
  define d where "d = nat (b_dist (bs ! i))"
  have d: "int d = b_dist (bs ! i)" "d < length bs" using B(2) B(4)[OF order.strict_trans1[OF le0 i]] full by (auto simp: d_def)
  have "(hm + d) mod length bs = i" using B(6)[OF full] x(3) bv by (simp add: d_def)
  then have at: "hm + d = i"
    using d(2) hm le i by (cases "hm + d < length bs") (simp_all add: mod_if split: if_splits)
  show False
  proof (cases "d < m")
    case True
    then have "key_at_pos cfg bs' (hm + d) \<noteq> rh_key cfg x" using pr by (simp add: probed_def)
    then show False using C(1) C(3)[OF i x(1)] bv i by (simp add: at key_at_pos_def)
  next
    case False
    then have v: "hm + m \<le> i" "hm + m < length bs" "hm + m < f" using at i x(1) by auto
    have "dist_at bs i = int d" using i d(1) by (simp add: dist_at_def)
    moreover have "dist_at bs i \<le> dist_at bs (hm + m) + int (i - (hm + m))" by (rule dist_at_back[OF ok v(1)])
    moreover have "dist_at bs (hm + m) < int m" using pr dist_cut(1)[OF c v(2,3)] by (simp add: probed_def)
    ultimately show False using at v(1) by simp
  qed
qed

context robin begin

text \<open>A lookup in what is left finds a key exactly if its value is before the cut and has not wrapped
  around.\<close>

lemma contains_cut:
  assumes ok: "robin_ok policy_ok cfg t" and sh: "short t"
    and c: "cut f (m_buckets_data t) (m_buckets_data t')" and f: "f < length (m_buckets_data t)"
    and t': "loose_ok policy_ok cfg t'" "rh_pol t' = rh_pol t"
  shows "robin_contains cfg t' key = Some (\<exists>i<f. \<exists>x. b_value (m_buckets_data t ! i) = Some x
    \<and> rh_key cfg x = key \<and> elem_home cfg (rh_pol t) x \<le> i)"
proof -
  let ?bs = "m_buckets_data t" and ?bs' = "m_buckets_data t'"
  define hm where "hm = unat (policy_bucket (rh_policy cfg) (rh_pol t) (rh_hash cfg key))"
  note R = robin_okD[OF ok] and C = cutD[OF c]
  have ne: "?bs \<noteq> []" "?bs' \<noteq> []" using f C(1) by auto
  have s': "shape policy_ok t'"
    and bo: "\<And>i. i < length ?bs' \<Longrightarrow> bucket_ok cfg (rh_pol t') (length ?bs') i (?bs' ! i)"
    using t'(1) by (auto simp: loose_ok_def)
  have hm: "hm < length ?bs"
  proof -
    have "policy_ok (m_bucket_count t) (rh_pol t)" "0 < m_bucket_count t"
      using R(1) ne shape_empty[OF R(1)] by (auto simp: shape_def word_gt_0)
    from bucket_less[OF this, of "rh_hash cfg key"] show ?thesis
      using R(1) by (simp add: hm_def shape_def word_less_nat_alt)
  qed
  have small: "dist_at ?bs' v \<le> 32766" for v
  proof -
    let ?k = "v mod length ?bs"
    have k: "?k < length ?bs" using ne(1) by simp
    have "dist_at ?bs' v = dist_at ?bs' ?k" using C(1) by (metis dist_at_mod(1))
    moreover have "dist_at ?bs' ?k \<le> 32766"
      using dist_cut[OF c k] shortD[OF sh ne(1), of ?k] by (cases "?k < f") auto
    ultimately show ?thesis by simp
  qed
  have "\<exists>hit m. find_loop cfg t' key (rh_hash cfg key) (vpos t' (hm + 0)) (int 0) = Some (hit, vpos t' (hm + m), int m)
    \<and> probed cfg ?bs' key hm hit m"
    by (rule find_loop_runs[OF s' ne(2) bo small refl]) simp_all
  then obtain hit m where run: "find_loop cfg t' key (rh_hash cfg key) (robin_bucket_for_hash cfg t' (rh_hash cfg key)) 0
      = Some (hit, vpos t' (hm + m), int m)" and pr: "probed cfg ?bs' key hm hit m"
    using bucket_vpos[OF s' ne(2), of "rh_hash cfg key"] t'(2) by (auto simp: hm_def)
  have res: "robin_contains cfg t' key = Some hit"
    using run vpos_less[OF s' ne(2), of "hm + m"]
    by (auto simp: robin_contains_def robin_count_def find_impl_def robin_end_def)
  have home: "elem_home cfg (rh_pol t) x = hm" if "rh_key cfg x = key" for x
    using that by (simp add: elem_home_def hm_def)
  show ?thesis
  proof (cases hit)
    case True
    then have "probed cfg ?bs' key hm True m" using pr by simp
    from probed_cut_hit[OF c f hm bo this] True home show ?thesis unfolding res by auto
  next
    case False
    then have pr': "probed cfg ?bs' key hm False m" using pr by simp
    have "i < elem_home cfg (rh_pol t) x"
      if "i < f" "b_value (?bs ! i) = Some x" "rh_key cfg x = key" for i x
      using probed_cut_miss[OF c R(2)[OF ne(1)] f hm _ that(1,2), of m] pr' that(3) home[OF that(3)] by simp
    then show ?thesis unfolding res using False by fastforce
  qed
qed

lemma erase_to_end:
  assumes ok: "robin_ok policy_ok cfg t" and sh: "short t" and f: "first < m_bucket_count t"
  shows "\<exists>t'. erase_range cfg first (robin_end t) t = Some (robin_end t, t')
    \<and> elems t' = rvalues (take (unat first) (m_buckets_data t)) \<and> unat (m_nb_elements t') = size (elems t')
    \<and> (\<forall>key. robin_contains cfg t' key = Some (\<exists>i<unat first. \<exists>x. b_value (m_buckets_data t ! i) = Some x
        \<and> rh_key cfg x = key \<and> elem_home cfg (rh_pol t) x \<le> i))"
proof -
  note R = robin_okD[OF ok]
  let ?bs = "m_buckets_data t" and ?f = "unat first" and ?n = "length (m_buckets_data t)"
  have len: "?n = unat (m_bucket_count t)" using R(1) by (simp add: shape_def)
  have lt: "?f < ?n" using f len by (simp add: word_less_nat_alt)
  then have ne: "?bs \<noteq> []" by auto
  have "loose_ok policy_ok cfg t"
    using R(1,6) ne R(2)[OF ne] by (auto simp: loose_ok_def buckets_ok_def)
  from clear_buckets_loose[OF this less_imp_le[OF lt] refl] obtain bs c where
    r: "fold clear_bucket_counted (map of_nat [?f..<?n]) t = t\<lparr>m_buckets_data := bs, m_nb_elements := c\<rparr>"
      "loose_ok policy_ok cfg (t\<lparr>m_buckets_data := bs, m_nb_elements := c\<rparr>)" "cut ?f ?bs bs"
    unfolding cut_def by blast
  let ?t = "t\<lparr>m_buckets_data := bs, m_nb_elements := c, m_try_shrink_on_next_insert := True\<rparr>"
  have lo: "loose_ok policy_ok cfg ?t" using r(2) by simp
  have "first \<noteq> robin_end t" using f by (auto simp: robin_end_def)
  then have "erase_range cfg first (robin_end t) t = Some (robin_end t, ?t)"
    using r(1) len by (simp add: erase_range_def robin_end_def Let_def)
  moreover have "elems ?t = rvalues (take ?f ?bs)"
    using rvalues_cut[OF r(3), of cfg "rh_pol t"] lt lo by (auto simp: loose_ok_def)
  moreover have "unat (m_nb_elements ?t) = size (elems ?t)" using lo by (simp add: loose_ok_def)
  moreover have "robin_contains cfg ?t key = Some (\<exists>i<?f. \<exists>x. b_value (?bs ! i) = Some x
        \<and> rh_key cfg x = key \<and> elem_home cfg (rh_pol t) x \<le> i)" for key
    using r(3) by (intro contains_cut[OF ok sh _ lt lo]) simp_all
  ultimately show ?thesis by blast
qed

end

end
