(* ===== verification/RobinProps.thy ===== *)
theory RobinProps
  imports RobinHistory RobinErase
begin

text \<open>
  The properties of the tables of \<^verbatim>\<open>tsl/robin_hash.h\<close> and their growth policies, each
  with a witness on a concrete table.
\<close>

section \<open>Tables for the witnesses\<close>

text \<open>A \<open>robin_map\<close> from 64-bit words to 64-bit words with the identity as its hash: empty, and with one
  entry.\<close>

definition rd_cfg :: "(u64 \<times> u64, u64, u64) rh_config" where
  "rd_cfg = robin_map_config False (\<lambda>k. k) True True 0x1000000"

definition rd0 :: "(u64 \<times> u64, u64) robin_hash" where
  "rd0 = \<lparr>rh_pol = 0, m_buckets_data = [], m_bucket_count = 0, m_nb_elements = 0, m_load_threshold = 0,
     m_min_load_factor = 0, m_max_load_factor = 1 / 2, m_grow_on_next_insert = False,
     m_try_shrink_on_next_insert = False\<rparr>"

definition rd1 :: "(u64 \<times> u64, u64) robin_hash" where
  "rd1 = \<lparr>rh_pol = 1,
     m_buckets_data = [\<lparr>b_dist = -1, b_last = False, b_hash = 0, b_value = None\<rparr>,
       \<lparr>b_dist = 0, b_last = True, b_hash = 0, b_value = Some (7, 70)\<rparr>],
     m_bucket_count = 2, m_nb_elements = 1, m_load_threshold = 1,
     m_min_load_factor = 0, m_max_load_factor = 1 / 2, m_grow_on_next_insert = False,
     m_try_shrink_on_next_insert = False\<rparr>"

lemma rd0_ok: "robin_ok pow2_ok rd_cfg rd0" "is_rmap rd0 Map.empty"
  by (auto simp: rd0_def robin_ok_def shape_def pow2_ok_def keys_distinct_def max_lf_ok_def is_rmap_def
      RH_load_factor_values)

lemma rd1_emplaced: "robin_emplace rd_cfg (7, 70) rd0 = ret (1, True, rd1)"
  by code_simp

lemma rd1_ok: "robin_ok pow2_ok rd_cfg rd1" "is_rmap rd1 [7 \<mapsto> 70]"
  using rmap.emplace_ok[OF rd0_ok(1)[unfolded rd_cfg_def] _ rd0_ok(2), of 7 70] rd1_emplaced
  by (auto simp: rd_cfg_def rd0_def)

definition rs_cfg :: "(u64, u64, nat) rh_config" where
  "rs_cfg = robin_pg_set_config False (\<lambda>k. k) True True 0x1000000"

definition rs0 :: "(u64, nat) robin_hash" where
  "rs0 = \<lparr>rh_pol = 0, m_buckets_data = [], m_bucket_count = 0, m_nb_elements = 0, m_load_threshold = 0,
     m_min_load_factor = 0, m_max_load_factor = 1 / 2, m_grow_on_next_insert = False,
     m_try_shrink_on_next_insert = False\<rparr>"

lemma rs0_ok: "robin_ok prime_ok rs_cfg rs0" "is_rset rs0 {}"
  by (auto simp: rs0_def robin_ok_def shape_def prime_ok_def keys_distinct_def max_lf_ok_def is_rset_def
      RH_load_factor_values)

section \<open>Maps\<close>

text \<open>C24. Whatever sequence of at most 32766 insertions, assignments, removals, rehashes, reservations and
  clears follows the construction of a \<open>robin_map\<close>, either the growth policy or the allocator refuses a
  bucket count (\<open>std::length_error\<close>) or every operation returns and the map holds the finite partial
  function that the sequence describes: \<open>contains\<close>, \<open>at\<close> and the number of elements are those of the
  function, and \<open>at\<close> throws \<open>std::out_of_range\<close> outside its domain.\<close>

theorem robin_map_history:
  fixes ps :: "('k, 'v) map_op list"
  assumes "length ps \<le> 32766"
  shows "map_history (robin_map_config st hash ss sd mx) zero n a b ps = abort Length_error
    \<or> (\<exists>t. map_history (robin_map_config st hash ss sd mx) zero n a b ps = ret t
        \<and> unat (m_nb_elements t) = card (dom (map_history_spec zero ps))
        \<and> (\<forall>k. robin_contains (robin_map_config st hash ss sd mx) t k = Some (k \<in> dom (map_history_spec zero ps)))
        \<and> (\<forall>k. robin_at (robin_map_config st hash ss sd mx) t k (hash k)
              = (case map_history_spec zero ps k of Some v \<Rightarrow> ret (k, v) | None \<Rightarrow> abort Out_of_range)))"
proof -
  let ?cfg = "robin_map_config st hash ss sd mx :: ('k \<times> 'v, 'k, u64) rh_config" and ?m = "map_history_spec zero ps"
  have hash: "rh_hash ?cfg = hash" by (simp add: robin_map_config_def tsl_config_def)
  have start: "op_done pow2_ok ?cfg Map.empty (robin_new ?cfg n a b)" by (rule rmap.robin_new_start)
  consider "robin_new ?cfg n a b = abort Length_error"
    | t0 where "robin_new ?cfg n a b = ret t0" "robin_ok pow2_ok ?cfg t0" "is_rmap t0 Map.empty"
    using start by (auto simp: op_done_def)
  then show ?thesis
  proof cases
    case (2 t0)
    have n0: "unat (m_nb_elements t0) = 0" using rmap_size(2)[OF 2(2) rmap.key_fst 2(3)] by simp
    have "op_done pow2_ok ?cfg ?m (run_fold (map_op_step ?cfg zero) ps t0)"
      unfolding map_history_spec_def using assms(1) n0 by (intro rmap.history_ok 2) simp
    then show ?thesis unfolding op_done_def
    proof (elim disjE exE conjE)
      fix t assume t: "run_fold (map_op_step ?cfg zero) ps t0 = ret t" "robin_ok pow2_ok ?cfg t" "is_rmap t ?m"
      have nb: "unat (m_nb_elements t) = card (dom ?m)" using rmap_size(2)[OF t(2) rmap.key_fst t(3)] by simp
      have "card (dom ?m) \<le> 32766" using map_op_spec_fold_card[of zero ps] assms(1) by simp
      then have s: "short t" using nb by (intro small_short[OF t(2)]) simp
      have "robin_contains ?cfg t k = Some (k \<in> dom ?m)" for k
        using rmap.contains_correct[OF t(2) s, of k] is_rmap_dom[OF t(3)] by (simp add: rmap.key_fst)
      then show ?thesis using 2(1) t(1) nb rmap.at_ok[OF t(2) s t(3), unfolded hash] by (auto simp: map_history_def)
    qed (simp add: map_history_def 2(1))
  qed (simp add: map_history_def)
qed

lemma robin_map_history_witness:
  "\<exists>t. map_history rd_cfg 0 0 0 (1 / 2) [Op_emplace 3 30, Op_insert_or_assign 3 31, Op_emplace 4 40, Op_erase 4] = ret t
    \<and> unat (m_nb_elements t) = 1 \<and> robin_contains rd_cfg t 3 = Some True \<and> robin_contains rd_cfg t 4 = Some False"
proof -
  let ?ps = "[Op_emplace 3 30, Op_insert_or_assign 3 31, Op_emplace 4 40, Op_erase 4] :: (u64, u64) map_op list"
  have "map_history rd_cfg 0 0 0 (1 / 2) ?ps \<noteq> abort Length_error" by code_simp
  moreover have d: "dom (map_history_spec (0 :: u64) ?ps) = {3}" by (auto simp: map_history_spec_def)
  ultimately show ?thesis
    using robin_map_history[where ps = ?ps and zero = 0 and st = False and hash = "\<lambda>k. k" and ss = True
        and sd = True and mx = "0x1000000" and n = 0 and a = 0 and b = "1 / 2"]
    unfolding d rd_cfg_def[symmetric] by auto
qed

text \<open>\<open>insert_or_assign\<close> of a \<open>robin_map\<close> gives the key the new value, whether or not it was there,
  and returns the position of the entry and whether the key was new; \<open>emplace\<close> leaves an existing entry,
  and the whole table, as it is. Both keep the invariant and fail only with \<open>std::length_error\<close>, for a new
  key.\<close>

theorem robin_map_insertions:
  assumes "robin_ok pow2_ok (robin_map_config st hash ss sd mx) t" "is_rmap t m" "unat (m_nb_elements t) \<le> 32766"
  shows "(insert_or_assign (robin_map_config st hash ss sd mx) k v t = abort Length_error \<and> m k = None
      \<or> (\<exists>pos t'. insert_or_assign (robin_map_config st hash ss sd mx) k v t = ret (pos, m k = None, t')
          \<and> robin_ok pow2_ok (robin_map_config st hash ss sd mx) t' \<and> is_rmap t' (m(k \<mapsto> v))
          \<and> b_value (bucket_at t' pos) = Some (k, v)))
    \<and> (robin_emplace (robin_map_config st hash ss sd mx) (k, v) t = abort Length_error \<and> m k = None
      \<or> (\<exists>pos t'. robin_emplace (robin_map_config st hash ss sd mx) (k, v) t = ret (pos, m k = None, t')
          \<and> robin_ok pow2_ok (robin_map_config st hash ss sd mx) t'
          \<and> is_rmap t' (if m k = None then m(k \<mapsto> v) else m) \<and> (m k \<noteq> None \<longrightarrow> t' = t)))"
  using rmap.insert_or_assign_ok[OF assms(1,3,2)] rmap.emplace_ok[OF assms(1,3,2)] by (rule conjI)

lemma robin_map_insertions_witness:
  "\<exists>pos t'. insert_or_assign rd_cfg 7 71 rd1 = ret (pos, False, t') \<and> is_rmap t' [7 \<mapsto> 71]
     \<and> robin_emplace rd_cfg (7, 72) rd1 = ret (1, False, rd1)"
proof -
  have "robin_emplace rd_cfg (7, 72) rd1 = ret (1, False, rd1)" by code_simp
  then show ?thesis
    using robin_map_insertions[OF rd1_ok(1)[unfolded rd_cfg_def] rd1_ok(2), of 7 71]
    by (auto simp: rd_cfg_def rd1_def)
qed

text \<open>\<open>erase(key)\<close> of a \<open>robin_map\<close> removes the key by backward shifting, returns the number of
  removed entries, 0 or 1, and keeps the invariant; \<open>at\<close> reads the map and throws \<open>std::out_of_range\<close> for
  a missing key; \<open>operator[]\<close> creates a missing key with the default value.\<close>

theorem robin_map_erase_at:
  assumes "robin_ok pow2_ok (robin_map_config st hash ss sd mx) t" "is_rmap t m" "unat (m_nb_elements t) \<le> 32766"
  shows "(\<exists>t'. erase_key (robin_map_config st hash ss sd mx) k (hash k) t = Some (if m k = None then 0 else 1, t')
        \<and> robin_ok pow2_ok (robin_map_config st hash ss sd mx) t' \<and> is_rmap t' (m(k := None)))
    \<and> robin_at (robin_map_config st hash ss sd mx) t k (hash k)
        = (case m k of Some v \<Rightarrow> ret (k, v) | None \<Rightarrow> abort Out_of_range)
    \<and> (robin_subscript (robin_map_config st hash ss sd mx) zero k t = abort Length_error \<and> m k = None
      \<or> (\<exists>t'. robin_subscript (robin_map_config st hash ss sd mx) zero k t
            = ret (case m k of Some v \<Rightarrow> v | None \<Rightarrow> zero, t')
          \<and> robin_ok pow2_ok (robin_map_config st hash ss sd mx) t'
          \<and> is_rmap t' (if m k = None then m(k \<mapsto> zero) else m)))"
proof -
  note s = small_short[OF assms(1,3)]
  have hash: "rh_hash (robin_map_config st hash ss sd mx) = hash" by (simp add: robin_map_config_def tsl_config_def)
  show ?thesis
    using rmap.erase_ok[OF assms(1) s assms(2)] rmap.at_ok[OF assms(1) s assms(2)]
      rmap.subscript_ok[OF assms(1,3,2)]
    unfolding hash by (intro conjI)
qed

lemma robin_map_erase_at_witness:
  "(\<exists>t'. erase_key rd_cfg 7 7 rd1 = Some (1, t') \<and> is_rmap t' Map.empty)
    \<and> robin_at rd_cfg rd1 8 8 = abort Out_of_range"
proof -
  have "unat (m_nb_elements rd1) \<le> 32766" by (simp add: rd1_def)
  note ea = robin_map_erase_at[OF rd1_ok(1)[unfolded rd_cfg_def] rd1_ok(2) this]
  have "[7 \<mapsto> 70](7 := None) = (Map.empty :: u64 \<rightharpoonup> u64)" by auto
  then have "\<exists>t'. erase_key rd_cfg 7 7 rd1 = Some (1, t') \<and> is_rmap t' Map.empty"
    using conjunct1[OF ea[of 7 0]] by (auto simp: rd_cfg_def)
  moreover have "robin_at rd_cfg rd1 8 8 = abort Out_of_range"
    using ea[of 8 0] by (simp add: rd_cfg_def)
  ultimately show ?thesis ..
qed

section \<open>Sets\<close>

text \<open>A table that takes the next key without a rehash: it is below its load threshold, has no request to
  grow or shrink pending, and no value is \<open>DIST_FROM_IDEAL_BUCKET_LIMIT\<close> buckets away from home.\<close>

definition settled :: "('a, 'p) robin_hash \<Rightarrow> bool" where
  "settled t \<longleftrightarrow> \<not> m_grow_on_next_insert t \<and> m_nb_elements t < m_load_threshold t
     \<and> (m_min_load_factor t = 0 \<or> \<not> m_try_shrink_on_next_insert t)
     \<and> (\<forall>b \<in> set (m_buckets_data t). b_dist b < DIST_LIMIT)"

lemma settled_dist:
  assumes "robin_ok ok cfg t" "settled t"
  shows "dist_at (m_buckets_data t) v < DIST_LIMIT"
proof -
  have "m_buckets_data t \<noteq> []" using robin_okD(5)[OF assms(1)] assms(2) by (auto simp: settled_def)
  then show ?thesis using assms(2) by (simp add: settled_def dist_at_def)
qed

text \<open>So \<open>emplace\<close> throws only for a new key and a table that is not settled.\<close>

lemma set_emplace_settled:
  assumes ok: "robin_ok prime_ok (robin_pg_set_config st hash ss sd mx) t" and S: "is_rset t S"
    and "settled t" "k \<notin> S"
  shows "robin_emplace (robin_pg_set_config st hash ss sd mx) k t \<noteq> abort Length_error"
proof -
  let ?cfg = "robin_pg_set_config st hash ss sd mx"
  have "k \<notin> rh_key ?cfg ` set_mset (elems t)" using S assms(4) by (simp add: is_rset_def pgset.key_id)
  then show ?thesis
    using pgset.insert_impl_calm[OF ok, of "rh_key ?cfg k" k] settled_dist[OF ok assms(3)] assms(3)
    by (auto simp: robin_emplace_def robin_insert_def settled_def pgset.key_id)
qed

text \<open>C30. A set with prime bucket counts (\<open>robin_pg_set\<close>) and at most 32766 elements, whatever the hash:
  \<open>emplace\<close> inserts the key and returns whether it was new, leaving the table alone when it was not;
  \<open>erase\<close> deletes it and returns how many there were; \<open>contains\<close> tests membership. \<open>erase\<close> and \<open>contains\<close>
  return, and so does \<open>emplace\<close> for a key that is there and for any key when the table is settled; for a
  new key in a table that is not settled it may throw \<open>std::length_error\<close> instead.\<close>

theorem robin_set_refines:
  assumes "robin_ok prime_ok (robin_pg_set_config st hash ss sd mx) t" "is_rset t S" "unat (m_nb_elements t) \<le> 32766"
  shows "(robin_emplace (robin_pg_set_config st hash ss sd mx) k t = abort Length_error \<and> k \<notin> S \<and> \<not> settled t
      \<or> (\<exists>pos t'. robin_emplace (robin_pg_set_config st hash ss sd mx) k t = ret (pos, k \<notin> S, t')
          \<and> robin_ok prime_ok (robin_pg_set_config st hash ss sd mx) t' \<and> is_rset t' (insert k S)
          \<and> (k \<in> S \<longrightarrow> t' = t)))
    \<and> (\<exists>t'. erase_key (robin_pg_set_config st hash ss sd mx) k (hash k) t = Some (if k \<in> S then 1 else 0, t')
        \<and> robin_ok prime_ok (robin_pg_set_config st hash ss sd mx) t' \<and> is_rset t' (S - {k}))
    \<and> robin_contains (robin_pg_set_config st hash ss sd mx) t k = Some (k \<in> S)"
proof -
  note s = small_short[OF assms(1,3)]
  have hash: "rh_hash (robin_pg_set_config st hash ss sd mx) = hash" by (simp add: robin_pg_set_config_def tsl_config_def)
  have "robin_emplace (robin_pg_set_config st hash ss sd mx) k t = abort Length_error \<and> k \<notin> S \<and> \<not> settled t
      \<or> (\<exists>pos t'. robin_emplace (robin_pg_set_config st hash ss sd mx) k t = ret (pos, k \<notin> S, t')
          \<and> robin_ok prime_ok (robin_pg_set_config st hash ss sd mx) t' \<and> is_rset t' (insert k S)
          \<and> (k \<in> S \<longrightarrow> t' = t))"
    using pgset.set_emplace_ok[OF assms(1,3,2), of k] set_emplace_settled[OF assms(1,2), of k] by blast
  then show ?thesis
    using pgset.set_erase_ok[OF assms(1) s assms(2)] pgset.set_contains_ok[OF assms(1) s assms(2)]
    unfolding hash by (intro conjI)
qed

lemma robin_set_refines_witness:
  "\<exists>pos t'. robin_emplace rs_cfg 9 rs0 = ret (pos, True, t') \<and> robin_ok prime_ok rs_cfg t' \<and> is_rset t' {9}"
proof -
  have "unat (m_nb_elements rs0) \<le> 32766" by (simp add: rs0_def)
  moreover have "robin_emplace rs_cfg 9 rs0 \<noteq> abort Length_error" by code_simp
  ultimately show ?thesis
    using robin_set_refines[OF rs0_ok(1)[unfolded rs_cfg_def] rs0_ok(2), of 9] by (auto simp: rs_cfg_def)
qed

section \<open>Tables of any size\<close>

text \<open>The table of the witnesses with four buckets, and with a second key of the same home that has
  wrapped around to bucket 0.\<close>

definition rd2 :: "(u64 \<times> u64, u64) robin_hash" where
  "rd2 = \<lparr>rh_pol = 3,
     m_buckets_data = [\<lparr>b_dist = -1, b_last = False, b_hash = 0, b_value = None\<rparr>,
       \<lparr>b_dist = -1, b_last = False, b_hash = 0, b_value = None\<rparr>,
       \<lparr>b_dist = -1, b_last = False, b_hash = 0, b_value = None\<rparr>,
       \<lparr>b_dist = 0, b_last = True, b_hash = 0, b_value = Some (7, 70)\<rparr>],
     m_bucket_count = 4, m_nb_elements = 1, m_load_threshold = 2,
     m_min_load_factor = 0, m_max_load_factor = 1 / 2, m_grow_on_next_insert = False,
     m_try_shrink_on_next_insert = False\<rparr>"

definition rd3 :: "(u64 \<times> u64, u64) robin_hash" where
  "rd3 = \<lparr>rh_pol = 3,
     m_buckets_data = [\<lparr>b_dist = 1, b_last = False, b_hash = 0, b_value = Some (3, 30)\<rparr>,
       \<lparr>b_dist = -1, b_last = False, b_hash = 0, b_value = None\<rparr>,
       \<lparr>b_dist = -1, b_last = False, b_hash = 0, b_value = None\<rparr>,
       \<lparr>b_dist = 0, b_last = True, b_hash = 0, b_value = Some (7, 70)\<rparr>],
     m_bucket_count = 4, m_nb_elements = 2, m_load_threshold = 2,
     m_min_load_factor = 0, m_max_load_factor = 1 / 2, m_grow_on_next_insert = False,
     m_try_shrink_on_next_insert = False\<rparr>"

lemma rd2_ok: "robin_ok pow2_ok rd_cfg rd2" "is_rmap rd2 [7 \<mapsto> 70]"
proof -
  have e: "robin_rehash rd_cfg 4 rd1 = ret rd2" by code_simp
  have "unat (m_nb_elements rd1) \<le> 32767" by (simp add: rd1_def)
  from rmap.robin_rehash_ok[OF rd1_ok(1)[unfolded rd_cfg_def] this, of 4]
  show "robin_ok pow2_ok rd_cfg rd2" "is_rmap rd2 [7 \<mapsto> 70]"
    using e rd1_ok(2) by (auto simp: rd_cfg_def is_rmap_def)
qed

lemma rd3_ok: "robin_ok pow2_ok rd_cfg rd3" "is_rmap rd3 [7 \<mapsto> 70, 3 \<mapsto> 30]"
proof -
  have e: "robin_emplace rd_cfg (3, 30) rd2 = ret (0, True, rd3)" by code_simp
  have "unat (m_nb_elements rd2) \<le> 32766" by (simp add: rd2_def)
  from rmap.emplace_ok[OF rd2_ok(1)[unfolded rd_cfg_def] this rd2_ok(2), of 3 30]
  show "robin_ok pow2_ok rd_cfg rd3" "is_rmap rd3 [7 \<mapsto> 70, 3 \<mapsto> 30]"
    using e by (auto simp: rd_cfg_def)
qed

text \<open>In a table of any size that has room, has no request to grow or shrink pending and whose values
  are all less than \<open>DIST_FROM_IDEAL_BUCKET_LIMIT\<close> buckets away from home, the insertion of a new key
  returns without a rehash: it adds exactly this entry, returns its position and keeps the invariant.\<close>

theorem robin_insert_without_rehash:
  assumes "robin_ok pow2_ok (robin_map_config st hash ss sd mx) t"
    and "\<not> m_grow_on_next_insert t" "m_nb_elements t < m_load_threshold t"
    and "m_min_load_factor t = 0 \<or> \<not> m_try_shrink_on_next_insert t"
    and "\<forall>b \<in> set (m_buckets_data t). b_dist b < DIST_LIMIT"
    and "fst x \<notin> fst ` set_mset (elems t)"
  shows "\<exists>pos t'. robin_insert (robin_map_config st hash ss sd mx) x t = ret (pos, True, t')
    \<and> robin_ok pow2_ok (robin_map_config st hash ss sd mx) t' \<and> elems t' = add_mset x (elems t)
    \<and> b_value (bucket_at t' pos) = Some x \<and> m_bucket_count t' = m_bucket_count t
    \<and> m_nb_elements t' = m_nb_elements t + 1"
proof -
  have "m_buckets_data t \<noteq> []" using robin_okD(5)[OF assms(1)] assms(3) by auto
  then have "dist_at (m_buckets_data t) v < DIST_LIMIT" for v using assms(5) by (simp add: dist_at_def)
  moreover have "rh_key (robin_map_config st hash ss sd mx) x \<notin> rh_key (robin_map_config st hash ss sd mx) ` set_mset (elems t)"
    using assms(6) by (simp only: rmap.key_fst not_False_eq_True)
  ultimately show ?thesis unfolding robin_insert_def by (intro rmap.insert_impl_calm assms refl)
qed

lemma robin_insert_without_rehash_witness:
  "\<exists>pos t'. robin_insert rd_cfg (3, 30) rd2 = ret (pos, True, t') \<and> elems t' = {#(3, 30), (7, 70)#}
    \<and> m_bucket_count t' = 4"
proof -
  have e: "elems rd2 = {#(7, 70)#}" by (simp add: rd2_def rvalues_def)
  show ?thesis
    using robin_insert_without_rehash[OF rd2_ok(1)[unfolded rd_cfg_def], of "(3, 30)"]
    unfolding e rd_cfg_def[symmetric] by (auto simp: rd2_def DIST_LIMIT_def)
qed

section \<open>Iteration\<close>

lemma distinct_count_le_1: "(\<And>k. count (mset xs) k \<le> 1) \<Longrightarrow> distinct xs"
  unfolding distinct_count_atmost_1 by (metis count_eq_zero_iff le_antisym less_one linorder_not_le set_mset_mset)

text \<open>C31. The iterator visits every value exactly once: from \<open>begin()\<close> to \<open>end()\<close> it returns the values of
  the buckets in order, as many as \<open>size()\<close> tells, and with no key twice. \<open>erase(pos)\<close> of a value removes it
  and returns the next position that holds a value, so a loop that erases while it iterates visits every
  value.\<close>

theorem robin_iteration:
  assumes "robin_ok pow2_ok (robin_map_config st hash ss sd mx) t"
  shows "(\<exists>xs. robin_iterate t (robin_begin t) = Some xs \<and> mset xs = elems t
        \<and> length xs = unat (m_nb_elements t) \<and> distinct (map fst xs))
    \<and> (\<forall>pos x. pos < m_bucket_count t \<longrightarrow> b_value (bucket_at t pos) = Some x \<longrightarrow>
        (\<exists>nx t'. erase_pos (robin_map_config st hash ss sd mx) pos t = Some (nx, t')
          \<and> robin_ok pow2_ok (robin_map_config st hash ss sd mx) t' \<and> elems t' = elems t - {#x#}
          \<and> unat pos \<le> unat nx \<and> nx \<le> m_bucket_count t'
          \<and> (\<forall>i. unat pos \<le> i \<longrightarrow> i < unat nx \<longrightarrow> bucket_empty (bucket_at t' (of_nat i)))
          \<and> (nx \<noteq> robin_end t' \<longrightarrow> \<not> bucket_empty (bucket_at t' nx))))"
proof (intro conjI allI impI)
  let ?xs = "value_list (m_buckets_data t)"
  note R = robin_okD[OF assms]
  have m: "mset ?xs = elems t" by (rule mset_value_list)
  have "count (mset (map fst ?xs)) k \<le> 1" for k
    using R(8) unfolding keys_distinct_def rmap.key_fst m[symmetric] by (simp only: mset_map)
  then have "distinct (map fst ?xs)" by (rule distinct_count_le_1)
  moreover have "length ?xs = unat (m_nb_elements t)" using R(6) m by (metis size_mset)
  ultimately show "\<exists>xs. robin_iterate t (robin_begin t) = Some xs \<and> mset xs = elems t
        \<and> length xs = unat (m_nb_elements t) \<and> distinct (map fst xs)"
    using robin_iterate_ok[OF assms] m by blast
next
  fix pos x assume p: "pos < m_bucket_count t" "b_value (bucket_at t pos) = Some x"
  have "m_buckets_data t \<noteq> []" using p(1) shape_empty[OF robin_okD(1)[OF assms]] by auto
  from rmap.erase_pos_ok[OF assms this p] obtain nx t' where t':
    "erase_pos (robin_map_config st hash ss sd mx) pos t = Some (nx, t')"
    "robin_ok pow2_ok (robin_map_config st hash ss sd mx) t'" "elems t' = elems t - {#x#}"
    "nx = of_nat (first_full (m_buckets_data t') (unat pos))" "m_bucket_count t' = m_bucket_count t" by blast
  have "unat pos \<le> length (m_buckets_data t')"
    using p(1) t'(5) robin_okD(1)[OF t'(2)] by (simp add: shape_def word_less_nat_alt)
  note ff = first_full_position[OF robin_okD(1)[OF t'(2)] this, folded t'(4)]
  show "\<exists>nx t'. erase_pos (robin_map_config st hash ss sd mx) pos t = Some (nx, t')
          \<and> robin_ok pow2_ok (robin_map_config st hash ss sd mx) t' \<and> elems t' = elems t - {#x#}
          \<and> unat pos \<le> unat nx \<and> nx \<le> m_bucket_count t'
          \<and> (\<forall>i. unat pos \<le> i \<longrightarrow> i < unat nx \<longrightarrow> bucket_empty (bucket_at t' (of_nat i)))
          \<and> (nx \<noteq> robin_end t' \<longrightarrow> \<not> bucket_empty (bucket_at t' nx))"
    using t'(1-3) ff(4) unfolding robin_end_def by (intro exI[of _ nx] exI[of _ t'] conjI ff(1-3)) auto
qed

lemma robin_iteration_witness:
  "(\<exists>xs. robin_iterate rd3 (robin_begin rd3) = Some xs \<and> mset xs = {#(7, 70), (3, 30)#})
    \<and> (\<exists>nx t'. erase_pos rd_cfg 3 rd3 = Some (nx, t') \<and> elems t' = {#(3, 30)#} \<and> 3 \<le> unat nx)"
proof -
  have e: "elems rd3 = {#(7, 70), (3, 30)#}" by (simp add: rd3_def rvalues_def)
  have p: "3 < m_bucket_count rd3" "b_value (bucket_at rd3 3) = Some (7, 70)"
    by (simp_all add: rd3_def bucket_at_def m_buckets_def)
  note it = robin_iteration[OF rd3_ok(1)[unfolded rd_cfg_def]]
  have "\<exists>nx t'. erase_pos rd_cfg 3 rd3 = Some (nx, t') \<and> elems t' = elems rd3 - {#(7, 70)#} \<and> unat (3 :: u64) \<le> unat nx"
    using conjunct2[OF it, rule_format, OF p] unfolding rd_cfg_def by blast
  then show ?thesis using conjunct1[OF it] unfolding e by auto
qed

text \<open>C32. \<open>erase(first, end())\<close> of a \<open>robin_map\<close> with at most 32766 elements, at any position before the end:
  it returns \<open>end()\<close>, it removes exactly the values from \<open>first\<close> on, and \<open>size()\<close> is the number of those that
  are left. But it does not close the gap for the values that have wrapped around to the front of the buckets:
  afterwards \<open>contains\<close> finds a key exactly if its value is left in a bucket that is not before its home, so it
  denies every key that is left and has wrapped around.\<close>

theorem erase_to_end_hides_values:
  assumes "robin_ok pow2_ok (robin_map_config st hash ss sd mx) t" "unat (m_nb_elements t) \<le> 32766"
    "first < m_bucket_count t"
  shows "\<exists>t'. erase_range (robin_map_config st hash ss sd mx) first (robin_end t) t = Some (robin_end t, t')
    \<and> elems t' = rvalues (take (unat first) (m_buckets_data t)) \<and> unat (m_nb_elements t') = size (elems t')
    \<and> (\<forall>k. robin_contains (robin_map_config st hash ss sd mx) t' k
        = Some (\<exists>i<unat first. \<exists>x. b_value (m_buckets_data t ! i) = Some x \<and> fst x = k
            \<and> elem_home (robin_map_config st hash ss sd mx) (rh_pol t) x \<le> i))"
  using rmap.erase_to_end[OF assms(1) small_short[OF assms(1,2)] assms(3)] unfolding rmap.key_fst .

text \<open>In the table with four buckets the key 3 has wrapped around to bucket 0.\<close>

lemma erase_to_end_hides_values_witness:
  "\<exists>t'. erase_range rd_cfg 3 (robin_end rd3) rd3 = Some (robin_end rd3, t') \<and> elems t' = {#(3, 30)#}
    \<and> robin_contains rd_cfg t' 3 = Some False"
proof -
  have "first3 < m_bucket_count rd3" if "first3 = 3" for first3 using that by (simp add: rd3_def)
  moreover have "unat (m_nb_elements rd3) \<le> 32766" by (simp add: rd3_def)
  ultimately obtain t' where t': "erase_range rd_cfg 3 (robin_end rd3) rd3 = Some (robin_end rd3, t')"
    "elems t' = rvalues (take (unat (3 :: u64)) (m_buckets_data rd3))"
    "robin_contains rd_cfg t' 3 = Some (\<exists>i<unat (3 :: u64). \<exists>x. b_value (m_buckets_data rd3 ! i) = Some x \<and> fst x = 3
        \<and> elem_home rd_cfg (rh_pol rd3) x \<le> i)"
    using erase_to_end_hides_values[OF rd3_ok(1)[unfolded rd_cfg_def], of 3, folded rd_cfg_def] by blast
  have "elem_home rd_cfg 3 (3, 30) = 3" by code_simp
  then have "\<not> (\<exists>i<unat (3 :: u64). \<exists>x. b_value (m_buckets_data rd3 ! i) = Some x \<and> fst x = 3
        \<and> elem_home rd_cfg (rh_pol rd3) x \<le> i)"
    by (auto simp: rd3_def nth_Cons' split: if_splits)
  with t' show ?thesis by (simp add: rd3_def rvalues_def)
qed

section \<open>Serialization\<close>

text \<open>C33. Reading what \<open>serialize\<close> wrote into a table of the same class without buckets, nothing of the
  stream beyond being read. With \<open>hash_compatible\<close>, for a table with buckets, at most \<open>max_size()\<close> of them, it
  gives the table back: the same policy, counts, load factors, values, distances and stored hashes, bucket
  by bucket; the load threshold alone is not restored: it was computed while the bucket count was still 0
  and stays 0, so that the next new key rehashes the table. Without \<open>hash_compatible\<close>, the default, the
  values, at most 32766 of them, are inserted again: the result has the same values and satisfies the
  invariant, unless the growth policy or the allocator refuses a bucket count (\<open>std::length_error\<close>). From a
  table without buckets only the load factors are read.\<close>

theorem robin_serialize_round_trip:
  assumes "cfg = robin_map_config st hash ss sd mx" "robin_ok pow2_ok cfg t" "min_lf_ok (m_min_load_factor t)"
    and "robin_ok pow2_ok cfg u" "m_bucket_count u = 0"
  shows "(0 < m_bucket_count t \<and> m_bucket_count t \<le> mx \<longrightarrow>
      (\<exists>t'. deserialize_impl cfg True u (serialize_impl cfg t @ s) = ret (t', s)
        \<and> rh_pol t' = rh_pol t \<and> m_bucket_count t' = m_bucket_count t \<and> m_nb_elements t' = m_nb_elements t
        \<and> m_min_load_factor t' = m_min_load_factor t \<and> m_max_load_factor t' = m_max_load_factor t
        \<and> map (bucket_view (STORE_HASH cfg)) (m_buckets_data t') = map (bucket_view (STORE_HASH cfg)) (m_buckets_data t)
        \<and> elems t' = elems t \<and> m_load_threshold t' = 0))
    \<and> (0 < m_bucket_count t \<and> unat (m_nb_elements t) \<le> 32766 \<longrightarrow>
        deserialize_impl cfg False u (serialize_impl cfg t @ s) = abort Length_error
        \<or> (\<exists>t'. deserialize_impl cfg False u (serialize_impl cfg t @ s) = ret (t', s)
            \<and> robin_ok pow2_ok cfg t' \<and> elems t' = elems t))
    \<and> (m_bucket_count t = 0 \<longrightarrow> deserialize_impl cfg hc u (serialize_impl cfg t @ s)
        = ret (set_max_load_factor (m_max_load_factor t) (set_min_load_factor (m_min_load_factor t) u), s))"
proof (intro conjI impI; (elim conjE)?)
  have mx: "rh_max_size cfg = mx" using assms(1) by (simp add: robin_map_config_def tsl_config_def)
  have d: "m_buckets_data u = []" using assms(5) shape_empty[OF robin_okD(1)[OF assms(4)]] by simp
  note a = assms(2-5)[unfolded assms(1)]
  assume bc: "0 < m_bucket_count t"
  show "\<exists>t'. deserialize_impl cfg True u (serialize_impl cfg t @ s) = ret (t', s)
        \<and> rh_pol t' = rh_pol t \<and> m_bucket_count t' = m_bucket_count t \<and> m_nb_elements t' = m_nb_elements t
        \<and> m_min_load_factor t' = m_min_load_factor t \<and> m_max_load_factor t' = m_max_load_factor t
        \<and> map (bucket_view (STORE_HASH cfg)) (m_buckets_data t') = map (bucket_view (STORE_HASH cfg)) (m_buckets_data t)
        \<and> elems t' = elems t \<and> m_load_threshold t' = 0" if "m_bucket_count t \<le> mx"
    unfolding assms(1) using that mx bc by (intro rmap.deserialize_serialized a d) (simp_all flip: assms(1))
  show "deserialize_impl cfg False u (serialize_impl cfg t @ s) = abort Length_error
        \<or> (\<exists>t'. deserialize_impl cfg False u (serialize_impl cfg t @ s) = ret (t', s)
            \<and> robin_ok pow2_ok cfg t' \<and> elems t' = elems t)" if "unat (m_nb_elements t) \<le> 32766"
    unfolding assms(1) by (rule rmap.deserialize_by_insertion[OF a bc that])
next
  assume "m_bucket_count t = 0"
  then show "deserialize_impl cfg hc u (serialize_impl cfg t @ s)
        = ret (set_max_load_factor (m_max_load_factor t) (set_min_load_factor (m_min_load_factor t) u), s)"
    using rmap.deserialize_none assms(2,3) unfolding assms(1) by blast
qed

lemma robin_serialize_round_trip_witness:
  "(\<exists>t'. deserialize_impl rd_cfg True rd0 (serialize_impl rd_cfg rd3 @ [Slz_u64 5]) = ret (t', [Slz_u64 5])
      \<and> elems t' = {#(7, 70), (3, 30)#} \<and> m_load_threshold t' = 0)
    \<and> (\<exists>t'. deserialize_impl rd_cfg False rd0 (serialize_impl rd_cfg rd3 @ [Slz_u64 5]) = ret (t', [Slz_u64 5])
      \<and> elems t' = {#(7, 70), (3, 30)#})"
proof -
  have e: "elems rd3 = {#(7, 70), (3, 30)#}" by (simp add: rd3_def rvalues_def)
  have lf: "min_lf_ok (m_min_load_factor rd3)"
    unfolding min_lf_ok_def RH_MINIMUM_MIN_LOAD_FACTOR_def RH_MAXIMUM_MIN_LOAD_FACTOR_def
    using fl_round_nonneg by (simp add: rd3_def)
  have "deserialize_impl rd_cfg False rd0 (serialize_impl rd_cfg rd3 @ [Slz_u64 5]) \<noteq> abort Length_error" by code_simp
  moreover have "0 < m_bucket_count rd3" "m_bucket_count rd3 \<le> 0x1000000" "unat (m_nb_elements rd3) \<le> 32766"
    "m_bucket_count rd0 = 0" by (simp_all add: rd3_def rd0_def)
  ultimately show ?thesis
    using robin_serialize_round_trip[OF rd_cfg_def rd3_ok(1) lf rd0_ok(1), of "[Slz_u64 5]"]
    unfolding e by blast
qed

section \<open>Growth policies\<close>

text \<open>The power-of-two policy: a requested bucket count from 1 to \<open>2^63\<close> becomes the least power of two
  that is not below it, the bucket of a hash is its remainder by that power, and the next count is
  \<open>GrowthFactor\<close> times as large; counts above \<open>2^63\<close> throw.\<close>

theorem power_of_two_policy:
  "(0 < n \<and> unat n \<le> 2 ^ 63 \<longrightarrow>
      (\<exists>k<64. pow2_create n = ret (2 ^ k, 2 ^ k - 1) \<and> unat n \<le> 2 ^ k \<and> (\<forall>j. unat n \<le> 2 ^ j \<longrightarrow> k \<le> j)))
    \<and> (2 ^ 63 < unat n \<longrightarrow> pow2_create n = abort Length_error)
    \<and> (k < 64 \<longrightarrow> unat (pow2_bucket_for_hash (2 ^ k - 1) h) = unat h mod 2 ^ k)
    \<and> (k < 63 \<longrightarrow> pow2_next_bucket_count 2 (2 ^ k - 1) = ret (2 ^ Suc k))
    \<and> pow2_next_bucket_count 2 (2 ^ 63 - 1) = abort Length_error"
proof (intro conjI impI)
  assume "0 < n \<and> unat n \<le> 2 ^ 63"
  then have n: "0 < n" "unat n \<le> 2 ^ 63" by auto
  from round_up_least[OF n] obtain k where k: "k < 64" "round_up_to_power_of_two n = 2 ^ k" "unat n \<le> 2 ^ k"
    "\<forall>j. unat n \<le> 2 ^ j \<longrightarrow> k \<le> j" by blast
  have "pow2_create n = ret (2 ^ k, 2 ^ k - 1)"
    using n k(2) leD[of n "2 ^ 63"] unat_le_63[of n] by (simp add: pow2_create_def pow2_max Let_def)
  with k show "\<exists>k<64. pow2_create n = ret (2 ^ k, 2 ^ k - 1) \<and> unat n \<le> 2 ^ k \<and> (\<forall>j. unat n \<le> 2 ^ j \<longrightarrow> k \<le> j)"
    by blast
next
  assume "2 ^ 63 < unat n"
  then have "pow2_max_bucket_count < n" unfolding pow2_max not_le[symmetric] unat_le_63 by simp
  then show "pow2_create n = abort Length_error" by (simp add: pow2_create_def)
next
  assume "k < 64"
  then show "unat (pow2_bucket_for_hash (2 ^ k - 1) h) = unat h mod 2 ^ k"
    by (simp add: pow2_bucket_for_hash_def unsigned_take_bit_eq flip: mask_eq_exp_minus_1 take_bit_eq_mask take_bit_eq_mod)
next
  assume k: "k < 63"
  have "(2 ^ k :: u64) \<le> 2 ^ 62"
    unfolding word_le_nat_alt using k unat_p2[of k, where 'a = 64] unat_p2[of 62, where 'a = 64]
      power_increasing[of k 62 "2 :: nat"] by simp
  moreover have "(2 ^ 63 :: u64) div 2 = 2 ^ 62" by simp
  ultimately show "pow2_next_bucket_count 2 (2 ^ k - 1) = ret (2 ^ Suc k)"
    by (simp add: pow2_next_bucket_count_def pow2_max mult.commute)
qed (simp add: pow2_next_bucket_count_def pow2_max_bucket_count_def)

lemma power_of_two_policy_witness:
  "(\<exists>k<64. pow2_create 100 = ret (2 ^ k, 2 ^ k - 1) \<and> 100 \<le> (2 :: nat) ^ k)
    \<and> pow2_bucket_for_hash 127 1000 = 104"
  using power_of_two_policy[of 100 7 1000] by (auto simp: pow2_bucket_for_hash_def)

text \<open>C34. The prime policy rounds a bucket count up to the next prime of its table and hashes by the
  remainder; the modulo policy (with its default factor 3/2) does not round: it takes the count as it is,
  with the divisor 1 for the count 0, and hashes by the remainder. Both reject counts beyond their largest,
  the next bucket count they give is larger than the current one and within the largest, and at the
  largest they throw.\<close>

theorem prime_and_mod_policies:
  "(prime_create n = abort Length_error \<and> 6597069766657 < n
      \<or> (\<exists>m i. prime_create n = ret (m, i) \<and> i < 51 \<and> n \<le> m \<and> m = (if n = 0 then 0 else PRIMES ! i)
          \<and> (\<forall>j<i. PRIMES ! j < n)))
    \<and> (i < 51 \<longrightarrow> prime_bucket_for_hash i h = h mod PRIMES ! i \<and> prime_bucket_for_hash i h < PRIMES ! i)
    \<and> (i < 50 \<longrightarrow> prime_next_bucket_count i = ret (PRIMES ! Suc i) \<and> PRIMES ! i < PRIMES ! Suc i)
    \<and> prime_next_bucket_count 50 = abort Length_error
    \<and> mod_create (mod_factor 3 2) n = (if mod_max_bucket_count (mod_factor 3 2) < n then abort Length_error
        else ret (n, if n = 0 then 1 else n))
    \<and> (0 < p \<and> p < mod_max_bucket_count (mod_factor 3 2) \<longrightarrow>
        mod_bucket_for_hash p h = h mod p \<and> mod_bucket_for_hash p h < p
        \<and> (\<exists>m. mod_next_bucket_count (mod_factor 3 2) p = ret m \<and> p < m \<and> m \<le> mod_max_bucket_count (mod_factor 3 2)))
    \<and> mod_next_bucket_count (mod_factor 3 2) (mod_max_bucket_count (mod_factor 3 2)) = abort Length_error"
proof (intro conjI impI)
  show "prime_create n = abort Length_error \<and> 6597069766657 < n
      \<or> (\<exists>m i. prime_create n = ret (m, i) \<and> i < 51 \<and> n \<le> m \<and> m = (if n = 0 then 0 else PRIMES ! i)
          \<and> (\<forall>j<i. PRIMES ! j < n))"
    by (rule prime_create_spec)
next
  assume "i < 51"
  then show "prime_bucket_for_hash i h = h mod PRIMES ! i" "prime_bucket_for_hash i h < PRIMES ! i"
    using PRIMES_pos[of i] by (simp_all add: prime_bucket_for_hash_def MOD_PRIME_nth prime_mod_def word_mod_less_divisor)
next
  assume i: "i < 50"
  then show "prime_next_bucket_count i = ret (PRIMES ! Suc i)" by (simp add: prime_next_bucket_count_def)
  show "PRIMES ! i < PRIMES ! Suc i" using i by (intro sorted_wrt_nth_less[OF PRIMES_sorted]) auto
next
  assume "0 < p \<and> p < mod_max_bucket_count (mod_factor 3 2)"
  then show "mod_bucket_for_hash p h = h mod p" "mod_bucket_for_hash p h < p"
    "\<exists>m. mod_next_bucket_count (mod_factor 3 2) p = ret m \<and> p < m \<and> m \<le> mod_max_bucket_count (mod_factor 3 2)"
    using mod_next_below[of p] by (simp_all add: mod_bucket_for_hash_def word_mod_less_divisor mod_factor_3_2)
qed (simp_all add: prime_next_bucket_count_def mod_next_bucket_count_def mod_create_def word_gt_0)

lemma prime_and_mod_policies_witness:
  "(\<exists>m i. prime_create 1000 = ret (m, i) \<and> 1000 \<le> m) \<and> prime_bucket_for_hash 2 100 = 15
    \<and> mod_bucket_for_hash 10 107 < 10"
proof -
  have "(10 :: u64) < mod_max_bucket_count (mod_factor 3 2)" by (simp add: mod_factor_3_2 mod_max_3_2 word_less_nat_alt)
  then show ?thesis using prime_and_mod_policies[of 1000 2 100 10] prime_and_mod_policies[of 0 0 107 10]
    by (auto simp: PRIMES_def)
qed

end
