(* ===== verification/Spec2Isabelle.thy ===== *)
theory Spec2Isabelle
  imports AnkerlProps Foundations Program RobinProps
begin

text \<open>
  SimdHash: a C++ library of open-addressing hash tables whose slots are searched 16 at a time with SIMD
  instructions (\<^verbatim>\<open>src/src/include/SimdHash.h\<close>), and a program that tests them and measures
  them against other tables (\<^verbatim>\<open>src/src/Application.cpp\<close>,
  \<^verbatim>\<open>src/src/include/BenchHash.h\<close>, \<^verbatim>\<open>src/src/DataSet.cpp\<close>). This development
  models the tables, two of the tables they are compared with (\<open>tsl::robin_map\<close>,
  \<^verbatim>\<open>src/src/include/tsl\<close>, and \<open>ankerl::unordered_dense::map\<close>,
  \<^verbatim>\<open>src/src/include/unordered_dense.h\<close>), and the program around them. Definitions have the names of the
  code where Isabelle allows it.

  \<^bold>\<open>How the program is put together.\<close> \<open>main\<close> reads the arguments into flags and runs a command: \<open>rnd\<close> writes a
  file of different random numbers, \<open>selftest\<close> and \<open>selftest1\<close> check the tables, and \<open>run\<close> reads the file into
  the global vector \<open>data_set\<close> and calls, for each chosen table class, a function \<open>Bench\<dots>\<close> that runs the function
  template \<open>Bench\<close> for each chosen hash function. \<open>Bench\<close> loops over the loads; for each it makes an object
  through \<open>BenchObjectWrapper\<close> (\<open>Init\<close>), fills it, runs one of five tests and checks the keys. A table of
  \<open>SimdHash.h\<close> (\<open>Core\<close>) has one byte of tag per slot (\<open>TagArray\<close>: the low seven bits of the hash, or the marks for
  an empty slot and for a tombstone), the entries in pages (\<open>EntryArray\<close>), and the sizes that follow from the
  capacity; a search loads groups of tags (\<open>TagVector\<close>) along a probe sequence and compares the keys of the slots
  whose tag matches.

  \<^bold>\<open>Representation.\<close> Machine integers are words of their width. A pure loop that may not end is an
  option (\<open>None\<close>: it does not return); an operation that may also abort has the type \<open>run\<close> of theory \<open>Prelude\<close>, a
  failure (\<open>abort\<close>), no return (\<open>diverge\<close>) or a value (\<open>ret\<close>). Both headers redefine \<open>assert\<close>, so that it is
  active in every build: a failed assertion is an \<open>abort\<close>. \<open>float\<close> and \<open>double\<close> are rational numbers that
  are rounded to nearest even after each operation (theory \<open>Floats\<close>). Uninitialised memory is an argument of the model
  (\<open>cfg_fill\<close>, \<open>cfg_raw\<close>, the state before a constructor), over which the theorems are quantified.

  \<^bold>\<open>Theories.\<close>
    \<^item> \<open>Prelude\<close>: outcomes, their binds and folds, collections of rules, words and lists. \<open>Floats\<close>: rounding.
    \<^item> \<open>Bits\<close> (\<open>TrailingZeroCount\<close>, \<open>RoundUpToPowerOf2\<close>, \<open>Hash\<close>), \<open>TagVector\<close> (the masks), \<open>TagArray\<close>,
      \<open>EntryArray\<close>, \<open>Capacity\<close> (\<open>AdjustCapacity\<close>, \<open>max_load_factor\<close>, \<open>AdjustTupleIndex\<close>): the parts under \<open>Core\<close>,
      each with its functional laws. \<open>Probe\<close>: the probe sequence, a locale for its arithmetic that is interpreted on
      \<open>AdjustTupleIndex\<close>. \<open>Foundations\<close>: the properties of these parts.
    \<^item> \<open>Core\<close>: the state and the operations of \<open>Core\<close>. \<open>Slots\<close>: the invariant of the slots (tags are those of the
      keys, the mirrored tags at the end agree, every key is on its probe sequence before the first empty slot).
      \<open>Search\<close> and \<open>Contents\<close>: what the searches find, the multiset of entries. \<open>Rehashing\<close>: the
      in-place rehash, with an invariant for the chains of displaced entries. \<open>Sizing\<close>: \<open>Resize\<close>, \<open>Clear\<close>, the
      constructor. \<open>Operations\<close>: \<open>Add\<close>, \<open>Remove\<close>, \<open>Rehash\<close> keep the invariant and change the entries as they
      should. \<open>Api\<close>: \<open>Map\<close>, \<open>Set\<close>, \<open>Index\<close>, their abstract values, the step relation \<open>core_step\<close> and its reachable
      tables. \<open>Iterator\<close>: \<open>ConstIterator\<close>. \<open>Demo\<close>: tables for the witnesses. \<open>Tables\<close>: the properties.
    \<^item> \<open>GrowthPolicy\<close>: the three policies of \<^verbatim>\<open>robin_growth_policy.h\<close> and the locale
      \<open>growth_policy\<close>, interpreted on each. \<open>RobinHash\<close>, \<open>RobinOps\<close>: state and operations of \<open>robin_hash\<close>.
      \<open>RobinTable\<close>, \<open>RobinBuckets\<close>, \<open>RobinShift\<close>, \<open>RobinSearch\<close>, \<open>RobinInsert\<close>, \<open>RobinWalk\<close>, \<open>RobinLoops\<close>, \<open>RobinGrow\<close>:
      the Robin Hood invariant and that each loop keeps it. \<open>RobinApi\<close>, \<open>RobinMaps\<close>, \<open>RobinMore\<close>,
      \<open>RobinSerial\<close>, \<open>RobinErase\<close>, \<open>RobinHistory\<close>: maps and sets over any growth policy (locales \<open>robin\<close>, \<open>robin_maps\<close>,
      \<open>robin_sets\<close>, interpreted on \<open>robin_map\<close>, \<open>robin_set\<close> and their prime variants), the range operations,
      serialization, what \<open>erase(first, end())\<close> leaves, histories. \<open>RobinProps\<close>: the properties.
    \<^item> \<open>Wyhash\<close>: the hash functions of \<^verbatim>\<open>unordered_dense.h\<close>. \<open>AnkerlTable\<close>, \<open>AnkerlOps\<close>: the members and
      the operations of \<open>detail::table\<close>, whose values lie in a vector and whose buckets are an index of it.
      \<open>AnkerlBuckets\<close>: the ring of the buckets and its invariant \<open>ring_ok\<close>; \<open>AnkerlSearch\<close>, \<open>AnkerlFind\<close>: what the
      loops from the home of a hash find; \<open>AnkerlInsert\<close>, \<open>AnkerlErase\<close>: shifting up and down; \<open>AnkerlGrow\<close>: the
      invariant \<open>dense_ok\<close> of a table, insertion, \<open>reserve\<close>, \<open>rehash\<close>; \<open>AnkerlRemove\<close>: all erasures;
      \<open>AnkerlMaps\<close>, \<open>AnkerlHistory\<close>: maps as finite partial functions, copies and moves, \<open>replace\<close>, comparison, histories.
      \<open>AnkerlBench\<close>: the table of the benchmark. \<open>AnkerlProps\<close>: the properties.
    \<^item> \<open>Dispatch\<close> (the functions at the end of \<^verbatim>\<open>BenchHash.h\<close>), \<open>BenchObject\<close> (\<open>BenchObjectWrapper\<close>,
      \<open>Bench\<close>). \<open>BenchContract\<close>: the contract of a table of keys as the locale \<open>key_table\<close> and, with removal,
      \<open>removal_table\<close>; \<open>BenchTests\<close>, \<open>BenchRuns\<close>, \<open>BenchLoads\<close>, \<open>BenchFailures\<close>: the tests and loops, proved
      once in these locales. \<open>BenchSimd\<close>, \<open>BenchRobin\<close> and \<open>AnkerlBench\<close> interpret them on the tables; \<open>BenchProps\<close>: the properties.
    \<^item> \<open>Arguments\<close>, \<open>MainProgram\<close>, \<open>MainProps\<close>: the options and \<open>main\<close>. \<open>DataSet\<close>, \<open>DataProps\<close>: the file. \<open>SelfTest\<close>,
      \<open>SelfTest1\<close>: \<open>TEST\<close> and \<open>TEST1\<close>. \<open>Program\<close>: all of it together.

  \<^bold>\<open>What is proved.\<close> A map, a set and an index behave like a finite partial function, a finite set and a list
  without repetitions; their searches end, \<open>Rehash\<close> of a table with entries reclaims the tombstones, \<open>Resize\<close> keeps the
  entries, the iterator visits every entry once and never loads at an address that is misaligned or outside the
  tags, and in every mode a table satisfies the invariant after any sequence of public operations that return. \<open>robin_map\<close> and
  \<open>ankerl::unordered_dense::map\<close> hold what their histories describe; \<open>deserialize\<close> reads what \<open>serialize\<close> wrote, bucket by bucket or by inserting the values; the
  buckets of \<open>unordered_dense\<close> are an exact index of its values, on which its five kinds of search agree. A data set that is written is read
  back. The benchmarks and the self test run to their ends, from the arguments of \<open>main\<close> on. The same theorems
  have the conditions under which this fails: tombstones that hide a key from \<open>Add\<close> or fill the table, \<open>Clear\<close> to
  a smaller size, the fix that overlooks bit 12, loads and steps that fail assertions or never end, erasure to the
  end of a \<open>robin_map\<close>.

  \<^bold>\<open>Bounds.\<close> No fuel is used. The theorems about additions ask that the next growth is possible (\<open>growable\<close>,
  which holds below \<open>2 ^ 30\<close> elements for capacities that are powers of two); that bound is \<open>simd_bound\<close> of the benchmark.
  A search needs 16 slots that were never used (\<open>searchable\<close>), and a rehash 16 free slots and a capacity that is
  coprime to 15 (\<open>roomy\<close>) to be sure to end; what is said of \<open>Rehash\<close>, \<open>Resize\<close> and the reachable tables
  beyond that is about calls that return (\<open>returns_if\<close> of \<open>Prelude\<close> says both at once). The distances of a \<open>robin_hash\<close> are 16-bit
  numbers without a check in the rehash: with at most 32766 values (\<open>robin_bound\<close>) none can overflow. The
  distances of \<open>unordered_dense\<close> have 24 bits: its tables are treated up to 16777214 values (\<open>dense_bound\<close>), for load factors
  between 1/2 and 125/128 (\<open>ankerl_lf_ok\<close>) and arguments of \<open>reserve\<close> and \<open>rehash\<close> up to \<open>2 ^ 30\<close>
  (\<open>reservable\<close> is the exact condition).

  \<^bold>\<open>Parameters.\<close> The hash functions of other libraries, \<open>std::sample\<close> with its engine, \<open>std::shuffle\<close>, the random
  engine of \<open>rnd\<close> and the Judy array are arguments. About them it is assumed where needed that a sample is a
  subsequence of the right length (\<open>sampler_ok\<close>) and that \<open>Judy1Set\<close> tells whether the number was new (\<open>judy_ok\<close>).

  \<^bold>\<open>Not modelled.\<close> \<open>Map::Update\<close> and \<open>Index::GetIndex\<close> do not compile when they are instantiated. Times, memory
  use, window titles, the names of the objects (\<open>name\<close>, \<open>short_name\<close>: demangled type names) and the output for Python
  have no effect on the tables. Allocation never fails, except for the length errors of \<open>robin_hash\<close>; exceptions
  of the element type and transparent keys are left out. Of \<open>unordered_dense\<close> are left out the bucket type \<open>big\<close>, the
  segmented containers and allocators that are not equal, and \<open>extract()\<close> of the whole container. The other tables that are compared
  (\<open>absl\<close>, \<open>emhash7\<close>, \<open>emhash8\<close>) are third-party code: their benchmarks are the field
  \<open>env_other\<close> of the environment. \<open>tsl::robin_set\<close> is modelled as a table, but not in a benchmark, since \<open>main\<close> cannot
  reach it.
\<close>

end
